(* ===== verification/Zc_Prelude.thy ===== *)
theory Zc_Prelude
  imports Main "HOL-Library.Word"
begin

text \<open>
  Prelude of the development: the machine integer types, results and panics, little-endian
  byte strings, Rust's integer operations on bounded naturals and integers, a byte reader,
  and the list lemmas the components share.

  \<^item> \<open>u8\<close>, \<open>u16\<close>, \<open>u32\<close>, \<open>u64\<close>, \<open>u256\<close> are words; amounts and counters whose overflow
    behaviour is written out are \<open>nat\<close> or \<open>int\<close> with the operations \<open>u64_add\<close>,
    \<open>i64_add\<close> and so on, which wrap as release builds of the crates do (the profiles of
    the workspace do not enable overflow checks there); the components prove that the
    wrap-around is never met where the code relies on it.
  \<^item> \<open>Result<T, E>\<close> is \<open>'e + 'a\<close>, with \<open>Inl\<close> the error. A Rust panic (a failed \<open>assert!\<close>,
    \<open>expect\<close>, \<open>unwrap\<close> or an out-of-range index) is \<open>None\<close> of an option type whose
    \<open>Some\<close> holds what the function returns; a function that can both panic and fail has
    type \<open>('e + 'a) option\<close>.
\<close>

section \<open>Machine integers\<close>

type_synonym u8 = "8 word"
type_synonym u16 = "16 word"
type_synonym u32 = "32 word"
type_synonym u64 = "64 word"
type_synonym u256 = "256 word"
type_synonym bytes = "u8 list"

named_theorems arith_model \<open>definitions of the fixed-width operations on nat and int\<close>

definition u64_max :: nat where
  "u64_max = 18446744073709551615"

definition u64_ok :: "nat \<Rightarrow> bool" where
  "u64_ok n \<longleftrightarrow> n < 18446744073709551616"

definition i64_ok :: "int \<Rightarrow> bool" where
  "i64_ok i \<longleftrightarrow> - 9223372036854775808 \<le> i \<and> i < 9223372036854775808"

definition u64_add :: "nat \<Rightarrow> nat \<Rightarrow> nat" where
  [arith_model]: "u64_add a b = (a + b) mod 18446744073709551616"

definition u64_sub :: "nat \<Rightarrow> nat \<Rightarrow> nat" where
  [arith_model]: "u64_sub a b = nat ((int a - int b) mod 18446744073709551616)"

definition u64_mul :: "nat \<Rightarrow> nat \<Rightarrow> nat" where
  [arith_model]: "u64_mul a b = (a * b) mod 18446744073709551616"

definition u64_checked_add :: "nat \<Rightarrow> nat \<Rightarrow> nat option" where
  [arith_model]: "u64_checked_add a b = (if a + b < 18446744073709551616 then Some (a + b) else None)"

definition u64_checked_sub :: "nat \<Rightarrow> nat \<Rightarrow> nat option" where
  [arith_model]: "u64_checked_sub a b = (if b \<le> a then Some (a - b) else None)"

definition u64_checked_mul :: "nat \<Rightarrow> nat \<Rightarrow> nat option" where
  [arith_model]: "u64_checked_mul a b = (if a * b < 18446744073709551616 then Some (a * b) else None)"

definition u64_saturating_sub :: "nat \<Rightarrow> nat \<Rightarrow> nat" where
  [arith_model]: "u64_saturating_sub a b = a - b"

definition i64_wrap :: "int \<Rightarrow> int" where
  [arith_model]: "i64_wrap i = (i + 9223372036854775808) mod 18446744073709551616 - 9223372036854775808"

definition i64_add :: "int \<Rightarrow> int \<Rightarrow> int" where
  [arith_model]: "i64_add a b = i64_wrap (a + b)"

definition i64_sub :: "int \<Rightarrow> int \<Rightarrow> int" where
  [arith_model]: "i64_sub a b = i64_wrap (a - b)"

definition i64_neg :: "int \<Rightarrow> int" where
  [arith_model]: "i64_neg a = i64_wrap (- a)"

definition i64_checked_mul :: "int \<Rightarrow> int \<Rightarrow> int option" where
  [arith_model]: "i64_checked_mul a b =
     (if - 9223372036854775808 \<le> a * b \<and> a * b < 9223372036854775808 then Some (a * b) else None)"

text \<open>Saturating operations on words.\<close>

definition word_saturating_add :: "'a::len word \<Rightarrow> 'a word \<Rightarrow> 'a word" where
  "word_saturating_add a b = (if unat a + unat b < 2 ^ LENGTH('a) then a + b else - 1)"

definition word_saturating_sub :: "'a::len word \<Rightarrow> 'a word \<Rightarrow> 'a word" where
  "word_saturating_sub a b = (if b \<le> a then a - b else 0)"

text \<open>Checked operations on words.\<close>

definition word_checked_mul :: "'a::len word \<Rightarrow> 'a word \<Rightarrow> 'a word option" where
  "word_checked_mul a b = (if unat a * unat b < 2 ^ LENGTH('a) then Some (a * b) else None)"

definition word_checked_sub :: "'a::len word \<Rightarrow> 'a word \<Rightarrow> 'a word option" where
  "word_checked_sub a b = (if b \<le> a then Some (a - b) else None)"

lemma word_checked_mul_Some:
  "word_checked_mul a b = Some c \<Longrightarrow> unat (c :: 'a::len word) = unat a * unat b"
  by (auto simp: word_checked_mul_def unat_word_ariths split: if_splits)

lemma word_checked_sub_Some: "word_checked_sub a b = Some c \<Longrightarrow> b \<le> a \<and> unat c = unat a - unat b"
  by (auto simp: word_checked_sub_def unat_sub word_le_nat_alt split: if_splits)

lemma unat_minus_one: "unat (- 1 :: 'a::len word) = 2 ^ LENGTH('a) - 1"
  by (simp add: unsigned_minus_1_eq_mask mask_eq_exp_minus_1)

lemma unat_saturating_add:
  "unat (word_saturating_add a b :: 'a::len word) = min (unat a + unat b) (2 ^ LENGTH('a) - 1)"
  by (auto simp: word_saturating_add_def unat_word_ariths unat_minus_one)

lemma unat_saturating_sub: "unat (word_saturating_sub a b) = unat a - unat b"
  by (auto simp: word_saturating_sub_def unat_sub word_le_nat_alt)

text \<open>Where no wrap-around happens the operations are those of the integers.\<close>

lemma u64_add_exact [simp]: "u64_ok (a + b) \<Longrightarrow> u64_add a b = a + b"
  by (simp add: u64_add_def u64_ok_def)

lemma u64_sub_exact [simp]: "b \<le> a \<Longrightarrow> u64_ok a \<Longrightarrow> u64_sub a b = a - b"
proof -
  assume "b \<le> a" and "u64_ok a"
  then have "(int a - int b) mod 18446744073709551616 = int a - int b"
    by (intro mod_pos_pos_trivial) (simp_all add: u64_ok_def)
  with \<open>b \<le> a\<close> show ?thesis by (simp add: u64_sub_def)
qed

lemma u64_mul_exact [simp]: "u64_ok (a * b) \<Longrightarrow> u64_mul a b = a * b"
  by (simp add: u64_mul_def u64_ok_def)

lemma i64_wrap_exact [simp]: "i64_ok i \<Longrightarrow> i64_wrap i = i"
  by (simp add: i64_wrap_def i64_ok_def)

lemma i64_ok_wrap: "i64_ok (i64_wrap i)"
proof -
  have "0 \<le> (i + 9223372036854775808) mod 18446744073709551616"
    and "(i + 9223372036854775808) mod 18446744073709551616 < 18446744073709551616"
    by simp_all
  then show ?thesis unfolding i64_ok_def i64_wrap_def by linarith
qed

section \<open>Little-endian byte strings\<close>

text \<open>Rust's \<open>to_le_bytes\<close> and \<open>from_le_bytes\<close> on an integer of any width.\<close>

definition to_le_bytes :: "'a::len word \<Rightarrow> bytes" where
  "to_le_bytes w = map (\<lambda>i. ucast (drop_bit (8 * i) w)) [0..<LENGTH('a) div 8]"

primrec from_le_bytes :: "bytes \<Rightarrow> 'a::len word" where
  "from_le_bytes [] = 0"
| "from_le_bytes (b # bs) = or (ucast b) (push_bit 8 (from_le_bytes bs))"

lemma length_to_le_bytes [simp]: "length (to_le_bytes (w :: 'a::len word)) = LENGTH('a) div 8"
  by (simp add: to_le_bytes_def)

lemma bit_from_le_bytes:
  "bit (from_le_bytes bs :: 'a::len word) n \<longleftrightarrow>
     n < LENGTH('a) \<and> n div 8 < length bs \<and> bit (bs ! (n div 8)) (n mod 8)"
proof (induction bs arbitrary: n)
  case Nil
  then show ?case by simp
next
  case (Cons b bs)
  show ?case
  proof (cases "n < 8")
    case True
    then show ?thesis
      by (auto simp: bit_or_iff bit_ucast_iff bit_push_bit_iff)
  next
    case False
    then have "n div 8 = Suc ((n - 8) div 8)" and "n mod 8 = (n - 8) mod 8"
      by (auto simp: le_div_geq le_mod_geq)
    moreover have "\<not> bit b n" using False bit_imp_le_length [of b n] by auto
    ultimately show ?thesis using False Cons.IH [of "n - 8"]
      by (auto simp: bit_or_iff bit_ucast_iff bit_push_bit_iff)
  qed
qed

lemma from_to_le_bytes [simp]:
  assumes "8 dvd LENGTH('a)"
  shows "from_le_bytes (to_le_bytes w) = (w :: 'a::len word)"
proof (rule bit_word_eqI)
  fix n assume n: "n < LENGTH('a)"
  then have "n div 8 < LENGTH('a) div 8" using assms by (auto simp: less_mult_imp_div_less)
  moreover have "n mod 8 + 8 * (n div 8) = n" by simp
  ultimately show "bit (from_le_bytes (to_le_bytes w) :: 'a word) n = bit w n"
    using n by (simp add: bit_from_le_bytes to_le_bytes_def bit_ucast_iff bit_drop_bit_eq)
qed

lemma to_from_le_bytes [simp]:
  assumes "length bs = LENGTH('a) div 8"
  shows "to_le_bytes (from_le_bytes bs :: 'a::len word) = bs"
proof (rule nth_equalityI)
  show "length (to_le_bytes (from_le_bytes bs :: 'a word)) = length bs" by (simp add: assms)
next
  fix i assume "i < length (to_le_bytes (from_le_bytes bs :: 'a word))"
  then have i: "i < LENGTH('a) div 8" by simp
  have bound: "8 * i + n < LENGTH('a)" if "n < 8" for n
  proof -
    have "8 * i + 8 \<le> 8 * (LENGTH('a) div 8)" using i by linarith
    also have "\<dots> \<le> LENGTH('a)" by simp
    finally show ?thesis using that by linarith
  qed
  show "to_le_bytes (from_le_bytes bs :: 'a word) ! i = bs ! i"
    by (rule bit_word_eqI)
      (use i assms bound in \<open>auto simp: to_le_bytes_def bit_ucast_iff bit_drop_bit_eq bit_from_le_bytes\<close>)
qed

text \<open>Casts between widths that lose nothing.\<close>

lemma unat_ucast_small:
  "unat n < 2 ^ LENGTH('b::len) \<Longrightarrow> unat (ucast (n :: 'a::len word) :: 'b word) = unat n"
  by (simp add: unsigned_ucast_eq take_bit_nat_eq_self)

lemma ucast_ucast_small:
  "unat n < 2 ^ LENGTH('b::len) \<Longrightarrow> ucast (ucast (n :: 'a::len word) :: 'b word) = n"
  by (simp add: word_unat_eq_iff unsigned_ucast_eq unsigned_take_bit_eq take_bit_nat_eq_self)

lemma unat_ucast_up:
  "LENGTH('a::len) \<le> LENGTH('b::len) \<Longrightarrow> unat (ucast (n :: 'a word) :: 'b word) = unat n"
  by (rule unat_ucast_small) (rule less_le_trans [OF unsigned_less], simp)

lemma ucast_ucast_up:
  "LENGTH('a::len) \<le> LENGTH('b::len) \<Longrightarrow> ucast (ucast (n :: 'a word) :: 'b word) = n"
  by (rule bit_word_eqI) (use bit_imp_le_length in \<open>fastforce simp: bit_ucast_iff\<close>)

lemmas cast_simps =
  unat_ucast_small ucast_ucast_small unat_ucast_up ucast_ucast_up
  word_less_nat_alt word_le_nat_alt

section \<open>Readers and writers\<close>

text \<open>
  \<open>io::Read\<close> on a byte slice consumes a prefix; \<open>io::Write\<close> on a vector appends. A reader is
  a function of the remaining input, a writer returns the bytes it appends.
\<close>

datatype io_error = UnexpectedEof | InvalidInput | InvalidData | WriteZero

type_synonym 'a reader = "bytes \<Rightarrow> io_error + 'a \<times> bytes"
type_synonym writer = "io_error + bytes"

definition read_exact :: "nat \<Rightarrow> bytes reader" where
  "read_exact n bs = (if n \<le> length bs then Inr (take n bs, drop n bs) else Inl UnexpectedEof)"

definition read_return :: "'a \<Rightarrow> 'a reader" where
  "read_return x bs = Inr (x, bs)"

definition read_fail :: "io_error \<Rightarrow> 'a reader" where
  "read_fail e bs = Inl e"

definition read_bind :: "'a reader \<Rightarrow> ('a \<Rightarrow> 'b reader) \<Rightarrow> 'b reader" where
  "read_bind m f bs = (case m bs of Inl e \<Rightarrow> Inl e | Inr (x, rest) \<Rightarrow> f x rest)"

definition write_seq :: "writer \<Rightarrow> writer \<Rightarrow> writer" where
  "write_seq w v = (case w of Inl e \<Rightarrow> Inl e
     | Inr xs \<Rightarrow> (case v of Inl e \<Rightarrow> Inl e | Inr ys \<Rightarrow> Inr (xs @ ys)))"

text \<open>A reader for the bytes of one machine integer, as \<open>read_exact\<close> into a fixed buffer.\<close>

definition read_le :: "'a::len word reader" where
  "read_le = read_bind (read_exact (LENGTH('a) div 8)) (\<lambda>bs. read_return (from_le_bytes bs))"

lemma read_exact_append [simp]: "length xs = n \<Longrightarrow> read_exact n (xs @ rest) = Inr (xs, rest)"
  by (simp add: read_exact_def)

lemma read_exact_Inr: "read_exact n bs = Inr (xs, rest) \<longleftrightarrow> length xs = n \<and> bs = xs @ rest"
  by (auto simp: read_exact_def split: if_splits)

lemma read_return_Inr [simp]: "read_return x bs = Inr (y, rest) \<longleftrightarrow> x = y \<and> bs = rest"
  by (simp add: read_return_def)

lemma read_return_eq [simp]: "read_return x bs = Inr (x, bs)"
  by (simp add: read_return_def)

lemma read_fail_eq [simp]: "read_fail e bs = Inl e"
  by (simp add: read_fail_def)

lemma read_bind_step: "m bs = Inr (x, rest) \<Longrightarrow> read_bind m f bs = f x rest"
  by (simp add: read_bind_def)

lemma read_bind_Inr:
  "read_bind m f bs = Inr r \<longleftrightarrow> (\<exists>x rest. m bs = Inr (x, rest) \<and> f x rest = Inr r)"
  by (auto simp: read_bind_def split: sum.splits prod.splits)

lemma read_bind_exact [simp]:
  "length xs = n \<Longrightarrow> read_bind (read_exact n) f (xs @ rest) = f xs rest"
  by (rule read_bind_step) simp

lemma read_le_append [simp]:
  "8 dvd LENGTH('a) \<Longrightarrow> read_le (to_le_bytes (w :: 'a::len word) @ rest) = Inr (w, rest)"
  by (simp add: read_le_def)

lemma read_le_Inr:
  "8 dvd LENGTH('a) \<Longrightarrow>
   read_le bs = Inr (w :: 'a::len word, rest) \<longleftrightarrow> bs = to_le_bytes w @ rest"
  by (auto simp: read_le_def read_bind_Inr read_exact_Inr)

lemma write_seq_Inr [simp]:
  "write_seq w v = Inr out \<longleftrightarrow> (\<exists>xs ys. w = Inr xs \<and> v = Inr ys \<and> out = xs @ ys)"
  by (auto simp: write_seq_def split: sum.splits)

lemma write_seq_ok [simp]: "write_seq (Inr xs) (Inr ys) = Inr (xs @ ys)"
  by (simp add: write_seq_def)

section \<open>Iterators\<close>

text \<open>\<open>Iterator::try_fold\<close> over an option, and the same as a loop with an early return.\<close>

primrec try_fold :: "('b \<Rightarrow> 'a \<Rightarrow> 'b option) \<Rightarrow> 'b \<Rightarrow> 'a list \<Rightarrow> 'b option" where
  "try_fold f acc [] = Some acc"
| "try_fold f acc (x # xs) = (case f acc x of None \<Rightarrow> None | Some acc' \<Rightarrow> try_fold f acc' xs)"

lemma try_fold_append:
  "try_fold f acc (xs @ ys) = (case try_fold f acc xs of None \<Rightarrow> None | Some a \<Rightarrow> try_fold f a ys)"
  by (induction xs arbitrary: acc) (auto split: option.splits)

lemma try_fold_cong [fundef_cong]:
  "xs = ys \<Longrightarrow> a = b \<Longrightarrow> (\<And>x acc. x \<in> set ys \<Longrightarrow> f acc x = g acc x) \<Longrightarrow> try_fold f a xs = try_fold g b ys"
  by (induction ys arbitrary: xs a b) (auto split: option.splits)

lemma set_map_filter: "set (List.map_filter f xs) = {y. \<exists>x\<in>set xs. f x = Some y}"
  by (force simp: List.map_filter_def)

text \<open>\<open>find_map\<close>, \<open>min_by_key\<close> (the first of the least), and a change to the first element that matches.\<close>

fun find_map :: "('a \<Rightarrow> 'b option) \<Rightarrow> 'a list \<Rightarrow> 'b option" where
  "find_map f [] = None"
| "find_map f (x # xs) = (case f x of Some y \<Rightarrow> Some y | None \<Rightarrow> find_map f xs)"

lemma find_map_None: "find_map f xs = None \<longleftrightarrow> (\<forall>x\<in>set xs. f x = None)"
  by (induction xs) (auto split: option.splits)

lemma find_map_Some: "find_map f xs = Some y \<Longrightarrow> \<exists>x\<in>set xs. f x = Some y"
  by (induction xs) (auto split: option.splits)

definition min_by_key :: "('a \<Rightarrow> 'k::linorder) \<Rightarrow> 'a list \<Rightarrow> 'a option" where
  "min_by_key f xs = (if xs = [] then None else Some (arg_min_list f xs))"

lemma min_by_key_None [simp]: "min_by_key f xs = None \<longleftrightarrow> xs = []"
  by (simp add: min_by_key_def)

lemma min_by_key_Some: "min_by_key f xs = Some m \<Longrightarrow> m \<in> set xs \<and> (\<forall>x\<in>set xs. f m \<le> f x)"
  by (auto simp: min_by_key_def arg_min_list_in f_arg_min_list_f split: if_splits)

primrec update_first :: "('a \<Rightarrow> bool) \<Rightarrow> ('a \<Rightarrow> 'a) \<Rightarrow> 'a list \<Rightarrow> 'a list" where
  "update_first P f [] = []"
| "update_first P f (x # xs) = (if P x then f x # xs else x # update_first P f xs)"

lemma length_update_first [simp]: "length (update_first P f xs) = length xs"
  by (induction xs) simp_all

lemma map_update_first: "(\<And>x. x \<in> set xs \<Longrightarrow> P x \<Longrightarrow> g (f x) = g x) \<Longrightarrow> map g (update_first P f xs) = map g xs"
  by (induction xs) simp_all

lemma in_update_first: "y \<in> set (update_first P f xs) \<Longrightarrow> y \<in> set xs \<or> (\<exists>x\<in>set xs. P x \<and> y = f x)"
  by (induction xs) (auto split: if_splits)

lemma update_first_id: "(\<And>x. x \<in> set xs \<Longrightarrow> \<not> P x) \<Longrightarrow> update_first P f xs = xs"
  by (induction xs) simp_all

lemma update_first_map:
  "distinct (map k xs) \<Longrightarrow> update_first (\<lambda>x. k x = i \<and> P x) f xs = map (\<lambda>x. if k x = i \<and> P x then f x else x) xs"
proof (induction xs)
  case (Cons x xs)
  show ?case
  proof (cases "k x = i \<and> P x")
    case True
    then have "k y \<noteq> i" if "y \<in> set xs" for y
      using that Cons.prems by (metis distinct.simps(2) image_eqI list.map(2) set_map)
    then show ?thesis using True by (simp cong: map_cong)
  next
    case False
    then show ?thesis using Cons by auto
  qed
qed simp

lemma list_all2_update_first:
  "(\<And>x. x \<in> set xs \<Longrightarrow> R x x) \<Longrightarrow> (\<And>x. x \<in> set xs \<Longrightarrow> P x \<Longrightarrow> R x (f x)) \<Longrightarrow> list_all2 R xs (update_first P f xs)"
  by (induction xs) (auto simp: list_all2_same)

text \<open>\<open>usize::div_ceil\<close>.\<close>

definition nat_div_ceil :: "nat \<Rightarrow> nat \<Rightarrow> nat" where
  "nat_div_ceil n d = (let q = n div d in if 0 < n mod d then q + 1 else q)"

lemma nat_div_ceil_le_iff: "0 < d \<Longrightarrow> nat_div_ceil n d \<le> k \<longleftrightarrow> n \<le> k * d"
proof -
  assume d: "0 < d"
  have "n = n div d * d + n mod d" "n mod d < d" using d by simp_all
  show ?thesis
  proof (cases "n mod d = 0")
    case True
    then show ?thesis using d by (auto simp: nat_div_ceil_def Let_def)
  next
    case False
    have "n \<le> k * d \<longleftrightarrow> n div d < k"
    proof
      assume "n \<le> k * d"
      moreover have "n \<noteq> k * d" using False by auto
      ultimately show "n div d < k" using d by (simp add: div_less_iff_less_mult)
    next
      assume "n div d < k"
      then show "n \<le> k * d" using d by (simp add: div_less_iff_less_mult)
    qed
    then show ?thesis using False by (simp add: nat_div_ceil_def Let_def Suc_le_eq)
  qed
qed

lemma nat_div_ceil_mono: "0 < d \<Longrightarrow> n \<le> m \<Longrightarrow> nat_div_ceil n d \<le> nat_div_ceil m d"
  by (meson nat_div_ceil_le_iff order_refl order_trans)

end
