(* ===== verification/Encoding.thy ===== *)
theory Encoding
  imports Zc_Prelude
begin

text \<open>
  Model of \<open>components/zcash_encoding/src/lib.rs\<close>: \<open>CompactSize\<close>, \<open>Vector\<close>, \<open>Array\<close>,
  \<open>Optional\<close> and \<open>ReverseHex\<close>. A \<open>usize\<close> is a \<open>nat\<close> (a length), a \<open>u64\<close> is a word. The
  element functions passed to the combinators are readers and writers of the prelude. The
  locales \<open>codec\<close> and \<open>canonical_codec\<close> state what the callers of a reader/writer pair rely
  on; the combinators are proved to lift the contract, and \<open>CompactSize\<close> to satisfy it.
  The \<open>hex\<close> crate behind \<open>ReverseHex\<close> is a parameter.
\<close>

section \<open>CompactSize\<close>

definition MAX_COMPACT_SIZE :: nat where
  "MAX_COMPACT_SIZE = 0x02000000"

definition compact_size_read_unbounded :: "u64 reader" where
  "compact_size_read_unbounded =
     read_bind (read_exact 1) (\<lambda>flag_bytes.
       let flag = flag_bytes ! 0 in
       if flag < 253 then read_return (ucast flag)
       else if flag = 253 then
         read_bind read_le (\<lambda>n :: u16.
           if n < 253 then read_fail InvalidInput else read_return (ucast n))
       else if flag = 254 then
         read_bind read_le (\<lambda>n :: u32.
           if n < 0x10000 then read_fail InvalidInput else read_return (ucast n))
       else
         read_bind read_le (\<lambda>n :: u64.
           if n < 0x100000000 then read_fail InvalidInput else read_return n))"

definition compact_size_read :: "u64 reader" where
  "compact_size_read =
     read_bind compact_size_read_unbounded (\<lambda>s.
       if MAX_COMPACT_SIZE < unat s then read_fail InvalidInput else read_return s)"

text \<open>\<open>T::try_from(u64)\<close> of the target type is the argument \<open>conv\<close>.\<close>

definition compact_size_read_t :: "(u64 \<Rightarrow> 't option) \<Rightarrow> 't reader" where
  "compact_size_read_t conv =
     read_bind compact_size_read (\<lambda>n.
       case conv n of None \<Rightarrow> read_fail InvalidInput | Some t \<Rightarrow> read_return t)"

definition compact_size_write_unbounded :: "u64 \<Rightarrow> writer" where
  "compact_size_write_unbounded n =
     (if n < 253 then Inr [ucast n]
      else if n \<le> 0xFFFF then write_seq (Inr [253]) (Inr (to_le_bytes (ucast n :: u16)))
      else if n \<le> 0xFFFFFFFF then write_seq (Inr [254]) (Inr (to_le_bytes (ucast n :: u32)))
      else write_seq (Inr [255]) (Inr (to_le_bytes n)))"

definition compact_size_write :: "nat \<Rightarrow> writer" where
  "compact_size_write sz =
     (if MAX_COMPACT_SIZE < sz then Inl InvalidInput
      else compact_size_write_unbounded (of_nat sz))"

definition compact_size_serialized_size :: "nat \<Rightarrow> nat" where
  "compact_size_serialized_size s =
     (if s < 253 then 1 else if s \<le> 0xFFFF then 3 else if s \<le> 0xFFFFFFFF then 5 else 9)"

text \<open>A \<open>usize\<close> target: on the 64-bit targets the model fixes, every \<open>u64\<close> fits.\<close>

definition usize_try_from :: "u64 \<Rightarrow> nat option" where
  "usize_try_from n = Some (unat n)"

section \<open>Array, Vector and Optional\<close>

primrec array_read :: "nat \<Rightarrow> 'e reader \<Rightarrow> 'e list reader" where
  "array_read 0 func = read_return []"
| "array_read (Suc count) func =
     read_bind func (\<lambda>e. read_bind (array_read count func) (\<lambda>es. read_return (e # es)))"

primrec array_write :: "'e list \<Rightarrow> ('e \<Rightarrow> writer) \<Rightarrow> writer" where
  "array_write [] func = Inr []"
| "array_write (e # es) func = write_seq (func e) (array_write es func)"

definition vector_read :: "'e reader \<Rightarrow> 'e list reader" where
  "vector_read func =
     read_bind (compact_size_read_t usize_try_from) (\<lambda>count. array_read count func)"

definition vector_write :: "'e list \<Rightarrow> ('e \<Rightarrow> writer) \<Rightarrow> writer" where
  "vector_write vec func = write_seq (compact_size_write (length vec)) (array_write vec func)"

text \<open>\<open>NonEmpty<E>\<close> is a head and a tail; its iterator yields the head first.\<close>

definition vector_write_nonempty :: "'e \<times> 'e list \<Rightarrow> ('e \<Rightarrow> writer) \<Rightarrow> writer" where
  "vector_write_nonempty vec func =
     write_seq (compact_size_write (Suc (length (snd vec))))
       (array_write (fst vec # snd vec) func)"

definition vector_serialized_size_of_u8_vec :: "bytes \<Rightarrow> nat" where
  "vector_serialized_size_of_u8_vec vec = compact_size_serialized_size (length vec) + length vec"

definition optional_read :: "'t reader \<Rightarrow> 't option reader" where
  "optional_read func =
     read_bind (read_exact 1) (\<lambda>bytes.
       if bytes ! 0 = 0 then read_return None
       else if bytes ! 0 = 1 then read_bind func (\<lambda>t. read_return (Some t))
       else read_fail InvalidInput)"

definition optional_write :: "'t option \<Rightarrow> ('t \<Rightarrow> writer) \<Rightarrow> writer" where
  "optional_write val func =
     (case val of None \<Rightarrow> Inr [0] | Some e \<Rightarrow> write_seq (Inr [1]) (func e))"

section \<open>ReverseHex\<close>

text \<open>
  \<open>hex_encode\<close> stands for \<open>hex::encode\<close>; \<open>hex_decode\<close> for \<open>hex::decode_to_slice\<close> into a
  32-byte buffer (\<open>None\<close> for malformed hex or another length).
\<close>

definition reverse_hex_encode :: "(bytes \<Rightarrow> string) \<Rightarrow> bytes \<Rightarrow> string" where
  "reverse_hex_encode hex_encode bytes = hex_encode (rev bytes)"

definition reverse_hex_decode :: "(string \<Rightarrow> bytes option) \<Rightarrow> string \<Rightarrow> bytes option" where
  "reverse_hex_decode hex_decode hex_str =
     (case hex_decode hex_str of None \<Rightarrow> None | Some bytes \<Rightarrow> Some (rev bytes))"

section \<open>The contract of a reader/writer pair\<close>

text \<open>
  A codec writes every valid value, and reading what it wrote gives the value back and leaves
  the rest of the input. A canonical codec in addition accepts no other byte string: what it
  reads is the one encoding of a valid value.
\<close>

locale codec =
  fixes enc :: "'a \<Rightarrow> writer"
    and dec :: "'a reader"
    and ok :: "'a \<Rightarrow> bool"
  assumes roundtrip: "ok x \<Longrightarrow> \<exists>out. enc x = Inr out \<and> (\<forall>rest. dec (out @ rest) = Inr (x, rest))"
begin

lemma enc_ok: "ok x \<Longrightarrow> \<exists>out. enc x = Inr out"
  using roundtrip by blast

lemma dec_enc: "ok x \<Longrightarrow> enc x = Inr out \<Longrightarrow> dec (out @ rest) = Inr (x, rest)"
  using roundtrip by fastforce

lemma enc_inj: "ok x \<Longrightarrow> ok y \<Longrightarrow> enc x = enc y \<Longrightarrow> x = y"
proof -
  assume x: "ok x" and y: "ok y" and eq: "enc x = enc y"
  from x obtain out where "enc x = Inr out" using enc_ok by blast
  with x y eq have "dec (out @ []) = Inr (x, [])" and "dec (out @ []) = Inr (y, [])"
    using dec_enc [of _ out "[]"] by metis+
  then show "x = y" by simp
qed

text \<open>No encoding is a proper prefix of another.\<close>

lemma enc_prefix_free:
  assumes "ok x" "ok y" "enc x = Inr xs" "enc y = Inr ys" "ys = xs @ zs"
  shows "x = y \<and> zs = []"
  using dec_enc [OF assms(1,3), of zs] dec_enc [OF assms(2,4), of "[]"] assms(5) by simp

lemma array_roundtrip:
  "\<forall>x\<in>set xs. ok x \<Longrightarrow>
   \<exists>out. array_write xs enc = Inr out \<and> (\<forall>rest. array_read (length xs) dec (out @ rest) = Inr (xs, rest))"
proof (induction xs)
  case Nil
  then show ?case by simp
next
  case (Cons x xs)
  then obtain o1 o2 where "enc x = Inr o1" "array_write xs enc = Inr o2"
      "\<forall>rest. array_read (length xs) dec (o2 @ rest) = Inr (xs, rest)"
    using enc_ok by fastforce
  with Cons.prems show ?case by (auto simp: read_bind_def dec_enc)
qed

lemma codec_optional: "codec (\<lambda>v. optional_write v enc) (optional_read dec) (pred_option ok)"
proof
  fix v :: "'a option" assume "pred_option ok v"
  then show "\<exists>out. optional_write v enc = Inr out \<and> (\<forall>rest. optional_read dec (out @ rest) = Inr (v, rest))"
    by (cases v) (auto simp: optional_write_def optional_read_def read_bind_def read_exact_def
      dest!: roundtrip)
qed

end

locale canonical_codec = codec +
  assumes canonical: "dec bs = Inr (x, rest) \<Longrightarrow> ok x \<and> (\<exists>out. enc x = Inr out \<and> bs = out @ rest)"
begin

lemma dec_iff: "dec bs = Inr (x, rest) \<longleftrightarrow> ok x \<and> (\<exists>out. enc x = Inr out \<and> bs = out @ rest)"
  using canonical dec_enc by blast

lemma array_canonical:
  "array_read n dec bs = Inr (xs, rest) \<Longrightarrow>
   length xs = n \<and> (\<forall>x\<in>set xs. ok x) \<and> (\<exists>out. array_write xs enc = Inr out \<and> bs = out @ rest)"
proof (induction n arbitrary: bs xs)
  case 0
  then show ?case by simp
next
  case (Suc n)
  then show ?case
    by (fastforce simp: read_bind_Inr dest!: canonical)
qed

lemma canonical_codec_optional:
  "canonical_codec (\<lambda>v. optional_write v enc) (optional_read dec) (pred_option ok)"
proof (intro canonical_codec.intro codec_optional canonical_codec_axioms.intro)
  fix bs rest and v :: "'a option"
  assume d: "optional_read dec bs = Inr (v, rest)"
  then obtain b tl where "bs = b # tl"
    by (cases bs) (auto simp: optional_read_def read_bind_Inr read_exact_Inr)
  with d show "pred_option ok v \<and> (\<exists>out. optional_write v enc = Inr out \<and> bs = out @ rest)"
    by (auto simp: optional_read_def optional_write_def read_bind_Inr read_exact_def
      split: if_splits dest!: canonical)
qed

end

section \<open>CompactSize is a canonical codec\<close>

lemma compact_size_unbounded_roundtrip:
  "\<exists>out. compact_size_write_unbounded n = Inr out \<and>
     (\<forall>rest. compact_size_read_unbounded (out @ rest) = Inr (n, rest))"
proof -
  note defs = compact_size_write_unbounded_def compact_size_read_unbounded_def
    read_bind_def read_exact_def Let_def
  consider "n < 253" | "\<not> n < 253" "n \<le> 0xFFFF" | "\<not> n \<le> 0xFFFF" "n \<le> 0xFFFFFFFF"
    | "\<not> n \<le> 0xFFFFFFFF" by fastforce
  then show ?thesis
    by cases (simp_all add: defs cast_simps)
qed

lemma compact_size_unbounded_canonical:
  assumes r: "compact_size_read_unbounded bs = Inr (n, rest)"
  shows "\<exists>out. compact_size_write_unbounded n = Inr out \<and> bs = out @ rest"
proof -
  note rd = compact_size_read_unbounded_def read_bind_Inr read_exact_def read_le_Inr Let_def
  note wr = compact_size_write_unbounded_def cast_simps
  from r obtain flag tl where bs: "bs = flag # tl"
    by (cases bs) (auto simp: compact_size_read_unbounded_def read_bind_Inr read_exact_Inr)
  have "unat flag < 256" using unsigned_less [of flag, where ?'a = nat] by simp
  then consider "flag < 253" | "flag = 253" | "flag = 254" | "flag = 255"
    unfolding word_unat_eq_iff word_less_nat_alt by fastforce
  then show ?thesis
  proof cases
    case 1
    with r bs show ?thesis by (auto simp: rd wr)
  next
    case 2
    with r bs obtain m :: u16 where m: "tl = to_le_bytes m @ rest" "\<not> m < 253" "n = ucast m"
      by (auto simp: rd split: if_splits)
    have "unat m \<le> 0xFFFF" using unsigned_less [of m, where ?'a = nat] by simp
    with 2 m bs show ?thesis by (simp add: wr)
  next
    case 3
    with r bs obtain m :: u32 where m: "tl = to_le_bytes m @ rest" "\<not> m < 0x10000" "n = ucast m"
      by (auto simp: rd split: if_splits)
    have "unat m \<le> 0xFFFFFFFF" using unsigned_less [of m, where ?'a = nat] by simp
    with 3 m bs show ?thesis by (simp add: wr)
  next
    case 4
    with r bs obtain m :: u64 where m: "tl = to_le_bytes m @ rest" "\<not> m < 0x100000000" "n = m"
      by (auto simp: rd split: if_splits)
    with 4 bs show ?thesis by (simp add: wr)
  qed
qed

interpretation compact_unbounded: canonical_codec
  compact_size_write_unbounded compact_size_read_unbounded "\<lambda>_. True"
  by unfold_locales (simp_all add: compact_size_unbounded_roundtrip compact_size_unbounded_canonical)

text \<open>The bounded codec, from lengths to the \<open>u64\<close> that \<open>read\<close> returns, read back as a length.\<close>

definition compact_size_read_usize :: "nat reader" where
  "compact_size_read_usize = compact_size_read_t usize_try_from"

lemma unat_of_nat_compact: "n \<le> MAX_COMPACT_SIZE \<Longrightarrow> unat (of_nat n :: u64) = n"
  by (simp add: MAX_COMPACT_SIZE_def unat_of_nat take_bit_nat_eq_self)

interpretation compact: canonical_codec
  compact_size_write compact_size_read_usize "\<lambda>n. n \<le> MAX_COMPACT_SIZE"
proof
  fix n :: nat assume n: "n \<le> MAX_COMPACT_SIZE"
  obtain out where "compact_size_write_unbounded (of_nat n) = Inr out"
      "\<forall>rest. compact_size_read_unbounded (out @ rest) = Inr (of_nat n, rest)"
    using compact_size_unbounded_roundtrip by blast
  with n show "\<exists>out. compact_size_write n = Inr out \<and> (\<forall>rest. compact_size_read_usize (out @ rest) = Inr (n, rest))"
    by (auto simp: compact_size_write_def compact_size_read_usize_def compact_size_read_t_def
      compact_size_read_def read_bind_def usize_try_from_def unat_of_nat_compact)
next
  fix bs rest and n :: nat
  assume "compact_size_read_usize bs = Inr (n, rest)"
  then obtain s where s: "compact_size_read_unbounded bs = Inr (s, rest)"
      "unat s \<le> MAX_COMPACT_SIZE" "n = unat s"
    by (auto simp: compact_size_read_usize_def compact_size_read_t_def compact_size_read_def
      read_bind_Inr usize_try_from_def split: if_splits)
  with compact_size_unbounded_canonical [OF s(1)]
  show "n \<le> MAX_COMPACT_SIZE \<and> (\<exists>out. compact_size_write n = Inr out \<and> bs = out @ rest)"
    by (auto simp: compact_size_write_def)
qed

lemma compact_size_write_too_large: "MAX_COMPACT_SIZE < n \<Longrightarrow> compact_size_write n = Inl InvalidInput"
  by (simp add: compact_size_write_def)

lemma compact_size_write_length:
  "compact_size_write_unbounded n = Inr out \<Longrightarrow> length out = compact_size_serialized_size (unat n)"
  by (auto simp: compact_size_write_unbounded_def compact_size_serialized_size_def
    word_less_nat_alt word_le_nat_alt split: if_splits)

lemma compact_size_serialized_size_le_9: "compact_size_serialized_size n \<le> 9"
  by (simp add: compact_size_serialized_size_def)

section \<open>Vectors of a codec\<close>

context codec
begin

lemma codec_vector:
  "codec (\<lambda>xs. vector_write xs enc) (vector_read dec) (\<lambda>xs. length xs \<le> MAX_COMPACT_SIZE \<and> (\<forall>x\<in>set xs. ok x))"
proof
  fix xs assume ok: "length xs \<le> MAX_COMPACT_SIZE \<and> (\<forall>x\<in>set xs. ok x)"
  then obtain o1 where "compact_size_write (length xs) = Inr o1"
      "\<And>rest. compact_size_read_usize (o1 @ rest) = Inr (length xs, rest)"
    using compact.roundtrip by blast
  moreover from ok obtain o2 where "array_write xs enc = Inr o2"
      "\<forall>rest. array_read (length xs) dec (o2 @ rest) = Inr (xs, rest)"
    using array_roundtrip by blast
  ultimately show "\<exists>out. vector_write xs enc = Inr out \<and> (\<forall>rest. vector_read dec (out @ rest) = Inr (xs, rest))"
    by (auto simp: vector_write_def vector_read_def read_bind_def compact_size_read_usize_def)
qed

end

context canonical_codec
begin

lemma canonical_codec_vector:
  "canonical_codec (\<lambda>xs. vector_write xs enc) (vector_read dec)
     (\<lambda>xs. length xs \<le> MAX_COMPACT_SIZE \<and> (\<forall>x\<in>set xs. ok x))"
proof (intro canonical_codec.intro codec_vector canonical_codec_axioms.intro)
  fix bs xs rest assume "vector_read dec bs = Inr (xs, rest)"
  then obtain n tl where n: "compact_size_read_usize bs = Inr (n, tl)"
      and a: "array_read n dec tl = Inr (xs, rest)"
    by (auto simp: vector_read_def read_bind_Inr compact_size_read_usize_def)
  from compact.canonical [OF n] array_canonical [OF a]
  show "(length xs \<le> MAX_COMPACT_SIZE \<and> (\<forall>x\<in>set xs. ok x)) \<and> (\<exists>out. vector_write xs enc = Inr out \<and> bs = out @ rest)"
    by (auto simp: vector_write_def)
qed

end

text \<open>A non-empty vector has the encoding of the list of its elements.\<close>

lemma vector_write_nonempty_eq:
  "vector_write_nonempty (x, xs) func = vector_write (x # xs) func"
  by (simp add: vector_write_nonempty_def vector_write_def)

text \<open>Fixed-width integers and byte arrays of a fixed length.\<close>

definition le_write :: "'a::len word \<Rightarrow> writer" where
  "le_write w = Inr (to_le_bytes w)"

interpretation u8_codec: canonical_codec "le_write :: u8 \<Rightarrow> writer" read_le "\<lambda>_. True"
  by unfold_locales (auto simp: le_write_def read_le_Inr)

interpretation u32_codec: canonical_codec "le_write :: u32 \<Rightarrow> writer" read_le "\<lambda>_. True"
  by unfold_locales (auto simp: le_write_def read_le_Inr)

interpretation u8_vector: canonical_codec
  "\<lambda>xs. vector_write xs (le_write :: u8 \<Rightarrow> writer)" "vector_read read_le"
  "\<lambda>xs. length xs \<le> MAX_COMPACT_SIZE \<and> (\<forall>x\<in>set xs. True)"
  by (rule u8_codec.canonical_codec_vector)

lemma reverse_hex_roundtrip:
  assumes "\<And>bs. length bs = 32 \<Longrightarrow> hex_decode (hex_encode bs) = Some bs" and "length bs = 32"
  shows "reverse_hex_decode hex_decode (reverse_hex_encode hex_encode bs) = Some bs"
  using assms by (simp add: reverse_hex_decode_def reverse_hex_encode_def)

section \<open>The properties of the encodings\<close>

text \<open>
  C34. \<open>CompactSize\<close> is a canonical encoding. A byte string is read as \<open>n\<close> by \<open>read_unbounded\<close>
  exactly when it starts with what \<open>write_unbounded\<close> emits for \<open>n\<close>, so overlong forms are
  rejected; \<open>read\<close> accepts the same strings for the values up to \<open>MAX_COMPACT_SIZE\<close> and no
  others; \<open>write\<close> fails exactly above that bound; and \<open>serialized_size\<close> is the length written.
\<close>

theorem compact_size_canonical:
  "(compact_size_read_unbounded bs = Inr (n, rest) \<longleftrightarrow>
      (\<exists>out. compact_size_write_unbounded n = Inr out \<and> bs = out @ rest)) \<and>
   (compact_size_read bs = Inr (n, rest) \<longleftrightarrow>
      (\<exists>out. compact_size_write (unat n) = Inr out \<and> bs = out @ rest)) \<and>
   (compact_size_write len = Inl e \<longleftrightarrow> MAX_COMPACT_SIZE < len \<and> e = InvalidInput) \<and>
   (\<exists>out. compact_size_write_unbounded n = Inr out \<and>
      length out = compact_size_serialized_size (unat n))"
proof (intro conjI)
  show unbounded: "compact_size_read_unbounded bs = Inr (n, rest) \<longleftrightarrow>
      (\<exists>out. compact_size_write_unbounded n = Inr out \<and> bs = out @ rest)"
    using compact_unbounded.dec_iff by simp
  show "compact_size_read bs = Inr (n, rest) \<longleftrightarrow>
      (\<exists>out. compact_size_write (unat n) = Inr out \<and> bs = out @ rest)"
    using unbounded compact_unbounded.enc_ok [of n]
    by (auto simp: compact_size_read_def compact_size_write_def read_bind_Inr
        compact_unbounded.dec_iff)
  obtain out where "compact_size_write_unbounded (of_nat len) = Inr out"
    using compact_unbounded.enc_ok by blast
  then show "compact_size_write len = Inl e \<longleftrightarrow> MAX_COMPACT_SIZE < len \<and> e = InvalidInput"
    by (auto simp: compact_size_write_def)
  show "\<exists>out. compact_size_write_unbounded n = Inr out \<and>
      length out = compact_size_serialized_size (unat n)"
    using compact_unbounded.enc_ok [of n] compact_size_write_length by auto
qed

lemma array_write_bytes: "array_write xs (le_write :: u8 \<Rightarrow> writer) = Inr xs"
proof (induction xs)
  case (Cons x xs)
  have "to_le_bytes (x :: u8) = [x]" by (simp add: to_le_bytes_def)
  with Cons show ?case by (simp add: le_write_def)
qed simp

interpretation optional_u8_vector: canonical_codec
  "\<lambda>v. optional_write v (\<lambda>xs. vector_write xs (le_write :: u8 \<Rightarrow> writer))"
  "optional_read (vector_read read_le)"
  "pred_option (\<lambda>xs. length xs \<le> MAX_COMPACT_SIZE \<and> (\<forall>x\<in>set xs. True))"
  by (rule u8_vector.canonical_codec_optional)

text \<open>
  Vectors of bytes and their optional form are canonical encodings: a byte string parses
  exactly when it starts with the encoding of a vector of at most \<open>MAX_COMPACT_SIZE\<close> elements
  (of the absent value, or of such a vector), leaving the rest; the length written is the one
  \<open>serialized_size_of_u8_vec\<close> predicts.
\<close>

theorem byte_vector_canonical:
  "(vector_read read_le bs = Inr (xs :: bytes, rest) \<longleftrightarrow>
      (\<exists>out. vector_write xs le_write = Inr out \<and> bs = out @ rest)) \<and>
   (optional_read (vector_read read_le) bs = Inr (v :: bytes option, rest) \<longleftrightarrow>
      (\<exists>out. optional_write v (\<lambda>xs. vector_write xs le_write) = Inr out \<and> bs = out @ rest)) \<and>
   (vector_write xs le_write = Inl InvalidInput \<and> MAX_COMPACT_SIZE < length xs \<or>
    (\<exists>out. vector_write xs le_write = Inr out \<and> length xs \<le> MAX_COMPACT_SIZE \<and>
      length out = vector_serialized_size_of_u8_vec xs))"
proof (intro conjI)
  have bound: "vector_write ys (le_write :: u8 \<Rightarrow> writer) = Inr out \<Longrightarrow> length ys \<le> MAX_COMPACT_SIZE"
    for ys out by (auto simp: vector_write_def compact_size_write_def split: if_splits)
  then show "vector_read read_le bs = Inr (xs, rest) \<longleftrightarrow>
      (\<exists>out. vector_write xs (le_write :: u8 \<Rightarrow> writer) = Inr out \<and> bs = out @ rest)"
    unfolding u8_vector.dec_iff by auto
  show "optional_read (vector_read read_le) bs = Inr (v, rest) \<longleftrightarrow>
      (\<exists>out. optional_write v (\<lambda>xs. vector_write xs (le_write :: u8 \<Rightarrow> writer)) = Inr out \<and> bs = out @ rest)"
    unfolding optional_u8_vector.dec_iff using bound by (cases v) (auto simp: optional_write_def)
  show "vector_write xs (le_write :: u8 \<Rightarrow> writer) = Inl InvalidInput \<and> MAX_COMPACT_SIZE < length xs \<or>
    (\<exists>out. vector_write xs (le_write :: u8 \<Rightarrow> writer) = Inr out \<and> length xs \<le> MAX_COMPACT_SIZE \<and>
      length out = vector_serialized_size_of_u8_vec xs)"
  proof (cases "MAX_COMPACT_SIZE < length xs")
    case True
    then show ?thesis by (simp add: vector_write_def compact_size_write_def write_seq_def)
  next
    case False
    then obtain out where "compact_size_write_unbounded (of_nat (length xs)) = Inr out"
        "compact_size_write (length xs) = Inr out"
      using compact_unbounded.enc_ok [of "of_nat (length xs)"] by (auto simp: compact_size_write_def)
    moreover from this(1) False have "length out = compact_size_serialized_size (length xs)"
      by (simp add: compact_size_write_length unat_of_nat_compact)
    ultimately show ?thesis using False
      by (auto simp: vector_write_def array_write_bytes vector_serialized_size_of_u8_vec_def)
  qed
qed

end
