(* ===== verification/HistoryNode.thy ===== *)
theory HistoryNode
  imports Encoding
begin

text \<open>
  Model of \<open>zcash_history/src/node_data.rs\<close> and \<open>version.rs\<close>: the metadata of the nodes of the
  ZIP 221 chain history tree in its three versions, their byte encodings, and the combination of two
  nodes. The trait \<open>Version\<close> is a record of its operations. Byte arrays of 32 bytes are byte
  lists, the well-formedness predicates carrying the length. A \<open>U256\<close> is a 256-bit word; its
  addition, from the \<open>primitive_types\<close> crate, is the parameter \<open>u256_add\<close> (\<open>None\<close> is its panic),
  and BLAKE2b-256, from \<open>blake2b_simd\<close>, is the parameter \<open>blake2b\<close> of a personalization and an
  input. The transaction counters are added with the wrap-around of release builds.
\<close>

section \<open>Node data\<close>

definition MAX_NODE_DATA_SIZE :: nat where
  "MAX_NODE_DATA_SIZE = 32 + 4 + 4 + 4 + 4 + 32 + 32 + 32 + 9 + 9 + 9 + 32 + 32 + 9 + 32 + 32 + 9"

record NodeData =
  consensus_branch_id :: u32
  subtree_commitment :: bytes
  start_time :: u32
  end_time :: u32
  start_target :: u32
  end_target :: u32
  start_sapling_root :: bytes
  end_sapling_root :: bytes
  subtree_total_work :: u256
  start_height :: u64
  end_height :: u64
  sapling_tx :: u64

definition node_data_combine_inner ::
    "(u256 \<Rightarrow> u256 \<Rightarrow> u256 option) \<Rightarrow> bytes \<Rightarrow> NodeData \<Rightarrow> NodeData \<Rightarrow> NodeData option" where
  "node_data_combine_inner u256_add commitment left right =
     map_option (\<lambda>work. \<lparr>
       consensus_branch_id = consensus_branch_id left,
       subtree_commitment = commitment,
       start_time = start_time left,
       end_time = end_time right,
       start_target = start_target left,
       end_target = end_target right,
       start_sapling_root = start_sapling_root left,
       end_sapling_root = end_sapling_root right,
       subtree_total_work = work,
       start_height = start_height left,
       end_height = end_height right,
       sapling_tx = sapling_tx left + sapling_tx right\<rparr>)
     (u256_add (subtree_total_work left) (subtree_total_work right))"

definition node_data_write :: "NodeData \<Rightarrow> writer" where
  "node_data_write d =
     write_seq (Inr (subtree_commitment d))
     (write_seq (Inr (to_le_bytes (start_time d)))
     (write_seq (Inr (to_le_bytes (end_time d)))
     (write_seq (Inr (to_le_bytes (start_target d)))
     (write_seq (Inr (to_le_bytes (end_target d)))
     (write_seq (Inr (start_sapling_root d))
     (write_seq (Inr (end_sapling_root d))
     (write_seq (Inr (to_le_bytes (subtree_total_work d)))
     (write_seq (compact_size_write_unbounded (start_height d))
     (write_seq (compact_size_write_unbounded (end_height d))
       (compact_size_write_unbounded (sapling_tx d)))))))))))"

text \<open>\<open>end.checked_sub(start).and_then(|d| d.checked_add(1))\<close>: the number of blocks of a range.\<close>

definition height_count :: "u64 \<Rightarrow> u64 \<Rightarrow> u64 option" where
  "height_count s e = (if s \<le> e then (if e - s = - 1 then None else Some (e - s + 1)) else None)"

definition node_data_read :: "u32 \<Rightarrow> NodeData reader" where
  "node_data_read branch_id =
     read_bind (read_exact 32) (\<lambda>commitment.
     read_bind read_le (\<lambda>stime.
     read_bind read_le (\<lambda>etime.
     read_bind read_le (\<lambda>starget.
     read_bind read_le (\<lambda>etarget.
     read_bind (read_exact 32) (\<lambda>sroot.
     read_bind (read_exact 32) (\<lambda>eroot.
     read_bind read_le (\<lambda>work.
     read_bind compact_size_read_unbounded (\<lambda>sheight.
     read_bind compact_size_read_unbounded (\<lambda>eheight.
       if height_count sheight eheight = None then read_fail InvalidData
       else read_bind compact_size_read_unbounded (\<lambda>sapling.
         read_return \<lparr>
           consensus_branch_id = branch_id,
           subtree_commitment = commitment,
           start_time = stime,
           end_time = etime,
           start_target = starget,
           end_target = etarget,
           start_sapling_root = sroot,
           end_sapling_root = eroot,
           subtree_total_work = work,
           start_height = sheight,
           end_height = eheight,
           sapling_tx = sapling\<rparr>)))))))))))"

record NodeDataV2 =
  v1 :: NodeData
  start_orchard_root :: bytes
  end_orchard_root :: bytes
  orchard_tx :: u64

definition v2_combine_inner ::
    "(u256 \<Rightarrow> u256 \<Rightarrow> u256 option) \<Rightarrow> bytes \<Rightarrow> NodeDataV2 \<Rightarrow> NodeDataV2 \<Rightarrow> NodeDataV2 option" where
  "v2_combine_inner u256_add commitment left right =
     map_option (\<lambda>d. \<lparr>v1 = d,
       start_orchard_root = start_orchard_root left,
       end_orchard_root = end_orchard_root right,
       orchard_tx = orchard_tx left + orchard_tx right\<rparr>)
     (node_data_combine_inner u256_add commitment (v1 left) (v1 right))"

definition v2_write :: "NodeDataV2 \<Rightarrow> writer" where
  "v2_write d =
     write_seq (node_data_write (v1 d))
     (write_seq (Inr (start_orchard_root d))
     (write_seq (Inr (end_orchard_root d))
       (compact_size_write_unbounded (orchard_tx d))))"

definition v2_read :: "u32 \<Rightarrow> NodeDataV2 reader" where
  "v2_read branch_id =
     read_bind (node_data_read branch_id) (\<lambda>d.
     read_bind (read_exact 32) (\<lambda>sroot.
     read_bind (read_exact 32) (\<lambda>eroot.
     read_bind compact_size_read_unbounded (\<lambda>n.
       read_return \<lparr>v1 = d, start_orchard_root = sroot, end_orchard_root = eroot, orchard_tx = n\<rparr>))))"

record NodeDataV3 =
  v2 :: NodeDataV2
  start_ironwood_root :: bytes
  end_ironwood_root :: bytes
  ironwood_tx :: u64

definition v3_combine_inner ::
    "(u256 \<Rightarrow> u256 \<Rightarrow> u256 option) \<Rightarrow> bytes \<Rightarrow> NodeDataV3 \<Rightarrow> NodeDataV3 \<Rightarrow> NodeDataV3 option" where
  "v3_combine_inner u256_add commitment left right =
     map_option (\<lambda>d. \<lparr>v2 = d,
       start_ironwood_root = start_ironwood_root left,
       end_ironwood_root = end_ironwood_root right,
       ironwood_tx = ironwood_tx left + ironwood_tx right\<rparr>)
     (v2_combine_inner u256_add commitment (v2 left) (v2 right))"

definition v3_write :: "NodeDataV3 \<Rightarrow> writer" where
  "v3_write d =
     write_seq (v2_write (v2 d))
     (write_seq (Inr (start_ironwood_root d))
     (write_seq (Inr (end_ironwood_root d))
       (compact_size_write_unbounded (ironwood_tx d))))"

definition v3_read :: "u32 \<Rightarrow> NodeDataV3 reader" where
  "v3_read branch_id =
     read_bind (v2_read branch_id) (\<lambda>d.
     read_bind (read_exact 32) (\<lambda>sroot.
     read_bind (read_exact 32) (\<lambda>eroot.
     read_bind compact_size_read_unbounded (\<lambda>n.
       read_return \<lparr>v2 = d, start_ironwood_root = sroot, end_ironwood_root = eroot, ironwood_tx = n\<rparr>))))"

section \<open>Versions of the tree\<close>

text \<open>The bytes of \<open>b"ZcashHistory"\<close>, then the branch id.\<close>

definition personalization :: "u32 \<Rightarrow> bytes" where
  "personalization branch_id =
     [0x5A, 0x63, 0x61, 0x73, 0x68, 0x48, 0x69, 0x73, 0x74, 0x6F, 0x72, 0x79] @ to_le_bytes branch_id"

record 'd Version =
  ver_branch_id :: "'d \<Rightarrow> u32"
  ver_start_height :: "'d \<Rightarrow> u64"
  ver_end_height :: "'d \<Rightarrow> u64"
  ver_combine_inner :: "bytes \<Rightarrow> 'd \<Rightarrow> 'd \<Rightarrow> 'd option"
  ver_read :: "u32 \<Rightarrow> 'd reader"
  ver_write :: "'d \<Rightarrow> writer"

text \<open>
  \<open>combine\<close> writes both nodes into a buffer of twice the maximal size; \<open>to_bytes\<close> one node into a
  buffer of the maximal size. A write past the end fails the \<open>expect\<close>.
\<close>

definition ver_combine :: "'d Version \<Rightarrow> (bytes \<Rightarrow> bytes \<Rightarrow> bytes) \<Rightarrow> 'd \<Rightarrow> 'd \<Rightarrow> 'd option" where
  "ver_combine V blake2b left right =
     (if ver_branch_id V left \<noteq> ver_branch_id V right then None
      else case (ver_write V left, ver_write V right) of
        (Inr l, Inr r) \<Rightarrow>
          if MAX_NODE_DATA_SIZE * 2 < length (l @ r) then None
          else ver_combine_inner V (blake2b (personalization (ver_branch_id V left)) (l @ r)) left right
      | _ \<Rightarrow> None)"

definition ver_to_bytes :: "'d Version \<Rightarrow> 'd \<Rightarrow> bytes option" where
  "ver_to_bytes V d =
     (case ver_write V d of
        Inl _ \<Rightarrow> None
      | Inr out \<Rightarrow> if MAX_NODE_DATA_SIZE < length out then None else Some out)"

definition ver_from_bytes :: "'d Version \<Rightarrow> u32 \<Rightarrow> bytes \<Rightarrow> io_error + 'd" where
  "ver_from_bytes V branch_id buf = map_sum id fst (ver_read V branch_id buf)"

definition ver_hash :: "'d Version \<Rightarrow> (bytes \<Rightarrow> bytes \<Rightarrow> bytes) \<Rightarrow> 'd \<Rightarrow> bytes option" where
  "ver_hash V blake2b d =
     map_option (blake2b (personalization (ver_branch_id V d))) (ver_to_bytes V d)"

definition V1 :: "(u256 \<Rightarrow> u256 \<Rightarrow> u256 option) \<Rightarrow> NodeData Version" where
  "V1 u256_add = \<lparr>ver_branch_id = consensus_branch_id, ver_start_height = start_height,
     ver_end_height = end_height, ver_combine_inner = node_data_combine_inner u256_add,
     ver_read = node_data_read, ver_write = node_data_write\<rparr>"

definition V2 :: "(u256 \<Rightarrow> u256 \<Rightarrow> u256 option) \<Rightarrow> NodeDataV2 Version" where
  "V2 u256_add = \<lparr>ver_branch_id = (\<lambda>d. consensus_branch_id (v1 d)),
     ver_start_height = (\<lambda>d. start_height (v1 d)), ver_end_height = (\<lambda>d. end_height (v1 d)),
     ver_combine_inner = v2_combine_inner u256_add, ver_read = v2_read, ver_write = v2_write\<rparr>"

definition V3 :: "(u256 \<Rightarrow> u256 \<Rightarrow> u256 option) \<Rightarrow> NodeDataV3 Version" where
  "V3 u256_add = \<lparr>ver_branch_id = (\<lambda>d. consensus_branch_id (v1 (v2 d))),
     ver_start_height = (\<lambda>d. start_height (v1 (v2 d))), ver_end_height = (\<lambda>d. end_height (v1 (v2 d))),
     ver_combine_inner = v3_combine_inner u256_add, ver_read = v3_read, ver_write = v3_write\<rparr>"

section \<open>The encodings are canonical\<close>

definition node_data_ok :: "NodeData \<Rightarrow> bool" where
  "node_data_ok d \<longleftrightarrow> length (subtree_commitment d) = 32 \<and> length (start_sapling_root d) = 32 \<and>
     length (end_sapling_root d) = 32"

definition v2_ok :: "NodeDataV2 \<Rightarrow> bool" where
  "v2_ok d \<longleftrightarrow> node_data_ok (v1 d) \<and> length (start_orchard_root d) = 32 \<and> length (end_orchard_root d) = 32"

definition v3_ok :: "NodeDataV3 \<Rightarrow> bool" where
  "v3_ok d \<longleftrightarrow> v2_ok (v2 d) \<and> length (start_ironwood_root d) = 32 \<and> length (end_ironwood_root d) = 32"

text \<open>What a reader for a branch accepts: the branch, and a range of heights that can be counted.\<close>

definition range_ok :: "NodeData \<Rightarrow> bool" where
  "range_ok d \<longleftrightarrow> height_count (start_height d) (end_height d) \<noteq> None"

definition compact_bytes :: "u64 \<Rightarrow> bytes" where
  "compact_bytes n = (case compact_size_write_unbounded n of Inl _ \<Rightarrow> [] | Inr out \<Rightarrow> out)"

lemma compact_write: "compact_size_write_unbounded n = Inr (compact_bytes n)"
  using compact_unbounded.enc_ok [of n] by (auto simp: compact_bytes_def)

lemma compact_read: "compact_size_read_unbounded (compact_bytes n @ rest) = Inr (n, rest)"
  by (simp add: compact_unbounded.dec_iff compact_write)

lemma compact_read_iff: "compact_size_read_unbounded bs = Inr (n, rest) \<longleftrightarrow> bs = compact_bytes n @ rest"
  by (simp add: compact_unbounded.dec_iff compact_write)

lemma length_compact_bytes: "length (compact_bytes n) \<le> 9"
  using compact_size_write_length [OF compact_write] compact_size_serialized_size_le_9 by simp

lemma node_data_write_eq:
  "node_data_write d = Inr (subtree_commitment d @ to_le_bytes (start_time d) @ to_le_bytes (end_time d) @
     to_le_bytes (start_target d) @ to_le_bytes (end_target d) @ start_sapling_root d @ end_sapling_root d @
     to_le_bytes (subtree_total_work d) @ compact_bytes (start_height d) @ compact_bytes (end_height d) @
     compact_bytes (sapling_tx d))"
  by (simp add: node_data_write_def compact_write)

lemma node_data_read_iff:
  "node_data_read b bs = Inr (d, rest) \<longleftrightarrow>
     node_data_ok d \<and> consensus_branch_id d = b \<and> range_ok d \<and>
     (\<exists>out. node_data_write d = Inr out \<and> bs = out @ rest)" (is "?l = ?r")
proof
  assume ?l
  then show ?r
    by (auto simp: node_data_read_def read_bind_Inr read_exact_Inr read_le_Inr compact_read_iff
        node_data_ok_def range_ok_def node_data_write_eq split: if_splits)
next
  assume ?r
  then show ?l
    by (cases d) (auto simp: node_data_read_def read_bind_def compact_read
        node_data_ok_def range_ok_def node_data_write_eq)
qed

lemma v2_write_eq:
  "node_data_write (v1 d) = Inr out \<Longrightarrow> v2_write d = Inr (out @ start_orchard_root d @ end_orchard_root d @
     compact_bytes (orchard_tx d))"
  by (simp add: v2_write_def compact_write)

lemma v2_read_iff:
  "v2_read b bs = Inr (d, rest) \<longleftrightarrow>
     v2_ok d \<and> consensus_branch_id (v1 d) = b \<and> range_ok (v1 d) \<and>
     (\<exists>out. v2_write d = Inr out \<and> bs = out @ rest)" (is "?l = ?r")
proof
  assume ?l
  then show ?r
    by (auto simp: v2_read_def read_bind_Inr read_exact_Inr node_data_read_iff compact_read_iff v2_ok_def
        v2_write_def compact_write)
next
  assume r: ?r
  then obtain out where "node_data_write (v1 d) = Inr out" using node_data_write_eq by blast
  with r have "node_data_read b bs =
      Inr (v1 d, start_orchard_root d @ end_orchard_root d @ compact_bytes (orchard_tx d) @ rest)"
    by (auto simp: node_data_read_iff v2_ok_def v2_write_eq)
  with r show ?l
    by (cases d) (auto simp: v2_read_def read_bind_def compact_read v2_ok_def)
qed

lemma v3_write_eq:
  "v2_write (v2 d) = Inr out \<Longrightarrow> v3_write d = Inr (out @ start_ironwood_root d @ end_ironwood_root d @
     compact_bytes (ironwood_tx d))"
  by (simp add: v3_write_def compact_write)

lemma v3_read_iff:
  "v3_read b bs = Inr (d, rest) \<longleftrightarrow>
     v3_ok d \<and> consensus_branch_id (v1 (v2 d)) = b \<and> range_ok (v1 (v2 d)) \<and>
     (\<exists>out. v3_write d = Inr out \<and> bs = out @ rest)" (is "?l = ?r")
proof
  assume ?l
  then show ?r
    by (auto simp: v3_read_def read_bind_Inr read_exact_Inr v2_read_iff compact_read_iff v3_ok_def
        v3_write_def compact_write)
next
  assume r: ?r
  then obtain out where "v2_write (v2 d) = Inr out" using node_data_write_eq v2_write_eq by blast
  with r have "v2_read b bs =
      Inr (v2 d, start_ironwood_root d @ end_ironwood_root d @ compact_bytes (ironwood_tx d) @ rest)"
    by (auto simp: v2_read_iff v3_ok_def v3_write_eq)
  with r show ?l
    by (cases d) (auto simp: v3_read_def read_bind_def compact_read v3_ok_def)
qed

lemma node_data_write_len:
  "node_data_ok d \<Longrightarrow> \<exists>out. node_data_write d = Inr out \<and> length out \<le> 171"
  using length_compact_bytes [of "start_height d"] length_compact_bytes [of "end_height d"]
    length_compact_bytes [of "sapling_tx d"]
  by (simp add: node_data_write_eq node_data_ok_def)

lemma v2_write_len: "v2_ok d \<Longrightarrow> \<exists>out. v2_write d = Inr out \<and> length out \<le> 244"
  using node_data_write_len [of "v1 d"] length_compact_bytes [of "orchard_tx d"]
  by (auto simp: v2_ok_def v2_write_eq)

lemma v3_write_len: "v3_ok d \<Longrightarrow> \<exists>out. v3_write d = Inr out \<and> length out \<le> MAX_NODE_DATA_SIZE"
  using v2_write_len [of "v2 d"] length_compact_bytes [of "ironwood_tx d"]
  by (auto simp: v3_ok_def v3_write_eq MAX_NODE_DATA_SIZE_def)

section \<open>The interface of a version\<close>

text \<open>
  What the tree relies on: nodes of the right shape can be written, within the maximal size, and
  read back; combining keeps the shape, takes the branch and the first height from the left node and
  the last height from the right one.
\<close>

locale history_version =
  fixes V :: "'d Version"
    and ok :: "'d \<Rightarrow> bool"
  assumes written: "ok d \<Longrightarrow> \<exists>out. ver_write V d = Inr out \<and> length out \<le> MAX_NODE_DATA_SIZE"
    and read_iff: "ver_read V b bs = Inr (d, rest) \<longleftrightarrow> ok d \<and> ver_branch_id V d = b \<and>
      height_count (ver_start_height V d) (ver_end_height V d) \<noteq> None \<and>
      (\<exists>out. ver_write V d = Inr out \<and> bs = out @ rest)"
    and combined: "ok l \<Longrightarrow> ok r \<Longrightarrow> length h = 32 \<Longrightarrow> ver_combine_inner V h l r = Some d \<Longrightarrow>
      ok d \<and> ver_branch_id V d = ver_branch_id V l \<and> ver_start_height V d = ver_start_height V l \<and>
      ver_end_height V d = ver_end_height V r"
begin

lemma read_canonical:
  "canonical_codec (ver_write V) (ver_read V b) (\<lambda>d. ok d \<and> ver_branch_id V d = b \<and>
     height_count (ver_start_height V d) (ver_end_height V d) \<noteq> None)"
proof
  fix d
  assume d: "ok d \<and> ver_branch_id V d = b \<and> height_count (ver_start_height V d) (ver_end_height V d) \<noteq> None"
  then obtain out where "ver_write V d = Inr out" using written by blast
  with d show "\<exists>out. ver_write V d = Inr out \<and> (\<forall>rest. ver_read V b (out @ rest) = Inr (d, rest))"
    by (auto simp: read_iff)
qed (auto simp: read_iff)

lemma to_bytes_ok:
  assumes "ok d"
  shows "\<exists>out. ver_to_bytes V d = Some out \<and> ver_write V d = Inr out"
proof -
  from written [OF assms] obtain out where "ver_write V d = Inr out" "length out \<le> MAX_NODE_DATA_SIZE" by blast
  then show ?thesis by (simp add: ver_to_bytes_def)
qed

lemma from_to_bytes:
  assumes "ok d" "height_count (ver_start_height V d) (ver_end_height V d) \<noteq> None"
  shows "\<exists>out. ver_to_bytes V d = Some out \<and> ver_from_bytes V (ver_branch_id V d) out = Inr d"
proof -
  from to_bytes_ok [OF assms(1)] obtain out where out: "ver_to_bytes V d = Some out" "ver_write V d = Inr out"
    by blast
  with assms have "ver_read V (ver_branch_id V d) out = Inr (d, [])" by (simp add: read_iff)
  with out show ?thesis by (simp add: ver_from_bytes_def)
qed

text \<open>Combining never overruns its buffer: it panics only for two branches or in \<open>combine_inner\<close>.\<close>

lemma combine_eq:
  assumes "ok l" "ok r" "ver_branch_id V l = ver_branch_id V r"
  shows "\<exists>lo ro. ver_write V l = Inr lo \<and> ver_write V r = Inr ro \<and>
    ver_combine V blake2b l r =
      ver_combine_inner V (blake2b (personalization (ver_branch_id V l)) (lo @ ro)) l r"
proof -
  from written [OF assms(1)] written [OF assms(2)] obtain lo ro where
    "ver_write V l = Inr lo" "length lo \<le> MAX_NODE_DATA_SIZE"
    "ver_write V r = Inr ro" "length ro \<le> MAX_NODE_DATA_SIZE" by blast
  with assms(3) show ?thesis by (simp add: ver_combine_def)
qed

lemma combine_Some:
  assumes "ok l" "ok r" "\<And>p x. length (blake2b p x) = 32" "ver_combine V blake2b l r = Some d"
  shows "ok d" "ver_branch_id V d = ver_branch_id V l" "ver_branch_id V r = ver_branch_id V l"
    "ver_start_height V d = ver_start_height V l" "ver_end_height V d = ver_end_height V r"
proof -
  from assms(4) have b: "ver_branch_id V l = ver_branch_id V r" by (simp add: ver_combine_def split: if_splits)
  with combine_eq [OF assms(1,2) b, of blake2b] assms(4) combined [OF assms(1,2) assms(3)]
  show "ok d" "ver_branch_id V d = ver_branch_id V l" "ver_branch_id V r = ver_branch_id V l"
    "ver_start_height V d = ver_start_height V l" "ver_end_height V d = ver_end_height V r" by auto
qed

end

interpretation v1: history_version "V1 u256_add" node_data_ok for u256_add
  by unfold_locales
    (use node_data_write_len in \<open>fastforce simp: V1_def MAX_NODE_DATA_SIZE_def\<close>,
     simp add: V1_def node_data_read_iff range_ok_def,
     auto simp: V1_def node_data_combine_inner_def node_data_ok_def)

interpretation v2: history_version "V2 u256_add" v2_ok for u256_add
  by unfold_locales
    (use v2_write_len in \<open>fastforce simp: V2_def MAX_NODE_DATA_SIZE_def\<close>,
     simp add: V2_def v2_read_iff range_ok_def,
     auto simp: V2_def v2_combine_inner_def node_data_combine_inner_def v2_ok_def node_data_ok_def)

interpretation v3: history_version "V3 u256_add" v3_ok for u256_add
  by unfold_locales
    (use v3_write_len in \<open>fastforce simp: V3_def\<close>,
     simp add: V3_def v3_read_iff range_ok_def,
     auto simp: V3_def v3_combine_inner_def v2_combine_inner_def node_data_combine_inner_def v3_ok_def v2_ok_def
       node_data_ok_def)

section \<open>The properties of node data\<close>

text \<open>
  The node encodings of all three versions are canonical: a reader for a branch accepts a byte
  string exactly when it starts with the encoding of a node of that branch with 32-byte roots and a
  range of heights that can be counted, and it returns that node and the rest; so descending ranges
  and non-minimal counters are rejected, and no node has two encodings. An encoding is never longer
  than \<open>MAX_NODE_DATA_SIZE\<close>, and \<open>from_bytes\<close> undoes \<open>to_bytes\<close>.
\<close>

theorem history_node_codecs:
  "(ver_read (V1 u256_add) b bs = Inr (d1, rest) \<longleftrightarrow> node_data_ok d1 \<and> consensus_branch_id d1 = b \<and>
      height_count (start_height d1) (end_height d1) \<noteq> None \<and>
      (\<exists>out. node_data_write d1 = Inr out \<and> bs = out @ rest)) \<and>
   (ver_read (V2 u256_add) b bs = Inr (d2, rest) \<longleftrightarrow> v2_ok d2 \<and> consensus_branch_id (v1 d2) = b \<and>
      height_count (start_height (v1 d2)) (end_height (v1 d2)) \<noteq> None \<and>
      (\<exists>out. v2_write d2 = Inr out \<and> bs = out @ rest)) \<and>
   (ver_read (V3 u256_add) b bs = Inr (d3, rest) \<longleftrightarrow> v3_ok d3 \<and> consensus_branch_id (v1 (v2 d3)) = b \<and>
      height_count (start_height (v1 (v2 d3))) (end_height (v1 (v2 d3))) \<noteq> None \<and>
      (\<exists>out. v3_write d3 = Inr out \<and> bs = out @ rest)) \<and>
   (\<not> v3_ok d3 \<or> height_count (start_height (v1 (v2 d3))) (end_height (v1 (v2 d3))) = None \<or>
      (\<exists>out. ver_to_bytes (V3 u256_add) d3 = Some out \<and> length out \<le> 317 \<and>
        ver_from_bytes (V3 u256_add) (consensus_branch_id (v1 (v2 d3))) out = Inr d3))"
proof (intro conjI)
  show "\<not> v3_ok d3 \<or> height_count (start_height (v1 (v2 d3))) (end_height (v1 (v2 d3))) = None \<or>
      (\<exists>out. ver_to_bytes (V3 u256_add) d3 = Some out \<and> length out \<le> 317 \<and>
        ver_from_bytes (V3 u256_add) (consensus_branch_id (v1 (v2 d3))) out = Inr d3)"
    using v3.from_to_bytes [of d3 u256_add]
    by (cases "height_count (start_height (v1 (v2 d3))) (end_height (v1 (v2 d3)))")
      (auto simp: V3_def ver_to_bytes_def MAX_NODE_DATA_SIZE_def split: sum.splits if_splits)
qed (use v1.read_iff [of u256_add b bs d1 rest] v2.read_iff [of u256_add b bs d2 rest]
    v3.read_iff [of u256_add b bs d3 rest] in \<open>simp_all add: V1_def V2_def V3_def\<close>)

text \<open>
  Combining two well-formed V3 nodes of one branch never overruns the hash buffer: it commits to
  the concatenation of the two encodings under the branch's personalization, takes the start fields
  of the left node and the end fields of the right one, and adds the counters. Nodes of two branches
  are refused, and apart from that the addition of the work is the only thing that can fail.
\<close>

theorem history_combine_v3:
  assumes "v3_ok l" "v3_ok r"
  shows "\<exists>lo ro. v3_write l = Inr lo \<and> v3_write r = Inr ro \<and>
    ver_combine (V3 u256_add) blake2b l r =
     (if consensus_branch_id (v1 (v2 l)) \<noteq> consensus_branch_id (v1 (v2 r)) then None
      else case u256_add (subtree_total_work (v1 (v2 l))) (subtree_total_work (v1 (v2 r))) of
        None \<Rightarrow> None
      | Some work \<Rightarrow> Some \<lparr>
          v2 = \<lparr>
            v1 = \<lparr>
              consensus_branch_id = consensus_branch_id (v1 (v2 l)),
              subtree_commitment = blake2b (personalization (consensus_branch_id (v1 (v2 l)))) (lo @ ro),
              start_time = start_time (v1 (v2 l)), end_time = end_time (v1 (v2 r)),
              start_target = start_target (v1 (v2 l)), end_target = end_target (v1 (v2 r)),
              start_sapling_root = start_sapling_root (v1 (v2 l)),
              end_sapling_root = end_sapling_root (v1 (v2 r)),
              subtree_total_work = work,
              start_height = start_height (v1 (v2 l)), end_height = end_height (v1 (v2 r)),
              sapling_tx = sapling_tx (v1 (v2 l)) + sapling_tx (v1 (v2 r))\<rparr>,
            start_orchard_root = start_orchard_root (v2 l), end_orchard_root = end_orchard_root (v2 r),
            orchard_tx = orchard_tx (v2 l) + orchard_tx (v2 r)\<rparr>,
          start_ironwood_root = start_ironwood_root l, end_ironwood_root = end_ironwood_root r,
          ironwood_tx = ironwood_tx l + ironwood_tx r\<rparr>)"
proof -
  from v3_write_len [OF assms(1)] v3_write_len [OF assms(2)] obtain lo ro where
    w: "v3_write l = Inr lo" "v3_write r = Inr ro" by blast
  moreover have "ver_branch_id (V3 u256_add) l = ver_branch_id (V3 u256_add) r \<Longrightarrow>
      ver_combine (V3 u256_add) blake2b l r =
        v3_combine_inner u256_add (blake2b (personalization (consensus_branch_id (v1 (v2 l)))) (lo @ ro)) l r"
    using v3.combine_eq [OF assms, of u256_add blake2b] w by (auto simp: V3_def)
  ultimately show ?thesis
    by (auto simp: V3_def ver_combine_def v3_combine_inner_def v2_combine_inner_def
        node_data_combine_inner_def split: option.splits)
qed

definition sample_node :: "u64 \<Rightarrow> NodeDataV3" where
  "sample_node h = (let z = replicate 32 0 in
     \<lparr>v2 = \<lparr>v1 = \<lparr>consensus_branch_id = 1, subtree_commitment = z, start_time = 0, end_time = 0,
        start_target = 0, end_target = 0, start_sapling_root = z, end_sapling_root = z,
        subtree_total_work = 5, start_height = h, end_height = h, sapling_tx = 7\<rparr>,
      start_orchard_root = z, end_orchard_root = z, orchard_tx = 42\<rparr>,
      start_ironwood_root = z, end_ironwood_root = z, ironwood_tx = h\<rparr>)"

lemma sample_node_ok: "v3_ok (sample_node h)"
  by (simp add: sample_node_def Let_def v3_ok_def v2_ok_def node_data_ok_def)

theorem history_node_codecs_witness:
  "\<exists>out. ver_to_bytes (V3 (\<lambda>a b. Some (a + b))) (sample_node 1) = Some out \<and> length out \<le> 317 \<and>
     ver_from_bytes (V3 (\<lambda>a b. Some (a + b))) 1 out = Inr (sample_node 1)"
  using history_node_codecs [of "\<lambda>a b. Some (a + b)" 1 "[]" "v1 (v2 (sample_node 1))" "[]"
    "v2 (sample_node 1)" "sample_node 1"] sample_node_ok [of 1]
  by (auto simp: sample_node_def Let_def height_count_def)

theorem history_combine_v3_witness:
  "\<exists>d. ver_combine (V3 (\<lambda>a b. Some (a + b))) (\<lambda>p x. replicate 32 1) (sample_node 1) (sample_node 2) = Some d \<and>
     ironwood_tx d = 3 \<and> start_height (v1 (v2 d)) = 1 \<and> end_height (v1 (v2 d)) = 2"
  using history_combine_v3 [OF sample_node_ok sample_node_ok, of 1 2 "\<lambda>a b. Some (a + b)" "\<lambda>p x. replicate 32 1"]
  by (auto simp: sample_node_def Let_def)

end
