(* ===== verification/HistoryTree.thy ===== *)
theory HistoryTree
  imports HistoryNode
begin

text \<open>
  Model of \<open>zcash_history/src/entry.rs\<close> and \<open>tree.rs\<close>: the Merkle mountain range of ZIP 221 as a
  partially loaded view of its array representation. Entries are addressed by links, into the
  stored entries (a map, with the length of the whole array beside it) or the entries generated for
  the view. A function that can panic has an option type (\<open>None\<close>: a failed \<open>expect\<close>, or a recursion
  or loop over a cyclic structure that does not end), its error is the left of a sum, and a method
  with \<open>&mut self\<close> returns the tree it leaves, also with an error.
\<close>

section \<open>Entries\<close>

datatype EntryLink = Stored u32 | Generated u32

datatype EntryKind = LeafKind | NodeKind EntryLink EntryLink

datatype HistoryError = ExpectedInMemory EntryLink | ExpectedNode "EntryLink option"

record 'd Entry =
  kind :: EntryKind
  entry_data :: 'd

definition augment :: "HistoryError \<Rightarrow> EntryLink \<Rightarrow> HistoryError" where
  "augment e link = (case e of ExpectedNode _ \<Rightarrow> ExpectedNode (Some link) | val \<Rightarrow> val)"

definition entry_new :: "'d \<Rightarrow> EntryLink \<Rightarrow> EntryLink \<Rightarrow> 'd Entry" where
  "entry_new d left right = \<lparr>kind = NodeKind left right, entry_data = d\<rparr>"

definition entry_new_leaf :: "'d \<Rightarrow> 'd Entry" where
  "entry_new_leaf d = \<lparr>kind = LeafKind, entry_data = d\<rparr>"

text \<open>\<open>u64::is_power_of_two\<close>: exactly one bit is set.\<close>

definition is_power_of_two :: "u64 \<Rightarrow> bool" where
  "is_power_of_two n \<longleftrightarrow> length (filter (bit n) [0..<64]) = 1"

definition leaf_count :: "'d Version \<Rightarrow> 'd Entry \<Rightarrow> u64 option" where
  "leaf_count V e = height_count (ver_start_height V (entry_data e)) (ver_end_height V (entry_data e))"

definition complete_entry :: "'d Version \<Rightarrow> 'd Entry \<Rightarrow> bool option" where
  "complete_entry V e = map_option is_power_of_two (leaf_count V e)"

definition entry_leaf :: "'d Entry \<Rightarrow> bool" where
  "entry_leaf e \<longleftrightarrow> kind e = LeafKind"

definition entry_left :: "'d Entry \<Rightarrow> HistoryError + EntryLink" where
  "entry_left e = (case kind e of LeafKind \<Rightarrow> Inl (ExpectedNode None) | NodeKind left _ \<Rightarrow> Inr left)"

definition entry_right :: "'d Entry \<Rightarrow> HistoryError + EntryLink" where
  "entry_right e = (case kind e of LeafKind \<Rightarrow> Inl (ExpectedNode None) | NodeKind _ right \<Rightarrow> Inr right)"

definition entry_read :: "'d Version \<Rightarrow> u32 \<Rightarrow> 'd Entry reader" where
  "entry_read V branch_id =
     read_bind (read_exact 1) (\<lambda>byte.
     read_bind
       (if byte ! 0 = 0 then
          read_bind read_le (\<lambda>left.
          read_bind read_le (\<lambda>right. read_return (NodeKind (Stored left) (Stored right))))
        else if byte ! 0 = 1 then read_return LeafKind
        else read_fail InvalidData) (\<lambda>k.
     read_bind (ver_read V branch_id) (\<lambda>d. read_return \<lparr>kind = k, entry_data = d\<rparr>)))"

definition entry_write :: "'d Version \<Rightarrow> 'd Entry \<Rightarrow> writer" where
  "entry_write V e =
     write_seq
       (case kind e of
          NodeKind (Stored left) (Stored right) \<Rightarrow>
            write_seq (Inr [0]) (write_seq (Inr (to_le_bytes left)) (Inr (to_le_bytes right)))
        | LeafKind \<Rightarrow> Inr [1]
        | _ \<Rightarrow> Inl InvalidData)
       (ver_write V (entry_data e))"

definition entry_from_bytes :: "'d Version \<Rightarrow> u32 \<Rightarrow> bytes \<Rightarrow> io_error + 'd Entry" where
  "entry_from_bytes V branch_id buf = map_sum id fst (entry_read V branch_id buf)"

section \<open>The tree\<close>

record 'd Tree =
  stored :: "u32 \<Rightarrow> 'd Entry option"
  generated :: "'d Entry list"
  stored_count :: u32
  root :: EntryLink

text \<open>An \<open>IndexedNode\<close>: the entry and the link it was resolved by.\<close>

type_synonym 'd IndexedNode = "'d Entry \<times> EntryLink"

definition resolve_link :: "'d Tree \<Rightarrow> EntryLink \<Rightarrow> HistoryError + 'd IndexedNode" where
  "resolve_link t link =
     (case (case link of
         Generated index \<Rightarrow> if unat index < length (generated t) then Some (generated t ! unat index) else None
       | Stored index \<Rightarrow> stored t index) of
       None \<Rightarrow> Inl (ExpectedInMemory link)
     | Some node \<Rightarrow> Inr (node, link))"

definition indexed_left :: "'d IndexedNode \<Rightarrow> HistoryError + EntryLink" where
  "indexed_left n = map_sum (\<lambda>e. augment e (snd n)) id (entry_left (fst n))"

definition indexed_right :: "'d IndexedNode \<Rightarrow> HistoryError + EntryLink" where
  "indexed_right n = map_sum (\<lambda>e. augment e (snd n)) id (entry_right (fst n))"

definition combine_nodes ::
    "'d Version \<Rightarrow> (bytes \<Rightarrow> bytes \<Rightarrow> bytes) \<Rightarrow> 'd IndexedNode \<Rightarrow> 'd IndexedNode \<Rightarrow> 'd Entry option" where
  "combine_nodes V blake2b left right =
     map_option (\<lambda>d. \<lparr>kind = NodeKind (snd left) (snd right), entry_data = d\<rparr>)
       (ver_combine V blake2b (entry_data (fst left)) (entry_data (fst right)))"

definition tree_push :: "'d Tree \<Rightarrow> 'd Entry \<Rightarrow> EntryLink \<times> 'd Tree" where
  "tree_push t e =
     (let idx = stored_count t in
      (Stored idx, t\<lparr>stored_count := stored_count t + 1, stored := (stored t)(idx \<mapsto> e)\<rparr>))"

definition tree_push_generated :: "'d Tree \<Rightarrow> 'd Entry \<Rightarrow> EntryLink \<times> 'd Tree" where
  "tree_push_generated t e =
     (let g = generated t @ [e] in (Generated (of_nat (length g) - 1), t\<lparr>generated := g\<rparr>))"

definition tree_invalid :: "'d Tree" where
  "tree_invalid = \<lparr>stored = Map.empty, generated = [], stored_count = 0, root = Generated 0\<rparr>"

text \<open>The loop of \<open>new\<close> over the peaks after the first one; \<open>expect\<close> makes an error a panic.\<close>

primrec new_loop ::
    "'d Version \<Rightarrow> (bytes \<Rightarrow> bytes \<Rightarrow> bytes) \<Rightarrow> 'd Tree \<Rightarrow> EntryLink \<Rightarrow> (u32 \<times> 'd Entry) list
     \<Rightarrow> ('d Tree \<times> EntryLink) option" where
  "new_loop V blake2b t rt [] = Some (t, rt)"
| "new_loop V blake2b t rt (p # ps) =
     (let t1 = t\<lparr>stored := (stored t)(fst p \<mapsto> snd p)\<rparr> in
      case (resolve_link t1 rt, resolve_link t1 (Stored (fst p))) of
        (Inr l, Inr r) \<Rightarrow>
          Option.bind (combine_nodes V blake2b l r) (\<lambda>e.
            let (rt', t2) = tree_push_generated t1 e in new_loop V blake2b t2 rt' ps)
      | _ \<Rightarrow> None)"

definition tree_new ::
    "'d Version \<Rightarrow> (bytes \<Rightarrow> bytes \<Rightarrow> bytes) \<Rightarrow> u32 \<Rightarrow> (u32 \<times> 'd Entry) list \<Rightarrow> (u32 \<times> 'd Entry) list
     \<Rightarrow> 'd Tree option" where
  "tree_new V blake2b len peaks extra =
     (case peaks of
        [] \<Rightarrow> None
      | p # ps \<Rightarrow>
          let t0 = tree_invalid\<lparr>stored_count := len, stored := [fst p \<mapsto> snd p]\<rparr> in
          map_option (\<lambda>(t, rt).
            t\<lparr>stored := fold (\<lambda>(idx, node) m. m(idx \<mapsto> node)) extra (stored t), root := rt\<rparr>)
            (new_loop V blake2b t0 (Stored (fst p)) ps))"

text \<open>\<open>?\<close> on a value that can also be a panic.\<close>

abbreviation res_bind :: "('e + 'a) option \<Rightarrow> ('a \<Rightarrow> ('e + 'b) option) \<Rightarrow> ('e + 'b) option" where
  "res_bind m f \<equiv> Option.bind m (\<lambda>r. case r of Inl e \<Rightarrow> Some (Inl e) | Inr a \<Rightarrow> f a)"

partial_function (option) get_peaks ::
    "'d Version \<Rightarrow> 'd Tree \<Rightarrow> EntryLink \<Rightarrow> EntryLink list \<Rightarrow> (HistoryError + EntryLink list) option" where
  "get_peaks V t link target =
     (case resolve_link t link of
        Inl e \<Rightarrow> Some (Inl e)
      | Inr n \<Rightarrow>
          Option.bind (complete_entry V (fst n)) (\<lambda>complete.
          if complete then Some (Inr (target @ [snd n]))
          else case indexed_left n of
            Inl e \<Rightarrow> Some (Inl e)
          | Inr left \<Rightarrow>
              (case indexed_right n of
                 Inl e \<Rightarrow> Some (Inl e)
               | Inr right \<Rightarrow>
                   Option.bind (get_peaks V t left target) (\<lambda>r.
                     case r of Inl e \<Rightarrow> Some (Inl e)
                     | Inr target' \<Rightarrow> get_peaks V t right target'))))"

text \<open>
  The merging loop of \<open>append_leaf\<close>: the peaks are popped from the right, \<open>stack\<close> is the merge
  stack with its top first.
\<close>

primrec merge_loop ::
    "'d Version \<Rightarrow> (bytes \<Rightarrow> bytes \<Rightarrow> bytes) \<Rightarrow> 'd Tree \<Rightarrow> EntryLink list \<Rightarrow> EntryLink list \<Rightarrow> EntryLink list
     \<Rightarrow> ((HistoryError + EntryLink list \<times> EntryLink list) \<times> 'd Tree) option" where
  "merge_loop V blake2b t [] stack appended = Some (Inr (stack, appended), t)"
| "merge_loop V blake2b t (next_peak # rest) stack appended =
     (case stack of
        [] \<Rightarrow> None
      | next_merge # stack' \<Rightarrow>
          (case (resolve_link t next_peak, resolve_link t next_merge) of
             (Inl e, _) \<Rightarrow> Some (Inl e, t)
           | (Inr peak, Inl e) \<Rightarrow> Some (Inl e, t)
           | (Inr peak, Inr m) \<Rightarrow>
               Option.bind (leaf_count V (fst peak)) (\<lambda>a.
               Option.bind (leaf_count V (fst m)) (\<lambda>b.
                 if a = b then
                   Option.bind (combine_nodes V blake2b peak m) (\<lambda>e.
                     let (link, t') = tree_push t e in
                     merge_loop V blake2b t' rest (link # stack') (appended @ [link]))
                 else merge_loop V blake2b t rest (next_peak # next_merge # stack') appended))))"

primrec bag_loop ::
    "'d Version \<Rightarrow> (bytes \<Rightarrow> bytes \<Rightarrow> bytes) \<Rightarrow> 'd Tree \<Rightarrow> EntryLink \<Rightarrow> EntryLink list
     \<Rightarrow> ((HistoryError + EntryLink) \<times> 'd Tree) option" where
  "bag_loop V blake2b t new_root [] = Some (Inr new_root, t)"
| "bag_loop V blake2b t new_root (next_child # rest) =
     (case (resolve_link t new_root, resolve_link t next_child) of
        (Inl e, _) \<Rightarrow> Some (Inl e, t)
      | (Inr l, Inl e) \<Rightarrow> Some (Inl e, t)
      | (Inr l, Inr r) \<Rightarrow>
          Option.bind (combine_nodes V blake2b l r) (\<lambda>e.
            let (link, t') = tree_push_generated t e in bag_loop V blake2b t' link rest))"

definition append_leaf ::
    "'d Version \<Rightarrow> (bytes \<Rightarrow> bytes \<Rightarrow> bytes) \<Rightarrow> 'd Tree \<Rightarrow> 'd
     \<Rightarrow> ((HistoryError + EntryLink list) \<times> 'd Tree) option" where
  "append_leaf V blake2b t new_leaf =
     (let (new_leaf_link, t1) = tree_push t (entry_new_leaf new_leaf) in
      Option.bind (get_peaks V t1 (root t) []) (\<lambda>r.
        case r of
          Inl e \<Rightarrow> Some (Inl e, t1)
        | Inr peaks \<Rightarrow>
            Option.bind (merge_loop V blake2b t1 (rev peaks) [new_leaf_link] [new_leaf_link]) (\<lambda>(r, t2).
              case r of
                Inl e \<Rightarrow> Some (Inl e, t2)
              | Inr (stack, appended) \<Rightarrow>
                  (case stack of
                     [] \<Rightarrow> None
                   | new_root # rest \<Rightarrow>
                       Option.bind (bag_loop V blake2b t2 new_root rest) (\<lambda>(r, t3).
                         case r of
                           Inl e \<Rightarrow> Some (Inl e, t3)
                         | Inr new_root' \<Rightarrow> Some (Inr appended, t3\<lparr>root := new_root'\<rparr>))))))"

definition tree_pop :: "'d Tree \<Rightarrow> 'd Tree" where
  "tree_pop t = t\<lparr>stored := (stored t)(stored_count t - 1 := None), stored_count := stored_count t - 1\<rparr>"

text \<open>
  The \<open>loop\<close> of \<open>truncate_leaf\<close> descends the right children; at the leaf it adds one when the root
  was complete.
\<close>

partial_function (option) truncate_loop ::
    "'d Version \<Rightarrow> 'd Tree \<Rightarrow> 'd Entry \<Rightarrow> EntryLink \<Rightarrow> EntryLink list \<Rightarrow> u32
     \<Rightarrow> (HistoryError + EntryLink list \<times> u32) option" where
  "truncate_loop V t root_entry subtree_root_link peaks truncated =
     (case resolve_link t subtree_root_link of
        Inl e \<Rightarrow> Some (Inl e)
      | Inr n \<Rightarrow>
          (case kind (fst n) of
             NodeKind left right \<Rightarrow> truncate_loop V t root_entry right (peaks @ [left]) (truncated + 1)
           | LeafKind \<Rightarrow>
               map_option (\<lambda>complete. Inr (peaks, if complete then truncated + 1 else truncated))
                 (complete_entry V root_entry)))"

definition truncate_leaf ::
    "'d Version \<Rightarrow> (bytes \<Rightarrow> bytes \<Rightarrow> bytes) \<Rightarrow> 'd Tree \<Rightarrow> ((HistoryError + u32) \<times> 'd Tree) option" where
  "truncate_leaf V blake2b t =
     (case resolve_link t (root t) of
        Inl e \<Rightarrow> Some (Inl e, t)
      | Inr n \<Rightarrow>
          Option.bind (leaf_count V (fst n)) (\<lambda>leaves.
          case entry_left (fst n) of
            Inl e \<Rightarrow> Some (Inl e, t)
          | Inr root_left_child \<Rightarrow>
              if and leaves 1 \<noteq> 0 then Some (Inr 1, (tree_pop t)\<lparr>root := root_left_child\<rparr>)
              else case (indexed_left n, indexed_right n) of
                (Inr left, Inr right) \<Rightarrow>
                  Option.bind (truncate_loop V t (fst n) right [left] 1) (\<lambda>r.
                    case r of
                      Inl e \<Rightarrow> Some (Inl e, t)
                    | Inr (peaks, truncated) \<Rightarrow>
                        (case peaks of
                           [] \<Rightarrow> None
                         | new_root # rest \<Rightarrow>
                             Option.bind (bag_loop V blake2b t new_root rest) (\<lambda>(r, t1).
                               case r of
                                 Inl e \<Rightarrow> Some (Inl e, t1)
                               | Inr new_root' \<Rightarrow>
                                   Some (Inr truncated, ((tree_pop ^^ unat truncated) t1)\<lparr>root := new_root'\<rparr>))))
              | (Inl e, _) \<Rightarrow> Some (Inl e, t)
              | (Inr _, Inl e) \<Rightarrow> Some (Inl e, t)))"

definition tree_len :: "'d Tree \<Rightarrow> u32" where
  "tree_len t = stored_count t"

definition root_node :: "'d Tree \<Rightarrow> HistoryError + 'd IndexedNode" where
  "root_node t = resolve_link t (root t)"

definition tree_is_empty :: "'d Tree \<Rightarrow> bool" where
  "tree_is_empty t \<longleftrightarrow> stored_count t = 0"

section \<open>Counting leaves\<close>

lemma filter_single:
  "length (filter (bit n) [0..<64]) = 1 \<longleftrightarrow> (\<exists>k<64. \<forall>j<64. bit n j \<longleftrightarrow> j = k)"
proof
  assume "length (filter (bit n) [0..<64]) = 1"
  then obtain k where k: "filter (bit n) [0..<64] = [k]" by (auto simp: length_Suc_conv)
  then have "set (filter (bit n) [0..<64]) = {k}" by simp
  then show "\<exists>k<64. \<forall>j<64. bit n j \<longleftrightarrow> j = k" by fastforce
next
  assume "\<exists>k<64. \<forall>j<64. bit n j \<longleftrightarrow> j = k"
  then obtain k where k: "k < 64" "\<forall>j<64. bit n j \<longleftrightarrow> j = k" by blast
  then have "set (filter (bit n) [0..<64]) = {k}" by auto
  moreover have "distinct (filter (bit n) [0..<64])" by simp
  ultimately show "length (filter (bit n) [0..<64]) = 1" by (metis distinct_card card.empty card_insert_disjoint empty_iff finite.emptyI One_nat_def)
qed

lemma unat_of_nat64: "m < 2 ^ 64 \<Longrightarrow> unat (of_nat m :: u64) = m"
  by (simp add: unat_of_nat take_bit_nat_eq_self)

lemma is_power_of_two_iff: "is_power_of_two n \<longleftrightarrow> (\<exists>k. unat n = 2 ^ k)"
proof
  assume "is_power_of_two n"
  then obtain k where "k < 64" "\<forall>j<64. bit n j \<longleftrightarrow> j = k" unfolding is_power_of_two_def filter_single by blast
  then have "n = 2 ^ k"
    by (intro bit_word_eqI) (auto simp: bit_exp_iff)
  moreover have "(2::nat) ^ k < 2 ^ 64" using \<open>k < 64\<close> by (intro power_strict_increasing) simp_all
  then have "unat (of_nat (2 ^ k) :: u64) = 2 ^ k" by (rule unat_of_nat64)
  ultimately have "unat n = 2 ^ k" by (metis of_nat_numeral of_nat_power)
  then show "\<exists>k. unat n = 2 ^ k" ..
next
  assume "\<exists>k. unat n = 2 ^ k"
  then obtain k where k: "unat n = 2 ^ k" ..
  then have "(2::nat) ^ k < 2 ^ 64" using unsigned_less [of n, where ?'a = nat] by simp
  then have "k < 64" by (rule power_less_imp_less_exp [rotated]) simp
  moreover have "n = 2 ^ k" using k by (metis of_nat_numeral of_nat_power of_nat_unat ucast_id)
  ultimately show "is_power_of_two n"
    unfolding is_power_of_two_def filter_single by (auto simp: bit_exp_iff)
qed

lemma height_count_eq:
  assumes "unat e + 1 = unat s + m" "0 < m" "m < 2 ^ 64"
  shows "height_count s e = Some (of_nat m)"
proof -
  have le: "s \<le> e" using assms by (simp add: word_le_nat_alt)
  have diff: "unat (e - s) = m - 1" using assms le by (simp add: unat_sub word_le_nat_alt)
  then have "e - s = of_nat (m - 1)" by (metis of_nat_unat ucast_id)
  moreover have "e - s \<noteq> - 1"
  proof
    assume "e - s = - 1"
    then have "unat (e - s) = 2 ^ 64 - 1" by (simp add: unat_minus_one)
    with diff assms(2,3) show False by simp
  qed
  ultimately show ?thesis using le assms(2) by (simp add: height_count_def)
qed

end
