(* ===== verification/HistoryMMR.thy ===== *)
theory HistoryMMR
  imports HistoryTree
begin

text \<open>
  The specification of the chain history tree of \<open>zcash_history/src/tree.rs\<close>, and the proofs that
  \<open>append_leaf\<close> and \<open>truncate_leaf\<close> refine it. The abstract state is the list of the peaks, perfect
  binary trees of strictly decreasing heights; its array representation is the post-order of the
  peaks, and a \<open>Tree\<close> is a view of that array in which some entries are loaded and the peaks are
  joined from the left by generated nodes.
\<close>

section \<open>Mountain ranges\<close>

datatype 'd mtree = MLeaf (mdata: 'd) | MNode (mdata: 'd) "'d mtree" "'d mtree"

primrec msize :: "'d mtree \<Rightarrow> nat" where
  "msize (MLeaf d) = 1"
| "msize (MNode d l r) = msize l + msize r"

primrec mleaves :: "'d mtree \<Rightarrow> 'd list" where
  "mleaves (MLeaf d) = [d]"
| "mleaves (MNode d l r) = mleaves l @ mleaves r"

primrec asize :: "'d mtree \<Rightarrow> nat" where
  "asize (MLeaf d) = 1"
| "asize (MNode d l r) = asize l + asize r + 1"

fun mperfect :: "nat \<Rightarrow> 'd mtree \<Rightarrow> bool" where
  "mperfect 0 (MLeaf d) \<longleftrightarrow> True"
| "mperfect (Suc k) (MNode d l r) \<longleftrightarrow> mperfect k l \<and> mperfect k r"
| "mperfect k t \<longleftrightarrow> False"

text \<open>The array: post-order, with the links of the children, from position \<open>b\<close>.\<close>

definition mlink :: "nat \<Rightarrow> 'd mtree \<Rightarrow> EntryLink" where
  "mlink b t = Stored (of_nat (b + asize t - 1))"

primrec arr :: "nat \<Rightarrow> 'd mtree \<Rightarrow> 'd Entry list" where
  "arr b (MLeaf d) = [entry_new_leaf d]"
| "arr b (MNode d l r) = arr b l @ arr (b + asize l) r @
     [\<lparr>kind = NodeKind (mlink b l) (mlink (b + asize l) r), entry_data = d\<rparr>]"

primrec marr :: "nat \<Rightarrow> 'd mtree list \<Rightarrow> 'd Entry list" where
  "marr b [] = []"
| "marr b (p # ps) = arr b p @ marr (b + asize p) ps"

primrec ppeaks :: "nat \<Rightarrow> 'd mtree list \<Rightarrow> (EntryLink \<times> 'd) list" where
  "ppeaks b [] = []"
| "ppeaks b (p # ps) = (mlink b p, mdata p) # ppeaks (b + asize p) ps"

definition asizes :: "'d mtree list \<Rightarrow> nat" where
  "asizes ps = (\<Sum>p\<leftarrow>ps. asize p)"

definition msizes :: "'d mtree list \<Rightarrow> nat" where
  "msizes ps = (\<Sum>p\<leftarrow>ps. msize p)"

definition mountain :: "'d mtree list \<Rightarrow> bool" where
  "mountain ps \<longleftrightarrow> (\<exists>ks. list_all2 mperfect ks ps \<and> sorted_wrt (>) ks)"

text \<open>
  Consistency: leaves of one block each, at consecutive heights from \<open>s\<close>, and every node the
  combination of its children.
\<close>

primrec spans :: "'d Version \<Rightarrow> (bytes \<Rightarrow> bytes \<Rightarrow> bytes) \<Rightarrow> ('d \<Rightarrow> bool) \<Rightarrow> nat \<Rightarrow> 'd mtree \<Rightarrow> bool" where
  "spans V blake2b ok s (MLeaf d) \<longleftrightarrow>
     ok d \<and> unat (ver_start_height V d) = s \<and> unat (ver_end_height V d) = s"
| "spans V blake2b ok s (MNode d l r) \<longleftrightarrow> spans V blake2b ok s l \<and> spans V blake2b ok (s + msize l) r \<and>
     ver_combine V blake2b (mdata l) (mdata r) = Some d"

primrec pspans :: "'d Version \<Rightarrow> (bytes \<Rightarrow> bytes \<Rightarrow> bytes) \<Rightarrow> ('d \<Rightarrow> bool) \<Rightarrow> nat \<Rightarrow> 'd mtree list \<Rightarrow> bool" where
  "pspans V blake2b ok s [] \<longleftrightarrow> True"
| "pspans V blake2b ok s (p # ps) \<longleftrightarrow> spans V blake2b ok s p \<and> pspans V blake2b ok (s + msize p) ps"

text \<open>The data of the root: the peaks combined from the left.\<close>

primrec bag_data :: "'d Version \<Rightarrow> (bytes \<Rightarrow> bytes \<Rightarrow> bytes) \<Rightarrow> 'd \<Rightarrow> 'd list \<Rightarrow> 'd option" where
  "bag_data V blake2b d [] = Some d"
| "bag_data V blake2b d (e # es) =
     Option.bind (ver_combine V blake2b d e) (\<lambda>d'. bag_data V blake2b d' es)"

definition root_data :: "'d Version \<Rightarrow> (bytes \<Rightarrow> bytes \<Rightarrow> bytes) \<Rightarrow> 'd mtree list \<Rightarrow> 'd option" where
  "root_data V blake2b ps = (case ps of [] \<Rightarrow> None | p # rest \<Rightarrow> bag_data V blake2b (mdata p) (map mdata rest))"

text \<open>Appending a leaf merges equal peaks from the right, as a binary counter; truncating splits the
  last peak along its right spine.\<close>

fun mmerge :: "'d Version \<Rightarrow> (bytes \<Rightarrow> bytes \<Rightarrow> bytes) \<Rightarrow> 'd mtree list \<Rightarrow> 'd mtree \<Rightarrow> 'd mtree list option" where
  "mmerge V blake2b [] cur = Some [cur]"
| "mmerge V blake2b (p # rest) cur =
     (if msize p = msize cur
      then Option.bind (ver_combine V blake2b (mdata p) (mdata cur)) (\<lambda>d. mmerge V blake2b rest (MNode d p cur))
      else Some (rev rest @ [p, cur]))"

definition mappend :: "'d Version \<Rightarrow> (bytes \<Rightarrow> bytes \<Rightarrow> bytes) \<Rightarrow> 'd mtree list \<Rightarrow> 'd \<Rightarrow> 'd mtree list option" where
  "mappend V blake2b ps d = mmerge V blake2b (rev ps) (MLeaf d)"

primrec mlefts :: "'d mtree \<Rightarrow> 'd mtree list" where
  "mlefts (MLeaf d) = []"
| "mlefts (MNode d l r) = l # mlefts r"

definition mtruncate :: "'d mtree list \<Rightarrow> 'd mtree list" where
  "mtruncate ps = butlast ps @ mlefts (last ps)"

section \<open>Sizes and positions\<close>

lemma msize_pos [simp]: "0 < msize t"
  by (induction t) simp_all

lemma msize_one_iff: "msize t = 1 \<longleftrightarrow> (\<exists>d. t = MLeaf d)"
  by (cases t) (simp_all add: add_is_1 neq0_conv [THEN iffD2, OF msize_pos])

lemma asize_pos [simp]: "0 < asize t"
  by (induction t) simp_all

lemma asize_msize: "asize t + 1 = 2 * msize t"
  by (induction t) simp_all

lemma length_mleaves: "length (mleaves t) = msize t"
  by (induction t) simp_all

lemma length_arr [simp]: "length (arr b t) = asize t"
  by (induction t arbitrary: b) simp_all

lemma arr_nonempty [simp]: "arr b t \<noteq> []"
  by (cases t) simp_all

lemma last_arr: "entry_data (last (arr b t)) = mdata t"
  by (cases t) (simp_all add: entry_new_leaf_def)

lemma length_marr [simp]: "length (marr b ps) = asizes ps"
  by (induction ps arbitrary: b) (simp_all add: asizes_def)

lemma asizes_simps [simp]: "asizes [] = 0" "asizes (p # ps) = asize p + asizes ps"
  "asizes (ps @ qs) = asizes ps + asizes qs"
  by (simp_all add: asizes_def)

lemma msizes_simps [simp]: "msizes [] = 0" "msizes (p # ps) = msize p + msizes ps"
  "msizes (ps @ qs) = msizes ps + msizes qs"
  by (simp_all add: msizes_def)

lemma msizes_le_asizes: "msizes ps \<le> asizes ps"
proof (induction ps)
  case (Cons p ps)
  then show ?case using asize_msize [of p] by simp
qed simp

lemma marr_append: "marr b (ps @ qs) = marr b ps @ marr (b + asizes ps) qs"
  by (induction ps arbitrary: b) (simp_all add: add.assoc)

lemma ppeaks_append: "ppeaks b (ps @ qs) = ppeaks b ps @ ppeaks (b + asizes ps) qs"
  by (induction ps arbitrary: b) (simp_all add: add.assoc)

lemma length_ppeaks [simp]: "length (ppeaks b ps) = length ps"
  by (induction ps arbitrary: b) simp_all

lemma map_snd_ppeaks [simp]: "map snd (ppeaks b ps) = map mdata ps"
  by (induction ps arbitrary: b) simp_all

lemma pspans_append: "pspans V h ok s (ps @ qs) \<longleftrightarrow> pspans V h ok s ps \<and> pspans V h ok (s + msizes ps) qs"
  by (induction ps arbitrary: s) (simp_all add: add.assoc)

lemma mperfect_msize: "mperfect k t \<Longrightarrow> msize t = 2 ^ k"
  by (induction k t rule: mperfect.induct) simp_all

text \<open>Two perfect trees of equal size have equal height.\<close>

lemma mperfect_height: "mperfect k t \<Longrightarrow> mperfect j u \<Longrightarrow> msize t = msize u \<longleftrightarrow> k = j"
  by (simp add: mperfect_msize)

lemma sum_powers_less: "sorted_wrt (>) (k # ks) \<Longrightarrow> (\<Sum>j\<leftarrow>k # ks. 2 ^ j) < (2::nat) ^ Suc k"
proof (induction ks arbitrary: k)
  case (Cons j ks)
  then have "(\<Sum>i\<leftarrow>j # ks. 2 ^ i) < (2::nat) ^ Suc j" by simp
  also have "(2::nat) ^ Suc j \<le> 2 ^ k" using Cons.prems by (intro power_increasing) simp_all
  finally show ?case by simp
qed simp

lemma msizes_powers: "list_all2 mperfect ks ps \<Longrightarrow> msizes ps = (\<Sum>j\<leftarrow>ks. 2 ^ j)"
  by (induction rule: list_all2_induct) (simp_all add: mperfect_msize)

lemma mountain_power:
  assumes "mountain ps"
  shows "(\<exists>k. msizes ps = 2 ^ k) \<longleftrightarrow> length ps = 1"
proof
  assume "length ps = 1"
  then obtain p where "ps = [p]" by (auto simp: length_Suc_conv)
  with assms show "\<exists>k. msizes ps = 2 ^ k" by (auto simp: mountain_def list_all2_Cons2 mperfect_msize)
next
  assume "\<exists>k. msizes ps = 2 ^ k"
  then obtain k where k: "msizes ps = 2 ^ k" ..
  from assms obtain ks where ks: "list_all2 mperfect ks ps" "sorted_wrt (>) ks" by (auto simp: mountain_def)
  have sum: "(\<Sum>j\<leftarrow>ks. 2 ^ j) = (2::nat) ^ k" using k msizes_powers [OF ks(1)] by simp
  then obtain a bs where a: "ks = a # bs" by (cases ks) auto
  have "(2::nat) ^ k < 2 ^ Suc a" using sum_powers_less ks(2) sum a by metis
  then have "k < Suc a" by (rule power_less_imp_less_exp [rotated]) simp
  have "bs = []"
  proof (rule ccontr)
    assume "bs \<noteq> []"
    then have "0 < (\<Sum>j\<leftarrow>bs. (2::nat) ^ j)" by (cases bs) simp_all
    then have "(2::nat) ^ a < 2 ^ k" using sum a by (simp del: power_strict_increasing_iff)
    then have "a < k" by (rule power_less_imp_less_exp [rotated]) simp
    with \<open>k < Suc a\<close> show False by simp
  qed
  with a ks(1) show "length ps = 1" by (auto dest: list_all2_lengthD)
qed

lemma mountain_prefix: "mountain (ps @ qs) \<Longrightarrow> mountain ps"
  by (auto simp: mountain_def list_all2_append2 sorted_wrt_append)

lemma mountain_suffix: "mountain (ps @ qs) \<Longrightarrow> mountain qs"
  by (auto simp: mountain_def list_all2_append2 sorted_wrt_append)

lemma list_all2_last: "list_all2 P xs ys \<Longrightarrow> ys \<noteq> [] \<Longrightarrow> xs \<noteq> [] \<and> P (last xs) (last ys)"
  by (cases "xs = []") (auto simp: list_all2_conv_all_nth last_conv_nth)

lemma mountain_Nil [simp]: "mountain []"
  by (simp add: mountain_def)

lemma mountain_snoc:
  "mountain (qs @ [p]) \<longleftrightarrow>
     mountain qs \<and> (\<exists>k. mperfect k p) \<and> (qs \<noteq> [] \<longrightarrow> msize p < msize (last qs))" (is "?l \<longleftrightarrow> ?r")
proof
  assume ?l
  then obtain ks where "list_all2 mperfect ks (qs @ [p])" "sorted_wrt (>) ks" by (auto simp: mountain_def)
  then obtain js k where ks: "list_all2 mperfect js qs" "mperfect k p" "sorted_wrt (>) (js @ [k])"
    by (auto simp: list_all2_append2 list_all2_Cons2)
  have "msize p < msize (last qs)" if "qs \<noteq> []"
  proof -
    from list_all2_last [OF ks(1) that] have "mperfect (last js) (last qs)" "js \<noteq> []" by simp_all
    moreover then have "k < last js" using ks(3) by (auto simp: sorted_wrt_append)
    ultimately show ?thesis using ks(2) by (simp add: mperfect_msize)
  qed
  then show ?r using ks by (auto simp: mountain_def sorted_wrt_append)
next
  assume r: ?r
  then obtain js k where ks: "list_all2 mperfect js qs" "sorted_wrt (>) js" "mperfect k p" by (auto simp: mountain_def)
  have "\<forall>j\<in>set js. k < j"
  proof (cases "qs = []")
    case False
    from list_all2_last [OF ks(1) False] have last: "mperfect (last js) (last qs)" "js \<noteq> []" by simp_all
    then have "k < last js" using r False ks(3) by (simp add: mperfect_msize)
    moreover have "last js \<le> j" if "j \<in> set js" for j
    proof -
      from last(2) obtain js' i where "js = js' @ [i]" by (cases js rule: rev_cases) auto
      with that ks(2) show ?thesis by (auto simp: sorted_wrt_append)
    qed
    ultimately show ?thesis by fastforce
  qed (use ks in simp)
  then have "sorted_wrt (>) (js @ [k])" using ks(2) by (simp add: sorted_wrt_append)
  moreover have "list_all2 mperfect (js @ [k]) (qs @ [p])" using ks by (simp add: list_all2_appendI)
  ultimately show ?l unfolding mountain_def by blast
qed

section \<open>Views\<close>

text \<open>A view holds some entries of the array, at their positions, and knows its length.\<close>

definition view :: "'d Tree \<Rightarrow> 'd Entry list \<Rightarrow> bool" where
  "view t A \<longleftrightarrow> length A < 2 ^ 32 \<and> unat (stored_count t) = length A \<and>
     (\<forall>i e. stored t i = Some e \<longrightarrow> unat i < length A \<and> A ! unat i = e)"

text \<open>A link is loaded with the data it should have.\<close>

definition loaded :: "'d Tree \<Rightarrow> EntryLink \<times> 'd \<Rightarrow> bool" where
  "loaded t p \<longleftrightarrow> (\<exists>e. resolve_link t (fst p) = Inr (e, fst p) \<and> entry_data e = snd p)"

text \<open>The root joins the peaks from the left, through generated nodes.\<close>

inductive bagged ::
    "'d Version \<Rightarrow> (bytes \<Rightarrow> bytes \<Rightarrow> bytes) \<Rightarrow> 'd Tree \<Rightarrow> (EntryLink \<times> 'd) list \<Rightarrow> EntryLink \<Rightarrow> 'd \<Rightarrow> bool"
    for V h t where
  bagged_one: "loaded t (l, d) \<Longrightarrow> bagged V h t [(l, d)] l d"
| bagged_more: "bagged V h t ps lr dl \<Longrightarrow> loaded t (l, d) \<Longrightarrow>
    resolve_link t (Generated g) = Inr (\<lparr>kind = NodeKind lr l, entry_data = d'\<rparr>, Generated g) \<Longrightarrow>
    ver_combine V h dl d = Some d' \<Longrightarrow> bagged V h t (ps @ [(l, d)]) (Generated g) d'"

text \<open>The right spine of a peak is loaded, with the left children along it.\<close>

primrec spine_loaded :: "'d Tree \<Rightarrow> nat \<Rightarrow> 'd mtree \<Rightarrow> bool" where
  "spine_loaded t b (MLeaf d) \<longleftrightarrow> loaded t (mlink b (MLeaf d), d)"
| "spine_loaded t b (MNode d l r) \<longleftrightarrow> loaded t (mlink b (MNode d l r), d) \<and>
     loaded t (mlink b l, mdata l) \<and> spine_loaded t (b + asize l) r"

text \<open>Everything the first tree resolves, the second one does.\<close>

definition extends :: "'d Tree \<Rightarrow> 'd Tree \<Rightarrow> bool" where
  "extends t t' \<longleftrightarrow> (\<forall>l n. resolve_link t l = Inr n \<longrightarrow> resolve_link t' l = Inr n)"

lemma resolve_link_link: "resolve_link t l = Inr n \<Longrightarrow> snd n = l"
  by (auto simp: resolve_link_def split: option.splits)

lemma extends_refl [simp]: "extends t t"
  by (simp add: extends_def)

lemma extends_trans: "extends t u \<Longrightarrow> extends u v \<Longrightarrow> extends t v"
  by (simp add: extends_def)

lemma loaded_extends: "loaded t p \<Longrightarrow> extends t t' \<Longrightarrow> loaded t' p"
  by (auto simp: loaded_def extends_def)

lemma spine_extends: "spine_loaded t b m \<Longrightarrow> extends t t' \<Longrightarrow> spine_loaded t' b m"
  by (induction m arbitrary: b) (auto intro: loaded_extends)

lemma bagged_extends: "bagged V h t ps r d \<Longrightarrow> extends t t' \<Longrightarrow> bagged V h t' ps r d"
proof (induction rule: bagged.induct)
  case (bagged_one l d)
  then show ?case by (auto intro: bagged.intros loaded_extends)
next
  case (bagged_more ps lr dl l d g d')
  then have "resolve_link t' (Generated g) = Inr (\<lparr>kind = NodeKind lr l, entry_data = d'\<rparr>, Generated g)"
    by (simp add: extends_def)
  with bagged_more show ?case by (auto intro: bagged.intros loaded_extends)
qed

lemma bagged_loaded: "bagged V h t ps r d \<Longrightarrow> loaded t (r, d)"
  by (induction rule: bagged.induct) (auto simp: loaded_def)

lemma bagged_nonempty: "bagged V h t ps r d \<Longrightarrow> ps \<noteq> []"
  by (induction rule: bagged.induct) simp_all

lemma bagged_peaks: "bagged V h t ps r d \<Longrightarrow> p \<in> set ps \<Longrightarrow> loaded t p"
  by (induction rule: bagged.induct) auto

lemma resolve_root [simp]: "resolve_link (t\<lparr>root := r\<rparr>) l = resolve_link t l"
  by (simp add: resolve_link_def split: EntryLink.splits)

text \<open>Pushing an entry.\<close>

lemma view_entry: "view t A \<Longrightarrow> stored t i = Some e \<Longrightarrow> unat i < length A \<and> A ! unat i = e"
  by (simp add: view_def)

lemma push_stored:
  assumes v: "view t A" and bound: "length A + 1 < 2 ^ 32"
  shows "fst (tree_push t e) = Stored (of_nat (length A))" and "view (snd (tree_push t e)) (A @ [e])"
    and "extends t (snd (tree_push t e))"
    and "resolve_link (snd (tree_push t e)) (Stored (of_nat (length A))) = Inr (e, Stored (of_nat (length A)))"
    and "generated (snd (tree_push t e)) = generated t" and "root (snd (tree_push t e)) = root t"
proof -
  have c: "unat (stored_count t) = length A" using v by (simp add: view_def)
  then have idx: "stored_count t = of_nat (length A)" by (metis of_nat_unat ucast_id)
  have c': "unat (stored_count t + 1) = length A + 1" using c bound by (simp add: unat_word_ariths)
  have new: "stored t (stored_count t) = None" using v c by (cases "stored t (stored_count t)") (auto dest: view_entry)
  show "fst (tree_push t e) = Stored (of_nat (length A))" by (simp add: tree_push_def Let_def idx)
  have "i = stored_count t" if "\<not> unat i < length A" "unat i < length A + 1" for i
    using that c by (simp add: word_unat_eq_iff)
  then show "view (snd (tree_push t e)) (A @ [e])"
    using v bound c c' by (force simp: view_def tree_push_def Let_def nth_append)
  show "extends t (snd (tree_push t e))"
    using new by (auto simp: extends_def resolve_link_def tree_push_def Let_def split: EntryLink.splits option.splits)
  show "resolve_link (snd (tree_push t e)) (Stored (of_nat (length A))) = Inr (e, Stored (of_nat (length A)))"
    by (simp add: resolve_link_def tree_push_def Let_def idx)
qed (simp_all add: tree_push_def Let_def)

lemma push_generated:
  assumes "length (generated t) + 1 < 2 ^ 32"
  shows "extends t (snd (tree_push_generated t e))"
    and "resolve_link (snd (tree_push_generated t e)) (fst (tree_push_generated t e)) =
      Inr (e, fst (tree_push_generated t e))"
    and "stored (snd (tree_push_generated t e)) = stored t"
    and "stored_count (snd (tree_push_generated t e)) = stored_count t"
    and "root (snd (tree_push_generated t e)) = root t"
    and "length (generated (snd (tree_push_generated t e))) = length (generated t) + 1"
proof -
  have idx: "unat (of_nat (length (generated t)) :: u32) = length (generated t)"
    using assms by (simp add: unat_of_nat take_bit_nat_eq_self)
  show "extends t (snd (tree_push_generated t e))"
    by (auto simp: extends_def resolve_link_def tree_push_generated_def Let_def nth_append
        split: EntryLink.splits if_splits)
  show "resolve_link (snd (tree_push_generated t e)) (fst (tree_push_generated t e)) =
      Inr (e, fst (tree_push_generated t e))"
    using idx by (simp add: resolve_link_def tree_push_generated_def Let_def)
qed (simp_all add: tree_push_generated_def Let_def)

lemma view_generated: "view t A \<Longrightarrow> stored t' = stored t \<Longrightarrow> stored_count t' = stored_count t \<Longrightarrow> view t' A"
  by (simp add: view_def)

section \<open>Joining the peaks\<close>

lemma bag_loop_spec:
  assumes "bagged V h t qs r d" "\<forall>p\<in>set ps. loaded t p" "bag_data V h d (map snd ps) = Some d'"
    "length (generated t) + length ps < 2 ^ 32"
  shows "\<exists>r' t'. bag_loop V h t r (map fst ps) = Some (Inr r', t') \<and> bagged V h t' (qs @ ps) r' d' \<and>
    extends t t' \<and> stored t' = stored t \<and> stored_count t' = stored_count t \<and>
    length (generated t') = length (generated t) + length ps"
  using assms
proof (induction ps arbitrary: t qs r d)
  case Nil
  then show ?case by simp
next
  case (Cons p ps)
  obtain l e where p: "p = (l, e)" by force
  from Cons.prems(3) p obtain d1 where d1: "ver_combine V h d e = Some d1" "bag_data V h d1 (map snd ps) = Some d'"
    by (auto simp: bind_eq_Some_conv)
  from bagged_loaded [OF Cons.prems(1)] Cons.prems(2) p obtain el er where
    res: "resolve_link t r = Inr (el, r)" "entry_data el = d" "resolve_link t l = Inr (er, l)" "entry_data er = e"
    by (auto simp: loaded_def)
  let ?e = "\<lparr>kind = NodeKind r l, entry_data = d1\<rparr>"
  have comb: "combine_nodes V h (el, r) (er, l) = Some ?e"
    using res d1(1) by (simp add: combine_nodes_def)
  obtain lk t1 where push: "tree_push_generated t ?e = (lk, t1)" by force
  have bound: "length (generated t) + 1 < 2 ^ 32" using Cons.prems(4) by simp
  note g = push_generated [OF bound, of ?e, unfolded push, simplified]
  obtain g where lk: "lk = Generated g" using push by (auto simp: tree_push_generated_def Let_def)
  have "bagged V h t1 (qs @ [p]) lk d1"
    unfolding p lk using bagged_extends [OF Cons.prems(1) g(1)] g(2) d1(1) Cons.prems(2) p lk
    by (auto intro: bagged_more loaded_extends [OF _ g(1)])
  moreover have "\<forall>q\<in>set ps. loaded t1 q" using Cons.prems(2) loaded_extends [OF _ g(1)] by auto
  moreover have "length (generated t1) + length ps < 2 ^ 32" using g(6) Cons.prems(4) by simp
  ultimately obtain r' t' where "bag_loop V h t1 lk (map fst ps) = Some (Inr r', t')"
      "bagged V h t' ((qs @ [p]) @ ps) r' d'" "extends t1 t'" "stored t' = stored t1"
      "stored_count t' = stored_count t1" "length (generated t') = length (generated t1) + length ps"
    using Cons.IH [OF _ _ d1(2)] by blast
  then show ?case using res comb push g extends_trans [OF g(1)] p by auto
qed

text \<open>
  A tree whose root covers the mountain range \<open>ps\<close>, whose blocks start at height \<open>s\<close>.
\<close>

definition tree_state ::
    "'d Version \<Rightarrow> (bytes \<Rightarrow> bytes \<Rightarrow> bytes) \<Rightarrow> ('d \<Rightarrow> bool) \<Rightarrow> nat \<Rightarrow> 'd Tree \<Rightarrow> 'd mtree list \<Rightarrow> bool" where
  "tree_state V h ok s t ps \<longleftrightarrow> mountain ps \<and> pspans V h ok s ps \<and> view t (marr 0 ps) \<and>
     (\<exists>d. root_data V h ps = Some d \<and> bagged V h t (ppeaks 0 ps) (root t) d)"

lemma bagged_root [simp]: "bagged V h (t\<lparr>root := r\<rparr>) ps rt d \<longleftrightarrow> bagged V h t ps rt d"
  by (rule iffI; erule bagged_extends; simp add: extends_def)

lemma view_root [simp]: "view (t\<lparr>root := r\<rparr>) A \<longleftrightarrow> view t A"
  by (simp add: view_def)

lemma loaded_root [simp]: "loaded (t\<lparr>root := r\<rparr>) p \<longleftrightarrow> loaded t p"
  by (simp add: loaded_def)

lemma spine_root [simp]: "spine_loaded (t\<lparr>root := r\<rparr>) b m \<longleftrightarrow> spine_loaded t b m"
  by (induction m arbitrary: b) simp_all

lemma ppeaks_link: "ppeaks b (ps @ [MLeaf d]) = ppeaks b ps @ [(Stored (of_nat (b + asizes ps)), d)]"
  by (simp add: ppeaks_append mlink_def)

section \<open>Removing entries\<close>

lemma unat_of_nat32: "m < 2 ^ 32 \<Longrightarrow> unat (of_nat m :: u32) = m"
  by (simp add: unat_of_nat take_bit_nat_eq_self)

lemma pop_one:
  assumes v: "view u A" and ne: "0 < length A"
  shows "view (tree_pop u) (take (length A - 1) A)" "generated (tree_pop u) = generated u"
    "unat i < length A - 1 \<Longrightarrow> stored (tree_pop u) i = stored u i"
proof -
  have c: "unat (stored_count u) = length A" using v by (simp add: view_def)
  then have "1 \<le> stored_count u" using ne by (simp add: word_le_nat_alt Suc_le_eq)
  then have c': "unat (stored_count u - 1) = length A - 1" using c by (simp add: unat_sub)
  have short: "unat j < length A - 1" if "unat j < length A" "j \<noteq> stored_count u - 1" for j
  proof -
    have "unat j \<noteq> length A - 1" using that(2) c' by (metis word_unat_eq_iff)
    with that(1) show ?thesis by simp
  qed
  show "view (tree_pop u) (take (length A - 1) A)"
    unfolding view_def
  proof (intro conjI allI impI)
    show "length (take (length A - 1) A) < 2 ^ 32" using v by (auto simp: view_def)
    show "unat (stored_count (tree_pop u)) = length (take (length A - 1) A)"
      using c' by (simp add: tree_pop_def)
  next
    fix j e assume "stored (tree_pop u) j = Some e"
    then have j: "stored u j = Some e" "j \<noteq> stored_count u - 1" by (simp_all add: tree_pop_def split: if_splits)
    from view_entry [OF v j(1)] short [OF _ j(2)]
    show "unat j < length (take (length A - 1) A)" "take (length A - 1) A ! unat j = e" by simp_all
  qed
  show "generated (tree_pop u) = generated u" by (simp add: tree_pop_def)
  show "stored (tree_pop u) i = stored u i" if "unat i < length A - 1"
    using that c' by (auto simp: tree_pop_def)
qed

lemma pops:
  "view t A \<Longrightarrow> n \<le> length A \<Longrightarrow> view ((tree_pop ^^ n) t) (take (length A - n) A) \<and>
     generated ((tree_pop ^^ n) t) = generated t \<and>
     (\<forall>i. unat i < length A - n \<longrightarrow> stored ((tree_pop ^^ n) t) i = stored t i)"
proof (induction n)
  case (Suc n)
  let ?t = "(tree_pop ^^ n) t" and ?A = "take (length A - n) A"
  from Suc have IH: "view ?t ?A" "generated ?t = generated t"
    "\<And>i. unat i < length A - n \<Longrightarrow> stored ?t i = stored t i" by simp_all
  have "length ?A = length A - n" "0 < length ?A" "take (length ?A - 1) ?A = take (length A - Suc n) A"
    using Suc.prems(2) by simp_all
  with pop_one [OF IH(1)] IH show ?case by simp
qed simp

lemma loaded_pops:
  assumes "view t A" "n \<le> length A" "loaded t (l, d)" "case l of Stored i \<Rightarrow> unat i < length A - n | Generated g \<Rightarrow> True"
  shows "loaded ((tree_pop ^^ n) t) (l, d)"
  using pops [OF assms(1,2)] assms(3,4) by (auto simp: loaded_def resolve_link_def split: EntryLink.splits)

lemma bagged_transfer:
  assumes "bagged V h t xs r d" "\<forall>p\<in>set xs. loaded t' p" "generated t' = generated t"
  shows "bagged V h t' xs r d"
  using assms
proof (induction rule: bagged.induct)
  case (bagged_more ps lr dl l d g d')
  then have "resolve_link t' (Generated g) = Inr (\<lparr>kind = NodeKind lr l, entry_data = d'\<rparr>, Generated g)"
    by (simp add: resolve_link_def split: if_splits)
  with bagged_more show ?case by (auto intro: bagged.bagged_more)
qed (auto intro: bagged_one)

text \<open>The positions of the peaks lie in the array.\<close>

lemma peak_position:
  "p \<in> set (ppeaks b ps) \<Longrightarrow> b + asizes ps < 2 ^ 32 \<Longrightarrow>
   \<exists>i. fst p = Stored i \<and> b \<le> unat i \<and> unat i < b + asizes ps"
proof (induction ps arbitrary: b)
  case (Cons q qs)
  show ?case
  proof (cases "p = (mlink b q, mdata q)")
    case True
    obtain n where n: "asize q = Suc n" using gr0_implies_Suc [OF asize_pos] by blast
    have "unat (of_nat (b + asize q - 1) :: u32) = b + asize q - 1"
      using Cons.prems(2) by (simp add: unat_of_nat take_bit_nat_eq_self)
    then show ?thesis using True Cons.prems(2) by (auto simp: mlink_def n)
  next
    case False
    with Cons.prems Cons.IH [of "b + asize q"] show ?thesis by force
  qed
qed simp

lemma view_resolve:
  assumes "view t A" "A = pre @ arr (length pre) q @ post" "resolve_link t (mlink (length pre) q) = Inr (e, l)"
  shows "e = last (arr (length pre) q)" "l = mlink (length pre) q"
proof -
  let ?i = "length pre + asize q - 1"
  obtain n where n: "asize q = Suc n" using gr0_implies_Suc [OF asize_pos] by blast
  have "length A < 2 ^ 32" using assms(1) by (simp add: view_def)
  then have "length pre + asize q < 2 ^ 32" using assms(2) by simp
  then have idx: "unat (of_nat ?i :: u32) = ?i" by (simp add: unat_of_nat take_bit_nat_eq_self)
  from assms(3) have "stored t (of_nat ?i) = Some e" and l: "l = mlink (length pre) q"
    by (auto simp: resolve_link_def mlink_def split: option.splits)
  from view_entry [OF assms(1) this(1)] idx have "e = A ! ?i" by simp
  also have "\<dots> = arr (length pre) q ! (asize q - 1)"
    by (simp add: assms(2) nth_append n)
  also have "\<dots> = last (arr (length pre) q)" by (simp add: last_conv_nth)
  finally show "e = last (arr (length pre) q)" .
  show "l = mlink (length pre) q" by (fact l)
qed

section \<open>The right spine\<close>

primrec rdepth :: "'d mtree \<Rightarrow> nat" where
  "rdepth (MLeaf d) = 0"
| "rdepth (MNode d l r) = Suc (rdepth r)"

lemma arr_lefts: "\<exists>sp. arr b q = marr b (mlefts q) @ sp \<and> length sp = rdepth q + 1"
proof (induction q arbitrary: b)
  case (MNode d l r)
  from MNode(2) [of "b + asize l"] obtain sp where
    "arr (b + asize l) r = marr (b + asize l) (mlefts r) @ sp" "length sp = rdepth r + 1" by blast
  then show ?case
    by (intro exI [of _ "sp @ [\<lparr>kind = NodeKind (mlink b l) (mlink (b + asize l) r), entry_data = d\<rparr>]"]) simp
qed simp

lemma asizes_lefts: "asizes (mlefts q) + rdepth q + 1 = asize q"
proof -
  obtain sp where "arr 0 q = marr 0 (mlefts q) @ sp" "length sp = rdepth q + 1" using arr_lefts by blast
  from arg_cong [OF this(1), of length] this(2) show ?thesis by simp
qed

lemma mleaves_lefts: "concat (map mleaves (mlefts q)) = butlast (mleaves q)"
proof (induction q)
  case (MNode d l r)
  have "mleaves r \<noteq> []" using msize_pos [of r] by (metis length_mleaves length_0_conv less_not_refl)
  with MNode show ?case by (simp add: butlast_append)
qed simp

lemma mountain_lefts:
  "mperfect k q \<Longrightarrow> mountain qs \<Longrightarrow> (qs \<noteq> [] \<Longrightarrow> msize q < msize (last qs) \<or> msize q = msize (last qs) \<and> 0 < k) \<Longrightarrow>
   mountain (qs @ mlefts q)"
proof (induction q arbitrary: k qs)
  case (MNode d l r)
  then obtain j where k: "k = Suc j" and l: "mperfect j l" and r: "mperfect j r" by (cases k) auto
  have lr: "msize r = msize l" using l r by (simp add: mperfect_msize)
  have "mountain (qs @ [l])"
    unfolding mountain_snoc using MNode.prems(2,3) l gr0_implies_Suc [OF msize_pos [of r]] by auto
  moreover have "qs @ mlefts (MNode d l r) = (qs @ [l]) @ mlefts r" by simp
  moreover have "mountain ((qs @ [l]) @ mlefts r)"
  proof (cases j)
    case 0
    with r have "mlefts r = []" by (cases r) auto
    with \<open>mountain (qs @ [l])\<close> show ?thesis by simp
  next
    case (Suc i)
    then show ?thesis using MNode.IH(2) [OF r \<open>mountain (qs @ [l])\<close>] lr by simp
  qed
  ultimately show ?case by simp
qed simp

lemma pspans_lefts: "spans V h ok s q \<Longrightarrow> pspans V h ok s (mlefts q)"
  by (induction q arbitrary: s) simp_all

lemma truncate_mmerge: "mmerge V h rps cur = Some ps \<Longrightarrow> mtruncate ps = rev rps @ mlefts cur"
proof (induction V h rps cur rule: mmerge.induct)
  case (2 V h p rest cur)
  then show ?case by (auto simp: bind_eq_Some_conv mtruncate_def butlast_append split: if_splits)
qed (auto simp: mtruncate_def)

lemma mtruncate_mappend: "mappend V h ps d = Some ps' \<Longrightarrow> mtruncate ps' = ps"
  by (simp add: mappend_def truncate_mmerge)

lemma spine_lefts: "spine_loaded t b q \<Longrightarrow> x \<in> set (ppeaks b (mlefts q)) \<Longrightarrow> loaded t x"
  by (induction q arbitrary: b) auto

lemma bagged_snoc:
  assumes "bagged V h t (xs @ [(l, e)]) r d" "xs \<noteq> []"
  shows "\<exists>lr dl g. r = Generated g \<and> bagged V h t xs lr dl \<and>
    resolve_link t r = Inr (\<lparr>kind = NodeKind lr l, entry_data = d\<rparr>, r) \<and> ver_combine V h dl e = Some d"
  using assms(1) by (cases rule: bagged.cases) (use assms(2) in auto)

lemma bagged_single:
  assumes "bagged V h t [(l, e)] r d"
  shows "r = l \<and> d = e"
  using assms by (cases rule: bagged.cases) (auto dest: bagged_nonempty)

lemma root_data_append:
  assumes "qs \<noteq> []"
  shows "root_data V h (qs @ ps) = Option.bind (root_data V h qs) (\<lambda>d. bag_data V h d (map mdata ps))"
proof -
  have "bag_data V h d (es @ fs) = Option.bind (bag_data V h d es) (\<lambda>d. bag_data V h d fs)" for d es fs
    by (induction es arbitrary: d) (simp_all add: bind_assoc)
  with assms show ?thesis by (cases qs) (simp_all add: root_data_def)
qed

lemma bagged_root_data: "bagged V h t xs r d \<Longrightarrow> xs = ppeaks b ps \<Longrightarrow> root_data V h ps = Some d"
proof (induction arbitrary: ps rule: bagged.induct)
  case (bagged_one l d)
  then show ?case by (cases ps; cases "tl ps") (auto simp: root_data_def)
next
  case (bagged_more xs lr dl l d g d')
  from bagged_more.prems obtain qs p where ps: "ps = qs @ [p]" by (cases ps rule: rev_cases) auto
  with bagged_more.prems have xs: "xs = ppeaks b qs" "d = mdata p" by (simp_all add: ppeaks_append)
  have "qs \<noteq> []" using bagged_nonempty [OF bagged_more.hyps(1)] xs(1) by auto
  with bagged_more.IH [OF xs(1)] bagged_more.hyps(4) show ?case by (simp add: ps xs root_data_append)
qed

text \<open>Dropping the right spine of the last peak from the array.\<close>

lemma truncate_finish:
  assumes v: "view t (marr 0 (qs @ [p]))" and bag: "bagged V h t (ppeaks 0 (qs @ mlefts p)) r d"
  shows "view ((tree_pop ^^ (rdepth p + 1)) t) (marr 0 (qs @ mlefts p))"
    "bagged V h ((tree_pop ^^ (rdepth p + 1)) t) (ppeaks 0 (qs @ mlefts p)) r d"
proof -
  let ?n = "rdepth p + 1"
  have len: "asizes (qs @ [p]) - ?n = asizes (qs @ mlefts p)" "?n \<le> asizes (qs @ [p])"
    using asizes_lefts [of p] by simp_all
  obtain sp where sp: "arr (asizes qs) p = marr (asizes qs) (mlefts p) @ sp" using arr_lefts by blast
  have "take (asizes (qs @ mlefts p)) (marr 0 (qs @ [p])) = marr 0 (qs @ mlefts p)"
    by (simp add: marr_append sp)
  with pops [OF v, of ?n] len show "view ((tree_pop ^^ ?n) t) (marr 0 (qs @ mlefts p))"
    by (simp only: length_marr)
  have bound: "0 + asizes (qs @ mlefts p) < 2 ^ 32" using v asizes_lefts [of p] by (auto simp: view_def)
  have "loaded ((tree_pop ^^ ?n) t) x" if x: "x \<in> set (ppeaks 0 (qs @ mlefts p))" for x
  proof -
    from peak_position [OF x bound] obtain i where i: "fst x = Stored i" "unat i < asizes (qs @ mlefts p)" by auto
    then obtain e where xe: "x = (Stored i, e)" by (cases x) simp
    have ld: "loaded t (Stored i, e)" using bagged_peaks [OF bag x] xe by simp
    show ?thesis unfolding xe
      using len i(2) by (intro loaded_pops [OF v _ ld]) simp_all
  qed
  then show "bagged V h ((tree_pop ^^ ?n) t) (ppeaks 0 (qs @ mlefts p)) r d"
    using bag pops [OF v, of ?n] len(2) by (intro bagged_transfer [OF bag]) simp_all
qed

section \<open>The operations refine the mountain range\<close>

text \<open>The links of a segment of the array.\<close>

definition links_from :: "nat \<Rightarrow> nat \<Rightarrow> EntryLink list" where
  "links_from a b = map (\<lambda>i. Stored (of_nat i)) [a..<b]"

text \<open>A version together with its hash.\<close>

locale history_mmr = history_version V ok for V :: "'d Version" and ok +
  fixes h :: "bytes \<Rightarrow> bytes \<Rightarrow> bytes"
  assumes hash_length: "length (h p x) = 32"
begin

lemmas combine_law = combine_Some [of _ _ h, OF _ _ hash_length]

lemma spans_data:
  "spans V h ok s t \<Longrightarrow> ok (mdata t) \<and> unat (ver_start_height V (mdata t)) = s \<and>
     unat (ver_end_height V (mdata t)) + 1 = s + msize t"
proof (induction t arbitrary: s)
  case (MNode d l r)
  from MNode.prems have c: "ver_combine V h (mdata l) (mdata r) = Some d" by simp
  from MNode.IH(1) [of s] MNode.prems have l: "ok (mdata l)" "unat (ver_start_height V (mdata l)) = s"
    by simp_all
  from MNode.IH(2) [of "s + msize l"] MNode.prems
  have r: "ok (mdata r)" "unat (ver_end_height V (mdata r)) + 1 = s + msize l + msize r" by simp_all
  show ?case using combine_law [OF l(1) r(1) c] l r by simp
qed simp

text \<open>The data of a root: the blocks of all its peaks.\<close>

lemma bagged_data:
  "bagged V h t xs r d \<Longrightarrow> xs = ppeaks b ps \<Longrightarrow> pspans V h ok s ps \<Longrightarrow>
   ok d \<and> unat (ver_start_height V d) = s \<and> unat (ver_end_height V d) + 1 = s + msizes ps"
proof (induction arbitrary: ps rule: bagged.induct)
  case (bagged_one l d)
  then obtain p where "ps = [p]" "d = mdata p"
    by (cases ps; cases "tl ps") auto
  with bagged_one.prems show ?case using spans_data by simp
next
  case (bagged_more xs lr dl l d g d')
  from bagged_more.prems(1) obtain qs p where ps: "ps = qs @ [p]" by (cases ps rule: rev_cases) auto
  with bagged_more.prems have xs: "xs = ppeaks b qs" "d = mdata p"
    and sp: "pspans V h ok s qs" "spans V h ok (s + msizes qs) p"
    by (simp_all add: ppeaks_append pspans_append)
  from bagged_more.IH [OF xs(1) sp(1)] have dl: "ok dl" "unat (ver_start_height V dl) = s" by simp_all
  from spans_data [OF sp(2)] xs(2) have d: "ok d" "unat (ver_end_height V d) + 1 = s + msizes ps"
    using ps by simp_all
  show ?case using combine_law [OF dl(1) d(1) bagged_more.hyps(4)] dl d by simp
qed

lemma leaf_count_data:
  assumes "unat (ver_start_height V d) = s" "unat (ver_end_height V d) + 1 = s + m" "0 < m" "m < 2 ^ 64"
    "entry_data e = d"
  shows "leaf_count V e = Some (of_nat m)" "complete_entry V e = Some (\<exists>k. m = 2 ^ k)"
proof -
  show c: "leaf_count V e = Some (of_nat m)"
    using height_count_eq [of "ver_end_height V d" "ver_start_height V d" m] assms by (simp add: leaf_count_def)
  show "complete_entry V e = Some (\<exists>k. m = 2 ^ k)"
    using assms(4) by (simp add: complete_entry_def c is_power_of_two_iff unat_of_nat64)
qed

lemma get_peaks_complete:
  assumes "loaded t (l, d)" "unat (ver_start_height V d) = s" "unat (ver_end_height V d) + 1 = s + 2 ^ k"
    "(2::nat) ^ k < 2 ^ 64"
  shows "get_peaks V t l target = Some (Inr (target @ [l]))"
proof -
  from assms(1) obtain e where e: "resolve_link t l = Inr (e, l)" "entry_data e = d" by (auto simp: loaded_def)
  from leaf_count_data(2) [OF assms(2,3) _ assms(4) e(2)] have "complete_entry V e = Some True" by simp
  with e(1) show ?thesis by (simp add: get_peaks.simps [of V t l])
qed

lemma get_peaks_bagged:
  "bagged V h t xs r d \<Longrightarrow> xs = ppeaks b ps \<Longrightarrow> pspans V h ok s ps \<Longrightarrow> mountain ps \<Longrightarrow> msizes ps < 2 ^ 64 \<Longrightarrow>
   get_peaks V t r target = Some (Inr (target @ map fst xs))"
proof (induction arbitrary: ps target rule: bagged.induct)
  case (bagged_one l d)
  then obtain p where p: "ps = [p]" "d = mdata p"
    by (cases ps; cases "tl ps") auto
  with bagged_one.prems obtain k where k: "msize p = 2 ^ k" by (auto simp: mountain_def list_all2_Cons2 mperfect_msize)
  have "spans V h ok s p" using bagged_one.prems(2) p by simp
  from spans_data [OF this] k p bagged_one.prems(4) show ?case
    using get_peaks_complete [OF bagged_one.hyps] by simp
next
  case (bagged_more xs lr dl l d g d')
  from bagged_more.prems(1) obtain qs p where ps: "ps = qs @ [p]" by (cases ps rule: rev_cases) auto
  with bagged_more.prems have xs: "xs = ppeaks b qs" "d = mdata p"
    and sp: "pspans V h ok s qs" "spans V h ok (s + msizes qs) p"
    and m: "mountain qs" "mountain [p]"
    by (auto simp: ppeaks_append pspans_append intro: mountain_prefix mountain_suffix)
  from m(2) obtain k where k: "msize p = 2 ^ k" by (auto simp: mountain_def list_all2_Cons2 mperfect_msize)
  let ?n = "\<lparr>kind = NodeKind lr l, entry_data = d'\<rparr>"
  have "bagged V h t (xs @ [(l, d)]) (Generated g) d'" by (rule bagged.bagged_more) fact+
  from bagged_data [OF this bagged_more.prems(1,2)] have
    d': "unat (ver_start_height V d') = s" "unat (ver_end_height V d') + 1 = s + msizes ps" by simp_all
  have "xs \<noteq> []" using bagged_more.hyps(1) by (rule bagged_nonempty)
  then have "qs \<noteq> []" using xs(1) by auto
  then have "length ps \<noteq> 1" using ps by simp
  then have no: "\<not> (\<exists>j. msizes ps = 2 ^ j)" using mountain_power [OF bagged_more.prems(3)] by simp
  have "0 < msizes ps" using ps by simp
  from leaf_count_data(2) [OF d' this bagged_more.prems(4), of ?n] no
  have incomplete: "complete_entry V ?n = Some False" by simp
  have left: "get_peaks V t lr target = Some (Inr (target @ map fst xs))"
    using bagged_more.IH [OF xs(1) sp(1) m(1)] bagged_more.prems(4) ps by simp
  have right: "get_peaks V t l target' = Some (Inr (target' @ [l]))" for target'
    using spans_data [OF sp(2)] k xs(2) bagged_more.prems(4) ps
    by (intro get_peaks_complete [OF bagged_more.hyps(2)]) auto
  show ?case
    using bagged_more.hyps(3) incomplete left right
    by (simp add: get_peaks.simps [of V t "Generated g"] indexed_left_def indexed_right_def entry_left_def entry_right_def)
qed

lemma resolve_counts:
  assumes "loaded t (l, d)" "unat (ver_start_height V d) = s" "unat (ver_end_height V d) + 1 = s + m"
    "0 < m" "m < 2 ^ 64"
  shows "\<exists>e. resolve_link t l = Inr (e, l) \<and> entry_data e = d \<and> leaf_count V e = Some (of_nat m)"
  using assms leaf_count_data(1) [OF assms(2-5)] by (auto simp: loaded_def)

lemma of_nat64_eq: "m < 2 ^ 64 \<Longrightarrow> n < 2 ^ 64 \<Longrightarrow> (of_nat m :: u64) = of_nat n \<longleftrightarrow> m = n"
  by (metis unat_of_nat64)

text \<open>Peaks of unequal sizes are left on the stack.\<close>

lemma merge_skip:
  "pspans V h ok s ps \<Longrightarrow> mountain ps \<Longrightarrow> \<forall>q\<in>set (ppeaks b ps). loaded t q \<Longrightarrow> msizes ps < 2 ^ 64 \<Longrightarrow>
   loaded t (lk, d) \<Longrightarrow> unat (ver_start_height V d) = s' \<Longrightarrow> unat (ver_end_height V d) + 1 = s' + m \<Longrightarrow>
   0 < m \<Longrightarrow> m < 2 ^ 64 \<Longrightarrow> (ps \<noteq> [] \<Longrightarrow> msize (last ps) \<noteq> m) \<Longrightarrow>
   merge_loop V h t (map fst (rev (ppeaks b ps))) (lk # st) app =
     Some (Inr (map fst (ppeaks b ps) @ lk # st, app), t)"
proof (induction ps arbitrary: lk d s' m st rule: rev_induct)
  case (snoc p qs)
  let ?l = "mlink (b + asizes qs) p"
  from snoc.prems have sp: "spans V h ok (s + msizes qs) p" and qs: "pspans V h ok s qs" "mountain qs"
    and pk: "loaded t (?l, mdata p)" "\<forall>q\<in>set (ppeaks b qs). loaded t q"
    and bound: "msize p < 2 ^ 64" "msizes qs < 2 ^ 64"
    by (auto simp: pspans_append ppeaks_append mountain_snoc)
  note dp = spans_data [OF sp]
  from resolve_counts [OF pk(1) _ _ msize_pos bound(1)] dp obtain ep where
    ep: "resolve_link t ?l = Inr (ep, ?l)" "leaf_count V ep = Some (of_nat (msize p))" by blast
  from resolve_counts [OF snoc.prems(5-9)] obtain ed where
    ed: "resolve_link t lk = Inr (ed, lk)" "leaf_count V ed = Some (of_nat m)" by blast
  have "msize p \<noteq> m" using snoc.prems(10) by simp
  then have "merge_loop V h t (map fst (rev (ppeaks b (qs @ [p])))) (lk # st) app =
      merge_loop V h t (map fst (rev (ppeaks b qs))) (?l # lk # st) app"
    using ep ed of_nat64_eq [OF bound(1) snoc.prems(9)] by (simp add: ppeaks_append)
  also have "\<dots> = Some (Inr (map fst (ppeaks b qs) @ ?l # lk # st, app), t)"
    using dp snoc.prems(2) by (intro snoc.IH [OF qs pk(2) bound(2) pk(1) _ _ msize_pos bound(1)])
      (auto simp: mountain_snoc)
  finally show ?case by (simp add: ppeaks_append)
qed simp

text \<open>The merging loop carries out \<open>mmerge\<close>, storing the new nodes behind the array.\<close>

lemma merge_spec:
  "mmerge V h (rev qs) cur = Some ps \<Longrightarrow> pspans V h ok s (qs @ [cur]) \<Longrightarrow> mountain qs \<Longrightarrow> mperfect kc cur \<Longrightarrow>
   (qs \<noteq> [] \<Longrightarrow> msize cur \<le> msize (last qs)) \<Longrightarrow> view t (marr 0 (qs @ [cur])) \<Longrightarrow>
   \<forall>p\<in>set (ppeaks 0 (qs @ [cur])). loaded t p \<Longrightarrow> asizes (qs @ [cur]) + length qs < 2 ^ 32 \<Longrightarrow>
   spine_loaded t (asizes qs) cur \<Longrightarrow>
   \<exists>t' added. merge_loop V h t (map fst (rev (ppeaks 0 qs))) [mlink (asizes qs) cur] app =
       Some (Inr (map fst (ppeaks 0 ps), app @ links_from (asizes (qs @ [cur])) (asizes ps)), t') \<and>
     marr 0 ps = marr 0 (qs @ [cur]) @ added \<and> view t' (marr 0 ps) \<and> extends t t' \<and>
     generated t' = generated t \<and> root t' = root t \<and> (\<forall>p\<in>set (ppeaks 0 ps). loaded t' p) \<and>
     pspans V h ok s ps \<and> mountain ps \<and> ps \<noteq> [] \<and> length ps \<le> length qs + 1 \<and>
     spine_loaded t' (asizes (butlast ps)) (last ps) \<and>
     concat (map mleaves ps) = concat (map mleaves (qs @ [cur]))"
proof (induction qs arbitrary: cur kc t app rule: rev_induct)
  case Nil
  then show ?case
    using mountain_snoc [of "[]" cur] by (auto simp: links_from_def intro!: exI [of _ t])
next
  case (snoc p qs)
  let ?b = "asizes qs" and ?c = "asizes qs + asize p"
  let ?p = "mlink ?b p" and ?cur = "mlink ?c cur"
  from snoc.prems have sp: "spans V h ok (s + msizes qs) p" "spans V h ok (s + msizes qs + msize p) cur"
    and pqs: "pspans V h ok s qs" and mqs: "mountain qs"
    and pk: "loaded t (?p, mdata p)" "loaded t (?cur, mdata cur)" "\<forall>q\<in>set (ppeaks 0 qs). loaded t q"
    by (auto simp: pspans_append ppeaks_append mountain_snoc)
  have "msizes (qs @ [p, cur]) < 2 ^ 32"
    using msizes_le_asizes [of "qs @ [p, cur]"] snoc.prems(8) by simp
  then have bound: "msize p < 2 ^ 64" "msize cur < 2 ^ 64" "msizes (qs @ [p]) < 2 ^ 64" by simp_all
  note dp = spans_data [OF sp(1)] and dc = spans_data [OF sp(2)]
  show ?case
  proof (cases "msize p = msize cur")
    case False
    then have ps: "ps = qs @ [p, cur]" using snoc.prems(1) by simp
    have "merge_loop V h t (map fst (rev (ppeaks 0 (qs @ [p])))) [?cur] app =
        Some (Inr (map fst (ppeaks 0 (qs @ [p])) @ [?cur], app), t)"
      using dc snoc.prems(2,3,7) bound False
      by (intro merge_skip [where s = s and d = "mdata cur" and m = "msize cur"])
        (auto simp: pspans_append ppeaks_append)
    moreover have "mountain ps"
      using snoc.prems(3,4,5) False mountain_snoc [of "qs @ [p]" cur] by (auto simp: ps)
    ultimately show ?thesis using snoc.prems(2,6,7,9)
      by (intro exI [of _ t] exI [of _ "[]"]) (simp add: ps ppeaks_append links_from_def butlast_append)
  next
    case True
    with snoc.prems(1) obtain d where d: "ver_combine V h (mdata p) (mdata cur) = Some d"
      and ps: "mmerge V h (rev qs) (MNode d p cur) = Some ps" by (auto simp: bind_eq_Some_conv)
    let ?N = "MNode d p cur" and ?e = "\<lparr>kind = NodeKind ?p ?cur, entry_data = d\<rparr>"
    from resolve_counts [OF pk(1) _ _ msize_pos bound(1)] dp obtain ep where
      ep: "resolve_link t ?p = Inr (ep, ?p)" "entry_data ep = mdata p" "leaf_count V ep = Some (of_nat (msize p))"
      by blast
    from resolve_counts [OF pk(2) _ _ msize_pos bound(2)] dc obtain ec where
      ec: "resolve_link t ?cur = Inr (ec, ?cur)" "entry_data ec = mdata cur"
        "leaf_count V ec = Some (of_nat (msize cur))" by blast
    have arrN: "marr 0 (qs @ [?N]) = marr 0 ((qs @ [p]) @ [cur]) @ [?e]" by (simp add: marr_append)
    obtain lk t1 where push: "tree_push t ?e = (lk, t1)" by force
    have len: "length (marr 0 ((qs @ [p]) @ [cur])) + 1 < 2 ^ 32" using snoc.prems(8) by simp
    note t1 = push_stored [OF snoc.prems(6) len, of ?e, unfolded push arrN [symmetric], simplified fst_conv snd_conv]
    have lk: "lk = mlink ?b ?N" using t1(1) by (simp add: mlink_def add.assoc)
    have step: "merge_loop V h t (map fst (rev (ppeaks 0 (qs @ [p])))) [?cur] app =
        merge_loop V h t1 (map fst (rev (ppeaks 0 qs))) [lk] (app @ [lk])"
      using ep ec True d push by (simp add: ppeaks_append combine_nodes_def)
    obtain kp where kp: "mperfect kp p" using snoc.prems(3) by (auto simp: mountain_snoc)
    then have "kp = kc" using True mperfect_height [OF kp snoc.prems(4)] by simp
    then have perfect: "mperfect (Suc kc) ?N" using kp snoc.prems(4) by simp
    have le: "msize ?N \<le> msize (last qs)" if "qs \<noteq> []"
    proof -
      from mqs that obtain k where k: "mperfect k (last qs)"
        by (cases qs rule: rev_cases) (auto simp: mountain_snoc)
      have "msize p < msize (last qs)" using snoc.prems(3) that by (simp add: mountain_snoc)
      then have "kp < k" using kp k by (simp add: mperfect_msize)
      then have "(2::nat) ^ Suc kp \<le> 2 ^ k" by (intro power_increasing) simp_all
      then show ?thesis using kp k True by (simp add: mperfect_msize del: power_increasing_iff)
    qed
    have "loaded t1 (lk, d)" using t1(4) by (simp add: loaded_def t1(1))
    then have pk1: "\<forall>q\<in>set (ppeaks 0 (qs @ [?N])). loaded t1 q"
      using pk(3) loaded_extends [OF _ t1(3)] by (auto simp: ppeaks_append lk)
    have sp1: "pspans V h ok s (qs @ [?N])" using sp pqs d by (simp add: pspans_append)
    have bound1: "asizes (qs @ [?N]) + length qs < 2 ^ 32" using snoc.prems(8) by simp
    have spine: "spine_loaded t1 ?b ?N"
      using snoc.prems(9) pk(1) loaded_extends [OF _ t1(3)] spine_extends [OF _ t1(3)] pk1
      by (auto simp: ppeaks_append)
    from snoc.IH [OF ps sp1 mqs perfect le t1(2) pk1 bound1 spine, of "app @ [lk]"] obtain t' added where
      r: "merge_loop V h t1 (map fst (rev (ppeaks 0 qs))) [mlink ?b ?N] (app @ [lk]) =
        Some (Inr (map fst (ppeaks 0 ps), (app @ [lk]) @ links_from (asizes (qs @ [?N])) (asizes ps)), t')"
      "marr 0 ps = marr 0 (qs @ [?N]) @ added" "view t' (marr 0 ps)" "extends t1 t'"
      "generated t' = generated t1" "root t' = root t1" "\<forall>p\<in>set (ppeaks 0 ps). loaded t' p"
      "pspans V h ok s ps" "mountain ps" "ps \<noteq> []" "length ps \<le> length qs + 1"
      "spine_loaded t' (asizes (butlast ps)) (last ps)"
      "concat (map mleaves ps) = concat (map mleaves (qs @ [?N]))" by blast
    have ge: "asizes (qs @ [?N]) \<le> asizes ps" using arg_cong [OF r(2), of length] by simp
    have "links_from (asizes ((qs @ [p]) @ [cur])) (asizes ps) = lk # links_from (asizes (qs @ [?N])) (asizes ps)"
      using ge t1(1) by (simp add: links_from_def upt_conv_Cons add.assoc)
    then show ?thesis
      using step r t1 extends_trans [OF t1(3) r(4)] unfolding lk arrN
      by (intro exI [of _ t'] exI [of _ "?e # added"]) (simp add: add.assoc)
  qed
qed

lemma append_spec:
  assumes st: "tree_state V h ok s t ps" and leaf: "ok d" "unat (ver_start_height V d) = s + msizes ps"
      "unat (ver_end_height V d) = s + msizes ps"
    and bound: "asizes ps + length ps + 1 < 2 ^ 32" "length (generated t) + length ps < 2 ^ 32"
    and ps': "mappend V h ps d = Some ps'" and rd: "root_data V h ps' = Some rd"
  shows "\<exists>t' added. append_leaf V h t d = Some (Inr (links_from (asizes ps) (asizes ps')), t') \<and>
    tree_state V h ok s t' ps' \<and> marr 0 ps' = marr 0 ps @ added \<and>
    concat (map mleaves ps') = concat (map mleaves ps) @ [d] \<and>
    spine_loaded t' (asizes (butlast ps')) (last ps') \<and>
    length (generated t') + 1 = length (generated t) + length ps'"
proof -
  from st obtain d0 where m: "mountain ps" "pspans V h ok s ps" "view t (marr 0 ps)"
    and bag: "bagged V h t (ppeaks 0 ps) (root t) d0" by (auto simp: tree_state_def)
  let ?n = "asizes ps" and ?leaf = "entry_new_leaf d" and ?lk = "Stored (of_nat (asizes ps)) :: EntryLink"
  obtain lk t1 where push: "tree_push t ?leaf = (lk, t1)" by force
  have len: "length (marr 0 ps) + 1 < 2 ^ 32" using bound by simp
  note t1 = push_stored [OF m(3) len, of ?leaf, unfolded push, simplified]
  have lk: "lk = ?lk" "?lk = mlink ?n (MLeaf d)" using t1(1) by (simp_all add: mlink_def)
  have view1: "view t1 (marr 0 (ps @ [MLeaf d]))" using t1(2) by (simp add: marr_append)
  have msz: "msizes ps < 2 ^ 64" using msizes_le_asizes [of ps] bound by simp
  have bag1: "bagged V h t1 (ppeaks 0 ps) (root t) d0" using bag t1(3) by (rule bagged_extends)
  have peaks: "get_peaks V t1 (root t) [] = Some (Inr (map fst (ppeaks 0 ps)))"
    using get_peaks_bagged [OF bag1 refl m(2,1) msz, of "[]"] by simp
  have new: "loaded t1 (?lk, d)" using t1(4) by (simp add: loaded_def entry_new_leaf_def)
  then have pk: "\<forall>p\<in>set (ppeaks 0 (ps @ [MLeaf d])). loaded t1 p"
    using bagged_peaks [OF bag1] by (auto simp: ppeaks_link)
  have sp: "pspans V h ok s (ps @ [MLeaf d])" using m(2) leaf by (simp add: pspans_append)
  have "asizes (ps @ [MLeaf d]) + length ps < 2 ^ 32" using bound by simp
  from merge_spec [OF ps' [unfolded mappend_def] sp m(1) _ _ view1 pk this, of 0 "[?lk]"]
  obtain t2 added where t2: "merge_loop V h t1 (map fst (rev (ppeaks 0 ps))) [?lk] [?lk] =
        Some (Inr (map fst (ppeaks 0 ps'), [?lk] @ links_from (asizes (ps @ [MLeaf d])) (asizes ps')), t2)"
      "marr 0 ps' = marr 0 (ps @ [MLeaf d]) @ added" "view t2 (marr 0 ps')" "extends t1 t2"
      "generated t2 = generated t1" "root t2 = root t1" "\<forall>p\<in>set (ppeaks 0 ps'). loaded t2 p"
      "pspans V h ok s ps'" "mountain ps'" "ps' \<noteq> []" "length ps' \<le> length ps + 1"
      "spine_loaded t2 (asizes (butlast ps')) (last ps')"
      "concat (map mleaves ps') = concat (map mleaves (ps @ [MLeaf d]))"
    using new unfolding lk(2) by (auto simp: Suc_le_eq)
  from t2(10) obtain q qs where q: "ps' = q # qs" by (cases ps') auto
  let ?q = "(mlink 0 q, mdata q)"
  have bd: "bag_data V h (mdata q) (map snd (ppeaks (asize q) qs)) = Some rd"
    using rd by (simp add: root_data_def q)
  have "bagged V h t2 [?q] (mlink 0 q) (mdata q)" using t2(7) by (intro bagged_one) (simp add: q)
  moreover have "\<forall>p\<in>set (ppeaks (asize q) qs). loaded t2 p" using t2(7) by (simp add: q)
  moreover have "length (generated t2) + length (ppeaks (asize q) qs) < 2 ^ 32"
    using t2(5,11) t1(5) bound(2) by (simp add: q)
  ultimately obtain r t3 where t3: "bag_loop V h t2 (mlink 0 q) (map fst (ppeaks (asize q) qs)) = Some (Inr r, t3)"
      "bagged V h t3 ([?q] @ ppeaks (asize q) qs) r rd" "extends t2 t3" "stored t3 = stored t2"
      "stored_count t3 = stored_count t2"
      "length (generated t3) = length (generated t2) + length (ppeaks (asize q) qs)"
    using bag_loop_spec [OF _ _ bd] by blast
  have "length (generated t3) + 1 = length (generated t) + length ps'"
    using t3(6) t2(5) t1(5) by (simp add: q)
  moreover have ge: "asizes ps + 1 \<le> asizes ps'" using arg_cong [OF t2(2), of length] by simp
  moreover have links: "[?lk] @ links_from (asizes (ps @ [MLeaf d])) (asizes ps') = links_from (asizes ps) (asizes ps')"
    using ge by (simp add: links_from_def upt_conv_Cons)
  moreover have "append_leaf V h t d = Some (Inr (links_from (asizes ps) (asizes ps')), t3\<lparr>root := r\<rparr>)"
    using peaks t2(1) t3(1) links by (simp add: append_leaf_def push lk(1) rev_map q)
  moreover have "tree_state V h ok s (t3\<lparr>root := r\<rparr>) ps'"
    using t2(8,9) view_generated [OF t2(3) t3(4,5)] t3(2) rd by (simp add: tree_state_def q)
  moreover have "spine_loaded (t3\<lparr>root := r\<rparr>) (asizes (butlast ps')) (last ps')"
    using spine_extends [OF t2(12) t3(3)] by simp
  moreover have "marr 0 ps' = marr 0 ps @ ([?leaf] @ added)" using t2(2) by (simp add: marr_append)
  ultimately show ?thesis using t2(13) by (intro exI [of _ "t3\<lparr>root := r\<rparr>"]) auto
qed

text \<open>The descent of the right spine collects the left children.\<close>

lemma truncate_loop_spec:
  "view t A \<Longrightarrow> A = pre @ arr (length pre) q @ post \<Longrightarrow> spine_loaded t (length pre) q \<Longrightarrow>
   complete_entry V re = Some c \<Longrightarrow>
   truncate_loop V t re (mlink (length pre) q) acc n =
     Some (Inr (acc @ map fst (ppeaks (length pre) (mlefts q)), n + of_nat (rdepth q) + (if c then 1 else 0)))"
proof (induction q arbitrary: pre post acc n)
  case (MLeaf d)
  from MLeaf.prems(3) obtain e where e: "resolve_link t (mlink (length pre) (MLeaf d)) = Inr (e, mlink (length pre) (MLeaf d))"
    by (auto simp: loaded_def)
  from view_resolve [OF MLeaf.prems(1,2) e] have "kind e = LeafKind" by (simp add: entry_new_leaf_def)
  with e MLeaf.prems(4) show ?case by (simp add: truncate_loop.simps [of V t re "mlink (length pre) (MLeaf d)"])
next
  case (MNode d l r)
  let ?b = "length pre" and ?q = "MNode d l r"
  from MNode.prems(3) obtain e where e: "resolve_link t (mlink ?b ?q) = Inr (e, mlink ?b ?q)"
    by (auto simp: loaded_def)
  from view_resolve [OF MNode.prems(1,2) e]
  have kind: "kind e = NodeKind (mlink ?b l) (mlink (?b + asize l) r)" by simp
  have "A = (pre @ arr ?b l) @ arr (length (pre @ arr ?b l)) r @
      ([\<lparr>kind = NodeKind (mlink ?b l) (mlink (?b + asize l) r), entry_data = d\<rparr>] @ post)"
    using MNode.prems(2) by simp
  from MNode.IH(2) [OF MNode.prems(1) this _ MNode.prems(4), of "acc @ [mlink ?b l]" "n + 1"] MNode.prems(3)
  show ?case using e kind
    by (simp add: truncate_loop.simps [of V t re "mlink ?b ?q"] add.assoc)
qed

lemma msizes_odd:
  assumes "mountain (qs @ [p])"
  shows "odd (msizes (qs @ [p])) \<longleftrightarrow> msize p = 1"
proof -
  from assms obtain js k where ks: "list_all2 mperfect js qs" "mperfect k p" "sorted_wrt (>) (js @ [k])"
    by (auto simp: mountain_def list_all2_append2 list_all2_Cons2)
  have "even (msizes qs)"
    using ks(1,3)
  proof (induction rule: list_all2_induct)
    case (Cons j js q qs)
    then have "0 < j" by simp
    with Cons show ?case by (simp add: mperfect_msize)
  qed simp
  then show ?thesis using ks(2) by (cases k) (simp_all add: mperfect_msize)
qed

lemma and_one_iff: "m < 2 ^ 64 \<Longrightarrow> and (of_nat m :: u64) 1 \<noteq> 0 \<longleftrightarrow> odd m"
  by (simp add: and_one_eq odd_iff_mod_2_eq_one flip: odd_iff_mod_2_eq_one) 

text \<open>The last step of \<open>truncate_leaf\<close>, from the peaks it has collected.\<close>

lemma truncate_bag:
  assumes ps: "mountain (qs @ [p])" "pspans V h ok s (qs @ [p])" "view t (marr 0 (qs @ [p]))"
    and k: "mperfect k p"
    and start: "bagged V h t xs lr dl" "xs @ ys = ppeaks 0 (qs @ mlefts p)" "\<forall>y\<in>set ys. loaded t y"
      "bag_data V h dl (map snd ys) = Some rd" "root_data V h (qs @ mlefts p) = Some rd"
    and bound: "length (generated t) + length ys < 2 ^ 32"
  shows "\<exists>r t1. bag_loop V h t lr (map fst ys) = Some (Inr r, t1) \<and>
    tree_state V h ok s (((tree_pop ^^ (rdepth p + 1)) t1)\<lparr>root := r\<rparr>) (qs @ mlefts p)"
proof -
  from bag_loop_spec [OF start(1,3,4) bound] obtain r t1 where
    r: "bag_loop V h t lr (map fst ys) = Some (Inr r, t1)" "bagged V h t1 (xs @ ys) r rd"
      "stored t1 = stored t" "stored_count t1 = stored_count t" by blast
  have v1: "view t1 (marr 0 (qs @ [p]))" using view_generated [OF ps(3) r(3,4)] .
  have b1: "bagged V h t1 (ppeaks 0 (qs @ mlefts p)) r rd" using r(2) start(2) by simp
  have "mountain (qs @ mlefts p)"
    using ps(1) by (intro mountain_lefts [OF k]) (auto simp: mountain_snoc)
  moreover have "pspans V h ok s (qs @ mlefts p)" using ps(2) by (simp add: pspans_append pspans_lefts)
  ultimately show ?thesis using r(1) truncate_finish [OF v1 b1] start(5)
    by (intro exI [of _ r] exI [of _ t1]) (auto simp: tree_state_def)
qed

lemma truncate_spec:
  assumes st: "tree_state V h ok s t ps" and many: "1 < msizes ps"
    and spine: "spine_loaded t (asizes (butlast ps)) (last ps)"
    and bound: "length (generated t) + length (mlefts (last ps)) < 2 ^ 32"
    and rd: "root_data V h (mtruncate ps) = Some rd"
  shows "\<exists>t'. truncate_leaf V h t = Some (Inr (of_nat (asizes ps - asizes (mtruncate ps))), t') \<and>
    tree_state V h ok s t' (mtruncate ps)"
proof -
  from many obtain qs p where ps: "ps = qs @ [p]" by (cases ps rule: rev_cases) auto
  from st obtain d where m: "mountain (qs @ [p])" "pspans V h ok s (qs @ [p])" "view t (marr 0 (qs @ [p]))"
    and bag: "bagged V h t (ppeaks 0 qs @ [(mlink (asizes qs) p, mdata p)]) (root t) d"
    by (auto simp: tree_state_def ps ppeaks_append)
  from m(1) obtain k where k: "mperfect k p" by (auto simp: mountain_snoc)
  have trunc: "mtruncate ps = qs @ mlefts p" by (simp add: ps mtruncate_def)
  note sp = spine [unfolded ps, simplified] and rd' = rd [unfolded trunc]
  have n: "asizes ps - asizes (mtruncate ps) = rdepth p + 1"
    using asizes_lefts [of p] unfolding trunc by (simp add: ps)
  have lenA: "asizes (qs @ [p]) < 2 ^ 32" using m(3) by (simp add: view_def)
  then have msz: "msizes ps < 2 ^ 64" using msizes_le_asizes [of ps] by (simp add: ps)
  have small: "rdepth p + 1 < 2 ^ 32" using lenA asizes_lefts [of p] by simp
  then have "unat (of_nat (rdepth p + 1) :: u32) = rdepth p + 1" by (rule unat_of_nat32)
  then have un: "unat (1 + of_nat (rdepth p) :: u32) = rdepth p + 1" by simp
  from bagged_data [of t "ppeaks 0 ps" "root t" d 0 ps s] bag m(2)
  have dd: "unat (ver_start_height V d) = s" "unat (ver_end_height V d) + 1 = s + msizes ps"
    by (simp_all add: ps ppeaks_append)
  from bagged_loaded [OF bag] resolve_counts [OF _ dd _ msz] many obtain e where
    e: "resolve_link t (root t) = Inr (e, root t)" "entry_data e = d" "leaf_count V e = Some (of_nat (msizes ps))"
    by auto
  have odd: "and (of_nat (msizes ps) :: u64) 1 \<noteq> 0 \<longleftrightarrow> msize p = 1"
    using and_one_iff [OF msz] msizes_odd [OF m(1)] by (simp add: ps)
  have lefts: "\<forall>y\<in>set (ppeaks (asizes qs) (mlefts p)). loaded t y" using spine_lefts [OF sp] by blast
  show ?thesis
  proof (cases "qs = []")
    case True
    from many k True obtain pd l r where p: "p = MNode pd l r" by (cases p) (auto simp: ps)
    from bagged_single [of V h t "mlink 0 p" "mdata p" "root t" d] bag True have rt: "root t = mlink 0 p" by simp
    have A: "marr 0 (qs @ [p]) = [] @ arr (length []) p @ []" by (simp add: True)
    from view_resolve [OF m(3) A] e(1) rt have kind: "kind e = NodeKind (mlink 0 l) (mlink (asize l) r)"
      by (auto simp: p)
    have "msizes ps = 2 ^ k" using k by (simp add: ps True mperfect_msize)
    then have complete: "complete_entry V e = Some True"
      using leaf_count_data(2) [OF dd _ msz e(2)] many by auto
    have A': "marr 0 (qs @ [p]) = arr 0 l @ arr (length (arr 0 l)) r @
        [\<lparr>kind = NodeKind (mlink 0 l) (mlink (asize l) r), entry_data = pd\<rparr>]" by (simp add: True p)
    have loop: "truncate_loop V t e (mlink (asize l) r) [mlink 0 l] 1 =
        Some (Inr (mlink 0 l # map fst (ppeaks (asize l) (mlefts r)), of_nat (rdepth p + 1)))"
      using truncate_loop_spec [OF m(3) A' _ complete, of "[mlink 0 l]" 1] sp by (simp add: p True)
    have even: "msize p \<noteq> 1" using many by (simp add: ps True)
    have "bagged V h t [(mlink 0 l, mdata l)] (mlink 0 l) (mdata l)"
      using lefts by (intro bagged_one) (simp add: p True)
    moreover have "[(mlink 0 l, mdata l)] @ ppeaks (asize l) (mlefts r) = ppeaks 0 (qs @ mlefts p)"
      by (simp add: True p)
    moreover have "bag_data V h (mdata l) (map snd (ppeaks (asize l) (mlefts r))) = Some rd"
      using rd' by (simp add: True p root_data_def)
    moreover have "\<forall>y\<in>set (ppeaks (asize l) (mlefts r)). loaded t y" using lefts by (simp add: True p)
    moreover have "length (generated t) + length (ppeaks (asize l) (mlefts r)) < 2 ^ 32"
      using bound by (simp add: ps p)
    ultimately obtain rt' t1 where "bag_loop V h t (mlink 0 l) (map fst (ppeaks (asize l) (mlefts r))) = Some (Inr rt', t1)"
        "tree_state V h ok s (((tree_pop ^^ (rdepth p + 1)) t1)\<lparr>root := rt'\<rparr>) (qs @ mlefts p)"
      using truncate_bag [OF m k _ _ _ _ rd'] by blast
    then show ?thesis unfolding n unfolding trunc
      using e kind loop odd even un
      by (auto simp: truncate_leaf_def entry_left_def indexed_left_def indexed_right_def entry_right_def
          simp del: funpow.simps)
  next
    case False
    then have ne: "ppeaks 0 qs \<noteq> []" by (cases qs) simp_all
    from bagged_snoc [OF bag ne] e(1) obtain lr dl where
      bagl: "bagged V h t (ppeaks 0 qs) lr dl" and kind: "kind e = NodeKind lr (mlink (asizes qs) p)" by auto
    have bd: "bag_data V h dl (map snd (ppeaks (asizes qs) (mlefts p))) = Some rd"
      using rd' root_data_append [OF False] bagged_root_data [OF bagl refl] by simp
    have "length (generated t) + length (ppeaks (asizes qs) (mlefts p)) < 2 ^ 32" using bound by (simp add: ps)
    from truncate_bag [OF m k bagl _ lefts bd rd' this] obtain rt' t1 where
      bl: "bag_loop V h t lr (map fst (ppeaks (asizes qs) (mlefts p))) = Some (Inr rt', t1)"
      and st': "tree_state V h ok s (((tree_pop ^^ (rdepth p + 1)) t1)\<lparr>root := rt'\<rparr>) (qs @ mlefts p)"
      by (auto simp: ppeaks_append)
    show ?thesis
    proof (cases "msize p = 1")
      case True
      then obtain pd where p: "p = MLeaf pd" unfolding msize_one_iff by blast
      show ?thesis unfolding n unfolding trunc
        using e(1,3) kind True odd bl st' by (auto simp: truncate_leaf_def entry_left_def p)
    next
      case False
      have "length ps \<noteq> 1" using ne by (auto simp: ps)
      then have "complete_entry V e = Some False"
        using leaf_count_data(2) [OF dd _ msz e(2)] many mountain_power [OF m(1)] by (auto simp: ps)
      from truncate_loop_spec [OF m(3) _ _ this, of "marr 0 qs" p "[]" "[lr]" 1] sp
      have loop: "truncate_loop V t e (mlink (asizes qs) p) [lr] 1 =
          Some (Inr (lr # map fst (ppeaks (asizes qs) (mlefts p)), of_nat (rdepth p + 1)))"
        by (simp add: marr_append)
      show ?thesis unfolding n unfolding trunc
        using e kind loop odd False un bl st'
        by (auto simp: truncate_leaf_def entry_left_def indexed_left_def indexed_right_def entry_right_def
            simp del: funpow.simps)
    qed
  qed
qed

end

text \<open>
  The three versions of the tree, with any hash that returns 32 bytes: \<open>hash32\<close> is the identity on
  those hashes.
\<close>

definition hash32 :: "(bytes \<Rightarrow> bytes \<Rightarrow> bytes) \<Rightarrow> bytes \<Rightarrow> bytes \<Rightarrow> bytes" where
  "hash32 blake2b p x = take 32 (blake2b p x @ replicate 32 0)"

lemma hash32_id: "(\<And>p x. length (blake2b p x) = 32) \<Longrightarrow> hash32 blake2b = blake2b"
  by (simp add: hash32_def fun_eq_iff)

interpretation v1_mmr: history_mmr "V1 u256_add" node_data_ok "hash32 blake2b" for u256_add blake2b
  by unfold_locales (simp add: hash32_def)

interpretation v2_mmr: history_mmr "V2 u256_add" v2_ok "hash32 blake2b" for u256_add blake2b
  by unfold_locales (simp add: hash32_def)

interpretation v3_mmr: history_mmr "V3 u256_add" v3_ok "hash32 blake2b" for u256_add blake2b
  by unfold_locales (simp add: hash32_def)

end
