(* ===== verification/HistoryChain.thy ===== *)
theory HistoryChain
  imports HistoryMMR
begin

text \<open>
  The chain history tree of the current version (V3): opening a view with \<open>Tree::new\<close>, appending the
  next block and truncating the last one. The combination of two nodes fails only for two branches or
  when the work overflows, so on one branch with bounded total work the operations always succeed.
\<close>

section \<open>Work of a subtree\<close>

definition node_branch :: "NodeDataV3 \<Rightarrow> u32" where
  "node_branch d = consensus_branch_id (v1 (v2 d))"

definition node_work :: "NodeDataV3 \<Rightarrow> u256" where
  "node_work d = subtree_total_work (v1 (v2 d))"

definition total_work :: "NodeDataV3 list \<Rightarrow> nat" where
  "total_work ds = (\<Sum>d\<leftarrow>ds. unat (node_work d))"

text \<open>The documented behaviour of the addition: the sum, unless it overflows.\<close>

definition adds_u256 :: "(u256 \<Rightarrow> u256 \<Rightarrow> u256 option) \<Rightarrow> bool" where
  "adds_u256 u256_add \<longleftrightarrow> (\<forall>a b. u256_add a b = (if unat a + unat b < 2 ^ 256 then Some (a + b) else None))"

lemma total_work_simps [simp]:
  "total_work [] = 0" "total_work (d # ds) = unat (node_work d) + total_work ds"
  "total_work (ds @ es) = total_work ds + total_work es"
  by (simp_all add: total_work_def)

lemma unat_add_u256: "unat a + unat b < 2 ^ 256 \<Longrightarrow> unat (a + b :: u256) = unat a + unat b"
  by (simp add: unat_word_ariths)

lemma combine_defined:
  assumes add: "adds_u256 u256_add" and ok: "v3_ok l" "v3_ok r" "node_branch l = node_branch r"
    and work: "unat (node_work l) + unat (node_work r) < 2 ^ 256"
  shows "\<exists>d. ver_combine (V3 u256_add) h l r = Some d \<and> node_branch d = node_branch l \<and>
    unat (node_work d) = unat (node_work l) + unat (node_work r)"
proof -
  have b: "ver_branch_id (V3 u256_add) l = ver_branch_id (V3 u256_add) r"
    using ok(3) by (simp add: V3_def node_branch_def)
  have sum: "u256_add (node_work l) (node_work r) = Some (node_work l + node_work r)"
    using add work by (simp add: adds_u256_def)
  from v3.combine_eq [OF ok(1,2) b, where ?blake2b = h] obtain c where
    "ver_combine (V3 u256_add) h l r = ver_combine_inner (V3 u256_add) c l r" by blast
  then show ?thesis using sum unat_add_u256 [OF work]
    by (simp add: V3_def v3_combine_inner_def v2_combine_inner_def node_data_combine_inner_def
        node_branch_def node_work_def)
qed

lemma combine_work:
  assumes add: "adds_u256 u256_add" and ok: "v3_ok l" "v3_ok r"
    and d: "ver_combine (V3 u256_add) h l r = Some d"
  shows "node_branch d = node_branch l \<and> unat (node_work d) = unat (node_work l) + unat (node_work r)"
proof -
  from d have b: "ver_branch_id (V3 u256_add) l = ver_branch_id (V3 u256_add) r"
    by (simp add: ver_combine_def split: if_splits)
  from v3.combine_eq [OF ok b, where ?blake2b = h] d obtain c where
    c: "ver_combine_inner (V3 u256_add) c l r = Some d" by metis
  then have "u256_add (node_work l) (node_work r) = Some (node_work d)" "node_branch d = node_branch l"
    by (auto simp: V3_def v3_combine_inner_def v2_combine_inner_def node_data_combine_inner_def
        node_branch_def node_work_def)
  then show ?thesis using add unat_add_u256 [of "node_work l" "node_work r"]
    by (auto simp: adds_u256_def split: if_splits)
qed

lemma spans_work:
  assumes add: "adds_u256 u256_add"
  shows "spans (V3 u256_add) (hash32 blake2b) v3_ok s t \<Longrightarrow> \<forall>d\<in>set (mleaves t). node_branch d = b \<Longrightarrow>
    node_branch (mdata t) = b \<and> unat (node_work (mdata t)) = total_work (mleaves t)"
proof (induction t arbitrary: s)
  case (MNode d l r)
  from MNode.prems have sp: "spans (V3 u256_add) (hash32 blake2b) v3_ok s l"
      "spans (V3 u256_add) (hash32 blake2b) v3_ok (s + msize l) r"
    and c: "ver_combine (V3 u256_add) (hash32 blake2b) (mdata l) (mdata r) = Some d" by simp_all
  have "v3_ok (mdata l)" "v3_ok (mdata r)" using v3_mmr.spans_data sp by blast+
  from combine_work [OF add this c] MNode sp show ?case by auto
qed simp

text \<open>On one branch, with bounded work, the abstract operations are defined.\<close>

lemma mmerge_defined:
  assumes add: "adds_u256 u256_add"
  shows "pspans (V3 u256_add) (hash32 blake2b) v3_ok s (rev rps @ [cur]) \<Longrightarrow>
    \<forall>p\<in>set (cur # rps). \<forall>d\<in>set (mleaves p). node_branch d = b \<Longrightarrow>
    total_work (concat (map mleaves (rev rps @ [cur]))) < 2 ^ 256 \<Longrightarrow>
    \<exists>ps'. mmerge (V3 u256_add) (hash32 blake2b) rps cur = Some ps' \<and>
      pspans (V3 u256_add) (hash32 blake2b) v3_ok s ps' \<and> ps' \<noteq> [] \<and>
      concat (map mleaves ps') = concat (map mleaves (rev rps @ [cur]))"
proof (induction rps arbitrary: cur)
  case (Cons p rest)
  show ?case
  proof (cases "msize p = msize cur")
    case True
    let ?s = "s + msizes (rev rest)"
    from Cons.prems have sp: "spans (V3 u256_add) (hash32 blake2b) v3_ok ?s p"
        "spans (V3 u256_add) (hash32 blake2b) v3_ok (?s + msize p) cur"
        "pspans (V3 u256_add) (hash32 blake2b) v3_ok s (rev rest)" by (simp_all add: pspans_append add.assoc)
    have ok: "v3_ok (mdata p)" "v3_ok (mdata cur)" using v3_mmr.spans_data sp by blast+
    from spans_work [OF add sp(1), of b] spans_work [OF add sp(2), of b] Cons.prems(2)
    have w: "node_branch (mdata p) = b" "node_branch (mdata cur) = b"
        "unat (node_work (mdata p)) = total_work (mleaves p)"
        "unat (node_work (mdata cur)) = total_work (mleaves cur)" by auto
    with combine_defined [OF add ok] Cons.prems(3) obtain d where
      d: "ver_combine (V3 u256_add) (hash32 blake2b) (mdata p) (mdata cur) = Some d" by auto
    have "\<exists>ps'. mmerge (V3 u256_add) (hash32 blake2b) rest (MNode d p cur) = Some ps' \<and>
        pspans (V3 u256_add) (hash32 blake2b) v3_ok s ps' \<and> ps' \<noteq> [] \<and>
        concat (map mleaves ps') = concat (map mleaves (rev rest @ [MNode d p cur]))"
      using sp d Cons.prems(2,3) by (intro Cons.IH) (auto simp: pspans_append)
    then show ?thesis using True d by simp
  qed (use Cons.prems in simp)
qed simp

lemma bag_data_defined:
  assumes add: "adds_u256 u256_add"
  shows "v3_ok d \<Longrightarrow> \<forall>e\<in>set es. v3_ok e \<and> node_branch e = node_branch d \<Longrightarrow>
    unat (node_work d) + total_work es < 2 ^ 256 \<Longrightarrow>
    \<exists>rd. bag_data (V3 u256_add) (hash32 blake2b) d es = Some rd"
proof (induction es arbitrary: d)
  case (Cons e es)
  from Cons.prems have e: "v3_ok d" "v3_ok e" "node_branch d = node_branch e"
      "unat (node_work d) + unat (node_work e) < 2 ^ 256" by auto
  from combine_defined [OF add e] obtain c where
    c: "ver_combine (V3 u256_add) (hash32 blake2b) d e = Some c" "node_branch c = node_branch d"
      "unat (node_work c) = unat (node_work d) + unat (node_work e)" by blast
  have "length (hash32 blake2b p x) = 32" for p x by (simp add: hash32_def)
  from v3.combine_Some(1) [OF e(1,2) this c(1)] have "v3_ok c" .
  then show ?case using Cons.IH [of c] Cons.prems c by auto
qed simp

lemma root_data_defined:
  assumes add: "adds_u256 u256_add" and sp: "pspans (V3 u256_add) (hash32 blake2b) v3_ok s ps" and ne: "ps \<noteq> []"
    and b: "\<forall>d\<in>set (concat (map mleaves ps)). node_branch d = b"
    and work: "total_work (concat (map mleaves ps)) < 2 ^ 256"
  shows "\<exists>rd. root_data (V3 u256_add) (hash32 blake2b) ps = Some rd"
proof -
  have all: "\<forall>p\<in>set ps. v3_ok (mdata p) \<and> node_branch (mdata p) = b"
    and sum: "total_work (map mdata ps) = total_work (concat (map mleaves ps))"
    using sp b
  proof (induction ps arbitrary: s)
    case (Cons p ps)
    { case 1 then show ?case using Cons.IH(1) spans_work [OF add, of _ s p b] v3_mmr.spans_data by fastforce }
    { case 2 then show ?case using Cons.IH(2) spans_work [OF add, of _ s p b] by fastforce }
  qed simp_all
  from ne obtain p rest where "ps = p # rest" by (cases ps) auto
  then show ?thesis using bag_data_defined [OF add, of "mdata p" "map mdata rest"] all sum work
    by (auto simp: root_data_def)
qed

section \<open>Opening a view\<close>

text \<open>What the caller passes to \<open>new\<close>: the positions and the entries of the peaks.\<close>

primrec peak_entries :: "nat \<Rightarrow> 'd mtree list \<Rightarrow> (u32 \<times> 'd Entry) list" where
  "peak_entries b [] = []"
| "peak_entries b (p # ps) = (of_nat (b + asize p - 1), last (arr b p)) # peak_entries (b + asize p) ps"

lemma peak_entries_ppeaks:
  "map (\<lambda>p. (Stored (fst p), entry_data (snd p))) (peak_entries b ps) = ppeaks b ps"
  by (induction ps arbitrary: b) (simp_all add: mlink_def last_arr)

lemma length_peak_entries [simp]: "length (peak_entries b ps) = length ps"
  by (induction ps arbitrary: b) simp_all

lemma length_le_asizes: "length ps \<le> asizes ps"
proof (induction ps)
  case (Cons p ps)
  obtain n where "asize p = Suc n" using gr0_implies_Suc [OF asize_pos] by blast
  then show ?case using Cons by simp
qed simp

text \<open>An entry of the array, at its position.\<close>

definition entry_at :: "'d Entry list \<Rightarrow> u32 \<times> 'd Entry \<Rightarrow> bool" where
  "entry_at A p \<longleftrightarrow> unat (fst p) < length A \<and> A ! unat (fst p) = snd p"

lemma peak_entry_at:
  "A = pre @ marr (length pre) ps \<Longrightarrow> length A < 2 ^ 32 \<Longrightarrow> p \<in> set (peak_entries (length pre) ps) \<Longrightarrow> entry_at A p"
proof (induction ps arbitrary: pre)
  case (Cons q qs)
  obtain n where n: "asize q = Suc n" using gr0_implies_Suc [OF asize_pos] by blast
  show ?case
  proof (cases "p = (of_nat (length pre + asize q - 1), last (arr (length pre) q))")
    case True
    have "unat (of_nat (length pre + asize q - 1) :: u32) = length pre + asize q - 1"
      using Cons.prems(1,2) by (intro unat_of_nat32) simp
    moreover have "last (arr (length pre) q) = arr (length pre) q ! (asize q - 1)" by (simp add: last_conv_nth)
    ultimately show ?thesis using True by (simp add: entry_at_def Cons.prems(1) n nth_append)
  next
    case False
    have "A = (pre @ arr (length pre) q) @ marr (length (pre @ arr (length pre) q)) qs"
      using Cons.prems(1) by simp
    from Cons.IH [OF this Cons.prems(2)] False Cons.prems(3) show ?thesis by simp
  qed
qed simp

lemma store_view:
  assumes "view t A" "entry_at A p"
  shows "view (t\<lparr>stored := (stored t)(fst p \<mapsto> snd p)\<rparr>) A"
    and "extends t (t\<lparr>stored := (stored t)(fst p \<mapsto> snd p)\<rparr>)"
    and "loaded (t\<lparr>stored := (stored t)(fst p \<mapsto> snd p)\<rparr>) (Stored (fst p), entry_data (snd p))"
  using assms
  by (auto simp: view_def entry_at_def extends_def loaded_def resolve_link_def
      split: EntryLink.splits option.splits if_splits)

lemma new_loop_spec:
  "view t A \<Longrightarrow> bagged V h t xs rt d \<Longrightarrow> \<forall>p\<in>set pk. entry_at A p \<Longrightarrow>
   bag_data V h d (map (\<lambda>p. entry_data (snd p)) pk) = Some rd \<Longrightarrow> length (generated t) + length pk < 2 ^ 32 \<Longrightarrow>
   \<exists>t' r. new_loop V h t rt pk = Some (t', r) \<and> view t' A \<and>
     bagged V h t' (xs @ map (\<lambda>p. (Stored (fst p), entry_data (snd p))) pk) r rd"
proof (induction pk arbitrary: t xs rt d)
  case (Cons p pk)
  let ?t = "t\<lparr>stored := (stored t)(fst p \<mapsto> snd p)\<rparr>" and ?p = "(Stored (fst p), entry_data (snd p)) :: EntryLink \<times> 'a"
  from Cons.prems(3) have at: "entry_at A p" by simp
  note st = store_view [OF Cons.prems(1) at]
  have bag: "bagged V h ?t xs rt d" using bagged_extends [OF Cons.prems(2) st(2)] .
  from Cons.prems(4) obtain d1 where d1: "ver_combine V h d (entry_data (snd p)) = Some d1"
      "bag_data V h d1 (map (\<lambda>p. entry_data (snd p)) pk) = Some rd" by (auto simp: bind_eq_Some_conv)
  from bagged_loaded [OF bag] st(3) obtain el er where
    res: "resolve_link ?t rt = Inr (el, rt)" "entry_data el = d"
      "resolve_link ?t (Stored (fst p)) = Inr (er, Stored (fst p))" "entry_data er = entry_data (snd p)"
    by (auto simp: loaded_def)
  let ?e = "\<lparr>kind = NodeKind rt (Stored (fst p)), entry_data = d1\<rparr>"
  have comb: "combine_nodes V h (el, rt) (er, Stored (fst p)) = Some ?e"
    using res d1(1) by (simp add: combine_nodes_def)
  obtain lk t1 where push: "tree_push_generated ?t ?e = (lk, t1)" by force
  have bound: "length (generated ?t) + 1 < 2 ^ 32" using Cons.prems(5) by simp
  note g = push_generated [OF bound, of ?e, unfolded push, simplified]
  obtain g where lk: "lk = Generated g" using push by (auto simp: tree_push_generated_def Let_def)
  have "bagged V h t1 (xs @ [?p]) lk d1"
    unfolding lk using bagged_extends [OF bag g(1)] g(2) d1(1) loaded_extends [OF st(3) g(1)] lk
    by (auto intro: bagged_more)
  moreover have "view t1 A" using view_generated [OF st(1)] g(3,4) by simp
  moreover have "length (generated t1) + length pk < 2 ^ 32" using g(6) Cons.prems(5) by simp
  moreover have rest: "\<forall>p\<in>set pk. entry_at A p" using Cons.prems(3) by simp
  ultimately obtain t' r where "new_loop V h t1 lk pk = Some (t', r)" "view t' A"
      "bagged V h t' ((xs @ [?p]) @ map (\<lambda>p. (Stored (fst p), entry_data (snd p))) pk) r rd"
    using Cons.IH [OF _ _ rest d1(2)] by blast
  then show ?case using res comb push by (auto simp: Let_def)
qed simp

lemma store_all:
  "view t A \<Longrightarrow> \<forall>p\<in>set ex. entry_at A p \<Longrightarrow>
   view (t\<lparr>stored := fold (\<lambda>(i, e) m. m(i \<mapsto> e)) ex (stored t)\<rparr>) A \<and>
   extends t (t\<lparr>stored := fold (\<lambda>(i, e) m. m(i \<mapsto> e)) ex (stored t)\<rparr>) \<and>
   (\<forall>p\<in>set ex. loaded (t\<lparr>stored := fold (\<lambda>(i, e) m. m(i \<mapsto> e)) ex (stored t)\<rparr>)
     (Stored (fst p), entry_data (snd p)))"
proof (induction ex arbitrary: t)
  case (Cons p ex)
  let ?t = "t\<lparr>stored := (stored t)(fst p \<mapsto> snd p)\<rparr>"
  from Cons.prems(2) have "entry_at A p" by simp
  note st = store_view [OF Cons.prems(1) this]
  let ?u = "?t\<lparr>stored := fold (\<lambda>(i, e) m. m(i \<mapsto> e)) ex (stored ?t)\<rparr>"
  have "\<forall>p\<in>set ex. entry_at A p" using Cons.prems(2) by simp
  note u = Cons.IH [OF st(1) this, THEN conjunct1] Cons.IH [OF st(1) this, THEN conjunct2, THEN conjunct1]
    Cons.IH [OF st(1) this, THEN conjunct2, THEN conjunct2]
  have eq: "t\<lparr>stored := fold (\<lambda>(i, e) m. m(i \<mapsto> e)) (p # ex) (stored t)\<rparr> = ?u"
    by (cases p) simp
  have "\<forall>p'\<in>set (p # ex). loaded ?u (Stored (fst p'), entry_data (snd p'))"
    using u(3) loaded_extends [OF st(3) u(2)] unfolding list.set ball_simps by blast
  then show ?case unfolding eq using u(1) extends_trans [OF st(2) u(2)] by blast
qed simp

lemma tree_new_spec:
  assumes m: "mountain ps" "pspans V h ok s ps" "ps \<noteq> []" and len: "asizes ps < 2 ^ 32"
    and rd: "root_data V h ps = Some rd" and ex: "\<forall>p\<in>set ex. entry_at (marr 0 ps) p"
  shows "\<exists>t. tree_new V h (of_nat (asizes ps)) (peak_entries 0 ps) ex = Some t \<and> tree_state V h ok s t ps \<and>
    (\<forall>p\<in>set ex. loaded t (Stored (fst p), entry_data (snd p)))"
proof -
  let ?A = "marr 0 ps"
  have "entry_at ?A p" if "p \<in> set (peak_entries 0 ps)" for p
    using peak_entry_at [of ?A "[]" ps p] len that by simp
  then have at: "\<forall>p\<in>set (peak_entries 0 ps). entry_at ?A p" by simp
  from m(3) obtain q qs where q: "ps = q # qs" by (cases ps) auto
  let ?k = "of_nat (asize q - 1) :: u32" and ?e = "last (arr 0 q)"
  let ?t = "tree_invalid\<lparr>stored_count := of_nat (asizes ps)\<rparr> :: 'a Tree"
  let ?u = "?t\<lparr>stored := (stored ?t)(fst (?k, ?e) \<mapsto> snd (?k, ?e))\<rparr>"
  have v: "view ?t ?A" using len unat_of_nat32 [OF len] by (simp add: view_def tree_invalid_def)
  have e: "entry_at ?A (?k, ?e)" using at by (simp add: q)
  have st: "view ?u ?A" "loaded ?u (Stored ?k, entry_data ?e)"
    using store_view(1) [OF v e] store_view(3) [OF v e] by (simp_all only: fst_conv snd_conv)
  have bag: "bagged V h ?u [(Stored ?k, entry_data ?e)] (Stored ?k) (mdata q)"
    using st(2) by (simp add: last_arr bagged_one)
  have bd: "bag_data V h (mdata q) (map (\<lambda>p. entry_data (snd p)) (peak_entries (asize q) qs)) = Some rd"
    using rd arg_cong [OF peak_entries_ppeaks [of "asize q" qs], of "map snd"] by (simp add: q root_data_def comp_def)
  have small: "length (generated ?u) + length (peak_entries (asize q) qs) < 2 ^ 32"
    using len length_le_asizes [of qs] by (simp add: q tree_invalid_def)
  obtain t' r where t': "new_loop V h ?u (Stored ?k) (peak_entries (asize q) qs) = Some (t', r)" "view t' ?A"
      "bagged V h t' ([(Stored ?k, entry_data ?e)] @
        map (\<lambda>p. (Stored (fst p), entry_data (snd p))) (peak_entries (asize q) qs)) r rd"
    using new_loop_spec [OF st(1) bag _ bd small] at by (auto simp: q)
  then have bag': "bagged V h t' (ppeaks 0 ps) r rd"
    by (simp add: peak_entries_ppeaks q last_arr mlink_def)
  let ?t' = "t'\<lparr>stored := fold (\<lambda>(i, e) m. m(i \<mapsto> e)) ex (stored t')\<rparr>"
  from store_all [OF t'(2) ex] have all: "view ?t' ?A" "extends t' ?t'"
      "\<forall>p\<in>set ex. loaded ?t' (Stored (fst p), entry_data (snd p))" by auto
  have "tree_new V h (of_nat (asizes ps)) (peak_entries 0 ps) ex = Some (?t'\<lparr>root := r\<rparr>)"
    using t'(1) by (simp add: tree_new_def q Let_def tree_invalid_def)
  moreover have "tree_state V h ok s (?t'\<lparr>root := r\<rparr>) ps"
    using m rd all bagged_extends [OF bag' all(2)] by (simp add: tree_state_def)
  ultimately show ?thesis using all(3) by (intro exI [of _ "?t'\<lparr>root := r\<rparr>"]) auto
qed

section \<open>Appending and truncating\<close>

section \<open>Appending and truncating\<close>

lemma length_leaves: "length (concat (map mleaves ps)) = msizes ps"
  by (induction ps) (simp_all add: length_mleaves)

lemma tree_state_nonempty: "tree_state V h ok s t ps \<Longrightarrow> ps \<noteq> []"
  by (auto simp: tree_state_def root_data_def)

text \<open>The next block of a chain: well formed, of the branch, at the height after the last one.\<close>

definition next_block :: "nat \<Rightarrow> u32 \<Rightarrow> NodeDataV3 mtree list \<Rightarrow> NodeDataV3 \<Rightarrow> bool" where
  "next_block s b ps d \<longleftrightarrow> v3_ok d \<and> unat (start_height (v1 (v2 d))) = s + msizes ps \<and>
     unat (end_height (v1 (v2 d))) = s + msizes ps \<and>
     (\<forall>e\<in>set (concat (map mleaves ps) @ [d]). node_branch e = b) \<and>
     total_work (concat (map mleaves ps) @ [d]) < 2 ^ 256"

lemma chain_append_aux:
  assumes hash: "\<forall>p x. length (blake2b p x) = 32" and add: "adds_u256 u256_add"
    and st: "tree_state (V3 u256_add) blake2b v3_ok s t ps" and d: "next_block s b ps d"
    and bound: "asizes ps + length ps + 1 < 2 ^ 32" "length (generated t) + length ps < 2 ^ 32"
  shows "\<exists>t' ps' added. mappend (V3 u256_add) blake2b ps d = Some ps' \<and>
    append_leaf (V3 u256_add) blake2b t d = Some (Inr (links_from (asizes ps) (asizes ps')), t') \<and>
    tree_state (V3 u256_add) blake2b v3_ok s t' ps' \<and> marr 0 ps' = marr 0 ps @ added \<and>
    concat (map mleaves ps') = concat (map mleaves ps) @ [d] \<and>
    spine_loaded t' (asizes (butlast ps')) (last ps') \<and>
    length (generated t') + 1 = length (generated t) + length ps'"
proof -
  have h: "hash32 blake2b = blake2b" using hash by (intro hash32_id) simp
  have st': "tree_state (V3 u256_add) (hash32 blake2b) v3_ok s t ps" using st by (simp add: h)
  have sp: "pspans (V3 u256_add) (hash32 blake2b) v3_ok s (rev (rev ps) @ [MLeaf d])"
    using st d by (simp add: tree_state_def next_block_def pspans_append h V3_def)
  have b: "\<forall>p\<in>set (MLeaf d # rev ps). \<forall>e\<in>set (mleaves p). node_branch e = b"
    using d by (auto simp: next_block_def)
  have w: "total_work (concat (map mleaves (rev (rev ps) @ [MLeaf d]))) < 2 ^ 256"
    using d by (simp add: next_block_def)
  obtain ps' where ps': "mappend (V3 u256_add) (hash32 blake2b) ps d = Some ps'"
      "pspans (V3 u256_add) (hash32 blake2b) v3_ok s ps'" "ps' \<noteq> []"
      "concat (map mleaves ps') = concat (map mleaves ps) @ [d]"
    using mmerge_defined [OF add sp b w] unfolding mappend_def by auto
  have "\<forall>e\<in>set (concat (map mleaves ps')). node_branch e = b"
      "total_work (concat (map mleaves ps')) < 2 ^ 256"
    using d unfolding ps'(4) next_block_def by blast+
  from root_data_defined [OF add ps'(2,3) this] obtain rd where
    rd: "root_data (V3 u256_add) (hash32 blake2b) ps' = Some rd" by blast
  have ht: "unat (ver_start_height (V3 u256_add) d) = s + msizes ps"
      "unat (ver_end_height (V3 u256_add) d) = s + msizes ps" and ok: "v3_ok d"
    using d by (simp_all add: next_block_def V3_def)
  from v3_mmr.append_spec [OF st' ok ht bound ps'(1) rd] ps'(1) show ?thesis
    unfolding h by blast
qed

lemma chain_truncate_aux:
  assumes hash: "\<forall>p x. length (blake2b p x) = 32" and add: "adds_u256 u256_add"
    and st: "tree_state (V3 u256_add) blake2b v3_ok s t ps" and many: "1 < msizes ps"
    and spine: "spine_loaded t (asizes (butlast ps)) (last ps)"
    and bound: "length (generated t) + length (mlefts (last ps)) < 2 ^ 32"
    and b: "\<forall>e\<in>set (concat (map mleaves ps)). node_branch e = b"
    and work: "total_work (concat (map mleaves ps)) < 2 ^ 256"
  shows "concat (map mleaves (mtruncate ps)) = butlast (concat (map mleaves ps)) \<and>
    (\<exists>t'. truncate_leaf (V3 u256_add) blake2b t =
        Some (Inr (of_nat (asizes ps - asizes (mtruncate ps))), t') \<and>
      tree_state (V3 u256_add) blake2b v3_ok s t' (mtruncate ps))"
proof -
  have h: "hash32 blake2b = blake2b" using hash by (intro hash32_id) simp
  have st': "tree_state (V3 u256_add) (hash32 blake2b) v3_ok s t ps" using st by (simp add: h)
  from many obtain qs p where ps: "ps = qs @ [p]" by (cases ps rule: rev_cases) auto
  have ne: "mleaves p \<noteq> []" using length_mleaves [of p] msize_pos [of p] by fastforce
  have tr: "mtruncate ps = qs @ mlefts p" by (simp add: ps mtruncate_def)
  then have leaves: "concat (map mleaves (mtruncate ps)) = butlast (concat (map mleaves ps))"
    using ne by (simp add: ps mleaves_lefts butlast_append)
  have "msizes (mtruncate ps) = msizes ps - 1"
    using arg_cong [OF leaves, of length] by (simp only: length_leaves length_butlast)
  then have nn: "mtruncate ps \<noteq> []" using many by auto
  have sp: "pspans (V3 u256_add) (hash32 blake2b) v3_ok s (mtruncate ps)"
    unfolding tr using st by (simp add: tree_state_def ps pspans_append pspans_lefts h)
  have "\<forall>e\<in>set (concat (map mleaves (mtruncate ps))). node_branch e = b"
    unfolding leaves using b by (blast dest: in_set_butlastD)
  moreover have "total_work (concat (map mleaves (mtruncate ps))) < 2 ^ 256"
  proof -
    let ?ds = "concat (map mleaves ps)"
    have "?ds \<noteq> []" using many length_leaves [of ps] by fastforce
    then have "total_work ?ds = total_work (butlast ?ds) + total_work [last ?ds]"
      using append_butlast_last_id [of ?ds] by (metis total_work_simps(3))
    then show ?thesis unfolding leaves using work by linarith
  qed
  ultimately obtain rd where "root_data (V3 u256_add) (hash32 blake2b) (mtruncate ps) = Some rd"
    using root_data_defined [OF add sp nn] by blast
  from v3_mmr.truncate_spec [OF st' many spine bound this] leaves show ?thesis
    unfolding h by blast
qed

section \<open>The properties of the chain history tree\<close>

text \<open>
  \<open>Tree::new\<close>, given the length of the array, the peaks of a consistent mountain range with their
  positions, and extra entries of the array, returns a view of exactly that mountain range: the root
  combines the peaks from the left, and every extra entry resolves to its data. Nothing panics, as
  long as the blocks are of one branch and their total work does not overflow.
\<close>

theorem chain_new:
  assumes "\<forall>p x. length (blake2b p x) = 32" and "adds_u256 u256_add"
    and "mountain ps" and "ps \<noteq> []" and "pspans (V3 u256_add) blake2b v3_ok s ps" and "asizes ps < 2 ^ 32"
    and "\<forall>e\<in>set (concat (map mleaves ps)). node_branch e = b"
    and "total_work (concat (map mleaves ps)) < 2 ^ 256"
    and "\<forall>p\<in>set extra. entry_at (marr 0 ps) p"
  shows "\<exists>t. tree_new (V3 u256_add) blake2b (of_nat (asizes ps)) (peak_entries 0 ps) extra = Some t \<and>
    tree_state (V3 u256_add) blake2b v3_ok s t ps \<and>
    (\<forall>p\<in>set extra. loaded t (Stored (fst p), entry_data (snd p)))"
proof -
  have h: "hash32 blake2b = blake2b" using assms(1) by (intro hash32_id) simp
  then have "pspans (V3 u256_add) (hash32 blake2b) v3_ok s ps" using assms(5) by simp
  from root_data_defined [OF assms(2) this assms(4,7,8)] obtain rd where
    "root_data (V3 u256_add) blake2b ps = Some rd" unfolding h by blast
  from tree_new_spec [OF assms(3,5,4,6) this assms(9)] show ?thesis .
qed

text \<open>
  C7. \<open>append_leaf\<close> refines the binary counter on the peaks: on a view of the mountain range \<open>ps\<close>, the
  next block of the branch is appended without an error or a panic; the view then covers the range
  in which equal peaks were merged from the right, the leaves are the old ones and the new block, the
  array only grows (nothing written before moves), and the links returned are exactly those of the
  entries the caller has to persist.
\<close>

theorem chain_append:
  assumes "\<forall>p x. length (blake2b p x) = 32" and "adds_u256 u256_add"
    and "tree_state (V3 u256_add) blake2b v3_ok s t ps" and "next_block s b ps d"
    and "asizes ps + length ps + 1 < 2 ^ 32" and "length (generated t) + length ps < 2 ^ 32"
  shows "\<exists>t' ps' added. mappend (V3 u256_add) blake2b ps d = Some ps' \<and>
    append_leaf (V3 u256_add) blake2b t d = Some (Inr (links_from (asizes ps) (asizes ps')), t') \<and>
    tree_state (V3 u256_add) blake2b v3_ok s t' ps' \<and> marr 0 ps' = marr 0 ps @ added \<and>
    concat (map mleaves ps') = concat (map mleaves ps) @ [d]"
  using chain_append_aux [OF assms] by blast

text \<open>
  C8. \<open>truncate_leaf\<close> refines splitting the last peak: on a view of a range of at least two blocks whose
  right spine is loaded, it removes exactly the last block, returns the number of entries by which
  the array shrinks, and leaves a view of the remaining range.
\<close>

theorem chain_truncate:
  assumes "\<forall>p x. length (blake2b p x) = 32" and "adds_u256 u256_add"
    and "tree_state (V3 u256_add) blake2b v3_ok s t ps" and "1 < msizes ps"
    and "spine_loaded t (asizes (butlast ps)) (last ps)"
    and "length (generated t) + length (mlefts (last ps)) < 2 ^ 32"
    and "\<forall>e\<in>set (concat (map mleaves ps)). node_branch e = b"
    and "total_work (concat (map mleaves ps)) < 2 ^ 256"
  shows "concat (map mleaves (mtruncate ps)) = butlast (concat (map mleaves ps)) \<and>
    (\<exists>t'. truncate_leaf (V3 u256_add) blake2b t =
        Some (Inr (of_nat (asizes ps - asizes (mtruncate ps))), t') \<and>
      tree_state (V3 u256_add) blake2b v3_ok s t' (mtruncate ps))"
  using chain_truncate_aux [OF assms] .

text \<open>
  Truncating after appending restores the tree: the truncation returns as many entries as the
  append returned links, and the view again covers the same mountain range, with the same length and
  the same root data.
\<close>

theorem chain_truncate_after_append:
  assumes hash: "\<forall>p x. length (blake2b p x) = 32" and add: "adds_u256 u256_add"
    and st: "tree_state (V3 u256_add) blake2b v3_ok s t ps" and d: "next_block s b ps d"
    and bound: "asizes ps + length ps + 1 < 2 ^ 32" "length (generated t) + 2 * length ps < 2 ^ 32"
  shows "\<exists>links t1 t2. append_leaf (V3 u256_add) blake2b t d = Some (Inr links, t1) \<and>
    truncate_leaf (V3 u256_add) blake2b t1 = Some (Inr (of_nat (length links)), t2) \<and>
    tree_state (V3 u256_add) blake2b v3_ok s t2 ps \<and> tree_len t2 = tree_len t \<and>
    (\<exists>n n2. root_node t = Inr n \<and> root_node t2 = Inr n2 \<and> entry_data (fst n2) = entry_data (fst n))"
proof -
  have "length (generated t) + length ps < 2 ^ 32" using bound by simp
  from chain_append_aux [OF hash add st d bound(1) this] obtain t1 ps' added where
    ap: "mappend (V3 u256_add) blake2b ps d = Some ps'"
      "append_leaf (V3 u256_add) blake2b t d = Some (Inr (links_from (asizes ps) (asizes ps')), t1)"
      "tree_state (V3 u256_add) blake2b v3_ok s t1 ps'" "concat (map mleaves ps') = concat (map mleaves ps) @ [d]"
      "spine_loaded t1 (asizes (butlast ps')) (last ps')" "length (generated t1) + 1 = length (generated t) + length ps'"
    by blast
  have again: "mtruncate ps' = ps" using mtruncate_mappend [OF ap(1)] .
  have len: "length ps = length ps' - 1 + length (mlefts (last ps'))"
    using arg_cong [OF again, of length] unfolding mtruncate_def length_append length_butlast by simp
  have "0 < msizes ps" using tree_state_nonempty [OF st] msize_pos by (cases ps) auto
  moreover have "msizes ps' = msizes ps + 1"
    using arg_cong [OF ap(4), of length] by (simp only: length_leaves length_append list.size)
  ultimately have many: "1 < msizes ps'" by simp
  have bnd: "length (generated t1) + length (mlefts (last ps')) < 2 ^ 32" using len ap(6) bound(2) by simp
  have b: "\<forall>e\<in>set (concat (map mleaves ps')). node_branch e = b"
      "total_work (concat (map mleaves ps')) < 2 ^ 256"
    unfolding ap(4) using d unfolding next_block_def by blast+
  from chain_truncate_aux [OF hash add ap(3) many ap(5) bnd b] again obtain t2 where
    t2: "truncate_leaf (V3 u256_add) blake2b t1 = Some (Inr (of_nat (asizes ps' - asizes ps)), t2)"
      "tree_state (V3 u256_add) blake2b v3_ok s t2 ps" by auto
  have root: "\<exists>n d. root_node u = Inr n \<and> root_data (V3 u256_add) blake2b ps = Some d \<and> entry_data (fst n) = d"
    if u: "tree_state (V3 u256_add) blake2b v3_ok s u ps" for u
  proof -
    from u obtain d where d: "root_data (V3 u256_add) blake2b ps = Some d"
        "bagged (V3 u256_add) blake2b u (ppeaks 0 ps) (root u) d" by (auto simp: tree_state_def)
    from bagged_loaded [OF d(2)] d(1) show ?thesis by (auto simp: loaded_def root_node_def)
  qed
  have "tree_len t2 = tree_len t"
    using st t2(2) by (simp add: tree_state_def view_def tree_len_def word_unat_eq_iff)
  then show ?thesis using ap(2) t2 root [OF st] root [OF t2(2)]
    by (auto simp: links_from_def)
qed

text \<open>
  A view of a single block cannot be truncated: \<open>truncate_leaf\<close> returns the error that a node was
  expected and leaves the tree as it was.
\<close>

theorem truncate_single_block:
  assumes "tree_state (V3 u256_add) blake2b v3_ok s t [MLeaf d]"
  shows "truncate_leaf (V3 u256_add) blake2b t = Some (Inl (ExpectedNode None), t)"
proof -
  from assms have v: "view t (marr 0 [MLeaf d])" and sp: "spans (V3 u256_add) blake2b v3_ok s (MLeaf d)"
    and bag: "bagged (V3 u256_add) blake2b t [(mlink 0 (MLeaf d), d)] (root t) d"
    by (auto simp: tree_state_def root_data_def)
  from bagged_single [OF bag] have rt: "root t = mlink 0 (MLeaf d)" by simp
  from bagged_loaded [OF bag] obtain e where e: "resolve_link t (root t) = Inr (e, root t)" "entry_data e = d"
    by (auto simp: loaded_def)
  have "marr 0 [MLeaf d] = [] @ arr (length []) (MLeaf d) @ []" by simp
  from view_resolve [OF v this] e rt have "kind e = LeafKind" by (simp add: entry_new_leaf_def)
  moreover have "leaf_count (V3 u256_add) e = Some (of_nat 1)"
    unfolding leaf_count_def using sp e(2) by (intro height_count_eq) auto
  ultimately show ?thesis using e(1) by (simp add: truncate_leaf_def entry_left_def)
qed

section \<open>A chain of two blocks\<close>

definition sample_add :: "u256 \<Rightarrow> u256 \<Rightarrow> u256 option" where
  "sample_add a b = (if unat a + unat b < 2 ^ 256 then Some (a + b) else None)"

definition sample_hash :: "bytes \<Rightarrow> bytes \<Rightarrow> bytes" where
  "sample_hash p x = replicate 32 1"

definition sample_tree :: "NodeDataV3 Tree" where
  "sample_tree = \<lparr>stored = [0 \<mapsto> entry_new_leaf (sample_node 1)], generated = [], stored_count = 1, root = Stored 0\<rparr>"

lemma sample_adds: "adds_u256 sample_add"
  by (simp add: adds_u256_def sample_add_def)

lemma sample_hash_length: "\<forall>p x. length (sample_hash p x) = 32"
  by (simp add: sample_hash_def)

lemma sample_range:
  "mountain [MLeaf (sample_node 1)]" "pspans (V3 u256_add) h v3_ok 1 [MLeaf (sample_node 1)]"
proof -
  have "list_all2 mperfect [0] [MLeaf (sample_node 1)] \<and> sorted_wrt (>) [0::nat]" by simp
  then show "mountain [MLeaf (sample_node 1)]" unfolding mountain_def by blast
  show "pspans (V3 u256_add) h v3_ok 1 [MLeaf (sample_node 1)]"
    using sample_node_ok [of 1] by (simp add: V3_def sample_node_def Let_def)
qed

lemma sample_new: "tree_new V h 1 (peak_entries 0 [MLeaf (sample_node 1)]) [] = Some sample_tree"
  by (simp add: tree_new_def Let_def tree_invalid_def sample_tree_def)

lemma sample_tree_state: "tree_state (V3 sample_add) sample_hash v3_ok 1 sample_tree [MLeaf (sample_node 1)]"
proof -
  have "root_data (V3 sample_add) sample_hash [MLeaf (sample_node 1)] = Some (sample_node 1)"
    by (simp add: root_data_def)
  from tree_new_spec [OF sample_range _ _ this, of "[]"] sample_new show ?thesis by force
qed

lemma sample_next: "next_block 1 1 [MLeaf (sample_node 1)] (sample_node 2)"
  using sample_node_ok [of 2]
  by (simp add: next_block_def node_branch_def node_work_def total_work_def)
    (simp add: sample_node_def Let_def)

lemma sample_append:
  "\<exists>t d. append_leaf (V3 sample_add) sample_hash sample_tree (sample_node 2) = Some (Inr [Stored 1, Stored 2], t) \<and>
     tree_state (V3 sample_add) sample_hash v3_ok 1 t [MNode d (MLeaf (sample_node 1)) (MLeaf (sample_node 2))] \<and>
     spine_loaded t 0 (MNode d (MLeaf (sample_node 1)) (MLeaf (sample_node 2))) \<and> length (generated t) = 0"
proof -
  have gen: "generated sample_tree = []" by (simp add: sample_tree_def)
  from chain_append_aux [OF sample_hash_length sample_adds sample_tree_state sample_next] gen
  obtain t ps' where ap: "mappend (V3 sample_add) sample_hash [MLeaf (sample_node 1)] (sample_node 2) = Some ps'"
      "append_leaf (V3 sample_add) sample_hash sample_tree (sample_node 2) = Some (Inr (links_from 1 (asizes ps')), t)"
      "tree_state (V3 sample_add) sample_hash v3_ok 1 t ps'"
      "spine_loaded t (asizes (butlast ps')) (last ps')" "length (generated t) + 1 = length ps'" by auto
  from ap(1) obtain d where "ps' = [MNode d (MLeaf (sample_node 1)) (MLeaf (sample_node 2))]"
    by (auto simp: mappend_def bind_eq_Some_conv)
  moreover have "links_from (Suc 0) (Suc (Suc (Suc 0))) = [Stored 1, Stored 2]" by (simp add: links_from_def upt_rec)
  ultimately show ?thesis using ap by (intro exI [of _ t] exI [of _ d]) auto
qed

theorem chain_new_witness:
  "tree_state (V3 sample_add) sample_hash v3_ok 1 sample_tree [MLeaf (sample_node 1)] \<and>
   tree_new (V3 sample_add) sample_hash 1 [(0, entry_new_leaf (sample_node 1))] [] = Some sample_tree"
  using chain_new [OF sample_hash_length sample_adds sample_range(1) _ sample_range(2), of 1 "[]"] sample_new
  by (auto simp: node_branch_def node_work_def total_work_def) (simp_all add: sample_node_def Let_def)

theorem chain_append_witness:
  "\<exists>t ps. append_leaf (V3 sample_add) sample_hash sample_tree (sample_node 2) = Some (Inr (links_from 1 (asizes ps)), t) \<and>
     concat (map mleaves ps) = [sample_node 1, sample_node 2]"
  using chain_append [OF sample_hash_length sample_adds sample_tree_state sample_next]
  by (auto simp: sample_tree_def)

theorem chain_truncate_witness:
  "\<exists>t t'. append_leaf (V3 sample_add) sample_hash sample_tree (sample_node 2) = Some (Inr [Stored 1, Stored 2], t) \<and>
     truncate_leaf (V3 sample_add) sample_hash t = Some (Inr 2, t') \<and>
     tree_state (V3 sample_add) sample_hash v3_ok 1 t' [MLeaf (sample_node 1)]"
proof -
  from sample_append obtain t d where ap:
    "append_leaf (V3 sample_add) sample_hash sample_tree (sample_node 2) = Some (Inr [Stored 1, Stored 2], t)"
    "tree_state (V3 sample_add) sample_hash v3_ok 1 t [MNode d (MLeaf (sample_node 1)) (MLeaf (sample_node 2))]"
    "spine_loaded t 0 (MNode d (MLeaf (sample_node 1)) (MLeaf (sample_node 2)))" "length (generated t) = 0" by blast
  let ?ps = "[MNode d (MLeaf (sample_node 1)) (MLeaf (sample_node 2))]"
  have "\<forall>e\<in>set (concat (map mleaves ?ps)). node_branch e = 1" "total_work (concat (map mleaves ?ps)) < 2 ^ 256"
    using sample_next by (simp_all add: next_block_def)
  from chain_truncate [OF sample_hash_length sample_adds ap(2) _ _ _ this] ap show ?thesis
    by (auto simp: mtruncate_def)
qed

theorem chain_truncate_after_append_witness:
  "\<exists>links t1 t2. append_leaf (V3 sample_add) sample_hash sample_tree (sample_node 2) = Some (Inr links, t1) \<and>
     truncate_leaf (V3 sample_add) sample_hash t1 = Some (Inr (of_nat (length links)), t2) \<and> tree_len t2 = 1"
proof -
  have "asizes [MLeaf (sample_node 1)] + length [MLeaf (sample_node 1)] + 1 < 2 ^ 32"
    "length (generated sample_tree) + 2 * length [MLeaf (sample_node 1)] < 2 ^ 32" "tree_len sample_tree = 1"
    by (simp_all add: sample_tree_def tree_len_def)
  with chain_truncate_after_append [OF sample_hash_length sample_adds sample_tree_state sample_next]
  show ?thesis by fastforce
qed

theorem truncate_single_block_witness:
  "truncate_leaf (V3 sample_add) sample_hash sample_tree = Some (Inl (ExpectedNode None), sample_tree)"
  using truncate_single_block [OF sample_tree_state] .

end
