(* ===== verification/Consensus.thy ===== *)
theory Consensus
  imports Zc_Prelude
begin

text \<open>
  Model of \<open>components/zcash_protocol/src/consensus.rs\<close>: block heights and transaction indices
  (transparent wrappers of \<open>u32\<close> and \<open>u16\<close>), the networks and their activation heights, network
  upgrades, and consensus branches with the epochs they are in force. The trait \<open>Parameters\<close>
  is the record \<open>parameters\<close>. The variants behind \<open>zcash_unstable = "nutachyon"\<close> are not
  compiled by default and not modelled; nor are the address prefixes of \<open>NetworkConstants\<close>.
\<close>

section \<open>Block heights\<close>

type_synonym BlockHeight = u32

definition H0 :: BlockHeight where
  "H0 = 0"

definition block_height_from_u32 :: "u32 \<Rightarrow> BlockHeight" where
  "block_height_from_u32 v = v"

definition block_height_saturating_sub :: "BlockHeight \<Rightarrow> u32 \<Rightarrow> BlockHeight" where
  "block_height_saturating_sub h v = word_saturating_sub h v"

definition block_height_add :: "BlockHeight \<Rightarrow> u32 \<Rightarrow> BlockHeight" where
  "block_height_add h other = word_saturating_add h other"

definition block_height_sub :: "BlockHeight \<Rightarrow> u32 \<Rightarrow> BlockHeight" where
  "block_height_sub h other = word_saturating_sub h other"

definition block_height_diff :: "BlockHeight \<Rightarrow> BlockHeight \<Rightarrow> u32" where
  "block_height_diff h other = word_saturating_sub h other"

text \<open>\<open>TryFrom\<close> a wider or signed integer, given by its value; \<open>None\<close> is \<open>TryFromIntError\<close>.\<close>

definition block_height_try_from :: "int \<Rightarrow> BlockHeight option" where
  "block_height_try_from value =
     (if 0 \<le> value \<and> value < 4294967296 then Some (word_of_int value) else None)"

definition u64_of_block_height :: "BlockHeight \<Rightarrow> u64" where
  "u64_of_block_height h = ucast h"

type_synonym TxIndex = u16

definition tx_index_try_from :: "int \<Rightarrow> TxIndex option" where
  "tx_index_try_from value =
     (if 0 \<le> value \<and> value < 65536 then Some (word_of_int value) else None)"

section \<open>Networks and upgrades\<close>

datatype NetworkType = Main | Test | Regtest

datatype NetworkUpgrade = Overwinter | Sapling | Blossom | Heartwood | Canopy | Nu5 | Nu6
  | Nu6_1 | Nu6_2 | Nu6_3 | Nu7

datatype BranchId = BSprout | BOverwinter | BSapling | BBlossom | BHeartwood | BCanopy | BNu5
  | BNu6 | BNu6_1 | BNu6_2 | BNu6_3 | BNu7

record parameters =
  network_type :: NetworkType
  activation_height :: "NetworkUpgrade \<Rightarrow> BlockHeight option"

definition is_nu_active :: "parameters \<Rightarrow> NetworkUpgrade \<Rightarrow> BlockHeight \<Rightarrow> bool" where
  "is_nu_active params nu height =
     (case activation_height params nu of None \<Rightarrow> False | Some h \<Rightarrow> h \<le> height)"

fun main_network_activation_height :: "NetworkUpgrade \<Rightarrow> BlockHeight option" where
  "main_network_activation_height Overwinter = Some 347500"
| "main_network_activation_height Sapling = Some 419200"
| "main_network_activation_height Blossom = Some 653600"
| "main_network_activation_height Heartwood = Some 903000"
| "main_network_activation_height Canopy = Some 1046400"
| "main_network_activation_height Nu5 = Some 1687104"
| "main_network_activation_height Nu6 = Some 2726400"
| "main_network_activation_height Nu6_1 = Some 3146400"
| "main_network_activation_height Nu6_2 = Some 3364600"
| "main_network_activation_height Nu6_3 = Some 3428143"
| "main_network_activation_height Nu7 = None"

definition MAIN_NETWORK :: parameters where
  "MAIN_NETWORK = \<lparr>network_type = Main, activation_height = main_network_activation_height\<rparr>"

fun test_network_activation_height :: "NetworkUpgrade \<Rightarrow> BlockHeight option" where
  "test_network_activation_height Overwinter = Some 207500"
| "test_network_activation_height Sapling = Some 280000"
| "test_network_activation_height Blossom = Some 584000"
| "test_network_activation_height Heartwood = Some 903800"
| "test_network_activation_height Canopy = Some 1028500"
| "test_network_activation_height Nu5 = Some 1842420"
| "test_network_activation_height Nu6 = Some 2976000"
| "test_network_activation_height Nu6_1 = Some 3536500"
| "test_network_activation_height Nu6_2 = Some 4052000"
| "test_network_activation_height Nu6_3 = Some 4134000"
| "test_network_activation_height Nu7 = Some 4465026"

definition TEST_NETWORK :: parameters where
  "TEST_NETWORK = \<lparr>network_type = Test, activation_height = test_network_activation_height\<rparr>"

datatype Network = MainNetwork | TestNetwork

fun network_parameters :: "Network \<Rightarrow> parameters" where
  "network_parameters MainNetwork = MAIN_NETWORK"
| "network_parameters TestNetwork = TEST_NETWORK"

fun branch_id :: "NetworkUpgrade \<Rightarrow> BranchId" where
  "branch_id Overwinter = BOverwinter"
| "branch_id Sapling = BSapling"
| "branch_id Blossom = BBlossom"
| "branch_id Heartwood = BHeartwood"
| "branch_id Canopy = BCanopy"
| "branch_id Nu5 = BNu5"
| "branch_id Nu6 = BNu6"
| "branch_id Nu6_1 = BNu6_1"
| "branch_id Nu6_2 = BNu6_2"
| "branch_id Nu6_3 = BNu6_3"
| "branch_id Nu7 = BNu7"

definition UPGRADES_IN_ORDER :: "NetworkUpgrade list" where
  "UPGRADES_IN_ORDER =
     [Overwinter, Sapling, Blossom, Heartwood, Canopy, Nu5, Nu6, Nu6_1, Nu6_2, Nu6_3, Nu7]"

section \<open>Consensus branches\<close>

definition branch_id_try_from_u32 :: "u32 \<Rightarrow> BranchId option" where
  "branch_id_try_from_u32 value =
     (if value = 0 then Some BSprout
      else if value = 0x5ba81b19 then Some BOverwinter
      else if value = 0x76b809bb then Some BSapling
      else if value = 0x2bb40e60 then Some BBlossom
      else if value = 0xf5b9230b then Some BHeartwood
      else if value = 0xe9ff75a6 then Some BCanopy
      else if value = 0xc2d6d0b4 then Some BNu5
      else if value = 0xc8e71055 then Some BNu6
      else if value = 0x4dec4df0 then Some BNu6_1
      else if value = 0x5437f330 then Some BNu6_2
      else if value = 0x37a5165b then Some BNu6_3
      else if value = 0x77190ad9 then Some BNu7
      else None)"

fun u32_of_branch_id :: "BranchId \<Rightarrow> u32" where
  "u32_of_branch_id BSprout = 0"
| "u32_of_branch_id BOverwinter = 0x5ba81b19"
| "u32_of_branch_id BSapling = 0x76b809bb"
| "u32_of_branch_id BBlossom = 0x2bb40e60"
| "u32_of_branch_id BHeartwood = 0xf5b9230b"
| "u32_of_branch_id BCanopy = 0xe9ff75a6"
| "u32_of_branch_id BNu5 = 0xc2d6d0b4"
| "u32_of_branch_id BNu6 = 0xc8e71055"
| "u32_of_branch_id BNu6_1 = 0x4dec4df0"
| "u32_of_branch_id BNu6_2 = 0x5437f330"
| "u32_of_branch_id BNu6_3 = 0x37a5165b"
| "u32_of_branch_id BNu7 = 0x77190ad9"

text \<open>The loop over \<open>UPGRADES_IN_ORDER.iter().rev()\<close> that returns at the first active upgrade.\<close>

primrec for_height_loop :: "parameters \<Rightarrow> BlockHeight \<Rightarrow> NetworkUpgrade list \<Rightarrow> BranchId" where
  "for_height_loop params height [] = BSprout"
| "for_height_loop params height (nu # nus) =
     (if is_nu_active params nu height then branch_id nu else for_height_loop params height nus)"

definition for_height :: "parameters \<Rightarrow> BlockHeight \<Rightarrow> BranchId" where
  "for_height params height = for_height_loop params height (rev UPGRADES_IN_ORDER)"

fun network_upgrade :: "BranchId \<Rightarrow> NetworkUpgrade option" where
  "network_upgrade BSprout = None"
| "network_upgrade BOverwinter = Some Overwinter"
| "network_upgrade BSapling = Some Sapling"
| "network_upgrade BBlossom = Some Blossom"
| "network_upgrade BHeartwood = Some Heartwood"
| "network_upgrade BCanopy = Some Canopy"
| "network_upgrade BNu5 = Some Nu5"
| "network_upgrade BNu6 = Some Nu6"
| "network_upgrade BNu6_1 = Some Nu6_1"
| "network_upgrade BNu6_2 = Some Nu6_2"
| "network_upgrade BNu6_3 = Some Nu6_3"
| "network_upgrade BNu7 = Some Nu7"

text \<open>\<open>Iterator::find\<close> on \<open>later\<close>: the element found and what the iterator has left.\<close>

primrec iter_find :: "('a \<Rightarrow> bool) \<Rightarrow> 'a list \<Rightarrow> 'a option \<times> 'a list" where
  "iter_find p [] = (None, [])"
| "iter_find p (x # xs) = (if p x then (Some x, xs) else iter_find p xs)"

text \<open>\<open>Iterator::min\<close>: \<open>None\<close> on an empty iterator.\<close>

primrec iter_min :: "'a::linorder list \<Rightarrow> 'a option" where
  "iter_min [] = None"
| "iter_min (x # xs) = (case iter_min xs of None \<Rightarrow> Some x | Some y \<Rightarrow> Some (min x y))"

definition height_bounds :: "parameters \<Rightarrow> BranchId \<Rightarrow> (BlockHeight \<times> BlockHeight option) option" where
  "height_bounds params self =
     (let (lower, later) =
            (if self = BSprout then (Some 0, UPGRADES_IN_ORDER)
             else case iter_find (\<lambda>upgrade. branch_id upgrade = self) UPGRADES_IN_ORDER of
                 (None, later) \<Rightarrow> (None, later)
               | (Some upgrade, later) \<Rightarrow> (activation_height params upgrade, later))
      in case lower of None \<Rightarrow> None
        | Some lower \<Rightarrow>
            let upper = iter_min (List.map_filter (activation_height params) later) in
            if (case upper of None \<Rightarrow> False | Some upper \<Rightarrow> upper \<le> lower) then None
            else Some (lower, upper))"

datatype 'a Bound = Included 'a | Excluded 'a | Unbounded

definition height_range :: "parameters \<Rightarrow> BranchId \<Rightarrow> (BlockHeight Bound \<times> BlockHeight Bound) option" where
  "height_range params self =
     map_option (\<lambda>(lower, upper). (Included lower,
       case upper of None \<Rightarrow> Unbounded | Some u \<Rightarrow> Excluded u)) (height_bounds params self)"

text \<open>\<open>RangeBounds::contains\<close> for such a pair.\<close>

definition bounds_contain :: "'a::linorder Bound \<times> 'a Bound \<Rightarrow> 'a \<Rightarrow> bool" where
  "bounds_contain r x \<longleftrightarrow>
     (case fst r of Included l \<Rightarrow> l \<le> x | Excluded l \<Rightarrow> l < x | Unbounded \<Rightarrow> True) \<and>
     (case snd r of Included u \<Rightarrow> x \<le> u | Excluded u \<Rightarrow> x < u | Unbounded \<Rightarrow> True)"

definition sprout_uses_groth_proofs :: "BranchId \<Rightarrow> bool" where
  "sprout_uses_groth_proofs b \<longleftrightarrow> \<not> (b = BSprout \<or> b = BOverwinter)"

fun has_sprout :: "BranchId \<Rightarrow> bool" where
  "has_sprout BNu7 = False"
| "has_sprout _ = True"

fun has_sapling :: "BranchId \<Rightarrow> bool" where
  "has_sapling BSprout = False"
| "has_sapling BOverwinter = False"
| "has_sapling _ = True"

definition has_orchard :: "BranchId \<Rightarrow> bool" where
  "has_orchard b \<longleftrightarrow>
     (case b of BSprout \<Rightarrow> False | BOverwinter \<Rightarrow> False | BSapling \<Rightarrow> False | BBlossom \<Rightarrow> False
      | BHeartwood \<Rightarrow> False | BCanopy \<Rightarrow> False | _ \<Rightarrow> True)"

datatype OrchardProtocolRevision = InsecureV1 | V2 | V3

definition orchard_protocol_revision :: "BranchId \<Rightarrow> OrchardProtocolRevision option" where
  "orchard_protocol_revision b =
     (case b of BSprout \<Rightarrow> None | BOverwinter \<Rightarrow> None | BSapling \<Rightarrow> None | BBlossom \<Rightarrow> None
      | BHeartwood \<Rightarrow> None | BCanopy \<Rightarrow> None
      | BNu5 \<Rightarrow> Some InsecureV1 | BNu6 \<Rightarrow> Some InsecureV1 | BNu6_1 \<Rightarrow> Some InsecureV1
      | BNu6_2 \<Rightarrow> Some V2 | BNu6_3 \<Rightarrow> Some V3 | BNu7 \<Rightarrow> Some V3)"

section \<open>Epochs\<close>

lemma branch_id_inj: "inj branch_id"
proof (rule injI)
  fix u v assume "branch_id u = branch_id v"
  then show "u = v" by (cases u; cases v) simp_all
qed

lemma branch_id_not_sprout [simp]: "branch_id nu \<noteq> BSprout"
  by (cases nu) simp_all

lemma in_UPGRADES_IN_ORDER: "nu \<in> set UPGRADES_IN_ORDER"
  by (cases nu) (simp_all add: UPGRADES_IN_ORDER_def)

lemma distinct_UPGRADES_IN_ORDER: "distinct UPGRADES_IN_ORDER"
  by (simp add: UPGRADES_IN_ORDER_def)

lemma iter_min_None [simp]: "iter_min xs = None \<longleftrightarrow> xs = []"
  by (cases xs) (auto split: option.splits)

lemma iter_min_le: "iter_min xs = Some m \<Longrightarrow> m \<in> set xs \<and> (\<forall>x\<in>set xs. m \<le> x)"
  by (induction xs arbitrary: m) (auto simp: min_def split: option.splits if_splits)

lemma less_iter_min:
  "(case iter_min xs of None \<Rightarrow> True | Some m \<Rightarrow> h < m) \<longleftrightarrow> (\<forall>x\<in>set xs. h < x)"
proof (cases "iter_min xs")
  case None
  then show ?thesis by simp
next
  case (Some m)
  then show ?thesis using iter_min_le [OF Some] by auto
qed

lemma iter_find_split:
  "distinct xs \<Longrightarrow> inj f \<Longrightarrow> xs = ps @ x # ss \<Longrightarrow> iter_find (\<lambda>y. f y = f x) xs = (Some x, ss)"
  by (induction ps arbitrary: xs) (auto simp: inj_eq)

lemma for_height_loop_append:
  "for_height_loop p h (xs @ ys) =
     (if \<exists>nu\<in>set xs. is_nu_active p nu h then for_height_loop p h xs else for_height_loop p h ys)"
  by (induction xs) auto

lemma for_height_loop_sprout:
  "for_height_loop p h xs = BSprout \<longleftrightarrow> (\<forall>nu\<in>set xs. \<not> is_nu_active p nu h)"
  by (induction xs) auto

lemma for_height_loop_in: "for_height_loop p h xs = branch_id nu \<Longrightarrow> nu \<in> set xs"
  by (induction xs) (auto split: if_splits simp: inj_eq [OF branch_id_inj] dest: sym)

lemma for_height_upgrade:
  assumes "UPGRADES_IN_ORDER = ps @ nu # ss"
  shows "for_height p h = branch_id nu \<longleftrightarrow>
    is_nu_active p nu h \<and> (\<forall>u\<in>set ss. \<not> is_nu_active p u h)"
proof -
  have d: "nu \<notin> set ps" "nu \<notin> set ss"
    using distinct_UPGRADES_IN_ORDER [unfolded assms] by simp_all
  have "for_height p h = for_height_loop p h (rev ss @ nu # rev ps)"
    by (simp add: for_height_def assms)
  then show ?thesis
    using d for_height_loop_in [of p h "rev ss" nu] for_height_loop_in [of p h "rev ps" nu]
    by (auto simp: for_height_loop_append)
qed

definition in_epoch :: "parameters \<Rightarrow> BranchId \<Rightarrow> BlockHeight \<Rightarrow> bool" where
  "in_epoch params b height \<longleftrightarrow>
     (case height_bounds params b of None \<Rightarrow> False
      | Some (lower, upper) \<Rightarrow> lower \<le> height \<and> (case upper of None \<Rightarrow> True | Some u \<Rightarrow> height < u))"

lemma in_epoch_height_range:
  "in_epoch p b h \<longleftrightarrow> (case height_range p b of None \<Rightarrow> False | Some r \<Rightarrow> bounds_contain r h)"
  by (auto simp: in_epoch_def height_range_def bounds_contain_def split: option.splits)

lemma not_active_iff: "\<not> is_nu_active p u h \<longleftrightarrow> (\<forall>a. activation_height p u = Some a \<longrightarrow> h < a)"
  by (auto simp: is_nu_active_def split: option.splits)

lemma map_filter_less:
  "(\<forall>x\<in>set (List.map_filter f xs). h < x) \<longleftrightarrow> (\<forall>y\<in>set xs. \<forall>a. f y = Some a \<longrightarrow> h < a)"
  by (induction xs) (auto simp: map_filter_simps split: option.splits)

lemma epoch_from:
  assumes "height_bounds p b = (let upper = iter_min (List.map_filter (activation_height p) later) in
      if (case upper of None \<Rightarrow> False | Some upper \<Rightarrow> upper \<le> lower) then None else Some (lower, upper))"
  shows "in_epoch p b h \<longleftrightarrow> lower \<le> h \<and> (\<forall>u\<in>set later. \<not> is_nu_active p u h)"
proof -
  let ?m = "iter_min (List.map_filter (activation_height p) later)"
  have "(case ?m of None \<Rightarrow> True | Some m \<Rightarrow> h < m) \<longleftrightarrow> (\<forall>u\<in>set later. \<not> is_nu_active p u h)"
    by (simp add: less_iter_min map_filter_less not_active_iff)
  then show ?thesis
    by (cases ?m) (auto simp: in_epoch_def assms Let_def)
qed

text \<open>
  The branch in force at a height and the epochs of the branches agree: for any activation
  heights whatever (also unset ones, or ones out of order), \<open>BranchId::for_height\<close> returns the
  branch \<open>b\<close> exactly when the height lies in the range \<open>height_bounds\<close> (equally
  \<open>height_range\<close>) gives for \<open>b\<close>. So the epochs are disjoint and cover every height.
\<close>

theorem for_height_iff_height_bounds:
  "(for_height p h = b \<longleftrightarrow> in_epoch p b h) \<and>
   (in_epoch p b h \<longleftrightarrow> (case height_range p b of None \<Rightarrow> False | Some r \<Rightarrow> bounds_contain r h))"
proof (intro conjI in_epoch_height_range)
  show "for_height p h = b \<longleftrightarrow> in_epoch p b h"
  proof (cases "network_upgrade b")
    case None
    then have b: "b = BSprout" by (cases b) simp_all
    have "in_epoch p b h \<longleftrightarrow> 0 \<le> h \<and> (\<forall>u\<in>set UPGRADES_IN_ORDER. \<not> is_nu_active p u h)"
      by (rule epoch_from) (simp add: b height_bounds_def)
    then show ?thesis by (simp add: b for_height_def for_height_loop_sprout)
  next
    case (Some nu)
    then have b: "b = branch_id nu" by (cases b) auto
    obtain ps ss where split: "UPGRADES_IN_ORDER = ps @ nu # ss"
      using split_list [OF in_UPGRADES_IN_ORDER] by blast
    have found: "iter_find (\<lambda>u. branch_id u = b) UPGRADES_IN_ORDER = (Some nu, ss)"
      unfolding b by (rule iter_find_split [OF distinct_UPGRADES_IN_ORDER branch_id_inj split])
    show ?thesis
    proof (cases "activation_height p nu")
      case None
      then have "\<not> in_epoch p b h" "\<not> is_nu_active p nu h"
        by (simp_all add: in_epoch_def height_bounds_def found [unfolded b] is_nu_active_def b)
      then show ?thesis by (simp add: b for_height_upgrade [OF split])
    next
      case (Some lower)
      have "in_epoch p b h \<longleftrightarrow> lower \<le> h \<and> (\<forall>u\<in>set ss. \<not> is_nu_active p u h)"
        by (rule epoch_from) (simp add: height_bounds_def found [unfolded b] Some b)
      then show ?thesis by (simp add: b for_height_upgrade [OF split] is_nu_active_def Some)
    qed
  qed
qed

text \<open>
  The wire encoding of consensus branches is faithful: a \<open>u32\<close> decodes to a branch exactly
  when it is that branch's identifier (so the identifiers are distinct), and the conversions
  between upgrades and branches are mutually inverse.
\<close>

theorem branch_id_codes:
  "(branch_id_try_from_u32 v = Some b \<longleftrightarrow> u32_of_branch_id b = v) \<and>
   (network_upgrade b = Some nu \<longleftrightarrow> branch_id nu = b)"
proof
  show "branch_id_try_from_u32 v = Some b \<longleftrightarrow> u32_of_branch_id b = v"
    by (cases b) (auto simp: branch_id_try_from_u32_def)
  show "network_upgrade b = Some nu \<longleftrightarrow> branch_id nu = b"
    by (cases b; cases nu) simp_all
qed

end
