(* ===== verification/Scanning.thy ===== *)
theory Scanning
  imports Consensus
begin

text \<open>
  Model of \<open>zcash_client_backend/src/data_api/scanning.rs\<close>: scan priorities, in the order the
  enum declares them, and scan ranges. \<open>None\<close> of \<open>scan_range_from_parts\<close> is its failed assertion.
\<close>

section \<open>Priorities\<close>

datatype ScanPriority = Ignored | Scanned | Historic | OpenAdjacent | FoundNote | ChainTip | Verify

fun scan_priority_rank :: "ScanPriority \<Rightarrow> nat" where
  "scan_priority_rank Ignored = 0"
| "scan_priority_rank Scanned = 1"
| "scan_priority_rank Historic = 2"
| "scan_priority_rank OpenAdjacent = 3"
| "scan_priority_rank FoundNote = 4"
| "scan_priority_rank ChainTip = 5"
| "scan_priority_rank Verify = 6"

lemma scan_priority_rank_inj: "scan_priority_rank p = scan_priority_rank q \<longleftrightarrow> p = q"
  by (cases p; cases q; simp)

instantiation ScanPriority :: linorder
begin

definition less_eq_ScanPriority :: "ScanPriority \<Rightarrow> ScanPriority \<Rightarrow> bool" where
  "p \<le> q \<longleftrightarrow> scan_priority_rank p \<le> scan_priority_rank q"

definition less_ScanPriority :: "ScanPriority \<Rightarrow> ScanPriority \<Rightarrow> bool" where
  "p < q \<longleftrightarrow> scan_priority_rank p < scan_priority_rank q"

instance
  by standard (auto simp: less_eq_ScanPriority_def less_ScanPriority_def scan_priority_rank_inj)

end

section \<open>Ranges\<close>

record 'a Range =
  range_start :: 'a
  range_end :: 'a

definition mk_range :: "'a \<Rightarrow> 'a \<Rightarrow> 'a Range" where
  "mk_range a b = \<lparr>range_start = a, range_end = b\<rparr>"

record ScanRange =
  block_range :: "BlockHeight Range"
  priority :: ScanPriority

abbreviation sr_start :: "ScanRange \<Rightarrow> BlockHeight" where
  "sr_start r \<equiv> range_start (block_range r)"

abbreviation sr_end :: "ScanRange \<Rightarrow> BlockHeight" where
  "sr_end r \<equiv> range_end (block_range r)"

definition mk_scan_range :: "BlockHeight \<Rightarrow> BlockHeight \<Rightarrow> ScanPriority \<Rightarrow> ScanRange" where
  "mk_scan_range a b p = \<lparr>block_range = mk_range a b, priority = p\<rparr>"

definition scan_range_from_parts :: "BlockHeight Range \<Rightarrow> ScanPriority \<Rightarrow> ScanRange option" where
  "scan_range_from_parts r p =
     (if range_start r \<le> range_end r then Some \<lparr>block_range = r, priority = p\<rparr> else None)"

definition scan_range_is_empty :: "ScanRange \<Rightarrow> bool" where
  "scan_range_is_empty r \<longleftrightarrow> \<not> sr_start r < sr_end r"

text \<open>\<open>usize::try_from\<close> of a \<open>u32\<close> never fails on the targets of the model.\<close>

definition scan_range_len :: "ScanRange \<Rightarrow> nat" where
  "scan_range_len r = unat (sr_end r - sr_start r)"

definition truncate_start :: "ScanRange \<Rightarrow> BlockHeight \<Rightarrow> ScanRange option" where
  "truncate_start r block_height =
     (if sr_end r \<le> block_height \<or> scan_range_is_empty r then None
      else Some (mk_scan_range (max (sr_start r) block_height) (sr_end r) (priority r)))"

definition truncate_end :: "ScanRange \<Rightarrow> BlockHeight \<Rightarrow> ScanRange option" where
  "truncate_end r block_height =
     (if block_height \<le> sr_start r \<or> scan_range_is_empty r then None
      else Some (mk_scan_range (sr_start r) (min (sr_end r) block_height) (priority r)))"

definition split_at :: "ScanRange \<Rightarrow> BlockHeight \<Rightarrow> (ScanRange \<times> ScanRange) option" where
  "split_at r p =
     (if sr_start r < p \<and> p < sr_end r
      then Some (mk_scan_range (sr_start r) p (priority r), mk_scan_range p (sr_end r) (priority r))
      else None)"

section \<open>The blocks of a range\<close>

definition blocks :: "ScanRange \<Rightarrow> BlockHeight set" where
  "blocks r = {sr_start r..<sr_end r}"

lemma mk_scan_range_sel [simp]:
  "sr_start (mk_scan_range a b p) = a" "sr_end (mk_scan_range a b p) = b"
  "priority (mk_scan_range a b p) = p"
  by (simp_all add: mk_scan_range_def mk_range_def)

lemma mk_range_sel [simp]: "range_start (mk_range a b) = a" "range_end (mk_range a b) = b"
  by (simp_all add: mk_range_def)

lemma mk_range_surj [simp]: "mk_range (range_start r) (range_end r) = r"
  by (simp add: mk_range_def)

lemma scan_range_eqI: "sr_start r = sr_start q \<Longrightarrow> sr_end r = sr_end q \<Longrightarrow> priority r = priority q \<Longrightarrow> r = q"
  by (cases r; cases q) (simp add: Range.equality)

lemma mk_scan_range_eta [simp]: "mk_scan_range (sr_start r) (sr_end r) (priority r) = r"
  by (rule scan_range_eqI) simp_all

lemma scan_range_from_parts_ok [simp]:
  "range_start r \<le> range_end r \<Longrightarrow> scan_range_from_parts r p = Some (mk_scan_range (range_start r) (range_end r) p)"
  by (simp add: scan_range_from_parts_def mk_scan_range_def mk_range_def)

lemma is_empty_blocks: "scan_range_is_empty r \<longleftrightarrow> blocks r = {}"
  by (auto simp: scan_range_is_empty_def blocks_def)

text \<open>
  The cutting operations of a scan range are set operations on its blocks: \<open>truncate_start\<close> and
  \<open>truncate_end\<close> keep exactly the blocks from, respectively below, the height and return \<open>None\<close>
  when no block is left; \<open>split_at\<close> partitions the blocks at an interior height into two non-empty
  ranges and refuses any other height; priorities are kept and \<open>len\<close> counts the blocks.
\<close>

theorem scan_range_cuts:
  "(case truncate_start r h of None \<Rightarrow> blocks r \<inter> {h..} = {}
    | Some q \<Rightarrow> blocks q = blocks r \<inter> {h..} \<and> blocks q \<noteq> {} \<and> priority q = priority r) \<and>
   (case truncate_end r h of None \<Rightarrow> blocks r \<inter> {..<h} = {}
    | Some q \<Rightarrow> blocks q = blocks r \<inter> {..<h} \<and> blocks q \<noteq> {} \<and> priority q = priority r) \<and>
   (case split_at r h of None \<Rightarrow> blocks r \<inter> {..<h} = {} \<or> blocks r \<inter> {h..} = {}
    | Some (q1, q2) \<Rightarrow> blocks q1 = blocks r \<inter> {..<h} \<and> blocks q2 = blocks r \<inter> {h..} \<and>
        blocks q1 \<noteq> {} \<and> blocks q2 \<noteq> {} \<and> sr_end q1 = h \<and> sr_start q2 = h \<and>
        priority q1 = priority r \<and> priority q2 = priority r) \<and>
   (scan_range_from_parts (block_range r) p = None \<or> scan_range_len r = card (blocks r))"
proof (intro conjI)
  have len: "unat (b - a) = card {a..<b}" if "a \<le> b" for a b :: u32
  proof -
    have "unat ` {a..<b} = {unat a..<unat b}"
    proof (intro equalityI subsetI)
      fix n assume n: "n \<in> {unat a..<unat b}"
      moreover have "unat b < 2 ^ 32" using unsigned_less [of b, where ?'a = nat] by simp
      ultimately have "unat (of_nat n :: u32) = n" by (simp add: unat_of_nat take_bit_nat_eq_self)
      with n show "n \<in> unat ` {a..<b}"
        by (intro image_eqI [of _ _ "of_nat n"]) (auto simp: word_le_nat_alt word_less_nat_alt)
    qed (auto simp: word_le_nat_alt word_less_nat_alt)
    moreover have "inj_on unat {a..<b}" by (simp add: inj_on_def word_unat_eq_iff)
    ultimately have "card {a..<b} = card {unat a..<unat b}" by (metis card_image)
    with that show ?thesis by (simp add: unat_sub word_le_nat_alt)
  qed
  show "scan_range_from_parts (block_range r) p = None \<or> scan_range_len r = card (blocks r)"
    by (auto simp: scan_range_from_parts_def scan_range_len_def blocks_def len)
qed (auto simp: truncate_start_def truncate_end_def split_at_def blocks_def scan_range_is_empty_def
      not_less max_def min_def split: option.splits)

end
