(* ===== verification/SpanningTree.thy ===== *)
theory SpanningTree
  imports Scanning
begin

text \<open>
  Model of \<open>zcash_client_backend/src/data_api/scanning/spanning_tree.rs\<close>: the tree that merges
  suggested scan ranges into the scan queue. \<open>None\<close> is a panic: a failed assertion, the
  \<open>expect\<close> of \<open>from_split\<close> or an \<open>unreachable!\<close>. The three mutually recursive functions of the
  insertion keep their names; \<open>join_nonoverlapping\<close> calls itself on its own results, and its
  termination proof uses that those meet without a gap.
\<close>

section \<open>Joining ranges\<close>

datatype InsertOn = InsertLeft | InsertRight

record Insert =
  on :: InsertOn
  force_rescan :: bool

definition insert_left :: "bool \<Rightarrow> Insert" where
  "insert_left force = \<lparr>on = InsertLeft, force_rescan = force\<rparr>"

definition insert_right :: "bool \<Rightarrow> Insert" where
  "insert_right force = \<lparr>on = InsertRight, force_rescan = force\<rparr>"

definition insert_not :: "Insert \<Rightarrow> Insert" where
  "insert_not i = \<lparr>on = (case on i of InsertLeft \<Rightarrow> InsertRight | InsertRight \<Rightarrow> InsertLeft),
     force_rescan = force_rescan i\<rparr>"

datatype Dominance = DomLeft | DomRight | DomEqual

definition dominance_of_insert :: "Insert \<Rightarrow> Dominance" where
  "dominance_of_insert i = (case on i of InsertLeft \<Rightarrow> DomLeft | InsertRight \<Rightarrow> DomRight)"

definition dominance :: "ScanPriority \<Rightarrow> ScanPriority \<Rightarrow> Insert \<Rightarrow> Dominance" where
  "dominance current inserted ins =
     (if current = inserted then DomEqual
      else if inserted = Verify \<or> inserted = Scanned then dominance_of_insert ins
      else if current = Scanned \<and> \<not> force_rescan ins then dominance_of_insert (insert_not ins)
      else if current < inserted then dominance_of_insert ins
      else dominance_of_insert (insert_not ins))"

datatype RangeOrdering = LeftFirstDisjoint | LeftFirstOverlap | LeftContained | EqualRange
  | RightContained | RightFirstOverlap | RightFirstDisjoint

definition range_cmp :: "'a::linorder Range \<Rightarrow> 'a Range \<Rightarrow> RangeOrdering option" where
  "range_cmp a b =
     (if \<not> (range_start a \<le> range_end a \<and> range_start b \<le> range_end b) then None
      else Some
       (if range_end a \<le> range_start b then LeftFirstDisjoint
        else if range_end b \<le> range_start a then RightFirstDisjoint
        else if range_start a < range_start b
          then (if range_end a < range_end b then LeftFirstOverlap else RightContained)
        else if range_start a = range_start b
          then (if range_end a < range_end b then LeftContained
                else if range_end a = range_end b then EqualRange else RightContained)
        else (if range_end a \<le> range_end b then LeftContained else RightFirstOverlap)))"

datatype Joined = One ScanRange | Two ScanRange ScanRange | Three ScanRange ScanRange ScanRange

function join_nonoverlapping :: "ScanRange \<Rightarrow> ScanRange \<Rightarrow> Joined option" where
  "join_nonoverlapping left right =
     (if \<not> sr_end left \<le> sr_start right then None
      else if sr_end left = sr_start right then
        (if priority left = priority right then
           map_option One (scan_range_from_parts (mk_range (sr_start left) (sr_end right)) (priority left))
         else Some (Two left right))
      else
        Option.bind (scan_range_from_parts (mk_range (sr_end left) (sr_start right)) Historic) (\<lambda>gap.
          case join_nonoverlapping left gap of
            Some (One merged) \<Rightarrow> join_nonoverlapping merged right
          | Some (Two left' gap') \<Rightarrow>
              (case join_nonoverlapping gap' right of
                 Some (One merged) \<Rightarrow> Some (Two left' merged)
               | Some (Two gap'' right') \<Rightarrow> Some (Three left' gap'' right')
               | _ \<Rightarrow> None)
          | _ \<Rightarrow> None))"
  by pat_completeness auto

text \<open>Ranges that meet are joined without a recursive call, and the result ends where the right one does.\<close>

lemma join_meet_ends:
  assumes dom: "join_nonoverlapping_dom (left, gap)" and meet: "sr_end left = sr_start gap"
  shows "join_nonoverlapping left gap = Some (One merged) \<Longrightarrow> sr_end merged = sr_end gap"
    and "join_nonoverlapping left gap = Some (Two l' g') \<Longrightarrow> g' = gap"
  using meet by (auto simp: join_nonoverlapping.psimps [OF dom] scan_range_from_parts_def split: if_splits)

lemma scan_range_from_parts_Some:
  "scan_range_from_parts r p = Some q \<longleftrightarrow> range_start r \<le> range_end r \<and> q = mk_scan_range (range_start r) (range_end r) p"
  by (auto simp: scan_range_from_parts_def mk_scan_range_def)

termination join_nonoverlapping
proof (relation "measure (\<lambda>(left, right). if sr_end left = sr_start right then 0 else 1)")
  fix left right gap x2 merged
  assume "\<not> \<not> sr_end left \<le> sr_start right" "sr_end left \<noteq> sr_start right"
    "scan_range_from_parts (mk_range (sr_end left) (sr_start right)) Historic = Some gap"
    "join_nonoverlapping_dom (left, gap)" "join_nonoverlapping left gap = Some x2" "x2 = One merged"
  then show "((merged, right), left, right) \<in> measure (\<lambda>(left, right). if sr_end left = sr_start right then 0 else 1)"
    by (auto simp: scan_range_from_parts_Some dest!: join_meet_ends(1) [rotated 2])
next
  fix left right gap x2 left' gap'
  assume "\<not> \<not> sr_end left \<le> sr_start right" "sr_end left \<noteq> sr_start right"
    "scan_range_from_parts (mk_range (sr_end left) (sr_start right)) Historic = Some gap"
    "join_nonoverlapping_dom (left, gap)" "join_nonoverlapping left gap = Some x2" "x2 = Two left' gap'"
  then show "((gap', right), left, right) \<in> measure (\<lambda>(left, right). if sr_end left = sr_start right then 0 else 1)"
    by (auto simp: scan_range_from_parts_Some dest!: join_meet_ends(2) [rotated 2])
qed (auto simp: scan_range_from_parts_Some)

declare join_nonoverlapping.simps [simp del]

definition join_overlapping :: "ScanRange \<Rightarrow> ScanRange \<Rightarrow> Insert \<Rightarrow> Joined option" where
  "join_overlapping left right ins =
     (if \<not> (sr_start left \<le> sr_start right \<and> sr_start right < sr_end left) then None
      else
        let dom = (case on ins of
            InsertLeft \<Rightarrow> dominance (priority right) (priority left) ins
          | InsertRight \<Rightarrow> dominance (priority left) (priority right) ins)
        in case dom of
          DomLeft \<Rightarrow>
            (case truncate_start right (sr_end left) of
               Some right' \<Rightarrow> Some (Two left right')
             | None \<Rightarrow> Some (One left))
        | DomEqual \<Rightarrow>
            map_option One
              (scan_range_from_parts (mk_range (sr_start left) (max (sr_end left) (sr_end right))) (priority left))
        | DomRight \<Rightarrow>
            (case (truncate_end left (sr_start right), truncate_start left (sr_end right)) of
               (Some before, Some after) \<Rightarrow> Some (Three before right after)
             | (Some before, None) \<Rightarrow> Some (Two before right)
             | (None, Some after) \<Rightarrow> Some (Two right after)
             | (None, None) \<Rightarrow> Some (One right)))"

definition range_insert :: "ScanRange \<Rightarrow> ScanRange \<Rightarrow> bool \<Rightarrow> Joined option" where
  "range_insert current to_insert force_rescans =
     (case range_cmp (block_range to_insert) (block_range current) of
        None \<Rightarrow> None
      | Some LeftFirstDisjoint \<Rightarrow> join_nonoverlapping to_insert current
      | Some LeftFirstOverlap \<Rightarrow> join_overlapping to_insert current (insert_left force_rescans)
      | Some RightContained \<Rightarrow> join_overlapping to_insert current (insert_left force_rescans)
      | Some EqualRange \<Rightarrow>
          map_option One (scan_range_from_parts (block_range to_insert)
            (case dominance (priority current) (priority to_insert) (insert_right force_rescans) of
               DomLeft \<Rightarrow> priority current
             | DomEqual \<Rightarrow> priority current
             | DomRight \<Rightarrow> priority to_insert))
      | Some RightFirstOverlap \<Rightarrow> join_overlapping current to_insert (insert_right force_rescans)
      | Some LeftContained \<Rightarrow> join_overlapping current to_insert (insert_right force_rescans)
      | Some RightFirstDisjoint \<Rightarrow> join_nonoverlapping current to_insert)"

section \<open>The tree\<close>

datatype SpanningTree = Leaf ScanRange | Parent "BlockHeight Range" SpanningTree SpanningTree

fun span :: "SpanningTree \<Rightarrow> BlockHeight Range" where
  "span (Leaf entry) = block_range entry"
| "span (Parent sp left right) = sp"

fun from_joined :: "Joined \<Rightarrow> SpanningTree" where
  "from_joined (One entry) = Leaf entry"
| "from_joined (Two left right) = Parent (mk_range (sr_start left) (sr_end right)) (Leaf left) (Leaf right)"
| "from_joined (Three left mid right) =
     Parent (mk_range (sr_start left) (sr_end right)) (Leaf left)
       (Parent (mk_range (sr_start mid) (sr_end right)) (Leaf mid) (Leaf right))"

function tree_insert :: "SpanningTree \<Rightarrow> ScanRange \<Rightarrow> bool \<Rightarrow> SpanningTree option"
  and from_insert :: "SpanningTree \<Rightarrow> SpanningTree \<Rightarrow> ScanRange \<Rightarrow> Insert \<Rightarrow> SpanningTree option"
  and from_split :: "SpanningTree \<Rightarrow> SpanningTree \<Rightarrow> ScanRange \<Rightarrow> BlockHeight \<Rightarrow> bool \<Rightarrow> SpanningTree option"
  where
  "tree_insert (Leaf cur) to_insert force_rescans =
     map_option from_joined (range_insert cur to_insert force_rescans)"
| "tree_insert (Parent sp left right) to_insert force_rescans =
     (let split_point = range_end (span left) in
      case range_cmp sp (block_range to_insert) of
        None \<Rightarrow> None
      | Some LeftFirstDisjoint \<Rightarrow> from_insert left right to_insert (insert_right force_rescans)
      | Some LeftFirstOverlap \<Rightarrow>
          if sr_start to_insert < split_point then from_split left right to_insert split_point force_rescans
          else from_insert left right to_insert (insert_right force_rescans)
      | Some RightContained \<Rightarrow>
          if split_point \<le> sr_start to_insert then from_insert left right to_insert (insert_right force_rescans)
          else if sr_end to_insert \<le> split_point then from_insert left right to_insert (insert_left force_rescans)
          else from_split left right to_insert split_point force_rescans
      | Some EqualRange \<Rightarrow>
          if sr_start to_insert < split_point then from_split left right to_insert split_point force_rescans
          else tree_insert right to_insert force_rescans
      | Some LeftContained \<Rightarrow> from_split left right to_insert split_point force_rescans
      | Some RightFirstOverlap \<Rightarrow>
          if split_point < sr_end to_insert then from_split left right to_insert split_point force_rescans
          else from_insert left right to_insert (insert_left force_rescans)
      | Some RightFirstDisjoint \<Rightarrow> from_insert left right to_insert (insert_left force_rescans))"
| "from_insert left right to_insert ins =
     Option.bind
       (case on ins of
          InsertLeft \<Rightarrow> map_option (\<lambda>left'. (left', right)) (tree_insert left to_insert (force_rescan ins))
        | InsertRight \<Rightarrow> map_option (\<lambda>right'. (left, right')) (tree_insert right to_insert (force_rescan ins)))
       (\<lambda>(left', right').
          Some (Parent (mk_range (range_start (span left')) (range_end (span right'))) left' right'))"
| "from_split left right to_insert split_point force_rescans =
     (case split_at to_insert split_point of
        None \<Rightarrow> None
      | Some (l_insert, r_insert) \<Rightarrow>
          Option.bind (tree_insert left l_insert force_rescans) (\<lambda>left'.
          Option.bind (tree_insert right r_insert force_rescans) (\<lambda>right'.
            Some (Parent (mk_range (range_start (span left')) (range_end (span right'))) left' right'))))"
  by pat_completeness auto
termination
  by (relation "measure (\<lambda>x. case x of
      Inl (t, _, _) \<Rightarrow> 2 * size t
    | Inr (Inl (l, r, _, _)) \<Rightarrow> 2 * (size l + size r) + 1
    | Inr (Inr (l, r, _, _, _)) \<Rightarrow> 2 * (size l + size r) + 1)") auto

text \<open>
  \<open>into_vec\<close>: \<open>go\<close> keeps the vector built so far, \<open>acc.pop()\<close> being its last element.
\<close>

fun into_vec_go :: "ScanRange list \<Rightarrow> SpanningTree \<Rightarrow> ScanRange list option" where
  "into_vec_go acc (Leaf entry) =
     (if scan_range_is_empty entry then Some acc
      else if acc = [] then Some [entry]
      else case join_nonoverlapping (last acc) entry of
        Some (One merged) \<Rightarrow> Some (butlast acc @ [merged])
      | Some (Two l r) \<Rightarrow> Some (butlast acc @ [l, r])
      | _ \<Rightarrow> None)"
| "into_vec_go acc (Parent sp left right) =
     Option.bind (into_vec_go acc left) (\<lambda>acc'. into_vec_go acc' right)"

definition into_vec :: "SpanningTree \<Rightarrow> ScanRange list option" where
  "into_vec t = into_vec_go [] t"

section \<open>What a tree means\<close>

text \<open>
  A tree assigns priorities to block heights. \<open>merge_priority\<close> is the documented dominance rule;
  \<open>inserted_at\<close> is the assignment an insertion should give, gaps included.
\<close>

definition merge_priority :: "bool \<Rightarrow> ScanPriority \<Rightarrow> ScanPriority \<Rightarrow> ScanPriority" where
  "merge_priority force current inserted =
     (if inserted = Verify \<or> inserted = Scanned then inserted
      else if current = Scanned \<and> \<not> force then Scanned
      else max current inserted)"

primrec tree_at :: "SpanningTree \<Rightarrow> BlockHeight \<Rightarrow> ScanPriority option" where
  "tree_at (Leaf r) h = (if h \<in> blocks r then Some (priority r) else None)"
| "tree_at (Parent sp left right) h =
     (case tree_at left h of Some p \<Rightarrow> Some p | None \<Rightarrow> tree_at right h)"

primrec tree_valid :: "SpanningTree \<Rightarrow> bool" where
  "tree_valid (Leaf r) \<longleftrightarrow> sr_start r < sr_end r"
| "tree_valid (Parent sp left right) \<longleftrightarrow> tree_valid left \<and> tree_valid right \<and>
     range_end (span left) = range_start (span right) \<and>
     sp = mk_range (range_start (span left)) (range_end (span right))"

definition inserted_at ::
    "bool \<Rightarrow> (BlockHeight \<Rightarrow> ScanPriority option) \<Rightarrow> BlockHeight Range \<Rightarrow> ScanRange \<Rightarrow> BlockHeight
     \<Rightarrow> ScanPriority option" where
  "inserted_at force m sp r h =
     (if h \<in> blocks r then
        Some (case m h of None \<Rightarrow> priority r | Some p \<Rightarrow> merge_priority force p (priority r))
      else if m h \<noteq> None then m h
      else if min (range_start sp) (sr_start r) \<le> h \<and> h < max (range_end sp) (sr_end r) then Some Historic
      else None)"

definition hull :: "BlockHeight Range \<Rightarrow> ScanRange \<Rightarrow> BlockHeight Range" where
  "hull sp r = mk_range (min (range_start sp) (sr_start r)) (max (range_end sp) (sr_end r))"

lemma tree_valid_span: "tree_valid t \<Longrightarrow> range_start (span t) < range_end (span t)"
  by (induction t) (auto dest: less_trans)

lemma tree_at_None: "tree_valid t \<Longrightarrow> tree_at t h = None \<longleftrightarrow> \<not> (range_start (span t) \<le> h \<and> h < range_end (span t))"
proof (induction t)
  case (Parent sp left right)
  then have lt: "range_start (span left) < range_end (span left)" "range_start (span right) < range_end (span right)"
    using tree_valid_span [of left] tree_valid_span [of right] by simp_all
  from Parent have "tree_at left h = None \<longleftrightarrow> \<not> (range_start (span left) \<le> h \<and> h < range_end (span left))"
    and "tree_at right h = None \<longleftrightarrow> \<not> (range_start (span right) \<le> h \<and> h < range_end (span right))"
    and "range_end (span left) = range_start (span right)"
    and "sp = mk_range (range_start (span left)) (range_end (span right))" by simp_all
  with lt show ?case
    by (cases "tree_at left h"; cases "tree_at right h") auto
qed (auto simp: blocks_def)

lemmas dominance_simps = dominance_def dominance_of_insert_def insert_not_def merge_priority_def
  insert_left_def insert_right_def

lemma dominance_cases:
  "dominance current inserted i = DomEqual \<longleftrightarrow> current = inserted"
  "dominance current inserted i = DomLeft \<Longrightarrow> merge_priority (force_rescan i) current inserted =
     (case on i of InsertLeft \<Rightarrow> inserted | InsertRight \<Rightarrow> current)"
  "dominance current inserted i = DomRight \<Longrightarrow> merge_priority (force_rescan i) current inserted =
     (case on i of InsertLeft \<Rightarrow> current | InsertRight \<Rightarrow> inserted)"
  by (cases "on i"; auto simp: dominance_simps max_def not_less split: if_splits)+

lemma merge_same: "merge_priority force p p = p"
  by (simp add: merge_priority_def)

section \<open>Joining\<close>

lemma join_meet:
  "sr_start l < sr_end l \<Longrightarrow> sr_end l = sr_start r \<Longrightarrow> sr_start r < sr_end r \<Longrightarrow>
   join_nonoverlapping l r =
     Some (if priority l = priority r then One (mk_scan_range (sr_start l) (sr_end r) (priority l)) else Two l r)"
  by (simp add: join_nonoverlapping.simps [of l r])

lemma join_gap:
  assumes "sr_start l < sr_end l" "sr_end l < sr_start r" "sr_start r < sr_end r"
  defines "g \<equiv> mk_scan_range (sr_end l) (sr_start r) Historic"
  shows "join_nonoverlapping l r = Some
    (if priority l = Historic then
       (if priority r = Historic then One (mk_scan_range (sr_start l) (sr_end r) Historic)
        else Two (mk_scan_range (sr_start l) (sr_start r) Historic) r)
     else if priority r = Historic then Two l (mk_scan_range (sr_end l) (sr_end r) Historic)
     else Three l g r)"
  using assms(1,3) less_trans [OF assms(1,2)] less_imp_le [OF assms(2)] less_imp_neq [OF assms(2)] g_def
  by (simp add: join_nonoverlapping.simps [of l r] join_meet)

text \<open>The results of the two joins.\<close>

definition disjoint_joined :: "ScanRange \<Rightarrow> ScanRange \<Rightarrow> Joined \<Rightarrow> bool" where
  "disjoint_joined l r j \<longleftrightarrow> tree_valid (from_joined j) \<and>
    span (from_joined j) = mk_range (sr_start l) (sr_end r) \<and>
    (\<forall>h. tree_at (from_joined j) h = (if h \<in> blocks l then Some (priority l)
       else if h \<in> blocks r then Some (priority r)
       else if sr_start l \<le> h \<and> h < sr_end r then Some Historic else None))"

definition overlap_joined :: "ScanRange \<Rightarrow> ScanRange \<Rightarrow> Insert \<Rightarrow> Joined \<Rightarrow> bool" where
  "overlap_joined l r ins j \<longleftrightarrow> tree_valid (from_joined j) \<and>
    span (from_joined j) = mk_range (sr_start l) (max (sr_end l) (sr_end r)) \<and>
    (\<forall>h. tree_at (from_joined j) h =
      (if h \<in> blocks l \<and> h \<in> blocks r then
         Some (case on ins of
           InsertLeft \<Rightarrow> merge_priority (force_rescan ins) (priority r) (priority l)
         | InsertRight \<Rightarrow> merge_priority (force_rescan ins) (priority l) (priority r))
       else if h \<in> blocks l then Some (priority l)
       else if h \<in> blocks r then Some (priority r) else None))"

lemma join_nonoverlapping_spec:
  assumes "sr_start l < sr_end l" "sr_end l \<le> sr_start r" "sr_start r < sr_end r"
  shows "\<exists>j. join_nonoverlapping l r = Some j \<and> disjoint_joined l r j"
proof (cases "sr_end l = sr_start r")
  case True
  then show ?thesis using assms
    by (auto simp: disjoint_joined_def join_meet blocks_def)
next
  case False
  with assms(2) have "sr_end l < sr_start r" by simp
  with assms show ?thesis
    by (auto simp: disjoint_joined_def join_gap blocks_def)
qed

lemma join_overlapping_spec:
  assumes "sr_start l \<le> sr_start r" "sr_start r < sr_end l" "sr_start r < sr_end r"
  shows "\<exists>j. join_overlapping l r ins = Some j \<and> overlap_joined l r ins j"
proof -
  define dom where "dom = (case on ins of
      InsertLeft \<Rightarrow> dominance (priority r) (priority l) ins
    | InsertRight \<Rightarrow> dominance (priority l) (priority r) ins)"
  have merged: "(case on ins of
      InsertLeft \<Rightarrow> merge_priority (force_rescan ins) (priority r) (priority l)
    | InsertRight \<Rightarrow> merge_priority (force_rescan ins) (priority l) (priority r)) =
    (case dom of DomRight \<Rightarrow> priority r | _ \<Rightarrow> priority l)"
    and eq: "dom = DomEqual \<Longrightarrow> priority l = priority r"
    using dominance_cases [of "priority r" "priority l" ins] dominance_cases [of "priority l" "priority r" ins]
    by (auto simp: dom_def merge_same split: InsertOn.splits Dominance.splits)
  show ?thesis
  proof (cases dom)
    case DomLeft
    then show ?thesis using assms
      by (auto simp: overlap_joined_def join_overlapping_def merged dom_def [symmetric] truncate_start_def blocks_def
          scan_range_is_empty_def max_def)
  next
    case DomEqual
    then show ?thesis using assms eq
      by (auto simp: overlap_joined_def join_overlapping_def merged dom_def [symmetric] blocks_def max_def)
  next
    case DomRight
    then show ?thesis using assms
      by (auto simp: overlap_joined_def join_overlapping_def merged dom_def [symmetric] truncate_start_def truncate_end_def blocks_def
          scan_range_is_empty_def max_def min_def)
  qed
qed

section \<open>Insertion\<close>

text \<open>What inserting a non-empty range into a valid tree gives.\<close>

definition insert_result ::
    "bool \<Rightarrow> (BlockHeight \<Rightarrow> ScanPriority option) \<Rightarrow> BlockHeight Range \<Rightarrow> ScanRange \<Rightarrow> SpanningTree \<Rightarrow> bool" where
  "insert_result force m sp r t' \<longleftrightarrow> tree_valid t' \<and> span t' = hull sp r \<and>
     (\<forall>h. tree_at t' h = inserted_at force m sp r h)"

lemma range_cmp_valid:
  "range_start a < range_end a \<Longrightarrow> range_start b < range_end b \<Longrightarrow> range_cmp a b = Some
    (if range_end a \<le> range_start b then LeftFirstDisjoint
     else if range_end b \<le> range_start a then RightFirstDisjoint
     else if range_start a < range_start b
       then (if range_end a < range_end b then LeftFirstOverlap else RightContained)
     else if range_start a = range_start b
       then (if range_end a < range_end b then LeftContained
             else if range_end a = range_end b then EqualRange else RightContained)
     else (if range_end a \<le> range_end b then LeftContained else RightFirstOverlap))"
  by (simp add: range_cmp_def less_imp_le)

lemma overlap_result:
  assumes "overlap_joined l q ins j"
    and "sr_start l \<le> sr_start q" "sr_start q < sr_end l"
  shows "ins = insert_left force \<Longrightarrow> insert_result force (tree_at (Leaf q)) (block_range q) l (from_joined j)"
    and "ins = insert_right force \<Longrightarrow> insert_result force (tree_at (Leaf l)) (block_range l) q (from_joined j)"
proof -
  have span: "hull (block_range q) l = mk_range (sr_start l) (max (sr_end l) (sr_end q))"
    "hull (block_range l) q = mk_range (sr_start l) (max (sr_end l) (sr_end q))"
    using assms(2) by (simp_all add: hull_def min_absorb1 min_absorb2 max.commute)
  have gap: "h \<in> blocks l \<or> h \<in> blocks q" if "sr_start l \<le> h" "h < sr_end l \<or> h < sr_end q" for h
    using that assms(2,3) by (auto simp: blocks_def not_less intro: order_trans less_imp_le)
  show "ins = insert_left force \<Longrightarrow> insert_result force (tree_at (Leaf q)) (block_range q) l (from_joined j)"
    using assms(1) gap unfolding insert_result_def span overlap_joined_def
    by (auto simp: inserted_at_def insert_left_def min_absorb2 [OF assms(2)] less_max_iff_disj)
  show "ins = insert_right force \<Longrightarrow> insert_result force (tree_at (Leaf l)) (block_range l) q (from_joined j)"
    using assms(1) gap unfolding insert_result_def span overlap_joined_def
    by (auto simp: inserted_at_def insert_right_def min_absorb1 [OF assms(2)] less_max_iff_disj)
qed

lemma disjoint_result:
  assumes "disjoint_joined l q j"
    and "sr_start l < sr_end l" "sr_end l \<le> sr_start q" "sr_start q < sr_end q"
  shows "insert_result force (tree_at (Leaf q)) (block_range q) l (from_joined j)"
    and "insert_result force (tree_at (Leaf l)) (block_range l) q (from_joined j)"
proof -
  have le: "sr_start l \<le> sr_start q" "sr_end l \<le> sr_end q" and disj: "h \<in> blocks l \<Longrightarrow> h \<notin> blocks q" for h
    using assms(2-4) by (auto simp: blocks_def)
  then show "insert_result force (tree_at (Leaf q)) (block_range q) l (from_joined j)"
    "insert_result force (tree_at (Leaf l)) (block_range l) q (from_joined j)"
    using assms(1)
    by (auto simp: disjoint_joined_def insert_result_def inserted_at_def hull_def min_absorb1 min_absorb2 max_absorb1 max_absorb2)
qed

lemma range_insert_spec:
  assumes cur: "sr_start cur < sr_end cur" and r: "sr_start r < sr_end r"
  shows "\<exists>j. range_insert cur r force = Some j \<and>
    insert_result force (tree_at (Leaf cur)) (block_range cur) r (from_joined j)"
proof -
  consider (before) "sr_end r \<le> sr_start cur" | (after) "sr_end cur \<le> sr_start r"
    | (left) "sr_start cur < sr_end r" "sr_start r \<le> sr_start cur"
        "sr_start r < sr_start cur \<or> sr_end cur < sr_end r"
    | (equal) "sr_start r = sr_start cur" "sr_end r = sr_end cur"
    | (right) "sr_start r < sr_end cur" "sr_start cur \<le> sr_start r"
        "sr_start cur < sr_start r \<or> sr_end r < sr_end cur"
    using cur r by fastforce
  then show ?thesis
  proof cases
    case before
    then have "range_insert cur r force = join_nonoverlapping r cur"
      by (simp add: range_insert_def range_cmp_valid [OF r cur])
    with join_nonoverlapping_spec [OF r before cur] disjoint_result(1) [OF _ r before cur, where force = force] show ?thesis by auto
  next
    case after
    then have "\<not> sr_end r \<le> sr_start cur" using cur r by order
    with after have "range_insert cur r force = join_nonoverlapping cur r"
      by (simp add: range_insert_def range_cmp_valid [OF r cur])
    with join_nonoverlapping_spec [OF cur after r] disjoint_result(2) [OF _ cur after r, where force = force] show ?thesis by auto
  next
    case left
    then have "\<not> sr_end r \<le> sr_start cur" "\<not> sr_end cur \<le> sr_start r" using cur r by auto
    with left have "range_insert cur r force = join_overlapping r cur (insert_left force)"
      by (auto simp: range_insert_def range_cmp_valid [OF r cur] not_less)
    with join_overlapping_spec [OF left(2,1) cur, of "insert_left force"]
      overlap_result(1) [OF _ left(2,1) refl, where force = force] show ?thesis by auto
  next
    case equal
    let ?p = "merge_priority force (priority cur) (priority r)"
    have "(case dominance (priority cur) (priority r) (insert_right force) of
        DomLeft \<Rightarrow> priority cur | DomEqual \<Rightarrow> priority cur | DomRight \<Rightarrow> priority r) = ?p"
      using dominance_cases [of "priority cur" "priority r" "insert_right force"]
      by (auto simp: insert_right_def merge_same split: Dominance.splits)
    with equal have "range_insert cur r force = Some (One (mk_scan_range (sr_start r) (sr_end r) ?p))"
      using r by (auto simp: range_insert_def range_cmp_valid [OF r cur])
    with equal r show ?thesis
      by (auto simp: insert_result_def inserted_at_def hull_def blocks_def)
  next
    case right
    then have "\<not> sr_end r \<le> sr_start cur" "\<not> sr_end cur \<le> sr_start r" using cur r by auto
    with right have "range_insert cur r force = join_overlapping cur r (insert_right force)"
      by (auto simp: range_insert_def range_cmp_valid [OF r cur] not_less)
    with join_overlapping_spec [OF right(2,1) r, of "insert_right force"]
      overlap_result(2) [OF _ right(2,1) refl, where force = force] show ?thesis by auto
  qed
qed

section \<open>Insertion into a tree\<close>

lemma insert_result_leaf:
  assumes "sr_start cur < sr_end cur" "sr_start r < sr_end r"
  shows "\<exists>t'. tree_insert (Leaf cur) r force = Some t' \<and>
    insert_result force (tree_at (Leaf cur)) (span (Leaf cur)) r t'"
  using range_insert_spec [OF assms, of force] by auto

text \<open>Inserting into one child, when the range does not reach into the other one.\<close>

lemma inserted_left:
  assumes valid: "tree_valid (Parent sp left right)" and r: "sr_start r < sr_end r"
    and res: "insert_result force (tree_at left) (span left) r left'"
    and le: "sr_end r \<le> range_end (span left)"
  shows "insert_result force (tree_at (Parent sp left right)) sp r
    (Parent (mk_range (range_start (span left')) (range_end (span right))) left' right)"
proof -
  from valid have v: "tree_valid left" "tree_valid right" "range_end (span left) = range_start (span right)"
    "sp = mk_range (range_start (span left)) (range_end (span right))" by simp_all
  note lt = tree_valid_span [OF v(1)] tree_valid_span [OF v(2)]
  from res have res': "tree_valid left'" "span left' = hull (span left) r"
    "tree_at left' h = inserted_at force (tree_at left) (span left) r h" for h
    by (simp_all add: insert_result_def)
  have ends: "max (range_end (span left)) (sr_end r) = range_end (span left)"
    "max (range_end (span right)) (sr_end r) = range_end (span right)"
    using le v(3) lt by (auto simp: max_def)
  have "tree_at (Parent (mk_range (range_start (span left')) (range_end (span right))) left' right) h =
      inserted_at force (tree_at (Parent sp left right)) sp r h" for h
  proof (cases "h < range_end (span left)")
    case True
    then have "tree_at right h = None" using v by (auto simp: tree_at_None)
    then show ?thesis using True v ends lt
      by (auto simp: res' inserted_at_def split: option.splits)
  next
    case False
    then have "h \<notin> blocks r" "tree_at left h = None" using le v(1) by (auto simp: blocks_def tree_at_None)
    then show ?thesis using False v ends lt tree_at_None [OF v(2), of h]
      by (auto simp: res' inserted_at_def split: option.splits)
  qed
  then show ?thesis using v res' ends by (auto simp: insert_result_def hull_def)
qed

lemma inserted_right:
  assumes valid: "tree_valid (Parent sp left right)" and r: "sr_start r < sr_end r"
    and res: "insert_result force (tree_at right) (span right) r right'"
    and le: "range_end (span left) \<le> sr_start r"
  shows "insert_result force (tree_at (Parent sp left right)) sp r
    (Parent (mk_range (range_start (span left)) (range_end (span right'))) left right')"
proof -
  from valid have v: "tree_valid left" "tree_valid right" "range_end (span left) = range_start (span right)"
    "sp = mk_range (range_start (span left)) (range_end (span right))" by simp_all
  note lt = tree_valid_span [OF v(1)] tree_valid_span [OF v(2)]
  from res have res': "tree_valid right'" "span right' = hull (span right) r"
    "tree_at right' h = inserted_at force (tree_at right) (span right) r h" for h
    by (simp_all add: insert_result_def)
  have starts: "min (range_start (span right)) (sr_start r) = range_start (span right)"
    "min (range_start (span left)) (sr_start r) = range_start (span left)"
    using le v(3) lt by (auto simp: min_def)
  have "tree_at (Parent (mk_range (range_start (span left)) (range_end (span right'))) left right') h =
      inserted_at force (tree_at (Parent sp left right)) sp r h" for h
  proof (cases "h < range_end (span left)")
    case True
    then have "h \<notin> blocks r" "tree_at right h = None" using le v by (auto simp: blocks_def tree_at_None)
    then show ?thesis using True v starts lt tree_at_None [OF v(1), of h]
      by (auto simp: res' inserted_at_def split: option.splits)
  next
    case False
    then have "tree_at left h = None" using v(1) by (simp add: tree_at_None)
    then show ?thesis using False v starts lt
      by (auto simp: res' inserted_at_def split: option.splits)
  qed
  then show ?thesis using v res' starts by (auto simp: insert_result_def hull_def)
qed

lemma inserted_both:
  assumes valid: "tree_valid (Parent sp left right)"
    and split: "sr_start r < range_end (span left)" "range_end (span left) < sr_end r"
    and resl: "insert_result force (tree_at left) (span left)
      (mk_scan_range (sr_start r) (range_end (span left)) (priority r)) left'"
    and resr: "insert_result force (tree_at right) (span right)
      (mk_scan_range (range_end (span left)) (sr_end r) (priority r)) right'"
  shows "insert_result force (tree_at (Parent sp left right)) sp r
    (Parent (mk_range (range_start (span left')) (range_end (span right'))) left' right')"
proof -
  let ?p = "range_end (span left)"
  let ?l = "mk_scan_range (sr_start r) ?p (priority r)" and ?r = "mk_scan_range ?p (sr_end r) (priority r)"
  from valid have v: "tree_valid left" "tree_valid right" "range_start (span right) = ?p"
    "sp = mk_range (range_start (span left)) (range_end (span right))" by simp_all
  note lt = tree_valid_span [OF v(1)] tree_valid_span [OF v(2)]
  from resl have l: "tree_valid left'" "span left' = mk_range (min (range_start (span left)) (sr_start r)) ?p"
    "tree_at left' h = inserted_at force (tree_at left) (span left) ?l h" for h
    by (simp_all add: insert_result_def hull_def)
  from resr v(3) have r: "tree_valid right'" "span right' = mk_range ?p (max (range_end (span right)) (sr_end r))"
    "tree_at right' h = inserted_at force (tree_at right) (span right) ?r h" for h
    by (simp_all add: insert_result_def hull_def)
  have "tree_at (Parent (mk_range (range_start (span left')) (range_end (span right'))) left' right') h =
      inserted_at force (tree_at (Parent sp left right)) sp r h" for h
  proof (cases "h < ?p")
    case True
    then have "tree_at right h = None" "tree_at right' h = None"
      using v r(1,2) by (auto simp: tree_at_None)
    moreover have "h \<in> blocks ?l \<longleftrightarrow> h \<in> blocks r" "h < max (range_end (span right)) (sr_end r)"
      using True split by (auto simp: blocks_def less_max_iff_disj)
    ultimately show ?thesis using True v lt
      by (auto simp: l inserted_at_def split: option.splits)
  next
    case False
    then have "tree_at left h = None" "tree_at left' h = None"
      using v l(1,2) by (auto simp: tree_at_None)
    moreover have "h \<in> blocks ?r \<longleftrightarrow> h \<in> blocks r" "min (range_start (span left)) (sr_start r) \<le> h"
      using False split by (auto simp: blocks_def min_le_iff_disj)
    ultimately show ?thesis using False v lt
      by (auto simp: r inserted_at_def split: option.splits)
  qed
  then show ?thesis using v l(1,2) r(1,2) by (simp add: insert_result_def hull_def)
qed

lemma from_insert_left:
  assumes "tree_insert left r force = Some left'"
  shows "from_insert left right r (insert_left force) =
    Some (Parent (mk_range (range_start (span left')) (range_end (span right))) left' right)"
  using assms by (simp add: insert_left_def)

lemma from_insert_right:
  assumes "tree_insert right r force = Some right'"
  shows "from_insert left right r (insert_right force) =
    Some (Parent (mk_range (range_start (span left)) (range_end (span right'))) left right')"
  using assms by (simp add: insert_right_def)

lemma from_split_both:
  assumes "sr_start r < p" "p < sr_end r"
    "tree_insert left (mk_scan_range (sr_start r) p (priority r)) force = Some left'"
    "tree_insert right (mk_scan_range p (sr_end r) (priority r)) force = Some right'"
  shows "from_split left right r p force =
    Some (Parent (mk_range (range_start (span left')) (range_end (span right'))) left' right')"
  using assms by (simp add: split_at_def)

text \<open>For a valid parent the seven cases of the source are three: left, right, or both.\<close>

lemma tree_insert_parent:
  assumes valid: "tree_valid (Parent sp left right)" and r: "sr_start r < sr_end r"
  shows "tree_insert (Parent sp left right) r force =
    (if sr_end r \<le> range_end (span left) then from_insert left right r (insert_left force)
     else if range_end (span left) \<le> sr_start r then from_insert left right r (insert_right force)
     else from_split left right r (range_end (span left)) force)"
proof -
  from valid have v: "range_start (span right) = range_end (span left)"
    "range_start sp = range_start (span left)" "range_end sp = range_end (span right)"
    "range_start (span left) < range_end (span left)" "range_start (span right) < range_end (span right)"
    by (auto dest: tree_valid_span)
  then have lt: "range_start sp < range_end sp" by simp
  note cmp = range_cmp_valid [OF lt r]
  let ?p = "range_end (span left)"
  consider "sr_end r \<le> ?p" | "?p \<le> sr_start r" | "sr_start r < ?p" "?p < sr_end r" by fastforce
  then show ?thesis
  proof cases
    case 1
    then have "\<not> ?p \<le> sr_start r" "\<not> range_end sp \<le> sr_start r" "\<not> range_end sp < sr_end r"
      "range_end sp \<noteq> sr_end r" "\<not> ?p < sr_end r" "\<not> range_end sp \<le> sr_end r"
      using v r by order+
    with 1 show ?thesis by (simp add: cmp Let_def del: from_insert.simps from_split.simps)
  next
    case 2
    then have "\<not> sr_end r \<le> ?p" "\<not> sr_end r \<le> range_start sp" "range_start sp < sr_start r"
      "\<not> sr_start r < ?p"
      using v r by order+
    with 2 show ?thesis by (simp add: cmp Let_def del: from_insert.simps from_split.simps)
  next
    case 3
    then have "\<not> sr_end r \<le> ?p" "\<not> ?p \<le> sr_start r" "\<not> range_end sp \<le> sr_start r"
      "\<not> sr_end r \<le> range_start sp"
      using v r by order+
    with 3 show ?thesis by (simp add: cmp Let_def del: from_insert.simps from_split.simps)
  qed
qed

lemma tree_insert_spec:
  "tree_valid t \<Longrightarrow> sr_start r < sr_end r \<Longrightarrow>
   \<exists>t'. tree_insert t r force = Some t' \<and> insert_result force (tree_at t) (span t) r t'"
proof (induction t arbitrary: r)
  case (Leaf cur)
  then show ?case using insert_result_leaf [of cur r force] by (simp only: tree_valid.simps)
next
  case (Parent sp left right)
  let ?p = "range_end (span left)"
  have eq: "tree_insert (Parent sp left right) r force =
    (if sr_end r \<le> ?p then from_insert left right r (insert_left force)
     else if ?p \<le> sr_start r then from_insert left right r (insert_right force)
     else from_split left right r ?p force)" by (rule tree_insert_parent [OF Parent.prems])
  from Parent.prems have v: "tree_valid left" "tree_valid right" by simp_all
  consider "sr_end r \<le> ?p" | "\<not> sr_end r \<le> ?p" "?p \<le> sr_start r" | "sr_start r < ?p" "?p < sr_end r"
    by fastforce
  then show ?case
  proof cases
    case 1
    from Parent.IH(1) [OF v(1) Parent.prems(2)] obtain left' where
      "tree_insert left r force = Some left'" "insert_result force (tree_at left) (span left) r left'" by blast
    with 1 from_insert_left inserted_left [OF Parent.prems _ 1] show ?thesis
      unfolding eq by (simp del: tree_at.simps from_insert.simps)
  next
    case 2
    from Parent.IH(2) [OF v(2) Parent.prems(2)] obtain right' where
      "tree_insert right r force = Some right'" "insert_result force (tree_at right) (span right) r right'" by blast
    with 2 from_insert_right inserted_right [OF Parent.prems _ 2(2)] show ?thesis
      unfolding eq by (simp del: tree_at.simps from_insert.simps)
  next
    case 3
    let ?l = "mk_scan_range (sr_start r) ?p (priority r)" and ?r = "mk_scan_range ?p (sr_end r) (priority r)"
    from Parent.IH(1) [OF v(1), of ?l] 3 obtain left' where
      l: "tree_insert left ?l force = Some left'" "insert_result force (tree_at left) (span left) ?l left'" by auto
    from Parent.IH(2) [OF v(2), of ?r] 3 obtain right' where
      r: "tree_insert right ?r force = Some right'" "insert_result force (tree_at right) (span right) ?r right'" by auto
    from from_split_both [OF 3 l(1) r(1)] inserted_both [OF Parent.prems(1) 3 l(2) r(2)] show ?thesis
      unfolding eq by (simp add: 3 less_le_not_le [THEN iffD1, OF 3(1)] less_le_not_le [THEN iffD1, OF 3(2)] del: tree_at.simps from_split.simps)
  qed
qed

section \<open>Flattening\<close>

text \<open>A well-formed scan queue: non-empty ranges that meet, neighbours of different priority.\<close>

definition queue_valid :: "ScanRange list \<Rightarrow> bool" where
  "queue_valid rs \<longleftrightarrow> (\<forall>r\<in>set rs. sr_start r < sr_end r) \<and>
     successively (\<lambda>a b. sr_end a = sr_start b \<and> priority a \<noteq> priority b) rs"

definition covers :: "ScanRange list \<Rightarrow> BlockHeight \<Rightarrow> ScanPriority \<Rightarrow> bool" where
  "covers rs h p \<longleftrightarrow> (\<exists>r\<in>set rs. h \<in> blocks r \<and> priority r = p)"

lemma queue_valid_snoc: "queue_valid (rs @ [r]) \<longleftrightarrow> queue_valid rs \<and> sr_start r < sr_end r \<and>
    (rs \<noteq> [] \<longrightarrow> sr_end (last rs) = sr_start r \<and> priority (last rs) \<noteq> priority r)"
  by (auto simp: queue_valid_def successively_append_iff)

lemma covers_append [simp]: "covers (xs @ ys) h p \<longleftrightarrow> covers xs h p \<or> covers ys h p"
  by (auto simp: covers_def)

lemma covers_single [simp]: "covers [r] h p \<longleftrightarrow> h \<in> blocks r \<and> priority r = p"
  by (simp add: covers_def)

lemma covers_Nil [simp]: "\<not> covers [] h p"
  by (simp add: covers_def)

lemma blocks_join: "sr_start l < sr_end l \<Longrightarrow> sr_end l = sr_start r \<Longrightarrow> sr_start r < sr_end r \<Longrightarrow>
    h \<in> blocks (mk_scan_range (sr_start l) (sr_end r) p) \<longleftrightarrow> h \<in> blocks l \<or> h \<in> blocks r"
  by (auto simp: blocks_def)

definition flattens :: "ScanRange list \<Rightarrow> SpanningTree \<Rightarrow> ScanRange list \<Rightarrow> bool" where
  "flattens acc t acc' \<longleftrightarrow> queue_valid acc' \<and> acc' \<noteq> [] \<and>
     sr_start (hd acc') = sr_start (hd (acc @ [mk_scan_range (range_start (span t)) 0 Ignored])) \<and>
     sr_end (last acc') = range_end (span t) \<and>
     (\<forall>h p. covers acc' h p \<longleftrightarrow> covers acc h p \<or> tree_at t h = Some p)"

lemma into_vec_go_leaf:
  assumes e: "sr_start e < sr_end e" and q: "queue_valid acc" and meet: "acc \<noteq> [] \<Longrightarrow> sr_end (last acc) = sr_start e"
  shows "\<exists>acc'. into_vec_go acc (Leaf e) = Some acc' \<and> flattens acc (Leaf e) acc'"
proof (cases acc rule: rev_cases)
  case Nil
  with e show ?thesis
    by (auto simp: flattens_def scan_range_is_empty_def queue_valid_def)
next
  case (snoc rs top)
  with q meet have top: "sr_start top < sr_end top" "sr_end top = sr_start e" and rs: "queue_valid rs"
      "rs \<noteq> [] \<Longrightarrow> sr_end (last rs) = sr_start top \<and> priority (last rs) \<noteq> priority top"
    by (simp_all add: queue_valid_snoc)
  note join = join_meet [OF top e]
  show ?thesis
  proof (cases "priority top = priority e")
    case True
    let ?m = "mk_scan_range (sr_start top) (sr_end e) (priority top)"
    have "sr_start top < sr_end e" using top e by order
    then have "queue_valid (rs @ [?m])" using rs by (auto simp: queue_valid_snoc)
    moreover have "sr_start (hd (rs @ [?m])) = sr_start (hd (rs @ [top]))" by (cases rs) simp_all
    moreover have "into_vec_go acc (Leaf e) = Some (rs @ [?m])"
      using True e snoc join by (simp add: scan_range_is_empty_def)
    ultimately show ?thesis using True snoc e
      by (auto simp: flattens_def blocks_join [OF top e] hd_append)
  next
    case False
    have "queue_valid (rs @ [top] @ [e])"
      using rs top e False queue_valid_snoc [of "rs @ [top]" e] by (simp add: queue_valid_snoc [of rs])
    moreover have "into_vec_go acc (Leaf e) = Some (rs @ [top, e])"
      using False e snoc join by (simp add: scan_range_is_empty_def)
    ultimately show ?thesis using snoc
      by (auto simp: flattens_def hd_append covers_def)
  qed
qed

lemma tree_at_parent_iff:
  assumes "tree_valid (Parent sp left right)"
  shows "tree_at (Parent sp left right) h = Some p \<longleftrightarrow> tree_at left h = Some p \<or> tree_at right h = Some p"
proof -
  have "tree_at left h = None \<or> tree_at right h = None"
    using assms by (auto simp: tree_at_None)
  then show ?thesis by (auto split: option.splits)
qed

lemma into_vec_go_spec:
  "tree_valid t \<Longrightarrow> queue_valid acc \<Longrightarrow> (acc \<noteq> [] \<Longrightarrow> sr_end (last acc) = range_start (span t)) \<Longrightarrow>
   \<exists>acc'. into_vec_go acc t = Some acc' \<and> flattens acc t acc'"
proof (induction t arbitrary: acc)
  case (Leaf e)
  then show ?case using into_vec_go_leaf [of e acc] by simp
next
  case (Parent sp left right)
  from Parent.prems(1) have v: "tree_valid left" "tree_valid right" "range_end (span left) = range_start (span right)"
    "sp = mk_range (range_start (span left)) (range_end (span right))" by simp_all
  from Parent.IH(1) [OF v(1) Parent.prems(2)] Parent.prems(3) v(4) obtain acc1 where
    a1: "into_vec_go acc left = Some acc1" "flattens acc left acc1" by auto
  then have "queue_valid acc1" "acc1 \<noteq> []" "sr_end (last acc1) = range_start (span right)"
    by (simp_all add: flattens_def v(3))
  from Parent.IH(2) [OF v(2) this(1)] this obtain acc2 where
    a2: "into_vec_go acc1 right = Some acc2" "flattens acc1 right acc2" by auto
  have "flattens acc (Parent sp left right) acc2"
    using a1(2) a2(2) tree_at_parent_iff [OF Parent.prems(1)] v(4)
    unfolding flattens_def by (simp add: hd_append del: tree_at.simps)
  with a1 a2 show ?case by (simp del: tree_at.simps)
qed

section \<open>The properties of the tree\<close>

text \<open>
  C5. Inserting a non-empty range into a valid tree never panics and keeps the tree valid. The span
  grows to the hull; in the inserted range every block takes the dominant of its old and the new
  priority, a new block takes the new one; all other blocks keep their priority, and a gap between
  the old span and the range becomes \<open>Historic\<close>. So \<open>Verify\<close> and \<open>Scanned\<close> always win, and a
  scanned block is rescanned only when forced.
\<close>

theorem tree_insert_correct:
  assumes "tree_valid t" "sr_start r < sr_end r"
  shows "\<exists>t'. tree_insert t r force = Some t' \<and> tree_valid t' \<and>
    range_start (span t') = min (range_start (span t)) (sr_start r) \<and>
    range_end (span t') = max (range_end (span t)) (sr_end r) \<and>
    (\<forall>h. tree_at t' h =
      (if h \<in> blocks r then
         Some (case tree_at t h of None \<Rightarrow> priority r
           | Some p \<Rightarrow> if priority r = Verify \<or> priority r = Scanned then priority r
               else if p = Scanned \<and> \<not> force then Scanned else max p (priority r))
       else if tree_at t h \<noteq> None then tree_at t h
       else if range_start (span t') \<le> h \<and> h < range_end (span t') then Some Historic
       else None))"
proof -
  from tree_insert_spec [OF assms] obtain t' where
    "tree_insert t r force = Some t'" "insert_result force (tree_at t) (span t) r t'" by blast
  then show ?thesis
    by (intro exI [of _ t']) (auto simp: insert_result_def hull_def inserted_at_def merge_priority_def
        split: option.splits)
qed

theorem tree_insert_correct_witness:
  "\<exists>t'. tree_insert (Leaf (mk_scan_range 0 3 Historic)) (mk_scan_range 6 8 ChainTip) False = Some t' \<and>
     tree_at t' 4 = Some Historic \<and> tree_at t' 7 = Some ChainTip"
  using tree_insert_correct [of "Leaf (mk_scan_range 0 3 Historic)" "mk_scan_range 6 8 ChainTip" False]
  by (auto simp: blocks_def)

text \<open>
  C6. Flattening a valid tree returns a well-formed scan queue: non-empty ranges in increasing order
  without gaps, neighbours of different priority, spanning the tree exactly and giving every block
  the priority the tree gives it.
\<close>

theorem into_vec_correct:
  assumes "tree_valid t"
  shows "\<exists>v. into_vec t = Some v \<and> v \<noteq> [] \<and> (\<forall>r\<in>set v. sr_start r < sr_end r) \<and>
    successively (\<lambda>a b. sr_end a = sr_start b \<and> priority a \<noteq> priority b) v \<and>
    sr_start (hd v) = range_start (span t) \<and> sr_end (last v) = range_end (span t) \<and>
    (\<forall>h p. (\<exists>r\<in>set v. h \<in> blocks r \<and> priority r = p) \<longleftrightarrow> tree_at t h = Some p)"
proof -
  have "queue_valid []" by (simp add: queue_valid_def)
  from into_vec_go_spec [OF assms this] show ?thesis
    by (auto simp: into_vec_def flattens_def queue_valid_def covers_def)
qed

theorem into_vec_correct_witness:
  "\<exists>v. into_vec (Parent (mk_range 0 6) (Leaf (mk_scan_range 0 3 Scanned)) (Leaf (mk_scan_range 3 6 Scanned))) = Some v \<and>
     sr_start (hd v) = 0 \<and> sr_end (last v) = 6"
  using into_vec_correct [of "Parent (mk_range 0 6) (Leaf (mk_scan_range 0 3 Scanned)) (Leaf (mk_scan_range 3 6 Scanned))"]
  by auto

text \<open>
  Empty ranges are outside that contract. Here an empty range is inserted at the end of a leaf, and
  inserting the range of the leaf again splits at the end of the range: the \<open>expect\<close> of
  \<open>from_split\<close> panics, although every argument is a scan range \<open>from_parts\<close> accepts.
\<close>

lemma tree_insert_empty_range_panics:
  "\<exists>t. tree_insert (Leaf (mk_scan_range 5 8 Historic)) (mk_scan_range 8 8 ChainTip) False = Some t \<and>
     scan_range_from_parts (mk_range 8 8) ChainTip = Some (mk_scan_range 8 8 ChainTip) \<and>
     tree_insert t (mk_scan_range 5 8 FoundNote) False = None"
  by (simp add: range_insert_def range_cmp_def join_nonoverlapping.simps split_at_def)

end
