(* ===== verification/F4Jumble.thy ===== *)
theory F4Jumble
  imports Zc_Prelude
begin

text \<open>
  Model of \<open>components/f4jumble/src/lib.rs\<close>: the length-preserving permutation of ZIP 316, a four-round
  unkeyed Feistel construction over two parts of the message. BLAKE2b is a parameter: the hash of a
  length, a personalization and an input. A state holds the two parts of the mutable slice; the
  functions that work in place return the slice they leave.
\<close>

unbundle bit_operations_syntax

section \<open>The rounds\<close>

definition OUTBYTES :: nat where
  "OUTBYTES = 64"

definition VALID_LENGTH :: "nat \<Rightarrow> bool" where
  "VALID_LENGTH n \<longleftrightarrow> 38 \<le> n \<and> n \<le> 4194368"

datatype F4Error = InvalidLength

definition H_PERS :: "u8 \<Rightarrow> bytes" where
  "H_PERS i = [85, 65, 95, 70, 52, 74, 117, 109, 98, 108, 101, 95, 72, i, 0, 0]"

definition G_PERS :: "u8 \<Rightarrow> u16 \<Rightarrow> bytes" where
  "G_PERS i j = [85, 65, 95, 70, 52, 74, 117, 109, 98, 108, 101, 95, 71, i,
     ucast (j AND 0xFF), ucast (drop_bit 8 j)]"

record F4State =
  f4_left :: bytes
  f4_right :: bytes

definition f4_new :: "bytes \<Rightarrow> F4State" where
  "f4_new message =
     (let left_length = min OUTBYTES (length message div 2) in
      \<lparr>f4_left = take left_length message, f4_right = drop left_length message\<rparr>)"

text \<open>Over the shorter of the two lengths.\<close>

fun xor_bytes :: "bytes \<Rightarrow> bytes \<Rightarrow> bytes" where
  "xor_bytes (t # target) (s # source) = (t XOR s) # xor_bytes target source"
| "xor_bytes target _ = target"

definition ceildiv :: "nat \<Rightarrow> nat \<Rightarrow> nat" where
  "ceildiv num den = (num + den - 1) div den"

definition h_round :: "(nat \<Rightarrow> bytes \<Rightarrow> bytes \<Rightarrow> bytes) \<Rightarrow> u8 \<Rightarrow> F4State \<Rightarrow> F4State" where
  "h_round blake2b i st =
     st\<lparr>f4_left := xor_bytes (f4_left st) (blake2b (length (f4_left st)) (H_PERS i) (f4_right st))\<rparr>"

text \<open>The body of the loop, on the slice from \<open>j * OUTBYTES\<close>.\<close>

definition g_block :: "(nat \<Rightarrow> bytes \<Rightarrow> bytes \<Rightarrow> bytes) \<Rightarrow> u8 \<Rightarrow> bytes \<Rightarrow> nat \<Rightarrow> bytes \<Rightarrow> bytes" where
  "g_block blake2b i left j right =
     take (j * OUTBYTES) right @
       xor_bytes (drop (j * OUTBYTES) right) (blake2b OUTBYTES (G_PERS i (of_nat j)) left)"

definition g_round :: "(nat \<Rightarrow> bytes \<Rightarrow> bytes \<Rightarrow> bytes) \<Rightarrow> u8 \<Rightarrow> F4State \<Rightarrow> F4State" where
  "g_round blake2b i st =
     st\<lparr>f4_right := fold (g_block blake2b i (f4_left st)) [0..<ceildiv (length (f4_right st)) OUTBYTES]
       (f4_right st)\<rparr>"

definition apply_f4jumble :: "(nat \<Rightarrow> bytes \<Rightarrow> bytes \<Rightarrow> bytes) \<Rightarrow> F4State \<Rightarrow> F4State" where
  "apply_f4jumble blake2b st =
     (let st = g_round blake2b 0 st;
          st = h_round blake2b 0 st;
          st = g_round blake2b 1 st
      in h_round blake2b 1 st)"

definition apply_f4jumble_inv :: "(nat \<Rightarrow> bytes \<Rightarrow> bytes \<Rightarrow> bytes) \<Rightarrow> F4State \<Rightarrow> F4State" where
  "apply_f4jumble_inv blake2b st =
     (let st = h_round blake2b 1 st;
          st = g_round blake2b 1 st;
          st = h_round blake2b 0 st
      in g_round blake2b 0 st)"

text \<open>The slice a state was split from.\<close>

definition f4_message :: "F4State \<Rightarrow> bytes" where
  "f4_message st = f4_left st @ f4_right st"

section \<open>The functions of the crate\<close>

definition f4jumble_mut :: "(nat \<Rightarrow> bytes \<Rightarrow> bytes \<Rightarrow> bytes) \<Rightarrow> bytes \<Rightarrow> (F4Error + unit) \<times> bytes" where
  "f4jumble_mut blake2b message =
     (if VALID_LENGTH (length message) then (Inr (), f4_message (apply_f4jumble blake2b (f4_new message)))
      else (Inl InvalidLength, message))"

definition f4jumble_inv_mut :: "(nat \<Rightarrow> bytes \<Rightarrow> bytes \<Rightarrow> bytes) \<Rightarrow> bytes \<Rightarrow> (F4Error + unit) \<times> bytes" where
  "f4jumble_inv_mut blake2b message =
     (if VALID_LENGTH (length message) then (Inr (), f4_message (apply_f4jumble_inv blake2b (f4_new message)))
      else (Inl InvalidLength, message))"

definition f4jumble :: "(nat \<Rightarrow> bytes \<Rightarrow> bytes \<Rightarrow> bytes) \<Rightarrow> bytes \<Rightarrow> F4Error + bytes" where
  "f4jumble blake2b message =
     (case f4jumble_mut blake2b message of (r, result) \<Rightarrow> map_sum id (\<lambda>_. result) r)"

definition f4jumble_inv :: "(nat \<Rightarrow> bytes \<Rightarrow> bytes \<Rightarrow> bytes) \<Rightarrow> bytes \<Rightarrow> F4Error + bytes" where
  "f4jumble_inv blake2b message =
     (case f4jumble_inv_mut blake2b message of (r, result) \<Rightarrow> map_sum id (\<lambda>_. result) r)"

section \<open>The rounds are involutions\<close>

text \<open>The documented length of a BLAKE2b hash.\<close>

definition blake2b_lengths :: "(nat \<Rightarrow> bytes \<Rightarrow> bytes \<Rightarrow> bytes) \<Rightarrow> bool" where
  "blake2b_lengths blake2b \<longleftrightarrow> (\<forall>n p x. 1 \<le> n \<and> n \<le> OUTBYTES \<longrightarrow> length (blake2b n p x) = n)"

lemma length_xor_bytes [simp]: "length (xor_bytes t s) = length t"
  by (induction t s rule: xor_bytes.induct) simp_all

lemma xor_bytes_Nil [simp]: "xor_bytes t [] = t"
  by (cases t) simp_all

lemma xor_bytes_self: "xor_bytes (xor_bytes t s) s = t"
  by (induction t s rule: xor_bytes.induct) (simp_all add: xor.assoc)

lemma xor_bytes_append:
  "xor_bytes t (s @ s') = take (length s) (xor_bytes t s) @ xor_bytes (drop (length s) (xor_bytes t s)) s'"
  by (induction t s rule: xor_bytes.induct) simp_all

text \<open>The mask of a \<open>g\<close> round: the blocks one after the other.\<close>

definition g_mask :: "(nat \<Rightarrow> bytes \<Rightarrow> bytes \<Rightarrow> bytes) \<Rightarrow> u8 \<Rightarrow> bytes \<Rightarrow> nat \<Rightarrow> bytes" where
  "g_mask blake2b i left n = concat (map (\<lambda>j. blake2b OUTBYTES (G_PERS i (of_nat j)) left) [0..<n])"

lemma length_g_mask: "blake2b_lengths blake2b \<Longrightarrow> length (g_mask blake2b i left n) = n * OUTBYTES"
  by (induction n) (simp_all add: g_mask_def blake2b_lengths_def OUTBYTES_def)

lemma g_blocks:
  assumes "blake2b_lengths blake2b"
  shows "fold (g_block blake2b i left) [0..<n] right = xor_bytes right (g_mask blake2b i left n)"
proof (induction n)
  case (Suc n)
  have "g_mask blake2b i left (Suc n) =
      g_mask blake2b i left n @ blake2b OUTBYTES (G_PERS i (of_nat n)) left" by (simp add: g_mask_def)
  with Suc show ?case by (simp add: g_block_def xor_bytes_append length_g_mask [OF assms])
qed (simp add: g_mask_def)

lemma g_round_eq:
  "blake2b_lengths blake2b \<Longrightarrow> g_round blake2b i st =
     st\<lparr>f4_right := xor_bytes (f4_right st) (g_mask blake2b i (f4_left st) (ceildiv (length (f4_right st)) OUTBYTES))\<rparr>"
  by (simp add: g_round_def g_blocks)

lemma h_round_self [simp]: "h_round blake2b i (h_round blake2b i st) = st"
  by (simp add: h_round_def xor_bytes_self)

lemma g_round_self: "blake2b_lengths blake2b \<Longrightarrow> g_round blake2b i (g_round blake2b i st) = st"
  by (simp add: g_round_eq xor_bytes_self)

lemma round_lengths [simp]:
  "length (f4_left (h_round blake2b i st)) = length (f4_left st)"
  "length (f4_right (h_round blake2b i st)) = length (f4_right st)"
  by (simp_all add: h_round_def)

lemma g_round_lengths:
  assumes "blake2b_lengths blake2b"
  shows "length (f4_left (g_round blake2b i st)) = length (f4_left st)"
    "length (f4_right (g_round blake2b i st)) = length (f4_right st)"
  by (simp_all add: g_round_eq [OF assms])

lemmas f4_rounds = apply_f4jumble_def apply_f4jumble_inv_def g_round_lengths g_round_self

lemma apply_lengths:
  assumes "blake2b_lengths blake2b"
  shows "length (f4_left (apply_f4jumble blake2b st)) = length (f4_left st)"
    "length (f4_right (apply_f4jumble blake2b st)) = length (f4_right st)"
    "length (f4_left (apply_f4jumble_inv blake2b st)) = length (f4_left st)"
    "length (f4_right (apply_f4jumble_inv blake2b st)) = length (f4_right st)"
  using assms by (simp_all add: f4_rounds Let_def)

lemma apply_inverse:
  assumes "blake2b_lengths blake2b"
  shows "apply_f4jumble_inv blake2b (apply_f4jumble blake2b st) = st"
    "apply_f4jumble blake2b (apply_f4jumble_inv blake2b st) = st"
  using assms by (simp_all add: f4_rounds Let_def)

text \<open>Splitting the message a state came from gives the state again, when only its parts changed.\<close>

lemma message_new [simp]: "f4_message (f4_new m) = m"
  by (simp add: f4_message_def f4_new_def Let_def)

lemma length_new [simp]: "length (f4_left (f4_new m)) + length (f4_right (f4_new m)) = length m"
  by (simp add: f4_new_def Let_def)

lemma new_message:
  assumes "length (f4_left st) = length (f4_left (f4_new m))" "length (f4_right st) = length (f4_right (f4_new m))"
  shows "f4_new (f4_message st) = st"
proof -
  have "length (f4_message st) = length m" using assms by (simp add: f4_message_def)
  then show ?thesis using assms by (cases st) (simp add: f4_new_def f4_message_def Let_def)
qed

text \<open>The personalizations of distinct rounds and blocks are distinct.\<close>

lemma G_PERS_eq: "G_PERS i j = G_PERS i' j' \<longleftrightarrow> i = i' \<and> j = j'"
proof
  assume "G_PERS i j = G_PERS i' j'"
  then have i: "i = i'" and lo: "(ucast (j AND 0xFF) :: u8) = ucast (j' AND 0xFF)"
    and hi: "(ucast (drop_bit 8 j) :: u8) = ucast (drop_bit 8 j')" by (simp_all add: G_PERS_def)
  have "bit j k \<longleftrightarrow> bit j' k" if "k < 16" for k
  proof (cases "k < 8")
    case True
    have "(0xFF :: u16) = mask 8" by (simp add: mask_eq_exp_minus_1)
    moreover have "bit (mask 8 :: u16) k" using True by (simp add: bit_mask_iff)
    ultimately have mask: "bit (0xFF :: u16) k" by argo
    show ?thesis using arg_cong [OF lo, of "\<lambda>w. bit w k"] True mask by (simp add: bit_ucast_iff bit_and_iff)
  next
    case False
    then have "k - 8 < 8" using that by linarith
    with False show ?thesis using arg_cong [OF hi, of "\<lambda>w. bit w (k - 8)"]
      by (simp add: bit_ucast_iff bit_drop_bit_eq)
  qed
  then have "j = j'" by (intro bit_word_eqI) simp
  with i show "i = i' \<and> j = j'" by simp
qed simp

lemma G_PERS_inj:
  assumes "G_PERS i (of_nat j) = G_PERS i' (of_nat j')" "j < 65536" "j' < 65536"
  shows "i = i' \<and> j = j'"
proof -
  from assms(1) have e: "i = i'" "(of_nat j :: u16) = of_nat j'" by (simp_all add: G_PERS_eq)
  from arg_cong [OF e(2), of unat] assms(2,3) have "j = j'" by (simp add: unat_of_nat take_bit_nat_eq_self)
  with e(1) show ?thesis by simp
qed

lemma ceildiv_64: "ceildiv n 64 = (n + 63) div 64"
  by (simp add: ceildiv_def)

lemma f4jumble_rounds:
  assumes "blake2b_lengths blake2b" and "VALID_LENGTH (length m)"
  shows "let a = take (min 64 (length m div 2)) m; b = drop (min 64 (length m div 2)) m;
      n = (length b + 63) div 64;
      x = xor_bytes b (g_mask blake2b 0 a n);
      y = xor_bytes a (blake2b (length a) (H_PERS 0) x);
      d = xor_bytes x (g_mask blake2b 1 y n);
      c = xor_bytes y (blake2b (length a) (H_PERS 1) d)
    in f4jumble blake2b m = Inr (c @ d)"
  using assms(2)
  by (simp add: Let_def f4jumble_def f4jumble_mut_def f4_new_def apply_f4jumble_def g_round_eq [OF assms(1)]
      h_round_def f4_message_def OUTBYTES_def ceildiv_64)

lemma G_PERS_inj_on: "n \<le> 65536 \<Longrightarrow> inj_on (\<lambda>(i, j). G_PERS i (of_nat j)) (UNIV \<times> {..<n})"
  by (auto simp: inj_on_def dest!: G_PERS_inj)

section \<open>The properties\<close>

lemma f4jumble_inverse:
  assumes "blake2b_lengths blake2b"
  shows "(if VALID_LENGTH (length m) then
      \<exists>j v. f4jumble blake2b m = Inr j \<and> length j = length m \<and> f4jumble_inv blake2b j = Inr m \<and>
        f4jumble_mut blake2b m = (Inr (), j) \<and> f4jumble_inv_mut blake2b j = (Inr (), m) \<and>
        f4jumble_inv blake2b m = Inr v \<and> length v = length m \<and> f4jumble blake2b v = Inr m
    else f4jumble blake2b m = Inl InvalidLength \<and> f4jumble_inv blake2b m = Inl InvalidLength \<and>
      f4jumble_mut blake2b m = (Inl InvalidLength, m) \<and> f4jumble_inv_mut blake2b m = (Inl InvalidLength, m))"
proof -
  let ?j = "f4_message (apply_f4jumble blake2b (f4_new m))"
  let ?v = "f4_message (apply_f4jumble_inv blake2b (f4_new m))"
  have "length ?j = length m" "length ?v = length m"
    using apply_lengths [OF assms] length_new [of m] by (simp_all add: f4_message_def)
  moreover have "f4_new ?j = apply_f4jumble blake2b (f4_new m)" "f4_new ?v = apply_f4jumble_inv blake2b (f4_new m)"
    using new_message apply_lengths [OF assms] by blast+
  ultimately show ?thesis
    using apply_inverse [OF assms]
    by (auto simp: f4jumble_def f4jumble_inv_def f4jumble_mut_def f4jumble_inv_mut_def)
qed

text \<open>
  C36. F4Jumble and its inverse are length-preserving permutations of the messages of a valid length
  (38 to 4194368 bytes), each undoing the other, also in place; any other length is an error, and the
  message is then left as it was.
\<close>

theorem f4jumble_permutation:
  assumes "blake2b_lengths blake2b"
  shows "(if VALID_LENGTH (length m) then
      \<exists>j v. f4jumble blake2b m = Inr j \<and> length j = length m \<and> f4jumble_inv blake2b j = Inr m \<and>
        f4jumble_mut blake2b m = (Inr (), j) \<and> f4jumble_inv_mut blake2b j = (Inr (), m) \<and>
        f4jumble_inv blake2b m = Inr v \<and> length v = length m \<and> f4jumble blake2b v = Inr m
    else f4jumble blake2b m = Inl InvalidLength \<and> f4jumble_inv blake2b m = Inl InvalidLength \<and>
      f4jumble_mut blake2b m = (Inl InvalidLength, m) \<and> f4jumble_inv_mut blake2b m = (Inl InvalidLength, m))"
  using f4jumble_inverse [OF assms] .

text \<open>
  The rounds implement the Feistel network of ZIP 316: with the message split into \<open>a\<close> and \<open>b\<close>, and
  masks made of whole blocks under personalizations that are distinct for every round and every block
  of the longest message, the result is \<open>c\<close> followed by \<open>d\<close> where \<open>x = b + G0(a)\<close>, \<open>y = a + H0(x)\<close>,
  \<open>d = x + G1(y)\<close> and \<open>c = y + H1(d)\<close>. Every mask covers the part it is added to.
\<close>

theorem f4jumble_feistel:
  assumes "blake2b_lengths blake2b" and "VALID_LENGTH (length m)"
  shows "let a = take (min 64 (length m div 2)) m; b = drop (min 64 (length m div 2)) m;
      n = (length b + 63) div 64;
      x = xor_bytes b (g_mask blake2b 0 a n);
      y = xor_bytes a (blake2b (length a) (H_PERS 0) x);
      d = xor_bytes x (g_mask blake2b 1 y n);
      c = xor_bytes y (blake2b (length a) (H_PERS 1) d)
    in f4jumble blake2b m = Inr (c @ d) \<and> length b \<le> length (g_mask blake2b i u n) \<and>
      length (blake2b (length a) (H_PERS i) v) = length a \<and>
      inj_on (\<lambda>(i, j). G_PERS i (of_nat j)) (UNIV \<times> {..<n}) \<and> inj H_PERS \<and> (\<forall>i j k. G_PERS i j \<noteq> H_PERS k)"
proof -
  let ?k = "min 64 (length m div 2)"
  let ?n = "(length m - ?k + 63) div 64"
  have "1 \<le> length m div 2" using assms(2) unfolding VALID_LENGTH_def by linarith
  then have k: "1 \<le> ?k" "?k \<le> OUTBYTES" by (simp_all add: OUTBYTES_def)
  have la: "min (length m) ?k = ?k" by simp
  have "length m - ?k + 63 \<le> 4194304 + 63"
    using assms(2) unfolding VALID_LENGTH_def by (cases "64 \<le> length m div 2") (simp_all, linarith?)
  then have n: "?n \<le> 65536"
    by (rule order_trans [OF div_le_mono]) simp
  have "length m - ?k \<le> length (g_mask blake2b i u ?n)"
    unfolding length_g_mask [OF assms(1)] OUTBYTES_def by linarith
  moreover have "inj_on (\<lambda>(i, j). G_PERS i (of_nat j)) (UNIV \<times> {..<?n})"
    using G_PERS_inj_on [OF n] .
  moreover have "length (take ?k m) = ?k" using k by simp
  moreover have "length (blake2b ?k (H_PERS i) v) = ?k"
    using assms(1) k unfolding blake2b_lengths_def by blast
  moreover have "inj H_PERS" "G_PERS i j \<noteq> H_PERS k" for i j k by (simp_all add: inj_def H_PERS_def G_PERS_def)
  moreover have "length (drop ?k m) = length m - ?k" by (rule length_drop)
  moreover note f4jumble_rounds [OF assms]
  ultimately show ?thesis unfolding Let_def by (simp only: simp_thms)
qed

text \<open>A concrete hash: the personalization and the length, repeated.\<close>

definition sample_blake2b :: "nat \<Rightarrow> bytes \<Rightarrow> bytes \<Rightarrow> bytes" where
  "sample_blake2b n p x = map (\<lambda>i. p ! (i mod 16) + of_nat n + hd x) [0..<n]"

lemma sample_blake2b_lengths: "blake2b_lengths sample_blake2b"
  by (simp add: blake2b_lengths_def sample_blake2b_def)

theorem f4jumble_permutation_witness:
  "\<exists>j. f4jumble sample_blake2b (map of_nat [0..<40]) = Inr j \<and>
     f4jumble_inv sample_blake2b j = Inr (map of_nat [0..<40])"
  using f4jumble_permutation [OF sample_blake2b_lengths, of "map of_nat [0..<40]"]
  by (auto simp: VALID_LENGTH_def)

theorem f4jumble_feistel_witness:
  "\<exists>c d. f4jumble sample_blake2b (map of_nat [0..<40]) = Inr (c @ d) \<and> inj H_PERS"
proof -
  have "VALID_LENGTH (length (map of_nat [0..<40] :: bytes))" by (simp add: VALID_LENGTH_def)
  from f4jumble_feistel [OF sample_blake2b_lengths this] show ?thesis unfolding Let_def by blast
qed

end
