(* ===== verification/Unified.thy ===== *)
theory Unified
  imports Encoding Consensus F4Jumble "HOL-Library.Multiset"
begin

text \<open>
  Model of \<open>components/zcash_address/src/kind/unified.rs\<close> and \<open>kind/unified/revision.rs\<close>: the unified
  containers of ZIP 316 (addresses and viewing keys), as lists of typed items in a jumbled, padded
  encoding. A typecode is a \<open>nat\<close> below \<open>2 ^ 32\<close>, on which the code only does comparisons. The traits
  \<open>SealedItem\<close> and \<open>SealedContainer\<close> are a record of what an implementation provides. The message of
  an \<open>InvalidEncoding\<close> error is its fixed part. The checksummed string encoding (Bech32m) is a
  parameter, as BLAKE2b is.
\<close>

section \<open>Typecodes\<close>

datatype ordering = Less | Equal | Greater

definition ord_cmp :: "'a::linorder \<Rightarrow> 'a \<Rightarrow> ordering" where
  "ord_cmp a b = (if a < b then Less else if a = b then Equal else Greater)"

datatype Revision = R0 | R2

definition revision_number :: "Revision \<Rightarrow> nat" where
  "revision_number r = (case r of R0 \<Rightarrow> 0 | R2 \<Rightarrow> 2)"

datatype DataTypecode = DtP2pkh | DtP2sh | DtSapling | DtOrchard | DtUnknown nat

datatype MetadataTypecode = MtExpiryHeight | MtExpiryTime | MtUnknown nat

datatype Typecode = DataCode DataTypecode | MetadataCode MetadataTypecode

definition PADDING_LEN :: nat where
  "PADDING_LEN = 16"

definition MUST_UNDERSTAND_METADATA_MIN :: nat where
  "MUST_UNDERSTAND_METADATA_MIN = 0xE0"

definition METADATA_TYPECODE_MAX :: nat where
  "METADATA_TYPECODE_MAX = 0xFC"

definition METADATA_TYPECODE_MIN :: nat where
  "METADATA_TYPECODE_MIN = 0xC0"

definition is_transparent :: "DataTypecode \<Rightarrow> bool" where
  "is_transparent t \<longleftrightarrow> (case t of DtP2pkh \<Rightarrow> True | DtP2sh \<Rightarrow> True | _ \<Rightarrow> False)"

fun data_preference_order :: "DataTypecode \<Rightarrow> DataTypecode \<Rightarrow> ordering" where
  "data_preference_order DtOrchard DtOrchard = Equal"
| "data_preference_order DtSapling DtSapling = Equal"
| "data_preference_order DtP2sh DtP2sh = Equal"
| "data_preference_order DtP2pkh DtP2pkh = Equal"
| "data_preference_order (DtUnknown a) (DtUnknown b) = ord_cmp b a"
| "data_preference_order DtOrchard _ = Less"
| "data_preference_order _ DtOrchard = Greater"
| "data_preference_order DtSapling _ = Less"
| "data_preference_order _ DtSapling = Greater"
| "data_preference_order DtP2sh _ = Less"
| "data_preference_order _ DtP2sh = Greater"
| "data_preference_order DtP2pkh _ = Less"
| "data_preference_order _ DtP2pkh = Greater"

definition data_code_value :: "DataTypecode \<Rightarrow> nat" where
  "data_code_value t =
     (case t of DtP2pkh \<Rightarrow> 0x00 | DtP2sh \<Rightarrow> 0x01 | DtSapling \<Rightarrow> 0x02 | DtOrchard \<Rightarrow> 0x03 | DtUnknown tc \<Rightarrow> tc)"

definition metadata_code_value :: "MetadataTypecode \<Rightarrow> nat" where
  "metadata_code_value t = (case t of MtExpiryHeight \<Rightarrow> 0xE0 | MtExpiryTime \<Rightarrow> 0xE1 | MtUnknown tc \<Rightarrow> tc)"

definition is_must_understand :: "MetadataTypecode \<Rightarrow> bool" where
  "is_must_understand t \<longleftrightarrow> MUST_UNDERSTAND_METADATA_MIN \<le> metadata_code_value t"

definition typecode_value :: "Typecode \<Rightarrow> nat" where
  "typecode_value t = (case t of DataCode tc \<Rightarrow> data_code_value tc | MetadataCode tc \<Rightarrow> metadata_code_value tc)"

definition preference_order :: "Typecode \<Rightarrow> Typecode \<Rightarrow> ordering" where
  "preference_order a b =
     (case (a, b) of
        (DataCode _, MetadataCode _) \<Rightarrow> Less
      | (MetadataCode _, DataCode _) \<Rightarrow> Greater
      | (MetadataCode a, MetadataCode b) \<Rightarrow> ord_cmp (metadata_code_value a) (metadata_code_value b)
      | (DataCode a, DataCode b) \<Rightarrow> data_preference_order a b)"

definition encoding_order :: "Typecode \<Rightarrow> Typecode \<Rightarrow> ordering" where
  "encoding_order a b = ord_cmp (typecode_value a) (typecode_value b)"

section \<open>Errors\<close>

datatype P2shItemError = Malformed | TemplateEncoding | PlaceholderCount nat nat | Multipath

datatype ParseError =
    BothP2phkAndP2sh
  | DuplicateTypecode Typecode
  | InvalidTypecodeValue nat
  | InvalidEncoding string
  | InvalidTypecodeOrder
  | OnlyTransparent
  | NotUnified
  | UnknownPrefix string
  | NotUnderstood nat
  | TransparentReceiverInR2Address
  | NoDataItems
  | InvalidMetadataLength nat nat nat
  | InvalidP2shItem P2shItemError
  | NotDefinedInRevision Typecode Revision
  | InvalidEncodedLength nat

definition typecode_try_from :: "nat \<Rightarrow> ParseError + Typecode" where
  "typecode_try_from typecode =
     (if typecode = 0x00 then Inr (DataCode DtP2pkh)
      else if typecode = 0x01 then Inr (DataCode DtP2sh)
      else if typecode = 0x02 then Inr (DataCode DtSapling)
      else if typecode = 0x03 then Inr (DataCode DtOrchard)
      else if typecode \<le> 0xBF then Inr (DataCode (DtUnknown typecode))
      else if METADATA_TYPECODE_MIN \<le> typecode \<and> typecode \<le> METADATA_TYPECODE_MAX then
        (if typecode = 0xE0 then Inr (MetadataCode MtExpiryHeight)
         else if typecode = 0xE1 then Inr (MetadataCode MtExpiryTime)
         else Inr (MetadataCode (MtUnknown typecode)))
      else if typecode \<le> 0x02000000 then Inr (DataCode (DtUnknown typecode))
      else Inl (InvalidTypecodeValue typecode))"

section \<open>Items\<close>

datatype MetadataItem = MdExpiryHeight u32 | MdExpiryTime u64 | MdUnknown nat bytes

definition metadata_typecode :: "MetadataItem \<Rightarrow> MetadataTypecode" where
  "metadata_typecode m =
     (case m of MdExpiryHeight _ \<Rightarrow> MtExpiryHeight | MdExpiryTime _ \<Rightarrow> MtExpiryTime | MdUnknown tc _ \<Rightarrow> MtUnknown tc)"

definition metadata_data :: "MetadataItem \<Rightarrow> bytes" where
  "metadata_data m =
     (case m of MdExpiryHeight h \<Rightarrow> to_le_bytes h | MdExpiryTime t \<Rightarrow> to_le_bytes t | MdUnknown _ data \<Rightarrow> data)"

datatype 'i Uitem = DataItem 'i | MetaItem MetadataItem

text \<open>What an implementation of the two traits provides.\<close>

record 'i ContainerKind =
  item_parse :: "DataTypecode \<Rightarrow> bytes \<Rightarrow> ParseError + 'i"
  item_typecode :: "'i \<Rightarrow> DataTypecode"
  item_data :: "'i \<Rightarrow> bytes"
  hrp_mainnet :: string
  hrp_testnet :: string
  hrp_regtest :: string
  hrp_mainnet_r2 :: string
  hrp_testnet_r2 :: string
  hrp_regtest_r2 :: string
  hrp_mainnet_r2_ti :: string
  hrp_testnet_r2_ti :: string
  hrp_regtest_r2_ti :: string
  is_address :: bool

text \<open>The typecode and the payload an item is written with.\<close>

definition uitem_code :: "'i ContainerKind \<Rightarrow> 'i Uitem \<Rightarrow> Typecode" where
  "uitem_code K item =
     (case item of DataItem d \<Rightarrow> DataCode (item_typecode K d) | MetaItem m \<Rightarrow> MetadataCode (metadata_typecode m))"

definition uitem_data :: "'i ContainerKind \<Rightarrow> 'i Uitem \<Rightarrow> bytes" where
  "uitem_data K item = (case item of DataItem d \<Rightarrow> item_data K d | MetaItem m \<Rightarrow> metadata_data m)"

text \<open>The comparison of slices: lexicographic.\<close>

fun slice_cmp :: "bytes \<Rightarrow> bytes \<Rightarrow> ordering" where
  "slice_cmp [] [] = Equal"
| "slice_cmp [] (y # ys) = Less"
| "slice_cmp (x # xs) [] = Greater"
| "slice_cmp (x # xs) (y # ys) = (case ord_cmp x y of Equal \<Rightarrow> slice_cmp xs ys | c \<Rightarrow> c)"

definition uitem_encoding_order :: "'i ContainerKind \<Rightarrow> 'i Uitem \<Rightarrow> 'i Uitem \<Rightarrow> ordering" where
  "uitem_encoding_order K a b =
     (case ord_cmp (typecode_value (uitem_code K a)) (typecode_value (uitem_code K b)) of
        Equal \<Rightarrow>
          (case (a, b) of
             (DataItem a, DataItem b) \<Rightarrow> slice_cmp (item_data K a) (item_data K b)
           | (MetaItem a, MetaItem b) \<Rightarrow> slice_cmp (metadata_data a) (metadata_data b)
           | _ \<Rightarrow> Equal)
      | c \<Rightarrow> c)"

definition item_preference_order :: "'i ContainerKind \<Rightarrow> 'i \<Rightarrow> 'i \<Rightarrow> ordering" where
  "item_preference_order K a b =
     (case data_preference_order (item_typecode K a) (item_typecode K b) of
        Equal \<Rightarrow> slice_cmp (item_data K a) (item_data K b)
      | res \<Rightarrow> res)"

text \<open>\<open>sort_unstable_by\<close>: sorting by a comparison, here by insertion.\<close>

primrec insert_by :: "('a \<Rightarrow> 'a \<Rightarrow> ordering) \<Rightarrow> 'a \<Rightarrow> 'a list \<Rightarrow> 'a list" where
  "insert_by cmp x [] = [x]"
| "insert_by cmp x (y # ys) = (if cmp x y = Greater then y # insert_by cmp x ys else x # y # ys)"

primrec sort_by :: "('a \<Rightarrow> 'a \<Rightarrow> ordering) \<Rightarrow> 'a list \<Rightarrow> 'a list" where
  "sort_by cmp [] = []"
| "sort_by cmp (x # xs) = insert_by cmp x (sort_by cmp xs)"

section \<open>Writing a container\<close>

record 'i Container =
  revision :: Revision
  citems :: "'i Uitem list"

definition write_item :: "Typecode \<Rightarrow> bytes \<Rightarrow> writer" where
  "write_item tc d =
     write_seq (compact_size_write (typecode_value tc)) (write_seq (compact_size_write (length d)) (Inr d))"

primrec write_raw_encoding :: "'i ContainerKind \<Rightarrow> 'i Uitem list \<Rightarrow> writer" where
  "write_raw_encoding K [] = Inr []"
| "write_raw_encoding K (item # items) =
     write_seq (write_item (uitem_code K item) (uitem_data K item)) (write_raw_encoding K items)"

definition network_hrp :: "'i ContainerKind \<Rightarrow> NetworkType \<Rightarrow> Revision \<Rightarrow> bool \<Rightarrow> string" where
  "network_hrp K network rv has_transparent =
     (case (network, rv) of
        (Main, R0) \<Rightarrow> hrp_mainnet K
      | (Test, R0) \<Rightarrow> hrp_testnet K
      | (Regtest, R0) \<Rightarrow> hrp_regtest K
      | (Main, R2) \<Rightarrow> if is_address K \<and> has_transparent then hrp_mainnet_r2_ti K else hrp_mainnet_r2 K
      | (Test, R2) \<Rightarrow> if is_address K \<and> has_transparent then hrp_testnet_r2_ti K else hrp_testnet_r2 K
      | (Regtest, R2) \<Rightarrow> if is_address K \<and> has_transparent then hrp_regtest_r2_ti K else hrp_regtest_r2 K)"

definition hrp_network :: "'i ContainerKind \<Rightarrow> string \<Rightarrow> (NetworkType \<times> Revision) option" where
  "hrp_network K hrp =
     (if hrp = hrp_mainnet K then Some (Main, R0)
      else if hrp = hrp_testnet K then Some (Test, R0)
      else if hrp = hrp_regtest K then Some (Regtest, R0)
      else if hrp = hrp_mainnet_r2 K then Some (Main, R2)
      else if hrp = hrp_testnet_r2 K then Some (Test, R2)
      else if hrp = hrp_regtest_r2 K then Some (Regtest, R2)
      else if hrp = hrp_mainnet_r2_ti K then Some (Main, R2)
      else if hrp = hrp_testnet_r2_ti K then Some (Test, R2)
      else if hrp = hrp_regtest_r2_ti K then Some (Regtest, R2)
      else None)"

text \<open>The bytes of a human-readable part, padded with zeros.\<close>

definition hrp_padding :: "string \<Rightarrow> bytes" where
  "hrp_padding hrp = map of_char hrp @ replicate (PADDING_LEN - length hrp) 0"

text \<open>The assertion and the two \<open>expect\<close>s panic.\<close>

definition to_jumbled_bytes ::
    "(nat \<Rightarrow> bytes \<Rightarrow> bytes \<Rightarrow> bytes) \<Rightarrow> 'i ContainerKind \<Rightarrow> 'i Container \<Rightarrow> string \<Rightarrow> bytes option" where
  "to_jumbled_bytes blake2b K c hrp =
     (if PADDING_LEN < length hrp then None
      else case write_raw_encoding K (citems c) of
        Inl _ \<Rightarrow> None
      | Inr padded \<Rightarrow>
          (case f4jumble blake2b (padded @ hrp_padding hrp) of Inl _ \<Rightarrow> None | Inr out \<Rightarrow> Some out))"

section \<open>Parsing a container\<close>

text \<open>
  \<open>read_raw_item\<close> on the rest of the buffer. The sum of the position and the length cannot overflow: a
  length read is at most \<open>MAX_COMPACT_SIZE\<close>.
\<close>

definition read_raw_item :: "bytes \<Rightarrow> ParseError + ((nat \<times> bytes) \<times> bytes)" where
  "read_raw_item buf =
     (case compact_size_read buf of
        Inl _ \<Rightarrow> Inl (InvalidEncoding ''Failed to deserialize CompactSize-encoded typecode'')
      | Inr (tc, buf1) \<Rightarrow>
          (case compact_size_read buf1 of
             Inl _ \<Rightarrow> Inl (InvalidEncoding ''Failed to deserialize CompactSize-encoded length'')
           | Inr (len, buf2) \<Rightarrow>
               if length buf2 < unat len then Inl (InvalidEncoding ''Truncated: unable to read item data'')
               else Inr ((unat tc, take (unat len) buf2), drop (unat len) buf2)))"

definition parse_metadata_item :: "Revision \<Rightarrow> MetadataTypecode \<Rightarrow> bytes \<Rightarrow> ParseError + MetadataItem" where
  "parse_metadata_item rv typecode data =
     (let tc_val = metadata_code_value typecode in
      if rv = R0 \<and> MUST_UNDERSTAND_METADATA_MIN \<le> tc_val then Inl (NotUnderstood tc_val)
      else case typecode of
        MtExpiryHeight \<Rightarrow>
          if length data = 4 then Inr (MdExpiryHeight (from_le_bytes data))
          else Inl (InvalidMetadataLength tc_val 4 (length data))
      | MtExpiryTime \<Rightarrow>
          if length data = 8 then Inr (MdExpiryTime (from_le_bytes data))
          else Inl (InvalidMetadataLength tc_val 8 (length data))
      | MtUnknown tc \<Rightarrow>
          if MUST_UNDERSTAND_METADATA_MIN \<le> tc then Inl (NotUnderstood tc)
          else Inr (MdUnknown tc data))"

text \<open>The body of the loop of \<open>parse_items\<close>.\<close>

definition parse_item :: "'i ContainerKind \<Rightarrow> Revision \<Rightarrow> nat \<times> bytes \<Rightarrow> ParseError + 'i Uitem" where
  "parse_item K rv p =
     (case typecode_try_from (fst p) of
        Inl e \<Rightarrow> Inl e
      | Inr (DataCode dtc) \<Rightarrow>
          let dtc' = (if rv = R0 \<and> \<not> is_address K \<and> dtc = DtP2sh then DtUnknown (data_code_value dtc) else dtc)
          in map_sum id DataItem (item_parse K dtc' (snd p))
      | Inr (MetadataCode mtc) \<Rightarrow> map_sum id MetaItem (parse_metadata_item rv mtc (snd p)))"

lemma compact_size_read_shorter:
  assumes "compact_size_read bs = Inr (n, rest)"
  shows "length rest < length bs"
proof -
  from assms have "compact_size_read_unbounded bs = Inr (n, rest)"
    by (auto simp: compact_size_read_def read_bind_Inr split: if_splits)
  then show ?thesis
    by (auto simp: compact_size_read_unbounded_def read_bind_Inr read_exact_Inr read_le_Inr Let_def
        split: if_splits)
qed

lemma read_raw_item_shorter: "read_raw_item bs = Inr (p, rest) \<Longrightarrow> length rest < length bs"
  by (auto simp: read_raw_item_def split: sum.splits prod.splits if_splits dest!: compact_size_read_shorter)

text \<open>The loop, until the buffer is used up.\<close>

function parse_loop :: "'i ContainerKind \<Rightarrow> Revision \<Rightarrow> bytes \<Rightarrow> ParseError + 'i Uitem list" where
  "parse_loop K rv buf =
     (if buf = [] then Inr []
      else case read_raw_item buf of
        Inl e \<Rightarrow> Inl e
      | Inr (p, rest) \<Rightarrow>
          (case parse_item K rv p of
             Inl e \<Rightarrow> Inl e
           | Inr item \<Rightarrow> map_sum id (\<lambda>items. item # items) (parse_loop K rv rest)))"
  by pat_completeness auto
termination
  by (relation "measure (\<lambda>(K, rv, buf). length buf)") (auto dest: read_raw_item_shorter)

declare parse_loop.simps [simp del]

definition parse_items ::
    "(nat \<Rightarrow> bytes \<Rightarrow> bytes \<Rightarrow> bytes) \<Rightarrow> 'i ContainerKind \<Rightarrow> string \<Rightarrow> bytes \<Rightarrow> Revision \<Rightarrow> ParseError + 'i Uitem list"
  where
  "parse_items blake2b K hrp buf rv =
     (case f4jumble_inv_mut blake2b buf of
        (Inl _, _) \<Rightarrow> Inl (InvalidEncoding ''F4Jumble decoding failed'')
      | (Inr _, encoded) \<Rightarrow>
          if 16 < length hrp then Inl (InvalidEncoding ''Invalid human-readable part'')
          else if drop (length encoded - PADDING_LEN) encoded = hrp_padding hrp then
            parse_loop K rv (take (length encoded - PADDING_LEN) encoded)
          else Inl (InvalidEncoding ''Invalid padding bytes''))"

text \<open>
  The loop of \<open>try_from_items_internal\<close>: whether there was a data item, whether there were only
  transparent ones, and the previous typecode.
\<close>

definition check_item :: "'i ContainerKind \<Rightarrow> Revision \<Rightarrow> 'i Uitem \<Rightarrow> nat option \<Rightarrow> ParseError option" where
  "check_item K rv item prev_code =
     (let t = uitem_code K item; v = typecode_value t in
      if MAX_COMPACT_SIZE < v then Some (InvalidTypecodeValue v)
      else case
        (case item of
           DataItem d \<Rightarrow>
             if rv = R0 \<and> \<not> is_address K \<and> item_typecode K d = DtP2sh then Some (NotDefinedInRevision t rv)
             else None
         | MetaItem m \<Rightarrow>
             (case metadata_typecode m of
                MtUnknown tc \<Rightarrow>
                  if MUST_UNDERSTAND_METADATA_MIN \<le> tc then Some (NotUnderstood tc)
                  else if rv = R0 \<and> MUST_UNDERSTAND_METADATA_MIN \<le> v then Some (NotDefinedInRevision t rv)
                  else None
              | _ \<Rightarrow>
                  if rv = R0 \<and> MUST_UNDERSTAND_METADATA_MIN \<le> v then Some (NotDefinedInRevision t rv)
                  else None)) of
        Some e \<Rightarrow> Some e
      | None \<Rightarrow>
          (case prev_code of
             None \<Rightarrow> None
           | Some p \<Rightarrow>
               if v < p then Some InvalidTypecodeOrder
               else if v = p then Some (DuplicateTypecode t)
               else (case item of
                   DataItem d \<Rightarrow>
                     if item_typecode K d = DtP2sh \<and> p = data_code_value DtP2pkh then Some BothP2phkAndP2sh else None
                 | MetaItem _ \<Rightarrow> None)))"

primrec check_items ::
    "'i ContainerKind \<Rightarrow> Revision \<Rightarrow> bool \<Rightarrow> bool \<Rightarrow> nat option \<Rightarrow> 'i Uitem list \<Rightarrow> ParseError + bool \<times> bool" where
  "check_items K rv has_data only_transparent prev_code [] = Inr (has_data, only_transparent)"
| "check_items K rv has_data only_transparent prev_code (item # items) =
     (case check_item K rv item prev_code of
        Some e \<Rightarrow> Inl e
      | None \<Rightarrow>
          let v = typecode_value (uitem_code K item) in
          (case item of
             DataItem d \<Rightarrow>
               check_items K rv True (only_transparent \<and> is_transparent (item_typecode K d)) (Some v) items
           | MetaItem _ \<Rightarrow> check_items K rv has_data only_transparent (Some v) items))"

definition try_from_items_internal ::
    "'i ContainerKind \<Rightarrow> Revision \<Rightarrow> 'i Uitem list \<Rightarrow> (ParseError + 'i Container) option" where
  "try_from_items_internal K rv items =
     (case check_items K rv False True None items of
        Inl e \<Rightarrow> Some (Inl e)
      | Inr (has_data_item, only_transparent) \<Rightarrow>
          if \<not> has_data_item then Some (Inl NoDataItems)
          else if rv = R0 \<and> only_transparent then Some (Inl OnlyTransparent)
          else case write_raw_encoding K items of
            Inl _ \<Rightarrow> None
          | Inr raw \<Rightarrow>
              let padded_length = length raw + PADDING_LEN in
              if \<not> VALID_LENGTH padded_length then Some (Inl (InvalidEncodedLength padded_length))
              else Some (Inr \<lparr>revision = rv, citems = items\<rparr>))"

definition has_transparent_item :: "'i ContainerKind \<Rightarrow> 'i Uitem list \<Rightarrow> bool" where
  "has_transparent_item K items \<longleftrightarrow>
     (\<exists>item\<in>set items. case item of DataItem d \<Rightarrow> is_transparent (item_typecode K d) | MetaItem _ \<Rightarrow> False)"

definition parse_internal ::
    "(nat \<Rightarrow> bytes \<Rightarrow> bytes \<Rightarrow> bytes) \<Rightarrow> 'i ContainerKind \<Rightarrow> string \<Rightarrow> bytes \<Rightarrow> Revision
     \<Rightarrow> (ParseError + 'i Container) option" where
  "parse_internal blake2b K hrp buf rv =
     (case parse_items blake2b K hrp buf rv of
        Inl e \<Rightarrow> Some (Inl e)
      | Inr items \<Rightarrow>
          (case try_from_items_internal K rv items of
             None \<Rightarrow> None
           | Some (Inl e) \<Rightarrow> Some (Inl e)
           | Some (Inr result) \<Rightarrow>
               if rv = R2 \<and> is_address K \<and>
                   \<not> (hrp = hrp_mainnet_r2_ti K \<or> hrp = hrp_testnet_r2_ti K \<or> hrp = hrp_regtest_r2_ti K) \<and>
                   has_transparent_item K (citems result)
               then Some (Inl TransparentReceiverInR2Address)
               else Some (Inr result)))"

section \<open>The operations of a container\<close>

definition try_from_items ::
    "'i ContainerKind \<Rightarrow> Revision \<Rightarrow> 'i Uitem list \<Rightarrow> (ParseError + 'i Container) option" where
  "try_from_items K rv items = try_from_items_internal K rv (sort_by (uitem_encoding_order K) items)"

text \<open>\<open>bech32_decode\<close> is the checked parsing of a string: its human-readable part and its data.\<close>

definition unified_decode ::
    "(nat \<Rightarrow> bytes \<Rightarrow> bytes \<Rightarrow> bytes) \<Rightarrow> (string \<Rightarrow> (string \<times> bytes) option) \<Rightarrow> 'i ContainerKind \<Rightarrow> string
     \<Rightarrow> (ParseError + NetworkType \<times> Revision \<times> 'i Container) option" where
  "unified_decode blake2b bech32_decode K s =
     (case bech32_decode s of
        None \<Rightarrow> Some (Inl NotUnified)
      | Some (hrp, data) \<Rightarrow>
          (case hrp_network K hrp of
             None \<Rightarrow> Some (Inl (UnknownPrefix hrp))
           | Some (net, rv) \<Rightarrow>
               map_option (map_sum id (\<lambda>c. (net, rv, c))) (parse_internal blake2b K hrp data rv)))"

definition unified_encode ::
    "(nat \<Rightarrow> bytes \<Rightarrow> bytes \<Rightarrow> bytes) \<Rightarrow> (string \<Rightarrow> bytes \<Rightarrow> string option) \<Rightarrow> 'i ContainerKind
     \<Rightarrow> 'i Container \<Rightarrow> NetworkType \<Rightarrow> string option" where
  "unified_encode blake2b bech32_encode K c network =
     (let has_transparent = is_address K \<and> has_transparent_item K (citems c);
          hrp = network_hrp K network (revision c) has_transparent
      in Option.bind (to_jumbled_bytes blake2b K c hrp) (bech32_encode hrp))"

definition container_items :: "'i ContainerKind \<Rightarrow> 'i Container \<Rightarrow> 'i list" where
  "container_items K c =
     sort_by (item_preference_order K)
       (List.map_filter (\<lambda>item. case item of DataItem d \<Rightarrow> Some d | MetaItem _ \<Rightarrow> None) (citems c))"

definition metadata_items :: "'i Container \<Rightarrow> MetadataItem list" where
  "metadata_items c = List.map_filter (\<lambda>item. case item of MetaItem m \<Rightarrow> Some m | DataItem _ \<Rightarrow> None) (citems c)"

section \<open>Items are read back\<close>

lemma map_sum_Inr: "map_sum f g x = Inr y \<longleftrightarrow> (\<exists>z. x = Inr z \<and> y = g z)"
  by (cases x) auto

lemma compact_read_usize:
  "compact_size_read_usize bs = Inr (n, rest) \<longleftrightarrow> (\<exists>w. compact_size_read bs = Inr (w, rest) \<and> unat w = n)"
  by (auto simp: compact_size_read_usize_def compact_size_read_t_def read_bind_Inr usize_try_from_def)

definition write_pair :: "nat \<Rightarrow> bytes \<Rightarrow> writer" where
  "write_pair v d = write_seq (compact_size_write v) (write_seq (compact_size_write (length d)) (Inr d))"

lemma write_item_pair: "write_item tc d = write_pair (typecode_value tc) d"
  by (simp add: write_item_def write_pair_def)

text \<open>Reading and writing one item are inverse.\<close>

lemma read_raw_item_iff:
  "read_raw_item bs = Inr ((v, d), rest) \<longleftrightarrow> (\<exists>out. write_pair v d = Inr out \<and> bs = out @ rest)" (is "?l = ?r")
proof
  assume ?l
  then obtain tc b1 len b2 where
    r: "compact_size_read bs = Inr (tc, b1)" "compact_size_read b1 = Inr (len, b2)" "unat len \<le> length b2"
      "v = unat tc" "d = take (unat len) b2" "rest = drop (unat len) b2"
    by (auto simp: read_raw_item_def split: sum.splits prod.splits if_splits)
  from r(1) have "compact_size_read_usize bs = Inr (v, b1)" using r(4) compact_read_usize by blast
  then obtain o1 where o1: "compact_size_write v = Inr o1" "bs = o1 @ b1" using compact.canonical by blast
  from r(2) have "compact_size_read_usize b1 = Inr (unat len, b2)" using compact_read_usize by blast
  then obtain o2 where o2: "compact_size_write (unat len) = Inr o2" "b1 = o2 @ b2" using compact.canonical by blast
  have "length d = unat len" "b2 = d @ rest" using r by simp_all
  then show ?r using o1 o2 by (auto simp: write_pair_def)
next
  assume ?r
  then obtain o1 o2 where o: "compact_size_write v = Inr o1" "compact_size_write (length d) = Inr o2"
      "bs = o1 @ o2 @ d @ rest" by (auto simp: write_pair_def)
  have le: "v \<le> MAX_COMPACT_SIZE" "length d \<le> MAX_COMPACT_SIZE"
    using o(1,2) by (auto simp: compact_size_write_def split: if_splits)
  from compact.dec_enc [OF le(1) o(1)] obtain w where
    w: "compact_size_read bs = Inr (w, o2 @ d @ rest)" "unat w = v" unfolding o(3) compact_read_usize by blast
  from compact.dec_enc [OF le(2) o(2)] obtain l where
    l: "compact_size_read (o2 @ d @ rest) = Inr (l, d @ rest)" "unat l = length d"
    unfolding compact_read_usize by blast
  show ?l using w l by (simp add: read_raw_item_def)
qed

lemma write_pair_nonempty: "write_pair v d = Inr out \<Longrightarrow> out \<noteq> []"
  using read_raw_item_iff [of out v d "[]"] by (auto simp: read_raw_item_def split: sum.splits
      dest!: compact_size_read_shorter)

text \<open>An item the parser of the revision makes from the encoding of the item.\<close>

definition item_good :: "'i ContainerKind \<Rightarrow> Revision \<Rightarrow> 'i Uitem \<Rightarrow> bool" where
  "item_good K rv item \<longleftrightarrow> parse_item K rv (typecode_value (uitem_code K item), uitem_data K item) = Inr item"

lemma parse_loop_write:
  "write_raw_encoding K items = Inr raw \<Longrightarrow> \<forall>item\<in>set items. item_good K rv item \<Longrightarrow>
   parse_loop K rv raw = Inr items"
proof (induction items arbitrary: raw)
  case Nil
  then show ?case by (simp add: parse_loop.simps)
next
  case (Cons item items)
  let ?v = "typecode_value (uitem_code K item)" and ?d = "uitem_data K item"
  from Cons.prems(1) obtain o1 o2 where o: "write_pair ?v ?d = Inr o1" "write_raw_encoding K items = Inr o2"
      "raw = o1 @ o2" by (auto simp: write_item_pair)
  then have "read_raw_item raw = Inr ((?v, ?d), o2)" using read_raw_item_iff by blast
  moreover have "raw \<noteq> []" using write_pair_nonempty [OF o(1)] o(3) by simp
  moreover have "parse_loop K rv o2 = Inr items" using Cons.IH [OF o(2)] Cons.prems(2) by simp
  ultimately show ?case using Cons.prems(2)
    by (simp add: parse_loop.simps [of K rv raw] item_good_def)
qed

text \<open>What a typecode read back stands for.\<close>

lemma typecode_try_from_value: "typecode_try_from v = Inr t \<Longrightarrow> typecode_value t = v"
  by (auto simp: typecode_try_from_def typecode_value_def data_code_value_def metadata_code_value_def
      split: if_splits)

lemma parse_metadata_sound:
  "parse_metadata_item rv tc d = Inr m \<Longrightarrow> metadata_typecode m = tc \<and> metadata_data m = d"
  by (auto simp: parse_metadata_item_def Let_def metadata_typecode_def metadata_data_def
      split: MetadataTypecode.splits if_splits)

section \<open>The contract of a container kind\<close>

text \<open>
  A parsed item remembers its typecode and its payload; the prefix of a network and a revision
  stands for them, and fits into the padding.
\<close>

locale container_kind =
  fixes K :: "'i ContainerKind"
  assumes parse_sound: "item_parse K tc d = Inr i \<Longrightarrow> item_typecode K i = tc \<and> item_data K i = d"
    and hrp_known: "hrp_network K (network_hrp K net rv t) = Some (net, rv)"
    and hrp_short: "length (network_hrp K net rv t) \<le> PADDING_LEN"
begin

lemma parse_item_sound:
  assumes "parse_item K rv (v, d) = Inr item"
  shows "typecode_value (uitem_code K item) = v" "uitem_data K item = d" "item_good K rv item"
proof -
  from assms obtain t where t: "typecode_try_from v = Inr t" by (auto simp: parse_item_def split: sum.splits)
  have "typecode_value (uitem_code K item) = v \<and> uitem_data K item = d"
  proof (cases t)
    case (DataCode dtc)
    with assms t obtain i where "item = DataItem i"
        "item_parse K (if rv = R0 \<and> \<not> is_address K \<and> dtc = DtP2sh then DtUnknown (data_code_value dtc) else dtc) d = Inr i"
      by (auto simp: parse_item_def Let_def map_sum_Inr)
    with parse_sound [OF this(2)] typecode_try_from_value [OF t] DataCode show ?thesis
      by (auto simp: uitem_code_def uitem_data_def typecode_value_def data_code_value_def split: if_splits)
  next
    case (MetadataCode mtc)
    with assms t typecode_try_from_value [OF t] show ?thesis
      by (auto simp: parse_item_def uitem_code_def uitem_data_def map_sum_Inr dest!: parse_metadata_sound)
  qed
  then show "typecode_value (uitem_code K item) = v" "uitem_data K item = d" "item_good K rv item"
    using assms by (simp_all add: item_good_def)
qed

lemma parse_loop_sound:
  "parse_loop K rv buf = Inr items \<Longrightarrow>
   write_raw_encoding K items = Inr buf \<and> (\<forall>item\<in>set items. item_good K rv item)"
proof (induction buf arbitrary: items rule: measure_induct_rule [of length])
  case (less buf)
  show ?case
  proof (cases "buf = []")
    case True
    with less.prems show ?thesis by (simp add: parse_loop.simps)
  next
    case False
    with less.prems obtain v d rest item items' where
      r: "read_raw_item buf = Inr ((v, d), rest)" "parse_item K rv (v, d) = Inr item"
        "parse_loop K rv rest = Inr items'" "items = item # items'"
      by (auto simp: parse_loop.simps [of K rv buf] map_sum_Inr split: sum.splits)
    from less.IH [OF read_raw_item_shorter [OF r(1)] r(3)] have
      ih: "write_raw_encoding K items' = Inr rest" "\<forall>item\<in>set items'. item_good K rv item" by simp_all
    from r(1) obtain out where "write_pair v d = Inr out" "buf = out @ rest" using read_raw_item_iff by blast
    with ih r(4) parse_item_sound [OF r(2)] show ?thesis by (simp add: write_item_pair)
  qed
qed

lemma parse_back:
  assumes blake: "blake2b_lengths blake2b" and hrp: "length hrp \<le> PADDING_LEN"
    and raw: "write_raw_encoding K items = Inr raw" "VALID_LENGTH (length raw + PADDING_LEN)"
    and good: "\<forall>item\<in>set items. item_good K rv item"
  shows "\<exists>data. to_jumbled_bytes blake2b K \<lparr>revision = rv, citems = items\<rparr> hrp = Some data \<and>
    parse_items blake2b K hrp data rv = Inr items"
proof -
  let ?m = "raw @ hrp_padding hrp"
  have pad: "length (hrp_padding hrp) = PADDING_LEN" using hrp by (simp add: hrp_padding_def)
  then have "VALID_LENGTH (length ?m)" using raw(2) by simp
  with f4jumble_inverse [OF blake, of ?m] obtain j where
    j: "f4jumble blake2b ?m = Inr j" "f4jumble_inv_mut blake2b j = (Inr (), ?m)" by auto
  have "to_jumbled_bytes blake2b K \<lparr>revision = rv, citems = items\<rparr> hrp = Some j"
    using raw(1) j(1) hrp by (simp add: to_jumbled_bytes_def)
  moreover have "parse_items blake2b K hrp j rv = Inr items"
    using j(2) pad hrp parse_loop_write [OF raw(1) good] by (simp add: parse_items_def PADDING_LEN_def)
  ultimately show ?thesis by blast
qed

lemma parse_items_sound:
  assumes blake: "blake2b_lengths blake2b" and p: "parse_items blake2b K hrp data rv = Inr items"
  shows "length hrp \<le> PADDING_LEN \<and> (\<exists>raw. write_raw_encoding K items = Inr raw) \<and>
    (\<forall>item\<in>set items. item_good K rv item) \<and>
    to_jumbled_bytes blake2b K \<lparr>revision = rv, citems = items\<rparr> hrp = Some data"
proof -
  from p obtain enc where e: "f4jumble_inv_mut blake2b data = (Inr (), enc)" "length hrp \<le> 16"
      "drop (length enc - PADDING_LEN) enc = hrp_padding hrp"
      "parse_loop K rv (take (length enc - PADDING_LEN) enc) = Inr items"
    by (auto simp: parse_items_def split: prod.splits sum.splits if_splits)
  have "VALID_LENGTH (length data)" using e(1) by (simp add: f4jumble_inv_mut_def split: if_splits)
  with f4jumble_inverse [OF blake, of data] e(1) have "f4jumble blake2b enc = Inr data" by (auto simp: f4jumble_inv_def)
  moreover have "take (length enc - PADDING_LEN) enc @ hrp_padding hrp = enc"
    using e(3) append_take_drop_id by metis
  ultimately show ?thesis using parse_loop_sound [OF e(4)] e(2)
    by (simp add: to_jumbled_bytes_def PADDING_LEN_def)
qed

end

section \<open>What a valid container is\<close>

definition item_allowed :: "'i ContainerKind \<Rightarrow> Revision \<Rightarrow> 'i Uitem \<Rightarrow> bool" where
  "item_allowed K rv item \<longleftrightarrow> typecode_value (uitem_code K item) \<le> MAX_COMPACT_SIZE \<and>
     (case item of
        DataItem d \<Rightarrow> \<not> (rv = R0 \<and> \<not> is_address K \<and> item_typecode K d = DtP2sh)
      | MetaItem m \<Rightarrow>
          (rv = R0 \<longrightarrow> \<not> is_must_understand (metadata_typecode m)) \<and>
          (\<forall>tc. metadata_typecode m = MtUnknown tc \<longrightarrow> \<not> is_must_understand (MtUnknown tc)))"

text \<open>A \<open>P2sh\<close> item and an item of the value of \<open>P2pkh\<close>, in a list that may follow a typecode.\<close>

definition both_transparent :: "'i ContainerKind \<Rightarrow> nat list \<Rightarrow> 'i Uitem list \<Rightarrow> bool" where
  "both_transparent K prev items \<longleftrightarrow>
     0 \<in> set prev \<union> (\<lambda>item. typecode_value (uitem_code K item)) ` set items \<and>
     (\<exists>d. DataItem d \<in> set items \<and> item_typecode K d = DtP2sh)"

definition valid_items :: "'i ContainerKind \<Rightarrow> Revision \<Rightarrow> 'i Uitem list \<Rightarrow> bool" where
  "valid_items K rv items \<longleftrightarrow>
     (\<forall>item\<in>set items. item_allowed K rv item) \<and>
     sorted_wrt (<) (map (\<lambda>item. typecode_value (uitem_code K item)) items) \<and>
     \<not> both_transparent K [] items \<and>
     (\<exists>d. DataItem d \<in> set items) \<and>
     (rv = R0 \<longrightarrow> (\<exists>d. DataItem d \<in> set items \<and> \<not> is_transparent (item_typecode K d))) \<and>
     (\<exists>raw. write_raw_encoding K items = Inr raw \<and> VALID_LENGTH (length raw + PADDING_LEN))"

lemma check_item_None:
  "check_item K rv item prev = None \<longleftrightarrow> item_allowed K rv item \<and>
     (\<forall>p. prev = Some p \<longrightarrow> p < typecode_value (uitem_code K item) \<and>
       \<not> (p = 0 \<and> (\<exists>d. item = DataItem d \<and> item_typecode K d = DtP2sh)))"
  by (cases item; cases prev)
    (auto simp: check_item_def Let_def item_allowed_def is_must_understand_def uitem_code_def typecode_value_def
      metadata_code_value_def data_code_value_def split: MetadataTypecode.splits if_splits)

lemma p2sh_value: "item_typecode K d = DtP2sh \<Longrightarrow> typecode_value (uitem_code K (DataItem d)) = 1"
  by (simp add: uitem_code_def typecode_value_def data_code_value_def)

lemma both_transparent_Cons:
  assumes "\<forall>p\<in>set prev. p < typecode_value (uitem_code K item)"
    and "\<forall>i\<in>set items. typecode_value (uitem_code K item) < typecode_value (uitem_code K i)"
  shows "both_transparent K prev (item # items) \<longleftrightarrow>
    (\<exists>d. item = DataItem d \<and> item_typecode K d = DtP2sh \<and> 0 \<in> set prev) \<or>
    both_transparent K [typecode_value (uitem_code K item)] items" (is "?l \<longleftrightarrow> ?r")
proof
  assume ?l
  then obtain d where d: "DataItem d \<in> set (item # items)" "item_typecode K d = DtP2sh"
    and zero: "0 \<in> set prev \<union> (\<lambda>i. typecode_value (uitem_code K i)) ` set (item # items)"
    by (auto simp: both_transparent_def)
  show ?r
  proof (cases "item = DataItem d")
    case True
    then have "typecode_value (uitem_code K item) = 1" using p2sh_value d(2) by simp
    then have "0 \<in> set prev" using zero assms(2) by auto
    then show ?thesis using True d(2) by blast
  next
    case False
    then have mem: "DataItem d \<in> set items" using d(1) by simp
    then have "typecode_value (uitem_code K item) < 1" using assms(2) p2sh_value [OF d(2)] by fastforce
    then show ?thesis using mem d(2) by (auto simp: both_transparent_def)
  qed
next
  assume ?r
  then show ?l by (auto simp: both_transparent_def)
qed

lemma check_items_Inr:
  "check_items K rv h ot prev items = Inr (h', ot') \<longleftrightarrow>
     (\<forall>item\<in>set items. item_allowed K rv item) \<and>
     sorted_wrt (<) (map (\<lambda>item. typecode_value (uitem_code K item)) items) \<and>
     (\<forall>p\<in>set_option prev. \<forall>item\<in>set items. p < typecode_value (uitem_code K item)) \<and>
     \<not> both_transparent K (case prev of None \<Rightarrow> [] | Some p \<Rightarrow> [p]) items \<and>
     h' = (h \<or> (\<exists>d. DataItem d \<in> set items)) \<and>
     ot' = (ot \<and> (\<forall>d. DataItem d \<in> set items \<longrightarrow> is_transparent (item_typecode K d)))"
proof (induction items arbitrary: h ot prev)
  case Nil
  then show ?case by (auto simp: both_transparent_def)
next
  case (Cons item items)
  let ?v = "typecode_value (uitem_code K item)" and ?prev = "case prev of None \<Rightarrow> [] | Some p \<Rightarrow> [p]"
  have prev: "set ?prev = set_option prev" by (cases prev) simp_all
  have step: "check_items K rv h ot prev (item # items) = Inr (h', ot') \<longleftrightarrow>
      check_item K rv item prev = None \<and>
      check_items K rv (h \<or> (\<exists>d. item = DataItem d))
        (ot \<and> (\<forall>d. item = DataItem d \<longrightarrow> is_transparent (item_typecode K d))) (Some ?v) items = Inr (h', ot')"
    by (cases item) (auto simp: Let_def split: option.splits)
  have both: "\<not> both_transparent K ?prev (item # items) \<longleftrightarrow>
      \<not> (\<exists>d. item = DataItem d \<and> item_typecode K d = DtP2sh \<and> 0 \<in> set_option prev) \<and>
      \<not> both_transparent K [?v] items"
    if "\<forall>p\<in>set_option prev. p < ?v" "\<forall>i\<in>set items. ?v < typecode_value (uitem_code K i)"
    using both_transparent_Cons [of ?prev K item items] that unfolding prev by blast
  show ?case (is "_ \<longleftrightarrow> ?rhs")
  proof
    assume "check_items K rv h ot prev (item # items) = Inr (h', ot')"
    then have s: "check_item K rv item prev = None" and r:
      "check_items K rv (h \<or> (\<exists>d. item = DataItem d))
        (ot \<and> (\<forall>d. item = DataItem d \<longrightarrow> is_transparent (item_typecode K d))) (Some ?v) items = Inr (h', ot')"
      unfolding step by blast+
    note r = r [unfolded Cons.IH, simplified]
    from s r both show ?rhs unfolding check_item_None by (cases prev) (auto dest: less_trans)
  next
    assume ?rhs
    with both show "check_items K rv h ot prev (item # items) = Inr (h', ot')"
      unfolding step Cons.IH check_item_None by (cases prev) auto
  qed
qed

lemma try_from_items_internal_Inr:
  "try_from_items_internal K rv items = Some (Inr c) \<longleftrightarrow> valid_items K rv items \<and> c = \<lparr>revision = rv, citems = items\<rparr>"
proof (cases "check_items K rv False True None items")
  case (Inl e)
  have "\<not> valid_items K rv items"
  proof
    assume "valid_items K rv items"
    then have "\<exists>h ot. check_items K rv False True None items = Inr (h, ot)"
      unfolding check_items_Inr by (auto simp: valid_items_def)
    with Inl show False by simp
  qed
  with Inl show ?thesis by (simp add: try_from_items_internal_def)
next
  case (Inr p)
  obtain h ot where p: "p = (h, ot)" by force
  from Inr p have chk: "check_items K rv False True None items = Inr (h, ot)" by simp
  then have "valid_items K rv items \<longleftrightarrow> h \<and> \<not> (rv = R0 \<and> ot) \<and>
      (\<exists>raw. write_raw_encoding K items = Inr raw \<and> VALID_LENGTH (length raw + PADDING_LEN))"
    unfolding check_items_Inr valid_items_def by auto
  then show ?thesis unfolding try_from_items_internal_def chk
    by (cases "write_raw_encoding K items") (auto simp: Let_def)
qed

section \<open>Sorting\<close>

lemma mset_sort_by [simp]: "mset (sort_by cmp xs) = mset xs"
proof -
  have "mset (insert_by cmp x ys) = add_mset x (mset ys)" for x ys by (induction ys) simp_all
  then show ?thesis by (induction xs) simp_all
qed

text \<open>A list that is valid is its own sorting.\<close>

lemma set_sort_by [simp]: "set (sort_by cmp xs) = set xs"
  by (metis mset_sort_by set_mset_mset)

lemma sort_by_sorted:
  "sorted_wrt (<) (map (\<lambda>item. typecode_value (uitem_code K item)) items) \<Longrightarrow>
   sort_by (uitem_encoding_order K) items = items"
proof (induction items)
  case (Cons item items)
  then have "sort_by (uitem_encoding_order K) items = items" by simp
  moreover have "insert_by (uitem_encoding_order K) item items = item # items"
    using Cons.prems by (cases items) (simp_all add: uitem_encoding_order_def ord_cmp_def)
  ultimately show ?case by simp
qed simp

section \<open>Containers are decoded to what was encoded\<close>

text \<open>The documented behaviour of the string encoding.\<close>

definition bech32_inverse :: "(string \<Rightarrow> bytes \<Rightarrow> string option) \<Rightarrow> (string \<Rightarrow> (string \<times> bytes) option) \<Rightarrow> bool" where
  "bech32_inverse bech32_encode bech32_decode \<longleftrightarrow>
     (\<forall>hrp data s. bech32_encode hrp data = Some s \<longrightarrow> bech32_decode s = Some (hrp, data))"

context container_kind
begin

lemma to_jumbled_revision: "to_jumbled_bytes blake2b K \<lparr>revision = r1, citems = items\<rparr> hrp =
    to_jumbled_bytes blake2b K \<lparr>revision = r2, citems = items\<rparr> hrp"
  by (simp add: to_jumbled_bytes_def)

text \<open>The prefix that \<open>encode\<close> chooses passes the check of \<open>parse_internal\<close>.\<close>

lemma prefix_check:
  "\<not> (is_address K \<and> has_transparent_item K items \<and>
     \<not> (hrp = hrp_mainnet_r2_ti K \<or> hrp = hrp_testnet_r2_ti K \<or> hrp = hrp_regtest_r2_ti K))"
  if "hrp = network_hrp K net R2 (is_address K \<and> has_transparent_item K items)"
  using that by (cases net) (auto simp: network_hrp_def)

lemma encode_decode:
  assumes blake: "blake2b_lengths blake2b" and bech: "bech32_inverse bech32_encode bech32_decode"
    and c: "valid_items K rv items" "\<forall>item\<in>set items. item_good K rv item"
  shows "\<exists>data hrp. hrp = network_hrp K net rv (is_address K \<and> has_transparent_item K items) \<and>
    to_jumbled_bytes blake2b K \<lparr>revision = rv, citems = items\<rparr> hrp = Some data \<and>
    parse_internal blake2b K hrp data rv = Some (Inr \<lparr>revision = rv, citems = items\<rparr>) \<and>
    unified_encode blake2b bech32_encode K \<lparr>revision = rv, citems = items\<rparr> net = bech32_encode hrp data \<and>
    (\<forall>s. bech32_encode hrp data = Some s \<longrightarrow>
      unified_decode blake2b bech32_decode K s = Some (Inr (net, rv, \<lparr>revision = rv, citems = items\<rparr>)))"
proof -
  let ?hrp = "network_hrp K net rv (is_address K \<and> has_transparent_item K items)"
  let ?c = "\<lparr>revision = rv, citems = items\<rparr>"
  from c(1) obtain raw where raw: "write_raw_encoding K items = Inr raw" "VALID_LENGTH (length raw + PADDING_LEN)"
    by (auto simp: valid_items_def)
  from parse_back [OF blake hrp_short raw c(2)] obtain data where
    d: "to_jumbled_bytes blake2b K ?c ?hrp = Some data" "parse_items blake2b K ?hrp data rv = Inr items" by blast
  have "try_from_items_internal K rv items = Some (Inr ?c)" using c(1) try_from_items_internal_Inr by blast
  moreover have "\<not> (rv = R2 \<and> is_address K \<and>
      \<not> (?hrp = hrp_mainnet_r2_ti K \<or> ?hrp = hrp_testnet_r2_ti K \<or> ?hrp = hrp_regtest_r2_ti K) \<and>
      has_transparent_item K items)" using prefix_check [of ?hrp net items] by auto
  ultimately have p: "parse_internal blake2b K ?hrp data rv = Some (Inr ?c)"
    using d(2) by (auto simp: parse_internal_def)
  have e: "unified_encode blake2b bech32_encode K ?c net = bech32_encode ?hrp data"
    using d(1) by (simp add: unified_encode_def Let_def)
  have "unified_decode blake2b bech32_decode K s = Some (Inr (net, rv, ?c))"
    if "bech32_encode ?hrp data = Some s" for s
    using that bech p by (simp add: bech32_inverse_def unified_decode_def hrp_known)
  with d(1) p e show ?thesis by blast
qed

text \<open>Decoding accepts only encodings: the data of the string is determined by the container.\<close>

lemma decode_canonical:
  assumes blake: "blake2b_lengths blake2b"
    and d: "unified_decode blake2b bech32_decode K s = Some (Inr (net, rv, c))"
  shows "\<exists>hrp data. bech32_decode s = Some (hrp, data) \<and> hrp_network K hrp = Some (net, rv) \<and>
    revision c = rv \<and> valid_items K rv (citems c) \<and> (\<forall>item\<in>set (citems c). item_good K rv item) \<and>
    to_jumbled_bytes blake2b K c hrp = Some data \<and>
    \<not> (rv = R2 \<and> is_address K \<and> has_transparent_item K (citems c) \<and>
      \<not> (hrp = hrp_mainnet_r2_ti K \<or> hrp = hrp_testnet_r2_ti K \<or> hrp = hrp_regtest_r2_ti K))"
proof -
  from d obtain hrp data where h: "bech32_decode s = Some (hrp, data)" "hrp_network K hrp = Some (net, rv)"
      "parse_internal blake2b K hrp data rv = Some (Inr c)"
    by (auto simp: unified_decode_def map_sum_Inr split: option.splits)
  from h(3) obtain items where i: "parse_items blake2b K hrp data rv = Inr items"
      "try_from_items_internal K rv items = Some (Inr c)"
    and chk: "\<not> (rv = R2 \<and> is_address K \<and> has_transparent_item K (citems c) \<and>
      \<not> (hrp = hrp_mainnet_r2_ti K \<or> hrp = hrp_testnet_r2_ti K \<or> hrp = hrp_regtest_r2_ti K))"
    by (auto simp: parse_internal_def split: sum.splits option.splits if_splits)
  from i(2) have c: "valid_items K rv items" "c = \<lparr>revision = rv, citems = items\<rparr>"
    unfolding try_from_items_internal_Inr by blast+
  from parse_items_sound [OF blake i(1)] h(1,2) c chk show ?thesis by auto
qed

end

end
