(* ===== verification/UnifiedAddress.thy ===== *)
theory UnifiedAddress
  imports Unified
begin

text \<open>
  Model of \<open>components/zcash_address/src/kind/unified/address.rs\<close>, with the prefixes of
  \<open>constants.rs\<close>: the receivers of a unified address and the container of them, as an instance of the
  container kinds. A byte array of the code is a byte string whose length \<open>receiver_ok\<close> states.
\<close>

section \<open>Receivers\<close>

datatype Receiver = RcOrchard bytes | RcSapling bytes | RcP2pkh bytes | RcP2sh bytes | RcUnknown nat bytes

text \<open>\<open>try_into\<close> of a slice into an array.\<close>

definition array_of :: "nat \<Rightarrow> (bytes \<Rightarrow> 'i) \<Rightarrow> string \<Rightarrow> bytes \<Rightarrow> ParseError + 'i" where
  "array_of n f msg d = (if length d = n then Inr (f d) else Inl (InvalidEncoding msg))"

definition receiver_parse :: "DataTypecode \<Rightarrow> bytes \<Rightarrow> ParseError + Receiver" where
  "receiver_parse typecode addr =
     (case typecode of
        DtP2pkh \<Rightarrow> array_of 20 RcP2pkh ''Invalid address for typecode'' addr
      | DtP2sh \<Rightarrow> array_of 20 RcP2sh ''Invalid address for typecode'' addr
      | DtSapling \<Rightarrow> array_of 43 RcSapling ''Invalid address for typecode'' addr
      | DtOrchard \<Rightarrow> array_of 43 RcOrchard ''Invalid address for typecode'' addr
      | DtUnknown tc \<Rightarrow> Inr (RcUnknown tc addr))"

definition receiver_typecode :: "Receiver \<Rightarrow> DataTypecode" where
  "receiver_typecode r =
     (case r of RcP2pkh _ \<Rightarrow> DtP2pkh | RcP2sh _ \<Rightarrow> DtP2sh | RcSapling _ \<Rightarrow> DtSapling | RcOrchard _ \<Rightarrow> DtOrchard
      | RcUnknown tc _ \<Rightarrow> DtUnknown tc)"

definition receiver_data :: "Receiver \<Rightarrow> bytes" where
  "receiver_data r =
     (case r of RcP2pkh d \<Rightarrow> d | RcP2sh d \<Rightarrow> d | RcSapling d \<Rightarrow> d | RcOrchard d \<Rightarrow> d | RcUnknown _ d \<Rightarrow> d)"

definition address_kind :: "Receiver ContainerKind" where
  "address_kind = \<lparr>
     item_parse = receiver_parse, item_typecode = receiver_typecode, item_data = receiver_data,
     hrp_mainnet = ''u'', hrp_testnet = ''utest'', hrp_regtest = ''uregtest'',
     hrp_mainnet_r2 = ''zu'', hrp_testnet_r2 = ''zutest'', hrp_regtest_r2 = ''zuregtest'',
     hrp_mainnet_r2_ti = ''tu'', hrp_testnet_r2_ti = ''tutest'', hrp_regtest_r2_ti = ''turegtest'',
     is_address = True\<rparr>"

section \<open>Queries\<close>

datatype ShieldedPool = PoolSapling | PoolOrchard | PoolIronwood

datatype PoolType = PoolTransparent | PoolShielded ShieldedPool

definition has_receiver_of_type :: "Receiver Container \<Rightarrow> PoolType \<Rightarrow> bool" where
  "has_receiver_of_type a pool_type \<longleftrightarrow>
     (\<exists>item\<in>set (citems a). case item of
        DataItem (RcOrchard _) \<Rightarrow> pool_type = PoolShielded PoolOrchard
      | DataItem (RcSapling _) \<Rightarrow> pool_type = PoolShielded PoolSapling
      | DataItem (RcP2pkh _) \<Rightarrow> pool_type = PoolTransparent
      | DataItem (RcP2sh _) \<Rightarrow> pool_type = PoolTransparent
      | DataItem (RcUnknown _ _) \<Rightarrow> False
      | MetaItem _ \<Rightarrow> False)"

definition contains_receiver :: "Receiver Container \<Rightarrow> Receiver \<Rightarrow> bool" where
  "contains_receiver a receiver \<longleftrightarrow>
     (\<exists>item\<in>set (citems a). case item of DataItem r \<Rightarrow> r = receiver | MetaItem _ \<Rightarrow> False)"

definition can_receive_memo :: "Receiver Container \<Rightarrow> bool" where
  "can_receive_memo a \<longleftrightarrow>
     (\<exists>item\<in>set (citems a). case item of
        DataItem (RcSapling _) \<Rightarrow> True | DataItem (RcOrchard _) \<Rightarrow> True | _ \<Rightarrow> False)"

section \<open>Addresses are container kinds\<close>

lemmas address_defs = address_kind_def receiver_parse_def receiver_typecode_def receiver_data_def array_of_def

interpretation address: container_kind address_kind
proof
  show "item_parse address_kind tc d = Inr i \<Longrightarrow>
      item_typecode address_kind i = tc \<and> item_data address_kind i = d" for tc d i
    by (auto simp: address_defs split: DataTypecode.splits if_splits)
  show "hrp_network address_kind (network_hrp address_kind net rv t) = Some (net, rv)" for net rv t
    by (cases net; cases rv; cases t) (simp_all add: address_kind_def hrp_network_def network_hrp_def)
  show "length (network_hrp address_kind net rv t) \<le> PADDING_LEN" for net rv t
    by (cases net; cases rv; cases t) (simp_all add: address_kind_def network_hrp_def PADDING_LEN_def)
qed

text \<open>
  Items as the types and ZIP 316 describe them: the arrays have their lengths, and an unknown
  typecode is of no known kind.
\<close>

fun receiver_ok :: "Receiver \<Rightarrow> bool" where
  "receiver_ok (RcOrchard d) \<longleftrightarrow> length d = 43"
| "receiver_ok (RcSapling d) \<longleftrightarrow> length d = 43"
| "receiver_ok (RcP2pkh d) \<longleftrightarrow> length d = 20"
| "receiver_ok (RcP2sh d) \<longleftrightarrow> length d = 20"
| "receiver_ok (RcUnknown tc d) \<longleftrightarrow> 0x04 \<le> tc \<and> tc \<le> 0xBF \<or> 0xFD \<le> tc \<and> tc \<le> 0x02000000"

fun address_item_ok :: "Receiver Uitem \<Rightarrow> bool" where
  "address_item_ok (DataItem r) \<longleftrightarrow> receiver_ok r"
| "address_item_ok (MetaItem (MdUnknown tc d)) \<longleftrightarrow> 0xC0 \<le> tc \<and> tc \<le> 0xFC \<and> tc \<noteq> 0xE0 \<and> tc \<noteq> 0xE1"
| "address_item_ok (MetaItem _) \<longleftrightarrow> True"

lemmas typecode_defs = uitem_code_def uitem_data_def typecode_value_def data_code_value_def
  metadata_code_value_def metadata_typecode_def metadata_data_def

lemma address_item_good:
  assumes "address_item_ok item" "item_allowed address_kind rv item"
  shows "item_good address_kind rv item"
proof (cases item)
  case (DataItem r)
  with assms(1) show ?thesis
    by (cases r) (auto simp: item_good_def parse_item_def typecode_defs address_defs
        typecode_try_from_def METADATA_TYPECODE_MIN_def METADATA_TYPECODE_MAX_def Let_def)
next
  case (MetaItem m)
  with assms show ?thesis
    by (cases m) (auto simp: item_good_def parse_item_def typecode_defs parse_metadata_item_def
        typecode_try_from_def METADATA_TYPECODE_MIN_def METADATA_TYPECODE_MAX_def Let_def
        item_allowed_def is_must_understand_def MUST_UNDERSTAND_METADATA_MIN_def)
qed

text \<open>The converse: what the parser makes is of this form.\<close>

lemma item_good_address:
  assumes "item_good address_kind rv item"
  shows "address_item_ok item"
proof (cases item)
  case (DataItem r)
  with assms show ?thesis
    by (cases r) (auto simp: item_good_def parse_item_def typecode_defs address_defs map_sum_Inr
        typecode_try_from_def METADATA_TYPECODE_MIN_def METADATA_TYPECODE_MAX_def Let_def split: if_splits)
next
  case (MetaItem m)
  with assms show ?thesis
    by (cases m) (auto simp: item_good_def parse_item_def typecode_defs map_sum_Inr parse_metadata_item_def
        typecode_try_from_def METADATA_TYPECODE_MIN_def METADATA_TYPECODE_MAX_def Let_def split: if_splits)
qed

lemma compact_size_write_unbounded_length:
  "n \<le> MAX_COMPACT_SIZE \<Longrightarrow> \<exists>out. compact_size_write_unbounded (of_nat n) = Inr out \<and>
     length out = compact_size_serialized_size n"
  using compact_size_write_length [of "of_nat n"] compact_size_unbounded_roundtrip [of "of_nat n"]
    unat_of_nat_compact [of n] by auto

section \<open>The properties\<close>

text \<open>
  C27. A unified address built from well-formed items round-trips through its string. \<open>try_from_items\<close>
  only reorders the items, into strictly ascending typecodes, and what it returns is valid: it has a
  receiver, not both transparent ones, in Revision 0 a shielded one, and a length that F4Jumble
  accepts. \<open>encode\<close> does not panic before it reaches the Bech32m encoder, and if that produces a
  string, decoding it gives the network, the revision and the same address.
\<close>

theorem unified_address_roundtrip:
  assumes blake: "blake2b_lengths blake2b" and bech: "bech32_inverse bech32_encode bech32_decode"
    and ok: "\<forall>item\<in>set items. address_item_ok item"
    and new: "try_from_items address_kind rv items = Some (Inr c)"
  shows "mset (citems c) = mset items \<and> revision c = rv \<and> valid_items address_kind rv (citems c) \<and>
    (\<exists>hrp data. unified_encode blake2b bech32_encode address_kind c net = bech32_encode hrp data \<and>
      (\<forall>s. bech32_encode hrp data = Some s \<longrightarrow>
        unified_decode blake2b bech32_decode address_kind s = Some (Inr (net, rv, c))))"
proof -
  let ?items = "sort_by (uitem_encoding_order address_kind) items"
  from new have v: "valid_items address_kind rv ?items" "c = \<lparr>revision = rv, citems = ?items\<rparr>"
    unfolding try_from_items_def try_from_items_internal_Inr by blast+
  have "\<forall>item\<in>set ?items. item_good address_kind rv item"
    using ok v(1) address_item_good by (auto simp: valid_items_def)
  from address.encode_decode [OF blake bech v(1) this, of net] v show ?thesis by auto
qed

text \<open>
  C28. Decoding accepts only canonical encodings of valid addresses: the container decoded is valid and
  its items are well formed, the data of the string is exactly its jumbled encoding under the prefix
  of the string, and re-encoding gives the same prefix and data again. The one exception is a
  Revision 2 string with a transparent-including prefix and no transparent receiver.
\<close>

theorem unified_address_decode_canonical:
  assumes blake: "blake2b_lengths blake2b"
    and dec: "unified_decode blake2b bech32_decode address_kind s = Some (Inr (net, rv, c))"
  shows "\<exists>hrp data. bech32_decode s = Some (hrp, data) \<and> revision c = rv \<and>
    valid_items address_kind rv (citems c) \<and> (\<forall>item\<in>set (citems c). address_item_ok item) \<and>
    to_jumbled_bytes blake2b address_kind c hrp = Some data \<and>
    (if rv = R2 \<and> hrp = network_hrp address_kind net R2 True \<and> \<not> has_transparent_item address_kind (citems c)
     then hrp \<noteq> network_hrp address_kind net rv False
     else unified_encode blake2b bech32_encode address_kind c net = bech32_encode hrp data)"
proof -
  from address.decode_canonical [OF blake dec] obtain hrp data where d:
    "bech32_decode s = Some (hrp, data)" "hrp_network address_kind hrp = Some (net, rv)" "revision c = rv"
    "valid_items address_kind rv (citems c)" "\<forall>item\<in>set (citems c). item_good address_kind rv item"
    "to_jumbled_bytes blake2b address_kind c hrp = Some data"
    and chk: "\<not> (rv = R2 \<and> is_address address_kind \<and> has_transparent_item address_kind (citems c) \<and>
      \<not> (hrp = hrp_mainnet_r2_ti address_kind \<or> hrp = hrp_testnet_r2_ti address_kind \<or>
         hrp = hrp_regtest_r2_ti address_kind))" by blast
  let ?t = "has_transparent_item address_kind (citems c)"
  have "hrp = network_hrp address_kind net rv ?t \<or>
      rv = R2 \<and> hrp = network_hrp address_kind net R2 True \<and> \<not> ?t"
    using d(2) chk by (auto simp: hrp_network_def network_hrp_def address_kind_def split: if_splits)
  moreover have "network_hrp address_kind net R2 True \<noteq> network_hrp address_kind net R2 False"
    by (cases net) (simp_all add: network_hrp_def address_kind_def)
  moreover have "unified_encode blake2b bech32_encode address_kind c net = bech32_encode hrp data"
    if "hrp = network_hrp address_kind net rv ?t"
  proof -
    have "is_address address_kind" by (simp add: address_kind_def)
    then show ?thesis using that d(3,6) by (simp add: unified_encode_def Let_def)
  qed
  ultimately show ?thesis using d(1,3,4,6) item_good_address d(5) by auto
qed

text \<open>
  Decoding and encoding do not always round-trip: an address decoded from a string with the
  prefix \<open>tu\<close> that has no transparent receiver is encoded with the prefix \<open>zu\<close>, so to another string.
\<close>

theorem tu_without_transparent_reencodes:
  assumes blake: "blake2b_lengths blake2b" and bech: "bech32_inverse bech32_encode bech32_decode"
    and dec: "unified_decode blake2b bech32_decode address_kind s = Some (Inr (net, rv, c))"
    and s: "bech32_decode s = Some (''tu'', data)" and none: "\<not> has_transparent_item address_kind (citems c)"
  shows "net = Main \<and> rv = R2 \<and>
    (\<exists>data'. unified_encode blake2b bech32_encode address_kind c net = bech32_encode ''zu'' data' \<and>
      bech32_encode ''zu'' data' \<noteq> Some s)"
proof -
  from address.decode_canonical [OF blake dec] s have d: "hrp_network address_kind ''tu'' = Some (net, rv)"
      "revision c = rv" "valid_items address_kind rv (citems c)"
      "\<forall>item\<in>set (citems c). item_good address_kind rv item" by auto
  from d(1) have net: "net = Main" "rv = R2" by (simp_all add: hrp_network_def address_kind_def)
  have c: "c = \<lparr>revision = rv, citems = citems c\<rparr>" using d(2) by (cases c) simp
  from address.encode_decode [OF blake bech d(3,4), of net] none net c obtain data' where
    e: "unified_encode blake2b bech32_encode address_kind c Main = bech32_encode ''zu'' data'"
    by (auto simp: network_hrp_def address_kind_def)
  have "bech32_encode ''zu'' data' \<noteq> Some s"
    using bech s unfolding bech32_inverse_def by fastforce
  with e net show ?thesis by blast
qed

text \<open>
  C38. \<open>try_from_items\<close> does not reject every oversized item: an unknown receiver too long for F4Jumble
  gives the error for the encoded length only as long as its length fits a \<open>CompactSize\<close>; beyond
  that, writing the raw encoding fails and the \<open>expect\<close> panics.
\<close>

theorem try_from_items_oversized:
  assumes "0x04 \<le> tc \<and> tc \<le> 0xBF \<or> 0xFD \<le> tc \<and> tc \<le> 0x02000000" and "4194368 < length d"
  shows "try_from_items address_kind R2 [DataItem (RcUnknown tc d)] =
    (if length d \<le> 0x02000000
     then Some (Inl (InvalidEncodedLength
       (compact_size_serialized_size tc + compact_size_serialized_size (length d) + length d + 16)))
     else None)"
proof -
  let ?items = "[DataItem (RcUnknown tc d)]"
  have chk: "check_items address_kind R2 False True None ?items = Inr (True, False)"
    using assms(1) by (auto simp: check_item_def Let_def typecode_defs address_defs MAX_COMPACT_SIZE_def is_transparent_def)
  have srt: "sort_by (uitem_encoding_order address_kind) ?items = ?items" by simp
  note unfold = try_from_items_def srt try_from_items_internal_def chk
  obtain o1 where o1: "compact_size_write tc = Inr o1" "length o1 = compact_size_serialized_size tc"
    using assms(1) compact_size_write_unbounded_length [of tc] by (auto simp: compact_size_write_def MAX_COMPACT_SIZE_def)
  show ?thesis
  proof (cases "length d \<le> 0x02000000")
    case True
    obtain o2 where o2: "compact_size_write (length d) = Inr o2" "length o2 = compact_size_serialized_size (length d)"
      using True compact_size_write_unbounded_length [of "length d"] by (auto simp: compact_size_write_def MAX_COMPACT_SIZE_def)
    have raw: "write_raw_encoding address_kind ?items = Inr (o1 @ o2 @ d)"
      using o1(1) o2(1) by (simp add: write_item_def typecode_defs address_defs)
    have "\<not> VALID_LENGTH (length (o1 @ o2 @ d) + PADDING_LEN)" using assms(2) by (simp add: VALID_LENGTH_def)
    then show ?thesis using True o1(2) o2(2) unfolding unfold raw by (simp add: Let_def PADDING_LEN_def)
  next
    case False
    then have "compact_size_write (length d) = Inl InvalidInput"
      by (simp add: compact_size_write_def MAX_COMPACT_SIZE_def)
    then have raw: "write_raw_encoding address_kind ?items = Inl InvalidInput"
      using o1(1) by (simp add: write_item_def typecode_defs address_defs write_seq_def)
    show ?thesis using False unfolding unfold raw by simp
  qed
qed

section \<open>Concrete addresses\<close>

text \<open>A string encoding that keeps the prefix and the bytes.\<close>

definition sample_bech32_encode :: "string \<Rightarrow> bytes \<Rightarrow> string option" where
  "sample_bech32_encode hrp d =
     (if length hrp < 256 then Some (char_of (length hrp) # hrp @ map (\<lambda>b. char_of (unat b)) d) else None)"

definition sample_bech32_decode :: "string \<Rightarrow> (string \<times> bytes) option" where
  "sample_bech32_decode s =
     (case s of [] \<Rightarrow> None
      | c # cs \<Rightarrow> let n = of_char c in if n \<le> length cs then Some (take n cs, map of_char (drop n cs)) else None)"

lemma sample_char: "of_char (char_of (unat b)) = (b :: u8)"
proof -
  have "unat b < 256" using unsigned_less [of b, where ?'a = nat] by simp
  then have n: "(of_char (char_of (unat b)) :: nat) = unat b" by simp
  have "(of_nat (of_char (char_of (unat b)) :: nat) :: u8) = of_char (char_of (unat b))" by (rule of_nat_of_char)
  then show ?thesis unfolding n by simp
qed

lemma sample_bech32: "bech32_inverse sample_bech32_encode sample_bech32_decode"
  by (auto simp: bech32_inverse_def sample_bech32_encode_def sample_bech32_decode_def comp_def sample_char
      split: if_splits)

definition sample_items :: "Receiver Uitem list" where
  "sample_items = [DataItem (RcP2pkh (replicate 20 2)), DataItem (RcOrchard (replicate 43 1))]"

definition shielded_items :: "Receiver Uitem list" where
  "shielded_items = [DataItem (RcOrchard (replicate 43 1))]"

lemma sample_raw:
  "\<exists>raw. write_raw_encoding address_kind sample_items = Inr raw \<and> length raw = 67"
  "\<exists>raw. write_raw_encoding address_kind shielded_items = Inr raw \<and> length raw = 45"
  by (simp_all add: sample_items_def shielded_items_def write_item_def typecode_defs address_defs
      compact_size_write_def compact_size_write_unbounded_def MAX_COMPACT_SIZE_def)

lemma sample_valid: "valid_items address_kind R0 sample_items" "valid_items address_kind R2 shielded_items"
  using sample_raw
  by (auto simp: valid_items_def item_allowed_def both_transparent_def VALID_LENGTH_def PADDING_LEN_def
      MAX_COMPACT_SIZE_def)
    (auto simp: sample_items_def shielded_items_def typecode_defs address_defs is_transparent_def)

lemma sample_items_good:
  "\<forall>item\<in>set sample_items. item_good address_kind R0 item"
  "\<forall>item\<in>set shielded_items. item_good address_kind R2 item"
  using sample_valid
  by (auto simp: sample_items_def shielded_items_def valid_items_def intro!: address_item_good)

lemma sample_address:
  "try_from_items address_kind R0 (rev sample_items) = Some (Inr \<lparr>revision = R0, citems = sample_items\<rparr>)"
proof -
  have "sort_by (uitem_encoding_order address_kind) (rev sample_items) = sample_items"
    by (simp add: sample_items_def uitem_encoding_order_def typecode_defs address_defs ord_cmp_def)
  then show ?thesis using sample_valid(1) by (simp add: try_from_items_def try_from_items_internal_Inr)
qed

theorem unified_address_roundtrip_witness:
  "\<exists>hrp data. unified_encode sample_blake2b sample_bech32_encode address_kind
      \<lparr>revision = R0, citems = sample_items\<rparr> Test = sample_bech32_encode hrp data"
proof -
  have "\<forall>item\<in>set (rev sample_items). address_item_ok item" by (simp add: sample_items_def)
  from unified_address_roundtrip [OF sample_blake2b_lengths sample_bech32 this sample_address, of Test]
  show ?thesis by blast
qed

lemma sample_decode:
  "\<exists>s. unified_decode sample_blake2b sample_bech32_decode address_kind s =
     Some (Inr (Test, R0, \<lparr>revision = R0, citems = sample_items\<rparr>))"
proof -
  from address.encode_decode [OF sample_blake2b_lengths sample_bech32 sample_valid(1) sample_items_good(1), of Test]
  obtain data hrp where h: "hrp = network_hrp address_kind Test R0 (is_address address_kind \<and> has_transparent_item address_kind sample_items)"
      "\<forall>s. sample_bech32_encode hrp data = Some s \<longrightarrow>
        unified_decode sample_blake2b sample_bech32_decode address_kind s =
          Some (Inr (Test, R0, \<lparr>revision = R0, citems = sample_items\<rparr>))" by blast
  have "length hrp < 256" using address.hrp_short h(1) by (simp add: network_hrp_def address_kind_def)
  with h(2) show ?thesis by (auto simp: sample_bech32_encode_def)
qed

theorem unified_address_decode_canonical_witness:
  "\<exists>s hrp data. sample_bech32_decode s = Some (hrp, data) \<and>
     to_jumbled_bytes sample_blake2b address_kind \<lparr>revision = R0, citems = sample_items\<rparr> hrp = Some data"
proof -
  from sample_decode obtain s where "unified_decode sample_blake2b sample_bech32_decode address_kind s =
     Some (Inr (Test, R0, \<lparr>revision = R0, citems = sample_items\<rparr>))" by blast
  from unified_address_decode_canonical [OF sample_blake2b_lengths this] show ?thesis by blast
qed

theorem tu_without_transparent_reencodes_witness:
  "\<exists>s c data'. unified_decode sample_blake2b sample_bech32_decode address_kind s = Some (Inr (Main, R2, c)) \<and>
     sample_bech32_encode ''zu'' data' \<noteq> Some s \<and>
     unified_encode sample_blake2b sample_bech32_encode address_kind c Main = sample_bech32_encode ''zu'' data'"
proof -
  let ?c = "\<lparr>revision = R2, citems = shielded_items\<rparr>"
  from sample_raw(2) obtain raw where raw: "write_raw_encoding address_kind shielded_items = Inr raw" "length raw = 45"
    by blast
  have len: "VALID_LENGTH (length raw + PADDING_LEN)" "length ''tu'' \<le> PADDING_LEN"
    using raw(2) by (simp_all add: VALID_LENGTH_def PADDING_LEN_def)
  from address.parse_back [OF sample_blake2b_lengths len(2) raw(1) len(1) sample_items_good(2)] obtain data where
    p: "parse_items sample_blake2b address_kind ''tu'' data R2 = Inr shielded_items" by blast
  have "sample_bech32_encode ''tu'' data = Some (char_of (2::nat) # ''tu'' @ map (\<lambda>b. char_of (unat b)) data)"
    by (simp add: sample_bech32_encode_def numeral_2_eq_2)
  with sample_bech32 obtain s where s: "sample_bech32_decode s = Some (''tu'', data)"
    unfolding bech32_inverse_def by blast
  have "try_from_items_internal address_kind R2 shielded_items = Some (Inr ?c)"
    using sample_valid(2) try_from_items_internal_Inr by blast
  then have "parse_internal sample_blake2b address_kind ''tu'' data R2 = Some (Inr ?c)"
    using p by (simp add: parse_internal_def address_kind_def)
  then have dec: "unified_decode sample_blake2b sample_bech32_decode address_kind s = Some (Inr (Main, R2, ?c))"
    using s by (simp add: unified_decode_def hrp_network_def) (simp add: address_kind_def)
  have "\<not> has_transparent_item address_kind (citems ?c)"
    by (simp add: has_transparent_item_def shielded_items_def address_defs is_transparent_def)
  from tu_without_transparent_reencodes [OF sample_blake2b_lengths sample_bech32 dec s this] dec
  show ?thesis by blast
qed

theorem try_from_items_oversized_witness:
  "try_from_items address_kind R2 [DataItem (RcUnknown 0xFFFA (replicate 33554433 0))] = None \<and>
   try_from_items address_kind R2 [DataItem (RcUnknown 0xFFFA (replicate 33554432 0))] =
     Some (Inl (InvalidEncodedLength 33554456))"
  using try_from_items_oversized [where tc = "0xFFFA" and d = "replicate 33554433 0"]
    try_from_items_oversized [where tc = "0xFFFA" and d = "replicate 33554432 0"]
  by (simp add: compact_size_serialized_size_def)

end
