(* ===== verification/ViewingKeys.thy ===== *)
theory ViewingKeys
  imports UnifiedAddress
begin

text \<open>
  Model of \<open>components/zcash_address/src/kind/unified/fvk.rs\<close> and \<open>ivk.rs\<close>, with the prefixes of
  \<open>constants.rs\<close>, and of \<open>validate_p2sh_item\<close> in \<open>kind/unified.rs\<close>: the wallet policies of P2SH items,
  the items of unified full and incoming viewing keys, and the two kinds of container they make.
  A byte array of the code is a byte string whose length \<open>fvk_ok\<close> and \<open>ivk_ok\<close> state.
\<close>

section \<open>Wallet policies\<close>

datatype P2shItemKind = FullViewing | IncomingViewing

definition KEY_INFO_LEN :: nat where
  "KEY_INFO_LEN = 65"

definition is_ascii_digit :: "u8 \<Rightarrow> bool" where
  "is_ascii_digit b \<longleftrightarrow> 48 \<le> b \<and> b \<le> 57"

definition is_ascii :: "bytes \<Rightarrow> bool" where
  "is_ascii bs \<longleftrightarrow> (\<forall>b\<in>set bs. b < 128)"

text \<open>\<open>str::parse::<usize>\<close> of a string of decimal digits.\<close>

primrec parse_digits :: "nat \<Rightarrow> bytes \<Rightarrow> nat option" where
  "parse_digits acc [] = Some acc"
| "parse_digits acc (b # bs) =
     Option.bind (u64_checked_mul acc 10) (\<lambda>m.
     Option.bind (u64_checked_add m (unat b - 48)) (\<lambda>m. parse_digits m bs))"

definition starts_with :: "bytes \<Rightarrow> bytes \<Rightarrow> bool" where
  "starts_with p bs \<longleftrightarrow> take (length p) bs = p"

definition multipath_ok :: "P2shItemKind \<Rightarrow> bytes \<Rightarrow> bool" where
  "multipath_ok kind suffix =
     (case kind of
        FullViewing \<Rightarrow> starts_with [47, 42, 42] suffix
      | IncomingViewing \<Rightarrow> starts_with [47, 42] suffix \<and> \<not> starts_with [47, 42, 42] suffix)"

text \<open>The loop over the template, from the position whose remaining bytes are the argument.\<close>

function scan_template ::
    "P2shItemKind \<Rightarrow> nat \<Rightarrow> nat \<Rightarrow> bool list \<Rightarrow> bytes \<Rightarrow> P2shItemError + nat" where
  "scan_template kind n_keys placeholders seen [] = Inr placeholders"
| "scan_template kind n_keys placeholders seen (b # rest) =
     (if b \<noteq> 64 then scan_template kind n_keys placeholders seen rest
      else
        let digits = takeWhile is_ascii_digit rest;
            suffix = dropWhile is_ascii_digit rest
        in case (if digits = [] then None else parse_digits 0 digits) of
             None \<Rightarrow> Inl Malformed
           | Some index \<Rightarrow>
               if n_keys \<le> index \<or> seen ! index then Inl (PlaceholderCount (placeholders + 1) n_keys)
               else if \<not> multipath_ok kind suffix then Inl Multipath
               else scan_template kind n_keys (placeholders + 1) (seen[index := True]) suffix)"
  by pat_completeness auto
termination
  by (relation "measure (\<lambda>(kind, n, p, seen, t). length t)") (auto simp: length_dropWhile_le le_imp_less_Suc)

definition validate_p2sh_item :: "P2shItemKind \<Rightarrow> bytes \<Rightarrow> P2shItemError + unit" where
  "validate_p2sh_item kind d =
     (case compact_size_read d of
        Inl _ \<Rightarrow> Inl Malformed
      | Inr (n, b1) \<Rightarrow>
          let template_len = unat n in
          if length b1 < template_len then Inl Malformed
          else
            let template = take template_len b1; b2 = drop template_len b1 in
            (case compact_size_read b2 of
               Inl _ \<Rightarrow> Inl Malformed
             | Inr (m, keys) \<Rightarrow>
                 let n_keys = unat m in
                 if n_keys * KEY_INFO_LEN \<noteq> length keys then Inl Malformed
                 else if \<not> is_ascii template then Inl TemplateEncoding
                 else (case scan_template kind n_keys 0 (replicate n_keys False) template of
                         Inl e \<Rightarrow> Inl e
                       | Inr placeholders \<Rightarrow>
                           if placeholders \<noteq> n_keys then Inl (PlaceholderCount placeholders n_keys) else Inr ())))"

text \<open>
  What the validator accepts: a template and a key vector in their canonical framing, whose
  placeholders name every key once, each followed by the multipath notation of the kind.
\<close>

primrec placeholders_of :: "bytes \<Rightarrow> (nat option \<times> bytes) list" where
  "placeholders_of [] = []"
| "placeholders_of (b # rest) =
     (if b = 64
      then [(if takeWhile is_ascii_digit rest = [] then None else parse_digits 0 (takeWhile is_ascii_digit rest),
             dropWhile is_ascii_digit rest)]
      else []) @ placeholders_of rest"

definition policy_ok :: "P2shItemKind \<Rightarrow> nat \<Rightarrow> bytes \<Rightarrow> bool" where
  "policy_ok kind n_keys template \<longleftrightarrow>
     mset (map fst (placeholders_of template)) = mset (map Some [0..<n_keys]) \<and>
     (\<forall>p\<in>set (placeholders_of template). multipath_ok kind (snd p))"

text \<open>A digit is no placeholder mark, so the loop may resume behind the digits.\<close>

lemma placeholders_of_suffix: "placeholders_of (dropWhile is_ascii_digit t) = placeholders_of t"
  by (induction t) (auto simp: is_ascii_digit_def)

definition remaining :: "bool list \<Rightarrow> nat list" where
  "remaining seen = filter (\<lambda>i. \<not> seen ! i) [0..<length seen]"

lemma mset_remaining_update:
  assumes "i < length seen" "\<not> seen ! i"
  shows "mset (remaining seen) = add_mset i (mset (remaining (seen[i := True])))"
proof -
  have s: "[0..<length seen] = [0..<i] @ i # [Suc i..<length seen]"
    using assms(1) by (metis add.left_neutral le_add_same_cancel1 less_imp_le_nat upt_add_eq_append upt_conv_Cons
        zero_le le_add_diff_inverse)
  have "filter (\<lambda>j. \<not> seen ! j) xs = filter (\<lambda>j. \<not> seen[i := True] ! j) xs" if "i \<notin> set xs" for xs
    using that by (intro filter_cong refl) (metis nth_list_update_neq)
  then show ?thesis using assms unfolding remaining_def by (simp add: s)
qed

lemma remaining_mem: "i \<in> set (remaining seen) \<longleftrightarrow> i < length seen \<and> \<not> seen ! i"
  by (auto simp: remaining_def)

lemma scan_template_Inr:
  assumes "length seen = n_keys" "length (remaining seen) + p = n_keys"
  shows "scan_template kind n_keys p seen t = Inr n_keys \<longleftrightarrow>
    mset (map fst (placeholders_of t)) = mset (map Some (remaining seen)) \<and>
    (\<forall>x\<in>set (placeholders_of t). multipath_ok kind (snd x))"
  using assms
proof (induction kind n_keys p seen t rule: scan_template.induct)
  case (1 kind n_keys p seen)
  then show ?case by auto
next
  case (2 kind n_keys p seen b rest)
  show ?case
  proof (cases "b = 64")
    case False
    then show ?thesis using 2 by simp
  next
    case True
    let ?digits = "takeWhile is_ascii_digit rest" and ?suffix = "dropWhile is_ascii_digit rest"
    have ps: "placeholders_of (b # rest) =
        (if ?digits = [] then None else parse_digits 0 ?digits, ?suffix) # placeholders_of ?suffix"
      using True by (simp add: placeholders_of_suffix)
    show ?thesis
    proof (cases "if ?digits = [] then None else parse_digits 0 ?digits")
      case None
      have "None \<notin># mset (map Some (remaining seen))" by auto
      then have "mset (map fst (placeholders_of (b # rest))) \<noteq> mset (map Some (remaining seen))"
        unfolding ps None by (metis list.set_intros(1) list.simps(9) fst_conv set_mset_mset)
      moreover have "scan_template kind n_keys p seen (b # rest) = Inl Malformed"
        using True by (simp only: scan_template.simps None Let_def) simp
      ultimately show ?thesis by simp
    next
      case (Some i)
      have scan: "scan_template kind n_keys p seen (b # rest) =
          (if n_keys \<le> i \<or> seen ! i then Inl (PlaceholderCount (p + 1) n_keys)
           else if \<not> multipath_ok kind ?suffix then Inl Multipath
           else scan_template kind n_keys (p + 1) (seen[i := True]) ?suffix)"
        using True by (simp only: scan_template.simps Some Let_def) simp
      show ?thesis
      proof (cases "n_keys \<le> i \<or> seen ! i")
        case True
        then have "Some i \<notin># mset (map Some (remaining seen))" using remaining_mem 2(3) by auto
        then have "mset (map fst (placeholders_of (b # rest))) \<noteq> mset (map Some (remaining seen))"
          unfolding ps Some by (metis list.set_intros(1) list.simps(9) fst_conv set_mset_mset)
        then show ?thesis unfolding scan using True by simp
      next
        case False
        have upd: "mset (remaining seen) = add_mset i (mset (remaining (seen[i := True])))"
          by (rule mset_remaining_update) (use False 2(3) in auto)
        then have "length (remaining seen) = Suc (length (remaining (seen[i := True])))"
          by (metis size_add_mset size_mset)
        then have "scan_template kind n_keys (p + 1) (seen[i := True]) ?suffix = Inr n_keys \<longleftrightarrow>
            mset (map fst (placeholders_of ?suffix)) = mset (map Some (remaining (seen[i := True]))) \<and>
            (\<forall>x\<in>set (placeholders_of ?suffix). multipath_ok kind (snd x))" if "multipath_ok kind ?suffix"
          using 2(2) [OF _ _ _ Some False] that True 2(3,4) by simp
        then show ?thesis unfolding scan ps Some using False upd by auto
      qed
    qed
  qed
qed

lemma remaining_all: "remaining (replicate n False) = [0..<n]"
  unfolding remaining_def by (rule filter_True [THEN trans]) simp_all

text \<open>
  The validator accepts exactly the wallet policies of ZIP 316 Revision 2: an ASCII template and a key
  vector, each in its canonical length framing and nothing after them, such that the placeholders
  of the template name every key exactly once and each is followed by the multipath notation of the
  kind.
\<close>

theorem wallet_policy_valid:
  "validate_p2sh_item kind d = Inr () \<longleftrightarrow>
     (\<exists>template keys n o1 o2. compact_size_write (length template) = Inr o1 \<and> compact_size_write n = Inr o2 \<and>
        d = o1 @ template @ o2 @ keys \<and> length keys = n * KEY_INFO_LEN \<and>
        is_ascii template \<and> policy_ok kind n template)" (is "?l \<longleftrightarrow> ?r")
proof -
  note scan = scan_template_Inr [of "replicate n False" n 0 for n, unfolded remaining_all, simplified]
  show ?thesis
  proof
    assume ?l
    then obtain tl b1 nk keys where r: "compact_size_read d = Inr (tl, b1)" "unat tl \<le> length b1"
        "compact_size_read (drop (unat tl) b1) = Inr (nk, keys)" "unat nk * KEY_INFO_LEN = length keys"
        "is_ascii (take (unat tl) b1)"
        "scan_template kind (unat nk) 0 (replicate (unat nk) False) (take (unat tl) b1) = Inr (unat nk)"
      by (auto simp: validate_p2sh_item_def Let_def not_less split: sum.splits prod.splits if_splits)
    let ?t = "take (unat tl) b1"
    have "compact_size_read_usize d = Inr (unat tl, b1)" using r(1) compact_read_usize by blast
    then obtain o1 where o1: "compact_size_write (length ?t) = Inr o1" "d = o1 @ b1"
      using compact.canonical [of d "unat tl" b1] r(2) by auto
    have "compact_size_read_usize (drop (unat tl) b1) = Inr (unat nk, keys)" using r(3) compact_read_usize by blast
    then obtain o2 where o2: "compact_size_write (unat nk) = Inr o2" "drop (unat tl) b1 = o2 @ keys"
      using compact.canonical by blast
    have "d = o1 @ ?t @ o2 @ keys" using o1(2) o2(2) by (metis append_take_drop_id)
    moreover have "policy_ok kind (unat nk) ?t" using r(6) scan by (simp add: policy_ok_def)
    ultimately show ?r using o1(1) o2(1) r(4,5) by metis
  next
    assume ?r
    then obtain t keys n o1 o2 where r: "compact_size_write (length t) = Inr o1" "compact_size_write n = Inr o2"
        "d = o1 @ t @ o2 @ keys" "length keys = n * KEY_INFO_LEN" "is_ascii t" "policy_ok kind n t" by blast
    have le: "length t \<le> MAX_COMPACT_SIZE" "n \<le> MAX_COMPACT_SIZE"
      using r(1,2) by (auto simp: compact_size_write_def split: if_splits)
    from compact.dec_enc [OF le(1) r(1)] obtain w where
      w: "compact_size_read d = Inr (w, t @ o2 @ keys)" "unat w = length t" unfolding r(3) compact_read_usize by blast
    from compact.dec_enc [OF le(2) r(2)] obtain l where
      l: "compact_size_read (o2 @ keys) = Inr (l, keys)" "unat l = n" unfolding compact_read_usize by blast
    have "scan_template kind n 0 (replicate n False) t = Inr n" using r(6) scan by (simp add: policy_ok_def)
    then show ?l using w l r(4,5) by (simp add: validate_p2sh_item_def)
  qed
qed

section \<open>Kinds of viewing key\<close>

text \<open>A container that is no address has one prefix for each network and revision.\<close>

locale viewing_kind = container_kind +
  assumes no_address: "\<not> is_address K"
    and one_prefix: "hrp_network K hrp = Some (net, rv) \<Longrightarrow> hrp = network_hrp K net rv False"
begin

lemma roundtrip:
  assumes "blake2b_lengths blake2b" and "bech32_inverse bech32_encode bech32_decode"
    and "\<forall>item\<in>set items. item_allowed K rv item \<longrightarrow> item_good K rv item"
    and new: "try_from_items K rv items = Some (Inr c)"
  shows "mset (citems c) = mset items \<and> revision c = rv \<and> valid_items K rv (citems c) \<and>
    (\<exists>hrp data. unified_encode blake2b bech32_encode K c net = bech32_encode hrp data \<and>
      (\<forall>s. bech32_encode hrp data = Some s \<longrightarrow> unified_decode blake2b bech32_decode K s = Some (Inr (net, rv, c))))"
proof -
  let ?items = "sort_by (uitem_encoding_order K) items"
  from new have v: "valid_items K rv ?items" "c = \<lparr>revision = rv, citems = ?items\<rparr>"
    unfolding try_from_items_def try_from_items_internal_Inr by blast+
  have "\<forall>item\<in>set ?items. item_good K rv item"
    using assms(3) v(1) by (auto simp: valid_items_def)
  from encode_decode [OF assms(1,2) v(1) this, of net] v show ?thesis by auto
qed

lemma decode_reencodes:
  assumes "blake2b_lengths blake2b"
    and "unified_decode blake2b bech32_decode K s = Some (Inr (net, rv, c))"
  shows "valid_items K rv (citems c) \<and> (\<forall>item\<in>set (citems c). item_good K rv item) \<and>
    (\<exists>hrp data. bech32_decode s = Some (hrp, data) \<and> hrp = network_hrp K net rv False \<and>
      unified_encode blake2b bech32_encode K c net = bech32_encode hrp data)"
proof -
  from decode_canonical [OF assms] obtain hrp data where d: "bech32_decode s = Some (hrp, data)"
      "hrp_network K hrp = Some (net, rv)" "revision c = rv" "valid_items K rv (citems c)"
      "\<forall>item\<in>set (citems c). item_good K rv item" "to_jumbled_bytes blake2b K c hrp = Some data" by blast
  have "hrp = network_hrp K net rv False" by (rule one_prefix [OF d(2)])
  with d no_address show ?thesis by (simp add: unified_encode_def)
qed

end

section \<open>Full viewing keys\<close>

datatype Fvk = FvkOrchard bytes | FvkSapling bytes | FvkP2pkh bytes | FvkP2sh bytes | FvkUnknown nat bytes

definition fvk_parse :: "DataTypecode \<Rightarrow> bytes \<Rightarrow> ParseError + Fvk" where
  "fvk_parse typecode d =
     (if typecode = DtP2sh
      then (case validate_p2sh_item FullViewing d of
              Inl e \<Rightarrow> Inl (InvalidP2shItem e)
            | Inr _ \<Rightarrow> Inr (FvkP2sh d))
      else case typecode of
        DtP2pkh \<Rightarrow> array_of 65 FvkP2pkh ''Invalid fvk for typecode'' d
      | DtSapling \<Rightarrow> array_of 128 FvkSapling ''Invalid fvk for typecode'' d
      | DtOrchard \<Rightarrow> array_of 96 FvkOrchard ''Invalid fvk for typecode'' d
      | DtUnknown tc \<Rightarrow> Inr (FvkUnknown tc d))"

definition fvk_typecode :: "Fvk \<Rightarrow> DataTypecode" where
  "fvk_typecode k =
     (case k of FvkP2pkh _ \<Rightarrow> DtP2pkh | FvkP2sh _ \<Rightarrow> DtP2sh | FvkSapling _ \<Rightarrow> DtSapling | FvkOrchard _ \<Rightarrow> DtOrchard
      | FvkUnknown tc _ \<Rightarrow> DtUnknown tc)"

definition fvk_data :: "Fvk \<Rightarrow> bytes" where
  "fvk_data k = (case k of FvkP2pkh d \<Rightarrow> d | FvkP2sh d \<Rightarrow> d | FvkSapling d \<Rightarrow> d | FvkOrchard d \<Rightarrow> d | FvkUnknown _ d \<Rightarrow> d)"

definition ufvk_kind :: "Fvk ContainerKind" where
  "ufvk_kind = \<lparr>
     item_parse = fvk_parse, item_typecode = fvk_typecode, item_data = fvk_data,
     hrp_mainnet = ''uview'', hrp_testnet = ''uviewtest'', hrp_regtest = ''uviewregtest'',
     hrp_mainnet_r2 = ''uvf'', hrp_testnet_r2 = ''uvftest'', hrp_regtest_r2 = ''uvfregtest'',
     hrp_mainnet_r2_ti = ''uvf'', hrp_testnet_r2_ti = ''uvftest'', hrp_regtest_r2_ti = ''uvfregtest'',
     is_address = False\<rparr>"

section \<open>Incoming viewing keys\<close>

datatype Ivk = IvkOrchard bytes | IvkSapling bytes | IvkP2pkh bytes | IvkP2sh bytes | IvkUnknown nat bytes

definition ivk_parse :: "DataTypecode \<Rightarrow> bytes \<Rightarrow> ParseError + Ivk" where
  "ivk_parse typecode d =
     (if typecode = DtP2sh
      then (case validate_p2sh_item IncomingViewing d of
              Inl e \<Rightarrow> Inl (InvalidP2shItem e)
            | Inr _ \<Rightarrow> Inr (IvkP2sh d))
      else case typecode of
        DtP2pkh \<Rightarrow> array_of 65 IvkP2pkh ''Invalid ivk for typecode'' d
      | DtSapling \<Rightarrow> array_of 64 IvkSapling ''Invalid ivk for typecode'' d
      | DtOrchard \<Rightarrow> array_of 64 IvkOrchard ''Invalid ivk for typecode'' d
      | DtUnknown tc \<Rightarrow> Inr (IvkUnknown tc d))"

definition ivk_typecode :: "Ivk \<Rightarrow> DataTypecode" where
  "ivk_typecode k =
     (case k of IvkP2pkh _ \<Rightarrow> DtP2pkh | IvkP2sh _ \<Rightarrow> DtP2sh | IvkSapling _ \<Rightarrow> DtSapling | IvkOrchard _ \<Rightarrow> DtOrchard
      | IvkUnknown tc _ \<Rightarrow> DtUnknown tc)"

definition ivk_data :: "Ivk \<Rightarrow> bytes" where
  "ivk_data k = (case k of IvkP2pkh d \<Rightarrow> d | IvkP2sh d \<Rightarrow> d | IvkSapling d \<Rightarrow> d | IvkOrchard d \<Rightarrow> d | IvkUnknown _ d \<Rightarrow> d)"

definition uivk_kind :: "Ivk ContainerKind" where
  "uivk_kind = \<lparr>
     item_parse = ivk_parse, item_typecode = ivk_typecode, item_data = ivk_data,
     hrp_mainnet = ''uivk'', hrp_testnet = ''uivktest'', hrp_regtest = ''uivkregtest'',
     hrp_mainnet_r2 = ''uvi'', hrp_testnet_r2 = ''uvitest'', hrp_regtest_r2 = ''uviregtest'',
     hrp_mainnet_r2_ti = ''uvi'', hrp_testnet_r2_ti = ''uvitest'', hrp_regtest_r2_ti = ''uviregtest'',
     is_address = False\<rparr>"

lemmas ufvk_defs = ufvk_kind_def fvk_parse_def fvk_typecode_def fvk_data_def array_of_def
lemmas uivk_defs = uivk_kind_def ivk_parse_def ivk_typecode_def ivk_data_def array_of_def

interpretation ufvk: viewing_kind ufvk_kind
proof
  show "item_parse ufvk_kind tc d = Inr i \<Longrightarrow> item_typecode ufvk_kind i = tc \<and> item_data ufvk_kind i = d" for tc d i
    by (auto simp: ufvk_defs split: DataTypecode.splits if_splits sum.splits)
  show "hrp_network ufvk_kind (network_hrp ufvk_kind net rv t) = Some (net, rv)" for net rv t
    by (cases net; cases rv; cases t) (simp_all add: ufvk_kind_def hrp_network_def network_hrp_def)
  show "length (network_hrp ufvk_kind net rv t) \<le> PADDING_LEN" for net rv t
    by (cases net; cases rv; cases t) (simp_all add: ufvk_kind_def network_hrp_def PADDING_LEN_def)
  show "\<not> is_address ufvk_kind" by (simp add: ufvk_kind_def)
  show "hrp_network ufvk_kind hrp = Some (net, rv) \<Longrightarrow> hrp = network_hrp ufvk_kind net rv False" for hrp net rv
    by (auto simp: ufvk_kind_def hrp_network_def network_hrp_def split: if_splits)
qed

interpretation uivk: viewing_kind uivk_kind
proof
  show "item_parse uivk_kind tc d = Inr i \<Longrightarrow> item_typecode uivk_kind i = tc \<and> item_data uivk_kind i = d" for tc d i
    by (auto simp: uivk_defs split: DataTypecode.splits if_splits sum.splits)
  show "hrp_network uivk_kind (network_hrp uivk_kind net rv t) = Some (net, rv)" for net rv t
    by (cases net; cases rv; cases t) (simp_all add: uivk_kind_def hrp_network_def network_hrp_def)
  show "length (network_hrp uivk_kind net rv t) \<le> PADDING_LEN" for net rv t
    by (cases net; cases rv; cases t) (simp_all add: uivk_kind_def network_hrp_def PADDING_LEN_def)
  show "\<not> is_address uivk_kind" by (simp add: uivk_kind_def)
  show "hrp_network uivk_kind hrp = Some (net, rv) \<Longrightarrow> hrp = network_hrp uivk_kind net rv False" for hrp net rv
    by (auto simp: uivk_kind_def hrp_network_def network_hrp_def split: if_splits)
qed

text \<open>Items as the types and ZIP 316 describe them.\<close>

definition unknown_data_code :: "Revision \<Rightarrow> nat \<Rightarrow> bool" where
  "unknown_data_code rv tc \<longleftrightarrow> 0x04 \<le> tc \<and> tc \<le> 0xBF \<or> 0xFD \<le> tc \<and> tc \<le> 0x02000000 \<or> rv = R0 \<and> tc = 0x01"

fun metadata_ok :: "MetadataItem \<Rightarrow> bool" where
  "metadata_ok (MdUnknown tc d) \<longleftrightarrow> 0xC0 \<le> tc \<and> tc \<le> 0xFC \<and> tc \<noteq> 0xE0 \<and> tc \<noteq> 0xE1"
| "metadata_ok _ \<longleftrightarrow> True"

fun fvk_item_ok :: "Revision \<Rightarrow> Fvk Uitem \<Rightarrow> bool" where
  "fvk_item_ok rv (DataItem (FvkOrchard d)) \<longleftrightarrow> length d = 96"
| "fvk_item_ok rv (DataItem (FvkSapling d)) \<longleftrightarrow> length d = 128"
| "fvk_item_ok rv (DataItem (FvkP2pkh d)) \<longleftrightarrow> length d = 65"
| "fvk_item_ok rv (DataItem (FvkP2sh d)) \<longleftrightarrow> validate_p2sh_item FullViewing d = Inr ()"
| "fvk_item_ok rv (DataItem (FvkUnknown tc d)) \<longleftrightarrow> unknown_data_code rv tc"
| "fvk_item_ok rv (MetaItem m) \<longleftrightarrow> metadata_ok m"

fun ivk_item_ok :: "Revision \<Rightarrow> Ivk Uitem \<Rightarrow> bool" where
  "ivk_item_ok rv (DataItem (IvkOrchard d)) \<longleftrightarrow> length d = 64"
| "ivk_item_ok rv (DataItem (IvkSapling d)) \<longleftrightarrow> length d = 64"
| "ivk_item_ok rv (DataItem (IvkP2pkh d)) \<longleftrightarrow> length d = 65"
| "ivk_item_ok rv (DataItem (IvkP2sh d)) \<longleftrightarrow> validate_p2sh_item IncomingViewing d = Inr ()"
| "ivk_item_ok rv (DataItem (IvkUnknown tc d)) \<longleftrightarrow> unknown_data_code rv tc"
| "ivk_item_ok rv (MetaItem m) \<longleftrightarrow> metadata_ok m"

lemmas key_item_defs = item_good_def parse_item_def uitem_code_def uitem_data_def typecode_value_def
  data_code_value_def metadata_code_value_def metadata_typecode_def metadata_data_def
  typecode_try_from_def METADATA_TYPECODE_MIN_def METADATA_TYPECODE_MAX_def Let_def
  item_allowed_def is_must_understand_def MUST_UNDERSTAND_METADATA_MIN_def map_sum_Inr unknown_data_code_def

lemma meta_item_good:
  "item_allowed K rv (MetaItem m) \<Longrightarrow> item_good K rv (MetaItem m) \<longleftrightarrow> metadata_ok m"
  by (cases m) (auto simp: key_item_defs parse_metadata_item_def split: if_splits)

lemma fvk_item_good:
  assumes "item_allowed ufvk_kind rv item"
  shows "item_good ufvk_kind rv item \<longleftrightarrow> fvk_item_ok rv item"
proof (cases item)
  case (DataItem k)
  with assms show ?thesis
    by (cases k) (auto simp: key_item_defs ufvk_defs split: if_splits sum.splits)
next
  case (MetaItem m)
  with assms show ?thesis by (simp add: meta_item_good)
qed

lemma ivk_item_good:
  assumes "item_allowed uivk_kind rv item"
  shows "item_good uivk_kind rv item \<longleftrightarrow> ivk_item_ok rv item"
proof (cases item)
  case (DataItem k)
  with assms show ?thesis
    by (cases k) (auto simp: key_item_defs uivk_defs split: if_splits sum.splits)
next
  case (MetaItem m)
  with assms show ?thesis by (simp add: meta_item_good)
qed

section \<open>The properties\<close>

text \<open>
  A unified full viewing key built from well-formed items round-trips through its string:
  \<open>try_from_items\<close> only reorders them, \<open>encode\<close> does not panic before it reaches the Bech32m
  encoder, and decoding what that produces gives the network, the revision and the key back.
\<close>

theorem ufvk_roundtrip:
  assumes "blake2b_lengths blake2b" and "bech32_inverse bech32_encode bech32_decode"
    and "\<forall>item\<in>set items. fvk_item_ok rv item"
    and "try_from_items ufvk_kind rv items = Some (Inr c)"
  shows "mset (citems c) = mset items \<and> revision c = rv \<and> valid_items ufvk_kind rv (citems c) \<and>
    (\<exists>hrp data. unified_encode blake2b bech32_encode ufvk_kind c net = bech32_encode hrp data \<and>
      (\<forall>s. bech32_encode hrp data = Some s \<longrightarrow>
        unified_decode blake2b bech32_decode ufvk_kind s = Some (Inr (net, rv, c))))"
  by (rule ufvk.roundtrip) (use assms fvk_item_good in auto)

theorem uivk_roundtrip:
  assumes "blake2b_lengths blake2b" and "bech32_inverse bech32_encode bech32_decode"
    and "\<forall>item\<in>set items. ivk_item_ok rv item"
    and "try_from_items uivk_kind rv items = Some (Inr c)"
  shows "mset (citems c) = mset items \<and> revision c = rv \<and> valid_items uivk_kind rv (citems c) \<and>
    (\<exists>hrp data. unified_encode blake2b bech32_encode uivk_kind c net = bech32_encode hrp data \<and>
      (\<forall>s. bech32_encode hrp data = Some s \<longrightarrow>
        unified_decode blake2b bech32_decode uivk_kind s = Some (Inr (net, rv, c))))"
  by (rule uivk.roundtrip) (use assms ivk_item_good in auto)

text \<open>
  Decoding a unified full viewing key accepts only canonical strings: the items are valid and well
  formed, their wallet policies included, and encoding the key again gives the prefix and the data
  of the string. Such a string is never taken for an incoming viewing key or an address.
\<close>

theorem ufvk_decode_canonical:
  assumes blake: "blake2b_lengths blake2b"
    and dec: "unified_decode blake2b bech32_decode ufvk_kind s = Some (Inr (net, rv, c))"
  shows "valid_items ufvk_kind rv (citems c) \<and> (\<forall>item\<in>set (citems c). fvk_item_ok rv item) \<and>
    (\<exists>hrp data. bech32_decode s = Some (hrp, data) \<and>
      unified_encode blake2b bech32_encode ufvk_kind c net = bech32_encode hrp data \<and>
      unified_decode blake2b bech32_decode uivk_kind s = Some (Inl (UnknownPrefix hrp)) \<and>
      unified_decode blake2b bech32_decode address_kind s = Some (Inl (UnknownPrefix hrp)))"
proof -
  from ufvk.decode_reencodes [OF blake dec, of bech32_encode] obtain hrp data where
    d: "valid_items ufvk_kind rv (citems c)" "\<forall>item\<in>set (citems c). item_good ufvk_kind rv item"
      "bech32_decode s = Some (hrp, data)" "hrp = network_hrp ufvk_kind net rv False"
      "unified_encode blake2b bech32_encode ufvk_kind c net = bech32_encode hrp data" by blast
  have "hrp_network uivk_kind hrp = None \<and> hrp_network address_kind hrp = None"
    unfolding d(4)
    by (cases net; cases rv) (simp_all add: network_hrp_def hrp_network_def ufvk_kind_def uivk_kind_def address_kind_def)
  moreover have "\<forall>item\<in>set (citems c). fvk_item_ok rv item"
    using d(1,2) fvk_item_good by (auto simp: valid_items_def)
  ultimately show ?thesis using d by (auto simp: unified_decode_def)
qed

section \<open>A concrete key\<close>

text \<open>The policy \<open>@0/**\<close> with one key, and an Orchard key beside it.\<close>

definition sample_policy :: bytes where
  "sample_policy = [5, 64, 48, 47, 42, 42, 1] @ replicate 65 7"

definition sample_keys :: "Fvk Uitem list" where
  "sample_keys = [DataItem (FvkP2sh sample_policy), DataItem (FvkOrchard (replicate 96 1))]"

lemma compact_size_read_small: "b < 253 \<Longrightarrow> compact_size_read (b # bs) = Inr (ucast b, bs)"
proof -
  assume b: "b < 253"
  then have "unat (ucast b :: u64) \<le> MAX_COMPACT_SIZE" by (simp add: cast_simps MAX_COMPACT_SIZE_def)
  with b show ?thesis
    by (simp add: compact_size_read_def compact_size_read_unbounded_def read_bind_def read_exact_def)
qed

lemma sample_policy_valid: "validate_p2sh_item FullViewing sample_policy = Inr ()"
proof -
  have r: "compact_size_read sample_policy = Inr (5, [64, 48, 47, 42, 42] @ 1 # replicate 65 7)"
    by (simp add: sample_policy_def compact_size_read_small)
  have r2: "compact_size_read (1 # replicate 65 7) = Inr (1, replicate 65 7)"
    by (simp add: compact_size_read_small)
  have "scan_template FullViewing 1 0 [False] [64, 48, 47, 42, 42] = Inr 1"
    by (simp add: is_ascii_digit_def multipath_ok_def starts_with_def u64_checked_mul_def u64_checked_add_def)
  then show ?thesis unfolding validate_p2sh_item_def r
    by (simp add: r2 KEY_INFO_LEN_def is_ascii_def)
qed

lemma sample_keys_ok: "\<forall>item\<in>set sample_keys. fvk_item_ok R2 item"
  by (simp add: sample_keys_def sample_policy_valid)

lemma sample_keys_valid: "valid_items ufvk_kind R2 sample_keys"
proof -
  have "\<exists>raw. write_raw_encoding ufvk_kind sample_keys = Inr raw \<and> length raw = 172"
    by (simp add: sample_keys_def sample_policy_def write_item_def key_item_defs ufvk_defs
        compact_size_write_def compact_size_write_unbounded_def MAX_COMPACT_SIZE_def)
  then show ?thesis
    by (auto simp: valid_items_def both_transparent_def VALID_LENGTH_def PADDING_LEN_def MAX_COMPACT_SIZE_def
        sample_keys_def key_item_defs ufvk_defs)
qed

lemma sample_keys_new:
  "try_from_items ufvk_kind R2 (rev sample_keys) = Some (Inr \<lparr>revision = R2, citems = sample_keys\<rparr>)"
proof -
  have "sort_by (uitem_encoding_order ufvk_kind) (rev sample_keys) = sample_keys"
    by (simp add: sample_keys_def uitem_encoding_order_def key_item_defs ufvk_defs ord_cmp_def)
  then show ?thesis using sample_keys_valid by (simp add: try_from_items_def try_from_items_internal_Inr)
qed

theorem ufvk_roundtrip_witness:
  "\<exists>hrp data. unified_encode sample_blake2b sample_bech32_encode ufvk_kind
      \<lparr>revision = R2, citems = sample_keys\<rparr> Main = sample_bech32_encode hrp data"
proof -
  have "\<forall>item\<in>set (rev sample_keys). fvk_item_ok R2 item" using sample_keys_ok by simp
  from ufvk_roundtrip [OF sample_blake2b_lengths sample_bech32 this sample_keys_new, of Main] show ?thesis by blast
qed

theorem ufvk_decode_canonical_witness:
  "\<exists>s hrp. unified_decode sample_blake2b sample_bech32_decode ufvk_kind s =
      Some (Inr (Main, R2, \<lparr>revision = R2, citems = sample_keys\<rparr>)) \<and>
    unified_decode sample_blake2b sample_bech32_decode uivk_kind s = Some (Inl (UnknownPrefix hrp))"
proof -
  have good: "\<forall>item\<in>set sample_keys. item_good ufvk_kind R2 item"
    using sample_keys_ok sample_keys_valid fvk_item_good by (auto simp: valid_items_def)
  from ufvk.encode_decode [OF sample_blake2b_lengths sample_bech32 sample_keys_valid good, of Main]
  obtain data hrp where h: "hrp = network_hrp ufvk_kind Main R2 (is_address ufvk_kind \<and> has_transparent_item ufvk_kind sample_keys)"
      "\<forall>s. sample_bech32_encode hrp data = Some s \<longrightarrow>
        unified_decode sample_blake2b sample_bech32_decode ufvk_kind s =
          Some (Inr (Main, R2, \<lparr>revision = R2, citems = sample_keys\<rparr>))" by blast
  have "length hrp < 256" by (simp add: h(1) network_hrp_def ufvk_kind_def)
  with h(2) obtain s where "unified_decode sample_blake2b sample_bech32_decode ufvk_kind s =
      Some (Inr (Main, R2, \<lparr>revision = R2, citems = sample_keys\<rparr>))" by (auto simp: sample_bech32_encode_def)
  with ufvk_decode_canonical [OF sample_blake2b_lengths this] show ?thesis by blast
qed

end
