(* ===== verification/Memo.thy ===== *)
theory Memo
  imports Zc_Prelude
begin

text \<open>
  Model of \<open>components/zcash_protocol/src/memo.rs\<close>: the memo of a shielded note, as 512 bytes and as
  parsed by ZIP 302. Strings are their UTF-8 bytes; the validation of \<open>str::from_utf8\<close> is written out
  as the standard library does it, with the position and the length of the error. An encoding that
  would copy a slice into too short an array panics (\<open>None\<close>).
\<close>

section \<open>UTF-8\<close>

record Utf8Error =
  valid_up_to :: nat
  error_len :: "nat option"

definition utf8_cont :: "u8 \<Rightarrow> bool" where
  "utf8_cont b \<longleftrightarrow> 0x80 \<le> b \<and> b \<le> 0xBF"

definition utf8_char_width :: "u8 \<Rightarrow> nat" where
  "utf8_char_width b =
     (if b \<le> 0x7F then 1
      else if 0xC2 \<le> b \<and> b \<le> 0xDF then 2
      else if 0xE0 \<le> b \<and> b \<le> 0xEF then 3
      else if 0xF0 \<le> b \<and> b \<le> 0xF4 then 4
      else 0)"

text \<open>The second byte of a character of three or four bytes.\<close>

definition utf8_second :: "u8 \<Rightarrow> u8 \<Rightarrow> bool" where
  "utf8_second first b \<longleftrightarrow>
     (if first = 0xE0 then 0xA0 \<le> b \<and> b \<le> 0xBF
      else if first = 0xED then 0x80 \<le> b \<and> b \<le> 0x9F
      else if first = 0xF0 then 0x90 \<le> b \<and> b \<le> 0xBF
      else if first = 0xF4 then 0x80 \<le> b \<and> b \<le> 0x8F
      else utf8_cont b)"

text \<open>The bytes after the first two must be continuations; the index is the error length.\<close>

fun utf8_tail :: "nat \<Rightarrow> nat \<Rightarrow> bytes \<Rightarrow> nat option + unit" where
  "utf8_tail i 0 bs = Inr ()"
| "utf8_tail i (Suc n) [] = Inl None"
| "utf8_tail i (Suc n) (b # bs) = (if utf8_cont b then utf8_tail (Suc i) n bs else Inl (Some i))"

text \<open>One character: its width, or the length of the error.\<close>

definition utf8_char :: "u8 \<Rightarrow> bytes \<Rightarrow> nat option + nat" where
  "utf8_char first bs =
     (let w = utf8_char_width first in
      if w = 0 then Inl (Some 1)
      else if w \<le> 2 then map_sum id (\<lambda>_. w) (utf8_tail 1 (w - 1) bs)
      else case bs of
        [] \<Rightarrow> Inl None
      | b # rest \<Rightarrow>
          if utf8_second first b then map_sum id (\<lambda>_. w) (utf8_tail 2 (w - 2) rest) else Inl (Some 1))"

function utf8_validate :: "nat \<Rightarrow> bytes \<Rightarrow> Utf8Error option" where
  "utf8_validate i [] = None"
| "utf8_validate i (b # bs) =
     (case utf8_char b bs of
        Inl e \<Rightarrow> Some \<lparr>valid_up_to = i, error_len = e\<rparr>
      | Inr w \<Rightarrow> utf8_validate (i + w) (drop (w - 1) bs))"
  by pat_completeness auto
termination
  by (relation "measure (\<lambda>(i, bs). length bs)") (simp_all add: less_Suc_eq_le)

definition from_utf8 :: "bytes \<Rightarrow> Utf8Error + bytes" where
  "from_utf8 bs = (case utf8_validate 0 bs of Some e \<Rightarrow> Inl e | None \<Rightarrow> Inr bs)"

section \<open>Memo bytes\<close>

datatype MemoError = InvalidUtf8 Utf8Error | TooLong nat

record MemoBytes =
  memo_array :: bytes

definition memo_bytes_empty :: MemoBytes where
  "memo_bytes_empty = \<lparr>memo_array = 0xF6 # replicate 511 0\<rparr>"

text \<open>\<open>copy_from_slice\<close> to the front of an array of zeros.\<close>

definition padded :: "bytes \<Rightarrow> bytes" where
  "padded bs = bs @ replicate (512 - length bs) 0"

definition memo_bytes_from_bytes :: "bytes \<Rightarrow> MemoError + MemoBytes" where
  "memo_bytes_from_bytes bs =
     (if 512 < length bs then Inl (TooLong (length bs)) else Inr \<lparr>memo_array = padded bs\<rparr>)"

definition memo_as_slice :: "MemoBytes \<Rightarrow> bytes" where
  "memo_as_slice m =
     (let first_null =
        (case find (\<lambda>(i, b). b \<noteq> 0) (rev (enumerate 0 (memo_array m))) of
           Some (i, _) \<Rightarrow> i + 1
         | None \<Rightarrow> 0)
      in take first_null (memo_array m))"

section \<open>Memos\<close>

datatype Memo = MemoEmpty | MemoText bytes | MemoFuture MemoBytes | MemoArbitrary bytes

definition memo_try_from :: "MemoBytes \<Rightarrow> MemoError + Memo" where
  "memo_try_from m =
     (let b = hd (memo_array m) in
      if b = 0xF6 \<and> (\<forall>x\<in>set (drop 1 (memo_array m)). x = 0) then Inr MemoEmpty
      else if b = 0xFF then Inr (MemoArbitrary (drop 1 (memo_array m)))
      else if b \<le> 0xF4 then map_sum InvalidUtf8 MemoText (from_utf8 (memo_as_slice m))
      else Inr (MemoFuture m))"

definition memo_encode :: "Memo \<Rightarrow> MemoBytes option" where
  "memo_encode memo =
     (case memo of
        MemoEmpty \<Rightarrow> Some memo_bytes_empty
      | MemoText s \<Rightarrow> if 512 < length s then None else Some \<lparr>memo_array = padded s\<rparr>
      | MemoFuture m \<Rightarrow> Some m
      | MemoArbitrary arb \<Rightarrow> Some \<lparr>memo_array = 0xFF # arb\<rparr>)"

definition memo_from_bytes :: "bytes \<Rightarrow> MemoError + Memo" where
  "memo_from_bytes bs = (case memo_bytes_from_bytes bs of Inl e \<Rightarrow> Inl e | Inr m \<Rightarrow> memo_try_from m)"

definition memo_from_str :: "bytes \<Rightarrow> MemoError + Memo" where
  "memo_from_str s =
     (if s = [] then Inr MemoEmpty
      else if length s \<le> 512 then Inr (MemoText s)
      else Inl (TooLong (length s)))"

section \<open>Stripping the padding\<close>

lemma find_enumerate:
  "find (\<lambda>(i, b). P b) (rev (enumerate k xs)) = None \<longleftrightarrow> (\<forall>x\<in>set xs. \<not> P x)"
  by (induction xs arbitrary: k) (auto simp: find_None_iff)

lemma find_None_append: "find P us = None \<Longrightarrow> find P (us @ vs) = find P vs"
  by (induction us) (simp_all split: if_splits)

text \<open>The slice drops exactly the zeros at the end.\<close>

lemma find_last:
  assumes "P x" "\<forall>y\<in>set zs. \<not> P y"
  shows "find (\<lambda>(i, b). P b) (rev (enumerate k (ys @ x # zs))) = Some (k + length ys, x)"
proof -
  have "find (\<lambda>(i, b). P b) (rev (enumerate j zs)) = None" for j using assms(2) by (simp add: find_enumerate)
  then show ?thesis using assms(1) by (simp add: enumerate_append_eq find_None_append)
qed

lemma as_slice_padded: "s = [] \<or> last s \<noteq> 0 \<Longrightarrow> memo_as_slice \<lparr>memo_array = s @ replicate n 0\<rparr> = s"
proof (cases s rule: rev_cases)
  case Nil
  then have "find (\<lambda>(i, b). b \<noteq> 0) (rev (enumerate 0 (s @ replicate n (0::u8)))) = None"
    unfolding find_enumerate by simp
  with Nil show ?thesis by (simp add: memo_as_slice_def)
next
  case (snoc ys x)
  moreover assume "s = [] \<or> last s \<noteq> 0"
  ultimately have "x \<noteq> 0" by simp
  from find_last [of "\<lambda>b. b \<noteq> 0" x "replicate n 0" 0 ys, OF this] snoc show ?thesis
    by (simp add: memo_as_slice_def)
qed

lemma split_zeros: "\<exists>s n. bs = s @ replicate n (0::u8) \<and> (s = [] \<or> last s \<noteq> 0)"
proof (induction bs rule: rev_induct)
  case (snoc x xs)
  then obtain s n where s: "xs = s @ replicate n 0" "s = [] \<or> last s \<noteq> 0" by blast
  show ?case
  proof (cases "x = 0")
    case True
    with s show ?thesis by (intro exI [of _ s] exI [of _ "n + 1"]) (simp add: replicate_append_same)
  next
    case False
    then show ?thesis by (intro exI [of _ "xs @ [x]"] exI [of _ 0]) simp
  qed
qed simp

section \<open>Canonical memos\<close>

text \<open>What the types guarantee of a memo.\<close>

primrec memo_ok :: "Memo \<Rightarrow> bool" where
  "memo_ok MemoEmpty \<longleftrightarrow> True"
| "memo_ok (MemoText s) \<longleftrightarrow> from_utf8 s = Inr s \<and> length s \<le> 512"
| "memo_ok (MemoFuture m) \<longleftrightarrow> length (memo_array m) = 512"
| "memo_ok (MemoArbitrary a) \<longleftrightarrow> length a = 511"

text \<open>A memo that its encoding determines.\<close>

primrec memo_canonical :: "Memo \<Rightarrow> bool" where
  "memo_canonical MemoEmpty \<longleftrightarrow> True"
| "memo_canonical (MemoText s) \<longleftrightarrow> s = [] \<or> last s \<noteq> 0"
| "memo_canonical (MemoFuture m) \<longleftrightarrow>
     hd (memo_array m) \<noteq> 0xFF \<and> 0xF4 < hd (memo_array m) \<and> m \<noteq> memo_bytes_empty"
| "memo_canonical (MemoArbitrary a) \<longleftrightarrow> True"

lemma from_utf8_lead: "from_utf8 (b # bs) = Inr s \<Longrightarrow> b \<le> 0xF4"
  by (auto simp: from_utf8_def utf8_char_def utf8_char_width_def Let_def word_le_nat_alt
      split: sum.splits option.splits if_splits)

lemma from_utf8_same: "from_utf8 bs = Inr s \<Longrightarrow> s = bs"
  by (simp add: from_utf8_def split: option.splits)

lemma empty_iff:
  assumes "length (memo_array m) = 512"
  shows "hd (memo_array m) = 0xF6 \<and> (\<forall>x\<in>set (drop 1 (memo_array m)). x = 0) \<longleftrightarrow> m = memo_bytes_empty"
proof -
  from assms obtain b bs where m: "memo_array m = b # bs" "length bs = 511" by (cases "memo_array m") auto
  then have "(\<forall>x\<in>set bs. x = 0) \<longleftrightarrow> bs = replicate 511 0" using replicate_eqI [of bs 511 0] by auto
  then show ?thesis using m by (cases m) (auto simp: memo_bytes_empty_def)
qed

lemma padded_slice:
  assumes "length (memo_array m) = 512"
  shows "padded (memo_as_slice m) = memo_array m" "length (memo_as_slice m) \<le> 512"
    "memo_as_slice m = [] \<or> last (memo_as_slice m) \<noteq> 0"
proof -
  from split_zeros [of "memo_array m"] obtain s n where
    s: "memo_array m = s @ replicate n 0" "s = [] \<or> last s \<noteq> 0" by blast
  then have "m = \<lparr>memo_array = s @ replicate n 0\<rparr>" by (cases m) simp
  with as_slice_padded [OF s(2), of n] have "memo_as_slice m = s" by simp
  moreover have "n = 512 - length s" "length s \<le> 512" using s(1) assms by (simp_all add: eq_diff_iff)
  ultimately show "padded (memo_as_slice m) = memo_array m" "length (memo_as_slice m) \<le> 512"
    "memo_as_slice m = [] \<or> last (memo_as_slice m) \<noteq> 0" using s by (simp_all add: padded_def)
qed

lemma hd_padded: "length s \<le> 512 \<Longrightarrow> hd (padded s) = (if s = [] then 0 else hd s)"
  by (simp add: padded_def hd_append)

lemma not_le_F4: "\<not> (0xFF :: u8) \<le> 0xF4" "\<not> (0xF6 :: u8) \<le> 0xF4" "(0xF6 :: u8) \<noteq> 0xFF"
  by simp_all

lemma try_from_text:
  assumes "from_utf8 s = Inr s" "length s \<le> 512" "s = [] \<or> last s \<noteq> 0"
  shows "memo_try_from \<lparr>memo_array = padded s\<rparr> = Inr (MemoText s)"
proof -
  have slice: "memo_as_slice \<lparr>memo_array = padded s\<rparr> = s" using as_slice_padded [OF assms(3)] by (simp add: padded_def)
  have "hd (padded s) \<le> 0xF4" using assms(1) from_utf8_lead by (cases s) (auto simp: hd_padded assms(2) padded_def)
  moreover from this have "hd (padded s) \<noteq> 0xF6" "hd (padded s) \<noteq> 0xFF" using not_le_F4 by auto
  ultimately show ?thesis using assms(1) by (simp add: memo_try_from_def Let_def slice)
qed

lemma memo_parse:
  assumes "length (memo_array b) = 512" and "memo_try_from b = Inr m"
  shows "memo_encode m = Some b \<and> memo_ok m \<and> memo_canonical m"
proof -
  from assms(1) obtain x xs where b: "memo_array b = x # xs" "length xs = 511" by (cases "memo_array b") auto
  note empty = empty_iff [OF assms(1)] and sl = padded_slice [OF assms(1)]
  consider "b = memo_bytes_empty" "m = MemoEmpty"
    | "x = 0xFF" "m = MemoArbitrary xs"
    | s where "from_utf8 (memo_as_slice b) = Inr s" "m = MemoText s"
    | "m = MemoFuture b" "x \<noteq> 0xFF" "0xF4 < x" "b \<noteq> memo_bytes_empty"
    using assms(2) unfolding memo_try_from_def Let_def empty
    by (auto simp: b not_le split: if_splits sum.splits) (cases "from_utf8 (memo_as_slice b)"; auto)
  then show ?thesis
  proof cases
    case 3
    then have "s = memo_as_slice b" using from_utf8_same by blast
    with 3 sl show ?thesis by (cases b) (auto simp: memo_encode_def)
  qed (use assms(1) b in \<open>cases b, simp_all add: memo_encode_def\<close>)+
qed

lemma memo_roundtrip:
  assumes "memo_ok m"
  shows "\<exists>b. memo_encode m = Some b \<and> length (memo_array b) = 512 \<and>
    (memo_try_from b = Inr m \<longleftrightarrow> memo_canonical m)"
proof (cases m)
  case MemoEmpty
  then show ?thesis by (simp add: memo_encode_def memo_try_from_def memo_bytes_empty_def)
next
  case (MemoText s)
  with assms have s: "from_utf8 s = Inr s" "length s \<le> 512" by simp_all
  have len: "length (padded s) = 512" using s(2) by (simp add: padded_def)
  have "s = [] \<or> last s \<noteq> 0" if "memo_try_from \<lparr>memo_array = padded s\<rparr> = Inr (MemoText s)"
    using memo_parse [OF _ that] len by simp
  then show ?thesis using MemoText s len try_from_text [OF s] by (auto simp: memo_encode_def)
next
  case (MemoFuture b)
  with assms have len: "length (memo_array b) = 512" by simp
  have "memo_canonical m" if "memo_try_from b = Inr m" using memo_parse [OF len that] by simp
  moreover have "memo_try_from b = Inr m" if "memo_canonical m"
  proof -
    from that MemoFuture have "b \<noteq> memo_bytes_empty" "hd (memo_array b) \<noteq> 0xFF" "\<not> hd (memo_array b) \<le> 0xF4"
      by (simp_all add: not_le)
    then show ?thesis unfolding memo_try_from_def Let_def empty_iff [OF len] MemoFuture
      by (simp only: if_False)
  qed
  moreover have "memo_encode m = Some b" by (simp add: memo_encode_def MemoFuture)
  ultimately show ?thesis using len by blast
next
  case (MemoArbitrary a)
  then show ?thesis using assms by (simp add: memo_encode_def memo_try_from_def)
qed

section \<open>The properties\<close>

text \<open>
  Encoding undoes parsing: a memo parsed from 512 bytes is well formed and canonical, and it
  encodes to exactly those bytes. So no two byte strings parse to the same memo.
\<close>

theorem memo_parse_canonical:
  assumes "length (memo_array b) = 512" and "memo_try_from b = Inr m"
  shows "memo_encode m = Some b \<and> memo_ok m \<and> memo_canonical m"
  using memo_parse [OF assms] .

text \<open>
  Every well-formed memo encodes, to 512 bytes, without a panic; and parsing returns it again
  exactly when it is canonical: a text that does not end in a NUL, or a future memo that does not
  use the first byte of another kind.
\<close>

theorem memo_encode_roundtrip:
  assumes "memo_ok m"
  shows "\<exists>b. memo_encode m = Some b \<and> length (memo_array b) = 512 \<and>
    (memo_try_from b = Inr m \<longleftrightarrow> memo_canonical m)"
  using memo_roundtrip [OF assms] .

text \<open>
  \<open>from_str\<close> accepts exactly the strings of at most 512 bytes; the memo it makes encodes, and its
  encoding parses to it again unless the string ends in a NUL, which the padding swallows. Such a
  string can also be passed to \<open>from_bytes\<close>, which takes slices shorter than 512 bytes.
\<close>

theorem memo_from_str_roundtrip:
  assumes "from_utf8 s = Inr s"
  shows "if 512 < length s then memo_from_str s = Inl (TooLong (length s)) \<and> memo_from_bytes s = Inl (TooLong (length s))
    else \<exists>m b. memo_from_str s = Inr m \<and> memo_encode m = Some b \<and>
      (memo_try_from b = Inr m \<longleftrightarrow> s = [] \<or> last s \<noteq> 0) \<and>
      (s = [] \<or> last s \<noteq> 0 \<longrightarrow> memo_from_bytes s = Inr (MemoText s))"
proof (cases "512 < length s")
  case False
  let ?m = "if s = [] then MemoEmpty else MemoText s"
  have m: "memo_from_str s = Inr ?m" "memo_ok ?m" "memo_canonical ?m \<longleftrightarrow> s = [] \<or> last s \<noteq> 0"
    using False assms by (auto simp: memo_from_str_def)
  from memo_roundtrip [OF m(2)] m(3) obtain b where
    b: "memo_encode ?m = Some b" "memo_try_from b = Inr ?m \<longleftrightarrow> s = [] \<or> last s \<noteq> 0" by blast
  have "s = [] \<or> last s \<noteq> 0 \<longrightarrow> memo_from_bytes s = Inr (MemoText s)"
    using try_from_text [OF assms] False by (simp add: memo_from_bytes_def memo_bytes_from_bytes_def)
  with m(1) b False show ?thesis unfolding if_not_P [OF False] by (intro exI [of _ ?m] exI [of _ b]) blast
qed (auto simp: memo_from_str_def memo_from_bytes_def memo_bytes_from_bytes_def)


lemma utf8_hello: "from_utf8 [0x68, 0xC3, 0xA9] = Inr [0x68, 0xC3, 0xA9]"
  by code_simp

theorem memo_parse_canonical_witness:
  "memo_encode (MemoArbitrary (replicate 511 7)) = Some \<lparr>memo_array = 0xFF # replicate 511 7\<rparr>"
  using memo_parse_canonical [of "\<lparr>memo_array = 0xFF # replicate 511 7\<rparr>" "MemoArbitrary (replicate 511 7)"]
  by (simp add: memo_try_from_def)

theorem memo_encode_roundtrip_witness:
  "\<exists>b. memo_encode (MemoText [0x68, 0xC3, 0xA9]) = Some b \<and> memo_try_from b = Inr (MemoText [0x68, 0xC3, 0xA9])"
  using memo_encode_roundtrip [of "MemoText [0x68, 0xC3, 0xA9]"] utf8_hello by auto

theorem memo_from_str_roundtrip_witness:
  "memo_from_bytes [0x68, 0xC3, 0xA9] = Inr (MemoText [0x68, 0xC3, 0xA9])"
  using memo_from_str_roundtrip [OF utf8_hello] by auto

end
