(* ===== verification/Value.thy ===== *)
theory Value
  imports Zc_Prelude
begin

text \<open>
  Model of \<open>components/zcash_protocol/src/value.rs\<close>: \<open>ZatBalance\<close> (an \<open>i64\<close>, here an
  \<open>int\<close>) and \<open>Zatoshis\<close> (a \<open>u64\<close>, here a \<open>nat\<close>), the checked constructors, the byte
  encodings and the arithmetic. \<open>self.0 + rhs.0\<close> on \<open>i64\<close> is \<open>i64_add\<close>, which wraps: that the
  wrap-around is never met on valid amounts is proved, not assumed. \<open>zat_balance_valid\<close> and
  \<open>zatoshis_valid\<close> are the ranges the types promise to keep.
\<close>

section \<open>Constants and types\<close>

definition COIN :: nat where
  "COIN = 100000000"

definition MAX_MONEY :: nat where
  "MAX_MONEY = 21000000 * COIN"

definition MAX_BALANCE :: int where
  "MAX_BALANCE = int MAX_MONEY"

datatype ZatBalance = ZatBalance (zb: int)

datatype Zatoshis = Zatoshis (zat: nat)

datatype BalanceError = Overflow | Underflow

record 'a QuotRem =
  quotient :: 'a
  remainder :: 'a

instantiation ZatBalance :: linorder
begin

definition less_eq_ZatBalance :: "ZatBalance \<Rightarrow> ZatBalance \<Rightarrow> bool" where
  "less_eq_ZatBalance a b \<longleftrightarrow> zb a \<le> zb b"

definition less_ZatBalance :: "ZatBalance \<Rightarrow> ZatBalance \<Rightarrow> bool" where
  "less_ZatBalance a b \<longleftrightarrow> zb a < zb b"

instance
  by standard (auto simp: less_eq_ZatBalance_def less_ZatBalance_def intro: ZatBalance.expand)

end

instantiation Zatoshis :: linorder
begin

definition less_eq_Zatoshis :: "Zatoshis \<Rightarrow> Zatoshis \<Rightarrow> bool" where
  "less_eq_Zatoshis a b \<longleftrightarrow> zat a \<le> zat b"

definition less_Zatoshis :: "Zatoshis \<Rightarrow> Zatoshis \<Rightarrow> bool" where
  "less_Zatoshis a b \<longleftrightarrow> zat a < zat b"

instance
  by standard (auto simp: less_eq_Zatoshis_def less_Zatoshis_def intro: Zatoshis.expand)

end

section \<open>ZatBalance\<close>

definition zat_balance_zero :: ZatBalance where
  "zat_balance_zero = ZatBalance 0"

definition zat_balance_const_from_i64 :: "int \<Rightarrow> ZatBalance option" where
  "zat_balance_const_from_i64 amount =
     (if - MAX_BALANCE \<le> amount \<and> amount \<le> MAX_BALANCE then Some (ZatBalance amount) else None)"

definition zat_balance_const_from_u64 :: "nat \<Rightarrow> ZatBalance option" where
  "zat_balance_const_from_u64 amount =
     (if amount \<le> MAX_MONEY then Some (ZatBalance (i64_wrap (int amount))) else None)"

definition zat_balance_from_i64 :: "int \<Rightarrow> BalanceError + ZatBalance" where
  "zat_balance_from_i64 amount =
     (if - MAX_BALANCE \<le> amount \<and> amount \<le> MAX_BALANCE then Inr (ZatBalance amount)
      else if amount < - MAX_BALANCE then Inl Underflow
      else Inl Overflow)"

definition zat_balance_from_nonnegative_i64 :: "int \<Rightarrow> BalanceError + ZatBalance" where
  "zat_balance_from_nonnegative_i64 amount =
     (if 0 \<le> amount \<and> amount \<le> MAX_BALANCE then Inr (ZatBalance amount)
      else if amount < 0 then Inl Underflow
      else Inl Overflow)"

definition zat_balance_from_u64 :: "nat \<Rightarrow> BalanceError + ZatBalance" where
  "zat_balance_from_u64 amount =
     (if amount \<le> MAX_MONEY then Inr (ZatBalance (i64_wrap (int amount))) else Inl Overflow)"

definition i64_from_le_bytes :: "bytes \<Rightarrow> int" where
  "i64_from_le_bytes bs = sint (from_le_bytes bs :: u64)"

definition i64_to_le_bytes :: "int \<Rightarrow> bytes" where
  "i64_to_le_bytes i = to_le_bytes (word_of_int i :: u64)"

definition u64_from_le_bytes :: "bytes \<Rightarrow> nat" where
  "u64_from_le_bytes bs = unat (from_le_bytes bs :: u64)"

definition u64_to_le_bytes :: "nat \<Rightarrow> bytes" where
  "u64_to_le_bytes n = to_le_bytes (of_nat n :: u64)"

definition zat_balance_from_i64_le_bytes :: "bytes \<Rightarrow> BalanceError + ZatBalance" where
  "zat_balance_from_i64_le_bytes bs = zat_balance_from_i64 (i64_from_le_bytes bs)"

definition zat_balance_from_nonnegative_i64_le_bytes :: "bytes \<Rightarrow> BalanceError + ZatBalance" where
  "zat_balance_from_nonnegative_i64_le_bytes bs =
     zat_balance_from_nonnegative_i64 (i64_from_le_bytes bs)"

definition zat_balance_from_u64_le_bytes :: "bytes \<Rightarrow> BalanceError + ZatBalance" where
  "zat_balance_from_u64_le_bytes bs = zat_balance_from_u64 (u64_from_le_bytes bs)"

definition zat_balance_to_i64_le_bytes :: "ZatBalance \<Rightarrow> bytes" where
  "zat_balance_to_i64_le_bytes a = i64_to_le_bytes (zb a)"

definition zat_balance_is_positive :: "ZatBalance \<Rightarrow> bool" where
  "zat_balance_is_positive a \<longleftrightarrow> 0 < zb a"

definition zat_balance_is_negative :: "ZatBalance \<Rightarrow> bool" where
  "zat_balance_is_negative a \<longleftrightarrow> zb a < 0"

text \<open>\<open>Result::ok\<close>.\<close>

definition result_ok :: "'e + 'a \<Rightarrow> 'a option" where
  "result_ok r = (case r of Inl _ \<Rightarrow> None | Inr a \<Rightarrow> Some a)"

definition zat_balance_add :: "ZatBalance \<Rightarrow> ZatBalance \<Rightarrow> ZatBalance option" where
  "zat_balance_add a b = result_ok (zat_balance_from_i64 (i64_add (zb a) (zb b)))"

definition zat_balance_sub :: "ZatBalance \<Rightarrow> ZatBalance \<Rightarrow> ZatBalance option" where
  "zat_balance_sub a b = result_ok (zat_balance_from_i64 (i64_sub (zb a) (zb b)))"

definition opt_zat_balance_add :: "ZatBalance option \<Rightarrow> ZatBalance \<Rightarrow> ZatBalance option" where
  "opt_zat_balance_add a b = Option.bind a (\<lambda>lhs. zat_balance_add lhs b)"

definition opt_zat_balance_sub :: "ZatBalance option \<Rightarrow> ZatBalance \<Rightarrow> ZatBalance option" where
  "opt_zat_balance_sub a b = Option.bind a (\<lambda>lhs. zat_balance_sub lhs b)"

text \<open>The inherent \<open>sum\<close> is a loop that returns at the first \<open>None\<close>; the \<open>Sum\<close> instances fold.\<close>

primrec zat_balance_sum_loop :: "ZatBalance \<Rightarrow> ZatBalance list \<Rightarrow> ZatBalance option" where
  "zat_balance_sum_loop result [] = Some result"
| "zat_balance_sum_loop result (value # values) =
     (case zat_balance_add result value of None \<Rightarrow> None
      | Some result' \<Rightarrow> zat_balance_sum_loop result' values)"

definition zat_balance_sum :: "ZatBalance list \<Rightarrow> ZatBalance option" where
  "zat_balance_sum values = zat_balance_sum_loop zat_balance_zero values"

definition zat_balance_iter_sum :: "ZatBalance list \<Rightarrow> ZatBalance option" where
  "zat_balance_iter_sum values = try_fold zat_balance_add zat_balance_zero values"

definition zat_balance_neg :: "ZatBalance \<Rightarrow> ZatBalance" where
  "zat_balance_neg a = ZatBalance (i64_neg (zb a))"

definition zat_balance_mul :: "ZatBalance \<Rightarrow> nat \<Rightarrow> ZatBalance option" where
  "zat_balance_mul a rhs =
     (if 9223372036854775808 \<le> rhs then None
      else case i64_checked_mul (zb a) (int rhs) of None \<Rightarrow> None
        | Some i \<Rightarrow> result_ok (zat_balance_from_i64 i))"

definition u64_try_from_zat_balance :: "ZatBalance \<Rightarrow> BalanceError + nat" where
  "u64_try_from_zat_balance value = (if zb value < 0 then Inl Underflow else Inr (nat (zb value)))"

section \<open>Zatoshis\<close>

definition zatoshis_ZERO :: Zatoshis where
  "zatoshis_ZERO = Zatoshis 0"

definition zatoshis_into_i64 :: "Zatoshis \<Rightarrow> int" where
  "zatoshis_into_i64 a = i64_wrap (int (zat a))"

definition zatoshis_from_u64 :: "nat \<Rightarrow> BalanceError + Zatoshis" where
  "zatoshis_from_u64 amount = (if amount \<le> MAX_MONEY then Inr (Zatoshis amount) else Inl Overflow)"

definition zatoshis_const_from_u64 :: "nat \<Rightarrow> Zatoshis option" where
  "zatoshis_const_from_u64 amount = (if amount \<le> MAX_MONEY then Some (Zatoshis amount) else None)"

definition zatoshis_from_nonnegative_i64 :: "int \<Rightarrow> BalanceError + Zatoshis" where
  "zatoshis_from_nonnegative_i64 amount =
     (if amount < 0 then Inl Underflow else zatoshis_from_u64 (nat amount))"

definition zatoshis_from_u64_le_bytes :: "bytes \<Rightarrow> BalanceError + Zatoshis" where
  "zatoshis_from_u64_le_bytes bs = zatoshis_from_u64 (u64_from_le_bytes bs)"

definition zatoshis_from_nonnegative_i64_le_bytes :: "bytes \<Rightarrow> BalanceError + Zatoshis" where
  "zatoshis_from_nonnegative_i64_le_bytes bs = zatoshis_from_nonnegative_i64 (i64_from_le_bytes bs)"

definition zatoshis_to_i64_le_bytes :: "Zatoshis \<Rightarrow> bytes" where
  "zatoshis_to_i64_le_bytes a = i64_to_le_bytes (zatoshis_into_i64 a)"

definition zatoshis_to_u64_le_bytes :: "Zatoshis \<Rightarrow> bytes" where
  "zatoshis_to_u64_le_bytes a = u64_to_le_bytes (zat a)"

definition zatoshis_write :: "Zatoshis \<Rightarrow> writer" where
  "zatoshis_write a = Inr (zatoshis_to_u64_le_bytes a)"

definition zatoshis_read :: "Zatoshis reader" where
  "zatoshis_read =
     read_bind (read_exact 8) (\<lambda>bytes.
       case zatoshis_from_u64_le_bytes bytes of
         Inl _ \<Rightarrow> read_fail InvalidData
       | Inr a \<Rightarrow> read_return a)"

definition zatoshis_is_zero :: "Zatoshis \<Rightarrow> bool" where
  "zatoshis_is_zero a \<longleftrightarrow> a = zatoshis_ZERO"

definition zatoshis_is_positive :: "Zatoshis \<Rightarrow> bool" where
  "zatoshis_is_positive a \<longleftrightarrow> zatoshis_ZERO < a"

text \<open>The divisor is a \<open>NonZeroU64\<close>.\<close>

definition zatoshis_div_with_remainder :: "Zatoshis \<Rightarrow> nat \<Rightarrow> Zatoshis QuotRem" where
  "zatoshis_div_with_remainder a divisor =
     \<lparr>quotient = Zatoshis (zat a div divisor), remainder = Zatoshis (zat a mod divisor)\<rparr>"

definition zat_balance_of_zatoshis :: "Zatoshis \<Rightarrow> ZatBalance" where
  "zat_balance_of_zatoshis n = ZatBalance (i64_wrap (int (zat n)))"

definition zatoshis_try_from_zat_balance :: "ZatBalance \<Rightarrow> BalanceError + Zatoshis" where
  "zatoshis_try_from_zat_balance value = zatoshis_from_nonnegative_i64 (zb value)"

definition zat_balance_add_zatoshis :: "ZatBalance \<Rightarrow> Zatoshis \<Rightarrow> ZatBalance option" where
  "zat_balance_add_zatoshis a b =
     result_ok (zat_balance_from_i64 (i64_add (zb a) (zatoshis_into_i64 b)))"

definition zat_balance_sub_zatoshis :: "ZatBalance \<Rightarrow> Zatoshis \<Rightarrow> ZatBalance option" where
  "zat_balance_sub_zatoshis a b =
     result_ok (zat_balance_from_i64 (i64_sub (zb a) (zatoshis_into_i64 b)))"

definition zatoshis_add :: "Zatoshis \<Rightarrow> Zatoshis \<Rightarrow> Zatoshis option" where
  "zatoshis_add a b =
     Option.bind (u64_checked_add (zat a) (zat b)) (\<lambda>s. result_ok (zatoshis_from_u64 s))"

definition zatoshis_sub :: "Zatoshis \<Rightarrow> Zatoshis \<Rightarrow> Zatoshis option" where
  "zatoshis_sub a b =
     Option.bind (u64_checked_sub (zat a) (zat b)) (\<lambda>s. result_ok (zatoshis_from_u64 s))"

definition opt_zatoshis_add :: "Zatoshis option \<Rightarrow> Zatoshis \<Rightarrow> Zatoshis option" where
  "opt_zatoshis_add a b = Option.bind a (\<lambda>lhs. zatoshis_add lhs b)"

definition opt_zatoshis_sub :: "Zatoshis option \<Rightarrow> Zatoshis \<Rightarrow> Zatoshis option" where
  "opt_zatoshis_sub a b = Option.bind a (\<lambda>lhs. zatoshis_sub lhs b)"

definition zatoshis_mul :: "Zatoshis \<Rightarrow> nat \<Rightarrow> Zatoshis option" where
  "zatoshis_mul a rhs =
     Option.bind (u64_checked_mul (zat a) rhs) (\<lambda>p. result_ok (zatoshis_from_u64 p))"

definition zatoshis_iter_sum :: "Zatoshis list \<Rightarrow> Zatoshis option" where
  "zatoshis_iter_sum values = try_fold zatoshis_add zatoshis_ZERO values"

definition zatoshis_div :: "Zatoshis \<Rightarrow> nat \<Rightarrow> Zatoshis" where
  "zatoshis_div a rhs = Zatoshis (zat a div rhs)"

definition zatoshis_neg :: "Zatoshis \<Rightarrow> ZatBalance" where
  "zatoshis_neg a = zat_balance_neg (zat_balance_of_zatoshis a)"

section \<open>The ranges the types keep\<close>

definition zat_balance_valid :: "ZatBalance \<Rightarrow> bool" where
  "zat_balance_valid a \<longleftrightarrow> - MAX_BALANCE \<le> zb a \<and> zb a \<le> MAX_BALANCE"

definition zatoshis_valid :: "Zatoshis \<Rightarrow> bool" where
  "zatoshis_valid a \<longleftrightarrow> zat a \<le> MAX_MONEY"

lemma MAX_MONEY_eq: "MAX_MONEY = 2100000000000000"
  by (simp add: MAX_MONEY_def COIN_def)

lemma MAX_BALANCE_eq: "MAX_BALANCE = 2100000000000000"
  by (simp add: MAX_BALANCE_def MAX_MONEY_eq)

lemmas value_bounds = MAX_MONEY_eq MAX_BALANCE_eq zat_balance_valid_def zatoshis_valid_def

named_theorems zat_model \<open>definitions of the amount constructors and conversions\<close>

lemmas [zat_model] =
  zat_balance_const_from_i64_def zat_balance_const_from_u64_def zat_balance_from_i64_def
  zat_balance_from_nonnegative_i64_def zat_balance_from_u64_def zatoshis_into_i64_def
  zatoshis_from_u64_def zatoshis_const_from_u64_def zatoshis_from_nonnegative_i64_def
  zat_balance_of_zatoshis_def zatoshis_try_from_zat_balance_def result_ok_def

text \<open>Arithmetic on valid amounts is exact: the fixed-width operations never wrap.\<close>

lemma i64_ok_valid: "zat_balance_valid a \<Longrightarrow> i64_ok (zb a)"
  by (simp add: value_bounds i64_ok_def)

lemma zatoshis_into_i64_exact: "zatoshis_valid a \<Longrightarrow> zatoshis_into_i64 a = int (zat a)"
  by (simp add: value_bounds zatoshis_into_i64_def i64_ok_def)

lemma zb_of_zatoshis: "zatoshis_valid a \<Longrightarrow> zb (zat_balance_of_zatoshis a) = int (zat a)"
  by (simp add: value_bounds zat_balance_of_zatoshis_def i64_ok_def)

lemma zat_balance_of_zatoshis_valid: "zatoshis_valid a \<Longrightarrow> zat_balance_valid (zat_balance_of_zatoshis a)"
  by (simp add: zat_balance_valid_def zb_of_zatoshis) (simp add: value_bounds)

lemma zat_balance_from_i64_Inr:
  "zat_balance_from_i64 i = Inr c \<longleftrightarrow> zat_balance_valid c \<and> zb c = i"
  by (cases c) (auto simp: zat_balance_from_i64_def zat_balance_valid_def)

lemma result_ok_Some [simp]: "result_ok r = Some x \<longleftrightarrow> r = Inr x"
  by (auto simp: result_ok_def split: sum.splits)

lemma result_ok_None [simp]: "result_ok r = None \<longleftrightarrow> (\<exists>e. r = Inl e)"
  by (auto simp: result_ok_def split: sum.splits)

lemma zat_balance_add_Some:
  assumes "zat_balance_valid a" "zat_balance_valid b"
  shows "zat_balance_add a b = Some c \<longleftrightarrow> zat_balance_valid c \<and> zb c = zb a + zb b"
proof -
  have "i64_ok (zb a + zb b)" using assms by (simp add: value_bounds i64_ok_def)
  then show ?thesis
    by (simp add: zat_balance_add_def i64_add_def zat_balance_from_i64_Inr)
qed

lemma zat_balance_sub_Some:
  assumes "zat_balance_valid a" "zat_balance_valid b"
  shows "zat_balance_sub a b = Some c \<longleftrightarrow> zat_balance_valid c \<and> zb c = zb a - zb b"
proof -
  have "i64_ok (zb a - zb b)" using assms by (simp add: value_bounds i64_ok_def)
  then show ?thesis
    by (simp add: zat_balance_sub_def i64_sub_def zat_balance_from_i64_Inr)
qed

lemma zat_balance_neg_exact:
  assumes "zat_balance_valid a"
  shows "zb (zat_balance_neg a) = - zb a"
  using assms by (simp add: zat_balance_neg_def i64_neg_def value_bounds i64_ok_def)

lemma zat_balance_neg_valid: "zat_balance_valid a \<Longrightarrow> zat_balance_valid (zat_balance_neg a)"
  using zat_balance_neg_exact [of a] by (simp add: zat_balance_valid_def)

lemma zat_balance_add_zatoshis_eq:
  "zatoshis_valid b \<Longrightarrow> zat_balance_add_zatoshis a b = zat_balance_add a (zat_balance_of_zatoshis b)"
  by (simp add: zat_balance_add_zatoshis_def zat_balance_add_def zatoshis_into_i64_exact zb_of_zatoshis)

lemma zat_balance_sub_zatoshis_eq:
  "zatoshis_valid b \<Longrightarrow> zat_balance_sub_zatoshis a b = zat_balance_sub a (zat_balance_of_zatoshis b)"
  by (simp add: zat_balance_sub_zatoshis_def zat_balance_sub_def zatoshis_into_i64_exact zb_of_zatoshis)

lemma zat_balance_mul_Some:
  assumes "zat_balance_valid a"
  shows "zat_balance_mul a n = Some c \<longleftrightarrow>
    n < 9223372036854775808 \<and> zat_balance_valid c \<and> zb c = zb a * int n"
  by (auto simp: zat_balance_mul_def i64_checked_mul_def zat_balance_from_i64_Inr
    split: option.splits if_splits) (auto simp: value_bounds)

lemma zatoshis_from_u64_Inr: "zatoshis_from_u64 n = Inr c \<longleftrightarrow> zatoshis_valid c \<and> zat c = n"
  by (cases c) (auto simp: zatoshis_from_u64_def zatoshis_valid_def)

lemma zatoshis_add_Some:
  "zatoshis_add a b = Some c \<longleftrightarrow> zatoshis_valid c \<and> zat c = zat a + zat b"
  by (auto simp: zatoshis_add_def u64_checked_add_def zatoshis_from_u64_Inr bind_eq_Some_conv)
    (simp add: value_bounds)

lemma zatoshis_sub_Some:
  "zatoshis_sub a b = Some c \<longleftrightarrow> zatoshis_valid c \<and> zat a = zat b + zat c"
  by (auto simp: zatoshis_sub_def u64_checked_sub_def zatoshis_from_u64_Inr bind_eq_Some_conv)

lemma zatoshis_mul_Some:
  "zatoshis_mul a n = Some c \<longleftrightarrow> zatoshis_valid c \<and> zat c = zat a * n"
  by (auto simp: zatoshis_mul_def u64_checked_mul_def zatoshis_from_u64_Inr bind_eq_Some_conv)
    (simp add: value_bounds)

section \<open>Sums of bounded amounts\<close>

text \<open>
  What the two amount types have in common: values of an integer range, an injective reading,
  and an addition that fails exactly when the exact sum leaves the range. The \<open>Sum\<close> instances
  of both fold this addition.
\<close>

locale bounded_amount =
  fixes val :: "'a \<Rightarrow> int"
    and valid :: "'a \<Rightarrow> bool"
    and lo hi :: int
    and zero :: 'a
    and add :: "'a \<Rightarrow> 'a \<Rightarrow> 'a option"
  assumes val_inj: "val a = val b \<Longrightarrow> a = b"
    and valid_iff: "valid a \<longleftrightarrow> lo \<le> val a \<and> val a \<le> hi"
    and range: "lo \<le> i \<Longrightarrow> i \<le> hi \<Longrightarrow> \<exists>a. val a = i"
    and zero: "val zero = 0" "lo \<le> 0" "0 \<le> hi"
    and add_Some: "valid a \<Longrightarrow> valid b \<Longrightarrow> add a b = Some c \<longleftrightarrow> valid c \<and> val c = val a + val b"
begin

lemma valid_zero: "valid zero"
  by (simp add: valid_iff zero)

lemma add_None:
  assumes "valid a" "valid b"
  shows "add a b = None \<longleftrightarrow> val a + val b < lo \<or> hi < val a + val b"
proof
  assume n: "add a b = None"
  show "val a + val b < lo \<or> hi < val a + val b"
  proof (rule ccontr)
    assume "\<not> ?thesis"
    then obtain c where "val c = val a + val b" "valid c"
      using range [of "val a + val b"] by (auto simp: valid_iff)
    with add_Some [OF assms] n show False by auto
  qed
next
  assume "val a + val b < lo \<or> hi < val a + val b"
  then show "add a b = None"
    using add_Some [OF assms] by (cases "add a b") (fastforce simp: valid_iff)+
qed

lemma add_commute:
  assumes "valid a" "valid b"
  shows "add a b = add b a"
proof -
  have "add a b = Some c \<longleftrightarrow> add b a = Some c" for c
    using add_Some [OF assms, of c] add_Some [OF assms(2,1), of c] by (simp add: add.commute)
  then show ?thesis by (metis not_None_eq)
qed

text \<open>The fold succeeds exactly when every prefix sum stays in range, and then it is exact.\<close>

lemma fold_Some:
  assumes "valid acc" "\<forall>x\<in>set xs. valid x"
  shows "try_fold add acc xs = Some c \<longleftrightarrow>
    (\<forall>n\<le>length xs. lo \<le> val acc + sum_list (map val (take n xs)) \<and>
      val acc + sum_list (map val (take n xs)) \<le> hi) \<and>
    val c = val acc + sum_list (map val xs)"
  using assms
proof (induction xs arbitrary: acc)
  case Nil
  then show ?case using val_inj by (auto simp: valid_iff)
next
  case (Cons x xs)
  let ?ok = "\<lambda>a ys. \<forall>n\<le>length ys. lo \<le> val a + sum_list (map val (take n ys)) \<and>
      val a + sum_list (map val (take n ys)) \<le> hi"
  have x: "valid x" using Cons.prems by simp
  show ?case
  proof (cases "add acc x")
    case None
    then have "\<not> ?ok acc (x # xs)"
      using add_None [OF Cons.prems(1) x] by (auto intro!: exI [of _ "Suc 0"])
    with None show ?thesis by simp
  next
    case (Some a)
    then have a: "valid a" "val a = val acc + val x"
      using add_Some [OF Cons.prems(1) x] by auto
    have "?ok acc (x # xs) \<longleftrightarrow> ?ok a xs"
    proof
      assume ok: "?ok acc (x # xs)"
      show "?ok a xs"
      proof (intro allI impI)
        fix n assume "n \<le> length xs"
        with ok [rule_format, of "Suc n"] a(2)
        show "lo \<le> val a + sum_list (map val (take n xs)) \<and> val a + sum_list (map val (take n xs)) \<le> hi"
          by (simp add: algebra_simps)
      qed
    next
      assume ok: "?ok a xs"
      show "?ok acc (x # xs)"
      proof (intro allI impI)
        fix n assume "n \<le> length (x # xs)"
        then show "lo \<le> val acc + sum_list (map val (take n (x # xs))) \<and>
            val acc + sum_list (map val (take n (x # xs))) \<le> hi"
          using ok a Cons.prems(1) by (cases n) (auto simp: valid_iff algebra_simps)
      qed
    qed
    moreover have "try_fold add a xs = Some c \<longleftrightarrow> ?ok a xs \<and> val c = val a + sum_list (map val xs)"
      using Cons.IH [OF a(1)] Cons.prems(2) by simp
    ultimately show ?thesis using Some a(2) by (simp add: add.assoc)
  qed
qed

end

text \<open>For non-negative amounts the prefix sums grow, so only the total matters.\<close>

locale nonneg_amount = bounded_amount +
  assumes lo_zero: "lo = 0"
begin

lemma nonneg_fold_Some:
  assumes "valid acc" "\<forall>x\<in>set xs. valid x"
  shows "try_fold add acc xs = Some c \<longleftrightarrow> valid c \<and> val c = val acc + sum_list (map val xs)"
  using assms
proof (induction xs arbitrary: acc)
  case Nil
  then show ?case using val_inj by auto
next
  case (Cons x xs)
  have x: "valid x" using Cons.prems by simp
  have nonneg: "0 \<le> sum_list (map val xs)"
    using Cons.prems by (intro sum_list_nonneg) (auto simp: valid_iff lo_zero)
  show ?case
  proof (cases "add acc x")
    case None
    then have "hi < val acc + val x"
      using add_None [OF Cons.prems(1) x] Cons.prems x by (auto simp: valid_iff lo_zero)
    with None nonneg show ?thesis by (auto simp: valid_iff)
  next
    case (Some a)
    then have a: "valid a" "val a = val acc + val x"
      using add_Some [OF Cons.prems(1) x] by auto
    with Cons.IH [OF a(1)] Cons.prems(2) Some show ?thesis by (simp add: add.assoc)
  qed
qed

end

interpretation balance: bounded_amount
  zb zat_balance_valid "- MAX_BALANCE" MAX_BALANCE zat_balance_zero zat_balance_add
proof
  fix i assume "- MAX_BALANCE \<le> i" "i \<le> MAX_BALANCE"
  then show "\<exists>a. zb a = i" by (auto intro: exI [of _ "ZatBalance i"])
qed (auto simp: zat_balance_add_Some zat_balance_valid_def zat_balance_zero_def MAX_BALANCE_eq
  intro: ZatBalance.expand)

interpretation zatoshis: nonneg_amount
  "\<lambda>a. int (zat a)" zatoshis_valid 0 MAX_BALANCE zatoshis_ZERO zatoshis_add
proof
  fix i :: int assume "0 \<le> i" "i \<le> MAX_BALANCE"
  then show "\<exists>a. int (zat a) = i" by (auto intro: exI [of _ "Zatoshis (nat i)"])
qed (auto simp: zatoshis_add_Some value_bounds zatoshis_ZERO_def intro: Zatoshis.expand)

lemma zat_balance_sum_loop_eq: "zat_balance_sum_loop acc xs = try_fold zat_balance_add acc xs"
  by (induction xs arbitrary: acc) (auto split: option.splits)

lemma zat_balance_sum_eq: "zat_balance_sum xs = zat_balance_iter_sum xs"
  by (simp add: zat_balance_sum_def zat_balance_iter_sum_def zat_balance_sum_loop_eq)

section \<open>Byte encodings\<close>

lemma i64_to_from_le_bytes: "length bs = 8 \<Longrightarrow> i64_to_le_bytes (i64_from_le_bytes bs) = bs"
  by (simp add: i64_to_le_bytes_def i64_from_le_bytes_def)

lemma i64_from_to_le_bytes: "i64_ok i \<Longrightarrow> i64_from_le_bytes (i64_to_le_bytes i) = i"
  by (simp add: i64_to_le_bytes_def i64_from_le_bytes_def signed_of_int signed_take_bit_int_eq_self
    i64_ok_def)

lemma u64_to_from_le_bytes: "length bs = 8 \<Longrightarrow> u64_to_le_bytes (u64_from_le_bytes bs) = bs"
  by (simp add: u64_to_le_bytes_def u64_from_le_bytes_def)

lemma u64_from_to_le_bytes: "u64_ok n \<Longrightarrow> u64_from_le_bytes (u64_to_le_bytes n) = n"
  by (simp add: u64_to_le_bytes_def u64_from_le_bytes_def unat_of_nat u64_ok_def take_bit_nat_eq_self)

lemma length_le_bytes [simp]: "length (i64_to_le_bytes i) = 8" "length (u64_to_le_bytes n) = 8"
  by (simp_all add: i64_to_le_bytes_def u64_to_le_bytes_def)

section \<open>Properties\<close>

text \<open>
  Summing balances is exact or fails: \<open>ZatBalance::sum\<close> returns a total precisely when
  every prefix sum lies in \<open>-MAX_BALANCE..=MAX_BALANCE\<close>, and the total is the integer sum,
  so the wrapping \<open>i64\<close> additions inside it never wrap. The \<open>Sum\<close> instance agrees.
\<close>

theorem zat_balance_sum_exact:
  assumes "\<forall>a\<in>set xs. zat_balance_valid a"
  shows "(zat_balance_sum xs = Some t \<longleftrightarrow>
      (\<forall>n\<le>length xs. \<bar>sum_list (map zb (take n xs))\<bar> \<le> MAX_BALANCE) \<and> zb t = sum_list (map zb xs)) \<and>
    zat_balance_sum xs = zat_balance_iter_sum xs"
proof -
  have "\<bar>i\<bar> \<le> MAX_BALANCE \<longleftrightarrow> - MAX_BALANCE \<le> i \<and> i \<le> MAX_BALANCE" for i
    by auto
  with balance.fold_Some [OF balance.valid_zero assms, of t] show ?thesis
    by (simp only: zat_balance_sum_eq zat_balance_iter_sum_def balance.zero add_0)
qed

theorem zat_balance_sum_exact_witness:
  "zat_balance_sum [ZatBalance 7, ZatBalance (- 10), ZatBalance 4] = Some (ZatBalance 1)"
proof -
  have "\<forall>a\<in>set [ZatBalance 7, ZatBalance (- 10), ZatBalance 4]. zat_balance_valid a"
    by (simp add: value_bounds)
  from zat_balance_sum_exact [OF this, of "ZatBalance 1"] show ?thesis
    by (simp add: MAX_BALANCE_eq le_Suc_eq numeral_3_eq_3 numeral_2_eq_2)
qed

lemma zatoshis_iter_sum_Some:
  assumes "\<forall>x\<in>set xs. zatoshis_valid x"
  shows "zatoshis_iter_sum xs = Some c \<longleftrightarrow> sum_list (map zat xs) \<le> MAX_MONEY \<and> c = Zatoshis (sum_list (map zat xs))"
proof -
  have "sum_list (map (\<lambda>a. int (zat a)) xs) = int (sum_list (map zat xs))"
    by (induction xs) auto
  then show ?thesis
    using zatoshis.nonneg_fold_Some [OF zatoshis.valid_zero assms, of c]
    by (cases c) (auto simp: zatoshis_iter_sum_def zatoshis_ZERO_def zatoshis_valid_def)
qed

text \<open>
  C35. \<open>Zatoshis\<close> arithmetic is exact on the range and fails outside it: addition, subtraction,
  multiplication by a count, and the sum of an iterator give the mathematical result whenever
  that result is in \<open>0..=MAX_MONEY\<close>, and \<open>None\<close> otherwise; every result is in range.
\<close>

theorem zatoshis_arithmetic_exact:
  assumes "\<forall>x\<in>set xs. zatoshis_valid x"
  shows "(zatoshis_add a b = Some c \<longleftrightarrow> zat a + zat b \<le> MAX_MONEY \<and> c = Zatoshis (zat a + zat b)) \<and>
    (zatoshis_valid a \<longrightarrow>
      (zatoshis_sub a b = Some c \<longleftrightarrow> zat b \<le> zat a \<and> c = Zatoshis (zat a - zat b))) \<and>
    (zatoshis_mul a n = Some c \<longleftrightarrow> zat a * n \<le> MAX_MONEY \<and> c = Zatoshis (zat a * n)) \<and>
    (zatoshis_iter_sum xs = Some c \<longleftrightarrow>
      sum_list (map zat xs) \<le> MAX_MONEY \<and> c = Zatoshis (sum_list (map zat xs)))"
proof (intro conjI impI)
  show "zatoshis_add a b = Some c \<longleftrightarrow> zat a + zat b \<le> MAX_MONEY \<and> c = Zatoshis (zat a + zat b)"
    by (cases c) (auto simp: zatoshis_add_Some zatoshis_valid_def)
  show "zatoshis_sub a b = Some c \<longleftrightarrow> zat b \<le> zat a \<and> c = Zatoshis (zat a - zat b)"
    if "zatoshis_valid a"
    using that by (cases c) (auto simp: zatoshis_sub_Some zatoshis_valid_def)
  show "zatoshis_mul a n = Some c \<longleftrightarrow> zat a * n \<le> MAX_MONEY \<and> c = Zatoshis (zat a * n)"
    by (cases c) (auto simp: zatoshis_mul_Some zatoshis_valid_def)
  show "zatoshis_iter_sum xs = Some c \<longleftrightarrow>
      sum_list (map zat xs) \<le> MAX_MONEY \<and> c = Zatoshis (sum_list (map zat xs))"
    by (rule zatoshis_iter_sum_Some [OF assms])
qed

theorem zatoshis_arithmetic_exact_witness:
  "zatoshis_iter_sum [Zatoshis 5, Zatoshis 2100000000000000] = None \<and>
   zatoshis_sub (Zatoshis 5) (Zatoshis 2) = Some (Zatoshis 3)"
proof -
  let ?xs = "[Zatoshis 5, Zatoshis 2100000000000000]"
  have v: "\<forall>x\<in>set ?xs. zatoshis_valid x" "zatoshis_valid (Zatoshis 5)"
    by (simp_all add: value_bounds)
  have "zatoshis_iter_sum ?xs \<noteq> Some c" for c
    using zatoshis_arithmetic_exact [OF v(1), of undefined undefined c undefined]
    by (simp add: MAX_MONEY_eq)
  moreover have "zatoshis_sub (Zatoshis 5) (Zatoshis 2) = Some (Zatoshis 3)"
    using zatoshis_arithmetic_exact [OF v(1), of "Zatoshis 5" "Zatoshis 2" "Zatoshis 3" undefined] v(2)
    by simp
  ultimately show ?thesis by auto
qed

text \<open>
  The 8-byte encodings of amounts are canonical: a byte string decodes to an amount exactly
  when it is the encoding of that (valid) amount, for the signed little-endian encoding of
  \<open>ZatBalance\<close> and for both encodings of \<open>Zatoshis\<close>.
\<close>

theorem amount_bytes_canonical:
  assumes "length bs = 8"
  shows "(zat_balance_from_i64_le_bytes bs = Inr a \<longleftrightarrow>
      zat_balance_valid a \<and> zat_balance_to_i64_le_bytes a = bs) \<and>
    (zatoshis_from_u64_le_bytes bs = Inr z \<longleftrightarrow>
      zatoshis_valid z \<and> zatoshis_to_u64_le_bytes z = bs) \<and>
    (zatoshis_from_nonnegative_i64_le_bytes bs = Inr z \<longleftrightarrow>
      zatoshis_valid z \<and> zatoshis_to_i64_le_bytes z = bs)"
proof (intro conjI)
  show "zat_balance_from_i64_le_bytes bs = Inr a \<longleftrightarrow>
      zat_balance_valid a \<and> zat_balance_to_i64_le_bytes a = bs"
    using assms i64_to_from_le_bytes i64_from_to_le_bytes i64_ok_valid
    by (auto simp: zat_balance_from_i64_le_bytes_def zat_balance_to_i64_le_bytes_def
      zat_balance_from_i64_Inr)
  have u: "u64_ok (zat z)" if "zatoshis_valid z" for z
    using that by (simp add: value_bounds u64_ok_def)
  show "zatoshis_from_u64_le_bytes bs = Inr z \<longleftrightarrow> zatoshis_valid z \<and> zatoshis_to_u64_le_bytes z = bs"
    using assms u64_to_from_le_bytes u64_from_to_le_bytes u
    by (auto simp: zatoshis_from_u64_le_bytes_def zatoshis_to_u64_le_bytes_def zatoshis_from_u64_Inr)
  have i: "i64_ok (int (zat z))" if "zatoshis_valid z" for z
    using that by (simp add: value_bounds i64_ok_def)
  show "zatoshis_from_nonnegative_i64_le_bytes bs = Inr z \<longleftrightarrow>
      zatoshis_valid z \<and> zatoshis_to_i64_le_bytes z = bs"
    using assms i64_to_from_le_bytes [of bs] i64_from_to_le_bytes [OF i, of z]
    by (auto simp: zatoshis_from_nonnegative_i64_le_bytes_def zatoshis_from_nonnegative_i64_def
      zatoshis_to_i64_le_bytes_def zatoshis_from_u64_Inr zatoshis_into_i64_exact split: if_splits)
qed

theorem amount_bytes_canonical_witness:
  "zat_balance_from_i64_le_bytes [255, 255, 255, 255, 255, 255, 255, 255] = Inr (ZatBalance (- 1)) \<and>
   zatoshis_from_u64_le_bytes [1, 2, 0, 0, 0, 0, 0, 0] = Inr (Zatoshis 513)"
proof -
  have "zat_balance_to_i64_le_bytes (ZatBalance (- 1)) = [255, 255, 255, 255, 255, 255, 255, 255]"
    by (simp add: zat_balance_to_i64_le_bytes_def i64_to_le_bytes_def to_le_bytes_def upt_rec
      mask_eq_exp_minus_1)
  moreover have "zatoshis_to_u64_le_bytes (Zatoshis 513) = [1, 2, 0, 0, 0, 0, 0, 0]"
    by (simp add: zatoshis_to_u64_le_bytes_def u64_to_le_bytes_def to_le_bytes_def upt_rec)
  ultimately show ?thesis
    using amount_bytes_canonical [of "[255, 255, 255, 255, 255, 255, 255, 255]" "ZatBalance (- 1)"]
      amount_bytes_canonical [of "[1, 2, 0, 0, 0, 0, 0, 0]" _ "Zatoshis 513"]
    by (simp add: value_bounds)
qed

text \<open>
  \<open>div_with_remainder\<close> splits an amount into a valid quotient and a valid remainder smaller
  than the (non-zero) divisor, so the two unchecked constructions it makes keep the range.
\<close>

theorem zatoshis_div_with_remainder_spec:
  assumes "zatoshis_valid a" and "0 < d"
  defines "r \<equiv> zatoshis_div_with_remainder a d"
  shows "zatoshis_valid (quotient r) \<and> zatoshis_valid (remainder r) \<and>
    zat a = zat (quotient r) * d + zat (remainder r) \<and> zat (remainder r) < d"
  using assms order.trans [OF div_le_dividend [of "zat a" d]]
    order.trans [OF mod_less_eq_dividend [of "zat a" d]]
  by (auto simp: zatoshis_div_with_remainder_def zatoshis_valid_def)

theorem zatoshis_div_with_remainder_spec_witness:
  "zat (quotient (zatoshis_div_with_remainder (Zatoshis 17) 5)) = 3 \<and>
   zat (remainder (zatoshis_div_with_remainder (Zatoshis 17) 5)) = 2"
  using zatoshis_div_with_remainder_spec [of "Zatoshis 17" 5]
  by (simp add: value_bounds zatoshis_div_with_remainder_def)

end
