(* ===== verification/Zip318.thy ===== *)
theory Zip318
  imports Value Consensus
begin

text \<open>
  Model of \<open>components/zcash_protocol/src/zip318.rs\<close>: the \<open>{1, 2, 5} * 10^k\<close> denomination
  series, the rolling expiry, the anchor grid, and the classification of transactions. The
  \<open>while\<close> loops of the source stop only for a positive power or a positive value: they are
  partial functions whose \<open>None\<close> is a loop that never returns, and termination is proved
  where the code relies on it. The trait \<open>PoolMigrationConstants\<close> is a record of its
  accessors, with \<open>zip318_constants\<close> the default bodies.
\<close>

section \<open>Denominations\<close>

definition DENOMINATION_RADIX :: nat where
  "DENOMINATION_RADIX = 10"

definition ONE_TWO_FIVE_DESCENDING :: "nat list" where
  "ONE_TWO_FIVE_DESCENDING = [5, 2, 1]"

definition DENOM_CAP :: Zatoshis where
  "DENOM_CAP = Zatoshis (10000 * COIN)"

definition MAX_RESIDUAL_VALUE :: Zatoshis where
  "MAX_RESIDUAL_VALUE = Zatoshis (COIN div 100)"

definition PREP_TX_ACTIONS :: nat where
  "PREP_TX_ACTIONS = 16"

definition CROSSING_SOURCE_ACTIONS :: nat where
  "CROSSING_SOURCE_ACTIONS = 2"

definition CROSSING_DESTINATION_ACTIONS :: nat where
  "CROSSING_DESTINATION_ACTIONS = 1"

definition EXPIRY_MODULUS :: u32 where
  "EXPIRY_MODULUS = 34560"

definition EXPIRY_WINDOW :: u32 where
  "EXPIRY_WINDOW = 2 * EXPIRY_MODULUS"

definition ANCHOR_AGE_CAP :: u32 where
  "ANCHOR_AGE_CAP = 4"

text \<open>\<open>while pow.checked_mul(RADIX).is_some_and(|p| p <= hi) { pow *= RADIX }\<close>\<close>

partial_function (option) largest_pow_loop :: "nat \<Rightarrow> nat \<Rightarrow> nat option" where
  "largest_pow_loop hi pow =
     (if (case u64_checked_mul pow DENOMINATION_RADIX of None \<Rightarrow> False | Some p \<Rightarrow> p \<le> hi)
      then largest_pow_loop hi (u64_mul pow DENOMINATION_RADIX)
      else Some pow)"

primrec largest_multiple :: "nat \<Rightarrow> nat \<Rightarrow> nat list \<Rightarrow> nat" where
  "largest_multiple hi pow [] = pow"
| "largest_multiple hi pow (multiple # rest) =
     (case u64_checked_mul pow multiple of
        Some v \<Rightarrow> if v \<le> hi then v else largest_multiple hi pow rest
      | None \<Rightarrow> largest_multiple hi pow rest)"

definition largest_one_two_five :: "nat \<Rightarrow> nat \<Rightarrow> nat option" where
  "largest_one_two_five hi floor =
     (if hi < floor then Some 0
      else case largest_pow_loop hi floor of None \<Rightarrow> None
        | Some pow \<Rightarrow> Some (largest_multiple hi pow ONE_TWO_FIVE_DESCENDING))"

text \<open>\<open>while n.is_multiple_of(RADIX) { n /= RADIX }\<close>\<close>

partial_function (option) strip_radix_loop :: "nat \<Rightarrow> nat option" where
  "strip_radix_loop n =
     (if n mod DENOMINATION_RADIX = 0 then strip_radix_loop (n div DENOMINATION_RADIX) else Some n)"

definition is_canonical_within :: "Zatoshis \<Rightarrow> Zatoshis \<Rightarrow> Zatoshis \<Rightarrow> bool option" where
  "is_canonical_within value lo hi =
     (if value < lo \<or> hi < value then Some False
      else map_option (\<lambda>n. n \<in> set ONE_TWO_FIVE_DESCENDING) (strip_radix_loop (zat value)))"

definition is_canonical_denomination :: "Zatoshis \<Rightarrow> bool option" where
  "is_canonical_denomination value = is_canonical_within value MAX_RESIDUAL_VALUE DENOM_CAP"

section \<open>Expiry and anchors\<close>

definition expiry_height :: "BlockHeight \<Rightarrow> BlockHeight" where
  "expiry_height target_height =
     block_height_add
       (block_height_from_u32 (target_height - target_height mod EXPIRY_MODULUS)) EXPIRY_WINDOW"

text \<open>\<open>AnchorBucketInterval\<close> wraps a \<open>NonZeroU32\<close>.\<close>

type_synonym AnchorBucketInterval = u32

definition anchor_interval_zip_318 :: AnchorBucketInterval where
  "anchor_interval_zip_318 = 144"

definition is_boundary :: "AnchorBucketInterval \<Rightarrow> BlockHeight \<Rightarrow> bool" where
  "is_boundary self height \<longleftrightarrow> height mod self = 0"

definition boundary_at_or_below :: "AnchorBucketInterval \<Rightarrow> BlockHeight \<Rightarrow> BlockHeight" where
  "boundary_at_or_below self h = block_height_from_u32 (h - h mod self)"

definition boundary_at_or_above :: "AnchorBucketInterval \<Rightarrow> BlockHeight \<Rightarrow> BlockHeight" where
  "boundary_at_or_above self h =
     (let r = h mod self in
      block_height_from_u32 (if r = 0 then h else word_saturating_add h (self - r)))"

record pool_migration_constants =
  anchor_bucket_interval :: AnchorBucketInterval
  denomination_cap :: Zatoshis
  max_residual_value :: Zatoshis
  preparation_tx_actions :: nat
  transfer_delay :: "nat \<times> nat"
  preparation_delay :: "nat \<times> nat"
  anchor_age_cap :: u32
  expiry_window :: "u32 \<times> u32"

definition zip318_constants :: pool_migration_constants where
  "zip318_constants = \<lparr>
     anchor_bucket_interval = anchor_interval_zip_318,
     denomination_cap = DENOM_CAP,
     max_residual_value = MAX_RESIDUAL_VALUE,
     preparation_tx_actions = PREP_TX_ACTIONS,
     transfer_delay = (66, 576),
     preparation_delay = (16, 96),
     anchor_age_cap = ANCHOR_AGE_CAP,
     expiry_window = (EXPIRY_MODULUS, EXPIRY_WINDOW)\<rparr>"

definition constants_is_canonical_denomination :: "pool_migration_constants \<Rightarrow> Zatoshis \<Rightarrow> bool option" where
  "constants_is_canonical_denomination c value =
     is_canonical_within value (max_residual_value c) (denomination_cap c)"

definition canonical_expiry :: "pool_migration_constants \<Rightarrow> BlockHeight \<Rightarrow> BlockHeight" where
  "canonical_expiry c reference =
     (let (modulus, window) = expiry_window c in
      block_height_add (block_height_from_u32 (reference - reference mod modulus)) window)"

definition is_canonical_expiry :: "pool_migration_constants \<Rightarrow> BlockHeight \<Rightarrow> BlockHeight \<Rightarrow> bool" where
  "is_canonical_expiry c expiry reference \<longleftrightarrow> expiry = canonical_expiry c reference"

definition is_canonical_expiry_value :: "pool_migration_constants \<Rightarrow> BlockHeight \<Rightarrow> bool" where
  "is_canonical_expiry_value c expiry \<longleftrightarrow>
     (let (modulus, window) = expiry_window c in window \<le> expiry \<and> expiry mod modulus = 0)"

section \<open>Classification\<close>

datatype Zip318TxKind = Preparation | Transfer

datatype Zip318Classification = Conforms Zip318TxKind | Nonconforming | Unknown

fun to_code :: "Zip318Classification \<Rightarrow> int" where
  "to_code Unknown = 0"
| "to_code Nonconforming = 1"
| "to_code (Conforms Preparation) = 2"
| "to_code (Conforms Transfer) = 3"

definition from_code :: "int \<Rightarrow> Zip318Classification" where
  "from_code code =
     (if code = 1 then Nonconforming
      else if code = 2 then Conforms Preparation
      else if code = 3 then Conforms Transfer
      else Unknown)"

record Zip318Evidence =
  source_actions :: "nat option"
  destination_actions :: "nat option"
  other_bundles_present :: "bool option"
  source_is_send_to_self :: "bool option"
  sole_destination_value :: "Zatoshis option"
  expiry_is_canonical :: "bool option"
  anchor_on_grid :: "bool option"
  fee_is_canonical :: "bool option"

definition default_evidence :: Zip318Evidence where
  "default_evidence = \<lparr>source_actions = None, destination_actions = None,
     other_bundles_present = None, source_is_send_to_self = None, sole_destination_value = None,
     expiry_is_canonical = None, anchor_on_grid = None, fee_is_canonical = None\<rparr>"

definition classify_preparation ::
    "Zip318Evidence \<Rightarrow> pool_migration_constants \<Rightarrow> nat \<Rightarrow> Zip318Classification" where
  "classify_preparation evidence constants n_source_actions =
     (if n_source_actions \<noteq> preparation_tx_actions constants then Nonconforming
      else case source_is_send_to_self evidence of
        None \<Rightarrow> Unknown
      | Some False \<Rightarrow> Nonconforming
      | Some True \<Rightarrow> Conforms Preparation)"

text \<open>The denomination test may loop (see \<open>is_canonical_within\<close>), and then so does the branch.\<close>

definition classify_crossing ::
    "Zip318Evidence \<Rightarrow> pool_migration_constants \<Rightarrow> nat \<Rightarrow> Zip318Classification option" where
  "classify_crossing evidence constants n_source_actions =
     (if n_source_actions \<noteq> CROSSING_SOURCE_ACTIONS then Some Nonconforming
      else case sole_destination_value evidence of
        None \<Rightarrow> Some Unknown
      | Some value \<Rightarrow>
          map_option (\<lambda>canonical. if \<not> canonical then Nonconforming else Conforms Transfer)
            (constants_is_canonical_denomination constants value))"

definition classify ::
    "Zip318Evidence \<Rightarrow> pool_migration_constants \<Rightarrow> Zip318Classification option" where
  "classify evidence constants =
     (if anchor_on_grid evidence = Some False \<or> fee_is_canonical evidence = Some False
      then Some Nonconforming
      else case (source_actions evidence, destination_actions evidence,
                 other_bundles_present evidence, expiry_is_canonical evidence) of
        (Some n_source_actions, Some n_destination_actions, Some others, Some expiry_ok) \<Rightarrow>
          if others \<or> \<not> expiry_ok then Some Nonconforming
          else if n_destination_actions = 0
            then Some (classify_preparation evidence constants n_source_actions)
          else if n_destination_actions = CROSSING_DESTINATION_ACTIONS
            then classify_crossing evidence constants n_source_actions
          else Some Nonconforming
      | _ \<Rightarrow> Some Unknown)"

section \<open>The denomination series\<close>

definition one_two_five :: "nat \<Rightarrow> bool" where
  "one_two_five v \<longleftrightarrow> (\<exists>k. \<exists>m\<in>{1, 2, 5}. v = m * 10 ^ k)"

lemma one_two_fiveE:
  assumes "one_two_five v"
  obtains m k where "v = m * 10 ^ k" and "m \<in> {1, 2, 5}"
  using assms unfolding one_two_five_def by blast

lemma one_two_five_pos: "one_two_five v \<Longrightarrow> 0 < v"
  by (auto elim!: one_two_fiveE)

lemma largest_pow_loop_returns:
  assumes "0 < pow" "pow \<le> hi" "u64_ok hi"
  shows "\<exists>k. largest_pow_loop hi pow = Some (pow * 10 ^ k) \<and> pow * 10 ^ k \<le> hi \<and> hi < pow * 10 ^ Suc k"
  using assms
proof (induction "hi - pow" arbitrary: pow rule: less_induct)
  case less
  show ?case
  proof (cases "pow * 10 \<le> hi")
    case True
    with less.prems have lt: "hi - pow * 10 < hi - pow" and ok: "u64_ok (pow * 10)"
      by (auto simp: u64_ok_def)
    from less.hyps [OF lt] True less.prems obtain k where
      "largest_pow_loop hi (pow * 10) = Some (pow * 10 * 10 ^ k)"
      "pow * 10 * 10 ^ k \<le> hi" "hi < pow * 10 * 10 ^ Suc k" by auto
    with True ok show ?thesis
      by (intro exI [of _ "Suc k"])
        (simp add: largest_pow_loop.simps [of hi pow] u64_checked_mul_def DENOMINATION_RADIX_def
          u64_ok_def mult.assoc)
  next
    case False
    with less.prems show ?thesis
      by (intro exI [of _ 0])
        (simp add: largest_pow_loop.simps [of hi pow] u64_checked_mul_def DENOMINATION_RADIX_def)
  qed
qed

lemma largest_multiple_cases:
  assumes "pow \<le> hi" "u64_ok hi"
  shows "largest_multiple hi pow ONE_TWO_FIVE_DESCENDING =
    (if 5 * pow \<le> hi then 5 * pow else if 2 * pow \<le> hi then 2 * pow else pow)"
  using assms by (auto simp: ONE_TWO_FIVE_DESCENDING_def u64_checked_mul_def u64_ok_def mult.commute)

lemma one_two_five_below:
  assumes "one_two_five w" "w \<le> hi" "10 ^ k \<le> hi" "hi < 10 ^ Suc k"
  shows "w \<le> (if 5 * 10 ^ k \<le> hi then 5 * 10 ^ k else if 2 * 10 ^ k \<le> hi then 2 * 10 ^ k else 10 ^ k)"
proof -
  from assms(1) obtain m i where w: "w = m * 10 ^ i" and "m \<in> {1, 2, 5}"
    by (rule one_two_fiveE)
  then have m: "m = 1 \<or> m = 2 \<or> m = 5" by simp
  have "(10::nat) ^ i \<le> w" using w m by auto
  then have "(10::nat) ^ i < 10 ^ Suc k" using assms(2,4) by linarith
  then have "i < Suc k" by (rule power_less_imp_less_exp [rotated]) simp
  then consider "i = k" | "Suc i \<le> k" by linarith
  then show ?thesis
  proof cases
    case 1
    with w m assms(2) show ?thesis by auto
  next
    case 2
    then have "(10::nat) ^ Suc i \<le> 10 ^ k" by (intro power_increasing) simp_all
    then have "5 * (10::nat) ^ i \<le> 10 ^ k" by simp
    with w m have "w \<le> 10 ^ k" by (elim disjE) (simp_all del: power_increasing_iff)
    also have "\<dots> \<le> (if 5 * 10 ^ k \<le> hi then 5 * 10 ^ k else if 2 * 10 ^ k \<le> hi then 2 * 10 ^ k else 10 ^ k)"
      by simp
    finally show ?thesis .
  qed
qed

lemma largest_one_two_five_greatest_aux:
  assumes "u64_ok hi"
  shows "\<exists>v. largest_one_two_five hi (10 ^ j) = Some v \<and>
    (hi < 10 ^ j \<longrightarrow> v = 0) \<and>
    (10 ^ j \<le> hi \<longrightarrow> one_two_five v \<and> 10 ^ j \<le> v \<and> v \<le> hi \<and>
      (\<forall>w. one_two_five w \<and> w \<le> hi \<longrightarrow> w \<le> v))"
proof (cases "hi < 10 ^ j")
  case True
  then show ?thesis by (simp add: largest_one_two_five_def)
next
  case False
  then obtain i where loop: "largest_pow_loop hi (10 ^ j) = Some (10 ^ j * 10 ^ i)"
      and le: "10 ^ j * 10 ^ i \<le> hi" and less: "hi < 10 ^ j * 10 ^ Suc i"
    using largest_pow_loop_returns [of "10 ^ j" hi] assms by auto
  define k where "k = j + i"
  let ?v = "if 5 * 10 ^ k \<le> hi then 5 * 10 ^ k else if 2 * 10 ^ k \<le> hi then 2 * 10 ^ k else 10 ^ k"
  have k: "10 ^ k \<le> hi" "hi < 10 ^ Suc k"
    using le less by (simp_all add: k_def power_add)
  have "(10::nat) ^ j \<le> 10 ^ k" by (simp add: k_def power_increasing)
  then have "(10::nat) ^ j \<le> ?v" by (simp del: power_increasing_iff)
  moreover have "one_two_five ?v" by (auto simp: one_two_five_def)
  moreover have "largest_one_two_five hi (10 ^ j) = Some ?v"
    using False loop largest_multiple_cases [OF k(1) assms]
    by (simp add: largest_one_two_five_def k_def power_add)
  ultimately show ?thesis
    using k False one_two_five_below [OF _ _ k] by (intro exI [of _ ?v]) auto
qed

text \<open>
  \<open>largest_one_two_five\<close> is correct: for a floor that is a power of ten the loops stop, and
  the result is \<open>0\<close> when \<open>hi\<close> is below the floor; otherwise it is the greatest element of the
  \<open>{1, 2, 5} * 10^k\<close> series not exceeding \<open>hi\<close>, and it is at least the floor.
\<close>

theorem largest_one_two_five_greatest:
  assumes "u64_ok hi"
  shows "\<exists>v. largest_one_two_five hi (10 ^ j) = Some v \<and>
    (hi < 10 ^ j \<longrightarrow> v = 0) \<and>
    (10 ^ j \<le> hi \<longrightarrow> one_two_five v \<and> 10 ^ j \<le> v \<and> v \<le> hi \<and>
      (\<forall>w. one_two_five w \<and> w \<le> hi \<longrightarrow> w \<le> v))"
  using assms by (rule largest_one_two_five_greatest_aux)

theorem largest_one_two_five_greatest_witness:
  "\<exists>v. largest_one_two_five 53000000 (10 ^ 6) = Some v \<and> one_two_five v \<and> v \<le> 53000000 \<and> 50000000 \<le> v"
proof -
  have "u64_ok 53000000" by (simp add: u64_ok_def)
  from largest_one_two_five_greatest [OF this, of 6] obtain v where
    "largest_one_two_five 53000000 (10 ^ 6) = Some v" "one_two_five v" "v \<le> 53000000"
    "\<forall>w. one_two_five w \<and> w \<le> 53000000 \<longrightarrow> w \<le> v" by auto
  moreover have "one_two_five 50000000"
    by (auto simp: one_two_five_def intro: exI [of _ 7])
  ultimately show ?thesis by auto
qed

lemma strip_radix_loop_returns:
  "0 < n \<Longrightarrow> \<exists>m k. strip_radix_loop n = Some m \<and> n = m * 10 ^ k \<and> m mod 10 \<noteq> 0"
proof (induction n rule: less_induct)
  case (less n)
  show ?case
  proof (cases "n mod 10 = 0")
    case True
    with less.prems have "0 < n div 10" "n div 10 < n" by auto
    with less.IH obtain m k where "strip_radix_loop (n div 10) = Some m" "n div 10 = m * 10 ^ k" "m mod 10 \<noteq> 0"
      by blast
    with True show ?thesis
      by (intro exI [of _ m] exI [of _ "Suc k"])
        (auto simp: strip_radix_loop.simps [of n] DENOMINATION_RADIX_def)
  next
    case False
    then show ?thesis
      by (intro exI [of _ n] exI [of _ 0]) (simp add: strip_radix_loop.simps [of n] DENOMINATION_RADIX_def)
  qed
qed

text \<open>A zero value never leaves the stripping loop; the bounds the callers pass exclude it.\<close>

lemma strip_radix_loop_zero: "strip_radix_loop 0 = None"
proof (cases "strip_radix_loop 0")
  case (Some m)
  have "n \<noteq> 0" if "strip_radix_loop n = Some r" for n r
  proof (rule strip_radix_loop.raw_induct [where P = "\<lambda>n r. n \<noteq> 0", OF _ that])
    fix f n y
    assume "\<And>n y. f n = Some y \<Longrightarrow> n \<noteq> 0"
      and "(if n mod DENOMINATION_RADIX = 0 then f (n div DENOMINATION_RADIX) else Some n) = Some y"
    then show "n \<noteq> 0" by (metis div_0 mod_0)
  qed
  with Some show ?thesis by blast
qed simp

lemma strip_unique:
  assumes "m * 10 ^ k = m' * 10 ^ i" "m mod 10 \<noteq> 0" "m' mod 10 \<noteq> (0::nat)" "k \<le> i"
  shows "m = m'"
proof -
  from assms(4) obtain d where i: "i = k + d" by (auto simp: le_iff_add)
  with assms(1) have "m = m' * 10 ^ d" by (simp add: power_add)
  with assms(2) show ?thesis by (cases d) auto
qed

lemma strip_radix_loop_one_two_five:
  assumes "0 < n"
  shows "\<exists>m. strip_radix_loop n = Some m \<and> (m \<in> {1, 2, 5} \<longleftrightarrow> one_two_five n)"
proof -
  obtain m k where m: "strip_radix_loop n = Some m" "n = m * 10 ^ k" "m mod 10 \<noteq> 0"
    using strip_radix_loop_returns [OF assms] by blast
  have "m \<in> {1, 2, 5}" if o: "one_two_five n"
  proof -
    from o obtain m' i where m': "n = m' * 10 ^ i" "m' \<in> {1, 2, 5}" by (rule one_two_fiveE)
    then have "m' mod 10 \<noteq> 0" by auto
    with m m' have "m = m'"
      using strip_unique [of m k m' i] strip_unique [of m' i m k] by (metis linear)
    with m' show ?thesis by simp
  qed
  with m show ?thesis by (auto simp: one_two_five_def)
qed

lemma is_canonical_within_eq:
  assumes "0 < zat lo"
  shows "is_canonical_within v lo hi = Some (lo \<le> v \<and> v \<le> hi \<and> one_two_five (zat v))"
proof (cases "v < lo \<or> hi < v")
  case True
  then show ?thesis by (auto simp: is_canonical_within_def)
next
  case False
  with assms have "0 < zat v" by (auto simp: less_Zatoshis_def)
  from strip_radix_loop_one_two_five [OF this] False show ?thesis
    by (auto simp: is_canonical_within_def ONE_TWO_FIVE_DESCENDING_def)
qed

lemma is_canonical_denomination_eq:
  "is_canonical_denomination v = Some (1000000 \<le> zat v \<and> zat v \<le> 1000000000000 \<and> one_two_five (zat v))"
  using is_canonical_within_eq [of MAX_RESIDUAL_VALUE v DENOM_CAP]
  by (simp add: is_canonical_denomination_def MAX_RESIDUAL_VALUE_def DENOM_CAP_def COIN_def
      less_eq_Zatoshis_def)

text \<open>
  The canonical-denomination test returns for every value when the lower bound is positive,
  and decides membership: the value is in the series and between the bounds. With the ZIP 318
  bounds this is \<open>is_canonical_denomination\<close>.
\<close>

theorem is_canonical_within_decides:
  assumes "0 < zat lo"
  shows "is_canonical_within v lo hi = Some (lo \<le> v \<and> v \<le> hi \<and> one_two_five (zat v)) \<and>
    is_canonical_denomination v =
      Some (1000000 \<le> zat v \<and> zat v \<le> 1000000000000 \<and> one_two_five (zat v))"
  by (simp add: is_canonical_within_eq [OF assms] is_canonical_denomination_eq)

theorem is_canonical_within_decides_witness:
  "is_canonical_within (Zatoshis 5000000) (Zatoshis 1000000) (Zatoshis 9000000) = Some True"
proof -
  have "one_two_five 5000000" by (auto simp: one_two_five_def intro: exI [of _ 6])
  moreover have "0 < zat (Zatoshis 1000000)" by simp
  ultimately show ?thesis
    using is_canonical_within_decides [of "Zatoshis 1000000" "Zatoshis 5000000" "Zatoshis 9000000"]
    by (simp add: less_eq_Zatoshis_def)
qed

section \<open>Expiry heights and anchors\<close>

lemma unat_diff_mod: "unat (h - h mod m :: 'a::len word) = unat h - unat h mod unat m"
  by (simp add: unat_sub word_le_nat_alt unat_mod)

lemma unat_expiry: "unat (expiry_height h) = min (unat h - unat h mod 34560 + 69120) 4294967295"
  by (simp add: expiry_height_def block_height_add_def unat_saturating_add unat_diff_mod
    block_height_from_u32_def EXPIRY_WINDOW_def EXPIRY_MODULUS_def)

lemma mod_sub_window: "69120 \<le> n \<Longrightarrow> n mod 34560 = 0 \<Longrightarrow> (n - 69120) mod 34560 = (0::nat)"
  by (auto elim!: dvdE simp: mod_eq_0_iff_dvd dvd_diff_nat)

lemma canonical_expiry_zip318: "canonical_expiry zip318_constants h = expiry_height h"
  by (simp add: canonical_expiry_def zip318_constants_def expiry_height_def)

lemma is_canonical_expiry_value_iff:
  "is_canonical_expiry_value zip318_constants e \<longleftrightarrow> 69120 \<le> unat e \<and> unat e mod 34560 = 0"
  by (simp add: is_canonical_expiry_value_def zip318_constants_def EXPIRY_WINDOW_def
    EXPIRY_MODULUS_def word_le_nat_alt word_unat_eq_iff unat_mod)

text \<open>
  C37. The rolling expiry: below the saturation point the expiry of a target is more than one and
  at most two moduli past it, two targets share an expiry exactly when they are in the same
  modulus period, and the height-independent test \<open>is_canonical_expiry_value\<close> accepts exactly
  the expiries of unsaturated targets. At the top of the \<open>u32\<close> range the sum saturates: the
  expiry of the last height is that height itself.
\<close>

theorem expiry_height_window:
  assumes "unat h + 69120 < 2 ^ 32" "unat h' + 69120 < 2 ^ 32"
  shows "unat h + 34560 < unat (expiry_height h) \<and> unat (expiry_height h) \<le> unat h + 69120 \<and>
    (expiry_height h = expiry_height h' \<longleftrightarrow> unat h div 34560 = unat h' div 34560) \<and>
    (is_canonical_expiry_value zip318_constants e \<longleftrightarrow>
      (\<exists>t. unat t + 69120 < 2 ^ 32 \<and> is_canonical_expiry zip318_constants e t)) \<and>
    expiry_height (- 1) = - 1"
proof (intro conjI)
  have e: "unat (expiry_height t) = unat t div 34560 * 34560 + 69120" if "unat t + 69120 < 2 ^ 32" for t
    using that by (simp add: unat_expiry minus_mod_eq_div_mult min_def)
  show "unat h + 34560 < unat (expiry_height h)" "unat (expiry_height h) \<le> unat h + 69120"
    using e [OF assms(1)] div_mult_mod_eq [of "unat h" 34560] mod_less_divisor [of 34560 "unat h"]
    by linarith+
  show "expiry_height h = expiry_height h' \<longleftrightarrow> unat h div 34560 = unat h' div 34560"
    using e [OF assms(1)] e [OF assms(2)] by (simp add: word_unat_eq_iff)
  show "is_canonical_expiry_value zip318_constants e \<longleftrightarrow>
      (\<exists>t. unat t + 69120 < 2 ^ 32 \<and> is_canonical_expiry zip318_constants e t)"
  proof
    assume "is_canonical_expiry_value zip318_constants e"
    then have v: "69120 \<le> unat e" "unat e mod 34560 = 0" by (simp_all add: is_canonical_expiry_value_iff)
    define t where "t = e - 69120"
    have t: "unat t = unat e - 69120" using v(1) by (simp add: t_def unat_sub word_le_nat_alt)
    have lt: "unat t + 69120 < 2 ^ 32" using v(1) t unsigned_less [of e, where ?'a = nat] by simp
    have "unat (expiry_height t) = unat e"
      using e [OF lt] t v(1) minus_mod_eq_div_mult [of "unat t" 34560] mod_sub_window [OF v] by simp
    with lt show "\<exists>t. unat t + 69120 < 2 ^ 32 \<and> is_canonical_expiry zip318_constants e t"
      by (auto simp: is_canonical_expiry_def canonical_expiry_zip318 word_unat_eq_iff)
  next
    assume "\<exists>t. unat t + 69120 < 2 ^ 32 \<and> is_canonical_expiry zip318_constants e t"
    then obtain t where "unat t + 69120 < 2 ^ 32" "e = expiry_height t"
      by (auto simp: is_canonical_expiry_def canonical_expiry_zip318)
    with e [of t] show "is_canonical_expiry_value zip318_constants e"
      by (simp add: is_canonical_expiry_value_iff)
  qed
  show "expiry_height (- 1) = - 1"
    by (simp add: word_unat_eq_iff unat_expiry unat_minus_one)
qed

theorem expiry_height_window_witness:
  "unat (expiry_height 100000) \<le> 169120 \<and> expiry_height 100000 = expiry_height 103000"
proof -
  have "unat (100000 :: u32) + 69120 < 2 ^ 32" "unat (103000 :: u32) + 69120 < 2 ^ 32" by simp_all
  note w = expiry_height_window [OF this, of 0]
  then have "unat (expiry_height 100000) \<le> unat (100000 :: u32) + 69120" by blast
  moreover from w have "expiry_height 100000 = expiry_height 103000 \<longleftrightarrow>
      unat (100000 :: u32) div 34560 = unat (103000 :: u32) div 34560" by blast
  ultimately show ?thesis by simp
qed

lemma is_boundary_dvd: "is_boundary i x \<longleftrightarrow> unat i dvd unat x"
  by (simp add: is_boundary_def word_unat_eq_iff unat_mod mod_eq_0_iff_dvd)

lemma unat_boundary_below: "unat (boundary_at_or_below i h) = unat h div unat i * unat i"
proof -
  have "unat (boundary_at_or_below i h) = unat h - unat h mod unat i"
    by (simp only: boundary_at_or_below_def block_height_from_u32_def unat_diff_mod)
  then show ?thesis by (simp only: minus_mod_eq_div_mult)
qed

lemma round_up_nat: "0 < m \<Longrightarrow> n + (m - n mod m) = (n div m + 1) * (m::nat)"
proof -
  assume "0 < m"
  then have "n mod m < m" and "n = n div m * m + n mod m" by simp_all
  then have "n + (m - n mod m) = n div m * m + m" by linarith
  then show ?thesis by simp
qed

lemma unat_boundary_above:
  assumes "i \<noteq> 0"
  shows "unat (boundary_at_or_above i h) =
    (if unat i dvd unat h then unat h else min ((unat h div unat i + 1) * unat i) (2 ^ 32 - 1))"
proof -
  have pos: "0 < unat i" using assms by (simp add: unat_gt_0)
  have "h mod i \<le> i" using pos by (simp add: word_le_nat_alt unat_mod less_imp_le)
  then have "unat (i - h mod i) = unat i - unat h mod unat i"
    by (simp add: unat_sub unat_mod)
  then have sat: "unat (word_saturating_add h (i - h mod i)) =
      min ((unat h div unat i + 1) * unat i) (2 ^ 32 - 1)"
    by (simp only: unat_saturating_add round_up_nat [OF pos]) simp
  show ?thesis
  proof (cases "unat i dvd unat h")
    case True
    then have "h mod i = 0" using is_boundary_dvd by (simp add: is_boundary_def)
    with True show ?thesis by (simp add: boundary_at_or_above_def Let_def block_height_from_u32_def)
  next
    case False
    then have "h mod i \<noteq> 0" using is_boundary_dvd by (simp add: is_boundary_def)
    with False sat show ?thesis
      by (simp only: boundary_at_or_above_def Let_def block_height_from_u32_def if_False)
  qed
qed

lemma next_multiple_le: "m dvd (b::nat) \<Longrightarrow> n < b \<Longrightarrow> (n div m + 1) * m \<le> b"
proof -
  assume "m dvd b" "n < b"
  then obtain q where q: "b = q * m" by (auto simp: dvd_def mult.commute)
  with \<open>n < b\<close> have "n div m < q" by (simp add: less_mult_imp_div_less)
  then have "n div m + 1 \<le> q" by simp
  then show ?thesis unfolding q by (rule mult_le_mono1)
qed

lemma last_multiple_ge: "m dvd (b::nat) \<Longrightarrow> b \<le> n \<Longrightarrow> b \<le> n div m * m"
  by (metis div_le_mono dvd_div_mult_self mult_le_mono1)

text \<open>
  The anchor grid: for a non-zero interval, rounding down gives the greatest boundary not
  above the height; rounding up gives the least boundary not below it, and saturates to the last
  height when no boundary of the \<open>u32\<close> range is above.
\<close>

theorem anchor_boundaries:
  assumes i: "i \<noteq> 0"
  shows "is_boundary i (boundary_at_or_below i h) \<and>
    boundary_at_or_below i h \<le> h \<and>
    (is_boundary i b \<and> b \<le> h \<longrightarrow> b \<le> boundary_at_or_below i h) \<and>
    h \<le> boundary_at_or_above i h \<and>
    (is_boundary i b \<and> h \<le> b \<longrightarrow>
      is_boundary i (boundary_at_or_above i h) \<and> boundary_at_or_above i h \<le> b) \<and>
    ((\<forall>b. is_boundary i b \<longrightarrow> b < h) \<longrightarrow> boundary_at_or_above i h = - 1)"
proof (intro conjI impI)
  note above = unat_boundary_above [OF i]
  have m: "0 < unat i" using i by (simp add: unat_gt_0)
  have max: "unat b \<le> 2 ^ 32 - 1" for b :: u32 using unsigned_less [of b, where ?'a = nat] by simp
  have up: "unat h < (unat h div unat i + 1) * unat i"
    using dividend_less_div_times [OF m, of "unat h"] by simp
  show "is_boundary i (boundary_at_or_below i h)" by (simp add: is_boundary_dvd unat_boundary_below)
  show "boundary_at_or_below i h \<le> h" by (simp add: word_le_nat_alt unat_boundary_below)
  show "b \<le> boundary_at_or_below i h" if "is_boundary i b \<and> b \<le> h"
    using that by (simp add: is_boundary_dvd word_le_nat_alt unat_boundary_below last_multiple_ge)
  show "h \<le> boundary_at_or_above i h"
    using up max [of h] by (simp add: word_le_nat_alt above del: mult_Suc add_is_0)
  have least: "(if unat i dvd unat h then unat h else (unat h div unat i + 1) * unat i) \<le> unat b"
    if "is_boundary i b \<and> h \<le> b"
  proof -
    have "unat h = unat b \<or> unat h < unat b" using that by (auto simp: word_le_nat_alt)
    then show ?thesis using that next_multiple_le [of "unat i" "unat b" "unat h"]
      by (auto simp: is_boundary_dvd)
  qed
  show "is_boundary i (boundary_at_or_above i h)" if b: "is_boundary i b \<and> h \<le> b"
    using least [OF b] max [of b] by (simp add: is_boundary_dvd above min_absorb1 split: if_splits)
  show "boundary_at_or_above i h \<le> b" if b: "is_boundary i b \<and> h \<le> b"
    using least [OF b] by (simp add: word_le_nat_alt above min.coboundedI1 split: if_splits)
  show "boundary_at_or_above i h = - 1" if none: "\<forall>b. is_boundary i b \<longrightarrow> b < h"
  proof -
    let ?n = "(unat h div unat i + 1) * unat i"
    have nd: "\<not> unat i dvd unat h" using none is_boundary_dvd by blast
    have "2 ^ 32 \<le> ?n"
    proof (rule ccontr)
      assume "\<not> 2 ^ 32 \<le> ?n"
      then have n: "unat (of_nat ?n :: u32) = ?n" by (simp only: unat_of_nat) (simp add: take_bit_nat_eq_self del: mult_Suc)
      then have "is_boundary i (of_nat ?n)" by (simp only: is_boundary_dvd) simp
      with none have "(of_nat ?n :: u32) < h" by blast
      with n up show False by (simp only: word_less_nat_alt)
    qed
    with nd show ?thesis by (simp add: word_unat_eq_iff above unat_minus_one)
  qed
qed

theorem anchor_boundaries_witness:
  "boundary_at_or_below 144 1000 \<le> 1000 \<and> 864 \<le> boundary_at_or_below 144 1000"
  using anchor_boundaries [of 144 1000 864] by (simp add: is_boundary_def)

section \<open>Classification and evidence\<close>

text \<open>
  The information order the source describes: a clause that is unanswered may become answered,
  an answer never changes. The two confirmatory clauses may only become answered positively.
\<close>

definition answer_le :: "'a option \<Rightarrow> 'a option \<Rightarrow> bool" where
  "answer_le x y \<longleftrightarrow> x = None \<or> x = y"

definition evidence_le :: "Zip318Evidence \<Rightarrow> Zip318Evidence \<Rightarrow> bool" where
  "evidence_le e e' \<longleftrightarrow>
     answer_le (source_actions e) (source_actions e') \<and>
     answer_le (destination_actions e) (destination_actions e') \<and>
     answer_le (other_bundles_present e) (other_bundles_present e') \<and>
     answer_le (source_is_send_to_self e) (source_is_send_to_self e') \<and>
     answer_le (sole_destination_value e) (sole_destination_value e') \<and>
     answer_le (expiry_is_canonical e) (expiry_is_canonical e') \<and>
     answer_le (anchor_on_grid e) (anchor_on_grid e') \<and>
     answer_le (fee_is_canonical e) (fee_is_canonical e') \<and>
     (anchor_on_grid e' = Some False \<longrightarrow> anchor_on_grid e = Some False) \<and>
     (fee_is_canonical e' = Some False \<longrightarrow> fee_is_canonical e = Some False)"

definition classification_le :: "Zip318Classification \<Rightarrow> Zip318Classification \<Rightarrow> bool" where
  "classification_le c d \<longleftrightarrow> c = Unknown \<or> c = d"

lemma answer_leD: "answer_le (Some x) y \<Longrightarrow> y = Some x"
  by (simp add: answer_le_def)

lemma constants_is_canonical_decides:
  "0 < zat (max_residual_value k) \<Longrightarrow>
   constants_is_canonical_denomination k v =
     Some (max_residual_value k \<le> v \<and> v \<le> denomination_cap k \<and> one_two_five (zat v))"
  by (simp add: constants_is_canonical_denomination_def is_canonical_within_eq)

lemma classify_preparation_mono:
  "answer_le (source_is_send_to_self e) (source_is_send_to_self e') \<Longrightarrow>
   classification_le (classify_preparation e k n) (classify_preparation e' k n)"
  by (auto simp: classify_preparation_def classification_le_def answer_le_def split: option.splits)

lemma classify_crossing_mono:
  assumes "answer_le (sole_destination_value e) (sole_destination_value e')"
    and "0 < zat (max_residual_value k)"
  shows "\<exists>c c'. classify_crossing e k n = Some c \<and> classify_crossing e' k n = Some c' \<and>
    classification_le c c'"
  using assms by (auto simp: classify_crossing_def classification_le_def answer_le_def
    constants_is_canonical_decides split: option.splits)

text \<open>
  Classification is monotone in the evidence: with a positive smallest denomination it always
  returns, and as clauses become answered (the confirmatory ones never negatively) a decision
  once made, conforming or not, never changes; only \<open>Unknown\<close> may be refined.
\<close>

theorem classify_monotone:
  assumes le: "evidence_le e e'" and pos: "0 < zat (max_residual_value k)"
  shows "\<exists>c c'. classify e k = Some c \<and> classify e' k = Some c' \<and> classification_le c c'"
proof -
  note le = le [unfolded evidence_le_def]
  show ?thesis
  proof (cases "anchor_on_grid e = Some False \<or> fee_is_canonical e = Some False")
    case True
    with le have "anchor_on_grid e' = Some False \<or> fee_is_canonical e' = Some False"
      by (auto dest: answer_leD)
    with True show ?thesis by (simp add: classify_def classification_le_def)
  next
    case False
    then have confirm: "\<not> (anchor_on_grid e' = Some False \<or> fee_is_canonical e' = Some False)"
      using le by auto
    show ?thesis
    proof (cases "source_actions e = None \<or> destination_actions e = None \<or>
        other_bundles_present e = None \<or> expiry_is_canonical e = None")
      case True
      then have "classify e k = Some Unknown"
        using False by (auto simp: classify_def split: option.splits)
      moreover have "\<exists>c'. classify e' k = Some c'"
        using classify_crossing_mono [of e' e' k] pos
        by (auto simp: classify_def answer_le_def split: option.splits)
      ultimately show ?thesis by (auto simp: classification_le_def)
    next
      case answered: False
      then obtain s d b x where e: "source_actions e = Some s" "destination_actions e = Some d"
          "other_bundles_present e = Some b" "expiry_is_canonical e = Some x" by auto
      with le have e': "source_actions e' = Some s" "destination_actions e' = Some d"
          "other_bundles_present e' = Some b" "expiry_is_canonical e' = Some x"
        by (auto dest: answer_leD)
      note eqs = classify_def e e' False confirm
      show ?thesis
        using classify_preparation_mono [of e e' k s] classify_crossing_mono [OF _ pos, of e e' s] le
        by (auto simp: eqs classification_le_def)
    qed
  qed
qed

theorem classify_monotone_witness:
  "\<exists>c. classify (default_evidence\<lparr>destination_actions := Some 0\<rparr>) zip318_constants = Some c \<and>
     c = Unknown"
proof -
  let ?e = "default_evidence"
  have le: "evidence_le ?e (?e\<lparr>destination_actions := Some 0\<rparr>)"
    by (simp add: evidence_le_def answer_le_def default_evidence_def)
  have pos: "0 < zat (max_residual_value zip318_constants)"
    by (simp add: zip318_constants_def MAX_RESIDUAL_VALUE_def COIN_def)
  from classify_monotone [OF le pos] show ?thesis
    by (auto simp: classify_def default_evidence_def)
qed

text \<open>
  C31. What a classification means, for the ZIP 318 parameters. A transaction is labelled a
  transfer exactly when no confirmatory clause refutes and it has the crossing shape: two source
  actions, one destination action, no other bundle, a canonical expiry, and a known destination
  value in the series between 0.01 and 10,000 ZEC; a preparation exactly when no confirmatory clause
  refutes and it has the preparation shape: a send-to-self of sixteen source actions, with no
  destination action, no other bundle and a canonical expiry. The stable codes are faithful.
\<close>

theorem classify_conforms_iff:
  "(classify e zip318_constants = Some (Conforms Transfer) \<longleftrightarrow>
     anchor_on_grid e \<noteq> Some False \<and> fee_is_canonical e \<noteq> Some False \<and>
     source_actions e = Some 2 \<and> destination_actions e = Some 1 \<and>
     other_bundles_present e = Some False \<and> expiry_is_canonical e = Some True \<and>
     (\<exists>v. sole_destination_value e = Some v \<and>
       1000000 \<le> zat v \<and> zat v \<le> 1000000000000 \<and> one_two_five (zat v))) \<and>
   (classify e zip318_constants = Some (Conforms Preparation) \<longleftrightarrow>
     anchor_on_grid e \<noteq> Some False \<and> fee_is_canonical e \<noteq> Some False \<and>
     source_actions e = Some 16 \<and> destination_actions e = Some 0 \<and>
     other_bundles_present e = Some False \<and> expiry_is_canonical e = Some True \<and>
     source_is_send_to_self e = Some True) \<and>
   from_code (to_code c) = c"
proof (intro conjI)
  have k: "max_residual_value zip318_constants = Zatoshis 1000000"
      "denomination_cap zip318_constants = Zatoshis 1000000000000"
      "preparation_tx_actions zip318_constants = 16"
    by (simp_all add: zip318_constants_def MAX_RESIDUAL_VALUE_def DENOM_CAP_def COIN_def
      PREP_TX_ACTIONS_def)
  have can: "constants_is_canonical_denomination zip318_constants v =
      Some (1000000 \<le> zat v \<and> zat v \<le> 1000000000000 \<and> one_two_five (zat v))" for v
    using constants_is_canonical_decides [of zip318_constants v] by (simp add: k less_eq_Zatoshis_def)
  note defs = classify_def classify_preparation_def classify_crossing_def k can
    CROSSING_DESTINATION_ACTIONS_def CROSSING_SOURCE_ACTIONS_def
  show "classify e zip318_constants = Some (Conforms Transfer) \<longleftrightarrow>
     anchor_on_grid e \<noteq> Some False \<and> fee_is_canonical e \<noteq> Some False \<and>
     source_actions e = Some 2 \<and> destination_actions e = Some 1 \<and>
     other_bundles_present e = Some False \<and> expiry_is_canonical e = Some True \<and>
     (\<exists>v. sole_destination_value e = Some v \<and>
       1000000 \<le> zat v \<and> zat v \<le> 1000000000000 \<and> one_two_five (zat v))"
    by (auto simp: defs split: option.splits bool.splits if_splits)
  show "classify e zip318_constants = Some (Conforms Preparation) \<longleftrightarrow>
     anchor_on_grid e \<noteq> Some False \<and> fee_is_canonical e \<noteq> Some False \<and>
     source_actions e = Some 16 \<and> destination_actions e = Some 0 \<and>
     other_bundles_present e = Some False \<and> expiry_is_canonical e = Some True \<and>
     source_is_send_to_self e = Some True"
    by (auto simp: defs split: option.splits bool.splits if_splits)
  show "from_code (to_code c) = c"
  proof (cases c)
    case (Conforms x)
    then show ?thesis by (cases x) (simp_all add: from_code_def)
  qed (simp_all add: from_code_def)
qed

end
