(* ===== verification/RandomDraws.thy ===== *)
theory RandomDraws
  imports Zip318 "HOL-Library.Stream" "HOL-Library.Multiset"
begin

text \<open>
  Model of the random draws of \<open>zcash_pool_migration/src/scheduling.rs\<close>: the unbiased index, the
  shuffle, the anchor age and boundary, and the delays. The generator is the stream of 64-bit words
  that \<open>next_u64\<close> yields; a draw returns its value and the words left. Rejection loops need not end
  on every stream, so they are partial: \<open>None\<close> is a draw that never returns.
\<close>

type_synonym rng = "u64 stream"

section \<open>Uniform indices\<close>

text \<open>The words that \<open>gen_index\<close> accepts, and the index it makes of one.\<close>

definition index_low :: "nat \<Rightarrow> u64 \<Rightarrow> nat" where
  "index_low bound value = unat value * bound mod 18446744073709551616"

definition index_high :: "nat \<Rightarrow> u64 \<Rightarrow> nat" where
  "index_high bound value = unat value * bound div 18446744073709551616"

definition index_threshold :: "nat \<Rightarrow> nat" where
  "index_threshold bound = u64_sub 0 bound mod bound"

partial_function (option) gen_index :: "nat \<Rightarrow> rng \<Rightarrow> (nat \<times> rng) option" where
  "gen_index bound rng =
     (let value = shd rng in
      if bound \<le> index_low bound value then Some (index_high bound value, stl rng)
      else if index_threshold bound \<le> index_low bound value then Some (index_high bound value, stl rng)
      else gen_index bound (stl rng))"

definition index_accepted :: "nat \<Rightarrow> u64 \<Rightarrow> bool" where
  "index_accepted bound value \<longleftrightarrow> index_threshold bound \<le> index_low bound value"

lemma index_threshold_eq: "0 < b \<Longrightarrow> b < 2 ^ 64 \<Longrightarrow> index_threshold b = 18446744073709551616 mod b"
proof -
  assume b: "0 < b" "b < 2 ^ 64"
  then have "(int 0 - int b) mod 18446744073709551616 = 18446744073709551616 - int b"
    by (subst mod_pos_pos_trivial [symmetric, of "18446744073709551616 - int b" "18446744073709551616"])
      (simp_all add: mod_diff_left_eq [symmetric])
  then have "u64_sub 0 b = 2 ^ 64 - b" by (simp add: u64_sub_def nat_diff_distrib)
  then have "index_threshold b = (2 ^ 64 - b) mod b" by (simp add: index_threshold_def)
  also have "\<dots> = 18446744073709551616 mod b" using b by (simp add: le_mod_geq)
  finally show ?thesis .
qed

lemma index_high_less: "0 < b \<Longrightarrow> index_high b v < b"
  using unsigned_less [of v, where ?'a = nat] by (simp add: index_high_def div_less_iff_less_mult)

lemma gen_index_step:
  assumes "0 < b"
  shows "gen_index b rng =
    (if index_accepted b (shd rng) then Some (index_high b (shd rng), stl rng) else gen_index b (stl rng))"
proof -
  have "index_threshold b < b" using assms by (simp add: index_threshold_def)
  then show ?thesis unfolding index_accepted_def by (subst gen_index.simps) (auto simp: Let_def)
qed

text \<open>The first accepted word decides; without one the loop does not end.\<close>

definition first_accepted :: "nat \<Rightarrow> rng \<Rightarrow> nat \<Rightarrow> bool" where
  "first_accepted b rng n \<longleftrightarrow> index_accepted b (rng !! n) \<and> (\<forall>m<n. \<not> index_accepted b (rng !! m))"

lemma first_accepted_0: "first_accepted b rng 0 \<longleftrightarrow> index_accepted b (shd rng)"
  by (simp add: first_accepted_def)

lemma first_accepted_Suc:
  "first_accepted b rng (Suc n) \<longleftrightarrow> \<not> index_accepted b (shd rng) \<and> first_accepted b (stl rng) n"
  by (auto simp: first_accepted_def less_Suc_eq_0_disj)

lemma gen_index_first:
  "first_accepted b rng n \<Longrightarrow> 0 < b \<Longrightarrow> gen_index b rng = Some (index_high b (rng !! n), sdrop (Suc n) rng)"
proof (induction n arbitrary: rng)
  case 0
  then show ?case by (subst gen_index_step) (simp_all add: first_accepted_0)
next
  case (Suc n)
  then show ?case by (subst gen_index_step) (simp_all add: first_accepted_Suc)
qed

lemma gen_index_Some:
  assumes g: "gen_index b rng = Some r" and b: "0 < b"
  shows "\<exists>n. first_accepted b rng n \<and> r = (index_high b (rng !! n), sdrop (Suc n) rng)"
proof -
  have "0 < b \<longrightarrow> (\<exists>n. first_accepted b rng n \<and> r = (index_high b (rng !! n), sdrop (Suc n) rng))"
  proof (rule gen_index.raw_induct [where P = "\<lambda>b rng r. 0 < b \<longrightarrow>
      (\<exists>n. first_accepted b rng n \<and> r = (index_high b (rng !! n), sdrop (Suc n) rng))", OF _ g], intro impI, goal_cases)
    case (1 g b rng r)
    have lt: "index_threshold b < b" using 1(3) by (simp add: index_threshold_def)
    show ?case
    proof (cases "index_accepted b (shd rng)")
      case True
      then have "r = (index_high b (shd rng), stl rng)"
        using 1(2) lt by (auto simp: Let_def index_accepted_def split: if_splits)
      then show ?thesis using True by (intro exI [of _ 0]) (simp add: first_accepted_0)
    next
      case False
      then have "g b (stl rng) = Some r"
        using 1(2) lt by (auto simp: Let_def index_accepted_def split: if_splits)
      with 1(1,3) obtain n where "first_accepted b (stl rng) n"
          "r = (index_high b (stl rng !! n), sdrop (Suc n) (stl rng))" by blast
      then show ?thesis using False by (intro exI [of _ "Suc n"]) (simp add: first_accepted_Suc)
    qed
  qed
  then show ?thesis using b by blast
qed

text \<open>
  Lemire's method is unbiased: among the accepted words every index has the same number.
\<close>

lemma lemire_uniform_aux:
  assumes b: "0 < b" "b < 2 ^ 64" and j: "j < b"
  shows "card {v. index_accepted b v \<and> index_high b v = j} = 18446744073709551616 div b"
proof -
  let ?N = "18446744073709551616 :: nat"
  define a where "a = j * ?N + ?N mod b"
  have qb: "?N div b * b + ?N mod b = ?N" by simp
  have acc: "index_accepted b v \<and> index_high b v = j \<longleftrightarrow> a \<le> unat v * b \<and> unat v * b < a + ?N div b * b" for v
  proof -
    let ?m = "unat v * b"
    have "index_accepted b v \<and> index_high b v = j \<longleftrightarrow> ?N mod b \<le> ?m mod ?N \<and> ?m div ?N = j"
      by (simp add: index_accepted_def index_threshold_eq [OF b] index_low_def index_high_def)
    also have "\<dots> \<longleftrightarrow> a \<le> ?m \<and> ?m < j * ?N + ?N"
    proof
      assume l: "?N mod b \<le> ?m mod ?N \<and> ?m div ?N = j"
      have "?m = j * ?N + ?m mod ?N" using l div_mult_mod_eq [of ?m ?N] by simp
      then show "a \<le> ?m \<and> ?m < j * ?N + ?N" using l unfolding a_def by simp
    next
      assume r: "a \<le> ?m \<and> ?m < j * ?N + ?N"
      then have "?N * j \<le> ?m" "?m < ?N * Suc j" unfolding a_def by (simp_all add: mult.commute)
      then have "?m div ?N = j" by (rule div_nat_eqI)
      moreover have "?m = ?m div ?N * ?N + ?m mod ?N" by simp
      ultimately show "?N mod b \<le> ?m mod ?N \<and> ?m div ?N = j" using r unfolding a_def by simp
    qed
    also have "j * ?N + ?N = a + ?N div b * b" using qb unfolding a_def by linarith
    finally show ?thesis .
  qed
  have lo: "a \<le> n * b \<longleftrightarrow> nat_div_ceil a b \<le> n" for n using nat_div_ceil_le_iff [OF b(1)] by simp
  have hi: "n * b < a + q * b \<longleftrightarrow> n < nat_div_ceil a b + q" for n q
  proof (cases "q \<le> n")
    case True
    have "a \<le> (n - q) * b \<longleftrightarrow> nat_div_ceil a b \<le> n - q" by (rule lo)
    moreover have "(n - q) * b + q * b = n * b" using True by (simp add: algebra_simps)
    ultimately show ?thesis using True by linarith
  next
    case False
    then have "n * b < q * b" using b(1) by simp
    then show ?thesis using False by linarith
  qed
  let ?S = "{v. index_accepted b v \<and> index_high b v = j}"
  have "unat ` ?S = {nat_div_ceil a b ..< nat_div_ceil a b + ?N div b}"
  proof (intro set_eqI iffI)
    fix n assume "n \<in> unat ` ?S"
    then show "n \<in> {nat_div_ceil a b ..< nat_div_ceil a b + ?N div b}" using acc lo hi by auto
  next
    fix n assume n: "n \<in> {nat_div_ceil a b ..< nat_div_ceil a b + ?N div b}"
    then have r: "a \<le> n * b" "n * b < a + ?N div b * b" using lo hi by auto
    have "a + ?N div b * b = j * ?N + ?N" using qb unfolding a_def by linarith
    also have "\<dots> = (j + 1) * ?N" by simp
    also have "\<dots> \<le> b * ?N" using j by (intro mult_le_mono1) simp
    finally have "b * n < b * ?N" using r(2) unfolding mult.commute [of b n] by (rule less_le_trans [rotated])
    then have "n < ?N" by (simp only: mult_less_cancel1)
    then have u: "n = unat (of_nat n :: u64)" by (simp add: unat_of_nat take_bit_nat_eq_self)
    have "of_nat n \<in> ?S" using r unfolding mem_Collect_eq acc u [symmetric] by blast
    with u show "n \<in> unat ` ?S" by (rule image_eqI)
  qed
  then have "card (unat ` ?S) = ?N div b" by simp
  moreover have "inj_on unat ?S" by (simp add: inj_on_def word_unat_eq_iff)
  ultimately show ?thesis by (simp only: card_image)
qed

section \<open>The shuffle\<close>

text \<open>\<open>slice::swap\<close>, of indices in range.\<close>

definition list_swap :: "'a list \<Rightarrow> nat \<Rightarrow> nat \<Rightarrow> 'a list" where
  "list_swap xs i j = xs[i := xs ! j, j := xs ! i]"

text \<open>The loop from an index down to one.\<close>

primrec shuffle_loop :: "nat \<Rightarrow> 'a list \<Rightarrow> rng \<Rightarrow> ('a list \<times> rng) option" where
  "shuffle_loop 0 xs rng = Some (xs, rng)"
| "shuffle_loop (Suc i) xs rng =
     Option.bind (gen_index (Suc i + 1) rng) (\<lambda>(j, rng'). shuffle_loop i (list_swap xs (Suc i) j) rng')"

definition shuffle_in_place :: "'a list \<Rightarrow> rng \<Rightarrow> ('a list \<times> rng) option" where
  "shuffle_in_place xs rng = (if length xs < 2 then Some (xs, rng) else shuffle_loop (length xs - 1) xs rng)"

definition shuffle_indices :: "nat \<Rightarrow> rng \<Rightarrow> (nat list \<times> rng) option" where
  "shuffle_indices n rng = shuffle_in_place [0..<n] rng"

text \<open>The same with the indices drawn beforehand.\<close>

primrec draw_indices :: "nat \<Rightarrow> rng \<Rightarrow> (nat list \<times> rng) option" where
  "draw_indices 0 rng = Some ([], rng)"
| "draw_indices (Suc i) rng =
     Option.bind (gen_index (Suc i + 1) rng) (\<lambda>(j, rng'). map_option (apfst ((#) j)) (draw_indices i rng'))"

primrec shuffle_with :: "nat \<Rightarrow> nat list \<Rightarrow> 'a list \<Rightarrow> 'a list" where
  "shuffle_with 0 js xs = xs"
| "shuffle_with (Suc i) js xs = shuffle_with i (tl js) (list_swap xs (Suc i) (hd js))"

primrec choices :: "nat \<Rightarrow> nat list set" where
  "choices 0 = {[]}"
| "choices (Suc i) = (\<lambda>(j, js). j # js) ` ({..Suc i} \<times> choices i)"

lemma shuffle_loop_draws:
  "shuffle_loop n xs rng = map_option (apfst (\<lambda>js. shuffle_with n js xs)) (draw_indices n rng)"
  by (induction n arbitrary: xs rng)
    (auto simp: apfst_def map_prod_def option.map_comp comp_def split: Option.bind_splits option.splits prod.splits
      intro!: option.map_cong0)

lemma draw_indices_choices: "draw_indices n rng = Some (js, rng') \<Longrightarrow> js \<in> choices n"
proof (induction n arbitrary: js rng rng')
  case (Suc n)
  then obtain j r js' r' where g: "gen_index (Suc n + 1) rng = Some (j, r)" "draw_indices n r = Some (js', r')"
      "js = j # js'" by (auto simp: bind_eq_Some_conv)
  from gen_index_Some [OF g(1)] index_high_less [of "Suc n + 1"] have "j \<le> Suc n" by (force simp: less_Suc_eq_le)
  then show ?case using Suc.IH [OF g(2)] g(3) by force
qed simp

lemma mset_list_swap: "i < length xs \<Longrightarrow> j < length xs \<Longrightarrow> mset (list_swap xs i j) = mset xs"
  unfolding list_swap_def by (rule mset_swap)

lemma drop_list_swap: "i < n \<Longrightarrow> j < n \<Longrightarrow> drop n (list_swap xs i j) = drop n xs"
  by (simp add: list_swap_def)

lemma shuffle_with_bij:
  "n < length xs \<Longrightarrow> distinct xs \<Longrightarrow>
   bij_betw (\<lambda>js. shuffle_with n js xs) (choices n) {ys. mset ys = mset xs \<and> drop (Suc n) ys = drop (Suc n) xs}"
proof (induction n arbitrary: xs)
  case 0
  have "ys = xs" if m: "mset ys = mset xs" and d: "drop (Suc 0) ys = drop (Suc 0) xs" for ys
  proof -
    have "ys \<noteq> []" using m 0(1) by auto
    then obtain x xs' y where e: "xs = x # xs'" "ys = y # xs'" using 0(1) d by (cases xs; cases ys) auto
    then show ?thesis using m by simp
  qed
  then have "{ys. mset ys = mset xs \<and> drop (Suc 0) ys = drop (Suc 0) xs} = {xs}" by auto
  then show ?case by (simp add: bij_betw_def)
next
  case (Suc n)
  let ?A = "\<lambda>xs n. {ys. mset ys = mset xs \<and> drop (Suc n) ys = drop (Suc n) xs}"
  let ?sw = "\<lambda>j. list_swap xs (Suc n) j"
  have sw: "mset (?sw j) = mset xs" "distinct (?sw j)" "n < length (?sw j)"
      "drop (Suc (Suc n)) (?sw j) = drop (Suc (Suc n)) xs" "?sw j ! Suc n = xs ! j" if "j \<le> Suc n" for j
  proof -
    show m: "mset (?sw j) = mset xs" using mset_list_swap Suc.prems(1) that by (metis le_less_trans)
    then show "distinct (?sw j)" using Suc.prems(2) by (metis mset_eq_imp_distinct_iff)
    show "n < length (?sw j)" using Suc.prems(1) by (simp add: list_swap_def)
    show "drop (Suc (Suc n)) (?sw j) = drop (Suc (Suc n)) xs" using that by (intro drop_list_swap) auto
    show "?sw j ! Suc n = xs ! j" using Suc.prems(1) that by (cases "j = Suc n") (simp_all add: list_swap_def)
  qed
  have dropS: "drop (Suc n) zs = zs ! Suc n # drop (Suc (Suc n)) zs" if "Suc n < length zs" for zs :: "'a list"
    using that by (simp add: Cons_nth_drop_Suc)
  have len: "length ys = length xs" if "mset ys = mset xs" for ys using that by (rule mset_eq_length)
  have ih: "bij_betw (\<lambda>js. shuffle_with n js (?sw j)) (choices n) (?A (?sw j) n)" if "j \<le> Suc n" for j
    by (rule Suc.IH) (use sw [OF that] in auto)
  have at: "shuffle_with n js (?sw j) \<in> ?A xs (Suc n) \<and> shuffle_with n js (?sw j) ! Suc n = xs ! j"
    if j: "j \<le> Suc n" and js: "js \<in> choices n" for j js
  proof -
    let ?r = "shuffle_with n js (?sw j)"
    have r: "mset ?r = mset (?sw j)" "drop (Suc n) ?r = drop (Suc n) (?sw j)"
      using ih [OF j] js unfolding bij_betw_def by blast+
    have l: "Suc n < length ?r" "Suc n < length (?sw j)"
      using Suc.prems(1) r(1) sw(1) [OF j] len by (metis mset_eq_length)+
    from r(2) have "?r ! Suc n = ?sw j ! Suc n" "drop (Suc (Suc n)) ?r = drop (Suc (Suc n)) (?sw j)"
      unfolding dropS [OF l(1)] dropS [OF l(2)] by simp_all
    then show ?thesis using r(1) sw [OF j] by simp
  qed
  have inj: "inj_on (\<lambda>js. shuffle_with (Suc n) js xs) (choices (Suc n))"
  proof (rule inj_onI)
    fix a b assume a: "a \<in> choices (Suc n)" and b: "b \<in> choices (Suc n)"
      and eq: "shuffle_with (Suc n) a xs = shuffle_with (Suc n) b xs"
    from a b obtain j js k ks where e: "a = j # js" "j \<le> Suc n" "js \<in> choices n"
        "b = k # ks" "k \<le> Suc n" "ks \<in> choices n" by auto
    have "xs ! j = xs ! k" using at [OF e(2,3)] at [OF e(5,6)] eq e(1,4) by simp
    then have jk: "j = k" using Suc.prems e(2,5) by (simp add: nth_eq_iff_index_eq)
    have "js = ks" using ih [OF e(2)] eq e(1,3,4,6) unfolding jk bij_betw_def by (simp add: inj_on_def)
    then show "a = b" using e(1,4) jk by simp
  qed
  have "(\<lambda>js. shuffle_with (Suc n) js xs) ` choices (Suc n) = ?A xs (Suc n)"
  proof (intro set_eqI iffI)
    fix ys assume "ys \<in> (\<lambda>js. shuffle_with (Suc n) js xs) ` choices (Suc n)"
    then obtain j js where "j \<le> Suc n" "js \<in> choices n" "ys = shuffle_with n js (?sw j)" by auto
    then show "ys \<in> ?A xs (Suc n)" using at by simp
  next
    fix ys assume "ys \<in> ?A xs (Suc n)"
    then have ys: "mset ys = mset xs" "drop (Suc (Suc n)) ys = drop (Suc (Suc n)) xs" by simp_all
    have l: "Suc n < length ys" using Suc.prems(1) len [OF ys(1)] by simp
    have "mset (take (Suc (Suc n)) ys) + mset (drop (Suc (Suc n)) ys) = mset ys"
        "mset (take (Suc (Suc n)) xs) + mset (drop (Suc (Suc n)) xs) = mset xs"
      by (metis append_take_drop_id mset_append)+
    then have "mset (take (Suc (Suc n)) ys) = mset (take (Suc (Suc n)) xs)"
      using ys by (metis add_right_cancel)
    then have "set (take (Suc (Suc n)) ys) = set (take (Suc (Suc n)) xs)" by (rule mset_eq_setD)
    moreover have "ys ! Suc n \<in> set (take (Suc (Suc n)) ys)" using l by (auto simp: in_set_conv_nth intro!: exI [of _ "Suc n"])
    ultimately obtain j where j: "j \<le> Suc n" "xs ! j = ys ! Suc n" by (auto simp: in_set_conv_nth less_Suc_eq_le)
    have lj: "Suc n < length (?sw j)" using Suc.prems(1) by (simp add: list_swap_def)
    have "drop (Suc n) ys = drop (Suc n) (?sw j)"
      unfolding dropS [OF l] dropS [OF lj] using sw [OF j(1)] j(2) ys(2) by simp
    then have "ys \<in> ?A (?sw j) n" using ys(1) sw(1) [OF j(1)] by simp
    then obtain js where "js \<in> choices n" "ys = shuffle_with n js (?sw j)"
      using ih [OF j(1)] unfolding bij_betw_def by blast
    then show "ys \<in> (\<lambda>js. shuffle_with (Suc n) js xs) ` choices (Suc n)"
      using j(1) by (intro image_eqI [of _ _ "j # js"]) auto
  qed
  with inj show ?case unfolding bij_betw_def by blast
qed

text \<open>
  The shuffle is the Fisher-Yates shuffle: it only permutes, by indices drawn independently of the
  elements, and the indices stand in bijection with the permutations, so that uniform indices give
  every order of the parts exactly one way.
\<close>

theorem shuffle_bijective:
  assumes "distinct xs"
  shows "shuffle_in_place xs rng =
      map_option (apfst (\<lambda>js. shuffle_with (length xs - 1) js xs)) (draw_indices (length xs - 1) rng) \<and>
    (\<forall>js rng'. draw_indices (length xs - 1) rng = Some (js, rng') \<longrightarrow> js \<in> choices (length xs - 1)) \<and>
    bij_betw (\<lambda>js. shuffle_with (length xs - 1) js xs) (choices (length xs - 1)) {ys. mset ys = mset xs}"
proof (cases "length xs < 2")
  case True
  then have "xs = [] \<or> (\<exists>x. xs = [x])" by (cases xs) (auto simp: numeral_2_eq_2)
  then have "{ys. mset ys = mset xs} = {xs}" and z: "length xs - 1 = 0" by auto
  then have "bij_betw (\<lambda>js. shuffle_with (length xs - 1) js xs) (choices (length xs - 1)) {ys. mset ys = mset xs}"
    unfolding z by (simp add: bij_betw_def)
  then show ?thesis using True z by (simp add: shuffle_in_place_def)
next
  case False
  then have n: "length xs - 1 < length xs" "Suc (length xs - 1) = length xs" by auto
  have "{ys. mset ys = mset xs} = {ys. mset ys = mset xs \<and> drop (Suc (length xs - 1)) ys = drop (Suc (length xs - 1)) xs}"
    unfolding n(2) by (auto dest: mset_eq_length)
  then have "bij_betw (\<lambda>js. shuffle_with (length xs - 1) js xs) (choices (length xs - 1)) {ys. mset ys = mset xs}"
    using shuffle_with_bij [OF n(1) assms] by simp
  then show ?thesis using False draw_indices_choices by (auto simp: shuffle_in_place_def shuffle_loop_draws)
qed

section \<open>The anchor age\<close>

text \<open>The inner loop, on the bits of one word: the age at the first set bit, or the age after all.\<close>

primrec age_bits :: "nat \<Rightarrow> u64 \<Rightarrow> u32 \<Rightarrow> u32 + u32" where
  "age_bits 0 bits age = Inr age"
| "age_bits (Suc n) bits age =
     (if and bits 1 = 1 then Inl age else age_bits n (drop_bit 1 bits) (age + 1))"

partial_function (option) anchor_age_loop :: "u32 \<Rightarrow> rng \<Rightarrow> (u32 \<times> rng) option" where
  "anchor_age_loop age rng =
     (case age_bits 64 (shd rng) age of
        Inl a \<Rightarrow> Some (a, stl rng)
      | Inr a \<Rightarrow> anchor_age_loop a (stl rng))"

definition draw_anchor_age :: "rng \<Rightarrow> (u32 \<times> rng) option" where
  "draw_anchor_age rng = anchor_age_loop 1 rng"

lemma and_1_iff_bit: "and (bits :: 'a::len word) 1 = 1 \<longleftrightarrow> bit bits 0"
  by (simp add: and_one_eq odd_iff_mod_2_eq_one [symmetric] bit_0 mod2_eq_if)

lemma age_bits_Inl:
  "age_bits n bits age = Inl a \<longleftrightarrow>
     (\<exists>k<n. bit bits k \<and> (\<forall>i<k. \<not> bit bits i) \<and> a = age + of_nat k)"
proof (induction n arbitrary: bits age)
  case (Suc n)
  show ?case
  proof (cases "bit bits 0")
    case True
    then have "(bit bits k \<and> (\<forall>i<k. \<not> bit bits i)) \<longleftrightarrow> k = 0" for k by (cases k) auto
    then have "(\<exists>k<Suc n. bit bits k \<and> (\<forall>i<k. \<not> bit bits i) \<and> a = age + of_nat k) \<longleftrightarrow>
        (\<exists>k<Suc n. k = 0 \<and> a = age + of_nat k)" by metis
    then have "(\<exists>k<Suc n. bit bits k \<and> (\<forall>i<k. \<not> bit bits i) \<and> a = age + of_nat k) \<longleftrightarrow> a = age" by simp
    then show ?thesis using True by (auto simp: and_1_iff_bit)
  next
    case False
    have "(\<exists>k<Suc n. bit bits k \<and> (\<forall>i<k. \<not> bit bits i) \<and> a = age + of_nat k) \<longleftrightarrow>
        (\<exists>k<n. bit bits (Suc k) \<and> (\<forall>i<k. \<not> bit bits (Suc i)) \<and> a = age + 1 + of_nat k)"
      (is "?l \<longleftrightarrow> ?r")
    proof
      assume ?l
      then obtain k where k: "k < Suc n" "bit bits k" "\<forall>i<k. \<not> bit bits i" "a = age + of_nat k" by blast
      then obtain k' where "k = Suc k'" using False by (cases k) auto
      then show ?r using k by (intro exI [of _ k']) auto
    next
      assume ?r
      then obtain k where "k < n" "bit bits (Suc k)" "\<forall>i<k. \<not> bit bits (Suc i)" "a = age + 1 + of_nat k" by blast
      then show ?l using False by (intro exI [of _ "Suc k"]) (auto simp: less_Suc_eq_0_disj)
    qed
    then show ?thesis using False Suc.IH [of "drop_bit 1 bits" "age + 1"]
      by (simp add: and_1_iff_bit bit_drop_bit_eq)
  qed
qed simp

text \<open>Of the words, those that give an age are half as many for each further flip.\<close>

lemma card_lowest_bit:
  assumes "k < 64"
  shows "card {w :: u64. bit w k \<and> (\<forall>i<k. \<not> bit w i)} = 2 ^ (63 - k)"
proof -
  let ?S = "{w :: u64. bit w k \<and> (\<forall>i<k. \<not> bit w i)}"
  have pow: "(2::nat) ^ Suc k * 2 ^ (63 - k) = 2 ^ 64" using assms by (simp flip: power_add)
  have mem: "w \<in> ?S \<longleftrightarrow> unat w mod 2 ^ Suc k = 2 ^ k" for w
  proof -
    have "take_bit (Suc k) w = push_bit k 1 \<longleftrightarrow> (\<forall>n<64. (n < Suc k \<and> bit w n) \<longleftrightarrow> n = k)"
    proof
      assume e: "take_bit (Suc k) w = push_bit k 1"
      have "bit (take_bit (Suc k) w) n = bit (push_bit k 1 :: u64) n" for n by (simp only: e)
      then have "n < Suc k \<and> bit w n \<longleftrightarrow> k \<le> n \<and> n - k = 0" if "n < 64" for n
        using that by (simp only: bit_take_bit_iff bit_push_bit_iff bit_1_iff) simp
      then show "\<forall>n<64. (n < Suc k \<and> bit w n) \<longleftrightarrow> n = k" by force
    next
      assume r: "\<forall>n<64. (n < Suc k \<and> bit w n) \<longleftrightarrow> n = k"
      show "take_bit (Suc k) w = push_bit k 1"
      proof (rule bit_word_eqI)
        fix n assume n: "n < LENGTH(64)"
        then have "n < Suc k \<and> bit w n \<longleftrightarrow> n = k" using r by simp
        then show "bit (take_bit (Suc k) w) n = bit (push_bit k 1 :: u64) n"
          using n by (simp only: bit_take_bit_iff bit_push_bit_iff bit_1_iff) auto
      qed
    qed
    also have "\<dots> \<longleftrightarrow> bit w k \<and> (\<forall>i<k. \<not> bit w i)"
    proof
      assume r: "\<forall>n<64. (n < Suc k \<and> bit w n) \<longleftrightarrow> n = k"
      then have "bit w k" using assms by blast
      moreover have "\<not> bit w i" if "i < k" for i
        using r assms that by (metis less_SucI less_imp_neq less_trans)
      ultimately show "bit w k \<and> (\<forall>i<k. \<not> bit w i)" by blast
    next
      assume "bit w k \<and> (\<forall>i<k. \<not> bit w i)"
      then show "\<forall>n<64. (n < Suc k \<and> bit w n) \<longleftrightarrow> n = k" by (auto simp: less_Suc_eq)
    qed
    finally have "w \<in> ?S \<longleftrightarrow> take_bit (Suc k) w = push_bit k 1" by simp
    also have "\<dots> \<longleftrightarrow> unat (take_bit (Suc k) w) = unat (push_bit k 1 :: u64)" by (simp add: word_unat_eq_iff)
    also have "unat (take_bit (Suc k) w) = unat w mod 2 ^ Suc k"
      unfolding unsigned_take_bit_eq by (rule take_bit_eq_mod)
    also have "unat (push_bit k 1 :: u64) = 2 ^ k"
    proof -
      have "(2::nat) ^ k < 2 ^ 64" using assms by (intro power_strict_increasing) auto
      then show ?thesis unfolding unsigned_push_bit_eq by (simp add: take_bit_eq_mod push_bit_eq_mult)
    qed
    finally show ?thesis .
  qed
  have "unat ` ?S = (\<lambda>q. q * 2 ^ Suc k + 2 ^ k) ` {..<2 ^ (63 - k)}"
  proof (intro set_eqI iffI)
    fix n assume "n \<in> unat ` ?S"
    then obtain w where w: "w \<in> ?S" "n = unat w" by blast
    then have "n = n div 2 ^ Suc k * 2 ^ Suc k + 2 ^ k" using mem [of w] div_mult_mod_eq [of n "2 ^ Suc k"] by simp
    moreover have "n < 2 ^ Suc k * 2 ^ (63 - k)" using unsigned_less [of w, where ?'a = nat] w(2) pow by simp
    then have "n div 2 ^ Suc k < 2 ^ (63 - k)" by (simp add: less_mult_imp_div_less mult.commute)
    ultimately show "n \<in> (\<lambda>q. q * 2 ^ Suc k + 2 ^ k) ` {..<2 ^ (63 - k)}" by blast
  next
    fix n assume "n \<in> (\<lambda>q. q * 2 ^ Suc k + 2 ^ k) ` {..<2 ^ (63 - k) :: nat}"
    then obtain q where q: "q < 2 ^ (63 - k)" "n = q * 2 ^ Suc k + 2 ^ k" by blast
    have "n < (q + 1) * 2 ^ Suc k" using q(2) by simp
    also have "\<dots> \<le> 2 ^ (63 - k) * 2 ^ Suc k" using q(1) by (intro mult_le_mono1) simp
    finally have "n < 2 ^ 64" using pow by (simp add: mult.commute)
    then have u: "n = unat (of_nat n :: u64)" by (simp add: unat_of_nat take_bit_nat_eq_self)
    have "n mod 2 ^ Suc k = 2 ^ k" unfolding q(2) by simp
    then have "of_nat n \<in> ?S" unfolding mem using u by simp
    with u show "n \<in> unat ` ?S" by (rule image_eqI)
  qed
  then have "card (unat ` ?S) = card ((\<lambda>q. q * 2 ^ Suc k + 2 ^ k :: nat) ` {..<2 ^ (63 - k)})" by (rule arg_cong)
  also have "\<dots> = 2 ^ (63 - k)" by (subst card_image) (simp_all add: inj_on_def)
  finally have "card (unat ` ?S) = 2 ^ (63 - k)" .
  moreover have "inj_on unat ?S" by (simp add: inj_on_def word_unat_eq_iff)
  ultimately show ?thesis by (simp only: card_image)
qed

section \<open>Anchor boundaries\<close>

partial_function (option) sample_recency_weighted_boundary ::
    "AnchorBucketInterval \<Rightarrow> u32 \<Rightarrow> u32 \<Rightarrow> u32 \<Rightarrow> rng \<Rightarrow> (u32 \<times> rng) option" where
  "sample_recency_weighted_boundary interval lowest highest most_recent rng =
     Option.bind (draw_anchor_age rng) (\<lambda>(age, rng').
       if ANCHOR_AGE_CAP < age
       then sample_recency_weighted_boundary interval lowest highest most_recent rng'
       else case Option.bind (word_checked_mul age interval) (word_checked_sub most_recent) of
         None \<Rightarrow> sample_recency_weighted_boundary interval lowest highest most_recent rng'
       | Some candidate \<Rightarrow>
           if lowest \<le> candidate \<and> candidate \<le> highest then Some (candidate, rng')
           else sample_recency_weighted_boundary interval lowest highest most_recent rng')"

definition lowest_candidate_boundary :: "AnchorBucketInterval \<Rightarrow> u32 \<Rightarrow> u32 \<Rightarrow> u32" where
  "lowest_candidate_boundary interval nu63_activation funding_creation_height =
     (let above_activation = word_saturating_add (boundary_at_or_below interval nu63_activation) interval;
          at_or_after_funding = boundary_at_or_above interval funding_creation_height
      in max above_activation at_or_after_funding)"

definition candidate_boundary_bounds ::
    "AnchorBucketInterval \<Rightarrow> u32 \<Rightarrow> u32 \<Rightarrow> u32 \<Rightarrow> (u32 \<times> u32) option" where
  "candidate_boundary_bounds interval nu63_activation funding_creation_height most_recent =
     Option.bind (word_checked_sub most_recent interval) (\<lambda>highest.
       let lowest = lowest_candidate_boundary interval nu63_activation funding_creation_height in
       if lowest \<le> highest then Some (lowest, highest) else None)"

definition draw_anchor_boundary ::
    "AnchorBucketInterval \<Rightarrow> BlockHeight \<Rightarrow> BlockHeight \<Rightarrow> BlockHeight \<Rightarrow> rng
     \<Rightarrow> (BlockHeight option \<times> rng) option" where
  "draw_anchor_boundary interval nu63_activation funding_creation_height chain_tip_height rng =
     (let most_recent = boundary_at_or_below interval chain_tip_height in
      case candidate_boundary_bounds interval nu63_activation funding_creation_height most_recent of
        None \<Rightarrow> Some (None, rng)
      | Some (lowest, highest) \<Rightarrow>
          map_option (apfst (\<lambda>b. Some (block_height_from_u32 b)))
            (sample_recency_weighted_boundary interval lowest highest most_recent rng))"

definition redraw_anchor_boundary ::
    "AnchorBucketInterval \<Rightarrow> BlockHeight \<Rightarrow> BlockHeight \<Rightarrow> rng \<Rightarrow> (BlockHeight option \<times> rng) option" where
  "redraw_anchor_boundary interval prior_boundary broadcast_height rng =
     (let most_recent = boundary_at_or_below interval broadcast_height in
      case word_checked_sub most_recent interval of
        None \<Rightarrow> Some (None, rng)
      | Some highest \<Rightarrow>
          let lowest = boundary_at_or_above interval prior_boundary in
          if highest < lowest then Some (None, rng)
          else map_option (apfst (\<lambda>b. Some (block_height_from_u32 b)))
            (sample_recency_weighted_boundary interval lowest highest most_recent rng))"

definition earliest_broadcast_height :: "AnchorBucketInterval \<Rightarrow> BlockHeight \<Rightarrow> BlockHeight \<Rightarrow> BlockHeight" where
  "earliest_broadcast_height interval nu63_activation funding_creation_height =
     block_height_from_u32 (word_saturating_add
       (lowest_candidate_boundary interval nu63_activation funding_creation_height) interval)"

section \<open>Delays\<close>

record DelayDistribution =
  mean :: u32
  cap :: u32

definition delay_distribution_new :: "u32 \<Rightarrow> u32 \<Rightarrow> DelayDistribution option" where
  "delay_distribution_new m c = (if c < m then None else Some \<lparr>mean = m, cap = c\<rparr>)"

text \<open>
  \<open>delay_of\<close> is the rounded \<open>-mean * ln(u)\<close> for the 53-bit \<open>u\<close> made of a word; the logarithm is
  that of \<open>libm\<close>.
\<close>

partial_function (option) delay_draw :: "(u32 \<Rightarrow> u64 \<Rightarrow> u32) \<Rightarrow> DelayDistribution \<Rightarrow> rng \<Rightarrow> (u32 \<times> rng) option" where
  "delay_draw delay_of d rng =
     (let delay = delay_of (mean d) (drop_bit 11 (shd rng)) in
      if delay \<le> cap d then Some (delay, stl rng) else delay_draw delay_of d (stl rng))"

record SchedulingParams =
  anchor_bucket_interval :: AnchorBucketInterval
  transfer_delay :: DelayDistribution
  preparation_delay :: DelayDistribution

definition scheduling_zip_318 :: SchedulingParams where
  "scheduling_zip_318 = \<lparr>
     anchor_bucket_interval = anchor_interval_zip_318,
     transfer_delay = \<lparr>mean = 66, cap = 576\<rparr>,
     preparation_delay = \<lparr>mean = 16, cap = 96\<rparr>\<rparr>"

definition scale_delay :: "AnchorBucketInterval \<Rightarrow> u32 \<Rightarrow> u32" where
  "scale_delay interval v =
     (let scaled = unat v * unat interval div unat anchor_interval_zip_318 in
      if scaled < 4294967296 then if scaled = 0 then 1 else of_nat scaled else - 1)"

definition new_with_default_distributions :: "AnchorBucketInterval \<Rightarrow> SchedulingParams" where
  "new_with_default_distributions interval = \<lparr>
     anchor_bucket_interval = interval,
     transfer_delay = \<lparr>mean = scale_delay interval 66, cap = scale_delay interval 576\<rparr>,
     preparation_delay = \<lparr>mean = scale_delay interval 16, cap = scale_delay interval 96\<rparr>\<rparr>"

primrec cumulative_broadcast_heights ::
    "(rng \<Rightarrow> (u32 \<times> rng) option) \<Rightarrow> BlockHeight \<Rightarrow> nat \<Rightarrow> rng \<Rightarrow> (BlockHeight list \<times> rng) option" where
  "cumulative_broadcast_heights draw height 0 rng = Some ([], rng)"
| "cumulative_broadcast_heights draw height (Suc n) rng =
     Option.bind (draw rng) (\<lambda>(d, rng').
       let height' = block_height_add height d in
       map_option (apfst ((#) height')) (cumulative_broadcast_heights draw height' n rng'))"

definition schedule_broadcast_heights ::
    "(u32 \<Rightarrow> u64 \<Rightarrow> u32) \<Rightarrow> SchedulingParams \<Rightarrow> BlockHeight \<Rightarrow> nat \<Rightarrow> rng \<Rightarrow> (BlockHeight list \<times> rng) option" where
  "schedule_broadcast_heights delay_of params commit_height n_parts rng =
     cumulative_broadcast_heights (delay_draw delay_of (transfer_delay params)) commit_height n_parts rng"

definition schedule_prep_broadcast_heights ::
    "(u32 \<Rightarrow> u64 \<Rightarrow> u32) \<Rightarrow> SchedulingParams \<Rightarrow> BlockHeight \<Rightarrow> nat \<Rightarrow> rng \<Rightarrow> (BlockHeight list \<times> rng) option" where
  "schedule_prep_broadcast_heights delay_of params start n_txs rng =
     cumulative_broadcast_heights (delay_draw delay_of (preparation_delay params)) start n_txs rng"

record Schedule =
  broadcast_height :: BlockHeight
  schedule_expiry_height :: BlockHeight

definition schedule ::
    "(u32 \<Rightarrow> u64 \<Rightarrow> u32) \<Rightarrow> SchedulingParams \<Rightarrow> BlockHeight \<Rightarrow> nat \<Rightarrow> rng \<Rightarrow> (Schedule list \<times> rng) option" where
  "schedule delay_of params commit_height n_parts rng =
     map_option (apfst (map (\<lambda>h. \<lparr>broadcast_height = h, schedule_expiry_height = expiry_height h\<rparr>)))
       (schedule_broadcast_heights delay_of params commit_height n_parts rng)"

section \<open>What the draws give\<close>

lemma sample_boundary_sound:
  assumes "sample_recency_weighted_boundary i lo hi recent rng = Some r"
  shows "lo \<le> fst r \<and> fst r \<le> hi \<and> (\<exists>a\<le>4. unat recent = unat (fst r) + a * unat i)"
proof (rule sample_recency_weighted_boundary.raw_induct [where
    P = "\<lambda>i lo hi recent rng r. lo \<le> fst r \<and> fst r \<le> hi \<and> (\<exists>a\<le>4. unat recent = unat (fst r) + a * unat i)",
    OF _ assms], goal_cases)
  case (1 g i lo hi recent rng r)
  from 1(2) obtain age rng' where
    s: "(if ANCHOR_AGE_CAP < age then g i lo hi recent rng'
       else case Option.bind (word_checked_mul age i) (word_checked_sub recent) of
         None \<Rightarrow> g i lo hi recent rng'
       | Some c \<Rightarrow> if lo \<le> c \<and> c \<le> hi then Some (c, rng') else g i lo hi recent rng') = Some r"
    by (auto simp: bind_eq_Some_conv)
  show ?case
  proof (cases "g i lo hi recent rng' = Some r")
    case True
    then show ?thesis by (rule 1(1))
  next
    case False
    with s obtain m c where c: "age \<le> 4" "word_checked_mul age i = Some m" "word_checked_sub recent m = Some c"
        "lo \<le> c" "c \<le> hi" "r = (c, rng')"
      by (auto simp: ANCHOR_AGE_CAP_def not_less bind_eq_Some_conv split: if_splits option.splits)
    have "unat age \<le> 4" using c(1) by (simp add: word_le_nat_alt)
    moreover have "unat recent = unat c + unat age * unat i"
      using word_checked_sub_Some [OF c(3)] word_checked_mul_Some [OF c(2)] by (simp add: word_le_nat_alt)
    ultimately show ?thesis using c(4-6) by auto
  qed
qed

lemma multiple_minus_dvd: "(d::nat) dvd n \<Longrightarrow> n = c + a * d \<Longrightarrow> d dvd c"
  by (metis dvd_add_right_iff dvd_triv_right add.commute)

text \<open>A fair word: the first flip of a draw that starts with it succeeds, and gives age one.\<close>

lemma draw_age_odd: "bit (shd rng) 0 \<Longrightarrow> draw_anchor_age rng = Some (1, stl rng)"
proof -
  assume "bit (shd rng) 0"
  then have "age_bits 64 (shd rng) 1 = Inl 1" using age_bits_Inl [of 64 "shd rng" 1 1] by force
  then show ?thesis unfolding draw_anchor_age_def by (subst anchor_age_loop.simps) simp
qed

lemma draw_age_word:
  assumes "w \<noteq> 0"
  shows "\<exists>k<64. bit w k \<and> (\<forall>i<k. \<not> bit w i) \<and> draw_anchor_age (w ## rng) = Some (of_nat (Suc k), rng)"
proof -
  let ?k = "LEAST k. bit w k"
  have "\<exists>k. bit w k" using assms by (metis bit_eqI bit_0_eq bot_apply bot_bool_def)
  then have l: "bit w ?k" by (rule LeastI_ex)
  have k: "?k < 64" using bit_imp_le_length [OF l] by simp
  have none: "\<forall>i<?k. \<not> bit w i" using not_less_Least by blast
  with l k have "age_bits 64 w 1 = Inl (1 + of_nat ?k)" using age_bits_Inl by blast
  then have "draw_anchor_age (w ## rng) = Some (of_nat (Suc ?k), rng)"
    unfolding draw_anchor_age_def by (subst anchor_age_loop.simps) simp
  with l k none show ?thesis by blast
qed

lemma sample_boundary_returns:
  assumes i: "word_checked_sub recent i = Some hi" "lo \<le> hi"
  shows "bit (rng !! n) 0 \<Longrightarrow> \<forall>m<n. rng !! m \<noteq> 0 \<Longrightarrow>
    sample_recency_weighted_boundary i lo hi recent rng \<noteq> None"
proof (induction n arbitrary: rng)
  case 0
  have "unat i \<le> unat recent" using word_checked_sub_Some [OF i(1)] by (simp add: word_le_nat_alt)
  then have "word_checked_mul 1 i = Some i" using unsigned_less [of i, where ?'a = nat] by (simp add: word_checked_mul_def)
  then show ?case using draw_age_odd [of rng] 0 i
    by (subst sample_recency_weighted_boundary.simps) (simp add: ANCHOR_AGE_CAP_def)
next
  case (Suc n)
  have "shd rng \<noteq> 0" using Suc.prems(2) by force
  from draw_age_word [OF this, of "stl rng"] obtain k where
    k: "draw_anchor_age rng = Some (of_nat (Suc k), stl rng)" by (auto simp del: of_nat_Suc)
  have ih: "sample_recency_weighted_boundary i lo hi recent (stl rng) \<noteq> None"
    by (rule Suc.IH) (use Suc.prems in auto)
  show ?case using ih k by (subst sample_recency_weighted_boundary.simps) (auto split: option.splits)
qed

text \<open>
  Lemire's method is unbiased: for a bound below \<open>2 ^ 64\<close> every index below the bound is the result
  for the same number of accepted words. A draw returns the index of the first accepted word of the
  stream, and returns as soon as there is one; fewer words than the bound are rejected.
\<close>

theorem gen_index_unbiased:
  assumes "0 < bound" and "bound < 2 ^ 64"
  shows "(\<forall>j<bound. card {v. index_accepted bound v \<and> index_high bound v = j} = 2 ^ 64 div bound) \<and>
    (gen_index bound rng = Some (j, rng') \<longleftrightarrow>
      (\<exists>n. first_accepted bound rng n \<and> j = index_high bound (rng !! n) \<and> rng' = sdrop (Suc n) rng)) \<and>
    (gen_index bound rng = Some (j, rng') \<longrightarrow> j < bound) \<and>
    (gen_index bound rng = None \<longleftrightarrow> (\<forall>n. \<not> index_accepted bound (rng !! n)))"
proof (intro conjI allI impI)
  show "card {v. index_accepted bound v \<and> index_high bound v = j} = 2 ^ 64 div bound" if "j < bound" for j
    using lemire_uniform_aux [OF assms that] by simp
  show r: "gen_index bound rng = Some (j, rng') \<longleftrightarrow>
      (\<exists>n. first_accepted bound rng n \<and> j = index_high bound (rng !! n) \<and> rng' = sdrop (Suc n) rng)"
    using gen_index_Some [OF _ assms(1)] gen_index_first [OF _ assms(1)] by fastforce
  show "j < bound" if "gen_index bound rng = Some (j, rng')"
    using that r index_high_less [OF assms(1)] by auto
  have "(\<exists>n. index_accepted bound (rng !! n)) \<longleftrightarrow> (\<exists>n. first_accepted bound rng n)"
    using exists_least_iff [of "\<lambda>n. index_accepted bound (rng !! n)"] by (auto simp: first_accepted_def)
  also have "\<dots> \<longleftrightarrow> gen_index bound rng \<noteq> None"
    using gen_index_Some [OF _ assms(1)] gen_index_first [OF _ assms(1)] by fastforce
  finally show "gen_index bound rng = None \<longleftrightarrow> (\<forall>n. \<not> index_accepted bound (rng !! n))" by blast
qed

theorem gen_index_unbiased_witness:
  "card {v. index_accepted 3 v \<and> index_high 3 v = 2} = 6148914691236517205 \<and> gen_index 3 (sconst 1) \<noteq> None"
proof -
  have "index_accepted 3 1"
    by (simp add: index_accepted_def index_threshold_def index_low_def u64_sub_def)
  then have "\<not> (\<forall>n. \<not> index_accepted 3 (sconst 1 !! n))" by simp
  with gen_index_unbiased [of 3 "sconst 1", THEN conjunct2, THEN conjunct2, THEN conjunct2]
  have "gen_index 3 (sconst 1) \<noteq> None" by simp
  moreover have "card {v. index_accepted 3 v \<and> index_high 3 v = 2} = 6148914691236517205"
    using gen_index_unbiased [of 3 "sconst 1", THEN conjunct1] by simp
  ultimately show ?thesis by blast
qed

theorem shuffle_bijective_witness:
  "bij_betw (\<lambda>js. shuffle_with 2 js [7, 8, 9 :: nat]) (choices 2) {ys. mset ys = {#7, 8, 9#}}"
proof -
  have "length [7, 8, 9 :: nat] - 1 = 2" "mset [7, 8, 9 :: nat] = {#7, 8, 9#}" "distinct [7, 8, 9 :: nat]" by simp_all
  with shuffle_bijective [of "[7, 8, 9 :: nat]" "sconst 0"] show ?thesis by metis
qed

text \<open>
  The age of an anchor is geometric: of the \<open>2 ^ 64\<close> words, exactly \<open>2 ^ (64 - a)\<close> give the age \<open>a\<close>
  to a draw that starts with them, for every \<open>a\<close> from 1 to 64, and no word but zero leaves a draw
  undecided; the age 0 does not come from any of them.
\<close>

theorem anchor_age_geometric:
  assumes "1 \<le> a" and "a \<le> 64"
  shows "card {w. w \<noteq> 0 \<and> draw_anchor_age (w ## rng) = Some (of_nat a, rng)} = 2 ^ (64 - a) \<and>
    (w \<noteq> 0 \<longrightarrow> (\<exists>b. 1 \<le> b \<and> b \<le> 64 \<and> draw_anchor_age (w ## rng) = Some (of_nat b, rng)))"
proof (intro conjI impI)
  define k where "k = a - 1"
  have k: "k < 64" "a = Suc k" using assms by (auto simp: k_def)
  have inj: "n = m" if "(of_nat n :: u32) = of_nat m" "n \<le> 64" "m \<le> 64" for n m
  proof -
    have u: "unat (of_nat x :: u32) = x" if "x \<le> 64" for x
      unfolding unat_of_nat by (rule mod_less) (rule le_less_trans [OF that], simp)
    show ?thesis using arg_cong [OF that(1), of unat] unfolding u [OF that(2)] u [OF that(3)] .
  qed
  have "w \<noteq> 0 \<and> draw_anchor_age (w ## rng) = Some (of_nat a, rng) \<longleftrightarrow> bit w k \<and> (\<forall>i<k. \<not> bit w i)" for w
  proof (cases "w = 0")
    case False
    from draw_age_word [OF this] obtain j where
      j: "j < 64" "bit w j" "\<forall>i<j. \<not> bit w i" "draw_anchor_age (w ## rng) = Some (of_nat (Suc j), rng)" by blast
    have "draw_anchor_age (w ## rng) = Some (of_nat a, rng) \<longleftrightarrow> j = k"
      unfolding j(4) using inj [of "Suc j" a] j(1) k by (auto simp del: of_nat_Suc)
    also have "\<dots> \<longleftrightarrow> bit w k \<and> (\<forall>i<k. \<not> bit w i)" using j(2,3) by (metis linorder_neqE_nat)
    finally show ?thesis using False by blast
  qed simp
  then show "card {w. w \<noteq> 0 \<and> draw_anchor_age (w ## rng) = Some (of_nat a, rng)} = 2 ^ (64 - a)"
    using card_lowest_bit [OF k(1)] k(2) by simp
  show "\<exists>b. 1 \<le> b \<and> b \<le> 64 \<and> draw_anchor_age (w ## rng) = Some (of_nat b, rng)" if "w \<noteq> 0"
  proof -
    from draw_age_word [OF that] obtain j where "j < 64" "draw_anchor_age (w ## rng) = Some (of_nat (Suc j), rng)" by blast
    then show ?thesis by (intro exI [of _ "Suc j"]) simp
  qed
qed

theorem anchor_age_geometric_witness:
  "card {w. w \<noteq> 0 \<and> draw_anchor_age (w ## sconst 0) = Some (2, sconst 0)} = 2 ^ 62"
  using anchor_age_geometric [where a = 2 and rng = "sconst 0"] by simp

text \<open>The candidate anchors of a transfer, as ZIP 318 lists them.\<close>

definition candidate_anchor ::
    "AnchorBucketInterval \<Rightarrow> BlockHeight \<Rightarrow> BlockHeight \<Rightarrow> BlockHeight \<Rightarrow> BlockHeight \<Rightarrow> bool" where
  "candidate_anchor i nu63 funding tip b \<longleftrightarrow>
     is_boundary i b \<and> nu63 < b \<and> funding \<le> b \<and> b < boundary_at_or_below i tip"

lemma le_highest_iff:
  assumes i: "i \<noteq> 0" and b: "is_boundary i b"
  shows "b < boundary_at_or_below i tip \<longleftrightarrow>
    (\<exists>highest. word_checked_sub (boundary_at_or_below i tip) i = Some highest \<and> b \<le> highest)"
proof -
  let ?r = "boundary_at_or_below i tip"
  from b obtain p where p: "unat b = p * unat i" by (auto simp: is_boundary_dvd dvd_def mult.commute)
  obtain q where q: "unat ?r = q * unat i" unfolding unat_boundary_below by blast
  have pos: "0 < unat i" using i by (simp add: unat_gt_0)
  have "b < ?r \<longleftrightarrow> p < q" using p q pos by (simp add: word_less_nat_alt)
  also have "\<dots> \<longleftrightarrow> unat i \<le> unat ?r \<and> unat b \<le> unat ?r - unat i"
  proof
    assume "p < q"
    then have "(p + 1) * unat i \<le> q * unat i" by (intro mult_le_mono1) simp
    then have "p * unat i + unat i \<le> q * unat i" by simp
    then show "unat i \<le> unat ?r \<and> unat b \<le> unat ?r - unat i" unfolding p q by linarith
  next
    assume "unat i \<le> unat ?r \<and> unat b \<le> unat ?r - unat i"
    then have "p * unat i + unat i \<le> q * unat i" unfolding p q by linarith
    then have "(p + 1) * unat i \<le> q * unat i" by simp
    then have "p + 1 \<le> q" using pos by (simp only: mult_le_cancel2)
    then show "p < q" by simp
  qed
  finally show ?thesis by (auto simp: word_checked_sub_def word_le_nat_alt unat_sub)
qed

lemma lowest_candidate_le_iff:
  assumes i: "i \<noteq> 0" and b: "is_boundary i b"
  shows "b < - 1 \<Longrightarrow> lowest_candidate_boundary i nu63 funding \<le> b \<longleftrightarrow> nu63 < b \<and> funding \<le> b"
proof -
  assume lt: "b < - 1"
  then have bm: "unat b < 2 ^ 32 - 1" by (simp add: word_less_nat_alt unat_minus_one)
  from b obtain p where p: "unat b = p * unat i" by (auto simp: is_boundary_dvd dvd_def mult.commute)
  have pos: "0 < unat i" using i by (simp add: unat_gt_0)
  have act: "word_saturating_add (boundary_at_or_below i nu63) i \<le> b \<longleftrightarrow> nu63 < b"
  proof -
    have "unat (word_saturating_add (boundary_at_or_below i nu63) i) =
        min ((unat nu63 div unat i + 1) * unat i) (2 ^ 32 - 1)"
      by (simp only: unat_saturating_add unat_boundary_below) simp
    then have "word_saturating_add (boundary_at_or_below i nu63) i \<le> b \<longleftrightarrow> (unat nu63 div unat i + 1) * unat i \<le> unat b"
      unfolding word_le_nat_alt using bm by linarith
    also have "\<dots> \<longleftrightarrow> unat nu63 div unat i < p" unfolding p mult_le_cancel2 using pos by auto
    also have "\<dots> \<longleftrightarrow> unat nu63 < p * unat i" using pos by (rule div_less_iff_less_mult)
    finally show ?thesis unfolding p [symmetric] by (simp only: word_less_nat_alt)
  qed
  have fund: "boundary_at_or_above i funding \<le> b \<longleftrightarrow> funding \<le> b"
  proof (cases "unat i dvd unat funding")
    case True
    then show ?thesis by (simp add: word_le_nat_alt unat_boundary_above [OF i])
  next
    case False
    then have "boundary_at_or_above i funding \<le> b \<longleftrightarrow> (unat funding div unat i + 1) * unat i \<le> unat b"
      unfolding word_le_nat_alt unat_boundary_above [OF i] if_not_P [OF False] using bm by linarith
    also have "\<dots> \<longleftrightarrow> unat funding div unat i < p" unfolding p mult_le_cancel2 using pos by auto
    also have "\<dots> \<longleftrightarrow> unat funding < p * unat i" using pos by (rule div_less_iff_less_mult)
    also have "\<dots> \<longleftrightarrow> unat funding \<le> p * unat i" using False by (auto simp: order_le_less)
    finally show ?thesis unfolding p [symmetric] by (simp only: word_le_nat_alt)
  qed
  show ?thesis unfolding lowest_candidate_boundary_def Let_def using act fund by simp
qed

lemma candidate_bounds_iff:
  assumes i: "i \<noteq> 0" and b: "is_boundary i b"
  shows "candidate_anchor i nu63 funding tip b \<longleftrightarrow>
    (\<exists>lo hi. candidate_boundary_bounds i nu63 funding (boundary_at_or_below i tip) = Some (lo, hi) \<and> lo \<le> b \<and> b \<le> hi)"
proof -
  have lt: "b < - 1" if "b < boundary_at_or_below i tip"
    using that word_order.extremum order_less_le_trans by blast
  show ?thesis
  proof
    assume c: "candidate_anchor i nu63 funding tip b"
    then obtain hi where hi: "word_checked_sub (boundary_at_or_below i tip) i = Some hi" "b \<le> hi"
      using le_highest_iff [OF i b] by (auto simp: candidate_anchor_def)
    have "lowest_candidate_boundary i nu63 funding \<le> b"
      using c lt lowest_candidate_le_iff [OF i b] by (simp add: candidate_anchor_def)
    then show "\<exists>lo hi. candidate_boundary_bounds i nu63 funding (boundary_at_or_below i tip) = Some (lo, hi) \<and> lo \<le> b \<and> b \<le> hi"
      using hi by (auto simp: candidate_boundary_bounds_def Let_def)
  next
    assume "\<exists>lo hi. candidate_boundary_bounds i nu63 funding (boundary_at_or_below i tip) = Some (lo, hi) \<and> lo \<le> b \<and> b \<le> hi"
    then obtain hi where hi: "word_checked_sub (boundary_at_or_below i tip) i = Some hi"
        "lowest_candidate_boundary i nu63 funding \<le> b" "b \<le> hi"
      by (auto simp: candidate_boundary_bounds_def Let_def bind_eq_Some_conv split: if_splits)
    then have "b < boundary_at_or_below i tip" using le_highest_iff [OF i b] by blast
    then show "candidate_anchor i nu63 funding tip b"
      using hi(2) b lt lowest_candidate_le_iff [OF i b] by (simp add: candidate_anchor_def)
  qed
qed

lemma drawn_is_candidate:
  assumes i: "i \<noteq> 0" and bounds: "candidate_boundary_bounds i nu63 funding (boundary_at_or_below i tip) = Some (lo, hi)"
    and r: "sample_recency_weighted_boundary i lo hi (boundary_at_or_below i tip) rng = Some r"
  shows "candidate_anchor i nu63 funding tip (fst r) \<and>
    (\<exists>a\<in>{1..4}. unat (boundary_at_or_below i tip) = unat (fst r) + a * unat i)"
proof -
  let ?r = "boundary_at_or_below i tip"
  have rb: "is_boundary i ?r" by (simp add: is_boundary_dvd unat_boundary_below)
  have hi: "word_checked_sub ?r i = Some hi"
    using bounds by (auto simp: candidate_boundary_bounds_def Let_def bind_eq_Some_conv split: if_splits)
  have hr: "unat ?r = unat hi + unat i" using word_checked_sub_Some [OF hi] by (simp add: word_le_nat_alt)
  from sample_boundary_sound [OF r] obtain a where a: "lo \<le> fst r" "fst r \<le> hi" "a \<le> 4"
      "unat ?r = unat (fst r) + a * unat i" by blast
  have "a \<noteq> 0"
  proof
    assume "a = 0"
    with a(2,4) hr have "unat hi + unat i \<le> unat hi" by (simp add: word_le_nat_alt)
    moreover have "0 < unat i" using i by (simp add: unat_gt_0)
    ultimately show False by simp
  qed
  moreover have "is_boundary i (fst r)"
    using multiple_minus_dvd [OF _ a(4)] rb by (simp add: is_boundary_dvd)
  then have "candidate_anchor i nu63 funding tip (fst r)"
    using candidate_bounds_iff [OF i] bounds a(1,2) by blast
  ultimately show ?thesis using a(3,4) by (intro conjI bexI [of _ a]) auto
qed

lemma drawn_anchor:
  assumes "i \<noteq> 0" "draw_anchor_boundary i nu63 funding tip rng = Some (Some b, rng')"
  shows "candidate_anchor i nu63 funding tip b"
proof -
  from assms(2) obtain lo hi where "candidate_boundary_bounds i nu63 funding (boundary_at_or_below i tip) = Some (lo, hi)"
    "sample_recency_weighted_boundary i lo hi (boundary_at_or_below i tip) rng = Some (b, rng')"
    by (auto simp: draw_anchor_boundary_def Let_def block_height_from_u32_def split: option.split_asm)
  from drawn_is_candidate [OF assms(1) this] show ?thesis by simp
qed

text \<open>
  C33. The anchor drawn for a transfer is a boundary strictly above the activation, not below the funding
  note, and one to four intervals below the most recent boundary of the tip. There is none exactly
  when no boundary is a candidate, and then no word is drawn; otherwise the draw returns on every
  stream with an odd word before its first zero word.
\<close>

theorem draw_anchor_boundary_sound:
  assumes i: "i \<noteq> 0"
  shows "(draw_anchor_boundary i nu63 funding tip rng = Some (Some b, rng') \<longrightarrow>
      candidate_anchor i nu63 funding tip b \<and>
      (\<exists>a\<in>{1..4}. unat (boundary_at_or_below i tip) = unat b + a * unat i)) \<and>
    ((\<forall>b. \<not> candidate_anchor i nu63 funding tip b) \<longleftrightarrow> draw_anchor_boundary i nu63 funding tip rng = Some (None, rng)) \<and>
    (bit (rng !! n) 0 \<and> (\<forall>m<n. rng !! m \<noteq> 0) \<longrightarrow> draw_anchor_boundary i nu63 funding tip rng \<noteq> None)"
proof -
  let ?r = "boundary_at_or_below i tip"
  have rb: "is_boundary i ?r" by (simp add: is_boundary_dvd unat_boundary_below)
  have pos: "0 < unat i" using i by (simp add: unat_gt_0)
  show ?thesis
  proof (cases "candidate_boundary_bounds i nu63 funding ?r")
    case None
    have "\<not> candidate_anchor i nu63 funding tip b" for b
    proof
      assume c: "candidate_anchor i nu63 funding tip b"
      then have "is_boundary i b" by (simp add: candidate_anchor_def)
      from candidate_bounds_iff [OF i this] c None show False by simp
    qed
    then show ?thesis using None by (simp add: draw_anchor_boundary_def Let_def)
  next
    case (Some p)
    obtain lo hi where p: "p = (lo, hi)" by force
    have hi: "word_checked_sub ?r i = Some hi" "lo \<le> hi"
      using Some p by (auto simp: candidate_boundary_bounds_def Let_def bind_eq_Some_conv split: if_splits)
    have hr: "unat ?r = unat hi + unat i" using word_checked_sub_Some [OF hi(1)] by (simp add: word_le_nat_alt)
    have "unat i dvd unat hi" using rb hr by (simp add: is_boundary_dvd)
    then have "is_boundary i hi" by (simp add: is_boundary_dvd)
    then have cand: "candidate_anchor i nu63 funding tip hi"
      using candidate_bounds_iff [OF i] Some p hi(2) by blast
    note sample = drawn_is_candidate [OF i Some [unfolded p]]
    have eq: "draw_anchor_boundary i nu63 funding tip rng =
        map_option (apfst Some) (sample_recency_weighted_boundary i lo hi ?r rng)"
      using Some p by (simp add: draw_anchor_boundary_def Let_def block_height_from_u32_def)
    have ret: "draw_anchor_boundary i nu63 funding tip rng \<noteq> None" if "bit (rng !! n) 0 \<and> (\<forall>m<n. rng !! m \<noteq> 0)"
      unfolding eq using that sample_boundary_returns [OF hi, of rng n] by simp
    have "draw_anchor_boundary i nu63 funding tip rng \<noteq> Some (None, rng)" unfolding eq by auto
    moreover have "candidate_anchor i nu63 funding tip b \<and> (\<exists>a\<in>{1..4}. unat ?r = unat b + a * unat i)"
      if "draw_anchor_boundary i nu63 funding tip rng = Some (Some b, rng')"
      using that sample unfolding eq by auto
    ultimately show ?thesis using ret cand by blast
  qed
qed

theorem draw_anchor_boundary_sound_witness:
  "candidate_anchor 144 100 200 1000 720 \<and> draw_anchor_boundary 144 100 200 1000 (sconst 1) = Some (Some 720, sconst 1)"
proof -
  have age: "draw_anchor_age (sconst 1) = Some (1, sconst 1)" using draw_age_odd [of "sconst 1"] by simp
  have "draw_anchor_boundary 144 100 200 1000 (sconst 1) = Some (Some 720, sconst 1)"
    unfolding draw_anchor_boundary_def candidate_boundary_bounds_def
    by (simp add: boundary_at_or_below_def block_height_from_u32_def word_checked_sub_def lowest_candidate_boundary_def
      boundary_at_or_above_def word_saturating_add_def Let_def)
      (subst sample_recency_weighted_boundary.simps,
       simp add: age ANCHOR_AGE_CAP_def word_checked_mul_def word_checked_sub_def)
  then show ?thesis using draw_anchor_boundary_sound [of 144 100 200 1000 "sconst 1" 720 "sconst 1" 0] by simp
qed

lemma boundary_above_ge:
  assumes "i \<noteq> 0"
  shows "h \<le> boundary_at_or_above i h"
proof -
  have "unat h < (unat h div unat i + 1) * unat i"
    using dividend_less_div_times [of "unat i" "unat h"] assms by (simp add: unat_gt_0)
  moreover have "unat h \<le> 2 ^ 32 - 1" using unsigned_less [of h, where ?'a = nat] by simp
  ultimately have "unat h \<le> min ((unat h div unat i + 1) * unat i) (2 ^ 32 - 1)" by linarith
  then show ?thesis unfolding word_le_nat_alt unat_boundary_above [OF assms]
    by (cases "unat i dvd unat h") (simp_all only: if_True if_False order_refl)
qed

text \<open>The replacement of an anchor is never below the anchor it replaces.\<close>

lemma redraw_anchor_boundary_sound:
  assumes i: "i \<noteq> 0" and d: "redraw_anchor_boundary i prior height rng = Some (Some b, rng')"
  shows "is_boundary i b \<and> prior \<le> b \<and> b < boundary_at_or_below i height"
proof -
  let ?r = "boundary_at_or_below i height"
  from d obtain hi where hi: "word_checked_sub ?r i = Some hi"
      "sample_recency_weighted_boundary i (boundary_at_or_above i prior) hi ?r rng = Some (b, rng')"
    by (auto simp: redraw_anchor_boundary_def Let_def block_height_from_u32_def apfst_def split: option.splits if_splits)
  from sample_boundary_sound [OF hi(2)] obtain a where a: "boundary_at_or_above i prior \<le> b" "b \<le> hi"
      "unat ?r = unat b + a * unat i" by auto
  have "unat i dvd unat ?r" by (simp add: unat_boundary_below)
  then have b: "is_boundary i b" using multiple_minus_dvd [OF _ a(3)] by (simp add: is_boundary_dvd)
  moreover have "b < ?r" using le_highest_iff [OF i b] hi(1) a(2) by blast
  moreover have "prior \<le> boundary_at_or_above i prior" using i by (rule boundary_above_ge)
  ultimately show ?thesis using a(1) by simp
qed

section \<open>Broadcast heights\<close>

text \<open>Heights that never decrease, none further than a bound from the one before.\<close>

primrec spaced :: "u32 \<Rightarrow> BlockHeight \<Rightarrow> BlockHeight list \<Rightarrow> bool" where
  "spaced bound prev [] \<longleftrightarrow> True"
| "spaced bound prev (h # hs) \<longleftrightarrow> prev \<le> h \<and> unat h \<le> unat prev + unat bound \<and> spaced bound h hs"

text \<open>What the cumulative heights need of a source of delays.\<close>

locale delay_source =
  fixes draw :: "rng \<Rightarrow> (u32 \<times> rng) option" and bound :: u32
  assumes draw_le: "draw rng = Some (d, rng') \<Longrightarrow> d \<le> bound"
begin

lemma heights_spaced:
  "cumulative_broadcast_heights draw start n rng = Some (hs, rng') \<Longrightarrow> length hs = n \<and> spaced bound start hs"
proof (induction n arbitrary: start rng hs)
  case (Suc n)
  then obtain d r hs' where h: "draw rng = Some (d, r)"
      "cumulative_broadcast_heights draw (block_height_add start d) n r = Some (hs', rng')"
      "hs = block_height_add start d # hs'"
    by (auto simp: bind_eq_Some_conv Let_def)
  have u: "unat (block_height_add start d) = min (unat start + unat d) (2 ^ 32 - 1)"
    by (simp add: block_height_add_def unat_saturating_add)
  have "unat start \<le> 2 ^ 32 - 1" using unsigned_less [of start, where ?'a = nat] by simp
  moreover have "unat d \<le> unat bound" using draw_le [OF h(1)] by (simp add: word_le_nat_alt)
  ultimately have "start \<le> block_height_add start d \<and> unat (block_height_add start d) \<le> unat start + unat bound"
    unfolding word_le_nat_alt u by linarith
  then show ?case using Suc.IH [OF h(2)] h(3) by simp
qed simp

end

lemma delay_draw_le:
  assumes "delay_draw delay_of d rng = Some r"
  shows "fst r \<le> cap d"
  by (rule delay_draw.raw_induct [where P = "\<lambda>delay_of d rng r. fst r \<le> cap d", OF _ assms])
    (auto simp: Let_def split: if_splits)

interpretation delay: delay_source "delay_draw delay_of d" "cap d" for delay_of d
  by unfold_locales (use delay_draw_le in fastforce)

text \<open>
  The schedule: one entry for each part, with heights that never decrease from the commit height on,
  no two successive ones further apart than the cap of the transfer delay, and each with the
  canonical expiry of its height. This holds for every generator and every logarithm.
\<close>

theorem schedule_spaced:
  assumes "schedule delay_of params commit_height n rng = Some (parts, rng')"
  shows "length parts = n \<and>
    spaced (cap (transfer_delay params)) commit_height (map broadcast_height parts) \<and>
    map schedule_expiry_height parts = map expiry_height (map broadcast_height parts)"
proof -
  from assms obtain hs where hs: "cumulative_broadcast_heights (delay_draw delay_of (transfer_delay params)) commit_height n rng = Some (hs, rng')"
      "parts = map (\<lambda>h. \<lparr>broadcast_height = h, schedule_expiry_height = expiry_height h\<rparr>) hs"
    by (auto simp: schedule_def schedule_broadcast_heights_def apfst_def)
  from delay.heights_spaced [OF hs(1)] show ?thesis unfolding hs(2) by (simp add: comp_def)
qed

theorem schedule_spaced_witness:
  "\<exists>parts. schedule (\<lambda>m v. 5) scheduling_zip_318 1000 2 (sconst 0) = Some (parts, sconst 0) \<and>
     map broadcast_height parts = [1005, 1010] \<and> length parts = 2"
proof -
  have "delay_draw (\<lambda>m v. 5) (transfer_delay scheduling_zip_318) (sconst 0) = Some (5, sconst 0)"
    by (subst delay_draw.simps) (simp add: scheduling_zip_318_def)
  then have s: "schedule (\<lambda>m v. 5) scheduling_zip_318 1000 2 (sconst 0) =
      Some (map (\<lambda>h. \<lparr>broadcast_height = h, schedule_expiry_height = expiry_height h\<rparr>) [1005, 1010], sconst 0)"
    unfolding schedule_def schedule_broadcast_heights_def numeral_2_eq_2
    by (simp add: block_height_add_def word_saturating_add_def)
  have "length (map (\<lambda>h. \<lparr>broadcast_height = h, schedule_expiry_height = expiry_height h\<rparr>) [1005, 1010]) = 2"
    by (rule schedule_spaced [OF s, THEN conjunct1])
  with s show ?thesis by (intro exI conjI) (assumption, simp_all)
qed

text \<open>
  Scaling the parameters to an interval keeps them usable: no delay is zero, no cap is below its mean,
  and the interval of ZIP 318 gives its parameters back.
\<close>

theorem scaled_parameters_valid:
  "new_with_default_distributions anchor_interval_zip_318 = scheduling_zip_318 \<and>
   (\<forall>d\<in>{transfer_delay (new_with_default_distributions i), preparation_delay (new_with_default_distributions i)}.
      mean d \<noteq> 0 \<and> delay_distribution_new (mean d) (cap d) = Some d)"
proof -
  have u: "unat (scale_delay i v) = max 1 (min (unat v * unat i div 144) 4294967295)" for v
  proof -
    let ?x = "unat v * unat i div 144"
    have c: "unat anchor_interval_zip_318 = 144" by (simp add: anchor_interval_zip_318_def)
    have m: "unat (- 1 :: u32) = 4294967295" by (simp add: unat_minus_one)
    have s: "scale_delay i v = (if ?x < 4294967296 then if ?x = 0 then 1 else of_nat ?x else - 1)"
      unfolding scale_delay_def Let_def c by (rule refl)
    have "unat (of_nat ?x :: u32) = ?x" if "?x < 4294967296"
      unfolding unat_of_nat using that by simp
    then show ?thesis unfolding s using m by (cases "?x < 4294967296"; cases "?x = 0") auto
  qed
  have nz: "scale_delay i v \<noteq> 0" for v
    using u [of v] by (metis less_numeral_extra(3) less_one max.strict_coboundedI1 unsigned_0)
  have mono: "scale_delay i v \<le> scale_delay i w" if "v \<le> w" for v w
  proof -
    have "unat v * unat i div 144 \<le> unat w * unat i div 144"
      using that by (intro div_le_mono mult_le_mono1) (simp add: word_le_nat_alt)
    then show ?thesis unfolding word_le_nat_alt u by linarith
  qed
  have "new_with_default_distributions anchor_interval_zip_318 = scheduling_zip_318"
    by (simp add: new_with_default_distributions_def scheduling_zip_318_def scale_delay_def anchor_interval_zip_318_def)
  moreover have "\<not> scale_delay i 576 < scale_delay i 66" "\<not> scale_delay i 96 < scale_delay i 16"
    using mono [of 66 576] mono [of 16 96] by simp_all
  ultimately show ?thesis using nz by (simp add: new_with_default_distributions_def delay_distribution_new_def)
qed

end
