(* ===== verification/Wakeups.thy ===== *)
theory Wakeups
  imports RandomDraws "HOL-Library.Product_Lexorder"
begin

text \<open>
  Model of the sync wake-ups of \<open>zcash_pool_migration/src/scheduling.rs\<close>: the proving windows of
  the transfers, the greedy grouping, and the jittered schedule, with the proof that it is the
  smallest schedule that proves every transfer in time.
\<close>

section \<open>The schedule\<close>

definition PROVABLE_ANCHOR_DEPTH :: u32 where
  "PROVABLE_ANCHOR_DEPTH = 10"

record WakeupParams =
  settle_margin :: u32
  jitter_cap :: u32

definition wakeup_default :: WakeupParams where
  "wakeup_default = \<lparr>settle_margin = PROVABLE_ANCHOR_DEPTH, jitter_cap = 12\<rparr>"

record 'i SyncWakeup =
  wakeup_height :: BlockHeight
  covers :: "'i list"

datatype 'i WakeupScheduleError = InfeasibleTransfer 'i

text \<open>A window is a deadline, the height from which on the proof is ready, and the transfer.\<close>

type_synonym 'i window = "u32 \<times> u32 \<times> 'i"

fun assemble_windows ::
    "u32 \<Rightarrow> u32 \<Rightarrow> 'i list \<Rightarrow> 'i window list \<Rightarrow> ('i \<times> BlockHeight \<times> BlockHeight) list
     \<Rightarrow> 'i WakeupScheduleError + 'i list \<times> 'i window list" where
  "assemble_windows tip margin overdue windows [] = Inr (overdue, windows)"
| "assemble_windows tip margin overdue windows ((i, a, b) # rest) =
     (if b \<le> word_saturating_add a 1 then Inl (InfeasibleTransfer i)
      else
        let deadline = b - 1;
            ready = max (min (word_saturating_add a margin) deadline) tip
        in if deadline < tip then assemble_windows tip margin (overdue @ [i]) windows rest
           else assemble_windows tip margin overdue (windows @ [(deadline, ready, i)]) rest)"

definition fold_overdue :: "u32 \<Rightarrow> 'i list \<Rightarrow> 'i window list \<Rightarrow> 'i list \<times> 'i window list" where
  "fold_overdue tip overdue windows =
     (if overdue = [] then (overdue, windows)
      else (overdue @ map (\<lambda>(d, r, i). i) (filter (\<lambda>(d, r, i). r = tip) windows),
            filter (\<lambda>(d, r, i). r \<noteq> tip) windows))"

record 'i Group =
  first_deadline :: u32
  max_ready :: u32
  group_covers :: "'i list"

fun group_windows :: "'i Group list \<Rightarrow> 'i window list \<Rightarrow> 'i Group list" where
  "group_windows groups [] = groups"
| "group_windows groups ((deadline, ready, i) # rest) =
     (if groups \<noteq> [] \<and> ready \<le> first_deadline (last groups)
      then group_windows
        (butlast groups @
          [(last groups)\<lparr>max_ready := max (max_ready (last groups)) ready,
            group_covers := group_covers (last groups) @ [i]\<rparr>]) rest
      else group_windows (groups @ [\<lparr>first_deadline = deadline, max_ready = ready, group_covers = [i]\<rparr>]) rest)"

definition draw_jitter :: "u32 \<Rightarrow> rng \<Rightarrow> (u32 \<times> rng) option" where
  "draw_jitter bound rng =
     (if bound = 0 then Some (0, rng) else map_option (apfst of_nat) (gen_index (unat bound + 1) rng))"

primrec wakeups_of_groups :: "u32 \<Rightarrow> 'i Group list \<Rightarrow> rng \<Rightarrow> ('i SyncWakeup list \<times> rng) option" where
  "wakeups_of_groups jcap [] rng = Some ([], rng)"
| "wakeups_of_groups jcap (g # gs) rng =
     (let slack = first_deadline g - max_ready g; bound = min jcap slack in
      Option.bind (draw_jitter bound rng) (\<lambda>(jitter, rng').
        map_option (apfst ((#) \<lparr>wakeup_height = max_ready g + jitter, covers = group_covers g\<rparr>))
          (wakeups_of_groups jcap gs rng')))"

definition schedule_sync_wakeups ::
    "WakeupParams \<Rightarrow> BlockHeight \<Rightarrow> ('i \<times> BlockHeight \<times> BlockHeight) list \<Rightarrow> rng
     \<Rightarrow> (('i WakeupScheduleError + 'i SyncWakeup list) \<times> rng) option" where
  "schedule_sync_wakeups params current_tip transfers rng =
     (let tip = current_tip; margin = max (settle_margin params) 1 in
      case assemble_windows tip margin [] [] transfers of
        Inl e \<Rightarrow> Some (Inl e, rng)
      | Inr (overdue, windows) \<Rightarrow>
          let (overdue, windows) = fold_overdue tip overdue (sort_key (\<lambda>(d, r, i). (d, r)) windows);
              groups = group_windows [] windows;
              immediate = (if overdue = [] then [] else [\<lparr>wakeup_height = tip, covers = overdue\<rparr>])
          in map_option (apfst (\<lambda>ws. Inr (immediate @ ws))) (wakeups_of_groups (jitter_cap params) groups rng))"

section \<open>Grouping\<close>

text \<open>
  What grouping keeps, of the windows \<open>W\<close> seen so far: each group has a window that opened it and
  was not reached by the deadlines before, so these windows are disjoint; and the windows of the
  transfers a group covers all contain every height from its ready height to its first deadline.
\<close>

definition opened :: "'i window set \<Rightarrow> 'i Group \<Rightarrow> 'i window \<Rightarrow> bool" where
  "opened W g w \<longleftrightarrow> w \<in> W \<and> first_deadline g = fst w \<and> fst (snd w) \<le> max_ready g"

definition before :: "'i window \<Rightarrow> 'i window \<Rightarrow> bool" where
  "before v w \<longleftrightarrow> fst v < fst (snd w)"

definition group_ok :: "'i window set \<Rightarrow> 'i Group \<Rightarrow> bool" where
  "group_ok W g \<longleftrightarrow> max_ready g \<le> first_deadline g \<and>
     (\<exists>d r i. (d, r, i) \<in> W \<and> max_ready g = r) \<and>
     (\<forall>i\<in>set (group_covers g). \<exists>d r. (d, r, i) \<in> W \<and> r \<le> max_ready g \<and> first_deadline g \<le> d)"

definition groups_inv :: "'i window set \<Rightarrow> 'i Group list \<Rightarrow> bool" where
  "groups_inv W gs \<longleftrightarrow> (\<forall>g\<in>set gs. group_ok W g) \<and>
     (\<exists>os. list_all2 (opened W) gs os \<and> sorted_wrt before os)"

lemma opened_mono: "opened W g w \<Longrightarrow> W \<subseteq> V \<Longrightarrow> opened V g w"
  by (auto simp: opened_def)

lemma group_ok_mono: "group_ok W g \<Longrightarrow> W \<subseteq> V \<Longrightarrow> group_ok V g"
  unfolding group_ok_def by blast

lemma groups_inv_join:
  assumes inv: "groups_inv W (gs @ [g])" and w: "r \<le> d" "r \<le> first_deadline g" "first_deadline g \<le> d"
  shows "groups_inv (insert (d, r, i) W)
    (gs @ [g\<lparr>max_ready := max (max_ready g) r, group_covers := group_covers g @ [i]\<rparr>])"
proof -
  let ?W = "insert (d, r, i) W" and ?g = "g\<lparr>max_ready := max (max_ready g) r, group_covers := group_covers g @ [i]\<rparr>"
  have sub: "W \<subseteq> ?W" by blast
  from inv obtain os where os: "list_all2 (opened W) (gs @ [g]) os" "sorted_wrt before os"
    by (auto simp: groups_inv_def)
  then obtain os0 o1 where o: "os = os0 @ [o1]" "list_all2 (opened W) gs os0" "opened W g o1"
    by (auto simp: list_all2_append1 list_all2_Cons1)
  have "list_all2 (opened ?W) gs os0" using o(2) opened_mono [OF _ sub] by (rule list_all2_mono)
  moreover have "opened ?W ?g o1" using o(3) by (auto simp: opened_def max_def)
  ultimately have "list_all2 (opened ?W) (gs @ [?g]) os" unfolding o(1) by (intro list_all2_appendI) auto
  moreover have g: "group_ok W g" "\<forall>h\<in>set gs. group_ok W h" using inv by (auto simp: groups_inv_def)
  have "group_ok ?W ?g"
    unfolding group_ok_def
  proof (intro conjI ballI)
    show "max_ready ?g \<le> first_deadline ?g" using g(1) w(2) by (simp add: group_ok_def)
    show "\<exists>d r i. (d, r, i) \<in> ?W \<and> max_ready ?g = r"
      using g(1) by (cases "max_ready g \<le> r") (auto simp: group_ok_def max_def)
    fix j assume "j \<in> set (group_covers ?g)"
    then consider "j = i" | "j \<in> set (group_covers g)" by auto
    then show "\<exists>d r. (d, r, j) \<in> ?W \<and> r \<le> max_ready ?g \<and> first_deadline ?g \<le> d"
    proof cases
      case 1
      then show ?thesis using w(3) by (intro exI [of _ d] exI [of _ r]) simp
    next
      case 2
      then obtain d' r' where "(d', r', j) \<in> W" "r' \<le> max_ready g" "first_deadline g \<le> d'"
        using g(1) unfolding group_ok_def by blast
      then show ?thesis by (intro exI [of _ d'] exI [of _ r']) (simp add: max.coboundedI1)
    qed
  qed
  then have "\<forall>h\<in>set (gs @ [?g]). group_ok ?W h" using g(2) group_ok_mono [OF _ sub] by auto
  ultimately show ?thesis using os(2) unfolding groups_inv_def by blast
qed

lemma groups_inv_open:
  assumes inv: "groups_inv W gs" and w: "r \<le> d" "\<forall>g\<in>set gs. first_deadline g < r"
  shows "groups_inv (insert (d, r, i) W) (gs @ [\<lparr>first_deadline = d, max_ready = r, group_covers = [i]\<rparr>])"
proof -
  let ?W = "insert (d, r, i) W" and ?g = "\<lparr>first_deadline = d, max_ready = r, group_covers = [i]\<rparr>"
  have sub: "W \<subseteq> ?W" by blast
  from inv obtain os where os: "list_all2 (opened W) gs os" "sorted_wrt before os"
    by (auto simp: groups_inv_def)
  have "list_all2 (opened ?W) gs os" using os(1) opened_mono [OF _ sub] by (rule list_all2_mono)
  then have "list_all2 (opened ?W) (gs @ [?g]) (os @ [(d, r, i)])"
    by (intro list_all2_appendI) (auto simp: opened_def)
  moreover have "before w (d, r, i)" if "w \<in> set os" for w
  proof -
    from that os(1) obtain g where "g \<in> set gs" "opened W g w"
      by (metis in_set_conv_nth list_all2_conv_all_nth)
    with w(2) show ?thesis by (auto simp: opened_def before_def)
  qed
  then have "sorted_wrt before (os @ [(d, r, i)])"
    using os(2) by (auto simp: sorted_wrt_append)
  moreover have "group_ok ?W ?g" using w(1) by (auto simp: group_ok_def)
  then have "\<forall>h\<in>set (gs @ [?g]). group_ok ?W h"
    using inv group_ok_mono [OF _ sub] by (auto simp: groups_inv_def)
  ultimately show ?thesis unfolding groups_inv_def by blast
qed

lemma groups_inv_sorted:
  assumes "groups_inv W gs"
  shows "sorted_wrt (\<lambda>g h. first_deadline g < max_ready h) gs"
proof -
  from assms obtain os where os: "list_all2 (opened W) gs os" "sorted_wrt before os"
    by (auto simp: groups_inv_def)
  show ?thesis unfolding sorted_wrt_iff_nth_less
  proof (intro allI impI)
    fix i j assume ij: "i < j" "j < length gs"
    have len: "length os = length gs" using os(1) by (simp add: list_all2_lengthD)
    have "before (os ! i) (os ! j)" using os(2) ij len by (simp add: sorted_wrt_iff_nth_less)
    moreover have "opened W (gs ! i) (os ! i)" "opened W (gs ! j) (os ! j)"
      using os(1) ij by (simp_all add: list_all2_nthD)
    ultimately show "first_deadline (gs ! i) < max_ready (gs ! j)"
      by (auto simp: opened_def before_def intro: less_le_trans)
  qed
qed

lemma group_windows_inv:
  "groups_inv W gs \<Longrightarrow> sorted (map fst ws) \<Longrightarrow> \<forall>w\<in>W. \<forall>v\<in>set ws. fst w \<le> fst v \<Longrightarrow>
   \<forall>(d, r, i)\<in>set ws. r \<le> d \<Longrightarrow> groups_inv (W \<union> set ws) (group_windows gs ws)"
proof (induction ws arbitrary: gs W)
  case (Cons w ws)
  obtain d r i where w: "w = (d, r, i)" by (metis prod_cases3)
  have rd: "r \<le> d" using Cons.prems(4) w by simp
  have next_inv: "groups_inv (W \<union> set (w # ws)) (group_windows gs' ws)" if "groups_inv (insert w W) gs'" for gs'
  proof -
    have "groups_inv (insert w W \<union> set ws) (group_windows gs' ws)"
      by (rule Cons.IH [OF that]) (use Cons.prems(2-4) in auto)
    then show ?thesis by simp
  qed
  have fd: "first_deadline g \<le> d" if "g \<in> set gs" for g
  proof -
    from Cons.prems(1) obtain os where "list_all2 (opened W) gs os" by (auto simp: groups_inv_def)
    with that obtain v where "opened W g v" by (metis in_set_conv_nth list_all2_conv_all_nth)
    then show ?thesis using Cons.prems(3) w by (auto simp: opened_def)
  qed
  show ?case
  proof (cases "gs \<noteq> [] \<and> r \<le> first_deadline (last gs)")
    case True
    then have gs: "gs = butlast gs @ [last gs]" by simp
    have "groups_inv (insert w W) (butlast gs @ [(last gs)\<lparr>max_ready := max (max_ready (last gs)) r,
        group_covers := group_covers (last gs) @ [i]\<rparr>])"
      unfolding w by (rule groups_inv_join) (use Cons.prems(1) gs rd True fd in auto)
    from next_inv [OF this] True show ?thesis by (simp add: w)
  next
    case False
    have "first_deadline g < r" if g: "g \<in> set gs" for g
    proof -
      have ne: "gs \<noteq> []" using g by auto
      then have last: "first_deadline (last gs) < r" using False by simp
      show ?thesis
      proof (cases "g = last gs")
        case True
        then show ?thesis using last by simp
      next
        case False
        then have "g \<in> set (butlast gs)" using g ne by (metis append_butlast_last_id in_set_butlast_appendI
              rotate1.simps(2) set_ConsD set_rotate1)
        moreover have "sorted_wrt (\<lambda>g h. first_deadline g < max_ready h) (butlast gs @ [last gs])"
          using groups_inv_sorted [OF Cons.prems(1)] ne by simp
        ultimately have "first_deadline g < max_ready (last gs)" by (auto simp: sorted_wrt_append)
        also have "\<dots> \<le> first_deadline (last gs)" using Cons.prems(1) ne by (auto simp: groups_inv_def group_ok_def)
        finally show ?thesis using last by simp
      qed
    qed
    then have "groups_inv (insert w W) (gs @ [\<lparr>first_deadline = d, max_ready = r, group_covers = [i]\<rparr>])"
      unfolding w using groups_inv_open [OF Cons.prems(1) rd] by blast
    from next_inv [OF this] False show ?thesis by (auto simp: w)
  qed
qed simp

lemma group_windows_covers:
  "concat (map group_covers (group_windows gs ws)) = concat (map group_covers gs) @ map (\<lambda>(d, r, i). i) ws"
proof (induction ws arbitrary: gs)
  case (Cons w ws)
  obtain d r i where w: "w = (d, r, i)" by (metis prod_cases3)
  have "concat (map group_covers gs) = concat (map group_covers (butlast gs)) @ group_covers (last gs)" if "gs \<noteq> []"
  proof -
    have "concat (map group_covers (butlast gs @ [last gs])) = concat (map group_covers (butlast gs)) @ group_covers (last gs)"
      by simp
    then show ?thesis using that by simp
  qed
  then show ?case using Cons.IH by (auto simp: w)
qed simp

text \<open>Every set of heights that meets all windows has as many heights as there are groups.\<close>

lemma groups_inv_lower_bound:
  assumes inv: "groups_inv W gs" and H: "finite H" "\<forall>(d, r, i)\<in>W. \<exists>h\<in>H. r \<le> h \<and> h \<le> d"
  shows "length gs \<le> card H"
proof -
  from inv obtain os where os: "list_all2 (opened W) gs os" "sorted_wrt before os"
    by (auto simp: groups_inv_def)
  have mem: "v \<in> W" if "v \<in> set os" for v
    using os(1) that by (metis opened_def in_set_conv_nth list_all2_conv_all_nth)
  define f where "f = (\<lambda>w :: 'a window. SOME h. h \<in> H \<and> fst (snd w) \<le> h \<and> h \<le> fst w)"
  have f: "f w \<in> H \<and> fst (snd w) \<le> f w \<and> f w \<le> fst w" if "w \<in> set os" for w
  proof -
    have "\<exists>h. h \<in> H \<and> fst (snd w) \<le> h \<and> h \<le> fst w" using H(2) mem [OF that] by (cases w) fastforce
    then show ?thesis unfolding f_def by (rule someI_ex)
  qed
  have "sorted_wrt (<) (map f os)" unfolding sorted_wrt_map
  proof (rule sorted_wrt_mono_rel [OF _ os(2)])
    fix v w assume vw: "v \<in> set os" "w \<in> set os" "before v w"
    then show "f v < f w" using f [OF vw(1)] f [OF vw(2)] by (auto simp: before_def)
  qed
  then have "distinct (map f os)" by (simp add: strict_sorted_iff)
  then have "length os = card (f ` set os)" by (metis distinct_card length_map set_map)
  also have "\<dots> \<le> card H" using f H(1) by (intro card_mono) auto
  finally show ?thesis using os(1) by (simp add: list_all2_lengthD)
qed

section \<open>Heights of the groups\<close>

lemma draw_jitter_le:
  assumes "draw_jitter bound rng = Some (j, rng')"
  shows "j \<le> bound"
proof (cases "bound = 0")
  case False
  with assms obtain n where n: "gen_index (unat bound + 1) rng = Some (n, rng')" "j = of_nat n"
    by (auto simp: draw_jitter_def)
  from gen_index_Some [OF n(1)] index_high_less [of "unat bound + 1"] have le: "n \<le> unat bound"
    by (force simp: less_Suc_eq_le)
  then have "n < 2 ^ 32" using unsigned_less [of bound, where ?'a = nat] by simp
  then have "unat (of_nat n :: u32) = n" by (simp add: unat_of_nat)
  then show ?thesis using le n(2) by (simp add: word_le_nat_alt)
qed (use assms in \<open>simp add: draw_jitter_def\<close>)

definition wakes :: "'i Group \<Rightarrow> 'i SyncWakeup \<Rightarrow> bool" where
  "wakes g w \<longleftrightarrow> covers w = group_covers g \<and> max_ready g \<le> wakeup_height w \<and> wakeup_height w \<le> first_deadline g"

lemma jittered_height:
  assumes "m \<le> (d :: u32)" "j \<le> min c (d - m)"
  shows "m \<le> m + j \<and> m + j \<le> d"
proof -
  have "j \<le> d - m" using assms(2) by simp
  then have "unat j \<le> unat (d - m)" by (simp add: word_le_nat_alt)
  also have "\<dots> = unat d - unat m" using assms(1) by (simp add: unat_sub word_le_nat_alt)
  finally have le: "unat m + unat j \<le> unat d" using assms(1) unfolding word_le_nat_alt by linarith
  then have "unat m + unat j < 2 ^ LENGTH(32)" using unsigned_less [of d, where ?'a = nat] by simp
  then have "unat (m + j) = unat m + unat j" by (simp only: unat_add_lem [symmetric])
  with le show ?thesis unfolding word_le_nat_alt by linarith
qed

lemma wakeups_of_groups_wakes:
  "wakeups_of_groups jcap gs rng = Some (ws, rng') \<Longrightarrow> \<forall>g\<in>set gs. max_ready g \<le> first_deadline g \<Longrightarrow>
   list_all2 wakes gs ws"
proof (induction gs arbitrary: ws rng)
  case (Cons g gs)
  then obtain j r ws' where w: "draw_jitter (min jcap (first_deadline g - max_ready g)) rng = Some (j, r)"
      "wakeups_of_groups jcap gs r = Some (ws', rng')"
      "ws = \<lparr>wakeup_height = max_ready g + j, covers = group_covers g\<rparr> # ws'"
    by (auto simp: bind_eq_Some_conv Let_def)
  have "max_ready g \<le> max_ready g + j \<and> max_ready g + j \<le> first_deadline g"
    by (rule jittered_height [OF _ draw_jitter_le [OF w(1)]]) (use Cons.prems(2) in simp)
  then show ?case using Cons.IH [OF w(2)] Cons.prems(2) w(3) by (simp add: wakes_def)
qed simp

lemma wakes_sorted:
  assumes "list_all2 wakes gs ws" "sorted_wrt (\<lambda>g h. first_deadline g < max_ready h) gs"
  shows "sorted_wrt (<) (map wakeup_height ws)"
  unfolding sorted_wrt_map sorted_wrt_iff_nth_less [of _ ws]
proof (intro allI impI)
  fix i j assume ij: "i < j" "j < length ws"
  have len: "length gs = length ws" using assms(1) by (rule list_all2_lengthD)
  have "wakes (gs ! i) (ws ! i)" "wakes (gs ! j) (ws ! j)" using assms(1) ij len by (simp_all add: list_all2_nthD)
  moreover have "first_deadline (gs ! i) < max_ready (gs ! j)" using assms(2) ij len by (simp add: sorted_wrt_iff_nth_less)
  ultimately show "wakeup_height (ws ! i) < wakeup_height (ws ! j)" by (auto simp: wakes_def)
qed

lemma wakes_covers: "list_all2 wakes gs ws \<Longrightarrow> map covers ws = map group_covers gs"
  by (induction rule: list_all2_induct) (simp_all add: wakes_def)

section \<open>Windows of the transfers\<close>

text \<open>When a transfer can be proved: behind its settled anchor and before its broadcast, or now if it is overdue.\<close>

fun infeasible :: "'i \<times> BlockHeight \<times> BlockHeight \<Rightarrow> bool" where
  "infeasible (i, a, b) \<longleftrightarrow> unat b \<le> unat a + 1"

fun proves :: "u32 \<Rightarrow> BlockHeight \<Rightarrow> 'i \<times> BlockHeight \<times> BlockHeight \<Rightarrow> BlockHeight \<Rightarrow> bool" where
  "proves margin tip (i, a, b) h \<longleftrightarrow>
     (if b \<le> tip then h = tip
      else tip \<le> h \<and> a < h \<and> h < b \<and> (unat a + unat margin \<le> unat h \<or> unat b = unat h + 1))"

fun window_of :: "u32 \<Rightarrow> BlockHeight \<Rightarrow> 'i \<times> BlockHeight \<times> BlockHeight \<Rightarrow> 'i window" where
  "window_of margin tip (i, a, b) = (b - 1, max (min (word_saturating_add a margin) (b - 1)) tip, i)"

definition overdue_transfer :: "BlockHeight \<Rightarrow> 'i \<times> BlockHeight \<times> BlockHeight \<Rightarrow> bool" where
  "overdue_transfer tip t \<longleftrightarrow> snd (snd t) \<le> tip"

lemma infeasible_iff: "b \<le> word_saturating_add a 1 \<longleftrightarrow> infeasible (i, a, b)"
proof -
  have "unat b \<le> 2 ^ 32 - 1" using unsigned_less [of b, where ?'a = nat] by simp
  then show ?thesis unfolding infeasible.simps word_le_nat_alt unat_saturating_add by simp linarith
qed

lemma deadline_nat: "\<not> infeasible (i, a, b) \<Longrightarrow> unat (b - 1) = unat b - 1"
  by (subst unat_sub) (simp_all add: word_le_nat_alt)

lemma overdue_iff: "\<not> infeasible (i, a, b) \<Longrightarrow> b - 1 < tip \<longleftrightarrow> overdue_transfer tip (i, a, b)"
  unfolding overdue_transfer_def word_less_nat_alt word_le_nat_alt by (simp add: deadline_nat) linarith

lemma assemble_windows_eq:
  "\<forall>t\<in>set ts. \<not> infeasible t \<Longrightarrow>
   assemble_windows tip margin ov ws ts =
     Inr (ov @ map fst (filter (overdue_transfer tip) ts),
          ws @ map (window_of margin tip) (filter (\<lambda>t. \<not> overdue_transfer tip t) ts))"
proof (induction ts arbitrary: ov ws)
  case (Cons t ts)
  obtain i a b where t: "t = (i, a, b)" by (metis prod_cases3)
  have f: "\<not> infeasible (i, a, b)" using Cons.prems t by simp
  show ?case using Cons.IH Cons.prems f overdue_iff [OF f, of tip] infeasible_iff [of b a i]
    by (simp add: t Let_def)
qed simp

lemma window_proves:
  assumes "\<not> infeasible t" "\<not> overdue_transfer tip t" "1 \<le> margin" "window_of margin tip t = (d, r, j)"
  shows "r \<le> d \<and> tip \<le> r \<and> j = fst t \<and> (\<forall>h. proves margin tip t h \<longleftrightarrow> r \<le> h \<and> h \<le> d)"
proof -
  obtain i a b where t: "t = (i, a, b)" by (metis prod_cases3)
  let ?s = "word_saturating_add a margin"
  have d: "d = b - 1" "r = max (min ?s d) tip" "j = i" using assms(4) t by auto
  have dn: "unat d = unat b - 1" using deadline_nat [of i a b] assms(1) unfolding t d(1) by simp
  have b: "unat a + 1 < unat b" using assms(1) t by simp
  have tip: "unat tip < unat b" using assms(2) unfolding t overdue_transfer_def word_le_nat_alt by simp
  have m: "1 \<le> unat margin" using assms(3) by (simp add: word_le_nat_alt)
  have bm: "unat b \<le> 2 ^ 32 - 1" using unsigned_less [of b, where ?'a = nat] by simp
  have s: "min (unat ?s) (unat d) = min (unat a + unat margin) (unat b - 1)"
    unfolding dn unat_saturating_add using bm by simp
  have r: "unat r = max (min (unat a + unat margin) (unat b - 1)) (unat tip)"
    unfolding d(2) by (simp only: max_def min_def word_le_nat_alt if_distrib [of unat]) (use s in \<open>simp add: min_def\<close>)
  have nb: "\<not> unat b \<le> unat tip" using tip by simp
  have "proves margin tip t h \<longleftrightarrow> r \<le> h \<and> h \<le> d" for h
    unfolding t proves.simps word_le_nat_alt word_less_nat_alt r dn if_not_P [OF nb] using b tip m by linarith
  moreover have "r \<le> d" "tip \<le> r" unfolding word_le_nat_alt r dn using tip by linarith+
  ultimately show ?thesis using d(3) t by simp
qed

section \<open>The properties\<close>

lemma fold_overdue_ids:
  "mset (fst (fold_overdue tip ov ws)) + mset (map (\<lambda>(d, r, i). i) (snd (fold_overdue tip ov ws))) =
   mset ov + mset (map (\<lambda>(d, r, i). i) ws)"
proof -
  have "image_mset f (filter_mset P (mset ws)) + image_mset f (filter_mset (\<lambda>x. \<not> P x) (mset ws)) = image_mset f (mset ws)"
    for P and f :: "'a window \<Rightarrow> 'a"
    by (simp flip: image_mset_union)
  from this [of "\<lambda>(d, r, i). i" "\<lambda>(d, r, i). r = tip"] show ?thesis
    by (simp add: fold_overdue_def case_prod_unfold add.assoc)
qed

lemma sorted_windows_sorted: "sorted (map fst (sort_key (\<lambda>(d, r, i). (d, r)) ws)) "
proof -
  let ?ws = "sort_key (\<lambda>(d, r, i). (d, r)) ws"
  have "sorted (map (\<lambda>(d, r, i). (d, r)) ?ws)" by (rule sorted_sort_key)
  then show ?thesis unfolding sorted_map
    by (rule sorted_wrt_mono_rel [rotated]) auto
qed

text \<open>What the grouping of sorted windows and the jitter give.\<close>

lemma grouped_wakeups:
  assumes vs: "sorted (map fst vs)" "\<forall>(d, r, i)\<in>set vs. r \<le> d"
    and run: "wakeups_of_groups jcap (group_windows [] vs) rng = Some (ws, rng')"
  shows "sorted_wrt (<) (map wakeup_height ws)"
    and "concat (map covers ws) = map (\<lambda>(d, r, i). i) vs"
    and "\<forall>w\<in>set ws. \<exists>(d, r, i)\<in>set vs. r \<le> wakeup_height w"
    and "\<forall>w\<in>set ws. \<forall>i\<in>set (covers w). \<exists>d r. (d, r, i) \<in> set vs \<and> r \<le> wakeup_height w \<and> wakeup_height w \<le> d"
    and "finite H \<Longrightarrow> \<forall>(d, r, i)\<in>set vs. \<exists>h\<in>H. r \<le> h \<and> h \<le> d \<Longrightarrow> length ws \<le> card H"
proof -
  let ?gs = "group_windows [] vs"
  have "groups_inv ({} \<union> set vs) ?gs"
    by (rule group_windows_inv) (use vs in \<open>auto simp: groups_inv_def\<close>)
  then have inv: "groups_inv (set vs) ?gs" by simp
  then have ok: "\<forall>g\<in>set ?gs. group_ok (set vs) g" by (simp add: groups_inv_def)
  have wk: "list_all2 wakes ?gs ws"
    by (rule wakeups_of_groups_wakes [OF run]) (use ok in \<open>simp add: group_ok_def\<close>)
  have from_group: "\<exists>g\<in>set ?gs. wakes g w" if "w \<in> set ws" for w
    using that wk by (metis in_set_conv_nth list_all2_conv_all_nth)
  show "sorted_wrt (<) (map wakeup_height ws)" by (rule wakes_sorted [OF wk groups_inv_sorted [OF inv]])
  show "concat (map covers ws) = map (\<lambda>(d, r, i). i) vs"
    using wakes_covers [OF wk] group_windows_covers [of "[]" vs] by simp
  show "\<forall>w\<in>set ws. \<exists>(d, r, i)\<in>set vs. r \<le> wakeup_height w"
  proof
    fix w assume "w \<in> set ws"
    then obtain g where "g \<in> set ?gs" "wakes g w" using from_group by blast
    with ok show "\<exists>(d, r, i)\<in>set vs. r \<le> wakeup_height w" unfolding group_ok_def wakes_def by fastforce
  qed
  show "\<forall>w\<in>set ws. \<forall>i\<in>set (covers w). \<exists>d r. (d, r, i) \<in> set vs \<and> r \<le> wakeup_height w \<and> wakeup_height w \<le> d"
  proof (intro ballI)
    fix w i assume w: "w \<in> set ws" and i: "i \<in> set (covers w)"
    obtain g where g: "g \<in> set ?gs" "wakes g w" using from_group [OF w] by blast
    then obtain d r where "(d, r, i) \<in> set vs" "r \<le> max_ready g" "first_deadline g \<le> d"
      using ok i unfolding group_ok_def wakes_def by metis
    with g(2) show "\<exists>d r. (d, r, i) \<in> set vs \<and> r \<le> wakeup_height w \<and> wakeup_height w \<le> d"
      unfolding wakes_def by (meson order_trans)
  qed
  show "length ws \<le> card H" if "finite H" "\<forall>(d, r, i)\<in>set vs. \<exists>h\<in>H. r \<le> h \<and> h \<le> d"
    using groups_inv_lower_bound [OF inv that] wk by (simp add: list_all2_lengthD)
qed

definition transfer_windows ::
    "u32 \<Rightarrow> BlockHeight \<Rightarrow> ('i \<times> BlockHeight \<times> BlockHeight) list \<Rightarrow> 'i window list" where
  "transfer_windows margin tip transfers =
     sort_key (\<lambda>(d, r, i). (d, r)) (map (window_of margin tip) (filter (\<lambda>t. \<not> overdue_transfer tip t) transfers))"

lemma transfer_window_proves:
  assumes "\<forall>t\<in>set transfers. \<not> infeasible t" "1 \<le> margin" "(d, r, i) \<in> set (transfer_windows margin tip transfers)"
  shows "r \<le> d \<and> tip \<le> r \<and> (\<exists>t\<in>set transfers. \<not> overdue_transfer tip t \<and> fst t = i \<and>
    (\<forall>h. proves margin tip t h \<longleftrightarrow> r \<le> h \<and> h \<le> d))"
proof -
  from assms(3) obtain t where t: "t \<in> set transfers" "\<not> overdue_transfer tip t" "window_of margin tip t = (d, r, i)"
    unfolding transfer_windows_def by (auto simp: image_iff)
  with window_proves [OF _ t(2) assms(2) t(3)] assms(1) show ?thesis by blast
qed

lemma overdue_proves: "overdue_transfer tip t \<Longrightarrow> proves margin tip t h \<longleftrightarrow> h = tip"
  by (cases t) (simp add: overdue_transfer_def)

text \<open>
  C23. The wake-ups cover every transfer exactly once, at strictly increasing heights none of which is
  below the tip, each at a height at which all the transfers it covers can be proved; and no smaller
  set of heights would do for all transfers. This holds whatever jitter is drawn.
\<close>

theorem wakeups_minimal:
  assumes feasible: "\<forall>t\<in>set transfers. \<not> infeasible t"
    and run: "schedule_sync_wakeups params tip transfers rng = Some (r, rng')"
  shows "\<exists>ws. r = Inr ws \<and>
    sorted_wrt (<) (map wakeup_height ws) \<and>
    mset (concat (map covers ws)) = mset (map fst transfers) \<and>
    (\<forall>w\<in>set ws. \<forall>i\<in>set (covers w). \<exists>t\<in>set transfers.
      fst t = i \<and> proves (max (settle_margin params) 1) tip t (wakeup_height w)) \<and>
    (\<forall>H. finite H \<and> (\<forall>t\<in>set transfers. \<exists>h\<in>H. proves (max (settle_margin params) 1) tip t h) \<longrightarrow> length ws \<le> card H)"
proof -
  define margin where "margin = max (settle_margin params) 1"
  have m: "1 \<le> margin" by (simp add: margin_def)
  let ?late = "filter (overdue_transfer tip) transfers" and ?tw = "transfer_windows margin tip transfers"
  obtain ov vs where ov: "fold_overdue tip (map fst ?late) ?tw = (ov, vs)" by force
  have ovs: "ov = [] \<longleftrightarrow> ?late = []" "?late = [] \<Longrightarrow> vs = ?tw" "?late \<noteq> [] \<Longrightarrow> vs = filter (\<lambda>(d, r, i). r \<noteq> tip) ?tw"
      "set vs \<subseteq> set ?tw"
    using ov by (auto simp: fold_overdue_def split: if_splits)
  obtain ws where ws: "wakeups_of_groups (jitter_cap params) (group_windows [] vs) rng = Some (ws, rng')"
      "r = Inr ((if ov = [] then [] else [\<lparr>wakeup_height = tip, covers = ov\<rparr>]) @ ws)"
    using run assemble_windows_eq [OF feasible, of tip margin "[]" "[]"] ov
    unfolding schedule_sync_wakeups_def Let_def margin_def [symmetric] transfer_windows_def [symmetric]
    by (auto simp: transfer_windows_def apfst_def)
  let ?all = "(if ov = [] then [] else [\<lparr>wakeup_height = tip, covers = ov\<rparr>]) @ ws"
  have win: "r \<le> d \<and> tip \<le> r \<and> (\<exists>t\<in>set transfers. \<not> overdue_transfer tip t \<and> fst t = i \<and>
      (\<forall>h. proves margin tip t h \<longleftrightarrow> r \<le> h \<and> h \<le> d))" if "(d, r, i) \<in> set ?tw" for d r i
    by (rule transfer_window_proves [OF feasible m that])
  have vs: "sorted (map fst vs)" "\<forall>(d, r, i)\<in>set vs. r \<le> d"
  proof -
    have "sorted (map fst ?tw)" unfolding transfer_windows_def by (rule sorted_windows_sorted)
    then show "sorted (map fst vs)" using ovs(2,3) by (cases "?late = []") (auto simp: sorted_filter)
    show "\<forall>(d, r, i)\<in>set vs. r \<le> d" using win ovs(4) by fast
  qed
  note g = grouped_wakeups [OF vs ws(1)]
  have immediate: "\<exists>t\<in>set transfers. fst t = i \<and> proves margin tip t tip" if "i \<in> set ov" for i
  proof -
    have "i \<in> fst ` set ?late \<or> (\<exists>d. (d, tip, i) \<in> set ?tw)"
      using that ov by (auto simp: fold_overdue_def split: if_splits)
    then show ?thesis
    proof
      assume "i \<in> fst ` set ?late"
      then show ?thesis using overdue_proves by fastforce
    next
      assume "\<exists>d. (d, tip, i) \<in> set ?tw"
      then obtain d where "(d, tip, i) \<in> set ?tw" by blast
      from win [OF this] show ?thesis by blast
    qed
  qed
  have later: "tip < wakeup_height w" if "ov \<noteq> []" "w \<in> set ws" for w
  proof -
    from g(3) that(2) obtain d r i where v: "(d, r, i) \<in> set vs" "r \<le> wakeup_height w" by blast
    have "r \<noteq> tip" using v(1) ovs(1,3) that(1) by auto
    moreover have "tip \<le> r" using win v(1) ovs(4) by blast
    ultimately show ?thesis using v(2) by simp
  qed
  have a1: "sorted_wrt (<) (map wakeup_height ?all)" using g(1) later by auto
  have a2: "mset (concat (map covers ?all)) = mset (map fst transfers)"
  proof -
    have "mset (concat (map covers ?all)) = mset ov + mset (map (\<lambda>(d, r, i). i) vs)"
      using g(2) by simp
    also have "\<dots> = mset (map fst ?late) + mset (map (\<lambda>(d, r, i). i) ?tw)"
      using fold_overdue_ids [of tip "map fst ?late" ?tw] ov by simp
    also have "mset (map (\<lambda>(d, r, i). i) ?tw) = mset (map fst (filter (\<lambda>t. \<not> overdue_transfer tip t) transfers))"
      unfolding transfer_windows_def by (simp add: multiset.map_comp comp_def case_prod_unfold)
        (rule image_mset_cong, metis prod_cases3 window_of.simps fst_conv snd_conv)
    also have "mset (map fst ?late) + \<dots> = mset (map fst transfers)"
      by (simp flip: image_mset_union)
    finally show ?thesis .
  qed
  have a3: "\<forall>w\<in>set ?all. \<forall>i\<in>set (covers w). \<exists>t\<in>set transfers. fst t = i \<and> proves margin tip t (wakeup_height w)"
  proof (intro ballI)
    fix w i assume w: "w \<in> set ?all" "i \<in> set (covers w)"
    show "\<exists>t\<in>set transfers. fst t = i \<and> proves margin tip t (wakeup_height w)"
    proof (cases "w \<in> set ws")
      case True
      with g(4) w(2) obtain d r where "(d, r, i) \<in> set vs" "r \<le> wakeup_height w" "wakeup_height w \<le> d" by blast
      with win ovs(4) show ?thesis by blast
    next
      case False
      with w show ?thesis using immediate by (auto split: if_splits)
    qed
  qed
  have a4: "length ?all \<le> card H" if H: "finite H" "\<forall>t\<in>set transfers. \<exists>h\<in>H. proves margin tip t h" for H
  proof -
    have hit: "\<exists>h\<in>H. r \<le> h \<and> h \<le> d" if "(d, r, i) \<in> set ?tw" for d r i
      using win [OF that] H(2) by blast
    show ?thesis
    proof (cases "ov = []")
      case True
      have "length ws \<le> card H" by (rule g(5) [OF H(1)]) (use hit ovs(4) in blast)
      then show ?thesis using True by simp
    next
      case False
      then obtain t where "t \<in> set transfers" "overdue_transfer tip t" using ovs(1) by (auto simp: filter_empty_conv)
      then have tip: "tip \<in> H" using H(2) overdue_proves by metis
      have "length ws \<le> card (H - {tip})"
      proof (rule g(5))
        show "\<forall>(d, r, i)\<in>set vs. \<exists>h\<in>H - {tip}. r \<le> h \<and> h \<le> d"
        proof (clarify)
          fix d r i assume v: "(d, r, i) \<in> set vs"
          then have "r \<noteq> tip" using ovs(1,3) False by auto
          moreover have "tip \<le> r" using win v ovs(4) by blast
          ultimately show "\<exists>h\<in>H - {tip}. r \<le> h \<and> h \<le> d" using hit v ovs(4) by fastforce
        qed
      qed (use H(1) in simp)
      moreover have "card H = Suc (card (H - {tip}))" using tip H(1) by (simp only: card.remove)
      ultimately show ?thesis using False by simp
    qed
  qed
  show ?thesis unfolding margin_def [symmetric]
  proof (intro exI [of _ ?all] conjI allI impI)
    show "length ?all \<le> card H"
      if "finite H \<and> (\<forall>t\<in>set transfers. \<exists>h\<in>H. proves margin tip t h)" for H
      using that a4 [of H] by satx
  qed (rule ws(2) a1 a2 a3)+
qed

theorem wakeups_minimal_witness:
  "\<exists>ws :: nat SyncWakeup list. schedule_sync_wakeups wakeup_default 1000
      [(1, 864, 1100), (2, 1008, 1200), (3, 720, 900)] (sconst 1) = Some (Inr ws, sconst 1) \<and>
    map wakeup_height ws = [1000, 1018] \<and> map covers ws = [[3, 1], [2]] \<and>
    mset (concat (map covers ws)) = {#1, 2, 3#}"
proof -
  let ?ts = "[(1, 864, 1100), (2, 1008, 1200), (3, 720, 900)] :: (nat \<times> BlockHeight \<times> BlockHeight) list"
  let ?ws = "[\<lparr>wakeup_height = 1000, covers = [3, 1]\<rparr>, \<lparr>wakeup_height = 1018, covers = [2]\<rparr>] :: nat SyncWakeup list"
  have gen: "gen_index (unat (12 :: u32) + 1) (sconst 1) = Some (0, sconst 1)"
    by (subst gen_index_step) (simp_all add: index_accepted_def index_threshold_def index_low_def index_high_def u64_sub_def)
  have run: "schedule_sync_wakeups wakeup_default 1000 ?ts (sconst 1) = Some (Inr ?ws, sconst 1)"
    using gen by (simp add: schedule_sync_wakeups_def wakeup_default_def PROVABLE_ANCHOR_DEPTH_def Let_def
        word_saturating_add_def fold_overdue_def draw_jitter_def)
  have "\<forall>t\<in>set ?ts. \<not> infeasible t" by simp
  from wakeups_minimal [OF this run] run show ?thesis by auto
qed

lemma assemble_windows_infeasible:
  "assemble_windows tip margin ov ws (pre @ t # post) = Inl (InfeasibleTransfer (fst t))"
  if "\<forall>t\<in>set pre. \<not> infeasible t" "infeasible t"
  using that(1)
proof (induction pre arbitrary: ov ws)
  case Nil
  obtain i a b where t: "t = (i, a, b)" by (metis prod_cases3)
  then show ?case using that(2) infeasible_iff [of b a i] by simp
next
  case (Cons u pre)
  obtain i a b where u: "u = (i, a, b)" by (metis prod_cases3)
  then show ?case using Cons infeasible_iff [of b a i] by (simp add: Let_def)
qed

text \<open>A fair stream: every bound accepts words of it again and again.\<close>

definition fair :: "rng \<Rightarrow> bool" where
  "fair rng \<longleftrightarrow> (\<forall>bound n. 0 < bound \<and> bound < 2 ^ 64 \<longrightarrow> (\<exists>k\<ge>n. index_accepted bound (rng !! k)))"

lemma fairD: "fair rng \<Longrightarrow> 0 < b \<Longrightarrow> b < 2 ^ 64 \<Longrightarrow> \<exists>k. index_accepted b (rng !! k)"
  unfolding fair_def by blast

lemma fair_sdrop: "fair rng \<Longrightarrow> fair (sdrop m rng)"
  unfolding fair_def sdrop_snth by (metis add_leD1 add_le_cancel_left le_iff_add add.commute)

lemma wakeups_of_groups_returns:
  assumes "jcap = 0 \<or> fair rng"
  shows "wakeups_of_groups jcap gs rng \<noteq> None"
  using assms
proof (induction gs arbitrary: rng)
  case (Cons g gs)
  let ?b = "min jcap (first_deadline g - max_ready g)"
  have "\<exists>j r. draw_jitter ?b rng = Some (j, r) \<and> (jcap = 0 \<or> fair r)"
  proof (cases "?b = 0")
    case True
    then show ?thesis using Cons.prems by (simp add: draw_jitter_def)
  next
    case False
    then have f: "fair rng" using Cons.prems by auto
    let ?n = "unat ?b + 1"
    have "unat ?b < 2 ^ 32" using unsigned_less [of ?b, where ?'a = nat] by simp
    then have "?n < 2 ^ 64" by (rule less_trans [OF Suc_mono [unfolded Suc_eq_plus1]]) simp
    then have "\<exists>k. index_accepted ?n (rng !! k)" using fairD [OF f] by simp
    then have "\<exists>k. first_accepted ?n rng k"
      unfolding first_accepted_def by (subst (asm) exists_least_iff)
    then obtain k where "first_accepted ?n rng k" by (rule exE)
    from gen_index_first [OF this]
    have "draw_jitter ?b rng = Some (of_nat (index_high ?n (rng !! k)), sdrop (Suc k) rng)"
      using False by (simp add: draw_jitter_def)
    then show ?thesis using fair_sdrop [OF f] by (intro exI conjI disjI2)
  qed
  then obtain j r where d: "draw_jitter ?b rng = Some (j, r)" and
    r: "jcap = 0 \<or> fair r" by blast
  then show ?case using Cons.IH [OF r] by (auto simp: Let_def)
qed simp

text \<open>
  The only error is a transfer that cannot be proved at all, its broadcast less than two blocks above
  its anchor; the first such transfer is named, and no word is drawn. Without one, the schedule is
  made whenever every bound has accepted words again and again in the stream, and always if the
  parameters ask for no jitter.
\<close>

theorem wakeups_errors:
  assumes "params = \<lparr>settle_margin = m, jitter_cap = j\<rparr>"
    and "j = 0 \<or> fair rng"
  shows "(\<forall>pre t post. transfers = pre @ t # post \<and> (\<forall>u\<in>set pre. \<not> infeasible u) \<and> infeasible t \<longrightarrow>
      schedule_sync_wakeups params tip transfers rng = Some (Inl (InfeasibleTransfer (fst t)), rng)) \<and>
    ((\<forall>t\<in>set transfers. \<not> infeasible t) \<longrightarrow>
      (\<exists>ws rng'. schedule_sync_wakeups params tip transfers rng = Some (Inr ws, rng')))"
proof (intro conjI allI impI)
  fix pre t post
  assume "transfers = pre @ t # post \<and> (\<forall>u\<in>set pre. \<not> infeasible u) \<and> infeasible t"
  then show "schedule_sync_wakeups params tip transfers rng = Some (Inl (InfeasibleTransfer (fst t)), rng)"
    using assemble_windows_infeasible [of pre t] by (simp add: schedule_sync_wakeups_def)
next
  assume "\<forall>t\<in>set transfers. \<not> infeasible t"
  note eq = assemble_windows_eq [OF this]
  have "\<exists>ws r. wakeups_of_groups j gs rng = Some (ws, r)" for gs
    using wakeups_of_groups_returns [of j rng gs] assms(2) by auto
  then show "\<exists>ws rng'. schedule_sync_wakeups params tip transfers rng = Some (Inr ws, rng')"
    unfolding schedule_sync_wakeups_def Let_def assms(1) eq
    by (simp split: prod.splits) (clarsimp simp: apfst_def, blast)
qed

lemma fair_max: "fair (sconst (- 1))"
proof -
  have "index_accepted b (- 1)" if b: "0 < b" "b < 2 ^ 64" for b
  proof -
    have "18446744073709551615 * b = (b - 1) * 18446744073709551616 + (18446744073709551616 - b)"
      using b by (cases b) simp_all
    then have "18446744073709551615 * b mod 18446744073709551616 = (18446744073709551616 - b) mod 18446744073709551616"
      by (simp only: mod_mult_self3)
    also have "\<dots> = 18446744073709551616 - b" using b by (intro mod_less) simp
    finally have l: "index_low b (- 1) = 18446744073709551616 - b"
      by (simp add: index_low_def unsigned_minus_1_eq_mask mask_eq_exp_minus_1)
    have "18446744073709551616 mod b \<le> 18446744073709551616 - b"
    proof (cases "2 * b \<le> 18446744073709551616")
      case True
      have "18446744073709551616 mod b < b" using b(1) by simp
      with True show ?thesis by linarith
    next
      case False
      with b show ?thesis by (simp add: mod_if)
    qed
    with l show ?thesis by (simp add: index_accepted_def index_threshold_eq [OF b])
  qed
  then show ?thesis by (auto simp: fair_def)
qed

theorem wakeups_errors_witness:
  "(\<exists>ws rng'. schedule_sync_wakeups wakeup_default 1000 [(1 :: nat, 864, 1100)] (sconst (- 1)) = Some (Inr ws, rng')) \<and>
   schedule_sync_wakeups \<lparr>settle_margin = 10, jitter_cap = 0\<rparr> 1000 [(1 :: nat, 864, 1100), (2, 864, 865)] (sconst 0) =
     Some (Inl (InfeasibleTransfer 2), sconst 0)"
  using wakeups_errors [of wakeup_default PROVABLE_ANCHOR_DEPTH 12 "sconst (- 1)" "[(1 :: nat, 864, 1100)]" 1000,
      OF wakeup_default_def disjI2 [OF fair_max]]
    wakeups_errors [OF refl, of 0 "sconst 0" "[(1 :: nat, 864, 1100), (2, 864, 865)]" 10 1000, THEN conjunct1,
      rule_format, of "[(1, 864, 1100)]" "(2, 864, 865)" "[]"]
  by simp

end
