(* ===== verification/Denomination.thy ===== *)
theory Denomination
  imports Zip318
begin

text \<open>
  Model of \<open>zcash_pool_migration/src/denomination.rs\<close> and
  \<open>denomination/strategies.rs\<close>: the canonical quantisation of a balance into the notes a
  migration run prepares. The \<open>u64\<close> arithmetic of the source is written with the wrapping and
  saturating operations of the prelude. \<open>None\<close> results are a loop that does not stop or a
  panic (\<open>zat\<close> on an out-of-range value). The planner capability \<open>prep_tx_count\<close> is an
  argument; the random number generator, which this strategy ignores, is left out.
\<close>

section \<open>Plans\<close>

definition FUNDING_OUTPUTS_PER_TX :: nat where
  "FUNDING_OUTPUTS_PER_TX = PREP_TX_ACTIONS - 2"

definition MIGRATION_MAX_PREPARED_NOTES_PER_RUN :: nat where
  "MIGRATION_MAX_PREPARED_NOTES_PER_RUN = 50"

record DenominationPlan =
  crossing_values :: "Zatoshis list"
  note_fee_buffer :: Zatoshis
  change :: "Zatoshis option"
  prep_fees :: Zatoshis
  total_input :: Zatoshis
  total_migratable :: Zatoshis

text \<open>\<open>zat\<close>: the conversion the strategies expect never to fail.\<close>

definition expect_zat :: "nat \<Rightarrow> Zatoshis option" where
  "expect_zat v = result_ok (zatoshis_from_u64 v)"

primrec expect_zats :: "nat list \<Rightarrow> Zatoshis list option" where
  "expect_zats [] = Some []"
| "expect_zats (v # vs) =
     Option.bind (expect_zat v) (\<lambda>z. map_option (Cons z) (expect_zats vs))"

text \<open>\<open>iter().sum::<u64>()\<close>.\<close>

definition u64_sum :: "nat list \<Rightarrow> nat" where
  "u64_sum vs = foldl u64_add 0 vs"

definition from_notes :: "nat \<Rightarrow> nat \<Rightarrow> nat list \<Rightarrow> nat \<Rightarrow> nat \<Rightarrow> DenominationPlan option" where
  "from_notes total_input_zatoshi prep_fees_zatoshi crossings buffer_zatoshi remaining_budget =
     (let total_migratable_zatoshi = u64_sum crossings in
      Option.bind (expect_zats crossings) (\<lambda>cs.
      Option.bind (expect_zat buffer_zatoshi) (\<lambda>b.
      Option.bind (if 0 < remaining_budget then map_option Some (expect_zat remaining_budget)
                   else Some None) (\<lambda>c.
      Option.bind (expect_zat prep_fees_zatoshi) (\<lambda>f.
      Option.bind (expect_zat total_input_zatoshi) (\<lambda>t.
      Option.bind (expect_zat total_migratable_zatoshi) (\<lambda>m.
        Some \<lparr>crossing_values = cs, note_fee_buffer = b, change = c, prep_fees = f,
          total_input = t, total_migratable = m\<rparr>)))))))"

text \<open>The loop of \<open>from_stored_parts\<close> checks every crossing value plus the buffer.\<close>

definition from_stored_parts ::
    "Zatoshis list \<Rightarrow> Zatoshis \<Rightarrow> Zatoshis option \<Rightarrow> Zatoshis \<Rightarrow> Zatoshis \<Rightarrow> Zatoshis
     \<Rightarrow> BalanceError + DenominationPlan" where
  "from_stored_parts crossings buffer chg fees tot_input tot_migratable =
     (if \<exists>c\<in>set crossings. zatoshis_add c buffer = None then Inl Overflow
      else Inr \<lparr>crossing_values = crossings, note_fee_buffer = buffer, change = chg,
        prep_fees = fees, total_input = tot_input, total_migratable = tot_migratable\<rparr>)"

primrec add_buffers :: "Zatoshis list \<Rightarrow> Zatoshis \<Rightarrow> Zatoshis list option" where
  "add_buffers [] b = Some []"
| "add_buffers (c # cs) b =
     Option.bind (zatoshis_add c b) (\<lambda>n. map_option (Cons n) (add_buffers cs b))"

definition migration_outputs :: "DenominationPlan \<Rightarrow> Zatoshis list option" where
  "migration_outputs p = add_buffers (crossing_values p) (note_fee_buffer p)"

section \<open>The canonical strategy\<close>

record CanonicalOneTwoFive =
  max_notes :: nat
  max_denomination_zatoshi :: nat
  min_denomination_zatoshi :: nat
  buffer_zatoshi :: nat

definition strategy_new :: "nat \<Rightarrow> Zatoshis \<Rightarrow> Zatoshis \<Rightarrow> Zatoshis \<Rightarrow> CanonicalOneTwoFive" where
  "strategy_new n max_denomination min_denomination transfer_fee_buffer =
     \<lparr>max_notes = n, max_denomination_zatoshi = zat max_denomination,
      min_denomination_zatoshi = zat min_denomination, buffer_zatoshi = zat transfer_fee_buffer\<rparr>"

definition with_max_notes :: "nat \<Rightarrow> Zatoshis \<Rightarrow> CanonicalOneTwoFive" where
  "with_max_notes n transfer_fee_buffer =
     strategy_new n DENOM_CAP MAX_RESIDUAL_VALUE transfer_fee_buffer"

definition recommended :: "Zatoshis \<Rightarrow> CanonicalOneTwoFive" where
  "recommended transfer_fee_buffer =
     with_max_notes MIGRATION_MAX_PREPARED_NOTES_PER_RUN transfer_fee_buffer"

definition optimistic_txs :: "nat \<Rightarrow> nat" where
  "optimistic_txs minted = nat_div_ceil minted FUNDING_OUTPUTS_PER_TX"

definition split_cost :: "CanonicalOneTwoFive \<Rightarrow> nat \<Rightarrow> nat \<Rightarrow> nat \<Rightarrow> nat \<Rightarrow> nat" where
  "split_cost s prep_tx_fee committed_notes n_crossings crossing =
     u64_add (u64_add (u64_add committed_notes crossing) (buffer_zatoshi s))
       (u64_mul (optimistic_txs (n_crossings + 1)) prep_tx_fee)"

text \<open>
  The inner \<open>while affordable >= min\<close> loop: \<open>Some (Some c)\<close> is the accepted crossing,
  \<open>Some None\<close> the loop ending with nothing accepted, \<open>None\<close> a loop that does not stop.
\<close>

partial_function (option) split_inner ::
    "CanonicalOneTwoFive \<Rightarrow> nat \<Rightarrow> nat \<Rightarrow> nat \<Rightarrow> nat \<Rightarrow> nat \<Rightarrow> nat option option" where
  "split_inner s tot prep_tx_fee committed_notes n_crossings affordable =
     (if \<not> min_denomination_zatoshi s \<le> affordable then Some None
      else Option.bind (largest_one_two_five affordable (min_denomination_zatoshi s)) (\<lambda>crossing.
        if crossing < min_denomination_zatoshi s then Some None
        else if split_cost s prep_tx_fee committed_notes n_crossings crossing \<le> tot
        then Some (Some crossing)
        else split_inner s tot prep_tx_fee committed_notes n_crossings (u64_sub crossing 1)))"

text \<open>The outer loop: each round pushes one crossing or stops.\<close>

function split_outer ::
    "CanonicalOneTwoFive \<Rightarrow> nat \<Rightarrow> nat \<Rightarrow> nat list \<Rightarrow> nat \<Rightarrow> nat list option" where
  "split_outer s tot prep_tx_fee crossings committed_notes =
     (if \<not> length crossings < max_notes s then Some crossings
      else
        let committed = u64_add committed_notes (u64_mul (optimistic_txs (length crossings)) prep_tx_fee);
            budget = u64_saturating_sub tot committed
        in if budget < u64_add (min_denomination_zatoshi s) (buffer_zatoshi s) then Some crossings
        else
          case split_inner s tot prep_tx_fee committed_notes (length crossings)
                 (min (u64_sub budget (buffer_zatoshi s)) (max_denomination_zatoshi s)) of
            None \<Rightarrow> None
          | Some None \<Rightarrow> Some crossings
          | Some (Some crossing) \<Rightarrow>
              split_outer s tot prep_tx_fee (crossings @ [crossing])
                (u64_add committed_notes (u64_add crossing (buffer_zatoshi s))))"
  by pat_completeness auto
termination
  by (relation "measure (\<lambda>(s, tot, fee, crossings, committed). max_notes s - length crossings)") auto

declare split_outer.simps [simp del]

definition exact_funding :: "CanonicalOneTwoFive \<Rightarrow> nat \<Rightarrow> nat \<Rightarrow> bool option" where
  "exact_funding s tot note_count =
     (let exact_crossing = u64_saturating_sub tot (buffer_zatoshi s) in
      if note_count = 1 \<and> 0 < max_notes s \<and> buffer_zatoshi s \<le> tot \<and>
         min_denomination_zatoshi s \<le> exact_crossing \<and> exact_crossing \<le> max_denomination_zatoshi s
      then map_option (\<lambda>c. c = exact_crossing)
             (largest_one_two_five exact_crossing (min_denomination_zatoshi s))
      else Some False)"

definition unconstrained_split :: "CanonicalOneTwoFive \<Rightarrow> nat \<Rightarrow> nat \<Rightarrow> nat \<Rightarrow> nat list option" where
  "unconstrained_split s tot note_count prep_tx_fee =
     (case exact_funding s tot note_count of
        None \<Rightarrow> None
      | Some True \<Rightarrow> Some [u64_saturating_sub tot (buffer_zatoshi s)]
      | Some False \<Rightarrow> split_outer s tot prep_tx_fee [] 0)"

text \<open>
  The reconciliation loop pops crossings from the back until the capability prices the remainder
  within the balance. \<open>notes\<close> is \<open>crossings\<close> plus the buffer throughout.
\<close>

definition fits :: "(Zatoshis list \<Rightarrow> nat option) \<Rightarrow> nat \<Rightarrow> nat \<Rightarrow> nat list \<Rightarrow> nat option option" where
  "fits prep_tx_count tot prep_tx_fee notes =
     map_option (\<lambda>typed.
       case prep_tx_count typed of None \<Rightarrow> None
       | Some n \<Rightarrow>
           (case u64_checked_add (u64_sum notes) (u64_mul n prep_tx_fee) of None \<Rightarrow> None
            | Some c \<Rightarrow> if c \<le> tot then Some n else None)) (expect_zats notes)"

function reconcile ::
    "(Zatoshis list \<Rightarrow> nat option) \<Rightarrow> nat \<Rightarrow> nat \<Rightarrow> nat list \<Rightarrow> nat list \<Rightarrow> (nat \<times> nat list \<times> nat list) option" where
  "reconcile prep_tx_count tot prep_tx_fee crossings notes =
     (if crossings = [] then Some (0, crossings, notes)
      else case fits prep_tx_count tot prep_tx_fee notes of
          None \<Rightarrow> None
        | Some (Some n) \<Rightarrow> Some (n, crossings, notes)
        | Some None \<Rightarrow> reconcile prep_tx_count tot prep_tx_fee (butlast crossings) (butlast notes))"
  by pat_completeness auto
termination
  by (relation "measure (\<lambda>(p, tot, fee, crossings, notes). length crossings)") auto

declare reconcile.simps [simp del]

definition plan ::
    "CanonicalOneTwoFive \<Rightarrow> Zatoshis \<Rightarrow> nat \<Rightarrow> Zatoshis \<Rightarrow> (Zatoshis list \<Rightarrow> nat option)
     \<Rightarrow> DenominationPlan option" where
  "plan s tot_input note_count prep_tx_fee prep_tx_count =
     (let tot = zat tot_input; fee = zat prep_tx_fee; buffer = buffer_zatoshi s in
      Option.bind (unconstrained_split s tot note_count fee) (\<lambda>split.
      Option.bind (reconcile prep_tx_count tot fee split (map (\<lambda>c. u64_add c buffer) split))
        (\<lambda>(n_txs, crossings, notes).
          let prep_fees_zatoshi = u64_mul n_txs fee;
              remaining = u64_saturating_sub (u64_saturating_sub tot (u64_sum notes)) prep_fees_zatoshi
          in from_notes tot prep_fees_zatoshi crossings buffer remaining)))"

definition plan_denominations ::
    "Zatoshis \<Rightarrow> nat \<Rightarrow> nat \<Rightarrow> Zatoshis \<Rightarrow> Zatoshis \<Rightarrow> (Zatoshis list \<Rightarrow> nat option)
     \<Rightarrow> DenominationPlan option" where
  "plan_denominations tot_input note_count n transfer_fee_buffer prep_tx_fee prep_tx_count =
     plan (with_max_notes n transfer_fee_buffer) tot_input note_count prep_tx_fee prep_tx_count"

definition balance_has_canonical_split ::
    "Zatoshis \<Rightarrow> nat \<Rightarrow> nat \<Rightarrow> Zatoshis \<Rightarrow> Zatoshis \<Rightarrow> bool option" where
  "balance_has_canonical_split tot_input note_count n transfer_fee_buffer prep_tx_fee =
     map_option (\<lambda>cs. cs \<noteq> [])
       (unconstrained_split (with_max_notes n transfer_fee_buffer) (zat tot_input) note_count
         (zat prep_tx_fee))"

section \<open>The abstract split\<close>

text \<open>
  \<open>spent\<close> is the cost of a list of crossings in the optimistic preparation model, \<open>admits\<close> says
  that a denomination may be appended to the list, and a \<open>greedy\<close> list takes the greatest
  admissible denomination at each step.
\<close>

definition spent :: "CanonicalOneTwoFive \<Rightarrow> nat \<Rightarrow> nat list \<Rightarrow> nat" where
  "spent s fee cs = (\<Sum>c\<leftarrow>cs. c + buffer_zatoshi s) + optimistic_txs (length cs) * fee"

definition admits :: "CanonicalOneTwoFive \<Rightarrow> nat \<Rightarrow> nat \<Rightarrow> nat list \<Rightarrow> nat \<Rightarrow> bool" where
  "admits s tot fee cs w \<longleftrightarrow> one_two_five w \<and> min_denomination_zatoshi s \<le> w \<and>
     w \<le> max_denomination_zatoshi s \<and> spent s fee (cs @ [w]) \<le> tot"

definition greedy :: "CanonicalOneTwoFive \<Rightarrow> nat \<Rightarrow> nat \<Rightarrow> nat list \<Rightarrow> bool" where
  "greedy s tot fee cs \<longleftrightarrow> (\<forall>i<length cs. admits s tot fee (take i cs) (cs ! i) \<and>
     (\<forall>w. admits s tot fee (take i cs) w \<longrightarrow> w \<le> cs ! i))"

text \<open>The configurations the constructors document: a power of ten, all amounts in range.\<close>

definition strategy_ok :: "CanonicalOneTwoFive \<Rightarrow> bool" where
  "strategy_ok s \<longleftrightarrow> (\<exists>j. min_denomination_zatoshi s = 10 ^ j) \<and>
     min_denomination_zatoshi s \<le> MAX_MONEY \<and> max_denomination_zatoshi s \<le> MAX_MONEY \<and>
     buffer_zatoshi s \<le> MAX_MONEY"

lemma strategy_ok_with_max_notes: "zatoshis_valid b \<Longrightarrow> strategy_ok (with_max_notes n b)"
  by (auto simp: strategy_ok_def with_max_notes_def strategy_new_def DENOM_CAP_def
      MAX_RESIDUAL_VALUE_def COIN_def MAX_MONEY_eq zatoshis_valid_def intro: exI [of _ 6])

lemma optimistic_txs_Suc: "optimistic_txs n \<le> optimistic_txs (Suc n)"
  "optimistic_txs (Suc n) \<le> Suc (optimistic_txs n)"
  by (auto simp: optimistic_txs_def nat_div_ceil_def FUNDING_OUTPUTS_PER_TX_def PREP_TX_ACTIONS_def
      div_Suc mod_Suc Let_def)

lemma spent_snoc:
  "spent s fee (cs @ [w]) =
     (\<Sum>c\<leftarrow>cs. c + buffer_zatoshi s) + w + buffer_zatoshi s + optimistic_txs (length cs + 1) * fee"
  by (simp add: spent_def del: mult_le_cancel2)

lemma spent_snoc_le: "spent s fee cs + w + buffer_zatoshi s \<le> spent s fee (cs @ [w])"
  using mult_le_mono1 [OF optimistic_txs_Suc(1), of "length cs" fee] by (simp add: spent_snoc spent_def del: mult_le_cancel2)

lemma spent_snoc_le_fee: "spent s fee (cs @ [w]) \<le> spent s fee cs + w + buffer_zatoshi s + fee"
  using mult_le_mono1 [OF optimistic_txs_Suc(2), of "length cs" fee] by (simp add: spent_snoc spent_def del: mult_le_cancel2)

lemma spent_Nil [simp]: "spent s fee [] = 0"
  by (simp add: spent_def optimistic_txs_def nat_div_ceil_def)

lemma spent_shrink: "spent s fee (cs @ [w]) \<le> spent s fee (cs @ [v, w])"
proof -
  have "optimistic_txs (length (cs @ [w])) * fee \<le> optimistic_txs (length (cs @ [v, w])) * fee"
    using optimistic_txs_Suc(1) [of "length cs + 1"] by (intro mult_le_mono1) simp
  then show ?thesis unfolding spent_def by (rule add_mono [rotated]) simp
qed

section \<open>The loops\<close>

text \<open>The bounds under which no sum of the loops wraps.\<close>

lemma committed_exact:
  assumes "spent s fee cs \<le> tot" "tot \<le> MAX_MONEY"
  shows "u64_add (\<Sum>c\<leftarrow>cs. c + buffer_zatoshi s) (u64_mul (optimistic_txs (length cs)) fee) = spent s fee cs"
proof -
  have "spent s fee cs \<le> MAX_MONEY" using assms by simp
  then show ?thesis by (simp add: spent_def u64_ok_def MAX_MONEY_eq)
qed

lemma split_cost_exact:
  assumes "spent s fee cs \<le> MAX_MONEY" "w \<le> MAX_MONEY" "buffer_zatoshi s \<le> MAX_MONEY" "fee \<le> MAX_MONEY"
  shows "split_cost s fee (\<Sum>c\<leftarrow>cs. c + buffer_zatoshi s) (length cs) w = spent s fee (cs @ [w])"
proof -
  have "spent s fee (cs @ [w]) \<le> 4 * MAX_MONEY"
    using spent_snoc_le_fee [of s fee cs w] assms by linarith
  then show ?thesis by (simp add: split_cost_def spent_snoc u64_ok_def MAX_MONEY_eq)
qed

definition greatest_option :: "(nat \<Rightarrow> bool) \<Rightarrow> nat option \<Rightarrow> bool" where
  "greatest_option P r \<longleftrightarrow>
     (case r of None \<Rightarrow> \<forall>w. \<not> P w | Some c \<Rightarrow> P c \<and> (\<forall>w. P w \<longrightarrow> w \<le> c))"

lemma split_inner_spec:
  assumes ok: "strategy_ok s" and tot: "tot \<le> MAX_MONEY" and fee: "fee \<le> MAX_MONEY"
    and spent: "spent s fee cs \<le> tot" and aff: "affordable \<le> MAX_MONEY"
  shows "\<exists>r. split_inner s tot fee (\<Sum>c\<leftarrow>cs. c + buffer_zatoshi s) (length cs) affordable = Some r \<and>
    greatest_option (\<lambda>w. one_two_five w \<and> min_denomination_zatoshi s \<le> w \<and> w \<le> affordable \<and>
      spent s fee (cs @ [w]) \<le> tot) r"
  using aff
proof (induction affordable rule: less_induct)
  case (less affordable)
  from ok obtain j where j: "min_denomination_zatoshi s = 10 ^ j" unfolding strategy_ok_def by blast
  show ?case
  proof (cases "10 ^ j \<le> affordable")
    case False
    then show ?thesis
      by (intro exI [of _ None]) (auto simp: split_inner.simps [of s _ _ _ _ affordable] j greatest_option_def)
  next
    case True
    have "u64_ok affordable" using less.prems by (simp add: u64_ok_def MAX_MONEY_eq)
    from largest_one_two_five_greatest_aux [OF this] True obtain v where
      v: "largest_one_two_five affordable (10 ^ j) = Some v" "one_two_five v" "10 ^ j \<le> v"
        "v \<le> affordable" "\<And>w. one_two_five w \<Longrightarrow> w \<le> affordable \<Longrightarrow> w \<le> v" by blast
    have cost: "split_cost s fee (\<Sum>c\<leftarrow>cs. c + buffer_zatoshi s) (length cs) v = spent s fee (cs @ [v])"
      using split_cost_exact [of s fee cs v] ok tot spent fee v(4) less.prems
      by (simp add: strategy_ok_def)
    show ?thesis
    proof (cases "spent s fee (cs @ [v]) \<le> tot")
      case True
      then show ?thesis using v \<open>10 ^ j \<le> affordable\<close>
        by (intro exI [of _ "Some v"])
          (auto simp: split_inner.simps [of s _ _ _ _ affordable] j cost greatest_option_def)
    next
      case False
      have pos: "0 < v" using v(2) by (rule one_two_five_pos)
      then have sub: "u64_sub v 1 = v - 1"
        using v(4) \<open>u64_ok affordable\<close> by (intro u64_sub_exact) (auto simp: u64_ok_def)
      have step: "split_inner s tot fee (\<Sum>c\<leftarrow>cs. c + buffer_zatoshi s) (length cs) affordable =
          split_inner s tot fee (\<Sum>c\<leftarrow>cs. c + buffer_zatoshi s) (length cs) (v - 1)"
        using False \<open>10 ^ j \<le> affordable\<close> v(1,3)
        by (simp add: split_inner.simps [of s _ _ _ _ affordable] j cost sub [simplified])
      have "v - 1 < affordable" "v - 1 \<le> MAX_MONEY" using pos v(4) less.prems by simp_all
      note IH = less.IH [OF this]
      have "(one_two_five w \<and> min_denomination_zatoshi s \<le> w \<and> w \<le> affordable \<and> spent s fee (cs @ [w]) \<le> tot) =
          (one_two_five w \<and> min_denomination_zatoshi s \<le> w \<and> w \<le> v - 1 \<and> spent s fee (cs @ [w]) \<le> tot)" for w
        using v(4) v(5) [of w] False pos by (cases "w = v") auto
      with IH show ?thesis unfolding step by simp
    qed
  qed
qed

lemma greedy_snoc:
  "greedy s tot fee (cs @ [c]) \<longleftrightarrow> greedy s tot fee cs \<and> admits s tot fee cs c \<and>
     (\<forall>w. admits s tot fee cs w \<longrightarrow> w \<le> c)"
  by (auto simp: greedy_def nth_append less_Suc_eq)

lemma greedy_spent: "greedy s tot fee cs \<Longrightarrow> spent s fee cs \<le> tot"
  by (cases cs rule: rev_cases) (auto simp: greedy_snoc admits_def)

lemma admits_shrink: "admits s tot fee (cs @ [v]) w \<Longrightarrow> admits s tot fee cs w"
  using spent_shrink [of s fee cs w v] by (simp add: admits_def)

lemma greedy_sorted: "greedy s tot fee cs \<Longrightarrow> sorted (rev cs)"
proof (induction cs rule: rev_induct)
  case (snoc c cs)
  then have g: "greedy s tot fee cs" and a: "admits s tot fee cs c" and sorted: "sorted (rev cs)"
    by (simp_all add: greedy_snoc)
  have "c \<le> d" if "d \<in> set cs" for d
  proof (cases cs rule: rev_cases)
    case (snoc ds e)
    with a g have "c \<le> e" by (meson admits_shrink greedy_snoc)
    moreover have "e \<le> d" using sorted that snoc by auto
    ultimately show ?thesis by simp
  qed (use that in simp)
  then show ?case using sorted by simp
qed simp

lemma greedy_member: "greedy s tot fee cs \<Longrightarrow> c \<in> set cs \<Longrightarrow>
    one_two_five c \<and> min_denomination_zatoshi s \<le> c \<and> c \<le> max_denomination_zatoshi s"
  by (auto simp: greedy_def admits_def in_set_conv_nth)

lemma split_outer_spec:
  assumes ok: "strategy_ok s" and tot: "tot \<le> MAX_MONEY" and fee: "fee \<le> MAX_MONEY"
  shows "greedy s tot fee cs \<Longrightarrow> length cs \<le> max_notes s \<Longrightarrow>
    \<exists>ds. split_outer s tot fee cs (\<Sum>c\<leftarrow>cs. c + buffer_zatoshi s) = Some (cs @ ds) \<and>
      greedy s tot fee (cs @ ds) \<and> length (cs @ ds) \<le> max_notes s \<and>
      (length (cs @ ds) = max_notes s \<or> (\<forall>w. \<not> admits s tot fee (cs @ ds) w))"
proof (induction "max_notes s - length cs" arbitrary: cs)
  case 0
  then show ?case by (intro exI [of _ "[]"]) (simp add: split_outer.simps)
next
  case (Suc n)
  let ?b = "buffer_zatoshi s" and ?sum = "\<Sum>c\<leftarrow>cs. c + buffer_zatoshi s"
  let ?aff = "min (tot - spent s fee cs - ?b) (max_denomination_zatoshi s)"
  have spent: "spent s fee cs \<le> tot" using Suc.prems(1) by (rule greedy_spent)
  have min_note: "u64_add (min_denomination_zatoshi s) ?b = min_denomination_zatoshi s + ?b"
    using ok by (intro u64_add_exact) (simp add: strategy_ok_def u64_ok_def MAX_MONEY_eq)
  note committed = committed_exact [OF spent tot]
  have lt: "length cs < max_notes s" using Suc.hyps(2) by simp
  show ?case
  proof (cases "tot - spent s fee cs < min_denomination_zatoshi s + ?b")
    case True
    then have "split_outer s tot fee cs ?sum = Some cs"
      by (simp add: split_outer.simps [of s tot fee cs] committed min_note u64_saturating_sub_def)
    moreover have "\<not> admits s tot fee cs w" for w
      using True spent_snoc_le [of s fee cs w] by (auto simp: admits_def)
    ultimately show ?thesis using Suc.prems by (intro exI [of _ "[]"]) auto
  next
    case False
    have sub: "u64_sub (tot - spent s fee cs) ?b = tot - spent s fee cs - ?b"
      using False tot by (intro u64_sub_exact) (simp_all add: u64_ok_def MAX_MONEY_eq)
    have admits: "(one_two_five w \<and> min_denomination_zatoshi s \<le> w \<and> w \<le> ?aff \<and>
        spent s fee (cs @ [w]) \<le> tot) = admits s tot fee cs w" for w
      using spent_snoc_le [of s fee cs w] by (auto simp: admits_def)
    obtain r where r: "split_inner s tot fee ?sum (length cs) ?aff = Some r"
        "greatest_option (admits s tot fee cs) r"
      using split_inner_spec [OF ok tot fee spent, of ?aff] tot unfolding admits
      by (meson diff_le_self min.cobounded1 order_trans)
    have step: "split_outer s tot fee cs ?sum =
        (case r of None \<Rightarrow> Some cs | Some c \<Rightarrow> split_outer s tot fee (cs @ [c]) (u64_add ?sum (u64_add c ?b)))"
      using False lt r(1)
      by (simp add: split_outer.simps [of s tot fee cs] committed min_note u64_saturating_sub_def sub
          split: option.splits)
    show ?thesis
    proof (cases r)
      case None
      with step r(2) Suc.prems show ?thesis
        by (intro exI [of _ "[]"]) (auto simp: greatest_option_def)
    next
      case (Some c)
      with r(2) have c: "admits s tot fee cs c" "\<forall>w. admits s tot fee cs w \<longrightarrow> w \<le> c"
        by (simp_all add: greatest_option_def)
      then have g: "greedy s tot fee (cs @ [c])" using Suc.prems(1) by (simp add: greedy_snoc)
      have "?sum + c + ?b \<le> MAX_MONEY"
        using c(1) tot by (simp add: admits_def spent_snoc)
      then have "u64_add ?sum (u64_add c ?b) = (\<Sum>c\<leftarrow>cs @ [c]. c + buffer_zatoshi s)"
        by (simp add: u64_ok_def MAX_MONEY_eq)
      moreover obtain ds where "split_outer s tot fee (cs @ [c]) (\<Sum>c\<leftarrow>cs @ [c]. c + buffer_zatoshi s) =
          Some ((cs @ [c]) @ ds)" and "greedy s tot fee ((cs @ [c]) @ ds)"
          and "length ((cs @ [c]) @ ds) \<le> max_notes s"
          and "length ((cs @ [c]) @ ds) = max_notes s \<or> (\<forall>w. \<not> admits s tot fee ((cs @ [c]) @ ds) w)"
        using Suc.hyps(1) [OF _ g] Suc.hyps(2) by fastforce
      ultimately show ?thesis using step Some by (intro exI [of _ "c # ds"]) simp
    qed
  qed
qed

lemma exact_funding_iff:
  assumes ok: "strategy_ok s" and tot: "tot \<le> MAX_MONEY"
  shows "exact_funding s tot note_count = Some (note_count = 1 \<and> 0 < max_notes s \<and>
    (\<exists>c. one_two_five c \<and> min_denomination_zatoshi s \<le> c \<and> c \<le> max_denomination_zatoshi s \<and>
      tot = c + buffer_zatoshi s))"
proof -
  let ?c = "tot - buffer_zatoshi s"
  from ok obtain j where j: "min_denomination_zatoshi s = 10 ^ j" unfolding strategy_ok_def by blast
  have "u64_ok ?c" using tot by (simp add: u64_ok_def MAX_MONEY_eq)
  from largest_one_two_five_greatest_aux [OF this, of j] obtain v where
    v: "largest_one_two_five ?c (10 ^ j) = Some v"
    and "10 ^ j \<le> ?c \<longrightarrow> one_two_five v \<and> (\<forall>w. one_two_five w \<and> w \<le> ?c \<longrightarrow> w \<le> v) \<and> v \<le> ?c"
    by blast
  then have iff: "10 ^ j \<le> ?c \<Longrightarrow> v = ?c \<longleftrightarrow> one_two_five ?c" by (metis order_antisym order_refl)
  have "(\<exists>c. one_two_five c \<and> 10 ^ j \<le> c \<and> c \<le> max_denomination_zatoshi s \<and> tot = c + buffer_zatoshi s)
    \<longleftrightarrow> buffer_zatoshi s \<le> tot \<and> 10 ^ j \<le> ?c \<and> ?c \<le> max_denomination_zatoshi s \<and> v = ?c"
    using iff by (auto simp: le_add_diff_inverse2 intro!: exI [of _ ?c])
  then show ?thesis
    by (auto simp: exact_funding_def u64_saturating_sub_def j v Let_def)
qed

text \<open>What the unconstrained split returns, exact funding included.\<close>

definition split_result :: "CanonicalOneTwoFive \<Rightarrow> nat \<Rightarrow> nat \<Rightarrow> nat \<Rightarrow> nat list \<Rightarrow> bool" where
  "split_result s tot note_count fee cs \<longleftrightarrow>
     (if exact_funding s tot note_count = Some True then cs = [tot - buffer_zatoshi s]
      else greedy s tot fee cs \<and> length cs \<le> max_notes s \<and>
        (length cs = max_notes s \<or> (\<forall>w. \<not> admits s tot fee cs w)))"

lemma unconstrained_split_aux:
  assumes "strategy_ok s" "tot \<le> MAX_MONEY" "fee \<le> MAX_MONEY"
  shows "\<exists>cs. unconstrained_split s tot note_count fee = Some cs \<and>
    split_result s tot note_count fee cs"
proof (cases "exact_funding s tot note_count = Some True")
  case True
  then show ?thesis by (simp add: unconstrained_split_def split_result_def u64_saturating_sub_def)
next
  case False
  moreover obtain b where "exact_funding s tot note_count = Some b"
    using exact_funding_iff [OF assms(1,2)] by blast
  ultimately have "unconstrained_split s tot note_count fee = split_outer s tot fee [] 0"
    by (simp add: unconstrained_split_def)
  with False split_outer_spec [OF assms, of "[]"] show ?thesis
    by (auto simp: split_result_def greedy_def)
qed

lemma split_result_facts:
  assumes ok: "strategy_ok s" and tot: "tot \<le> MAX_MONEY"
    and res: "split_result s tot note_count fee cs"
  shows "sorted (rev cs)" "length cs \<le> max_notes s"
    "\<forall>c\<in>set cs. one_two_five c \<and> min_denomination_zatoshi s \<le> c \<and> c \<le> max_denomination_zatoshi s"
    "(\<Sum>c\<leftarrow>cs. c + buffer_zatoshi s) \<le> tot"
proof -
  consider (exact) c where "cs = [c]" "one_two_five c" "min_denomination_zatoshi s \<le> c"
      "c \<le> max_denomination_zatoshi s" "tot = c + buffer_zatoshi s" "0 < max_notes s"
    | (greedy) "greedy s tot fee cs" "length cs \<le> max_notes s"
    using res unfolding split_result_def exact_funding_iff [OF ok tot] by (auto split: if_splits)
  then have "sorted (rev cs) \<and> length cs \<le> max_notes s \<and>
    (\<forall>c\<in>set cs. one_two_five c \<and> min_denomination_zatoshi s \<le> c \<and> c \<le> max_denomination_zatoshi s) \<and>
    (\<Sum>c\<leftarrow>cs. c + buffer_zatoshi s) \<le> tot"
  proof cases
    case exact
    then show ?thesis by simp
  next
    case greedy
    have "(\<Sum>c\<leftarrow>cs. c + buffer_zatoshi s) \<le> tot"
      using greedy_spent [OF greedy(1)] by (simp add: spent_def)
    then show ?thesis using greedy greedy_sorted greedy_member by blast
  qed
  then show "sorted (rev cs)" "length cs \<le> max_notes s"
    "\<forall>c\<in>set cs. one_two_five c \<and> min_denomination_zatoshi s \<le> c \<and> c \<le> max_denomination_zatoshi s"
    "(\<Sum>c\<leftarrow>cs. c + buffer_zatoshi s) \<le> tot" by blast+
qed

section \<open>Reconciliation and the plan\<close>

lemma u64_sum_mod: "u64_sum vs = sum_list vs mod 18446744073709551616"
  by (induction vs rule: rev_induct) (simp_all add: u64_sum_def u64_add_def mod_add_left_eq)

lemma u64_sum_Nil [simp]: "u64_sum [] = 0"
  by (simp add: u64_sum_def)

lemma u64_mul_zero [simp]: "u64_mul 0 n = 0"
  by (simp add: u64_mul_def)

lemma u64_sum_exact: "sum_list vs \<le> MAX_MONEY \<Longrightarrow> u64_sum vs = sum_list vs"
  by (simp add: u64_sum_mod MAX_MONEY_eq)

lemma expect_zat_ok: "v \<le> MAX_MONEY \<Longrightarrow> expect_zat v = Some (Zatoshis v)"
  by (simp add: expect_zat_def zatoshis_from_u64_def)

lemma expect_zats_ok: "sum_list vs \<le> MAX_MONEY \<Longrightarrow> expect_zats vs = Some (map Zatoshis vs)"
  by (induction vs) (simp_all add: expect_zat_ok)

lemma add_buffers_ok:
  "(\<Sum>c\<leftarrow>cs. c + b) \<le> MAX_MONEY \<Longrightarrow>
   add_buffers (map Zatoshis cs) (Zatoshis b) = Some (map (\<lambda>c. Zatoshis (c + b)) cs)"
  by (induction cs)
    (simp_all add: zatoshis_add_def u64_checked_add_def zatoshis_from_u64_def MAX_MONEY_eq result_ok_def)

text \<open>\<open>mintable\<close>: the planner mints these notes with \<open>n\<close> transactions within the balance.\<close>

definition mintable ::
    "(Zatoshis list \<Rightarrow> nat option) \<Rightarrow> nat \<Rightarrow> nat \<Rightarrow> nat list \<Rightarrow> nat \<Rightarrow> bool" where
  "mintable f tot fee notes n \<longleftrightarrow> f (map Zatoshis notes) = Some n \<and> sum_list notes + n * fee \<le> tot"

text \<open>The planner's answers, each a number of transactions, have fees that fit a \<open>u64\<close>.\<close>

definition fees_fit :: "(Zatoshis list \<Rightarrow> nat option) \<Rightarrow> nat \<Rightarrow> bool" where
  "fees_fit f fee \<longleftrightarrow> (\<forall>ns n. f ns = Some n \<longrightarrow> u64_ok (n * fee))"

lemma fits_iff:
  assumes "sum_list notes \<le> tot" "tot \<le> MAX_MONEY" "fees_fit f fee"
  shows "\<exists>r. fits f tot fee notes = Some r \<and> (\<forall>n. r = Some n \<longleftrightarrow> mintable f tot fee notes n)"
proof -
  have sum: "sum_list notes \<le> MAX_MONEY" using assms by simp
  have mul: "f (map Zatoshis notes) = Some n \<Longrightarrow> u64_mul n fee = n * fee" for n
    using assms(3) by (simp add: fees_fit_def)
  show ?thesis
    using assms(2)
    by (cases "f (map Zatoshis notes)")
      (auto simp: fits_def mintable_def expect_zats_ok [OF sum] u64_sum_exact [OF sum] mul
        u64_checked_add_def MAX_MONEY_eq)
qed

lemma reconcile_spec:
  assumes tot: "tot \<le> MAX_MONEY" and f: "fees_fit f fee"
  shows "(\<Sum>c\<leftarrow>cs. c + b) \<le> tot \<Longrightarrow>
    \<exists>n k. reconcile f tot fee cs (map (\<lambda>c. c + b) cs) = Some (n, take k cs, map (\<lambda>c. c + b) (take k cs)) \<and>
      k \<le> length cs \<and> (if k = 0 then n = 0 else mintable f tot fee (map (\<lambda>c. c + b) (take k cs)) n) \<and>
      (\<forall>j m. k < j \<and> j \<le> length cs \<longrightarrow> \<not> mintable f tot fee (map (\<lambda>c. c + b) (take j cs)) m)"
proof (induction cs rule: rev_induct)
  case Nil
  then show ?case by (simp add: reconcile.simps)
next
  case (snoc c cs)
  let ?ns = "map (\<lambda>c. c + b) (cs @ [c])"
  obtain r where r: "fits f tot fee ?ns = Some r" "\<And>n. r = Some n \<longleftrightarrow> mintable f tot fee ?ns n"
    using fits_iff [OF snoc.prems tot f] by blast
  show ?case
  proof (cases r)
    case (Some n)
    from Some r have "fits f tot fee ?ns = Some (Some n)" "mintable f tot fee ?ns n" by simp_all
    then show ?thesis
      by (intro exI [of _ "Suc (length cs)"] exI conjI)
        (auto simp add: reconcile.simps [of f tot fee "cs @ [c]"])
  next
    case None
    with r have no: "\<not> mintable f tot fee ?ns m" for m by blast
    have step: "reconcile f tot fee (cs @ [c]) ?ns = reconcile f tot fee cs (map (\<lambda>c. c + b) cs)"
      using r(1) None by (simp add: reconcile.simps [of f tot fee "cs @ [c]"] butlast_append)
    from snoc obtain n k where "reconcile f tot fee cs (map (\<lambda>c. c + b) cs) =
        Some (n, take k cs, map (\<lambda>c. c + b) (take k cs))" and "k \<le> length cs"
      and "if k = 0 then n = 0 else mintable f tot fee (map (\<lambda>c. c + b) (take k cs)) n"
      and "\<forall>j m. k < j \<and> j \<le> length cs \<longrightarrow> \<not> mintable f tot fee (map (\<lambda>c. c + b) (take j cs)) m"
      by auto
    note k = this
    show ?thesis
      by (rule exI [of _ n], rule exI [of _ k]) (use no step k in \<open>auto simp: le_Suc_eq\<close>)
  qed
qed

lemma sum_list_mono_buffer: "sum_list cs \<le> (\<Sum>c\<leftarrow>cs. c + (b::nat))"
  by (induction cs) simp_all

lemma plan_aux:
  assumes ok: "strategy_ok s" and tot: "zatoshis_valid tot_input" and fee: "zatoshis_valid fee"
    and f: "fees_fit f (zat fee)"
  shows "\<exists>split k n. let cs = take k split; minted = map (\<lambda>c. c + buffer_zatoshi s) cs;
      rest = zat tot_input - sum_list minted - n * zat fee in
    plan s tot_input note_count fee f = Some \<lparr>crossing_values = map Zatoshis cs,
      note_fee_buffer = Zatoshis (buffer_zatoshi s),
      change = (if 0 < rest then Some (Zatoshis rest) else None), prep_fees = Zatoshis (n * zat fee),
      total_input = tot_input, total_migratable = Zatoshis (sum_list cs)\<rparr> \<and>
    unconstrained_split s (zat tot_input) note_count (zat fee) = Some split \<and>
    split_result s (zat tot_input) note_count (zat fee) split \<and>
    k \<le> length split \<and> sum_list minted + n * zat fee \<le> zat tot_input \<and>
    (if k = 0 then n = 0 else mintable f (zat tot_input) (zat fee) minted n) \<and>
    (\<forall>j m. k < j \<and> j \<le> length split \<longrightarrow>
       \<not> mintable f (zat tot_input) (zat fee) (map (\<lambda>c. c + buffer_zatoshi s) (take j split)) m)"
proof -
  let ?b = "buffer_zatoshi s" and ?tot = "zat tot_input" and ?fee = "zat fee"
  have bounds: "?tot \<le> MAX_MONEY" "?fee \<le> MAX_MONEY" using tot fee by (simp_all add: zatoshis_valid_def)
  from unconstrained_split_aux [OF ok bounds] obtain cs where
    cs: "unconstrained_split s ?tot note_count ?fee = Some cs" "split_result s ?tot note_count ?fee cs"
    by blast
  have sum: "(\<Sum>c\<leftarrow>cs. c + ?b) \<le> ?tot" using split_result_facts(4) [OF ok bounds(1) cs(2)] .
  have minted: "map (\<lambda>c. u64_add c ?b) cs = map (\<lambda>c. c + ?b) cs"
  proof (rule map_cong [OF refl])
    fix c assume "c \<in> set cs"
    then have "c + ?b \<le> (\<Sum>c\<leftarrow>cs. c + ?b)" by (intro member_le_sum_list) auto
    then show "u64_add c ?b = c + ?b" using sum bounds by (simp add: u64_ok_def MAX_MONEY_eq)
  qed
  from reconcile_spec [OF bounds(1) f sum] obtain n k where
    r: "reconcile f ?tot ?fee cs (map (\<lambda>c. c + ?b) cs) = Some (n, take k cs, map (\<lambda>c. c + ?b) (take k cs))"
      "k \<le> length cs" "if k = 0 then n = 0 else mintable f ?tot ?fee (map (\<lambda>c. c + ?b) (take k cs)) n"
      "\<forall>j m. k < j \<and> j \<le> length cs \<longrightarrow> \<not> mintable f ?tot ?fee (map (\<lambda>c. c + ?b) (take j cs)) m"
    by blast
  have spent: "(\<Sum>c\<leftarrow>take k cs. c + ?b) + n * ?fee \<le> ?tot"
    using r(3) by (cases "k = 0") (simp_all add: mintable_def)
  have le: "sum_list (take k cs) \<le> (\<Sum>c\<leftarrow>take k cs. c + ?b)" by (rule sum_list_mono_buffer)
  have b: "?b \<le> MAX_MONEY" using ok by (simp add: strategy_ok_def)
  have ex: "u64_sum (map (\<lambda>c. c + ?b) (take k cs)) = (\<Sum>c\<leftarrow>take k cs. c + ?b)"
      "u64_sum (take k cs) = sum_list (take k cs)" "u64_mul n ?fee = n * ?fee"
      "expect_zats (take k cs) = Some (map Zatoshis (take k cs))"
    using spent le bounds by (auto intro!: u64_sum_exact expect_zats_ok u64_mul_exact simp: u64_ok_def MAX_MONEY_eq)
  show ?thesis
    by (rule exI [of _ cs], rule exI [of _ k], rule exI [of _ n])
      (use spent le bounds b cs r in \<open>auto simp: Let_def plan_def minted from_notes_def ex
        u64_saturating_sub_def expect_zat_ok\<close>)
qed

section \<open>The properties of a plan\<close>

text \<open>
  C30. The quantisation of a balance always returns and never wraps. Its crossings are a
  non-increasing list of series elements within the strategy's bounds, at most \<open>max_notes\<close> long,
  whose notes the balance covers. Apart from the exact-funding case it is the greedy split: each
  crossing is the greatest denomination that still fits with its transfer buffer and the
  optimistic preparation fees, and the split stops only at the note cap or when no denomination
  fits.
\<close>

theorem unconstrained_split_greedy:
  assumes "strategy_ok s" "tot \<le> MAX_MONEY" "fee \<le> MAX_MONEY"
  shows "\<exists>cs. unconstrained_split s tot note_count fee = Some cs \<and>
    sorted (rev cs) \<and> length cs \<le> max_notes s \<and>
    (\<forall>c\<in>set cs. one_two_five c \<and> min_denomination_zatoshi s \<le> c \<and> c \<le> max_denomination_zatoshi s) \<and>
    (\<Sum>c\<leftarrow>cs. c + buffer_zatoshi s) \<le> tot \<and>
    (note_count = 1 \<and> cs = [tot - buffer_zatoshi s] \<or>
     greedy s tot fee cs \<and> spent s fee cs \<le> tot \<and>
       (length cs = max_notes s \<or> (\<forall>w. \<not> admits s tot fee cs w)))"
proof -
  obtain cs where cs: "unconstrained_split s tot note_count fee = Some cs"
    "split_result s tot note_count fee cs" using unconstrained_split_aux [OF assms] by blast
  moreover have "note_count = 1 \<and> cs = [tot - buffer_zatoshi s] \<or>
     greedy s tot fee cs \<and> spent s fee cs \<le> tot \<and>
       (length cs = max_notes s \<or> (\<forall>w. \<not> admits s tot fee cs w))"
    using cs(2) greedy_spent unfolding split_result_def exact_funding_iff [OF assms(1,2)]
    by (auto split: if_splits)
  ultimately show ?thesis using split_result_facts [OF assms(1,2) cs(2)] by blast
qed

lemma recommended_ok: "strategy_ok (recommended (Zatoshis 20000))"
  by (simp add: recommended_def strategy_ok_with_max_notes zatoshis_valid_def MAX_MONEY_eq)

theorem unconstrained_split_greedy_witness:
  "\<exists>cs. unconstrained_split (recommended (Zatoshis 20000)) 54000000 2 80000 = Some cs \<and>
     length cs \<le> 50 \<and> (\<Sum>c\<leftarrow>cs. c + 20000) \<le> 54000000"
  using unconstrained_split_greedy [OF recommended_ok, of 54000000 80000 2]
  by (auto simp: MAX_MONEY_eq recommended_def with_max_notes_def strategy_new_def
      MIGRATION_MAX_PREPARED_NOTES_PER_RUN_def)

text \<open>
  C29. A plan conserves value: for a valid balance and fee it is always produced, and the balance
  is exactly the crossing values, one transfer buffer for each of them, the preparation fees and
  the change; the change is absent when it would be zero, \<open>total_migratable\<close> is the sum of the
  crossings, and \<open>migration_outputs\<close> succeeds with each crossing plus the buffer.
\<close>

theorem plan_conserves_value:
  assumes "strategy_ok s" "zatoshis_valid tot_input" "zatoshis_valid fee" "fees_fit f (zat fee)"
  shows "\<exists>p. plan s tot_input note_count fee f = Some p \<and> total_input p = tot_input \<and>
    zat tot_input = (\<Sum>c\<leftarrow>crossing_values p. zat c) + length (crossing_values p) * buffer_zatoshi s +
      zat (prep_fees p) + (case change p of None \<Rightarrow> 0 | Some c \<Rightarrow> zat c) \<and>
    change p \<noteq> Some (Zatoshis 0) \<and>
    zat (total_migratable p) = (\<Sum>c\<leftarrow>crossing_values p. zat c) \<and>
    migration_outputs p = Some (map (\<lambda>c. Zatoshis (zat c + buffer_zatoshi s)) (crossing_values p))"
proof -
  have b: "(\<Sum>c\<leftarrow>cs. c + b) = sum_list cs + length cs * b" for cs and b :: nat
    by (induction cs) simp_all
  from plan_aux [OF assms, of note_count] obtain split k n where
    p: "plan s tot_input note_count fee f = Some \<lparr>crossing_values = map Zatoshis (take k split),
      note_fee_buffer = Zatoshis (buffer_zatoshi s),
      change = (if 0 < zat tot_input - (\<Sum>c\<leftarrow>take k split. c + buffer_zatoshi s) - n * zat fee
        then Some (Zatoshis (zat tot_input - (\<Sum>c\<leftarrow>take k split. c + buffer_zatoshi s) - n * zat fee)) else None),
      prep_fees = Zatoshis (n * zat fee),
      total_input = tot_input, total_migratable = Zatoshis (sum_list (take k split))\<rparr>"
    and le: "(\<Sum>c\<leftarrow>take k split. c + buffer_zatoshi s) + n * zat fee \<le> zat tot_input"
    unfolding Let_def by blast
  have "(\<Sum>c\<leftarrow>take k split. c + buffer_zatoshi s) \<le> MAX_MONEY"
    using le assms(2) by (simp add: zatoshis_valid_def)
  from add_buffers_ok [OF this] p le show ?thesis
    by (auto simp: migration_outputs_def b o_def)
qed

lemma fees_fit_two: "fees_fit (\<lambda>ns. Some 2) 80000"
  by (simp add: fees_fit_def u64_ok_def)

theorem plan_conserves_value_witness:
  "\<exists>p. plan (recommended (Zatoshis 20000)) (Zatoshis 54000000) 2 (Zatoshis 80000) (\<lambda>ns. Some 2) = Some p \<and>
     54000000 = (\<Sum>c\<leftarrow>crossing_values p. zat c) + length (crossing_values p) * 20000 +
       zat (prep_fees p) + (case change p of None \<Rightarrow> 0 | Some c \<Rightarrow> zat c)"
  using plan_conserves_value [OF recommended_ok, of "Zatoshis 54000000" "Zatoshis 80000" "\<lambda>ns. Some 2" 2]
  by (auto simp: zatoshis_valid_def MAX_MONEY_eq fees_fit_two recommended_def with_max_notes_def
      strategy_new_def)

text \<open>
  Reconciliation only truncates: the published crossings are a prefix of the split of the
  balance, so the planner's answers never put another value on the chain. The prefix is empty, with
  no preparation fee, or one the planner mints with the fees the plan reserves; and it is the
  longest one: every longer prefix is refused by the planner or costs more than the balance.
\<close>

theorem plan_truncates_split:
  assumes "strategy_ok s" "zatoshis_valid tot_input" "zatoshis_valid fee" "fees_fit f (zat fee)"
  shows "\<exists>p split k. plan s tot_input note_count fee f = Some p \<and>
    unconstrained_split s (zat tot_input) note_count (zat fee) = Some split \<and>
    k \<le> length split \<and> map zat (crossing_values p) = take k split \<and>
    (if k = 0 then prep_fees p = Zatoshis 0
     else \<exists>n. mintable f (zat tot_input) (zat fee) (map (\<lambda>c. c + buffer_zatoshi s) (take k split)) n \<and>
       zat (prep_fees p) = n * zat fee) \<and>
    (\<forall>j m. k < j \<and> j \<le> length split \<longrightarrow>
       \<not> mintable f (zat tot_input) (zat fee) (map (\<lambda>c. c + buffer_zatoshi s) (take j split)) m)"
proof -
  have zats: "map zat (map Zatoshis xs) = xs" for xs by (simp add: o_def)
  from plan_aux [OF assms, of note_count] obtain split k n p where
    "plan s tot_input note_count fee f = Some p"
    "crossing_values p = map Zatoshis (take k split)" "prep_fees p = Zatoshis (n * zat fee)"
    "unconstrained_split s (zat tot_input) note_count (zat fee) = Some split" "k \<le> length split"
    "if k = 0 then n = 0
     else mintable f (zat tot_input) (zat fee) (map (\<lambda>c. c + buffer_zatoshi s) (take k split)) n"
    "\<forall>j m. k < j \<and> j \<le> length split \<longrightarrow>
       \<not> mintable f (zat tot_input) (zat fee) (map (\<lambda>c. c + buffer_zatoshi s) (take j split)) m"
    unfolding Let_def by (metis DenominationPlan.select_convs(1,4))
  then show ?thesis
    by (intro exI [of _ p] exI [of _ split] exI [of _ k]) (auto simp: zats simp del: map_map split: if_splits)
qed

theorem plan_truncates_split_witness:
  "\<exists>p. plan (recommended (Zatoshis 20000)) (Zatoshis 54000000) 2 (Zatoshis 80000) (\<lambda>ns. None) = Some p \<and>
     crossing_values p = [] \<and> prep_fees p = Zatoshis 0"
proof -
  have "fees_fit (\<lambda>ns. None) 80000" by (simp add: fees_fit_def)
  then show ?thesis
    using plan_truncates_split [OF recommended_ok, of "Zatoshis 54000000" "Zatoshis 80000" "\<lambda>ns. None" 2]
    by (auto simp: zatoshis_valid_def MAX_MONEY_eq mintable_def split: if_splits)
qed

lemma strategy_fields [simp]:
  "max_notes (with_max_notes n b) = n" "buffer_zatoshi (with_max_notes n b) = zat b"
  "min_denomination_zatoshi (with_max_notes n b) = 1000000"
  "max_denomination_zatoshi (with_max_notes n b) = 1000000000000"
  by (simp_all add: with_max_notes_def strategy_new_def MAX_RESIDUAL_VALUE_def DENOM_CAP_def COIN_def)

text \<open>
  Under the ZIP 318 bounds every published crossing value is a canonical denomination, the
  number of crossings respects the cap, and a plan made from stored parts is accepted back
  unchanged.
\<close>

theorem plan_denominations_canonical:
  assumes "zatoshis_valid tot_input" "zatoshis_valid fee" "zatoshis_valid b" "fees_fit f (zat fee)"
  shows "\<exists>p. plan_denominations tot_input note_count n b fee f = Some p \<and>
    (\<forall>c\<in>set (crossing_values p). is_canonical_denomination c = Some True) \<and>
    length (crossing_values p) \<le> n \<and>
    from_stored_parts (crossing_values p) (note_fee_buffer p) (change p) (prep_fees p)
      (total_input p) (total_migratable p) = Inr p"
proof -
  let ?s = "with_max_notes n b"
  have ok: "strategy_ok ?s" using assms(3) by (rule strategy_ok_with_max_notes)
  have tot: "zat tot_input \<le> MAX_MONEY" using assms(1) by (simp add: zatoshis_valid_def)
  from plan_aux [OF ok assms(1,2,4), of note_count] obtain split k where
    p: "\<exists>p. plan ?s tot_input note_count fee f = Some p \<and> crossing_values p = map Zatoshis (take k split) \<and>
      note_fee_buffer p = b"
    and split: "split_result ?s (zat tot_input) note_count (zat fee) split"
    and le: "(\<Sum>c\<leftarrow>take k split. c + zat b) \<le> zat tot_input"
    unfolding Let_def by fastforce
  note facts = split_result_facts [OF ok tot split]
  have "is_canonical_denomination (Zatoshis c) = Some True" if "c \<in> set (take k split)" for c
    using facts(3) that by (auto simp: is_canonical_denomination_eq dest: in_set_takeD)
  moreover have "length (take k split) \<le> n" using facts(2) by simp
  moreover have "zatoshis_add (Zatoshis c) b \<noteq> None" if "c \<in> set (take k split)" for c
  proof -
    have "c + zat b \<le> (\<Sum>c\<leftarrow>take k split. c + zat b)" using that by (intro member_le_sum_list) auto
    then show ?thesis using le tot
      by (simp add: zatoshis_add_def u64_checked_add_def zatoshis_from_u64_def MAX_MONEY_eq result_ok_def)
  qed
  moreover obtain p where "plan ?s tot_input note_count fee f = Some p"
    "crossing_values p = map Zatoshis (take k split)" "note_fee_buffer p = b" using p by blast
  ultimately show ?thesis
    by (intro exI [of _ p]) (auto simp: plan_denominations_def from_stored_parts_def simp del: strategy_fields)
qed

theorem plan_denominations_canonical_witness:
  "\<exists>p. plan_denominations (Zatoshis 54000000) 2 50 (Zatoshis 20000) (Zatoshis 80000) (\<lambda>ns. Some 2) = Some p \<and>
    (\<forall>c\<in>set (crossing_values p). is_canonical_denomination c = Some True)"
  using plan_denominations_canonical [of "Zatoshis 54000000" "Zatoshis 80000" "Zatoshis 20000" "\<lambda>ns. Some 2" 2 50]
  by (auto simp: zatoshis_valid_def MAX_MONEY_eq fees_fit_two)

text \<open>
  Whether a balance has a canonical split does not depend on the cap: for every positive
  \<open>max_notes\<close> the answer says that some denomination fits with its buffer and one preparation fee,
  or that a lone note is exactly a denomination plus its buffer.
\<close>

theorem balance_has_canonical_split_iff:
  assumes "zatoshis_valid tot_input" "zatoshis_valid fee" "zatoshis_valid b" "0 < n"
  shows "balance_has_canonical_split tot_input note_count n b fee =
    Some (\<exists>c. one_two_five c \<and> 1000000 \<le> c \<and> c \<le> 1000000000000 \<and>
      (c + zat b + zat fee \<le> zat tot_input \<or> note_count = 1 \<and> zat tot_input = c + zat b))"
proof -
  let ?s = "with_max_notes n b"
  have ok: "strategy_ok ?s" using assms(3) by (rule strategy_ok_with_max_notes)
  have bounds: "zat tot_input \<le> MAX_MONEY" "zat fee \<le> MAX_MONEY"
    using assms by (simp_all add: zatoshis_valid_def)
  obtain cs where cs: "unconstrained_split ?s (zat tot_input) note_count (zat fee) = Some cs"
    "split_result ?s (zat tot_input) note_count (zat fee) cs"
    using unconstrained_split_aux [OF ok bounds] by blast
  have one: "admits ?s (zat tot_input) (zat fee) [] w \<longleftrightarrow> one_two_five w \<and> 1000000 \<le> w \<and>
      w \<le> 1000000000000 \<and> w + zat b + zat fee \<le> zat tot_input" for w
    by (simp add: admits_def spent_def optimistic_txs_def nat_div_ceil_def FUNDING_OUTPUTS_PER_TX_def
        PREP_TX_ACTIONS_def)
  have "cs \<noteq> [] \<longleftrightarrow> (\<exists>w. admits ?s (zat tot_input) (zat fee) [] w)"
    if "greedy ?s (zat tot_input) (zat fee) cs"
      "length cs = n \<or> (\<forall>w. \<not> admits ?s (zat tot_input) (zat fee) cs w)"
  proof (cases cs)
    case (Cons c rest)
    then have "admits ?s (zat tot_input) (zat fee) [] c" using that(1) by (auto simp: greedy_def)
    with Cons show ?thesis by auto
  qed (use that(2) assms(4) in auto)
  with cs assms(4) show ?thesis
    by (auto simp: balance_has_canonical_split_def split_result_def exact_funding_iff [OF ok bounds(1)] one
        split: if_splits)
qed

theorem balance_has_canonical_split_iff_witness:
  "balance_has_canonical_split (Zatoshis 1020000) 1 50 (Zatoshis 20000) (Zatoshis 80000) = Some True"
proof -
  have "one_two_five 1000000" by (auto simp: one_two_five_def intro: exI [of _ 6])
  then show ?thesis
    using balance_has_canonical_split_iff [of "Zatoshis 1020000" "Zatoshis 80000" "Zatoshis 20000" 50 1]
    by (auto simp: zatoshis_valid_def MAX_MONEY_eq)
qed

end
