(* ===== verification/Preparation.thy ===== *)
theory Preparation
  imports Denomination "HOL-Library.Multiset" "HOL-Library.List_Lexorder" "HOL-Library.Product_Lexorder"
begin

text \<open>
  Model of \<open>zcash_pool_migration/src/preparation.rs\<close>: the notes, transactions and plans of the
  note preparation, the certificate a plan must pass, the ranking of plans, and the portfolio of
  strategies. A portfolio, a type-level list in the code, is a list of strategies; a strategy is a
  function that may also panic.
\<close>

section \<open>Plans\<close>

definition CONSOLIDATION_INPUTS_PER_TX :: nat where
  "CONSOLIDATION_INPUTS_PER_TX = PREP_TX_ACTIONS - 1"

datatype PrepInput =
    WalletNote (note_index: nat) Zatoshis
  | PriorNote (prior_layer: nat) (prior_transaction: nat) (prior_output: nat) Zatoshis

definition input_value :: "PrepInput \<Rightarrow> Zatoshis" where
  "input_value i = (case i of WalletNote _ v \<Rightarrow> v | PriorNote _ _ _ v \<Rightarrow> v)"

datatype PrepOutput = Funding Zatoshis | Intermediate Zatoshis | Change Zatoshis

definition output_value :: "PrepOutput \<Rightarrow> Zatoshis" where
  "output_value out = (case out of Funding v \<Rightarrow> v | Intermediate v \<Rightarrow> v | Change v \<Rightarrow> v)"

definition output_role :: "PrepOutput \<Rightarrow> string" where
  "output_role out =
     (case out of Funding _ \<Rightarrow> ''funding'' | Intermediate _ \<Rightarrow> ''intermediate'' | Change _ \<Rightarrow> ''change'')"

definition output_from_role :: "string \<Rightarrow> Zatoshis \<Rightarrow> PrepOutput option" where
  "output_from_role role v =
     (if role = ''funding'' then Some (Funding v)
      else if role = ''intermediate'' then Some (Intermediate v)
      else if role = ''change'' then Some (Change v)
      else None)"

record PrepTransaction =
  inputs :: "PrepInput list"
  outputs :: "PrepOutput list"

definition action_count :: "PrepTransaction \<Rightarrow> nat" where
  "action_count tx = length (inputs tx) + length (outputs tx)"

record PreparationPlan =
  layers :: "PrepTransaction list list"
  direct_funding :: "(nat \<times> Zatoshis) list"

definition layer_count :: "PreparationPlan \<Rightarrow> nat" where
  "layer_count p = length (layers p)"

definition transaction_count :: "PreparationPlan \<Rightarrow> nat" where
  "transaction_count p = sum_list (map length (layers p))"

definition all_outputs :: "PreparationPlan \<Rightarrow> PrepOutput list" where
  "all_outputs p = concat (map outputs (concat (layers p)))"

definition funding_notes :: "PreparationPlan \<Rightarrow> Zatoshis list" where
  "funding_notes p =
     List.map_filter (\<lambda>out. case out of Funding v \<Rightarrow> Some v | _ \<Rightarrow> None) (all_outputs p) @ map snd (direct_funding p)"

definition residual_notes :: "PreparationPlan \<Rightarrow> Zatoshis list" where
  "residual_notes p = List.map_filter (\<lambda>out. case out of Change v \<Rightarrow> Some v | _ \<Rightarrow> None) (all_outputs p)"

definition residual_count :: "PreparationPlan \<Rightarrow> nat" where
  "residual_count p = length (residual_notes p)"

section \<open>The certificate\<close>

text \<open>\<open>slice::get\<close>.\<close>

definition list_get :: "'a list \<Rightarrow> nat \<Rightarrow> 'a option" where
  "list_get xs i = (if i < length xs then Some (xs ! i) else None)"

text \<open>The notes spent so far: a flag for each source note, and the prior outputs. \<open>None\<close> is \<open>return false\<close>.\<close>

type_synonym spent_notes = "bool list \<times> (nat \<times> nat \<times> nat) list"

definition spend_source :: "Zatoshis list \<Rightarrow> spent_notes \<Rightarrow> nat \<times> Zatoshis \<Rightarrow> spent_notes option" where
  "spend_source available = (\<lambda>(spent_source, spent_prior) (index, v).
     if list_get available index \<noteq> Some v then None
     else if spent_source ! index then None
     else Some (spent_source[index := True], spent_prior))"

fun check_input ::
    "PrepTransaction list list \<Rightarrow> Zatoshis list \<Rightarrow> nat \<Rightarrow> spent_notes \<Rightarrow> PrepInput \<Rightarrow> spent_notes option" where
  "check_input ls available layer_index sp (WalletNote index v) = spend_source available sp (index, v)"
| "check_input ls available layer_index (spent_source, spent_prior) (PriorNote l t k v) =
     (if layer_index \<le> l then None
      else
        let produced =
          Option.bind (list_get ls l) (\<lambda>txs. Option.bind (list_get txs t) (\<lambda>tx. list_get (outputs tx) k))
        in if map_option output_value produced \<noteq> Some v then None
           else if (l, t, k) \<in> set spent_prior then None
           else Some (spent_source, spent_prior @ [(l, t, k)]))"

definition check_transaction ::
    "PrepTransaction list list \<Rightarrow> Zatoshis list \<Rightarrow> nat \<Rightarrow> nat \<Rightarrow> spent_notes \<Rightarrow> PrepTransaction \<Rightarrow> spent_notes option" where
  "check_transaction ls available fee layer_index sp tx =
     (if inputs tx = [] \<or> outputs tx = [] \<or> PREP_TX_ACTIONS < action_count tx then None
      else
        let ins = u64_sum (map (zat \<circ> input_value) (inputs tx));
            outs = u64_sum (map (zat \<circ> output_value) (outputs tx))
        in if ins \<noteq> u64_add outs fee then None
           else try_fold (check_input ls available layer_index) sp (inputs tx))"

definition check_layers ::
    "PrepTransaction list list \<Rightarrow> Zatoshis list \<Rightarrow> nat \<Rightarrow> spent_notes \<Rightarrow> spent_notes option" where
  "check_layers ls available fee start =
     try_fold (\<lambda>sp (layer_index, layer). try_fold (check_transaction ls available fee layer_index) sp layer)
       start (enumerate 0 ls)"

definition is_valid :: "PreparationPlan \<Rightarrow> Zatoshis list \<Rightarrow> Zatoshis list \<Rightarrow> Zatoshis \<Rightarrow> bool" where
  "is_valid self available funding fee_per_tx =
     (let minted = sort (funding_notes self);
          requested = sort (filter (\<lambda>v. v \<noteq> zatoshis_ZERO) funding)
      in if minted \<noteq> requested then False
         else case check_layers (layers self) available (zat fee_per_tx) (replicate (length available) False, []) of
           None \<Rightarrow> False
         | Some sp \<Rightarrow> try_fold (spend_source available) sp (direct_funding self) \<noteq> None)"

section \<open>The ranking\<close>

definition encode_list :: "('a \<Rightarrow> nat list) \<Rightarrow> 'a list \<Rightarrow> nat list" where
  "encode_list enc xs = length xs # concat (map enc xs)"

fun encode_input :: "PrepInput \<Rightarrow> nat list" where
  "encode_input (WalletNote index v) = [0, index, zat v]"
| "encode_input (PriorNote l t k v) = [1, l, t, k, zat v]"

fun encode_output :: "PrepOutput \<Rightarrow> nat list" where
  "encode_output (Funding v) = [0, zat v]"
| "encode_output (Intermediate v) = [1, zat v]"
| "encode_output (Change v) = [2, zat v]"

definition encode_transaction :: "PrepTransaction \<Rightarrow> nat list" where
  "encode_transaction tx = encode_list encode_input (inputs tx) @ encode_list encode_output (outputs tx)"

definition encode_shape :: "PreparationPlan \<Rightarrow> nat list" where
  "encode_shape p =
     encode_list (\<lambda>(index, v). [index, zat v]) (direct_funding p) @
     encode_list (encode_list encode_transaction) (layers p)"

datatype PlanQuality =
  PlanQuality (quality_layers: nat) (quality_transactions: nat) (quality_residual_notes: nat) (quality_shape: "nat list")

instantiation PlanQuality :: linorder
begin

definition less_eq_PlanQuality :: "PlanQuality \<Rightarrow> PlanQuality \<Rightarrow> bool" where
  "less_eq_PlanQuality a b \<longleftrightarrow>
     (quality_layers a, quality_transactions a, quality_residual_notes a, quality_shape a) \<le>
     (quality_layers b, quality_transactions b, quality_residual_notes b, quality_shape b)"

definition less_PlanQuality :: "PlanQuality \<Rightarrow> PlanQuality \<Rightarrow> bool" where
  "less_PlanQuality a b \<longleftrightarrow> a \<le> b \<and> a \<noteq> (b :: PlanQuality)"

instance
  by intro_classes (auto simp: less_eq_PlanQuality_def less_PlanQuality_def PlanQuality.expand split: if_splits)

end

definition quality_of :: "PreparationPlan \<Rightarrow> PlanQuality" where
  "quality_of p = PlanQuality (layer_count p) (transaction_count p) (residual_count p) (encode_shape p)"

section \<open>The portfolio\<close>

datatype PrepError = InsufficientFunds | BalanceInvalid

type_synonym plan_result = "(PrepError + PreparationPlan) option"

record PreparationStrategy =
  strategy_name :: string
  strategy_plan :: "Zatoshis list \<Rightarrow> Zatoshis list \<Rightarrow> Zatoshis \<Rightarrow> plan_result"

type_synonym Ranked = "(string \<times> PreparationPlan) option"

definition evaluate :: "PreparationStrategy \<Rightarrow> Zatoshis list \<Rightarrow> Zatoshis list \<Rightarrow> Zatoshis \<Rightarrow> Ranked option" where
  "evaluate strategy available funding fee_per_tx =
     map_option (\<lambda>r. case r of
         Inl _ \<Rightarrow> None
       | Inr p \<Rightarrow> if is_valid p available funding fee_per_tx then Some (strategy_name strategy, p) else None)
     (strategy_plan strategy available funding fee_per_tx)"

fun join_ranked :: "Ranked \<Rightarrow> Ranked \<Rightarrow> Ranked" where
  "join_ranked (Some left) (Some right) =
     (if quality_of (snd left) \<le> quality_of (snd right) then Some left else Some right)"
| "join_ranked candidate None = candidate"
| "join_ranked None candidate = candidate"

primrec best_plan ::
    "PreparationStrategy list \<Rightarrow> Zatoshis list \<Rightarrow> Zatoshis list \<Rightarrow> Zatoshis \<Rightarrow> Ranked option" where
  "best_plan [] available funding fee_per_tx = Some None"
| "best_plan (head # tail) available funding fee_per_tx =
     Option.bind (evaluate head available funding fee_per_tx) (\<lambda>r.
       map_option (join_ranked r) (best_plan tail available funding fee_per_tx))"

definition validate_instance :: "Zatoshis list \<Rightarrow> Zatoshis list \<Rightarrow> PrepError + unit" where
  "validate_instance available funding =
     (if zatoshis_iter_sum available = None then Inl BalanceInvalid
      else if zatoshis_iter_sum funding = None then Inl BalanceInvalid
      else Inr ())"

definition plan_preparation_with ::
    "PreparationStrategy list \<Rightarrow> Zatoshis list \<Rightarrow> Zatoshis list \<Rightarrow> Zatoshis \<Rightarrow> plan_result" where
  "plan_preparation_with portfolio available funding fee_per_tx =
     (case validate_instance available funding of
        Inl e \<Rightarrow> Some (Inl e)
      | Inr _ \<Rightarrow>
          map_option (\<lambda>r. case r of Some (_, p) \<Rightarrow> Inr p | None \<Rightarrow> Inl InsufficientFunds)
            (best_plan portfolio available funding fee_per_tx))"

section \<open>What the certificate says\<close>

fun wallet_ref :: "PrepInput \<Rightarrow> nat list" where
  "wallet_ref (WalletNote i v) = [i]"
| "wallet_ref (PriorNote l t k v) = []"

fun prior_ref :: "PrepInput \<Rightarrow> (nat \<times> nat \<times> nat) list" where
  "prior_ref (WalletNote i v) = []"
| "prior_ref (PriorNote l t k v) = [(l, t, k)]"

definition source_ok :: "Zatoshis list \<Rightarrow> nat \<times> Zatoshis \<Rightarrow> bool" where
  "source_ok available d \<longleftrightarrow> fst d < length available \<and> available ! fst d = snd d"

fun input_ok :: "PrepTransaction list list \<Rightarrow> Zatoshis list \<Rightarrow> nat \<Rightarrow> PrepInput \<Rightarrow> bool" where
  "input_ok ls available layer_index (WalletNote i v) \<longleftrightarrow> source_ok available (i, v)"
| "input_ok ls available layer_index (PriorNote l t k v) \<longleftrightarrow>
     l < layer_index \<and> l < length ls \<and> t < length (ls ! l) \<and> k < length (outputs (ls ! l ! t)) \<and>
     output_value (outputs (ls ! l ! t) ! k) = v"

definition transaction_ok :: "nat \<Rightarrow> PrepTransaction \<Rightarrow> bool" where
  "transaction_ok fee tx \<longleftrightarrow> inputs tx \<noteq> [] \<and> outputs tx \<noteq> [] \<and> action_count tx \<le> PREP_TX_ACTIONS \<and>
     (\<Sum>i\<leftarrow>inputs tx. zat (input_value i)) = (\<Sum>out\<leftarrow>outputs tx. zat (output_value out)) + fee"

definition certified :: "PreparationPlan \<Rightarrow> Zatoshis list \<Rightarrow> Zatoshis list \<Rightarrow> Zatoshis \<Rightarrow> bool" where
  "certified p available funding fee \<longleftrightarrow>
     mset (funding_notes p) = mset (filter (\<lambda>v. v \<noteq> zatoshis_ZERO) funding) \<and>
     (\<forall>l<length (layers p). \<forall>tx\<in>set (layers p ! l).
        transaction_ok (zat fee) tx \<and> (\<forall>i\<in>set (inputs tx). input_ok (layers p) available l i)) \<and>
     (\<forall>d\<in>set (direct_funding p). source_ok available d) \<and>
     distinct (concat (map wallet_ref (concat (map inputs (concat (layers p))))) @ map fst (direct_funding p)) \<and>
     distinct (concat (map prior_ref (concat (map inputs (concat (layers p))))))"

text \<open>The state of the checks after notes have been spent.\<close>

definition spent_state :: "nat \<Rightarrow> nat list \<Rightarrow> (nat \<times> nat \<times> nat) list \<Rightarrow> spent_notes" where
  "spent_state n used priors = (map (\<lambda>i. i \<in> set used) [0..<n], priors)"

definition once :: "nat list \<Rightarrow> (nat \<times> nat \<times> nat) list \<Rightarrow> bool" where
  "once used priors \<longleftrightarrow> distinct used \<and> distinct priors"

lemma once_append: "once (u @ v) (p @ q) \<Longrightarrow> once u p"
  by (simp add: once_def)

text \<open>
  A check that spends notes: it succeeds exactly if its own condition holds and no note is spent
  twice, and then adds the notes to the state.
\<close>

locale spending =
  fixes n :: nat and step :: "spent_notes \<Rightarrow> 'x \<Rightarrow> spent_notes option" and good :: "'x \<Rightarrow> bool"
    and wallet :: "'x \<Rightarrow> nat list" and prior :: "'x \<Rightarrow> (nat \<times> nat \<times> nat) list"
  assumes step: "once u p \<Longrightarrow> step (spent_state n u p) x =
    (if good x \<and> once (u @ wallet x) (p @ prior x) then Some (spent_state n (u @ wallet x) (p @ prior x)) else None)"
begin

lemma fold: "once u p \<Longrightarrow> try_fold step (spent_state n u p) xs =
  (if (\<forall>x\<in>set xs. good x) \<and> once (u @ concat (map wallet xs)) (p @ concat (map prior xs))
   then Some (spent_state n (u @ concat (map wallet xs)) (p @ concat (map prior xs))) else None)"
proof (induction xs arbitrary: u p)
  case (Cons x xs)
  show ?case
  proof (cases "good x \<and> once (u @ wallet x) (p @ prior x)")
    case True
    then show ?thesis using step [OF Cons.prems] Cons.IH [of "u @ wallet x" "p @ prior x"] by simp
  next
    case False
    then have "\<not> (good x \<and> once (u @ concat (map wallet (x # xs))) (p @ concat (map prior (x # xs))))"
      using once_append [of "u @ wallet x" "concat (map wallet xs)" "p @ prior x" "concat (map prior xs)"] by auto
    then show ?thesis using False step [OF Cons.prems] by auto
  qed
qed simp

end

interpretation spend_source: spending "length available" "spend_source available" "source_ok available"
    "\<lambda>d. [fst d]" "\<lambda>d. []" for available
proof
  fix u p and x :: "nat \<times> Zatoshis" assume o1: "once u p"
  have upd: "(map (\<lambda>j. j \<in> set u) [0..<length available])[i := True] =
      map (\<lambda>j. j \<in> set (u @ [i])) [0..<length available]" if "i < length available" for i
    using that by (intro nth_equalityI) (auto simp: nth_list_update)
  show "spend_source available (spent_state (length available) u p) x =
      (if source_ok available x \<and> once (u @ [fst x]) (p @ [])
       then Some (spent_state (length available) (u @ [fst x]) (p @ [])) else None)"
    using o1 upd by (cases x) (auto simp: spend_source_def spent_state_def list_get_def source_ok_def once_def)
qed

interpretation check_input: spending "length available" "check_input ls available li" "input_ok ls available li"
    wallet_ref prior_ref for available ls li
proof
  fix u p x assume o1: "once u p"
  show "check_input ls available li (spent_state (length available) u p) x =
      (if input_ok ls available li x \<and> once (u @ wallet_ref x) (p @ prior_ref x)
       then Some (spent_state (length available) (u @ wallet_ref x) (p @ prior_ref x)) else None)"
  proof (cases x)
    case (WalletNote i v)
    then show ?thesis using spend_source.step [OF o1, of available "(i, v)"] by simp
  next
    case (PriorNote l t k v)
    then show ?thesis using o1
      by (auto simp: spent_state_def once_def list_get_def Let_def not_le)
  qed
qed

text \<open>The conditions of a transaction as the code computes them, and exactly.\<close>

definition transaction_checks :: "nat \<Rightarrow> PrepTransaction \<Rightarrow> bool" where
  "transaction_checks fee tx \<longleftrightarrow> inputs tx \<noteq> [] \<and> outputs tx \<noteq> [] \<and> action_count tx \<le> PREP_TX_ACTIONS \<and>
     u64_sum (map (zat \<circ> input_value) (inputs tx)) = u64_add (u64_sum (map (zat \<circ> output_value) (outputs tx))) fee"

interpretation check_transaction: spending "length available" "check_transaction ls available fee li"
    "\<lambda>tx. transaction_checks fee tx \<and> (\<forall>i\<in>set (inputs tx). input_ok ls available li i)"
    "\<lambda>tx. concat (map wallet_ref (inputs tx))" "\<lambda>tx. concat (map prior_ref (inputs tx))" for available ls fee li
proof
  fix u p tx assume o1: "once u p"
  show "check_transaction ls available fee li (spent_state (length available) u p) tx =
      (if (transaction_checks fee tx \<and> (\<forall>i\<in>set (inputs tx). input_ok ls available li i)) \<and>
         once (u @ concat (map wallet_ref (inputs tx))) (p @ concat (map prior_ref (inputs tx)))
       then Some (spent_state (length available) (u @ concat (map wallet_ref (inputs tx))) (p @ concat (map prior_ref (inputs tx))))
       else None)"
    using check_input.fold [OF o1, of ls available li "inputs tx"]
    by (auto simp: check_transaction_def transaction_checks_def Let_def)
qed

interpretation check_layer: spending "length available"
    "\<lambda>sp (li, layer). try_fold (check_transaction ls available fee li) sp layer"
    "\<lambda>(li, layer). \<forall>tx\<in>set layer. transaction_checks fee tx \<and> (\<forall>i\<in>set (inputs tx). input_ok ls available li i)"
    "\<lambda>(li, layer). concat (map wallet_ref (concat (map inputs layer)))"
    "\<lambda>(li, layer). concat (map prior_ref (concat (map inputs layer)))" for available ls fee
proof
  fix u p and x :: "nat \<times> PrepTransaction list" assume o1: "once u p"
  have c: "concat (map (\<lambda>tx. concat (map f (inputs tx))) layer) = concat (map f (concat (map inputs layer)))"
    for f :: "PrepInput \<Rightarrow> 'z list" and layer by (induction layer) simp_all
  show "(case x of (li, layer) \<Rightarrow> try_fold (check_transaction ls available fee li) (spent_state (length available) u p) layer) =
      (if (case x of (li, layer) \<Rightarrow> \<forall>tx\<in>set layer. transaction_checks fee tx \<and> (\<forall>i\<in>set (inputs tx). input_ok ls available li i)) \<and>
         once (u @ (case x of (li, layer) \<Rightarrow> concat (map wallet_ref (concat (map inputs layer)))))
           (p @ (case x of (li, layer) \<Rightarrow> concat (map prior_ref (concat (map inputs layer)))))
       then Some (spent_state (length available) (u @ (case x of (li, layer) \<Rightarrow> concat (map wallet_ref (concat (map inputs layer)))))
         (p @ (case x of (li, layer) \<Rightarrow> concat (map prior_ref (concat (map inputs layer))))))
       else None)"
    using check_transaction.fold [OF o1, of ls available fee "fst x" "snd x"] unfolding c by (cases x) simp
qed

text \<open>The notes a plan holds are valid amounts, as the type of the code keeps them.\<close>

definition transaction_values_valid :: "PrepTransaction \<Rightarrow> bool" where
  "transaction_values_valid tx \<longleftrightarrow>
     (\<forall>i\<in>set (inputs tx). zatoshis_valid (input_value i)) \<and> (\<forall>out\<in>set (outputs tx). zatoshis_valid (output_value out))"

definition plan_values_valid :: "PreparationPlan \<Rightarrow> bool" where
  "plan_values_valid p \<longleftrightarrow> (\<forall>tx\<in>set (concat (layers p)). transaction_values_valid tx)"

lemma sum_list_bound: "\<forall>x\<in>set xs. f x \<le> (b :: nat) \<Longrightarrow> sum_list (map f xs) \<le> length xs * b"
  by (induction xs) auto

lemma transaction_checks_exact:
  assumes "transaction_values_valid tx" "zatoshis_valid fee"
  shows "transaction_checks (zat fee) tx \<longleftrightarrow> transaction_ok (zat fee) tx"
proof (cases "action_count tx \<le> PREP_TX_ACTIONS")
  case True
  then have n: "length (inputs tx) \<le> 16" "length (outputs tx) \<le> 16"
    by (simp_all add: action_count_def PREP_TX_ACTIONS_def)
  have "(\<Sum>i\<leftarrow>inputs tx. zat (input_value i)) \<le> length (inputs tx) * 2100000000000000"
    by (rule sum_list_bound) (use assms(1) in \<open>auto simp: transaction_values_valid_def value_bounds\<close>)
  also have "\<dots> \<le> 16 * 2100000000000000" using n(1) by (rule mult_le_mono1)
  finally have i: "(\<Sum>i\<leftarrow>inputs tx. zat (input_value i)) \<le> 33600000000000000" by simp
  have "(\<Sum>out\<leftarrow>outputs tx. zat (output_value out)) \<le> length (outputs tx) * 2100000000000000"
    by (rule sum_list_bound) (use assms(1) in \<open>auto simp: transaction_values_valid_def value_bounds\<close>)
  also have "\<dots> \<le> 16 * 2100000000000000" using n(2) by (rule mult_le_mono1)
  finally have out: "(\<Sum>out\<leftarrow>outputs tx. zat (output_value out)) \<le> 33600000000000000" by simp
  have "u64_sum (map (zat \<circ> input_value) (inputs tx)) = (\<Sum>i\<leftarrow>inputs tx. zat (input_value i))"
    using i by (simp add: u64_sum_mod comp_def)
  moreover have "u64_sum (map (zat \<circ> output_value) (outputs tx)) = (\<Sum>out\<leftarrow>outputs tx. zat (output_value out))"
    using out by (simp add: u64_sum_mod comp_def)
  moreover have "u64_ok ((\<Sum>out\<leftarrow>outputs tx. zat (output_value out)) + zat fee)"
    using out assms(2) by (simp add: u64_ok_def value_bounds)
  ultimately show ?thesis by (simp add: transaction_checks_def transaction_ok_def)
qed (simp add: transaction_checks_def transaction_ok_def)

lemma sort_eq_iff_mset: "sort xs = sort ys \<longleftrightarrow> mset xs = mset (ys :: 'a::linorder list)"
  by (metis mset_sort properties_for_sort sorted_sort)

lemma concat_enumerate:
  "concat (map (\<lambda>(i, x). f x) (enumerate n xs)) = concat (map f xs)"
  by (induction xs arbitrary: n) simp_all

lemma ball_enumerate: "(\<forall>(i, x)\<in>set (enumerate 0 xs). P i x) \<longleftrightarrow> (\<forall>i<length xs. P i (xs ! i))"
  by (auto simp: in_set_enumerate_eq)

lemma is_valid_certified:
  assumes "\<forall>tx\<in>set (concat (layers p)). transaction_values_valid tx" "zatoshis_valid fee"
  shows "is_valid p available funding fee \<longleftrightarrow> certified p available funding fee"
proof -
  let ?n = "length available" and ?ls = "layers p"
  let ?w = "concat (map wallet_ref (concat (map inputs (concat ?ls))))" and ?q = "concat (map prior_ref (concat (map inputs (concat ?ls))))"
  have start: "(replicate ?n False, []) = spent_state ?n [] []"
    by (simp add: spent_state_def map_replicate_const)
  have o1: "once [] []" by (simp add: once_def)
  have cc: "concat (map (\<lambda>layer. concat (map f (concat (map inputs layer)))) ls) =
      concat (map f (concat (map inputs (concat ls))))" for f :: "PrepInput \<Rightarrow> 'z list" and ls
    by (induction ls) simp_all
  have ok: "(\<forall>x\<in>set (enumerate 0 ?ls). case x of (li, layer) \<Rightarrow>
        \<forall>tx\<in>set layer. transaction_checks (zat fee) tx \<and> (\<forall>i\<in>set (inputs tx). input_ok ?ls available li i)) \<longleftrightarrow>
      (\<forall>l<length ?ls. \<forall>tx\<in>set (?ls ! l). transaction_ok (zat fee) tx \<and> (\<forall>i\<in>set (inputs tx). input_ok ?ls available l i))"
    unfolding ball_enumerate using transaction_checks_exact [OF _ assms(2)] assms(1) nth_mem by fastforce
  have layers: "check_layers ?ls available (zat fee) (spent_state ?n [] []) =
      (if (\<forall>l<length ?ls. \<forall>tx\<in>set (?ls ! l). transaction_ok (zat fee) tx \<and> (\<forall>i\<in>set (inputs tx). input_ok ?ls available l i)) \<and> once ?w ?q
       then Some (spent_state ?n ?w ?q) else None)"
    using check_layer.fold [OF o1, where available = available and ls = ?ls and fee = "zat fee" and xs = "enumerate 0 ?ls"]
    unfolding check_layers_def ok concat_enumerate cc by simp
  have direct: "try_fold (spend_source available) (spent_state ?n ?w ?q) (direct_funding p) =
      (if (\<forall>d\<in>set (direct_funding p). source_ok available d) \<and> once (?w @ map fst (direct_funding p)) ?q
       then Some (spent_state ?n (?w @ map fst (direct_funding p)) ?q) else None)" if "once ?w ?q"
  proof -
    have e: "concat (map (\<lambda>d. []) ds) = ([] :: 'z list)" "concat (map (\<lambda>d. [fst d]) ds) = map fst ds"
      for ds :: "(nat \<times> Zatoshis) list" by (induction ds) simp_all
    show ?thesis using spend_source.fold [OF that, of available "direct_funding p"] unfolding e by simp
  qed
  have "once (?w @ map fst (direct_funding p)) ?q \<Longrightarrow> once ?w ?q" by (simp add: once_def)
  then show ?thesis
    unfolding is_valid_def Let_def sort_eq_iff_mset start layers certified_def
    using direct by (auto simp: once_def)
qed

section \<open>Value is conserved\<close>

text \<open>All outputs of a plan, with the references later layers spend them by.\<close>

definition output_refs :: "PrepTransaction list list \<Rightarrow> (nat \<times> nat \<times> nat) set" where
  "output_refs ls = {(l, t, k). l < length ls \<and> t < length (ls ! l) \<and> k < length (outputs (ls ! l ! t))}"

definition ref_value :: "PrepTransaction list list \<Rightarrow> nat \<times> nat \<times> nat \<Rightarrow> nat" where
  "ref_value ls = (\<lambda>(l, t, k). zat (output_value (outputs (ls ! l ! t) ! k)))"

lemma output_refs_eq:
  "output_refs ls = (SIGMA l:{..<length ls}. SIGMA t:{..<length (ls ! l)}. {..<length (outputs (ls ! l ! t))})"
  by (auto simp: output_refs_def)

lemma finite_output_refs: "finite (output_refs ls)"
  unfolding output_refs_eq by (intro finite_SigmaI) auto

lemma sum_list_concat: "sum_list (concat xss) = (\<Sum>xs\<leftarrow>xss. sum_list xs)"
  by (induction xss) simp_all

lemma sum_output_refs:
  "(\<Sum>r\<in>output_refs ls. ref_value ls r) = (\<Sum>tx\<leftarrow>concat ls. \<Sum>out\<leftarrow>outputs tx. zat (output_value out))"
proof -
  have "(\<Sum>r\<in>output_refs ls. ref_value ls r) =
      (\<Sum>l<length ls. \<Sum>t<length (ls ! l). \<Sum>k<length (outputs (ls ! l ! t)). zat (output_value (outputs (ls ! l ! t) ! k)))"
    unfolding output_refs_eq by (simp add: sum.Sigma [symmetric] ref_value_def)
  also have "\<dots> = (\<Sum>l<length ls. \<Sum>tx\<leftarrow>ls ! l. \<Sum>out\<leftarrow>outputs tx. zat (output_value out))"
    by (simp add: sum_list_sum_nth atLeast0LessThan)
  also have "\<dots> = (\<Sum>layer\<leftarrow>ls. \<Sum>tx\<leftarrow>layer. \<Sum>out\<leftarrow>outputs tx. zat (output_value out))"
    by (simp add: sum_list_sum_nth [of "map _ ls"] atLeast0LessThan)
  also have "\<dots> = (\<Sum>tx\<leftarrow>concat ls. \<Sum>out\<leftarrow>outputs tx. zat (output_value out))"
    by (simp add: map_concat sum_list_concat comp_def)
  finally show ?thesis .
qed

definition spent_wallet :: "PreparationPlan \<Rightarrow> nat list" where
  "spent_wallet p = concat (map wallet_ref (concat (map inputs (concat (layers p)))))"

definition spent_prior :: "PreparationPlan \<Rightarrow> (nat \<times> nat \<times> nat) list" where
  "spent_prior p = concat (map prior_ref (concat (map inputs (concat (layers p)))))"

lemma inputs_value_split:
  "\<forall>i\<in>set is. \<exists>l. input_ok ls available l i \<Longrightarrow>
   (\<Sum>i\<leftarrow>is. zat (input_value i)) =
     (\<Sum>i\<leftarrow>concat (map wallet_ref is). zat (available ! i)) + (\<Sum>r\<leftarrow>concat (map prior_ref is). ref_value ls r)"
proof (induction "is")
  case (Cons i "is")
  from Cons.prems obtain l where "input_ok ls available l i" by auto
  then show ?case using Cons by (cases i) (auto simp: input_value_def source_ok_def ref_value_def)
qed simp

lemma certified_conserves:
  assumes "certified p available funding fee"
  shows "(\<Sum>i\<leftarrow>spent_wallet p. zat (available ! i)) =
      (\<Sum>r\<in>output_refs (layers p) - set (spent_prior p). ref_value (layers p) r) + transaction_count p * zat fee"
    and "set (spent_prior p) \<subseteq> output_refs (layers p)"
proof -
  let ?ls = "layers p" and ?txs = "concat (layers p)"
  have tx: "transaction_ok (zat fee) tx \<and> (\<forall>i\<in>set (inputs tx). \<exists>l. input_ok ?ls available l i)" if "tx \<in> set ?txs" for tx
  proof -
    from that obtain layer where "layer \<in> set ?ls" "tx \<in> set layer" by auto
    then obtain l where "l < length ?ls" "tx \<in> set (?ls ! l)" by (auto simp: in_set_conv_nth)
    then show ?thesis using assms unfolding certified_def by blast
  qed
  have ok: "\<forall>i\<in>set (concat (map inputs ?txs)). \<exists>l. input_ok ?ls available l i" using tx by auto
  have "prior_ref i = [] \<or> (\<exists>r\<in>output_refs ?ls. prior_ref i = [r])" if "input_ok ?ls available l i" for i l
    using that by (cases i) (auto simp: output_refs_def)
  then show sub: "set (spent_prior p) \<subseteq> output_refs ?ls" unfolding spent_prior_def using ok by fastforce
  have "(\<Sum>i\<leftarrow>concat (map inputs ?txs). zat (input_value i)) = (\<Sum>tx\<leftarrow>?txs. \<Sum>i\<leftarrow>inputs tx. zat (input_value i))"
    by (simp add: map_concat sum_list_concat comp_def)
  also have "\<dots> = (\<Sum>tx\<leftarrow>?txs. (\<Sum>out\<leftarrow>outputs tx. zat (output_value out)) + zat fee)"
    using tx by (intro arg_cong [where f = sum_list] map_cong refl) (auto simp: transaction_ok_def)
  also have "\<dots> = (\<Sum>r\<in>output_refs ?ls. ref_value ?ls r) + length ?txs * zat fee"
    by (simp add: sum_list_addf sum_output_refs sum_list_triv)
  finally have total: "(\<Sum>i\<leftarrow>spent_wallet p. zat (available ! i)) + (\<Sum>r\<leftarrow>spent_prior p. ref_value ?ls r) =
      (\<Sum>r\<in>output_refs ?ls. ref_value ?ls r) + length ?txs * zat fee"
    using inputs_value_split [OF ok] by (simp add: spent_wallet_def spent_prior_def)
  have "distinct (spent_prior p)" using assms by (simp add: certified_def spent_prior_def)
  then have "(\<Sum>r\<leftarrow>spent_prior p. ref_value ?ls r) = (\<Sum>r\<in>set (spent_prior p). ref_value ?ls r)"
    by (rule sum_list_distinct_conv_sum_set)
  moreover have "(\<Sum>r\<in>output_refs ?ls. ref_value ?ls r) =
      (\<Sum>r\<in>output_refs ?ls - set (spent_prior p). ref_value ?ls r) + (\<Sum>r\<in>set (spent_prior p). ref_value ?ls r)"
    using sum.subset_diff [OF sub finite_output_refs] .
  moreover have "length ?txs = transaction_count p" by (simp add: transaction_count_def length_concat)
  ultimately show "(\<Sum>i\<leftarrow>spent_wallet p. zat (available ! i)) =
      (\<Sum>r\<in>output_refs ?ls - set (spent_prior p). ref_value ?ls r) + transaction_count p * zat fee"
    using total by simp
qed

section \<open>The encoding of plans is injective\<close>

text \<open>An encoding whose words can be read off the front of any list.\<close>

definition prefix_code :: "('a \<Rightarrow> nat list) \<Rightarrow> bool" where
  "prefix_code enc \<longleftrightarrow> (\<forall>x y r s. enc x @ r = enc y @ s \<longrightarrow> x = y \<and> r = s)"

lemma prefix_codeD: "prefix_code enc \<Longrightarrow> enc x @ r = enc y @ s \<Longrightarrow> x = y \<and> r = s"
  unfolding prefix_code_def by blast

lemma prefix_code_list: "prefix_code enc \<Longrightarrow> prefix_code (encode_list enc)"
proof -
  assume pc: "prefix_code enc"
  have "concat (map enc xs) @ r = concat (map enc ys) @ s \<Longrightarrow> length xs = length ys \<Longrightarrow> xs = ys \<and> r = s" for xs ys r s
  proof (induction xs arbitrary: ys)
    case (Cons x xs)
    then obtain y ys' where y: "ys = y # ys'" by (cases ys) auto
    with Cons.prems have "enc x @ (concat (map enc xs) @ r) = enc y @ (concat (map enc ys') @ s)" by simp
    from prefix_codeD [OF pc this] Cons y show ?case by simp
  qed simp
  then show ?thesis unfolding prefix_code_def encode_list_def by auto
qed

lemma prefix_code_input: "prefix_code encode_input"
proof -
  have "encode_input x @ r = encode_input y @ s \<Longrightarrow> x = y \<and> r = s" for x y r s
    by (cases x; cases y) (auto simp: Zatoshis.expand)
  then show ?thesis by (simp add: prefix_code_def)
qed

lemma prefix_code_output: "prefix_code encode_output"
proof -
  have "encode_output x @ r = encode_output y @ s \<Longrightarrow> x = y \<and> r = s" for x y r s
    by (cases x; cases y) (auto simp: Zatoshis.expand)
  then show ?thesis by (simp add: prefix_code_def)
qed

lemma prefix_code_direct: "prefix_code (\<lambda>(index, v). [index, zat v])"
  by (auto simp: prefix_code_def Zatoshis.expand)

lemma prefix_code_transaction: "prefix_code encode_transaction"
  unfolding prefix_code_def
proof (intro allI impI)
  fix x y r s assume "encode_transaction x @ r = encode_transaction y @ s"
  then have "encode_list encode_input (inputs x) @ (encode_list encode_output (outputs x) @ r) =
      encode_list encode_input (inputs y) @ (encode_list encode_output (outputs y) @ s)"
    by (simp add: encode_transaction_def)
  from prefix_codeD [OF prefix_code_list [OF prefix_code_input] this]
  have i: "inputs x = inputs y" "encode_list encode_output (outputs x) @ r = encode_list encode_output (outputs y) @ s" by simp_all
  from prefix_codeD [OF prefix_code_list [OF prefix_code_output] i(2)] i(1) show "x = y \<and> r = s" by simp
qed

lemma encode_shape_inj: "encode_shape p = encode_shape q \<Longrightarrow> p = q"
proof -
  assume "encode_shape p = encode_shape q"
  then have e: "encode_list (\<lambda>(index, v). [index, zat v]) (direct_funding p) @ (encode_list (encode_list encode_transaction) (layers p) @ []) =
      encode_list (\<lambda>(index, v). [index, zat v]) (direct_funding q) @ (encode_list (encode_list encode_transaction) (layers q) @ [])"
    by (simp add: encode_shape_def)
  from prefix_codeD [OF prefix_code_list [OF prefix_code_direct] e]
  have d: "direct_funding p = direct_funding q" and
    l: "encode_list (encode_list encode_transaction) (layers p) @ [] = encode_list (encode_list encode_transaction) (layers q) @ []"
    by simp_all
  from prefix_codeD [OF prefix_code_list [OF prefix_code_list [OF prefix_code_transaction]] l] d show ?thesis by simp
qed

lemma quality_of_inj: "quality_of p = quality_of q \<Longrightarrow> p = q"
  using encode_shape_inj by (simp add: quality_of_def)

section \<open>Sound strategies\<close>

text \<open>
  What a strategy owes the portfolio: on valid amounts it returns, and a plan it returns passes the
  certificate.
\<close>

definition amounts_valid :: "Zatoshis list \<Rightarrow> Zatoshis list \<Rightarrow> Zatoshis \<Rightarrow> bool" where
  "amounts_valid available funding fee \<longleftrightarrow>
     (\<forall>v\<in>set available. zatoshis_valid v) \<and> (\<forall>v\<in>set funding. zatoshis_valid v) \<and> zatoshis_valid fee"

locale sound_strategy =
  fixes strategy :: PreparationStrategy
  assumes returns: "amounts_valid available funding fee \<Longrightarrow> strategy_plan strategy available funding fee \<noteq> None"
    and passes: "amounts_valid available funding fee \<Longrightarrow>
      strategy_plan strategy available funding fee = Some (Inr p) \<Longrightarrow> is_valid p available funding fee"
begin

text \<open>The portfolio adds nothing to a single strategy and takes nothing away.\<close>

lemma singleton_portfolio:
  assumes "amounts_valid available funding fee"
  shows "best_plan [strategy] available funding fee =
    (case strategy_plan strategy available funding fee of
       Some (Inr p) \<Rightarrow> Some (Some (strategy_name strategy, p)) | _ \<Rightarrow> Some None)"
  using returns [OF assms] passes [OF assms]
  by (auto simp: evaluate_def split: option.splits sum.splits)

end

section \<open>The properties\<close>

text \<open>
  C24. The certificate of a plan accepts exactly the plans it describes: the funding notes are the non-zero
  requests, every transaction has inputs and outputs within the action budget and pays exactly its
  fee, every note spent exists with the value claimed, from a strictly earlier layer if it is not a
  wallet note, and no note is spent twice. Then value is conserved over the whole plan: the wallet
  notes spent are worth the outputs left unspent plus one fee for each transaction.
\<close>

theorem certificate_sound:
  assumes "\<forall>tx\<in>set (concat (layers p)). transaction_values_valid tx" and "zatoshis_valid fee"
  shows "(is_valid p available funding fee \<longleftrightarrow> certified p available funding fee) \<and>
    (is_valid p available funding fee \<longrightarrow>
      set (spent_prior p) \<subseteq> output_refs (layers p) \<and>
      (\<Sum>i\<leftarrow>spent_wallet p. zat (available ! i)) =
        (\<Sum>r\<in>output_refs (layers p) - set (spent_prior p). ref_value (layers p) r) + transaction_count p * zat fee)"
  using is_valid_certified [OF assms] certified_conserves by blast

definition sample_plan :: PreparationPlan where
  "sample_plan = \<lparr>layers =
     [[\<lparr>inputs = [WalletNote 0 (Zatoshis 30)], outputs = [Funding (Zatoshis 10), Intermediate (Zatoshis 15)]\<rparr>],
      [\<lparr>inputs = [PriorNote 0 0 1 (Zatoshis 15)], outputs = [Funding (Zatoshis 7), Change (Zatoshis 3)]\<rparr>]],
     direct_funding = [(1, Zatoshis 20)]\<rparr>"

lemmas plan_eval = is_valid_def check_layers_def check_transaction_def spend_source_def list_get_def u64_sum_mod
  action_count_def PREP_TX_ACTIONS_def input_value_def output_value_def zatoshis_ZERO_def u64_add_def
  funding_notes_def all_outputs_def List.map_filter_def Let_def

lemma sample_plan_valid:
  "is_valid sample_plan [Zatoshis 30, Zatoshis 20] [Zatoshis 7, Zatoshis 0, Zatoshis 20, Zatoshis 10] (Zatoshis 5)"
  by (simp add: sample_plan_def plan_eval less_eq_Zatoshis_def less_Zatoshis_def)

theorem certificate_sound_witness:
  "certified sample_plan [Zatoshis 30, Zatoshis 20] [Zatoshis 7, Zatoshis 0, Zatoshis 20, Zatoshis 10] (Zatoshis 5)"
proof -
  have "\<forall>tx\<in>set (concat (layers sample_plan)). transaction_values_valid tx" "zatoshis_valid (Zatoshis 5)"
    by (simp_all add: sample_plan_def transaction_values_valid_def input_value_def output_value_def value_bounds)
  from certificate_sound [OF this] sample_plan_valid show ?thesis by blast
qed

definition overspent_plan :: PreparationPlan where
  "overspent_plan = \<lparr>layers =
     [[\<lparr>inputs = [WalletNote 0 (Zatoshis 30)], outputs = [Funding (Zatoshis 10), Change (Zatoshis 15)]\<rparr>],
      [\<lparr>inputs = [PriorNote 0 0 0 (Zatoshis 10)], outputs = [Funding (Zatoshis 5)]\<rparr>]],
     direct_funding = []\<rparr>"

text \<open>
  The certificate does not ask that a spent prior note is an intermediate one: it accepts this plan, which
  spends a funding note it mints, and counts that note as minted all the same.
\<close>

lemma certificate_accepts_spent_funding:
  "is_valid overspent_plan [Zatoshis 30] [Zatoshis 5, Zatoshis 10] (Zatoshis 5) \<and>
   mset (funding_notes overspent_plan) = {#Zatoshis 5, Zatoshis 10#} \<and>
   (0, 0, 0) \<in> set (spent_prior overspent_plan) \<and>
   outputs (layers overspent_plan ! 0 ! 0) ! 0 = Funding (Zatoshis 10)"
  by (simp add: overspent_plan_def plan_eval spent_prior_def less_eq_Zatoshis_def less_Zatoshis_def)

text \<open>Joining keeps the better of two candidates.\<close>

definition candidates ::
    "PreparationStrategy list \<Rightarrow> Zatoshis list \<Rightarrow> Zatoshis list \<Rightarrow> Zatoshis \<Rightarrow> (string \<times> PreparationPlan) set" where
  "candidates ss available funding fee =
     {(strategy_name s, p) | s p. s \<in> set ss \<and> strategy_plan s available funding fee = Some (Inr p) \<and>
        is_valid p available funding fee}"

definition best_of :: "(string \<times> PreparationPlan) set \<Rightarrow> Ranked \<Rightarrow> bool" where
  "best_of C r \<longleftrightarrow> (case r of None \<Rightarrow> C = {}
     | Some c \<Rightarrow> c \<in> C \<and> (\<forall>d\<in>C. quality_of (snd c) \<le> quality_of (snd d)))"

lemma best_of_join: "best_of C r \<Longrightarrow> best_of D s \<Longrightarrow> best_of (C \<union> D) (join_ranked r s)"
  by (cases "(r, s)" rule: join_ranked.cases) (auto simp: best_of_def dest: order_trans)

lemma best_plan_best:
  "best_plan ss available funding fee = Some r \<Longrightarrow> best_of (candidates ss available funding fee) r"
proof (induction ss arbitrary: r)
  case Nil
  then show ?case by (auto simp: best_of_def candidates_def)
next
  case (Cons s ss)
  then obtain a b where ab: "evaluate s available funding fee = Some a" "best_plan ss available funding fee = Some b"
      "r = join_ranked a b" by (auto simp: bind_eq_Some_conv)
  have "best_of (candidates [s] available funding fee) a"
  proof -
    from ab(1) obtain x where x: "strategy_plan s available funding fee = Some x"
        "a = (case x of Inl _ \<Rightarrow> None | Inr p \<Rightarrow> if is_valid p available funding fee then Some (strategy_name s, p) else None)"
      by (auto simp: evaluate_def)
    show ?thesis by (cases x) (auto simp: best_of_def candidates_def x)
  qed
  moreover have "candidates (s # ss) available funding fee =
      candidates [s] available funding fee \<union> candidates ss available funding fee"
    by (auto simp: candidates_def)
  ultimately show ?case using best_of_join Cons.IH [OF ab(2)] ab(3) by simp
qed

lemma best_of_unique: "best_of C r \<Longrightarrow> best_of C s \<Longrightarrow> map_option snd r = map_option snd s"
  by (auto simp: best_of_def split: option.splits intro: quality_of_inj [OF order_antisym])

text \<open>
  The portfolio returns the best of the plans its strategies make that pass the certificate, and no
  plan exactly when there is none. The plan is the same for every order and repetition of the
  strategies, since no two plans have the same quality, and more strategies never make it worse.
\<close>

theorem portfolio_best:
  assumes "best_plan ss available funding fee = Some r"
  shows "best_of (candidates ss available funding fee) r \<and>
    (\<forall>ts r'. best_plan ts available funding fee = Some r' \<longrightarrow>
      (set ts = set ss \<longrightarrow> map_option snd r' = map_option snd r) \<and>
      (set ss \<subseteq> set ts \<longrightarrow> (\<forall>c. r = Some c \<longrightarrow> (\<exists>d. r' = Some d \<and> quality_of (snd d) \<le> quality_of (snd c)))))"
proof (intro conjI allI impI)
  note r = best_plan_best [OF assms]
  show "best_of (candidates ss available funding fee) r" by (rule r)
  fix ts r' assume t: "best_plan ts available funding fee = Some r'"
  note r' = best_plan_best [OF t]
  show "map_option snd r' = map_option snd r" if "set ts = set ss"
  proof -
    have "candidates ts available funding fee = candidates ss available funding fee" using that by (simp add: candidates_def)
    with r r' best_of_unique show ?thesis by metis
  qed
  show "\<exists>d. r' = Some d \<and> quality_of (snd d) \<le> quality_of (snd c)" if "set ss \<subseteq> set ts" "r = Some c" for c
  proof -
    have "candidates ss available funding fee \<subseteq> candidates ts available funding fee" using that(1) by (auto simp: candidates_def)
    with r r' that(2) show ?thesis by (auto simp: best_of_def split: option.splits)
  qed
qed

definition sample_strategy :: "string \<Rightarrow> PreparationStrategy" where
  "sample_strategy name = \<lparr>strategy_name = name,
     strategy_plan = (\<lambda>available funding fee. Some (Inr \<lparr>layers = [], direct_funding = []\<rparr>))\<rparr>"

lemma sample_best: "best_plan [sample_strategy a, sample_strategy b] [] [] (Zatoshis 5) =
    Some (Some (a, \<lparr>layers = [], direct_funding = []\<rparr>))"
  by (simp add: evaluate_def sample_strategy_def plan_eval)

theorem portfolio_best_witness:
  "best_of (candidates [sample_strategy ''a'', sample_strategy ''b''] [] [] (Zatoshis 5))
     (Some (''a'', \<lparr>layers = [], direct_funding = []\<rparr>))"
  using portfolio_best [OF sample_best] by blast

text \<open>
  The label of the result does depend on the order: when two strategies make the same plan, the first
  one of the list is named.
\<close>

theorem portfolio_label_order:
  "\<exists>s t available funding fee. best_plan [s, t] available funding fee \<noteq> best_plan [t, s] available funding fee \<and>
     best_plan [s, t] available funding fee \<noteq> None \<and> best_plan [t, s] available funding fee \<noteq> None"
  using sample_best [of "''a''" "''b''"] sample_best [of "''b''" "''a''"]
  by (intro exI [of _ "sample_strategy ''a''"] exI [of _ "sample_strategy ''b''"] exI [of _ "[]"] exI [of _ "Zatoshis 5"]) simp

text \<open>
  The planner: amounts that do not add up to a valid total are reported as such whatever the
  strategies; otherwise a plan returned passes the certificate and is the best of the portfolio, and
  the funds are insufficient exactly if no strategy makes a plan that passes.
\<close>

theorem plan_preparation_outcome:
  assumes "plan_preparation_with ss available funding fee = Some r"
  shows "case r of
      Inl BalanceInvalid \<Rightarrow> zatoshis_iter_sum available = None \<or> zatoshis_iter_sum funding = None
    | Inl InsufficientFunds \<Rightarrow> candidates ss available funding fee = {} \<and>
        zatoshis_iter_sum available \<noteq> None \<and> zatoshis_iter_sum funding \<noteq> None
    | Inr p \<Rightarrow> is_valid p available funding fee \<and>
        (\<forall>d\<in>candidates ss available funding fee. quality_of p \<le> quality_of (snd d))"
proof (cases "validate_instance available funding")
  case (Inl e)
  with assms show ?thesis
    by (auto simp: plan_preparation_with_def validate_instance_def split: if_splits)
next
  case (Inr u)
  then have v: "zatoshis_iter_sum available \<noteq> None" "zatoshis_iter_sum funding \<noteq> None"
    by (auto simp: validate_instance_def split: if_splits)
  from Inr assms obtain b where b: "best_plan ss available funding fee = Some b"
      "r = (case b of Some (_, p) \<Rightarrow> Inr p | None \<Rightarrow> Inl InsufficientFunds)"
    by (auto simp: plan_preparation_with_def)
  note best = best_plan_best [OF b(1)]
  show ?thesis
  proof (cases b)
    case None
    with best b(2) v show ?thesis by (simp add: best_of_def)
  next
    case (Some c)
    then obtain n p where c: "b = Some (n, p)" by (cases c) simp
    with best b(2) show ?thesis by (auto simp: best_of_def candidates_def)
  qed
qed

theorem plan_preparation_outcome_witness:
  "plan_preparation_with [sample_strategy ''a''] [] [Zatoshis 9] (Zatoshis 5) = Some (Inl InsufficientFunds) \<and>
   candidates [sample_strategy ''a''] [] [Zatoshis 9] (Zatoshis 5) = {}"
proof -
  have "plan_preparation_with [sample_strategy ''a''] [] [Zatoshis 9] (Zatoshis 5) = Some (Inl InsufficientFunds)"
    by (simp add: plan_preparation_with_def validate_instance_def evaluate_def sample_strategy_def plan_eval
        zatoshis_iter_sum_def zatoshis_add_def zatoshis_from_u64_def u64_checked_add_def MAX_MONEY_eq result_ok_def)
  with plan_preparation_outcome [OF this] show ?thesis by simp
qed

end
