(* ===== verification/MigrationState.thy ===== *)
theory MigrationState
  imports Wakeups Preparation
begin

text \<open>
  The persisted state of a migration (\<open>zcash_pool_migration/src/engine.rs\<close>) and the vocabulary of
  satisfiability answers (\<open>zcash_pool_migration/src/satisfiability.rs\<close>): transaction identifiers,
  kinds, lifecycle states and overall statuses with the names a store keeps them under, what a store
  answers of a transaction, and the two heights dueness is judged at. A \<open>TxId\<close> and the nullifiers
  are their 32 bytes; a parse error carries nothing and is \<open>None\<close>.
\<close>

section \<open>Identifiers, kinds and lifecycle\<close>

type_synonym TxId = bytes
type_synonym MigrationTransferId = u32

definition transfer_id_write :: "MigrationTransferId \<Rightarrow> writer" where
  "transfer_id_write i = Inr (to_le_bytes i)"

definition transfer_id_read :: "MigrationTransferId reader" where
  "transfer_id_read = read_le"

datatype MigrationTxKind =
    Preparation (layer: nat) (index: nat)
  | Transfer (crossing: nat)

fun tx_kind_name :: "MigrationTxKind \<Rightarrow> string" where
  "tx_kind_name (Preparation l i) = ''preparation''"
| "tx_kind_name (Transfer c) = ''transfer''"

fun preparation_indices :: "MigrationTxKind \<Rightarrow> (nat \<times> nat) option" where
  "preparation_indices (Preparation l i) = Some (l, i)"
| "preparation_indices (Transfer c) = None"

fun transfer_crossing :: "MigrationTxKind \<Rightarrow> nat option" where
  "transfer_crossing (Transfer c) = Some c"
| "transfer_crossing (Preparation l i) = None"

definition tx_kind_from_stored :: "string \<Rightarrow> nat option \<Rightarrow> nat option \<Rightarrow> nat option \<Rightarrow> MigrationTxKind option" where
  "tx_kind_from_stored k l i c =
     (if k = ''preparation'' then Option.bind l (\<lambda>l. Option.bind i (\<lambda>i. Some (Preparation l i)))
      else if k = ''transfer'' then Option.bind c (\<lambda>c. Some (Transfer c))
      else None)"

datatype MigrationTxState =
    AwaitingSignature
  | Signed
  | Proved
  | Broadcast (state_txid: TxId)
  | Mined (state_txid: TxId) (mined_at: BlockHeight)

fun tx_state_name :: "MigrationTxState \<Rightarrow> string" where
  "tx_state_name AwaitingSignature = ''awaiting_signature''"
| "tx_state_name Signed = ''signed''"
| "tx_state_name Proved = ''proved''"
| "tx_state_name (Broadcast t) = ''broadcast''"
| "tx_state_name (Mined t h) = ''mined''"

fun broadcast_txid :: "MigrationTxState \<Rightarrow> TxId option" where
  "broadcast_txid (Broadcast t) = Some t"
| "broadcast_txid (Mined t h) = Some t"
| "broadcast_txid _ = None"

fun mined_height :: "MigrationTxState \<Rightarrow> BlockHeight option" where
  "mined_height (Mined t h) = Some h"
| "mined_height _ = None"

definition tx_state_from_stored :: "string \<Rightarrow> TxId option \<Rightarrow> BlockHeight option \<Rightarrow> MigrationTxState option" where
  "tx_state_from_stored s t h =
     (if s = ''awaiting_signature'' then Some AwaitingSignature
      else if s = ''signed'' then Some Signed
      else if s = ''proved'' then Some Proved
      else if s = ''broadcast'' then Option.bind t (\<lambda>t. Some (Broadcast t))
      else if s = ''mined'' then Option.bind t (\<lambda>t. Option.bind h (\<lambda>h. Some (Mined t h)))
      else None)"

fun is_mined :: "MigrationTxState \<Rightarrow> bool" where
  "is_mined (Mined t h) \<longleftrightarrow> True"
| "is_mined _ \<longleftrightarrow> False"

section \<open>Overall status\<close>

datatype MigrationStatus =
    Planning | Committed | InProgress | Complete | Failed | Superseded | Cancelled

definition ALL_STATUSES :: "MigrationStatus list" where
  "ALL_STATUSES = [Planning, Committed, InProgress, Complete, Failed, Superseded, Cancelled]"

fun status_is_terminal :: "MigrationStatus \<Rightarrow> bool" where
  "status_is_terminal Planning = False"
| "status_is_terminal Committed = False"
| "status_is_terminal InProgress = False"
| "status_is_terminal Complete = True"
| "status_is_terminal Failed = True"
| "status_is_terminal Superseded = True"
| "status_is_terminal Cancelled = True"

definition terminal_statuses :: "MigrationStatus list" where
  "terminal_statuses = filter status_is_terminal ALL_STATUSES"

fun wire_name :: "MigrationStatus \<Rightarrow> string" where
  "wire_name Planning = ''planning''"
| "wire_name Committed = ''committed''"
| "wire_name InProgress = ''in_progress''"
| "wire_name Complete = ''complete''"
| "wire_name Failed = ''failed''"
| "wire_name Superseded = ''superseded''"
| "wire_name Cancelled = ''cancelled''"

definition status_try_from :: "string \<Rightarrow> MigrationStatus option" where
  "status_try_from s =
     (if s = ''planning'' then Some Planning
      else if s = ''committed'' then Some Committed
      else if s = ''in_progress'' then Some InProgress
      else if s = ''complete'' then Some Complete
      else if s = ''failed'' then Some Failed
      else if s = ''superseded'' then Some Superseded
      else if s = ''cancelled'' then Some Cancelled
      else None)"

section \<open>Satisfiability answers\<close>

datatype ReplanThreshold = ReplanThreshold (percent: u8)

definition REPLAN_DEFAULT :: ReplanThreshold where
  "REPLAN_DEFAULT = ReplanThreshold 20"

definition replan_threshold_new :: "u8 \<Rightarrow> ReplanThreshold option" where
  "replan_threshold_new p = (if p \<le> 100 then Some (ReplanThreshold p) else None)"

type_synonym ReorgSettleDepth = u32

datatype UnsatisfiableCause =
    InputsSpent (spent_nullifiers: "bytes list")
  | InputsInvalidated (dead_anchor: bytes)
  | Expired
  | AnchorInvalidated

datatype UnsatisfiableKind =
    KindInputsSpent | KindInputsInvalidated | KindAnchorInvalidated | Inherited

datatype StepSatisfiability =
    Satisfiable (as_of_height: BlockHeight)
  | NotYetSatisfiable (as_of_height: BlockHeight)
  | Unsatisfiable (the_cause: UnsatisfiableCause) (as_of_height: BlockHeight)

fun cause_kind :: "UnsatisfiableCause \<Rightarrow> UnsatisfiableKind option" where
  "cause_kind (InputsSpent nfs) = Some KindInputsSpent"
| "cause_kind (InputsInvalidated a) = Some KindInputsInvalidated"
| "cause_kind AnchorInvalidated = Some KindAnchorInvalidated"
| "cause_kind Expired = None"

definition cause_marks :: "UnsatisfiableCause \<Rightarrow> bool" where
  "cause_marks c \<longleftrightarrow> cause_kind c \<noteq> None"

fun unsatisfiable_kind_name :: "UnsatisfiableKind \<Rightarrow> string" where
  "unsatisfiable_kind_name KindInputsSpent = ''inputs_spent''"
| "unsatisfiable_kind_name KindInputsInvalidated = ''inputs_invalidated''"
| "unsatisfiable_kind_name KindAnchorInvalidated = ''anchor_invalidated''"
| "unsatisfiable_kind_name Inherited = ''inherited''"

definition unsatisfiable_kind_try_from :: "string \<Rightarrow> UnsatisfiableKind option" where
  "unsatisfiable_kind_try_from s =
     (if s = ''inputs_spent'' then Some KindInputsSpent
      else if s = ''inputs_invalidated'' then Some KindInputsInvalidated
      else if s = ''anchor_invalidated'' then Some KindAnchorInvalidated
      else if s = ''inherited'' then Some Inherited
      else None)"

datatype InputObservation = Unspent | SeenSpent | Invalidated (invalid_anchor: bytes) | Unknown

fun invalidated_anchor :: "bytes \<times> InputObservation \<Rightarrow> bytes option" where
  "invalidated_anchor (nf, Invalidated a) = Some a"
| "invalidated_anchor _ = None"

definition classify_input_observations ::
    "BlockHeight \<Rightarrow> bool \<Rightarrow> (bytes \<times> InputObservation) list \<Rightarrow> StepSatisfiability" where
  "classify_input_observations as_of expired observations =
     (let spent = map fst (filter (\<lambda>(_, o'). o' = SeenSpent) observations) in
      if spent \<noteq> [] then Unsatisfiable (InputsSpent spent) as_of
      else case find_map invalidated_anchor observations of
        Some a \<Rightarrow> Unsatisfiable (InputsInvalidated a) as_of
      | None \<Rightarrow>
          if expired then Unsatisfiable Expired as_of
          else if \<exists>(_, o')\<in>set observations. o' = Unknown then NotYetSatisfiable as_of
          else Satisfiable as_of)"

definition overdue_shift_tolerance :: "DelayDistribution \<Rightarrow> u32" where
  "overdue_shift_tolerance d = max (mean d div 4) 1"

record DuenessTargets =
  scanned :: BlockHeight
  effective :: BlockHeight

definition dueness_new :: "BlockHeight \<Rightarrow> BlockHeight \<Rightarrow> DuenessTargets" where
  "dueness_new s estimated = \<lparr>scanned = s, effective = max s estimated\<rparr>"

definition dueness_at :: "BlockHeight \<Rightarrow> DuenessTargets" where
  "dueness_at target = \<lparr>scanned = target, effective = target\<rparr>"

section \<open>The wallet backend\<close>

record 'e MigrationBackend =
  spendable_orchard_note_values :: "'e + Zatoshis list"
  chain_tip_height :: "'e + BlockHeight"
  scheduling_params :: SchedulingParams

section \<open>The persisted migration\<close>

datatype MigrationLockOwner = MigrationLockOwner (owner_bytes: bytes)

record MigrationTransaction =
  tx_id :: MigrationTransferId
  tx_kind :: MigrationTxKind
  pczt :: bytes
  depends_on :: "MigrationTransferId list"
  scheduled_height :: BlockHeight
  expiry_height :: BlockHeight
  anchor_boundary :: "BlockHeight option"
  txid :: TxId
  unsatisfiable :: "(BlockHeight \<times> UnsatisfiableKind) option"
  broadcast_failure_at :: "BlockHeight option"
  spend_nullifiers :: "bytes list"
  tx_state :: MigrationTxState
  lock_owner :: "MigrationLockOwner option"

definition unsatisfiable_at :: "MigrationTransaction \<Rightarrow> BlockHeight option" where
  "unsatisfiable_at t = map_option fst (unsatisfiable t)"

definition unsatisfiable_kind :: "MigrationTransaction \<Rightarrow> UnsatisfiableKind option" where
  "unsatisfiable_kind t = map_option snd (unsatisfiable t)"

record MigrationState =
  status :: MigrationStatus
  denominations :: DenominationPlan
  preparation :: PreparationPlan
  transactions :: "MigrationTransaction list"
  committed_interval :: AnchorBucketInterval
  replan_threshold :: ReplanThreshold

text \<open>\<open>funding_notes\<close> panics, here \<open>None\<close>, when a crossing value and the buffer exceed the money supply.\<close>

definition state_funding_notes :: "MigrationState \<Rightarrow> Zatoshis list option" where
  "state_funding_notes s = migration_outputs (denominations s)"

definition state_crossing_values :: "MigrationState \<Rightarrow> Zatoshis list" where
  "state_crossing_values s = crossing_values (denominations s)"

definition transfer_crossing_value :: "MigrationState \<Rightarrow> MigrationTransaction \<Rightarrow> Zatoshis option" where
  "transfer_crossing_value s t = Option.bind (transfer_crossing (tx_kind t)) (list_get (state_crossing_values s))"

text \<open>A change to the first transaction that satisfies a condition, as \<open>iter_mut().find(..)\<close> makes it.\<close>

definition on_transaction ::
    "(MigrationTransaction \<Rightarrow> bool) \<Rightarrow> (MigrationTransaction \<Rightarrow> MigrationTransaction) \<Rightarrow> MigrationState \<Rightarrow> MigrationState" where
  "on_transaction P f s = s\<lparr>transactions := update_first P f (transactions s)\<rparr>"

definition set_transaction_proved ::
    "MigrationTransferId \<Rightarrow> bytes \<Rightarrow> MigrationLockOwner option \<Rightarrow> MigrationState \<Rightarrow> MigrationState" where
  "set_transaction_proved i proven_pczt owner =
     on_transaction (\<lambda>t. tx_id t = i) (\<lambda>t. t\<lparr>pczt := proven_pczt, tx_state := Proved, lock_owner := owner\<rparr>)"

definition set_transfer_anchor_boundary :: "MigrationTransferId \<Rightarrow> BlockHeight \<Rightarrow> MigrationState \<Rightarrow> MigrationState" where
  "set_transfer_anchor_boundary i boundary =
     on_transaction (\<lambda>t. tx_id t = i) (\<lambda>t. t\<lparr>anchor_boundary := Some boundary\<rparr>)"

lemma not_Some_pair [simp]: "(\<forall>a b. x \<noteq> Some (a, b)) \<longleftrightarrow> x = None"
  by (cases x) auto

section \<open>Stored forms\<close>

text \<open>What a store keeps of a kind, a state, a status or a mark's kind reads back as what was stored.\<close>

lemma tx_kind_stored:
  "tx_kind_from_stored (tx_kind_name k) (map_option fst (preparation_indices k))
     (map_option snd (preparation_indices k)) (transfer_crossing k) = Some k"
  by (cases k) (simp_all add: tx_kind_from_stored_def)

lemma tx_state_stored:
  "tx_state_from_stored (tx_state_name s) (broadcast_txid s) (mined_height s) = Some s"
  by (cases s) (simp_all add: tx_state_from_stored_def)

lemma status_stored: "status_try_from n = Some s \<longleftrightarrow> n = wire_name s"
  by (cases s) (auto simp: status_try_from_def)

lemma unsatisfiable_kind_stored: "unsatisfiable_kind_try_from n = Some k \<longleftrightarrow> n = unsatisfiable_kind_name k"
  by (cases k) (auto simp: unsatisfiable_kind_try_from_def)

end
