(* ===== verification/MigrationKernel.thy ===== *)
theory MigrationKernel
  imports MigrationState
begin

text \<open>
  The decisions of \<open>zcash_pool_migration/src/state.rs\<close>: which transactions are expired or can never
  mine, the prove, broadcast and rebuild queues, the next step, the outlook, the status view, and
  every operation that changes the persisted state. The sets of ids are \<open>BTreeSet\<close>s.
\<close>

section \<open>Steps, actions and blockers\<close>

record ProveTarget =
  target_id :: MigrationTransferId
  target_kind :: MigrationTxKind

datatype AdvanceStep =
    StepProve (prove_targets: "ProveTarget list")
  | StepBroadcast (step_id: MigrationTransferId)
  | StepRebuild (step_id: MigrationTransferId)
  | StepReplan
  | StepReevaluate
  | StepWaiting
  | StepComplete

datatype StepKind =
    KindProve | KindBroadcast | KindRebuild | KindReplan | KindReevaluate | KindWaiting | KindComplete

fun step_kind :: "AdvanceStep \<Rightarrow> StepKind" where
  "step_kind (StepProve ts) = KindProve"
| "step_kind (StepBroadcast i) = KindBroadcast"
| "step_kind (StepRebuild i) = KindRebuild"
| "step_kind StepReplan = KindReplan"
| "step_kind StepReevaluate = KindReevaluate"
| "step_kind StepWaiting = KindWaiting"
| "step_kind StepComplete = KindComplete"

datatype NextAction = ActProve | ActBroadcast

datatype Blocker =
    OnDependencies | OnSchedule | OnAnchorBoundary | OnSignature | OnExpiryImminent | OnExpired
  | OnReevaluation | OnUnsatisfiable

record TransactionStatus =
  st_id :: MigrationTransferId
  st_kind :: MigrationTxKind
  st_state :: MigrationTxState
  st_depends_on :: "MigrationTransferId list"
  st_scheduled_height :: BlockHeight
  st_expiry_height :: BlockHeight
  ready :: bool
  action :: "NextAction option"
  blocked_on :: "Blocker option"
  st_unsatisfiable_kind :: "UnsatisfiableKind option"
  st_mined_height :: "BlockHeight option"
  st_txid :: "TxId option"

section \<open>Expiry and the dead set\<close>

definition find_transaction :: "MigrationState \<Rightarrow> MigrationTransferId \<Rightarrow> MigrationTransaction option" where
  "find_transaction s i = List.find (\<lambda>t. tx_id t = i) (transactions s)"

definition deps_mined :: "MigrationState \<Rightarrow> MigrationTransferId list \<Rightarrow> bool" where
  "deps_mined s deps \<longleftrightarrow>
     list_all (\<lambda>dep. case find_transaction s dep of Some t \<Rightarrow> is_mined (tx_state t) | None \<Rightarrow> False) deps"

definition is_expired :: "MigrationTransaction \<Rightarrow> BlockHeight \<Rightarrow> bool" where
  "is_expired t target_height \<longleftrightarrow>
     \<not> is_mined (tx_state t) \<and> expiry_height t \<noteq> 0 \<and> expiry_height t < target_height"

definition expired_transactions :: "MigrationState \<Rightarrow> DuenessTargets \<Rightarrow> MigrationTransferId list" where
  "expired_transactions s targets =
     map tx_id (filter (\<lambda>t. is_expired t (scanned targets)) (transactions s))"

text \<open>One pass over the transactions, and whether it grew the set; the passes go on until one does not.\<close>

definition dead_visit ::
    "MigrationTransaction \<Rightarrow> MigrationTransferId set \<times> bool \<Rightarrow> MigrationTransferId set \<times> bool" where
  "dead_visit t acc =
     (if \<not> is_mined (tx_state t) \<and> tx_id t \<notin> fst acc \<and> list_ex (\<lambda>d. d \<in> fst acc) (depends_on t)
      then (insert (tx_id t) (fst acc), True) else acc)"

abbreviation dead_pass ::
    "MigrationTransaction list \<Rightarrow> MigrationTransferId set \<times> bool \<Rightarrow> MigrationTransferId set \<times> bool" where
  "dead_pass \<equiv> fold dead_visit"

lemma dead_visit_mono: "fst acc \<subseteq> fst (dead_visit t acc)" "fst (dead_visit t acc) \<subseteq> insert (tx_id t) (fst acc)"
  by (auto simp: dead_visit_def)

lemma dead_pass_mono: "fst acc \<subseteq> fst (dead_pass ts acc)"
proof (induction ts arbitrary: acc)
  case (Cons t ts)
  show ?case using order_trans [OF dead_visit_mono(1) Cons.IH [of "dead_visit t acc"]] by simp
qed simp

lemma dead_pass_ids: "fst (dead_pass ts acc) \<subseteq> fst acc \<union> tx_id ` set ts"
proof (induction ts arbitrary: acc)
  case (Cons t ts)
  show ?case using Cons.IH [of "dead_visit t acc"] dead_visit_mono(2) [of t acc] by (simp add: subset_iff) blast
qed simp

lemma dead_pass_grew: "snd (dead_pass ts (dead, False)) \<Longrightarrow> dead \<subset> fst (dead_pass ts (dead, False))"
proof (induction ts)
  case (Cons t ts)
  show ?case
  proof (cases "dead_visit t (dead, False) = (dead, False)")
    case False
    then have e: "dead_visit t (dead, False) = (insert (tx_id t) dead, True)" "tx_id t \<notin> dead"
      by (auto simp: dead_visit_def split: if_splits)
    show ?thesis using e(2) dead_pass_mono [of "(insert (tx_id t) dead, True)" ts] by (auto simp: e(1))
  qed (use Cons in simp)
qed simp

function dead_closure :: "MigrationTransaction list \<Rightarrow> MigrationTransferId set \<Rightarrow> MigrationTransferId set" where
  "dead_closure ts dead =
     (let (dead', grew) = dead_pass ts (dead, False) in if grew then dead_closure ts dead' else dead')"
  by pat_completeness auto
termination
proof (relation "measure (\<lambda>(ts, dead). card (tx_id ` set ts - dead))")
  fix ts dead p dead' grew
  assume p: "p = dead_pass ts (dead, False)" "(dead', grew) = p" "grew"
  then have s: "dead \<subset> dead'" using dead_pass_grew [of ts dead] by (metis fst_conv snd_conv)
  have "dead' \<subseteq> dead \<union> tx_id ` set ts" using dead_pass_ids [of ts "(dead, False)"] p by (metis fst_conv)
  with s have "tx_id ` set ts - dead' \<subset> tx_id ` set ts - dead" by blast
  then show "((ts, dead'), ts, dead) \<in> measure (\<lambda>(ts, dead). card (tx_id ` set ts - dead))"
    by (simp add: psubset_card_mono)
qed simp

declare dead_closure.simps [simp del]

definition dead_seed :: "DuenessTargets \<Rightarrow> MigrationTransaction \<Rightarrow> bool" where
  "dead_seed targets t \<longleftrightarrow>
     \<not> is_mined (tx_state t) \<and> (unsatisfiable t \<noteq> None \<or> is_expired t (scanned targets))"

definition dead_set :: "MigrationState \<Rightarrow> DuenessTargets \<Rightarrow> MigrationTransferId set" where
  "dead_set s targets =
     dead_closure (transactions s) (set (map tx_id (filter (dead_seed targets) (transactions s))))"

section \<open>The queues\<close>

definition is_transfer :: "MigrationTxKind \<Rightarrow> bool" where
  "is_transfer k \<longleftrightarrow> transfer_crossing k \<noteq> None"

definition next_rebuildable ::
    "MigrationState \<Rightarrow> DuenessTargets \<Rightarrow> MigrationTransferId set \<Rightarrow> MigrationTransferId list \<Rightarrow> MigrationTransferId option" where
  "next_rebuildable s targets dead set_aside =
     map_option tx_id (min_by_key (\<lambda>t. (scheduled_height t, tx_id t))
       (filter (\<lambda>t. is_expired t (scanned targets) \<and> unsatisfiable t = None \<and>
            \<not> list_ex (\<lambda>d. d \<in> dead) (depends_on t) \<and> tx_id t \<notin> set set_aside)
          (filter (\<lambda>t. is_transfer (tx_kind t)) (transactions s))))"

text \<open>The sum with the anchor depth is plain \<open>u32\<close> addition, which wraps in a release build.\<close>

definition prove_ready :: "MigrationState \<Rightarrow> DuenessTargets \<Rightarrow> MigrationTransaction \<Rightarrow> bool" where
  "prove_ready s targets t \<longleftrightarrow>
     \<not> is_expired t (effective targets) \<and> deps_mined s (depends_on t) \<and>
     (case anchor_boundary t of
        Some boundary \<Rightarrow> boundary + PROVABLE_ANCHOR_DEPTH < scanned targets
      | None \<Rightarrow> scheduled_height t \<le> effective targets)"

definition prove_key :: "MigrationTransaction \<Rightarrow> BlockHeight \<times> MigrationTransferId" where
  "prove_key t = (case anchor_boundary t of Some b \<Rightarrow> b | None \<Rightarrow> scheduled_height t, tx_id t)"

definition prove_target :: "MigrationTransaction \<Rightarrow> ProveTarget" where
  "prove_target t = \<lparr>target_id = tx_id t, target_kind = tx_kind t\<rparr>"

definition provable :: "MigrationState \<Rightarrow> DuenessTargets \<Rightarrow> MigrationTransferId set \<Rightarrow> MigrationTransferId list
    \<Rightarrow> MigrationTransaction \<Rightarrow> bool" where
  "provable s targets dead set_aside t \<longleftrightarrow>
     tx_state t = Signed \<and> tx_id t \<notin> dead \<and> tx_id t \<notin> set set_aside \<and> prove_ready s targets t"

definition provable_targets ::
    "MigrationState \<Rightarrow> DuenessTargets \<Rightarrow> MigrationTransferId set \<Rightarrow> MigrationTransferId list \<Rightarrow> ProveTarget list" where
  "provable_targets s targets dead set_aside =
     map prove_target (sort_key prove_key (filter (provable s targets dead set_aside) (transactions s)))"

definition broadcastable :: "MigrationState \<Rightarrow> DuenessTargets \<Rightarrow> MigrationTransferId set \<Rightarrow> MigrationTransferId list
    \<Rightarrow> MigrationTransaction \<Rightarrow> bool" where
  "broadcastable s targets dead set_aside t \<longleftrightarrow>
     tx_state t = Proved \<and> scheduled_height t \<le> effective targets \<and> tx_id t \<notin> dead \<and>
     tx_id t \<notin> set set_aside \<and> broadcast_failure_at t = None \<and> deps_mined s (depends_on t) \<and>
     \<not> is_expired t (effective targets)"

definition next_broadcastable ::
    "MigrationState \<Rightarrow> DuenessTargets \<Rightarrow> MigrationTransferId set \<Rightarrow> MigrationTransferId list \<Rightarrow> MigrationTransferId option" where
  "next_broadcastable s targets dead set_aside =
     map_option tx_id (min_by_key (\<lambda>t. (scheduled_height t, tx_id t))
       (filter (broadcastable s targets dead set_aside) (transactions s)))"

definition needs_proof :: "MigrationTransferId set \<Rightarrow> MigrationTransaction \<Rightarrow> bool" where
  "needs_proof dead t \<longleftrightarrow> is_transfer (tx_kind t) \<and>
     (tx_state t = Signed \<or> tx_state t = AwaitingSignature) \<and> tx_id t \<notin> dead"

definition sync_wakeup_schedule ::
    "MigrationState \<Rightarrow> BlockHeight \<Rightarrow> WakeupParams \<Rightarrow> rng
     \<Rightarrow> ((MigrationTransferId WakeupScheduleError + MigrationTransferId SyncWakeup list) \<times> rng) option" where
  "sync_wakeup_schedule s current_tip params rng =
     (let dead = dead_set s (dueness_at (block_height_add current_tip 1));
          transfers = List.map_filter
            (\<lambda>t. map_option (\<lambda>a. (tx_id t, a, scheduled_height t)) (anchor_boundary t))
            (filter (needs_proof dead) (transactions s))
      in schedule_sync_wakeups params current_tip transfers rng)"

section \<open>Status and threshold\<close>

definition is_terminal :: "MigrationState \<Rightarrow> bool" where
  "is_terminal s \<longleftrightarrow> status_is_terminal (status s)"

fun is_started :: "MigrationTxState \<Rightarrow> bool" where
  "is_started (Broadcast t) \<longleftrightarrow> True"
| "is_started (Mined t h) \<longleftrightarrow> True"
| "is_started _ \<longleftrightarrow> False"

definition all_mined :: "MigrationState \<Rightarrow> bool" where
  "all_mined s \<longleftrightarrow> transactions s \<noteq> [] \<and> list_all (\<lambda>t. is_mined (tx_state t)) (transactions s)"

definition recompute_status :: "MigrationState \<Rightarrow> MigrationState" where
  "recompute_status s =
     (if is_terminal s then s
      else if all_mined s then s\<lparr>status := Complete\<rparr>
      else if list_ex (\<lambda>t. is_started (tx_state t)) (transactions s) then s\<lparr>status := InProgress\<rparr>
      else s)"

text \<open>Both sums are of \<open>u64\<close>; the products are of \<open>u128\<close>, which they never exceed.\<close>

definition unsatisfiable_value :: "MigrationState \<Rightarrow> nat" where
  "unsatisfiable_value s =
     u64_sum (map zat (List.map_filter (transfer_crossing_value s)
       (filter (\<lambda>t. unsatisfiable t \<noteq> None \<and> \<not> is_mined (tx_state t)) (transactions s))))"

definition replan_required :: "MigrationState \<Rightarrow> bool" where
  "replan_required s \<longleftrightarrow>
     unat (percent (replan_threshold s)) * u64_sum (map zat (crossing_values (denominations s)))
       < 100 * unsatisfiable_value s"

definition mark_superseded :: "MigrationState \<Rightarrow> MigrationState" where
  "mark_superseded s = (if is_terminal s then s else s\<lparr>status := Superseded\<rparr>)"

definition mark_cancelled :: "MigrationState \<Rightarrow> MigrationState" where
  "mark_cancelled s = (if is_terminal s then s else s\<lparr>status := Cancelled\<rparr>)"

section \<open>Operations on one transaction\<close>

definition mark_broadcast :: "MigrationTransferId \<Rightarrow> MigrationState \<Rightarrow> MigrationState" where
  "mark_broadcast i s =
     recompute_status (on_transaction (\<lambda>t. tx_id t = i) (\<lambda>t. t\<lparr>tx_state := Broadcast (txid t)\<rparr>) s)"

definition mark_mined :: "MigrationTransferId \<Rightarrow> BlockHeight \<Rightarrow> MigrationState \<Rightarrow> MigrationState" where
  "mark_mined i height s =
     recompute_status (on_transaction (\<lambda>t. tx_id t = i)
       (\<lambda>t. t\<lparr>tx_state := Mined (txid t) height, unsatisfiable := None, broadcast_failure_at := None\<rparr>) s)"

definition report_broadcast_failure :: "MigrationTransferId \<Rightarrow> BlockHeight \<Rightarrow> MigrationState \<Rightarrow> MigrationState" where
  "report_broadcast_failure i observed_tip =
     on_transaction (\<lambda>t. tx_id t = i \<and> tx_state t = Proved) (\<lambda>t. t\<lparr>broadcast_failure_at := Some observed_tip\<rparr>)"

definition clear_broadcast_failure :: "MigrationTransferId \<Rightarrow> MigrationState \<Rightarrow> MigrationState" where
  "clear_broadcast_failure i = on_transaction (\<lambda>t. tx_id t = i) (\<lambda>t. t\<lparr>broadcast_failure_at := None\<rparr>)"

definition apply_signature :: "MigrationTransferId \<Rightarrow> bytes \<Rightarrow> MigrationState \<Rightarrow> bool \<times> MigrationState" where
  "apply_signature i signed_pczt s =
     (let P = \<lambda>t. tx_id t = i \<and> tx_state t = AwaitingSignature in
      if List.find P (transactions s) = None then (False, s)
      else (True, on_transaction P (\<lambda>t. t\<lparr>pczt := signed_pczt, tx_state := Signed\<rparr>) s))"

section \<open>Operations on the schedule\<close>

definition shift_transaction ::
    "AnchorBucketInterval \<Rightarrow> u32 \<Rightarrow> MigrationTransaction \<Rightarrow> rng \<Rightarrow> (MigrationTransaction \<times> rng) option" where
  "shift_transaction interval delta t rng =
     (let t' = t\<lparr>scheduled_height := block_height_add (scheduled_height t) delta\<rparr> in
      case tx_state t of
        Broadcast x \<Rightarrow> Some (t, rng)
      | Mined x h \<Rightarrow> Some (t, rng)
      | Proved \<Rightarrow> Some (t', rng)
      | _ \<Rightarrow>
          (case anchor_boundary t' of
             Some prior \<Rightarrow>
               if is_transfer (tx_kind t') then
                 map_option (apfst (\<lambda>fresh. case fresh of Some b \<Rightarrow> t'\<lparr>anchor_boundary := Some b\<rparr> | None \<Rightarrow> t'))
                   (redraw_anchor_boundary interval prior (scheduled_height t') rng)
               else Some (t', rng)
           | None \<Rightarrow> Some (t', rng)))"

primrec shift_transactions ::
    "AnchorBucketInterval \<Rightarrow> u32 \<Rightarrow> MigrationTransaction list \<Rightarrow> rng \<Rightarrow> (MigrationTransaction list \<times> rng) option" where
  "shift_transactions interval delta [] rng = Some ([], rng)"
| "shift_transactions interval delta (t # ts) rng =
     Option.bind (shift_transaction interval delta t rng) (\<lambda>(t', rng').
       map_option (apfst (Cons t')) (shift_transactions interval delta ts rng'))"

definition shift_schedule :: "u32 \<Rightarrow> MigrationState \<Rightarrow> rng \<Rightarrow> (MigrationState \<times> rng) option" where
  "shift_schedule delta s rng =
     map_option (apfst (\<lambda>ts. s\<lparr>transactions := ts\<rparr>))
       (shift_transactions (committed_interval s) delta (transactions s) rng)"

section \<open>Recording satisfiability\<close>

primrec direct_marks ::
    "(MigrationTransferId \<times> StepSatisfiability) list \<Rightarrow> MigrationState \<Rightarrow> MigrationState" where
  "direct_marks [] s = s"
| "direct_marks (d # ds) s =
     direct_marks ds
       (case snd d of
          Unsatisfiable cause as_of \<Rightarrow>
            (case cause_kind cause of
               Some kind \<Rightarrow>
                 on_transaction (\<lambda>t. tx_id t = fst d \<and> unsatisfiable t = None \<and> \<not> is_mined (tx_state t))
                   (\<lambda>t. t\<lparr>unsatisfiable := Some (as_of, kind)\<rparr>) s
             | None \<Rightarrow> s)
        | _ \<Rightarrow> s)"

text \<open>The stamp a dead dependency contributes.\<close>

definition dead_stamp :: "DuenessTargets \<Rightarrow> MigrationTransaction \<Rightarrow> BlockHeight option" where
  "dead_stamp targets d =
     (let expired = (if is_expired d (scanned targets) then Some (expiry_height d) else None) in
      case (unsatisfiable_at d, expired) of
        (Some m, Some e) \<Rightarrow> Some (min m e)
      | (Some m, None) \<Rightarrow> Some m
      | (None, Some e) \<Rightarrow> Some e
      | (None, None) \<Rightarrow> None)"

definition dep_stamps :: "MigrationState \<Rightarrow> DuenessTargets \<Rightarrow> MigrationTransaction \<Rightarrow> BlockHeight list" where
  "dep_stamps s targets t =
     List.map_filter (dead_stamp targets)
       (filter (\<lambda>d. \<not> is_mined (tx_state d)) (List.map_filter (find_transaction s) (depends_on t)))"

definition inherited_stamp :: "MigrationState \<Rightarrow> DuenessTargets \<Rightarrow> MigrationTransaction \<Rightarrow> BlockHeight option" where
  "inherited_stamp s targets t =
     (if dep_stamps s targets t = [] then None else Some (Min (set (dep_stamps s targets t))))"

definition inherited_marks :: "MigrationState \<Rightarrow> DuenessTargets \<Rightarrow> (MigrationTransferId \<times> BlockHeight) list" where
  "inherited_marks s targets =
     List.map_filter (\<lambda>t. map_option (Pair (tx_id t)) (inherited_stamp s targets t))
       (filter (\<lambda>t. \<not> is_mined (tx_state t) \<and> unsatisfiable t = None) (transactions s))"

primrec apply_inherited :: "(MigrationTransferId \<times> BlockHeight) list \<Rightarrow> MigrationState \<Rightarrow> MigrationState" where
  "apply_inherited [] s = s"
| "apply_inherited (m # ms) s =
     apply_inherited ms
       (on_transaction (\<lambda>t. tx_id t = fst m) (\<lambda>t. t\<lparr>unsatisfiable := Some (snd m, Inherited)\<rparr>) s)"

text \<open>
  The loop applies the stamps of one pass to the first transaction of each id, so it ends only if the
  ids are distinct: \<open>None\<close> stands for the loop that never ends.
\<close>

partial_function (option) inherit_loop :: "DuenessTargets \<Rightarrow> MigrationState \<Rightarrow> MigrationState option" where
  "inherit_loop targets s =
     (let inherited = inherited_marks s targets in
      if inherited = [] then Some s else inherit_loop targets (apply_inherited inherited s))"

definition record_satisfiability ::
    "DuenessTargets \<Rightarrow> (MigrationTransferId \<times> StepSatisfiability) list \<Rightarrow> MigrationState \<Rightarrow> MigrationState option" where
  "record_satisfiability targets determinations s = inherit_loop targets (direct_marks determinations s)"

section \<open>Chain rewinds\<close>

fun above :: "BlockHeight \<Rightarrow> BlockHeight option \<Rightarrow> bool" where
  "above height (Some h) \<longleftrightarrow> height < h"
| "above height None \<longleftrightarrow> False"

definition truncate_transaction :: "BlockHeight \<Rightarrow> MigrationTransaction \<Rightarrow> MigrationTransaction" where
  "truncate_transaction height t = t\<lparr>
     unsatisfiable := (if above height (unsatisfiable_at t) then None else unsatisfiable t),
     broadcast_failure_at := (if above height (broadcast_failure_at t) then None else broadcast_failure_at t),
     tx_state := (case tx_state t of
        Mined i h \<Rightarrow> if height < h then Broadcast i else tx_state t
      | _ \<Rightarrow> tx_state t)\<rparr>"

definition truncate_to_height :: "BlockHeight \<Rightarrow> MigrationState \<Rightarrow> MigrationState" where
  "truncate_to_height height s =
     (let s' = s\<lparr>transactions := map (truncate_transaction height) (transactions s)\<rparr> in
      if status s' = Complete \<and> list_ex (\<lambda>t. \<not> is_mined (tx_state t)) (transactions s')
      then s'\<lparr>status := InProgress\<rparr> else s')"

section \<open>The next step\<close>

definition next_step :: "MigrationState \<Rightarrow> DuenessTargets \<Rightarrow> MigrationTransferId list \<Rightarrow> AdvanceStep" where
  "next_step s targets set_aside =
     (if is_terminal s then StepComplete
      else
        let dead = dead_set s targets in
        case next_broadcastable s targets dead set_aside of
          Some i \<Rightarrow> StepBroadcast i
        | None \<Rightarrow>
            if replan_required s then StepReplan
            else
              let targets_to_prove = provable_targets s targets dead set_aside in
              if targets_to_prove \<noteq> [] then StepProve targets_to_prove
              else case next_rebuildable s targets dead set_aside of
                Some i \<Rightarrow> StepRebuild i
              | None \<Rightarrow>
                  if dead \<noteq> {} \<and> set_aside = [] \<and>
                     list_all (\<lambda>t. is_mined (tx_state t) \<or> tx_id t \<in> dead) (transactions s)
                  then StepReplan
                  else if all_mined s then StepComplete
                  else StepWaiting)"

section \<open>The outlook\<close>

definition step_floor ::
    "MigrationTransaction \<Rightarrow> DuenessTargets \<Rightarrow> MigrationTransferId set \<Rightarrow> (StepKind \<times> BlockHeight) option" where
  "step_floor t targets dead =
     (if is_mined (tx_state t) then None
      else if unsatisfiable t \<noteq> None \<or> list_ex (\<lambda>d. d \<in> dead) (depends_on t) then None
      else case broadcast_failure_at t of
        Some reported \<Rightarrow> Some (KindReevaluate, block_height_add reported 1)
      | None \<Rightarrow>
          if is_expired t (scanned targets) then
            (case tx_kind t of
               Transfer c \<Rightarrow> Some (KindRebuild, block_height_add (expiry_height t) 1)
             | Preparation l i \<Rightarrow> None)
          else case tx_state t of
            Proved \<Rightarrow> Some (KindBroadcast, scheduled_height t)
          | Broadcast x \<Rightarrow> None
          | Mined x h \<Rightarrow> None
          | _ \<Rightarrow> Some (KindProve,
              case anchor_boundary t of
                Some boundary \<Rightarrow> block_height_add boundary (PROVABLE_ANCHOR_DEPTH + 1)
              | None \<Rightarrow> scheduled_height t))"

fun outlook_rank :: "StepKind \<Rightarrow> nat" where
  "outlook_rank KindBroadcast = 0"
| "outlook_rank KindProve = 1"
| "outlook_rank KindRebuild = 2"
| "outlook_rank _ = 3"

definition outlook_key ::
    "MigrationTransferId \<times> StepKind \<times> BlockHeight \<Rightarrow> BlockHeight \<times> nat \<times> MigrationTransferId" where
  "outlook_key e = (let (i, kind, height) = e in (height, outlook_rank kind, i))"

definition outlook_candidates ::
    "MigrationState \<Rightarrow> DuenessTargets \<Rightarrow> MigrationTransferId list \<Rightarrow> (MigrationTransferId \<times> StepKind \<times> BlockHeight) list" where
  "outlook_candidates s targets set_aside =
     (let dead = dead_set s targets in
      List.map_filter (\<lambda>t. map_option (Pair (tx_id t)) (step_floor t targets dead))
        (filter (\<lambda>t. tx_id t \<notin> set set_aside \<and> deps_mined s (depends_on t) \<and>
           \<not> is_expired t (effective targets)) (transactions s)))"

definition floor_of :: "MigrationState \<Rightarrow> DuenessTargets \<Rightarrow> MigrationTransferId \<Rightarrow> (BlockHeight \<times> StepKind) option" where
  "floor_of s targets i =
     map_option prod.swap
       (Option.bind (find_transaction s i) (\<lambda>t. step_floor t targets (dead_set s targets)))"

definition upcoming_step ::
    "MigrationState \<Rightarrow> DuenessTargets \<Rightarrow> MigrationTransferId list \<Rightarrow> (BlockHeight \<times> StepKind) option" where
  "upcoming_step s targets set_aside =
     (case next_step s targets set_aside of
        StepComplete \<Rightarrow> None
      | StepReevaluate \<Rightarrow> None
      | StepReplan \<Rightarrow> Some (effective targets, KindReplan)
      | StepProve ts \<Rightarrow> (case ts of [] \<Rightarrow> None | t # _ \<Rightarrow> floor_of s targets (target_id t))
      | StepBroadcast i \<Rightarrow> floor_of s targets i
      | StepRebuild i \<Rightarrow> floor_of s targets i
      | StepWaiting \<Rightarrow>
          map_option (\<lambda>(i, kind, height). (height, kind))
            (min_by_key outlook_key (outlook_candidates s targets set_aside)))"

section \<open>The status view\<close>

definition disposition ::
    "MigrationState \<Rightarrow> DuenessTargets \<Rightarrow> MigrationTransferId set \<Rightarrow> MigrationTransaction
     \<Rightarrow> bool \<times> NextAction option \<times> Blocker option" where
  "disposition s targets dead t =
     (let deps_ok = deps_mined s (depends_on t);
          unsat = \<not> is_mined (tx_state t) \<and> (unsatisfiable t \<noteq> None \<or> list_ex (\<lambda>d. d \<in> dead) (depends_on t));
          awaiting_reevaluation = \<not> is_mined (tx_state t) \<and> broadcast_failure_at t \<noteq> None
      in if unsat then (False, None, Some OnUnsatisfiable)
      else if awaiting_reevaluation then (False, None, Some OnReevaluation)
      else if is_expired t (scanned targets) then (False, None, Some OnExpired)
      else if is_expired t (effective targets) then (False, None, Some OnExpiryImminent)
      else case tx_state t of
        AwaitingSignature \<Rightarrow> (False, None, Some OnSignature)
      | Signed \<Rightarrow>
          if \<not> deps_ok then (False, None, Some OnDependencies)
          else if prove_ready s targets t then (True, Some ActProve, None)
          else (False, None, Some (case anchor_boundary t of Some b \<Rightarrow> OnAnchorBoundary | None \<Rightarrow> OnSchedule))
      | Proved \<Rightarrow>
          if \<not> deps_ok then (False, None, Some OnDependencies)
          else if scheduled_height t \<le> effective targets then (True, Some ActBroadcast, None)
          else (False, None, Some OnSchedule)
      | Broadcast x \<Rightarrow> (False, None, None)
      | Mined x h \<Rightarrow> (False, None, None))"

definition transaction_status ::
    "MigrationState \<Rightarrow> DuenessTargets \<Rightarrow> MigrationTransferId set \<Rightarrow> MigrationTransaction \<Rightarrow> TransactionStatus" where
  "transaction_status s targets dead t =
     (let unsat = \<not> is_mined (tx_state t) \<and> (unsatisfiable t \<noteq> None \<or> list_ex (\<lambda>d. d \<in> dead) (depends_on t));
          (r, a, b) = disposition s targets dead t
      in \<lparr>st_id = tx_id t, st_kind = tx_kind t, st_state = tx_state t, st_depends_on = depends_on t,
          st_scheduled_height = scheduled_height t, st_expiry_height = expiry_height t,
          ready = r, action = a, blocked_on = b,
          st_unsatisfiable_kind =
            (if unsat then Some (case unsatisfiable t of Some (h, k) \<Rightarrow> k | None \<Rightarrow> Inherited) else None),
          st_mined_height = mined_height (tx_state t), st_txid = broadcast_txid (tx_state t)\<rparr>)"

definition transaction_statuses :: "MigrationState \<Rightarrow> DuenessTargets \<Rightarrow> TransactionStatus list" where
  "transaction_statuses s targets =
     map (transaction_status s targets (dead_set s targets)) (transactions s)"

end
