(* ===== verification/MigrationQueues.thy ===== *)
theory MigrationQueues
  imports MigrationKernel
begin

text \<open>
  What the decisions of the migration kernel give: the dead set is the least set that holds the
  marked and the expired transactions and their dependents, the queues hold what the status view
  reports as ready, and the next step is the first in the order of the queues.
\<close>

section \<open>Transactions that can never mine\<close>

inductive doomed :: "MigrationState \<Rightarrow> DuenessTargets \<Rightarrow> MigrationTransferId \<Rightarrow> bool"
  for s :: MigrationState and targets :: DuenessTargets where
  seed: "t \<in> set (transactions s) \<Longrightarrow> dead_seed targets t \<Longrightarrow> doomed s targets (tx_id t)"
| dependent: "t \<in> set (transactions s) \<Longrightarrow> \<not> is_mined (tx_state t) \<Longrightarrow> d \<in> set (depends_on t) \<Longrightarrow>
    doomed s targets d \<Longrightarrow> doomed s targets (tx_id t)"

lemma dead_visit_doomed:
  "t \<in> set (transactions s) \<Longrightarrow> fst acc \<subseteq> Collect (doomed s targets) \<Longrightarrow>
   fst (dead_visit t acc) \<subseteq> Collect (doomed s targets)"
  by (auto simp: dead_visit_def list_ex_iff intro: dependent)

lemma dead_pass_doomed:
  "set ts \<subseteq> set (transactions s) \<Longrightarrow> fst acc \<subseteq> Collect (doomed s targets) \<Longrightarrow>
   fst (dead_pass ts acc) \<subseteq> Collect (doomed s targets)"
  by (induction ts arbitrary: acc) (simp_all add: dead_visit_doomed)

lemma dead_closure_doomed:
  "ts = transactions s \<Longrightarrow> dead \<subseteq> Collect (doomed s targets) \<Longrightarrow>
   dead_closure ts dead \<subseteq> Collect (doomed s targets)"
proof (induction ts dead rule: dead_closure.induct)
  case (1 ts dead)
  obtain dead' grew where p: "dead_pass ts (dead, False) = (dead', grew)" by force
  have "dead' \<subseteq> Collect (doomed s targets)"
    using dead_pass_doomed [of ts s "(dead, False)" targets] 1(2,3) p by simp
  then show ?case using 1(1) [OF p [symmetric] refl] 1(2) p by (subst dead_closure.simps) simp
qed

text \<open>A pass that did not grow the set visits every transaction in vain.\<close>

lemma dead_visit_grew: "snd acc \<Longrightarrow> snd (dead_visit t acc)"
  by (simp add: dead_visit_def)

lemma dead_pass_grew_mono: "snd acc \<Longrightarrow> snd (dead_pass ts acc)"
  by (induction ts arbitrary: acc) (simp_all add: dead_visit_grew)

lemma dead_pass_stable:
  "\<not> snd (dead_pass ts acc) \<Longrightarrow> fst (dead_pass ts acc) = fst acc \<and> (\<forall>t\<in>set ts. dead_visit t acc = acc)"
proof (induction ts arbitrary: acc)
  case (Cons u us)
  have u: "dead_visit u acc = acc"
  proof (rule ccontr)
    assume "dead_visit u acc \<noteq> acc"
    then have "snd (dead_visit u acc)" by (auto simp: dead_visit_def split: if_splits)
    with Cons.prems show False using dead_pass_grew_mono [of "dead_visit u acc" us] by simp
  qed
  then show ?case using Cons.IH [of acc] Cons.prems by simp
qed simp

lemma dead_closure_closed:
  "dead \<subseteq> dead_closure ts dead \<and> (\<forall>t\<in>set ts. dead_visit t (dead_closure ts dead, False) = (dead_closure ts dead, False))"
proof (induction ts dead rule: dead_closure.induct)
  case (1 ts dead)
  obtain dead' grew where p: "dead_pass ts (dead, False) = (dead', grew)" by force
  show ?case
  proof (cases grew)
    case True
    have "dead \<subseteq> dead'" using dead_pass_mono [of "(dead, False)" ts] p by simp
    then show ?thesis using 1 [OF p [symmetric] refl True] True p by (subst (1 2 3) dead_closure.simps) auto
  next
    case False
    then have "\<not> snd (dead_pass ts (dead, False))" using p by simp
    from dead_pass_stable [OF this] False p
    have "dead' = dead" "\<forall>t\<in>set ts. dead_visit t (dead, False) = (dead, False)" by simp_all
    then show ?thesis using False p by (subst (1 2 3) dead_closure.simps) simp
  qed
qed

lemma dead_set_eq: "dead_set s targets = Collect (doomed s targets)"
proof
  have "set (map tx_id (filter (dead_seed targets) (transactions s))) \<subseteq> Collect (doomed s targets)"
    by (auto intro: seed)
  then show "dead_set s targets \<subseteq> Collect (doomed s targets)"
    unfolding dead_set_def by (rule dead_closure_doomed [OF refl])
next
  let ?seeds = "set (map tx_id (filter (dead_seed targets) (transactions s)))"
  note closed = dead_closure_closed [of ?seeds "transactions s", folded dead_set_def]
  have "doomed s targets i \<Longrightarrow> i \<in> dead_set s targets" for i
  proof (induction rule: doomed.induct)
    case (seed t)
    then show ?case using closed by auto
  next
    case (dependent t d)
    have "dead_visit t (dead_set s targets, False) = (dead_set s targets, False)" using closed dependent(1) by blast
    then show ?case using dependent(2,3) dependent.IH by (auto simp: dead_visit_def list_ex_iff split: if_splits)
  qed
  then show "Collect (doomed s targets) \<subseteq> dead_set s targets" by blast
qed

inductive_cases doomed_cases: "doomed s targets i"

text \<open>With distinct ids, what makes one transaction dead.\<close>

definition ids_distinct :: "MigrationState \<Rightarrow> bool" where
  "ids_distinct s \<longleftrightarrow> distinct (map tx_id (transactions s))"

lemma same_id: "ids_distinct s \<Longrightarrow> t \<in> set (transactions s) \<Longrightarrow> u \<in> set (transactions s) \<Longrightarrow> tx_id t = tx_id u \<Longrightarrow> t = u"
  unfolding ids_distinct_def by (meson distinct_map inj_on_def)

lemma find_transaction_eq:
  "ids_distinct s \<Longrightarrow> find_transaction s i = Some t \<longleftrightarrow> t \<in> set (transactions s) \<and> tx_id t = i"
proof
  assume "find_transaction s i = Some t"
  then show "t \<in> set (transactions s) \<and> tx_id t = i"
    unfolding find_transaction_def find_Some_iff by force
next
  assume d: "ids_distinct s" and t: "t \<in> set (transactions s) \<and> tx_id t = i"
  then obtain u where u: "find_transaction s i = Some u"
    unfolding find_transaction_def by (metis (mono_tags, lifting) find_None_iff not_None_eq)
  then have "u \<in> set (transactions s)" "tx_id u = i" unfolding find_transaction_def find_Some_iff by force+
  with u show "find_transaction s i = Some t" using same_id [OF d, of t u] t by simp
qed

lemma dead_iff:
  assumes "ids_distinct s" "t \<in> set (transactions s)"
  shows "tx_id t \<in> dead_set s targets \<longleftrightarrow> \<not> is_mined (tx_state t) \<and>
    (unsatisfiable t \<noteq> None \<or> is_expired t (scanned targets) \<or> (\<exists>d\<in>set (depends_on t). d \<in> dead_set s targets))"
  unfolding dead_set_eq mem_Collect_eq
proof
  assume "doomed s targets (tx_id t)"
  then show "\<not> is_mined (tx_state t) \<and> (unsatisfiable t \<noteq> None \<or> is_expired t (scanned targets) \<or>
      (\<exists>d\<in>set (depends_on t). doomed s targets d))"
  proof (rule doomed_cases)
    fix u assume u: "tx_id t = tx_id u" "u \<in> set (transactions s)" "dead_seed targets u"
    have "t = u" by (rule same_id [OF assms u(2,1)])
    with u(3) show ?thesis unfolding dead_seed_def by blast
  next
    fix u d assume u: "tx_id t = tx_id u" "u \<in> set (transactions s)" "\<not> is_mined (tx_state u)"
      "d \<in> set (depends_on u)" "doomed s targets d"
    have "t = u" by (rule same_id [OF assms u(2,1)])
    with u(3-5) show ?thesis by blast
  qed
next
  assume a: "\<not> is_mined (tx_state t) \<and> (unsatisfiable t \<noteq> None \<or> is_expired t (scanned targets) \<or>
      (\<exists>d\<in>set (depends_on t). doomed s targets d))"
  show "doomed s targets (tx_id t)"
  proof (cases "dead_seed targets t")
    case True
    then show ?thesis by (rule seed [OF assms(2)])
  next
    case False
    with a obtain d where "d \<in> set (depends_on t)" "doomed s targets d" by (auto simp: dead_seed_def)
    with a show ?thesis by (intro dependent [OF assms(2)]) auto
  qed
qed

lemma dead_set_scanned: "scanned targets = scanned targets' \<Longrightarrow> dead_set s targets = dead_set s targets'"
  by (simp add: dead_set_def dead_seed_def [abs_def])

section \<open>The queues and the status view\<close>

lemma status_broadcast_iff:
  assumes "ids_distinct s" "t \<in> set (transactions s)" "scanned targets \<le> effective targets"
  shows "disposition s targets (dead_set s targets) t = (True, Some ActBroadcast, None) \<longleftrightarrow>
    broadcastable s targets (dead_set s targets) [] t"
proof -
  have "is_expired t (scanned targets) \<Longrightarrow> is_expired t (effective targets)"
    using assms(3) by (auto simp: is_expired_def)
  then show ?thesis
    using dead_iff [OF assms(1,2), of targets]
    by (cases "tx_state t") (auto simp: disposition_def Let_def broadcastable_def list_ex_iff)
qed

lemma status_prove_iff:
  assumes "ids_distinct s" "t \<in> set (transactions s)" "scanned targets \<le> effective targets"
  shows "disposition s targets (dead_set s targets) t = (True, Some ActProve, None) \<longleftrightarrow>
      provable s targets (dead_set s targets) [] t \<and> broadcast_failure_at t = None"
    "provable s targets (dead_set s targets) [] t \<Longrightarrow> broadcast_failure_at t \<noteq> None \<Longrightarrow>
      disposition s targets (dead_set s targets) t = (False, None, Some OnReevaluation) \<and> tx_state t = Signed"
proof -
  have "is_expired t (scanned targets) \<Longrightarrow> is_expired t (effective targets)"
    using assms(3) by (auto simp: is_expired_def)
  then show "disposition s targets (dead_set s targets) t = (True, Some ActProve, None) \<longleftrightarrow>
      provable s targets (dead_set s targets) [] t \<and> broadcast_failure_at t = None"
    using dead_iff [OF assms(1,2), of targets]
    by (cases "tx_state t") (auto simp: disposition_def Let_def provable_def prove_ready_def list_ex_iff)
  show "provable s targets (dead_set s targets) [] t \<Longrightarrow> broadcast_failure_at t \<noteq> None \<Longrightarrow>
      disposition s targets (dead_set s targets) t = (False, None, Some OnReevaluation) \<and> tx_state t = Signed"
    using dead_iff [OF assms(1,2), of targets] by (auto simp: disposition_def Let_def provable_def list_ex_iff)
qed

lemma disposition_ready:
  "disposition s targets dead t = (r, a, b) \<Longrightarrow>
   (r \<longleftrightarrow> a \<noteq> None) \<and> (r \<longrightarrow> b = None) \<and> a \<in> {None, Some ActProve, Some ActBroadcast}"
  by (auto simp: disposition_def Let_def split: if_splits MigrationTxState.splits option.splits)

section \<open>The next step\<close>

lemma queue_first_Some:
  assumes "map_option tx_id (min_by_key key (filter P ts)) = Some i"
  obtains t where "t \<in> set ts" "P t" "tx_id t = i" "\<forall>u\<in>set ts. P u \<longrightarrow> key t \<le> key u"
proof -
  obtain t where t: "min_by_key key (filter P ts) = Some t" "tx_id t = i" using assms by auto
  from min_by_key_Some [OF t(1)] t(2) show ?thesis by (intro that [of t]) auto
qed

lemma queue_first_None: "map_option tx_id (min_by_key key (filter P ts)) = None \<longleftrightarrow> (\<forall>t\<in>set ts. \<not> P t)"
  by (simp add: filter_empty_conv)

definition rebuildable :: "MigrationState \<Rightarrow> DuenessTargets \<Rightarrow> MigrationTransferId set \<Rightarrow> MigrationTransferId list
    \<Rightarrow> MigrationTransaction \<Rightarrow> bool" where
  "rebuildable s targets dead set_aside t \<longleftrightarrow>
     is_transfer (tx_kind t) \<and> is_expired t (scanned targets) \<and> unsatisfiable t = None \<and>
     (\<forall>d\<in>set (depends_on t). d \<notin> dead) \<and> tx_id t \<notin> set set_aside"

lemma next_rebuildable_eq:
  "next_rebuildable s targets dead set_aside =
     map_option tx_id (min_by_key (\<lambda>t. (scheduled_height t, tx_id t))
       (filter (rebuildable s targets dead set_aside) (transactions s)))"
  unfolding next_rebuildable_def filter_filter
  by (intro arg_cong [where f = "map_option tx_id"] arg_cong2 [where f = min_by_key] refl filter_cong)
     (auto simp: rebuildable_def list_ex_iff)

lemma set_provable_targets:
  "set (provable_targets s targets dead set_aside) =
     prove_target ` {t \<in> set (transactions s). provable s targets dead set_aside t}"
  by (simp add: provable_targets_def)

lemma provable_targets_empty:
  "provable_targets s targets dead set_aside = [] \<longleftrightarrow>
     (\<forall>t\<in>set (transactions s). \<not> provable s targets dead set_aside t)"
proof -
  have "provable_targets s targets dead set_aside = [] \<longleftrightarrow> set (provable_targets s targets dead set_aside) = {}" by simp
  then show ?thesis unfolding set_provable_targets by blast
qed

lemma next_step_cases:
  fixes s targets set_aside
  defines "dead \<equiv> dead_set s targets"
  obtains
    (terminal) "is_terminal s" "next_step s targets set_aside = StepComplete"
  | (broadcast) t where "\<not> is_terminal s" "t \<in> set (transactions s)" "broadcastable s targets dead set_aside t"
      "\<forall>u\<in>set (transactions s). broadcastable s targets dead set_aside u \<longrightarrow>
         (scheduled_height t, tx_id t) \<le> (scheduled_height u, tx_id u)"
      "next_step s targets set_aside = StepBroadcast (tx_id t)"
  | (threshold) "\<not> is_terminal s" "\<forall>t\<in>set (transactions s). \<not> broadcastable s targets dead set_aside t"
      "replan_required s" "next_step s targets set_aside = StepReplan"
  | (prove) "\<not> is_terminal s" "\<forall>t\<in>set (transactions s). \<not> broadcastable s targets dead set_aside t"
      "\<not> replan_required s" "\<exists>t\<in>set (transactions s). provable s targets dead set_aside t"
      "next_step s targets set_aside = StepProve (provable_targets s targets dead set_aside)"
  | (rebuild) t where "\<not> is_terminal s" "\<forall>t\<in>set (transactions s). \<not> broadcastable s targets dead set_aside t"
      "\<not> replan_required s" "\<forall>t\<in>set (transactions s). \<not> provable s targets dead set_aside t"
      "t \<in> set (transactions s)" "rebuildable s targets dead set_aside t"
      "\<forall>u\<in>set (transactions s). rebuildable s targets dead set_aside u \<longrightarrow>
         (scheduled_height t, tx_id t) \<le> (scheduled_height u, tx_id u)"
      "next_step s targets set_aside = StepRebuild (tx_id t)"
  | (idle) "\<not> is_terminal s" "\<forall>t\<in>set (transactions s). \<not> broadcastable s targets dead set_aside t"
      "\<not> replan_required s" "\<forall>t\<in>set (transactions s). \<not> provable s targets dead set_aside t"
      "\<forall>t\<in>set (transactions s). \<not> rebuildable s targets dead set_aside t"
      "next_step s targets set_aside =
        (if dead \<noteq> {} \<and> set_aside = [] \<and> (\<forall>t\<in>set (transactions s). is_mined (tx_state t) \<or> tx_id t \<in> dead)
         then StepReplan else if all_mined s then StepComplete else StepWaiting)"
proof (cases "is_terminal s")
  case True
  then show ?thesis by (intro terminal) (simp_all add: next_step_def)
next
  case nt: False
  let ?b = "next_broadcastable s targets dead set_aside"
  let ?r = "next_rebuildable s targets dead set_aside"
  show ?thesis
  proof (cases ?b)
    case (Some i)
    then obtain t where t: "t \<in> set (transactions s)" "broadcastable s targets dead set_aside t" "tx_id t = i"
      "\<forall>u\<in>set (transactions s). broadcastable s targets dead set_aside u \<longrightarrow>
         (scheduled_height t, tx_id t) \<le> (scheduled_height u, tx_id u)"
      unfolding next_broadcastable_def by (rule queue_first_Some) blast
    from nt Some t(3) have "next_step s targets set_aside = StepBroadcast (tx_id t)"
      unfolding next_step_def dead_def Let_def by simp
    with nt t(1,2,4) show ?thesis by (intro broadcast)
  next
    case b: None
    then have nb: "\<forall>t\<in>set (transactions s). \<not> broadcastable s targets dead set_aside t"
      unfolding next_broadcastable_def queue_first_None .
    show ?thesis
    proof (cases "replan_required s")
      case True
      with nt b have "next_step s targets set_aside = StepReplan" unfolding next_step_def dead_def Let_def by simp
      with nt nb True show ?thesis by (rule threshold)
    next
      case r: False
      show ?thesis
      proof (cases "provable_targets s targets dead set_aside = []")
        case False
        with nt b r have "next_step s targets set_aside = StepProve (provable_targets s targets dead set_aside)"
          unfolding next_step_def dead_def Let_def by simp
        with False nt nb r show ?thesis unfolding provable_targets_empty by (intro prove) simp_all
      next
        case p: True
        then have np: "\<forall>t\<in>set (transactions s). \<not> provable s targets dead set_aside t"
          unfolding provable_targets_empty .
        show ?thesis
        proof (cases ?r)
          case (Some i)
          then obtain t where t: "t \<in> set (transactions s)" "rebuildable s targets dead set_aside t" "tx_id t = i"
            "\<forall>u\<in>set (transactions s). rebuildable s targets dead set_aside u \<longrightarrow>
               (scheduled_height t, tx_id t) \<le> (scheduled_height u, tx_id u)"
            unfolding next_rebuildable_eq by (rule queue_first_Some) blast
          from nt b r p Some t(3) have "next_step s targets set_aside = StepRebuild (tx_id t)"
            unfolding next_step_def dead_def Let_def by simp
          with nt nb r np t(1,2,4) show ?thesis by (intro rebuild)
        next
          case None
          then have nr: "\<forall>t\<in>set (transactions s). \<not> rebuildable s targets dead set_aside t"
            unfolding next_rebuildable_eq queue_first_None .
          from nt b r p None show ?thesis
            by (intro idle [OF nt nb r np nr]) (simp add: next_step_def dead_def Let_def list_all_iff)
        qed
      qed
    qed
  qed
qed

lemma deps_minedD:
  "deps_mined s deps \<Longrightarrow> d \<in> set deps \<Longrightarrow> \<exists>u. find_transaction s d = Some u \<and> is_mined (tx_state u)"
  by (auto simp: deps_mined_def list_all_iff split: option.splits)

lemma deps_mined_alive:
  assumes "ids_distinct s" "deps_mined s deps" "d \<in> set deps"
  shows "d \<notin> dead_set s targets"
proof -
  obtain u where u: "find_transaction s d = Some u" "is_mined (tx_state u)" using deps_minedD [OF assms(2,3)] by blast
  then have m: "u \<in> set (transactions s)" "tx_id u = d" using find_transaction_eq [OF assms(1)] by auto
  show ?thesis using dead_iff [OF assms(1) m(1), of targets] u(2) m(2) by simp
qed

lemma next_step_acts:
  assumes "\<not> is_terminal s" "t \<in> set (transactions s)"
    and "broadcastable s targets (dead_set s targets) set_aside t \<or> provable s targets (dead_set s targets) set_aside t"
  shows "next_step s targets set_aside \<notin> {StepWaiting, StepComplete}"
  using assms by (cases rule: next_step_cases [of s targets set_aside]) auto

end
