(* ===== verification/MigrationDecisions.thy ===== *)
theory MigrationDecisions
  imports MigrationQueues
begin

text \<open>
  The properties of the migration kernel's decisions: the dead set, the safety of the next step, its
  agreement with the status view, and the outlook.
\<close>

section \<open>A sample migration\<close>

definition sample_transaction :: "MigrationTransferId \<Rightarrow> MigrationTxKind \<Rightarrow> MigrationTransferId list \<Rightarrow> MigrationTxState
    \<Rightarrow> MigrationTransaction" where
  "sample_transaction i k deps st = \<lparr>tx_id = i, tx_kind = k, pczt = [], depends_on = deps,
     scheduled_height = 1000, expiry_height = 2000,
     anchor_boundary = (if is_transfer k then Some 864 else None), txid = [ucast i],
     unsatisfiable = None, broadcast_failure_at = None, spend_nullifiers = [], tx_state = st, lock_owner = None\<rparr>"

definition sample_migration :: "MigrationStatus \<Rightarrow> MigrationTransaction list \<Rightarrow> MigrationState" where
  "sample_migration st ts = \<lparr>status = st,
     denominations = \<lparr>crossing_values = [Zatoshis 100000000, Zatoshis 200000000], note_fee_buffer = Zatoshis 10000,
       change = None, prep_fees = Zatoshis 10000, total_input = Zatoshis 300030000,
       total_migratable = Zatoshis 300000000\<rparr>,
     preparation = \<lparr>layers = [], direct_funding = []\<rparr>, transactions = ts,
     committed_interval = 144, replan_threshold = REPLAN_DEFAULT\<rparr>"

lemmas sample_defs = sample_transaction_def sample_migration_def is_transfer_def

text \<open>A mined preparation, a transfer proved, and one signed.\<close>

abbreviation sample_transactions :: "MigrationTransaction list" where
  "sample_transactions \<equiv>
     [sample_transaction 0 (Preparation 0 0) [] (Mined [0] 900),
      sample_transaction 1 (Transfer 0) [0] Proved,
      sample_transaction 2 (Transfer 1) [0] Signed]"

section \<open>The dead set\<close>

text \<open>
  C12. The dead set is the least set that holds every unmined transaction that is marked, is expired at
  the scanned target, or depends on one of its members.
\<close>

theorem dead_set_least:
  "dead_set s targets = lfp (\<lambda>D. tx_id ` {t \<in> set (transactions s). \<not> is_mined (tx_state t) \<and>
     (unsatisfiable t \<noteq> None \<or> is_expired t (scanned targets) \<or> set (depends_on t) \<inter> D \<noteq> {})})"
    (is "_ = lfp ?f")
proof
  have m: "mono ?f" by (rule monoI) blast
  have u: "lfp ?f = ?f (lfp ?f)" by (rule lfp_unfold [OF m])
  have "doomed s targets i \<Longrightarrow> i \<in> lfp ?f" for i
  proof (induction rule: doomed.induct)
    case (seed t)
    then show ?case by (subst u) (auto simp: dead_seed_def)
  next
    case (dependent t d)
    then show ?case by (subst u) auto
  qed
  then show "dead_set s targets \<subseteq> lfp ?f" unfolding dead_set_eq by blast
next
  show "lfp ?f \<subseteq> dead_set s targets"
  proof (rule lfp_lowerbound)
    show "?f (dead_set s targets) \<subseteq> dead_set s targets"
      unfolding dead_set_eq by (auto simp: dead_seed_def intro: seed dependent)
  qed
qed

section \<open>The next step\<close>

text \<open>
  C3. A step the kernel names is safe. What it broadcasts is proved, due, not reported as rejected and
  not expired; what it proves is signed, and its anchor is deep enough below the scanned tip or its
  schedule due; the dependencies of both are mined, and neither is in the dead set. It rebuilds only a
  transfer expired at the scanned target whose own inputs are unmarked and whose dependencies are not
  dead, and only with nothing to broadcast or to prove. It asks to replan only above the threshold, or
  with every unmined transaction dead; it is complete only when the migration is terminal or mined.
\<close>

theorem next_step_safe:
  assumes "ids_distinct s"
  shows "case next_step s targets set_aside of
      StepBroadcast i \<Rightarrow> \<not> is_terminal s \<and> i \<notin> dead_set s targets \<and> (\<exists>t\<in>set (transactions s). tx_id t = i \<and>
        tx_state t = Proved \<and> scheduled_height t \<le> effective targets \<and> broadcast_failure_at t = None \<and>
        \<not> is_expired t (effective targets) \<and>
        (\<forall>d\<in>set (depends_on t). \<exists>u\<in>set (transactions s). tx_id u = d \<and> is_mined (tx_state u)))
    | StepProve ts \<Rightarrow> \<not> is_terminal s \<and> \<not> replan_required s \<and> ts \<noteq> [] \<and>
        (\<forall>x\<in>set ts. target_id x \<notin> dead_set s targets \<and> (\<exists>t\<in>set (transactions s). x = prove_target t \<and>
          tx_state t = Signed \<and> \<not> is_expired t (effective targets) \<and>
          (\<forall>d\<in>set (depends_on t). \<exists>u\<in>set (transactions s). tx_id u = d \<and> is_mined (tx_state u)) \<and>
          (case anchor_boundary t of Some b \<Rightarrow> b + PROVABLE_ANCHOR_DEPTH < scanned targets
           | None \<Rightarrow> scheduled_height t \<le> effective targets)))
    | StepRebuild i \<Rightarrow> \<not> is_terminal s \<and> \<not> replan_required s \<and>
        (\<exists>t\<in>set (transactions s). tx_id t = i \<and> is_transfer (tx_kind t) \<and> is_expired t (scanned targets) \<and>
          unsatisfiable t = None \<and> set (depends_on t) \<inter> dead_set s targets = {}) \<and>
        (\<forall>t\<in>set (transactions s). \<not> broadcastable s targets (dead_set s targets) set_aside t \<and>
          \<not> provable s targets (dead_set s targets) set_aside t)
    | StepReplan \<Rightarrow> \<not> is_terminal s \<and> (replan_required s \<or> (set_aside = [] \<and>
        (\<exists>t\<in>set (transactions s). \<not> is_mined (tx_state t)) \<and>
        (\<forall>t\<in>set (transactions s). is_mined (tx_state t) \<or> tx_id t \<in> dead_set s targets)))
    | StepComplete \<Rightarrow> is_terminal s \<or> all_mined s
    | StepWaiting \<Rightarrow> \<not> is_terminal s \<and> \<not> all_mined s
    | StepReevaluate \<Rightarrow> False"
proof -
  have mined: "deps_mined s deps \<Longrightarrow> \<forall>d\<in>set deps. \<exists>u\<in>set (transactions s). tx_id u = d \<and> is_mined (tx_state u)" for deps
    using deps_minedD [of s deps] find_transaction_eq [OF assms] by blast
  have "doomed s targets i \<Longrightarrow> \<exists>t\<in>set (transactions s). \<not> is_mined (tx_state t)" for i
    by (erule doomed_cases) (auto simp: dead_seed_def)
  then have some: "dead_set s targets \<noteq> {} \<Longrightarrow> \<exists>t\<in>set (transactions s). \<not> is_mined (tx_state t)"
    unfolding dead_set_eq by blast
  show ?thesis
  proof (cases rule: next_step_cases [of s targets set_aside])
    case (broadcast t)
    from broadcast(3) have b: "tx_state t = Proved" "scheduled_height t \<le> effective targets"
      "tx_id t \<notin> dead_set s targets" "broadcast_failure_at t = None" "\<not> is_expired t (effective targets)"
      "deps_mined s (depends_on t)"
      unfolding broadcastable_def by blast+
    show ?thesis unfolding broadcast(5) AdvanceStep.case
      by (intro conjI bexI [of _ t]) (rule broadcast(1) refl b broadcast(2) mined [OF b(6)])+
  next
    case prove
    have "target_id x \<notin> dead_set s targets \<and> (\<exists>t\<in>set (transactions s). x = prove_target t \<and>
        tx_state t = Signed \<and> \<not> is_expired t (effective targets) \<and>
        (\<forall>d\<in>set (depends_on t). \<exists>u\<in>set (transactions s). tx_id u = d \<and> is_mined (tx_state u)) \<and>
        (case anchor_boundary t of Some b \<Rightarrow> b + PROVABLE_ANCHOR_DEPTH < scanned targets
         | None \<Rightarrow> scheduled_height t \<le> effective targets))"
      if x: "x \<in> set (provable_targets s targets (dead_set s targets) set_aside)" for x
    proof -
      obtain t where t: "x = prove_target t" "t \<in> set (transactions s)" "provable s targets (dead_set s targets) set_aside t"
        using x unfolding set_provable_targets by blast
      from t(3) have p: "tx_state t = Signed" "tx_id t \<notin> dead_set s targets" "\<not> is_expired t (effective targets)"
        "deps_mined s (depends_on t)"
        "case anchor_boundary t of Some b \<Rightarrow> b + PROVABLE_ANCHOR_DEPTH < scanned targets
         | None \<Rightarrow> scheduled_height t \<le> effective targets"
        unfolding provable_def prove_ready_def by blast+
      have "target_id x \<notin> dead_set s targets" using p(2) by (simp add: t(1) prove_target_def)
      then show ?thesis by (intro conjI bexI [of _ t]) (rule t(1,2) p mined [OF p(4)] | assumption)+
    qed
    note each = this
    have ne: "provable_targets s targets (dead_set s targets) set_aside \<noteq> []"
      unfolding provable_targets_empty using prove(4) by blast
    show ?thesis unfolding prove(5) AdvanceStep.case
      by (intro conjI) (rule prove(1,3) ne ballI each | assumption)+
  next
    case (rebuild t)
    from rebuild(6) have r: "is_transfer (tx_kind t)" "is_expired t (scanned targets)" "unsatisfiable t = None"
      "set (depends_on t) \<inter> dead_set s targets = {}"
      unfolding rebuildable_def by blast+
    show ?thesis unfolding rebuild(8) AdvanceStep.case
      by (intro conjI bexI [of _ t]) (rule rebuild(1,3,5) refl r ballI conjI | erule rebuild(2,4) [THEN bspec])+
  next
    case terminal
    then show ?thesis unfolding terminal(2) AdvanceStep.case by blast
  next
    case threshold
    then show ?thesis unfolding threshold(4) AdvanceStep.case by blast
  next
    case idle
    let ?dry = "dead_set s targets \<noteq> {} \<and> set_aside = [] \<and>
      (\<forall>t\<in>set (transactions s). is_mined (tx_state t) \<or> tx_id t \<in> dead_set s targets)"
    show ?thesis
    proof (cases ?dry)
      case True
      then have "next_step s targets set_aside = StepReplan" using idle(6) by simp
      then show ?thesis using True idle(1) some by simp
    next
      case False
      then have "next_step s targets set_aside = (if all_mined s then StepComplete else StepWaiting)"
        using idle(6) by (simp only: if_False)
      then show ?thesis using idle(1) by simp
    qed
  qed
qed

text \<open>Two proved transfers are due; the one scheduled first is broadcast.\<close>

theorem next_step_safe_witness:
  "next_step (sample_migration InProgress sample_transactions) (dueness_at 1000) [] = StepBroadcast 1 \<and>
   \<not> is_terminal (sample_migration InProgress sample_transactions) \<and>
   1 \<notin> dead_set (sample_migration InProgress sample_transactions) (dueness_at 1000)"
proof -
  have d: "ids_distinct (sample_migration InProgress sample_transactions)"
    by (simp add: ids_distinct_def sample_defs)
  have n: "next_step (sample_migration InProgress sample_transactions) (dueness_at 1000) [] = StepBroadcast 1"
    by (simp add: next_step_def dead_set_def dead_closure.simps dead_visit_def dead_seed_def is_expired_def
        next_broadcastable_def min_by_key_def broadcastable_def deps_mined_def find_transaction_def
        sample_defs dueness_at_def is_terminal_def)
  show ?thesis using next_step_safe [OF d, of "dueness_at 1000" "[]"] n by simp
qed

section \<open>The status view\<close>

definition ready_to_broadcast :: "TransactionStatus \<Rightarrow> bool" where
  "ready_to_broadcast st \<longleftrightarrow> ready st \<and> action st = Some ActBroadcast"

definition ready_to_prove :: "TransactionStatus \<Rightarrow> bool" where
  "ready_to_prove st \<longleftrightarrow> ready st \<and> action st = Some ActProve"

lemma ready_to_broadcast_iff:
  assumes "ids_distinct s" "t \<in> set (transactions s)" "scanned targets \<le> effective targets"
  shows "ready_to_broadcast (transaction_status s targets (dead_set s targets) t) \<longleftrightarrow>
    broadcastable s targets (dead_set s targets) [] t"
proof -
  obtain r a b where d: "disposition s targets (dead_set s targets) t = (r, a, b)" by (metis prod_cases3)
  from disposition_ready [OF d] status_broadcast_iff [OF assms] show ?thesis
    by (auto simp: ready_to_broadcast_def transaction_status_def Let_def d)
qed

lemma ready_to_prove_iff:
  assumes "ids_distinct s" "t \<in> set (transactions s)" "scanned targets \<le> effective targets"
  shows "ready_to_prove (transaction_status s targets (dead_set s targets) t) \<longleftrightarrow>
    provable s targets (dead_set s targets) [] t \<and> broadcast_failure_at t = None"
proof -
  obtain r a b where d: "disposition s targets (dead_set s targets) t = (r, a, b)" by (metis prod_cases3)
  from disposition_ready [OF d] status_prove_iff(1) [OF assms] show ?thesis
    by (auto simp: ready_to_prove_def transaction_status_def Let_def d)
qed

text \<open>A signed transaction that carries the report of a rejected broadcast.\<close>

definition awaits_reevaluation :: "TransactionStatus \<Rightarrow> bool" where
  "awaits_reevaluation st \<longleftrightarrow> st_state st = Signed \<and> blocked_on st = Some OnReevaluation"

lemma provable_row:
  assumes "ids_distinct s" "t \<in> set (transactions s)" "scanned targets \<le> effective targets"
    and "provable s targets (dead_set s targets) [] t"
  shows "ready_to_prove (transaction_status s targets (dead_set s targets) t) \<or>
    awaits_reevaluation (transaction_status s targets (dead_set s targets) t)"
proof (cases "broadcast_failure_at t = None")
  case True
  then show ?thesis using ready_to_prove_iff [OF assms(1-3)] assms(4) by blast
next
  case False
  from status_prove_iff(2) [OF assms(1-4) False] show ?thesis
    by (simp add: awaits_reevaluation_def transaction_status_def Let_def)
qed

lemma transaction_status_simps [simp]:
  "st_id (transaction_status s targets dead t) = tx_id t"
  "st_scheduled_height (transaction_status s targets dead t) = scheduled_height t"
  by (simp_all add: transaction_status_def Let_def split: prod.split)

text \<open>
  C14. Before a terminal status, the status view agrees with the kernel: a row is ready to be broadcast
  exactly when the next step is a broadcast, which is then that of a ready row scheduled no later
  than the others; a prove step names every row that is ready to be proved, and names beside them only
  signed transactions whose row waits for the reevaluation of a rejected broadcast. A transaction comes to
  be signed with such a report when it is rebuilt; without one the two agree exactly.
\<close>

theorem status_view_agrees:
  assumes "ids_distinct s" "\<not> is_terminal s" "scanned targets \<le> effective targets"
  shows "((\<exists>st\<in>set (transaction_statuses s targets). ready_to_broadcast st) \<longleftrightarrow>
        (\<exists>i. next_step s targets [] = StepBroadcast i)) \<and>
      (\<forall>i. next_step s targets [] = StepBroadcast i \<longrightarrow>
        (\<exists>st\<in>set (transaction_statuses s targets). st_id st = i \<and> ready_to_broadcast st \<and>
          (\<forall>st'\<in>set (transaction_statuses s targets).
             ready_to_broadcast st' \<longrightarrow> st_scheduled_height st \<le> st_scheduled_height st'))) \<and>
      (\<forall>ts. next_step s targets [] = StepProve ts \<longrightarrow>
        st_id ` {st \<in> set (transaction_statuses s targets). ready_to_prove st} \<subseteq> target_id ` set ts \<and>
        target_id ` set ts \<subseteq> st_id ` {st \<in> set (transaction_statuses s targets). ready_to_prove st \<or> awaits_reevaluation st} \<and>
        ((\<forall>t\<in>set (transactions s). tx_state t = Signed \<longrightarrow> broadcast_failure_at t = None) \<longrightarrow>
          target_id ` set ts = st_id ` {st \<in> set (transaction_statuses s targets). ready_to_prove st}))"
proof -
  let ?D = "dead_set s targets"
  have rows: "set (transaction_statuses s targets) = transaction_status s targets ?D ` set (transactions s)"
    by (simp add: transaction_statuses_def)
  have b: "ready_to_broadcast (transaction_status s targets ?D t) \<longleftrightarrow> broadcastable s targets ?D [] t"
    if "t \<in> set (transactions s)" for t by (rule ready_to_broadcast_iff [OF assms(1) that assms(3)])
  let ?ready = "st_id ` {st \<in> set (transaction_statuses s targets). ready_to_prove st}"
  let ?named = "target_id ` set (provable_targets s targets ?D [])"
  have named: "?named = tx_id ` {t \<in> set (transactions s). provable s targets ?D [] t}"
    unfolding set_provable_targets by (force simp: prove_target_def)
  have ready: "?ready = tx_id ` {t \<in> set (transactions s). provable s targets ?D [] t \<and> broadcast_failure_at t = None}"
    unfolding rows using ready_to_prove_iff [OF assms(1) _ assms(3)] by (force simp: image_def)
  have "?named \<subseteq> st_id ` {st \<in> set (transaction_statuses s targets). ready_to_prove st \<or> awaits_reevaluation st}"
    unfolding named rows using provable_row [OF assms(1) _ assms(3)] by (force simp: image_def)
  moreover have "?ready \<subseteq> ?named" unfolding named ready by blast
  moreover have "?named = ?ready" if "\<forall>t\<in>set (transactions s). tx_state t = Signed \<longrightarrow> broadcast_failure_at t = None"
    unfolding named ready using that by (auto simp: provable_def)
  ultimately have proved: "?ready \<subseteq> ?named \<and>
      ?named \<subseteq> st_id ` {st \<in> set (transaction_statuses s targets). ready_to_prove st \<or> awaits_reevaluation st} \<and>
      ((\<forall>t\<in>set (transactions s). tx_state t = Signed \<longrightarrow> broadcast_failure_at t = None) \<longrightarrow> ?named = ?ready)"
    by blast
  show ?thesis
  proof (cases rule: next_step_cases [of s targets "[]"])
    case terminal
    with assms(2) show ?thesis by simp
  next
    case (broadcast t)
    have "ready_to_broadcast (transaction_status s targets ?D t)" using b [OF broadcast(2)] broadcast(3) by simp
    moreover have "scheduled_height t \<le> scheduled_height u"
      if "u \<in> set (transactions s)" "ready_to_broadcast (transaction_status s targets ?D u)" for u
      using broadcast(4) that b [OF that(1)] by (auto simp: less_eq_prod_def)
    ultimately show ?thesis unfolding broadcast(5) rows using broadcast(2)
      by (intro conjI) (auto intro!: bexI [of _ t])
  next
    case threshold
    then show ?thesis unfolding rows using b by auto
  next
    case prove
    have "\<not> (\<exists>st\<in>set (transaction_statuses s targets). ready_to_broadcast st)" unfolding rows using b prove by auto
    then show ?thesis unfolding prove(5) AdvanceStep.inject AdvanceStep.distinct using proved by blast
  next
    case (rebuild t)
    then show ?thesis unfolding rebuild(8) using b by (auto simp: rows)
  next
    case idle
    then show ?thesis using b by (auto simp: rows)
  qed
qed

text \<open>A proved transfer is due, and another waits for the first preparation; one signed is ready to be proved.\<close>

theorem status_view_agrees_witness:
  "next_step (sample_migration InProgress sample_transactions) (dueness_at 1000) [] = StepBroadcast 1 \<and>
   (\<exists>st\<in>set (transaction_statuses (sample_migration InProgress sample_transactions) (dueness_at 1000)).
      st_id st = 1 \<and> ready_to_broadcast st)"
proof -
  have n: "next_step (sample_migration InProgress sample_transactions) (dueness_at 1000) [] = StepBroadcast 1"
    by (simp add: next_step_def dead_set_def dead_closure.simps dead_visit_def dead_seed_def is_expired_def
        next_broadcastable_def min_by_key_def broadcastable_def deps_mined_def find_transaction_def
        sample_defs dueness_at_def is_terminal_def)
  have "ids_distinct (sample_migration InProgress sample_transactions)"
    "\<not> is_terminal (sample_migration InProgress sample_transactions)"
    "scanned (dueness_at 1000) \<le> effective (dueness_at 1000)"
    by (simp_all add: ids_distinct_def is_terminal_def dueness_at_def sample_defs)
  from status_view_agrees [OF this, THEN conjunct2, THEN conjunct1] n show ?thesis by blast
qed

text \<open>A cancelled migration still shows the row as ready, although the kernel has no step for it.\<close>

lemma cancelled_still_ready:
  "next_step (sample_migration Cancelled sample_transactions) (dueness_at 1000) [] = StepComplete \<and>
   (\<exists>st\<in>set (transaction_statuses (sample_migration Cancelled sample_transactions) (dueness_at 1000)).
      ready_to_broadcast st)"
  by (simp add: next_step_def is_terminal_def transaction_statuses_def transaction_status_def disposition_def
      ready_to_broadcast_def dead_set_def dead_closure.simps dead_visit_def dead_seed_def is_expired_def
      deps_mined_def find_transaction_def dueness_at_def sample_defs Let_def)

section \<open>The outlook\<close>

lemma next_step_waiting:
  assumes "next_step s targets set_aside = StepWaiting"
  shows "\<not> is_terminal s" "t \<in> set (transactions s) \<Longrightarrow> \<not> broadcastable s targets (dead_set s targets) set_aside t"
    "t \<in> set (transactions s) \<Longrightarrow> \<not> provable s targets (dead_set s targets) set_aside t"
  using assms by (cases rule: next_step_cases [of s targets set_aside]; simp)+

lemma upcoming_waiting:
  assumes "next_step s targets set_aside = StepWaiting" "upcoming_step s targets set_aside = Some (h, k)"
  obtains t where "t \<in> set (transactions s)" "tx_id t \<notin> set set_aside" "deps_mined s (depends_on t)"
    "\<not> is_expired t (effective targets)" "step_floor t targets (dead_set s targets) = Some (k, h)"
proof -
  obtain i where "min_by_key outlook_key (outlook_candidates s targets set_aside) = Some (i, k, h)"
    using assms by (auto simp: upcoming_step_def)
  from min_by_key_Some [OF this] have "(i, k, h) \<in> set (outlook_candidates s targets set_aside)" by simp
  then show ?thesis unfolding outlook_candidates_def Let_def set_map_filter by (auto intro: that)
qed

lemma anchor_floor:
  fixes b :: u32
  assumes "unat b + 11 < 2 ^ 32"
  shows "b + PROVABLE_ANCHOR_DEPTH < c \<longleftrightarrow> block_height_add b (PROVABLE_ANCHOR_DEPTH + 1) \<le> c"
  using assms
  by (simp add: PROVABLE_ANCHOR_DEPTH_def block_height_add_def word_saturating_add_def word_less_nat_alt
      word_le_nat_alt unat_word_ariths) arith

lemma live_alive:
  assumes "ids_distinct s" "t \<in> set (transactions s)" "unsatisfiable t = None" "\<not> is_expired t (scanned targets)"
    and "deps_mined s (depends_on t)"
  shows "tx_id t \<notin> dead_set s targets"
  using dead_iff [OF assms(1,2), of targets] deps_mined_alive [OF assms(1,5), of _ targets] assms(3,4) by blast

lemma is_expired_mono: "is_expired t h \<Longrightarrow> h \<le> h' \<Longrightarrow> is_expired t h'"
  by (auto simp: is_expired_def)

text \<open>
  C13. The outlook of a waiting migration is kept: its height lies ahead, and once the targets reach it,
  with nothing expired by then, the kernel no longer waits. This is for a migration without
  transactions that await a signature or a reevaluation, and with anchors below the last heights.
\<close>

theorem outlook_honoured:
  assumes "ids_distinct s" "scanned targets \<le> effective targets"
    and waiting: "next_step s targets [] = StepWaiting" and outlook: "upcoming_step s targets [] = Some (h, k)"
    and plain: "\<forall>t\<in>set (transactions s). tx_state t \<noteq> AwaitingSignature \<and> broadcast_failure_at t = None \<and>
      (\<forall>b. anchor_boundary t = Some b \<longrightarrow> unat b + 11 < 2 ^ 32)"
    and targets': "targets' = \<lparr>scanned = max (scanned targets) h, effective = max (effective targets) h\<rparr>"
    and live: "\<forall>t\<in>set (transactions s). \<not> is_expired t (effective targets')"
  shows "scanned targets < h \<and> k \<in> {KindBroadcast, KindProve} \<and>
    next_step s targets' [] \<notin> {StepWaiting, StepComplete}"
proof -
  from waiting outlook obtain t where t: "t \<in> set (transactions s)" "deps_mined s (depends_on t)"
    and fl: "step_floor t targets (dead_set s targets) = Some (k, h)"
    by (rule upcoming_waiting)
  have st': "scanned targets' \<le> effective targets'" "scanned targets \<le> effective targets'" "h \<le> effective targets'"
    "h \<le> scanned targets'" using assms(2) by (auto simp: targets' le_max_iff_disj)
  have ne: "\<not> is_expired t (effective targets')" using live t(1) by blast
  have "effective targets \<le> effective targets'" by (simp add: targets')
  then have e: "\<not> is_expired t (scanned targets)" "\<not> is_expired t (scanned targets')" "\<not> is_expired t (effective targets)"
    using is_expired_mono [OF _ st'(2)] is_expired_mono [OF _ st'(1)] is_expired_mono ne by blast+
  have pl: "tx_state t \<noteq> AwaitingSignature" "broadcast_failure_at t = None"
    "\<And>b. anchor_boundary t = Some b \<Longrightarrow> unat b + 11 < 2 ^ 32" using plain t(1) by blast+
  have u: "unsatisfiable t = None" "\<not> is_mined (tx_state t)" using fl
    by (auto simp: step_floor_def simp del: not_None_eq not_Some_eq split: if_splits)
  note alive = live_alive [OF assms(1) t(1) u(1) _ t(2)]
  from fl u e pl consider (b) "tx_state t = Proved" "k = KindBroadcast" "h = scheduled_height t"
    | (p) "tx_state t = Signed" "k = KindProve"
        "h = (case anchor_boundary t of Some b \<Rightarrow> block_height_add b (PROVABLE_ANCHOR_DEPTH + 1) | None \<Rightarrow> scheduled_height t)"
    by (auto simp: step_floor_def split: if_splits MigrationTxState.splits)
  then show ?thesis
  proof cases
    case b
    have "broadcastable s targets' (dead_set s targets') [] t"
      using b(1,3) st' pl(2) t(2) ne alive [OF e(2)] by (simp add: broadcastable_def)
    moreover have "\<not> h \<le> effective targets"
      using next_step_waiting(2) [OF waiting t(1)] b(1,3) pl(2) t(2) e(3) alive [OF e(1)] by (auto simp: broadcastable_def)
    ultimately show ?thesis
      using next_step_acts [OF next_step_waiting(1) [OF waiting] t(1)] b(2) assms(2) by auto
  next
    case p
    have anchored: "(case anchor_boundary t of Some b \<Rightarrow> b + PROVABLE_ANCHOR_DEPTH < scanned tg
        | None \<Rightarrow> scheduled_height t \<le> effective tg) \<longleftrightarrow>
        h \<le> (case anchor_boundary t of Some b \<Rightarrow> scanned tg | None \<Rightarrow> effective tg)" for tg
      unfolding p(3) using pl(3) by (cases "anchor_boundary t") (simp_all add: anchor_floor)
    have "provable s targets' (dead_set s targets') [] t"
      using p(1) st' t(2) ne alive [OF e(2)] anchored [of targets']
      by (auto simp: provable_def prove_ready_def split: option.splits)
    moreover have "\<not> h \<le> (case anchor_boundary t of Some b \<Rightarrow> scanned targets | None \<Rightarrow> effective targets)"
      using next_step_waiting(3) [OF waiting t(1)] p(1) t(2) e(3) alive [OF e(1)] anchored [of targets]
      by (auto simp: provable_def prove_ready_def)
    ultimately show ?thesis
      using next_step_acts [OF next_step_waiting(1) [OF waiting] t(1)] p(2) assms(2)
      by (auto split: option.splits)
  qed
qed

lemmas kernel_eval = next_step_def dead_set_def dead_closure.simps dead_visit_def dead_seed_def is_expired_def
  next_broadcastable_def min_by_key_def broadcastable_def provable_targets_def provable_def prove_ready_def
  next_rebuildable_def deps_mined_def find_transaction_def is_terminal_def all_mined_def
  replan_required_def unsatisfiable_value_def u64_sum_def PROVABLE_ANCHOR_DEPTH_def

lemmas outlook_eval = upcoming_step_def outlook_candidates_def step_floor_def outlook_key_def floor_of_def
  block_height_add_def word_saturating_add_def List.map_filter_def

text \<open>A proved transfer waits for its height, 1000; there it is broadcast.\<close>

abbreviation sample_waiting :: MigrationState where
  "sample_waiting \<equiv> sample_migration InProgress
     [sample_transaction 0 (Preparation 0 0) [] (Mined [0] 900), sample_transaction 1 (Transfer 0) [0] Proved]"

theorem outlook_honoured_witness:
  "upcoming_step sample_waiting (dueness_at 905) [] = Some (1000, KindBroadcast) \<and>
   next_step sample_waiting \<lparr>scanned = 1000, effective = 1000\<rparr> [] \<notin> {StepWaiting, StepComplete}"
proof -
  have w: "next_step sample_waiting (dueness_at 905) [] = StepWaiting"
    by (simp add: kernel_eval sample_defs dueness_at_def)
  have u: "upcoming_step sample_waiting (dueness_at 905) [] = Some (1000, KindBroadcast)"
    by (simp add: w outlook_eval) (simp add: kernel_eval sample_defs dueness_at_def)
  have d: "ids_distinct sample_waiting" "scanned (dueness_at 905) \<le> effective (dueness_at 905)"
    by (simp_all add: ids_distinct_def sample_defs dueness_at_def)
  have p: "\<forall>t\<in>set (transactions sample_waiting). tx_state t \<noteq> AwaitingSignature \<and> broadcast_failure_at t = None \<and>
      (\<forall>b. anchor_boundary t = Some b \<longrightarrow> unat b + 11 < 2 ^ 32)"
    by (simp add: sample_defs)
  have l: "\<forall>t\<in>set (transactions sample_waiting). \<not> is_expired t (effective \<lparr>scanned = 1000, effective = 1000\<rparr>)"
    by (simp add: sample_defs is_expired_def)
  have t: "\<lparr>scanned = 1000, effective = 1000\<rparr> =
      \<lparr>scanned = max (scanned (dueness_at 905)) 1000, effective = max (effective (dueness_at 905)) 1000\<rparr>"
    by (simp add: dueness_at_def max_def)
  show ?thesis using outlook_honoured [OF d w u p t l] u by blast
qed

text \<open>The preparation has expired unmined, so the transfer that depends on it is dead with it.\<close>

theorem dead_set_least_witness:
  "lfp (\<lambda>D. tx_id ` {t \<in> set [sample_transaction 0 (Preparation 0 0) [] Proved, sample_transaction 1 (Transfer 0) [0] Signed].
     \<not> is_mined (tx_state t) \<and> (unsatisfiable t \<noteq> None \<or> is_expired t 2500 \<or> set (depends_on t) \<inter> D \<noteq> {})}) = {0, 1}"
proof -
  let ?s = "sample_migration InProgress [sample_transaction 0 (Preparation 0 0) [] Proved, sample_transaction 1 (Transfer 0) [0] Signed]"
  have t: "transactions ?s = [sample_transaction 0 (Preparation 0 0) [] Proved, sample_transaction 1 (Transfer 0) [0] Signed]"
    "scanned (dueness_at 2500) = 2500" by (simp_all add: sample_migration_def dueness_at_def)
  have "dead_set ?s (dueness_at 2500) = {0, 1}" by (simp add: kernel_eval sample_defs dueness_at_def insert_commute)
  with dead_set_least [of ?s "dueness_at 2500"] show ?thesis unfolding t by simp
qed

text \<open>
  A transfer that awaits its signature and whose anchor has settled has a proof as its outlook, at a
  height already reached, although the kernel waits.
\<close>

lemma outlook_of_unsigned:
  "next_step (sample_migration Committed [sample_transaction 0 (Transfer 0) [] AwaitingSignature]) (dueness_at 1000) [] =
     StepWaiting \<and>
   upcoming_step (sample_migration Committed [sample_transaction 0 (Transfer 0) [] AwaitingSignature]) (dueness_at 1000) [] =
     Some (875, KindProve)"
  (is "?w \<and> ?u")
proof
  show w: ?w by (simp add: kernel_eval sample_defs dueness_at_def)
  show ?u by (simp add: w outlook_eval) (simp add: kernel_eval outlook_eval sample_defs dueness_at_def)
qed

end
