(* ===== verification/MigrationMarks.thy ===== *)
theory MigrationMarks
  imports MigrationDecisions
begin

text \<open>
  What recording satisfiability answers does to the marks: the direct marks, the closure over the
  dependents, and its agreement with the dead set.
\<close>

section \<open>Direct marks\<close>

lemma on_transaction_fields [simp]:
  "status (on_transaction P f s) = status s" "denominations (on_transaction P f s) = denominations s"
  "preparation (on_transaction P f s) = preparation s" "committed_interval (on_transaction P f s) = committed_interval s"
  "replan_threshold (on_transaction P f s) = replan_threshold s"
  "transactions (on_transaction P f s) = update_first P f (transactions s)"
  by (simp_all add: on_transaction_def)

lemma on_transaction_map:
  "ids_distinct s \<Longrightarrow> on_transaction (\<lambda>t. tx_id t = i \<and> P t) f s =
     s\<lparr>transactions := map (\<lambda>t. if tx_id t = i \<and> P t then f t else t) (transactions s)\<rparr>"
  unfolding on_transaction_def ids_distinct_def by (simp only: update_first_map)

lemma on_transaction_id:
  "ids_distinct s \<Longrightarrow> on_transaction (\<lambda>t. tx_id t = i) f s =
     s\<lparr>transactions := map (\<lambda>t. if tx_id t = i then f t else t) (transactions s)\<rparr>"
  using on_transaction_map [of s i "\<lambda>t. True" f] by simp

lemma ids_distinct_map:
  "(\<And>t. tx_id (f t) = tx_id t) \<Longrightarrow> ids_distinct (s\<lparr>transactions := map f (transactions s)\<rparr>) \<longleftrightarrow> ids_distinct s"
  by (simp add: ids_distinct_def comp_def)

fun answer_mark :: "StepSatisfiability \<Rightarrow> (BlockHeight \<times> UnsatisfiableKind) option" where
  "answer_mark (Unsatisfiable c h) = map_option (Pair h) (cause_kind c)"
| "answer_mark _ = None"

definition determined ::
    "MigrationTransferId \<Rightarrow> MigrationTransferId \<times> StepSatisfiability \<Rightarrow> (BlockHeight \<times> UnsatisfiableKind) option" where
  "determined i d = (if fst d = i then answer_mark (snd d) else None)"

definition direct_mark ::
    "(MigrationTransferId \<times> StepSatisfiability) list \<Rightarrow> MigrationTransaction \<Rightarrow> MigrationTransaction" where
  "direct_mark ds t =
     (if is_mined (tx_state t) \<or> unsatisfiable t \<noteq> None then t
      else t\<lparr>unsatisfiable := find_map (determined (tx_id t)) ds\<rparr>)"

lemma direct_mark_simps [simp]: "tx_id (direct_mark ds t) = tx_id t" "tx_state (direct_mark ds t) = tx_state t"
  by (simp_all add: direct_mark_def)

lemma direct_mark_Cons:
  "direct_mark ds (case answer_mark (snd d) of Some m \<Rightarrow>
       (if tx_id t = fst d \<and> unsatisfiable t = None \<and> \<not> is_mined (tx_state t) then t\<lparr>unsatisfiable := Some m\<rparr> else t)
     | None \<Rightarrow> t) = direct_mark (d # ds) t"
proof (cases "is_mined (tx_state t) \<or> unsatisfiable t \<noteq> None")
  case True
  then show ?thesis by (cases "answer_mark (snd d)") (auto simp: direct_mark_def)
next
  case False
  then have f: "\<not> is_mined (tx_state t)" "unsatisfiable t = None" by blast+
  show ?thesis
  proof (cases "determined (tx_id t) d")
    case None
    then have "answer_mark (snd d) = None \<or> fst d \<noteq> tx_id t" by (auto simp: determined_def split: if_splits)
    with f None show ?thesis by (auto simp: direct_mark_def split: option.split)
  next
    case (Some m)
    then have "answer_mark (snd d) = Some m" "fst d = tx_id t" by (auto simp: determined_def split: if_splits)
    with f Some show ?thesis by (cases m) (simp add: direct_mark_def)
  qed
qed

lemma direct_marks_map:
  "ids_distinct s \<Longrightarrow> direct_marks ds s = s\<lparr>transactions := map (direct_mark ds) (transactions s)\<rparr>"
proof (induction ds arbitrary: s)
  case Nil
  have "direct_mark [] t = t" for t by (cases t) (simp add: direct_mark_def del: not_None_eq)
  then show ?case by simp
next
  case (Cons d ds)
  let ?f = "\<lambda>t. case answer_mark (snd d) of Some m \<Rightarrow>
      (if tx_id t = fst d \<and> unsatisfiable t = None \<and> \<not> is_mined (tx_state t) then t\<lparr>unsatisfiable := Some m\<rparr> else t)
    | None \<Rightarrow> t"
  let ?s = "s\<lparr>transactions := map ?f (transactions s)\<rparr>"
  have "direct_marks (d # ds) s = direct_marks ds ?s"
    by (cases "snd d") (auto simp: on_transaction_map [OF Cons.prems] split: option.split)
  also have "\<dots> = ?s\<lparr>transactions := map (direct_mark ds) (transactions ?s)\<rparr>"
  proof (rule Cons.IH)
    have "tx_id (?f t) = tx_id t" for t by (simp split: option.split)
    then show "ids_distinct ?s" using ids_distinct_map [of ?f s] Cons.prems by blast
  qed
  also have "\<dots> = s\<lparr>transactions := map (direct_mark (d # ds)) (transactions s)\<rparr>"
    by (simp add: direct_mark_Cons)
  finally show ?case .
qed

section \<open>The closure over the dependents\<close>

definition inherit_mark :: "MigrationState \<Rightarrow> DuenessTargets \<Rightarrow> MigrationTransaction \<Rightarrow> MigrationTransaction" where
  "inherit_mark s targets t =
     (if is_mined (tx_state t) \<or> unsatisfiable t \<noteq> None then t
      else case inherited_stamp s targets t of
        Some st \<Rightarrow> t\<lparr>unsatisfiable := Some (st, Inherited)\<rparr>
      | None \<Rightarrow> t)"

definition inherit_pass :: "DuenessTargets \<Rightarrow> MigrationState \<Rightarrow> MigrationState" where
  "inherit_pass targets s = s\<lparr>transactions := map (inherit_mark s targets) (transactions s)\<rparr>"

lemma inherit_mark_simps [simp]:
  "tx_id (inherit_mark s targets t) = tx_id t" "tx_state (inherit_mark s targets t) = tx_state t"
  "depends_on (inherit_mark s targets t) = depends_on t" "expiry_height (inherit_mark s targets t) = expiry_height t"
  by (simp_all add: inherit_mark_def split: option.split)

lemma transactions_pass [simp]:
  "transactions (inherit_pass targets s) = map (inherit_mark s targets) (transactions s)"
  by (simp add: inherit_pass_def)

lemma ids_distinct_pass [simp]: "ids_distinct (inherit_pass targets s) \<longleftrightarrow> ids_distinct s"
  unfolding inherit_pass_def by (rule ids_distinct_map) simp

lemma apply_inherited_map:
  assumes "ids_distinct s" "distinct (map fst ms)"
  shows "apply_inherited ms s = s\<lparr>transactions := map (\<lambda>t. case map_of ms (tx_id t) of
      Some st \<Rightarrow> t\<lparr>unsatisfiable := Some (st, Inherited)\<rparr> | None \<Rightarrow> t) (transactions s)\<rparr>"
  using assms
proof (induction ms arbitrary: s)
  case (Cons m ms)
  let ?f = "\<lambda>t. if tx_id t = fst m then t\<lparr>unsatisfiable := Some (snd m, Inherited)\<rparr> else t"
  let ?s = "s\<lparr>transactions := map ?f (transactions s)\<rparr>"
  have m: "map_of ms (fst m) = None" using Cons.prems(2) by (simp add: map_of_eq_None_iff)
  have "apply_inherited (m # ms) s = apply_inherited ms ?s"
    by (simp add: on_transaction_id [OF Cons.prems(1)])
  also have "\<dots> = ?s\<lparr>transactions := map (\<lambda>t. case map_of ms (tx_id t) of
      Some st \<Rightarrow> t\<lparr>unsatisfiable := Some (st, Inherited)\<rparr> | None \<Rightarrow> t) (transactions ?s)\<rparr>"
    using Cons.prems by (intro Cons.IH) (simp_all add: ids_distinct_map)
  also have "\<dots> = s\<lparr>transactions := map (\<lambda>t. case map_of (m # ms) (tx_id t) of
      Some st \<Rightarrow> t\<lparr>unsatisfiable := Some (st, Inherited)\<rparr> | None \<Rightarrow> t) (transactions s)\<rparr>"
    using m by (cases m) (auto simp: comp_def)
  finally show ?case .
qed simp

lemma map_of_map_filter:
  assumes "distinct (map k xs)" "x \<in> set xs"
  shows "map_of (List.map_filter (\<lambda>t. map_option (Pair (k t)) (g t)) (filter Q xs)) (k x) = (if Q x then g x else None)"
  using assms
proof (induction xs)
  case (Cons y ys)
  let ?l = "\<lambda>zs. List.map_filter (\<lambda>t. map_option (Pair (k t)) (g t)) (filter Q zs)"
  have out: "i \<notin> k ` set zs \<Longrightarrow> map_of (?l zs) i = None" for i zs
    by (auto simp: map_of_eq_None_iff set_map_filter)
  show ?case
  proof (cases "x = y")
    case True
    have "k y \<notin> k ` set ys" using Cons.prems(1) by simp
    then show ?thesis using out [of "k y" ys] unfolding True
      by (cases "g y") (simp_all add: List.map_filter_simps)
  next
    case False
    then have "x \<in> set ys" using Cons.prems by simp
    moreover from this have "k x \<noteq> k y" using Cons.prems(1) by (metis distinct.simps(2) image_eqI list.map(2) set_map)
    ultimately have "x \<in> set ys" "k x \<noteq> k y" .
    then show ?thesis using Cons.IH Cons.prems(1) by (cases "g y") (simp_all add: List.map_filter_simps)
  qed
qed simp

lemma distinct_map_filter_keys:
  "distinct (map k xs) \<Longrightarrow> distinct (map fst (List.map_filter (\<lambda>t. map_option (Pair (k t)) (g t)) (filter Q xs)))"
proof (induction xs)
  case (Cons y ys)
  then show ?case by (cases "g y") (auto simp: List.map_filter_simps set_map_filter)
qed (simp add: List.map_filter_simps)

lemma apply_inherited_pass:
  assumes "ids_distinct s"
  shows "apply_inherited (inherited_marks s targets) s = inherit_pass targets s"
proof -
  let ?ms = "inherited_marks s targets"
  have d: "distinct (map tx_id (transactions s))" using assms by (simp add: ids_distinct_def)
  have "distinct (map fst ?ms)" unfolding inherited_marks_def by (rule distinct_map_filter_keys [OF d])
  note apply_inherited_map [OF assms this]
  moreover have "(case map_of ?ms (tx_id t) of Some st \<Rightarrow> t\<lparr>unsatisfiable := Some (st, Inherited)\<rparr> | None \<Rightarrow> t) =
      inherit_mark s targets t" if "t \<in> set (transactions s)" for t
    unfolding inherited_marks_def map_of_map_filter [OF d that] inherit_mark_def by auto
  ultimately show ?thesis by (simp add: inherit_pass_def cong: map_cong)
qed

lemma map_filter_empty: "List.map_filter f xs = [] \<longleftrightarrow> (\<forall>x\<in>set xs. f x = None)"
  by (induction xs) (auto simp: List.map_filter_simps split: option.split)

lemma inherited_marks_empty:
  "inherited_marks s targets = [] \<longleftrightarrow>
     (\<forall>t\<in>set (transactions s). is_mined (tx_state t) \<or> unsatisfiable t \<noteq> None \<or> inherited_stamp s targets t = None)"
  unfolding inherited_marks_def map_filter_empty by (auto simp del: not_None_eq)

text \<open>The loop ends: a pass that adds marks leaves fewer transactions without one.\<close>

definition unmarked :: "MigrationTransaction \<Rightarrow> bool" where
  "unmarked t \<longleftrightarrow> \<not> is_mined (tx_state t) \<and> unsatisfiable t = None"

definition unmarked_count :: "MigrationState \<Rightarrow> nat" where
  "unmarked_count s = length (filter unmarked (transactions s))"

lemma length_filter_map_less:
  assumes "\<And>x. x \<in> set xs \<Longrightarrow> P (f x) \<Longrightarrow> P x" "\<exists>x\<in>set xs. P x \<and> \<not> P (f x)"
  shows "length (filter P (map f xs)) < length (filter P xs)"
proof -
  have e: "length (filter P (map f xs)) = length (filter (\<lambda>x. P (f x)) xs)" by (simp add: filter_map comp_def)
  have le: "(\<And>x. x \<in> set ys \<Longrightarrow> P (f x) \<Longrightarrow> P x) \<Longrightarrow> length (filter (\<lambda>x. P (f x)) ys) \<le> length (filter P ys)" for ys
    by (induction ys) auto
  have "length (filter (\<lambda>x. P (f x)) xs) < length (filter P xs)"
    using assms
  proof (induction xs)
    case (Cons y ys)
    show ?case
    proof (cases "P y \<and> \<not> P (f y)")
      case True
      then show ?thesis using le [of ys] Cons.prems(1) by (simp add: less_Suc_eq_le)
    next
      case False
      then show ?thesis using Cons by auto
    qed
  qed simp
  with e show ?thesis by simp
qed

lemma inherit_loop_rule:
  assumes "ids_distinct s" "P s" "\<And>s. ids_distinct s \<Longrightarrow> P s \<Longrightarrow> P (inherit_pass targets s)"
  shows "\<exists>s'. inherit_loop targets s = Some s' \<and> P s' \<and> ids_distinct s' \<and> inherited_marks s' targets = []"
  using assms(1,2)
proof (induction "unmarked_count s" arbitrary: s rule: less_induct)
  case less
  show ?case
  proof (cases "inherited_marks s targets = []")
    case True
    then show ?thesis using less.prems by (subst inherit_loop.simps) simp
  next
    case False
    have "unmarked_count (inherit_pass targets s) < unmarked_count s"
      unfolding unmarked_count_def transactions_pass
    proof (rule length_filter_map_less)
      show "unmarked (inherit_mark s targets t) \<Longrightarrow> unmarked t" for t
        by (auto simp: unmarked_def inherit_mark_def split: if_splits option.splits)
      show "\<exists>t\<in>set (transactions s). unmarked t \<and> \<not> unmarked (inherit_mark s targets t)"
      proof -
        obtain t st where t: "t \<in> set (transactions s)" "\<not> is_mined (tx_state t)" "unsatisfiable t = None"
          "inherited_stamp s targets t = Some st"
          using False unfolding inherited_marks_empty by (auto simp del: not_None_eq)
        then show ?thesis by (intro bexI [of _ t]) (simp_all add: unmarked_def inherit_mark_def)
      qed
    qed
    from less.hyps [OF this] less.prems assms(3)
    have "\<exists>s'. inherit_loop targets (inherit_pass targets s) = Some s' \<and> P s' \<and> ids_distinct s' \<and> inherited_marks s' targets = []"
      by simp
    then show ?thesis using False apply_inherited_pass [OF less.prems(1)]
      by (subst inherit_loop.simps) (simp add: Let_def)
  qed
qed

section \<open>The marks and the dead set\<close>

lemma dead_seed_stamp: "dead_seed targets t \<longleftrightarrow> \<not> is_mined (tx_state t) \<and> dead_stamp targets t \<noteq> None"
  by (auto simp: dead_seed_def dead_stamp_def unsatisfiable_at_def Let_def split: option.split)

lemma dead_stamp_Some:
  "dead_stamp targets t = Some h \<Longrightarrow> unsatisfiable_at t = Some h \<or> is_expired t (scanned targets) \<and> h = expiry_height t"
  by (auto simp: dead_stamp_def Let_def min_def split: option.splits if_splits)

lemma dep_stamps_set:
  assumes "ids_distinct s"
  shows "set (dep_stamps s targets t) =
    {h. \<exists>u\<in>set (transactions s). tx_id u \<in> set (depends_on t) \<and> \<not> is_mined (tx_state u) \<and> dead_stamp targets u = Some h}"
  unfolding dep_stamps_def set_map_filter set_filter using find_transaction_eq [OF assms] by auto

lemma inherited_stamp_None:
  assumes "ids_distinct s"
  shows "inherited_stamp s targets t = None \<longleftrightarrow>
    (\<forall>u\<in>set (transactions s). tx_id u \<in> set (depends_on t) \<longrightarrow> \<not> dead_seed targets u)"
proof -
  have "inherited_stamp s targets t = None \<longleftrightarrow> set (dep_stamps s targets t) = {}" by (simp add: inherited_stamp_def)
  then show ?thesis unfolding dep_stamps_set [OF assms] dead_seed_stamp by auto
qed

lemma inherited_stamp_Some:
  assumes "ids_distinct s" "inherited_stamp s targets t = Some h"
  obtains u where "u \<in> set (transactions s)" "tx_id u \<in> set (depends_on t)" "dead_seed targets u"
    "dead_stamp targets u = Some h"
proof -
  have "dep_stamps s targets t \<noteq> []" "h = Min (set (dep_stamps s targets t))"
    using assms(2) by (auto simp: inherited_stamp_def split: if_splits)
  then have "h \<in> set (dep_stamps s targets t)" by simp
  then obtain u where u: "u \<in> set (transactions s)" "tx_id u \<in> set (depends_on t)" "\<not> is_mined (tx_state u)"
    "dead_stamp targets u = Some h"
    unfolding dep_stamps_set [OF assms(1)] by blast
  then show ?thesis by (intro that [of u]) (simp_all add: dead_seed_stamp)
qed

lemma dead_seed_inherit: "dead_seed targets t \<Longrightarrow> dead_seed targets (inherit_mark s targets t)"
  by (auto simp: dead_seed_def inherit_mark_def is_expired_def split: option.split)

lemma dead_set_pass:
  assumes "ids_distinct s"
  shows "dead_set (inherit_pass targets s) targets = dead_set s targets"
proof -
  have "doomed s targets i" if "doomed (inherit_pass targets s) targets i" for i
    using that
  proof (induction rule: doomed.induct)
    case (seed t')
    then obtain t where t: "t \<in> set (transactions s)" "t' = inherit_mark s targets t" by auto
    show ?case
    proof (cases "dead_seed targets t")
      case True
      then show ?thesis using doomed.seed [OF t(1)] t(2) by simp
    next
      case False
      then have m: "\<not> is_mined (tx_state t)" using seed(2) t(2) by (simp add: dead_seed_def)
      have "inherited_stamp s targets t \<noteq> None"
      proof
        assume "inherited_stamp s targets t = None"
        then have "inherit_mark s targets t = t" by (simp add: inherit_mark_def)
        with False seed(2) t(2) show False by simp
      qed
      then obtain h where "inherited_stamp s targets t = Some h" by blast
      then obtain u where u: "u \<in> set (transactions s)" "tx_id u \<in> set (depends_on t)" "dead_seed targets u"
        using inherited_stamp_Some [OF assms] by blast
      show ?thesis using doomed.dependent [OF t(1) m u(2) doomed.seed [OF u(1,3)]] t(2) by simp
    qed
  next
    case (dependent t' d)
    then obtain t where t: "t \<in> set (transactions s)" "t' = inherit_mark s targets t" by auto
    show ?case using doomed.dependent [OF t(1), of d targets] dependent t(2) by simp
  qed
  moreover have "doomed (inherit_pass targets s) targets i" if "doomed s targets i" for i
    using that
  proof (induction rule: doomed.induct)
    case (seed t)
    have "inherit_mark s targets t \<in> set (transactions (inherit_pass targets s))" using seed(1) by simp
    from doomed.seed [OF this dead_seed_inherit [OF seed(2)]] show ?case by simp
  next
    case (dependent t d)
    have "inherit_mark s targets t \<in> set (transactions (inherit_pass targets s))" using dependent(1) by simp
    from doomed.dependent [OF this, of d targets] dependent show ?case by simp
  qed
  ultimately show ?thesis unfolding dead_set_eq by blast
qed

text \<open>Without marks left to inherit, the dead transactions are exactly the marked and the expired.\<close>

lemma dead_set_saturated:
  assumes "ids_distinct s" "inherited_marks s targets = []"
  shows "dead_set s targets = tx_id ` {t \<in> set (transactions s). dead_seed targets t}"
proof
  have "i \<in> tx_id ` {t \<in> set (transactions s). dead_seed targets t}" if "doomed s targets i" for i
    using that
  proof (induction rule: doomed.induct)
    case (dependent t d)
    then obtain u where u: "u \<in> set (transactions s)" "tx_id u = d" "dead_seed targets u" by auto
    have "dead_seed targets t"
    proof (rule ccontr)
      assume "\<not> dead_seed targets t"
      then have "unsatisfiable t = None" using dependent(2) by (simp add: dead_seed_def)
      then have "inherited_stamp s targets t = None"
        using assms(2) dependent(1,2) unfolding inherited_marks_empty by blast
      then show False using u dependent(3) unfolding inherited_stamp_None [OF assms(1)] by blast
    qed
    with dependent(1) show ?case by blast
  qed blast
  then show "dead_set s targets \<subseteq> tx_id ` {t \<in> set (transactions s). dead_seed targets t}"
    unfolding dead_set_eq by blast
qed (auto simp: dead_set_eq intro: seed)

section \<open>Recording a batch\<close>

text \<open>A dependency, unmined, that is marked at a height or expired at it.\<close>

definition stamped_by :: "DuenessTargets \<Rightarrow> MigrationState \<Rightarrow> MigrationTransaction \<Rightarrow> BlockHeight \<Rightarrow> bool" where
  "stamped_by targets s t h \<longleftrightarrow>
     (\<exists>u\<in>set (transactions s). tx_id u \<in> set (depends_on t) \<and> \<not> is_mined (tx_state u) \<and>
       (unsatisfiable_at u = Some h \<or> is_expired u (scanned targets) \<and> h = expiry_height u))"

lemma stamped_by_pass:
  assumes "stamped_by targets s t h"
  shows "stamped_by targets (inherit_pass targets s) t h"
proof -
  from assms obtain u where u: "u \<in> set (transactions s)" "tx_id u \<in> set (depends_on t)" "\<not> is_mined (tx_state u)"
    "unsatisfiable_at u = Some h \<or> is_expired u (scanned targets) \<and> h = expiry_height u"
    unfolding stamped_by_def by blast
  have "unsatisfiable_at u = Some h \<Longrightarrow> unsatisfiable_at (inherit_mark s targets u) = Some h"
    by (auto simp: unsatisfiable_at_def inherit_mark_def)
  with u show ?thesis unfolding stamped_by_def
    by (intro bexI [of _ "inherit_mark s targets u"]) (auto simp: is_expired_def)
qed

definition closed_over :: "DuenessTargets \<Rightarrow> MigrationTransferId set \<Rightarrow> MigrationState \<Rightarrow> MigrationTransaction \<Rightarrow> MigrationTransaction \<Rightarrow> bool" where
  "closed_over targets dead s t t' \<longleftrightarrow> t' = t \<or> \<not> is_mined (tx_state t) \<and> unsatisfiable t = None \<and>
     set (depends_on t) \<inter> dead \<noteq> {} \<and>
     (\<exists>h. t' = t\<lparr>unsatisfiable := Some (h, Inherited)\<rparr> \<and> stamped_by targets s t h)"

lemma closed_over_pass:
  assumes "ids_distinct s" "dead = dead_set s targets" "closed_over targets dead s t t'"
  shows "closed_over targets dead (inherit_pass targets s) t (inherit_mark s targets t')"
proof (cases "t' = t")
  case False
  then have "inherit_mark s targets t' = t'" using assms(3) by (auto simp: closed_over_def inherit_mark_def)
  then show ?thesis using assms(3) stamped_by_pass unfolding closed_over_def by metis
next
  case True
  show ?thesis
  proof (cases "is_mined (tx_state t) \<or> unsatisfiable t \<noteq> None \<or> inherited_stamp s targets t = None")
    case True
    then have "inherit_mark s targets t = t" by (auto simp: inherit_mark_def)
    then show ?thesis using \<open>t' = t\<close> by (simp add: closed_over_def)
  next
    case False
    then obtain h where h: "inherited_stamp s targets t = Some h" and m: "\<not> is_mined (tx_state t)" "unsatisfiable t = None"
      by blast
    from inherited_stamp_Some [OF assms(1) h] obtain u where u: "u \<in> set (transactions s)"
      "tx_id u \<in> set (depends_on t)" "dead_seed targets u" "dead_stamp targets u = Some h" by blast
    have "tx_id u \<in> dead" unfolding assms(2) dead_set_eq using seed [OF u(1,3)] by simp
    moreover have "stamped_by targets s t h"
      unfolding stamped_by_def using u dead_stamp_Some [OF u(4)] by (auto simp: dead_seed_def)
    moreover have "inherit_mark s targets t = t\<lparr>unsatisfiable := Some (h, Inherited)\<rparr>"
      using h m by (simp add: inherit_mark_def)
    ultimately show ?thesis using \<open>t' = t\<close> m u(2) stamped_by_pass unfolding closed_over_def by blast
  qed
qed

lemma inherit_loop_exact:
  assumes d: "ids_distinct s"
  obtains s' where "inherit_loop targets s = Some s'" "s' = s\<lparr>transactions := transactions s'\<rparr>" "ids_distinct s'"
    "inherited_marks s' targets = []" "dead_set s' targets = dead_set s targets"
    "list_all2 (closed_over targets (dead_set s targets) s') (transactions s) (transactions s')"
proof -
  let ?D = "dead_set s targets"
  let ?P = "\<lambda>s'. s' = s\<lparr>transactions := transactions s'\<rparr> \<and> dead_set s' targets = ?D \<and>
    list_all2 (closed_over targets ?D s') (transactions s) (transactions s')"
  have "?P s" by (simp add: list_all2_same closed_over_def)
  moreover have "?P (inherit_pass targets u)" if u: "ids_distinct u" "?P u" for u
  proof (intro conjI)
    have "u = s\<lparr>transactions := transactions u\<rparr>" using u(2) by blast
    then show "inherit_pass targets u = s\<lparr>transactions := transactions (inherit_pass targets u)\<rparr>"
      by (metis (no_types) inherit_pass_def transactions_pass MigrationState.surjective MigrationState.update_convs(4))
    show "dead_set (inherit_pass targets u) targets = ?D" using dead_set_pass [OF u(1)] u(2) by simp
    have "list_all2 (closed_over targets ?D u) (transactions s) (transactions u)" using u(2) by blast
    then show "list_all2 (closed_over targets ?D (inherit_pass targets u)) (transactions s) (transactions (inherit_pass targets u))"
      unfolding transactions_pass list_all2_map2
      by (rule list_all2_mono) (rule closed_over_pass [OF u(1)], use u(2) in auto)
  qed
  ultimately show ?thesis using inherit_loop_rule [of s ?P targets] d that by blast
qed

lemma still_unmarked:
  assumes "ids_distinct s" "inherited_marks s targets = []" "t \<in> set (transactions s)"
    and "\<not> is_mined (tx_state t)" "unsatisfiable t = None"
  shows "set (depends_on t) \<inter> dead_set s targets = {}"
proof -
  have "inherited_stamp s targets t = None" using assms(2-5) unfolding inherited_marks_empty by blast
  then show ?thesis unfolding inherited_stamp_None [OF assms(1)] dead_set_saturated [OF assms(1,2)] by blast
qed

text \<open>What recording makes of a transaction \<open>t\<close>.\<close>

definition mark_recorded ::
    "DuenessTargets \<Rightarrow> (MigrationTransferId \<times> StepSatisfiability) list \<Rightarrow> MigrationState
     \<Rightarrow> MigrationTransaction \<Rightarrow> MigrationTransaction \<Rightarrow> bool" where
  "mark_recorded targets dets s' t t' \<longleftrightarrow> t' = t\<lparr>unsatisfiable := unsatisfiable t'\<rparr> \<and>
     (if is_mined (tx_state t) \<or> unsatisfiable t \<noteq> None then unsatisfiable t' = unsatisfiable t
      else case find_map (determined (tx_id t)) dets of
        Some m \<Rightarrow> unsatisfiable t' = Some m
      | None \<Rightarrow> (unsatisfiable t' = None \<longleftrightarrow> set (depends_on t) \<inter> dead_set s' targets = {}) \<and>
          (\<forall>h k. unsatisfiable t' = Some (h, k) \<longrightarrow> k = Inherited \<and> stamped_by targets s' t h))"

lemma closed_over_recorded:
  assumes "ids_distinct s'" "inherited_marks s' targets = []" "t' \<in> set (transactions s')"
    and c: "closed_over targets (dead_set s' targets) s' (direct_mark dets t) t'"
  shows "mark_recorded targets dets s' t t'"
proof (cases "is_mined (tx_state t) \<or> unsatisfiable t \<noteq> None")
  case True
  then have "direct_mark dets t = t" by (auto simp: direct_mark_def)
  then have "t' = t" using c True by (auto simp: closed_over_def)
  then show ?thesis using True by (simp add: mark_recorded_def)
next
  case False
  then have m: "\<not> is_mined (tx_state t)" "unsatisfiable t = None" by blast+
  have dm: "direct_mark dets t = t\<lparr>unsatisfiable := find_map (determined (tx_id t)) dets\<rparr>"
    using m by (simp add: direct_mark_def)
  show ?thesis
  proof (cases "find_map (determined (tx_id t)) dets")
    case (Some mk)
    then have "t' = t\<lparr>unsatisfiable := Some mk\<rparr>" using c unfolding closed_over_def dm by auto
    then show ?thesis using m Some by (simp add: mark_recorded_def)
  next
    case None
    have tt: "direct_mark dets t = t" using dm None m(2) by (cases t) simp
    show ?thesis
    proof (cases "t' = t")
      case True
      then have "set (depends_on t) \<inter> dead_set s' targets = {}" using still_unmarked [OF assms(1-3)] m by simp
      then show ?thesis using True m None by (simp add: mark_recorded_def)
    next
      case False
      then obtain h where h: "set (depends_on t) \<inter> dead_set s' targets \<noteq> {}"
        "t' = t\<lparr>unsatisfiable := Some (h, Inherited)\<rparr>" "stamped_by targets s' t h"
        using c unfolding tt closed_over_def by blast
      then show ?thesis using m None by (simp add: mark_recorded_def)
    qed
  qed
qed

lemma record_satisfiability_result:
  assumes "ids_distinct s"
  obtains s' where "record_satisfiability targets dets s = Some s'" "s' = s\<lparr>transactions := transactions s'\<rparr>"
    "ids_distinct s'" "dead_set s' targets = dead_set (direct_marks dets s) targets"
    "dead_set s' targets = tx_id ` {t \<in> set (transactions s'). dead_seed targets t}"
    "list_all2 (mark_recorded targets dets s') (transactions s) (transactions s')"
proof -
  let ?s = "direct_marks dets s"
  have eq: "?s = s\<lparr>transactions := map (direct_mark dets) (transactions s)\<rparr>" by (rule direct_marks_map [OF assms])
  have d: "ids_distinct ?s" unfolding eq using assms by (simp add: ids_distinct_map)
  obtain s' where s': "inherit_loop targets ?s = Some s'" "s' = ?s\<lparr>transactions := transactions s'\<rparr>" "ids_distinct s'"
    "inherited_marks s' targets = []" "dead_set s' targets = dead_set ?s targets"
    "list_all2 (closed_over targets (dead_set ?s targets) s') (transactions ?s) (transactions s')"
    using inherit_loop_exact [OF d] by blast
  have "list_all2 (\<lambda>t. closed_over targets (dead_set s' targets) s' (direct_mark dets t)) (transactions s) (transactions s')"
    using s'(6) unfolding s'(5) [symmetric] by (simp add: eq list_all2_map1)
  then have "list_all2 (mark_recorded targets dets s') (transactions s) (transactions s')"
    by (rule list.rel_mono_strong) (rule closed_over_recorded [OF s'(3,4)])
  moreover have "s' = s\<lparr>transactions := transactions s'\<rparr>" using s'(2) unfolding eq by simp
  ultimately show ?thesis
    using s'(1,3,5) dead_set_saturated [OF s'(3,4)] by (intro that [of s']) (simp_all add: record_satisfiability_def)
qed

text \<open>
  C10. Recording always returns when the ids are distinct, and changes nothing but marks: none of a mined
  or marked transaction; of another, the first answer that marks decides; without one, it is marked as
  inheriting exactly when a dependency can never mine, at the height of one of them. Afterwards the
  dead set is that of the direct marks, and it is just the marked and the expired transactions.
\<close>

theorem record_satisfiability_exact:
  assumes "ids_distinct s"
  shows "\<exists>s'. record_satisfiability targets dets s = Some s' \<and> s' = s\<lparr>transactions := transactions s'\<rparr> \<and>
    dead_set s' targets = dead_set (direct_marks dets s) targets \<and>
    dead_set s' targets = tx_id ` {t \<in> set (transactions s'). dead_seed targets t} \<and>
    list_all2 (mark_recorded targets dets s') (transactions s) (transactions s')"
  by (rule record_satisfiability_result [OF assms, of targets dets]) blast

text \<open>The answer for the preparation is that its inputs were spent; the transfer that depends on it is dead with it.\<close>

theorem record_satisfiability_exact_witness:
  "\<exists>s'. record_satisfiability (dueness_at 900) [(0, Unsatisfiable (InputsSpent []) 850)]
      (sample_migration Committed [sample_transaction 0 (Preparation 0 0) [] Proved, sample_transaction 1 (Transfer 0) [0] Signed])
      = Some s' \<and> dead_set s' (dueness_at 900) = {0, 1}"
proof -
  let ?s = "sample_migration Committed
    [sample_transaction 0 (Preparation 0 0) [] Proved, sample_transaction 1 (Transfer 0) [0] Signed]"
  let ?ds = "[(0, Unsatisfiable (InputsSpent []) 850)]"
  have "ids_distinct ?s" by (simp add: ids_distinct_def sample_defs)
  from record_satisfiability_exact [OF this, of "dueness_at 900" ?ds]
  obtain s' where s': "record_satisfiability (dueness_at 900) ?ds ?s = Some s'"
    "dead_set s' (dueness_at 900) = dead_set (direct_marks ?ds ?s) (dueness_at 900)" by blast
  have "dead_set (direct_marks ?ds ?s) (dueness_at 900) = {0, 1}"
    by (simp add: kernel_eval sample_defs on_transaction_def dueness_at_def insert_commute)
  with s' show ?thesis by auto
qed

text \<open>
  The stamp a transaction inherits is not always the least of its dead dependencies': it is taken when
  the first of them is found dead. Transaction 3 depends on 1, seen spent at height 100, and on 2,
  which depends on 0, seen spent at height 50; it is stamped 100, and a rewind to height 70 clears its
  mark although 2 keeps its own.
\<close>

definition stamp_order_migration :: MigrationState where
  "stamp_order_migration = sample_migration Committed
     [sample_transaction 0 (Preparation 0 0) [] Proved, sample_transaction 1 (Preparation 0 1) [] Proved,
      sample_transaction 2 (Preparation 1 0) [0] Signed, sample_transaction 3 (Preparation 2 0) [1, 2] Signed]"

lemma inherited_stamp_not_least:
  "map_option (\<lambda>s. map unsatisfiable (transactions s))
     (record_satisfiability (dueness_at 900)
        [(0, Unsatisfiable (InputsSpent []) 50), (1, Unsatisfiable (InputsSpent []) 100)] stamp_order_migration) =
     Some [Some (50, KindInputsSpent), Some (100, KindInputsSpent), Some (50, Inherited), Some (100, Inherited)] \<and>
   map_option (\<lambda>s. map unsatisfiable (transactions (truncate_to_height 70 s)))
     (record_satisfiability (dueness_at 900)
        [(0, Unsatisfiable (InputsSpent []) 50), (1, Unsatisfiable (InputsSpent []) 100)] stamp_order_migration) =
     Some [Some (50, KindInputsSpent), None, Some (50, Inherited), None]"
  by (simp add: record_satisfiability_def stamp_order_migration_def sample_defs on_transaction_def inherit_loop.simps
      inherited_marks_def inherited_stamp_def dep_stamps_def dead_stamp_def find_transaction_def unsatisfiable_at_def
      is_expired_def dueness_at_def List.map_filter_def truncate_to_height_def truncate_transaction_def Let_def)

end
