(* ===== verification/MigrationProving.thy ===== *)
theory MigrationProving
  imports MigrationKernel
begin

text \<open>
  Model of the operations of \<open>zcash_pool_migration/src/engine.rs\<close> that serve one transaction of a
  committed migration: proving a transfer or a preparation, and rebuilding an expired transfer. They
  decide everything but the artifacts: the partially created transactions (PCZTs), their building,
  signing, proving and parsing, and the keys and notes, are third-party types and functions, given as
  records. A failure of that code is one type; nothing is assumed of what it answers.
\<close>

definition max_height :: "BlockHeight list \<Rightarrow> BlockHeight option" where
  "max_height hs = (if hs = [] then None else Some (foldl max (hd hs) (tl hs)))"

section \<open>Proving\<close>

datatype 'e ProveFailure = InputNotAvailable bytes BlockHeight | OtherFailure 'e

record ProvedTransaction =
  proved_id :: MigrationTransferId
  proved_pczt :: bytes
  proved_lock_owner :: "MigrationLockOwner option"

datatype ProveOutcome = ProvedOutcome ProvedTransaction | NotYetProvable | MarkedUnsatisfiable bool

datatype ('e, 'f) ProveError =
    ProveUnknown MigrationTransferId | ProveNotATransfer MigrationTransferId | ProveNotAPreparation MigrationTransferId
  | NotReady MigrationTransferId | NoAnchorBoundary MigrationTransferId | ProveNu63NotActive
  | ProveIntervalMismatch AnchorBucketInterval AnchorBucketInterval
  | ProveParse 'f | ProveSerialize 'f | Prover 'e

text \<open>The prover, with the parsing and serialisation of the PCZTs it works on.\<close>

record ('e, 'f, 'p) MigrationProver =
  prover_transfer :: "'p \<Rightarrow> BlockHeight \<Rightarrow> 'e ProveFailure + 'p"
  prover_preparation :: "'p \<Rightarrow> BlockHeight \<Rightarrow> 'e ProveFailure + 'p"
  prover_interval :: AnchorBucketInterval
  lock_spent_notes :: "'p \<Rightarrow> BlockHeight \<Rightarrow> 'e + MigrationLockOwner option"
  parse_pczt :: "bytes \<Rightarrow> 'f + 'p"
  serialize_proven :: "'p \<Rightarrow> 'f + bytes"

definition apply_proof :: "ProvedTransaction \<Rightarrow> MigrationState \<Rightarrow> MigrationState" where
  "apply_proof p = set_transaction_proved (proved_id p) (proved_pczt p) (proved_lock_owner p)"

definition dependency_mined_heights :: "MigrationState \<Rightarrow> MigrationTransaction \<Rightarrow> BlockHeight list" where
  "dependency_mined_heights s t =
     List.map_filter (\<lambda>dep. Option.bind (find_transaction s dep) (\<lambda>d. mined_height (tx_state d))) (depends_on t)"

definition interpret_input_not_available ::
    "MigrationState \<Rightarrow> MigrationTransferId \<Rightarrow> bytes \<Rightarrow> BlockHeight \<Rightarrow> (MigrationState \<times> ProveOutcome) option" where
  "interpret_input_not_available s i nullifier as_of =
     (let deps_covered = (case find_transaction s i of
            None \<Rightarrow> False
          | Some t \<Rightarrow> list_all (\<lambda>dep. case Option.bind (find_transaction s dep) (\<lambda>d. mined_height (tx_state d)) of
                None \<Rightarrow> False
              | Some h \<Rightarrow> h \<le> as_of) (depends_on t))
      in if \<not> deps_covered then Some (s, NotYetProvable)
         else map_option (\<lambda>s'. (s', MarkedUnsatisfiable (replan_required s')))
           (record_satisfiability (dueness_at (block_height_add as_of 1)) [(i, Unsatisfiable (InputsSpent [nullifier]) as_of)] s))"

text \<open>The notes are locked only once a proof exists; a lock that fails discards it.\<close>

definition finish_proof ::
    "('e, 'f, 'p) MigrationProver \<Rightarrow> MigrationState \<Rightarrow> MigrationTransaction \<Rightarrow> 'p \<Rightarrow> 'e ProveFailure + 'p \<Rightarrow>
     (MigrationState \<times> (('e, 'f) ProveError + ProveOutcome)) option" where
  "finish_proof prover s t unproven answer =
     (case answer of
        Inl (InputNotAvailable nullifier as_of) \<Rightarrow>
          map_option (apsnd Inr) (interpret_input_not_available s (tx_id t) nullifier as_of)
      | Inl (OtherFailure e) \<Rightarrow> Some (s, Inl (Prover e))
      | Inr proven \<Rightarrow>
          (case lock_spent_notes prover unproven (expiry_height t) of
             Inl e \<Rightarrow> Some (s, Inl (Prover e))
           | Inr owner \<Rightarrow>
               (case serialize_proven prover proven of
                  Inl e \<Rightarrow> Some (s, Inl (ProveSerialize e))
                | Inr bytes \<Rightarrow> Some (s, Inr (ProvedOutcome
                    \<lparr>proved_id = tx_id t, proved_pczt = bytes, proved_lock_owner = owner\<rparr>)))))"

text \<open>
  The anchor to prove against: the one drawn, or, when the funding note was created after it, a fresh
  one (\<open>Inr (Some b)\<close>) if there is a candidate.
\<close>

definition redraw_if_stale ::
    "parameters \<Rightarrow> AnchorBucketInterval \<Rightarrow> BlockHeight \<Rightarrow> BlockHeight option \<Rightarrow> BlockHeight \<Rightarrow> rng \<Rightarrow>
     ((('e, 'f) ProveError + BlockHeight option option) \<times> rng) option" where
  "redraw_if_stale params interval drawn funding_creation scanned_tip rng =
     (case funding_creation of
        None \<Rightarrow> Some (Inr (Some None), rng)
      | Some funding_height \<Rightarrow>
          if \<not> drawn < funding_height then Some (Inr (Some None), rng)
          else case activation_height params Nu6_3 of
              None \<Rightarrow> Some (Inl ProveNu63NotActive, rng)
            | Some nu63_activation \<Rightarrow>
                map_option (apfst (\<lambda>r. Inr (map_option Some r)))
                  (draw_anchor_boundary interval nu63_activation funding_height scanned_tip rng))"

definition prove_transfer ::
    "parameters \<Rightarrow> ('e, 'f, 'p) MigrationProver \<Rightarrow> MigrationState \<Rightarrow> MigrationTransferId \<Rightarrow> BlockHeight \<Rightarrow> rng \<Rightarrow>
     ((MigrationState \<times> (('e, 'f) ProveError + ProveOutcome)) \<times> rng) option" where
  "prove_transfer params prover s i scanned_tip rng =
     (let stop = (\<lambda>e. Some ((s, Inl e), rng)) in
      case find_transaction s i of
        None \<Rightarrow> stop (ProveUnknown i)
      | Some t \<Rightarrow>
          if \<not> is_transfer (tx_kind t) then stop (ProveNotATransfer i)
          else if tx_state t \<noteq> Signed then stop (NotReady i)
          else case anchor_boundary t of
              None \<Rightarrow> stop (NoAnchorBoundary i)
            | Some drawn \<Rightarrow>
                if committed_interval s \<noteq> prover_interval prover
                then stop (ProveIntervalMismatch (committed_interval s) (prover_interval prover))
                else Option.bind (redraw_if_stale params (committed_interval s) drawn
                    (max_height (dependency_mined_heights s t)) scanned_tip rng) (\<lambda>(redraw, rng').
                  case redraw of
                    Inl e \<Rightarrow> Some ((s, Inl e), rng')
                  | Inr None \<Rightarrow> Some ((s, Inr NotYetProvable), rng')
                  | Inr (Some fresh) \<Rightarrow>
                      (case parse_pczt prover (pczt t) of
                         Inl e \<Rightarrow> Some ((s, Inl (ProveParse e)), rng')
                       | Inr p \<Rightarrow>
                           let s' = (case fresh of None \<Rightarrow> s | Some b \<Rightarrow> set_transfer_anchor_boundary i b s);
                               anchor = (case fresh of None \<Rightarrow> drawn | Some b \<Rightarrow> b)
                           in map_option (\<lambda>r. (r, rng')) (finish_proof prover s' t p (prover_transfer prover p anchor)))))"

definition prove_preparation ::
    "('e, 'f, 'p) MigrationProver \<Rightarrow> MigrationState \<Rightarrow> MigrationTransferId \<Rightarrow> BlockHeight \<Rightarrow>
     (MigrationState \<times> (('e, 'f) ProveError + ProveOutcome)) option" where
  "prove_preparation prover s i anchor =
     (case find_transaction s i of
        None \<Rightarrow> Some (s, Inl (ProveUnknown i))
      | Some t \<Rightarrow>
          if is_transfer (tx_kind t) then Some (s, Inl (ProveNotAPreparation i))
          else if tx_state t \<noteq> Signed then Some (s, Inl (NotReady i))
          else case parse_pczt prover (pczt t) of
              Inl e \<Rightarrow> Some (s, Inl (ProveParse e))
            | Inr p \<Rightarrow> finish_proof prover s t p (prover_preparation prover p anchor))"

section \<open>Rebuilding an expired transfer\<close>

datatype ('e, 'f) RebuildError =
    UnknownTransaction MigrationTransferId | NotATransfer MigrationTransferId | NotExpired MigrationTransferId
  | BeyondRebuilding MigrationTransferId | NoCrossingValue nat | NoFundingValue nat | NotOneNullifier
  | FundingNoteUnavailable Zatoshis | RebuildNu63NotActive | NoCandidateAnchor
  | AnchorIntervalMismatch AnchorBucketInterval AnchorBucketInterval
  | Build 'f | RealSpends 'f | TxIdFailed 'f | RebuildSerialize 'f | RebuildBackend 'e
  | NoOrchardViewingKey | WrongSpendAuthority

datatype 's Signing = InProcess 's | External

record UnsignedMigrationTx =
  unsigned_id :: MigrationTransferId
  unsigned_pczt :: bytes
  unsigned_actions :: nat

record ('e, 'k, 'n, 'd) MigrationCrypto =
  orchard_fvk :: "'k option"
  account_derivation :: "'e + 'd option"
  resolve_wallet_note :: "nat \<Rightarrow> 'e + 'n"

text \<open>Building, signing and reading PCZTs, keys and notes.\<close>

record ('f, 'k, 'n, 'd, 's, 'p) PcztTools =
  build_transfer_pczt :: "BlockHeight \<Rightarrow> BlockHeight \<Rightarrow> 'k \<Rightarrow> 'n \<Rightarrow> Zatoshis \<Rightarrow> 'd option \<Rightarrow> rng \<Rightarrow> ('f + 'p) \<times> rng"
  real_spend_nullifiers :: "'p \<Rightarrow> 'f + bytes list"
  pczt_txid :: "'p \<Rightarrow> 'f + TxId"
  sign_pczt :: "'s \<Rightarrow> 'p \<Rightarrow> rng \<Rightarrow> ('f + 'p) \<times> rng"
  serialize_pczt :: "'p \<Rightarrow> 'f + bytes"
  viewing_key_of :: "'s \<Rightarrow> 'k"
  note_nullifier :: "'n \<Rightarrow> 'k \<Rightarrow> bytes"

definition dead_dependency :: "MigrationState \<Rightarrow> MigrationTransaction \<Rightarrow> bool" where
  "dead_dependency s t \<longleftrightarrow>
     list_ex (\<lambda>d. list_ex (\<lambda>u. tx_id u = d \<and> unsatisfiable u \<noteq> None) (transactions s)) (depends_on t)"

text \<open>The first checks: the grid, the transaction, and whether it is one to rebuild.\<close>

definition rebuild_candidate ::
    "'e MigrationBackend \<Rightarrow> MigrationState \<Rightarrow> MigrationTransferId \<Rightarrow>
     ('e, 'f) RebuildError + MigrationTransaction \<times> nat \<times> BlockHeight" where
  "rebuild_candidate backend s i =
     (let configured = anchor_bucket_interval (scheduling_params backend) in
      if committed_interval s \<noteq> configured then Inl (AnchorIntervalMismatch (committed_interval s) configured)
      else case chain_tip_height backend of
          Inl e \<Rightarrow> Inl (RebuildBackend e)
        | Inr tip \<Rightarrow>
            let target_height = block_height_add tip 1 in
            case find_transaction s i of
              None \<Rightarrow> Inl (UnknownTransaction i)
            | Some t \<Rightarrow>
                (case transfer_crossing (tx_kind t) of
                   None \<Rightarrow> Inl (NotATransfer i)
                 | Some cx \<Rightarrow>
                     if unsatisfiable t \<noteq> None \<or> dead_dependency s t then Inl (BeyondRebuilding i)
                     else if \<not> is_expired t target_height then Inl (NotExpired i)
                     else Inr (t, cx, target_height)))"

text \<open>The funding note is found by the nullifier kept at commit, among the spendable notes of its value.\<close>

primrec find_funding_note ::
    "('e, 'k, 'n, 'd) MigrationCrypto \<Rightarrow> ('f, 'k, 'n, 'd, 's, 'p) PcztTools \<Rightarrow> 'k \<Rightarrow> bytes \<Rightarrow> Zatoshis \<Rightarrow> (nat \<times> Zatoshis) list \<Rightarrow>
     'e + 'n option" where
  "find_funding_note crypto tools fvk nf funding_value [] = Inr None"
| "find_funding_note crypto tools fvk nf funding_value (x # xs) =
     (if snd x \<noteq> funding_value then find_funding_note crypto tools fvk nf funding_value xs
      else case resolve_wallet_note crypto (fst x) of
          Inl e \<Rightarrow> Inl e
        | Inr candidate \<Rightarrow>
            if note_nullifier tools candidate fvk = nf then Inr (Some candidate)
            else find_funding_note crypto tools fvk nf funding_value xs)"

text \<open>The note, the viewing key and the derivation, after the check of the key that is to sign.\<close>

definition rebuild_inputs ::
    "'e MigrationBackend \<Rightarrow> ('e, 'k, 'n, 'd) MigrationCrypto \<Rightarrow> ('f, 'k, 'n, 'd, 's, 'p) PcztTools \<Rightarrow> 's Signing \<Rightarrow> bytes \<Rightarrow> Zatoshis \<Rightarrow>
     ('e, 'f) RebuildError + 'k \<times> 'd option \<times> 'n" where
  "rebuild_inputs backend crypto tools signing nf funding_value =
     (case orchard_fvk crypto of
        None \<Rightarrow> Inl NoOrchardViewingKey
      | Some fvk \<Rightarrow>
          if (case signing of InProcess sk \<Rightarrow> viewing_key_of tools sk \<noteq> fvk | External \<Rightarrow> False) then Inl WrongSpendAuthority
          else case account_derivation crypto of
              Inl e \<Rightarrow> Inl (RebuildBackend e)
            | Inr derivation \<Rightarrow>
                (case spendable_orchard_note_values backend of
                   Inl e \<Rightarrow> Inl (RebuildBackend e)
                 | Inr values \<Rightarrow>
                     (case find_funding_note crypto tools fvk nf funding_value (enumerate 0 values) of
                        Inl e \<Rightarrow> Inl (RebuildBackend e)
                      | Inr None \<Rightarrow> Inl (FundingNoteUnavailable funding_value)
                      | Inr (Some note) \<Rightarrow> Inr (fvk, derivation, note))))"

text \<open>The end of the pending schedule, or the target.\<close>

definition chain_base :: "MigrationState \<Rightarrow> BlockHeight \<Rightarrow> BlockHeight" where
  "chain_base s target_height =
     (case max_height (map scheduled_height (filter (\<lambda>t. is_transfer (tx_kind t) \<and> \<not> is_mined (tx_state t) \<and>
          unsatisfiable t = None) (transactions s))) of
        None \<Rightarrow> target_height
      | Some latest \<Rightarrow> max latest target_height)"

text \<open>The replacement: its bytes, id and nullifiers, and the lifecycle state it is stored in.\<close>

definition finish_rebuild ::
    "('f, 'k, 'n, 'd, 's, 'p) PcztTools \<Rightarrow> 's Signing \<Rightarrow> MigrationTransferId \<Rightarrow> 'p \<Rightarrow> rng \<Rightarrow>
     (('e, 'f) RebuildError + bytes list \<times> TxId \<times> bytes \<times> MigrationTxState \<times> UnsignedMigrationTx option) \<times> rng" where
  "finish_rebuild tools signing i p rng =
     (case real_spend_nullifiers tools p of
        Inl e \<Rightarrow> (Inl (RealSpends e), rng)
      | Inr nfs \<Rightarrow>
          (case pczt_txid tools p of
             Inl e \<Rightarrow> (Inl (TxIdFailed e), rng)
           | Inr new_id \<Rightarrow>
               (case signing of
                  InProcess sk \<Rightarrow>
                    (case sign_pczt tools sk p rng of
                       (Inl e, rng') \<Rightarrow> (Inl (Build e), rng')
                     | (Inr q, rng') \<Rightarrow>
                         (case serialize_pczt tools q of
                            Inl e \<Rightarrow> (Inl (RebuildSerialize e), rng')
                          | Inr bytes \<Rightarrow> (Inr (nfs, new_id, bytes, Signed, None), rng')))
                | External \<Rightarrow>
                    (case serialize_pczt tools p of
                       Inl e \<Rightarrow> (Inl (RebuildSerialize e), rng)
                     | Inr bytes \<Rightarrow> (Inr (nfs, new_id, bytes, AwaitingSignature, Some \<lparr>unsigned_id = i, unsigned_pczt = bytes,
                         unsigned_actions = CROSSING_SOURCE_ACTIONS + CROSSING_DESTINATION_ACTIONS\<rparr>), rng)))))"

definition replace_expired ::
    "MigrationTransferId \<Rightarrow> bytes \<Rightarrow> BlockHeight \<Rightarrow> BlockHeight \<Rightarrow> TxId \<Rightarrow> MigrationTxState \<Rightarrow> bytes list \<Rightarrow>
     MigrationState \<Rightarrow> MigrationState" where
  "replace_expired i bytes new_height anchor new_id new_state nfs =
     on_transaction (\<lambda>t. tx_id t = i) (\<lambda>t. t\<lparr>pczt := bytes, scheduled_height := new_height,
       expiry_height := Zip318.expiry_height new_height, anchor_boundary := Some anchor, txid := new_id,
       tx_state := new_state, spend_nullifiers := nfs\<rparr>)"

text \<open>The fresh schedule and anchor, then the replacement; an error leaves the state as it is.\<close>

definition rebuild_on_schedule ::
    "(u32 \<Rightarrow> u64 \<Rightarrow> u32) \<Rightarrow> SchedulingParams \<Rightarrow> ('f, 'k, 'n, 'd, 's, 'p) PcztTools \<Rightarrow> 's Signing \<Rightarrow> MigrationState \<Rightarrow>
     MigrationTransferId \<Rightarrow> BlockHeight \<Rightarrow> BlockHeight \<Rightarrow> BlockHeight \<Rightarrow> Zatoshis \<Rightarrow> 'k \<times> 'd option \<times> 'n \<Rightarrow> rng \<Rightarrow>
     ((('e, 'f) RebuildError + MigrationState \<times> UnsignedMigrationTx option) \<times> rng) option" where
  "rebuild_on_schedule delay_of sched tools signing s i target_height nu63_activation funding_creation crossing_value ins rng =
     (case ins of (fvk, derivation, note) \<Rightarrow>
      Option.bind (delay_draw delay_of (transfer_delay sched) rng) (\<lambda>(delay, rng1).
      let new_height = block_height_add (chain_base s target_height) delay in
      Option.bind (draw_anchor_boundary (anchor_bucket_interval sched) nu63_activation funding_creation new_height rng1)
        (\<lambda>(boundary, rng2).
        case boundary of
          None \<Rightarrow> Some (Inl NoCandidateAnchor, rng2)
        | Some anchor \<Rightarrow>
            (case build_transfer_pczt tools target_height (Zip318.expiry_height new_height) fvk note crossing_value derivation rng2 of
               (Inl e, rng3) \<Rightarrow> Some (Inl (Build e), rng3)
             | (Inr p, rng3) \<Rightarrow>
                 (case finish_rebuild tools signing i p rng3 of
                    (Inl e, rng4) \<Rightarrow> Some (Inl e, rng4)
                  | (Inr (nfs, new_id, bytes, new_state, out), rng4) \<Rightarrow>
                      Some (Inr (replace_expired i bytes new_height anchor new_id new_state nfs s, out), rng4))))))"

definition rebuild_expired_transfer_inner ::
    "(u32 \<Rightarrow> u64 \<Rightarrow> u32) \<Rightarrow> parameters \<Rightarrow> 'e MigrationBackend \<Rightarrow> ('e, 'k, 'n, 'd) MigrationCrypto \<Rightarrow>
     ('f, 'k, 'n, 'd, 's, 'p) PcztTools \<Rightarrow> 's Signing \<Rightarrow> MigrationState \<Rightarrow> MigrationTransferId \<Rightarrow> rng \<Rightarrow>
     ((('e, 'f) RebuildError + MigrationState \<times> UnsignedMigrationTx option) \<times> rng) option" where
  "rebuild_expired_transfer_inner delay_of params backend crypto tools signing s i rng =
     (case rebuild_candidate backend s i of
        Inl e \<Rightarrow> Some (Inl e, rng)
      | Inr (t, cx, target_height) \<Rightarrow>
          (case activation_height params Nu6_3 of
             None \<Rightarrow> Some (Inl RebuildNu63NotActive, rng)
           | Some nu63_activation \<Rightarrow>
               let funding_creation = (case max_height (dependency_mined_heights s t) of None \<Rightarrow> nu63_activation | Some h \<Rightarrow> h) in
               (case list_get (crossing_values (denominations s)) cx of
                  None \<Rightarrow> Some (Inl (NoCrossingValue cx), rng)
                | Some crossing_value \<Rightarrow>
                    Option.bind (migration_outputs (denominations s)) (\<lambda>outputs.
                      case list_get outputs cx of
                        None \<Rightarrow> Some (Inl (NoFundingValue cx), rng)
                      | Some funding_value \<Rightarrow>
                          (case spend_nullifiers t of
                             [nf] \<Rightarrow>
                               (case rebuild_inputs backend crypto tools signing nf funding_value of
                                  Inl e \<Rightarrow> Some (Inl e, rng)
                                | Inr ins \<Rightarrow> rebuild_on_schedule delay_of (scheduling_params backend) tools signing s i
                                    target_height nu63_activation funding_creation crossing_value ins rng)
                           | _ \<Rightarrow> Some (Inl NotOneNullifier, rng))))))"

definition rebuild_expired_transfer ::
    "(u32 \<Rightarrow> u64 \<Rightarrow> u32) \<Rightarrow> parameters \<Rightarrow> 'e MigrationBackend \<Rightarrow> ('e, 'k, 'n, 'd) MigrationCrypto \<Rightarrow>
     ('f, 'k, 'n, 'd, 's, 'p) PcztTools \<Rightarrow> 's \<Rightarrow> MigrationState \<Rightarrow> MigrationTransferId \<Rightarrow> rng \<Rightarrow>
     ((('e, 'f) RebuildError + MigrationState) \<times> rng) option" where
  "rebuild_expired_transfer delay_of params backend crypto tools sk s i rng =
     map_option (apfst (map_sum id fst)) (rebuild_expired_transfer_inner delay_of params backend crypto tools (InProcess sk) s i rng)"

definition rebuild_expired_transfer_unsigned ::
    "(u32 \<Rightarrow> u64 \<Rightarrow> u32) \<Rightarrow> parameters \<Rightarrow> 'e MigrationBackend \<Rightarrow> ('e, 'k, 'n, 'd) MigrationCrypto \<Rightarrow>
     ('f, 'k, 'n, 'd, 's, 'p) PcztTools \<Rightarrow> MigrationState \<Rightarrow> MigrationTransferId \<Rightarrow> rng \<Rightarrow>
     ((('e, 'f) RebuildError + MigrationState \<times> UnsignedMigrationTx) \<times> rng) option" where
  "rebuild_expired_transfer_unsigned delay_of params backend crypto tools s i rng =
     Option.bind (rebuild_expired_transfer_inner delay_of params backend crypto tools External s i rng) (\<lambda>(r, rng').
       case r of
         Inl e \<Rightarrow> Some (Inl e, rng')
       | Inr (s', out) \<Rightarrow> map_option (\<lambda>u. (Inr (s', u), rng')) out)"

end
