(* ===== verification/MigrationRuns.thy ===== *)
theory MigrationRuns
  imports MigrationMarks MigrationProving
begin

text \<open>
  The life of a committed migration: the operations as steps, those of the state machine and those that
  prove or rebuild one transaction, what every reachable state keeps, what a rewind undoes, and the
  re-spread of the schedule.
\<close>

section \<open>The operations as steps\<close>

inductive migration_step :: "MigrationState \<Rightarrow> MigrationState \<Rightarrow> bool" where
  superseded: "migration_step s (mark_superseded s)"
| cancelled: "migration_step s (mark_cancelled s)"
| signed: "migration_step s (snd (apply_signature i signed_pczt s))"
| proved: "migration_step s (set_transaction_proved i proven_pczt owner s)"
| redrawn: "migration_step s (set_transfer_anchor_boundary i boundary s)"
| submitted: "migration_step s (mark_broadcast i s)"
| mined: "migration_step s (mark_mined i height s)"
| reported: "migration_step s (report_broadcast_failure i tip s)"
| adjudicated: "migration_step s (clear_broadcast_failure i s)"
| recorded: "record_satisfiability targets dets s = Some s' \<Longrightarrow> migration_step s s'"
| rewound: "migration_step s (truncate_to_height height s)"
| shifted: "shift_schedule delta s rng = Some (s', rng') \<Longrightarrow> migration_step s s'"
| rebuilt: "find_transaction s i = Some t \<Longrightarrow> is_transfer (tx_kind t) \<Longrightarrow> unsatisfiable t = None \<Longrightarrow> \<not> dead_dependency s t \<Longrightarrow>
    is_expired t target_height \<Longrightarrow> target_height \<le> new_height \<Longrightarrow> new_state = AwaitingSignature \<or> new_state = Signed \<Longrightarrow>
    migration_step s (replace_expired i bytes new_height anchor new_id new_state nfs s)"

text \<open>A migration as committed: nothing is proved, marked or reported, and it is not terminal.\<close>

definition committed_migration :: "MigrationState \<Rightarrow> bool" where
  "committed_migration s \<longleftrightarrow> ids_distinct s \<and> \<not> is_terminal s \<and>
     (\<forall>t\<in>set (transactions s). (tx_state t = AwaitingSignature \<or> tx_state t = Signed) \<and>
        unsatisfiable t = None \<and> broadcast_failure_at t = None)"

text \<open>
  What no operation on one transaction changes, and what each keeps. The expiry, the id on chain and
  the nullifiers are those of the artifact, which a rebuild replaces, for a transfer only.
\<close>

definition fixed_part ::
    "MigrationTransaction \<Rightarrow> MigrationTransferId \<times> MigrationTxKind \<times> MigrationTransferId list \<times>
     (BlockHeight \<times> TxId \<times> bytes list) option" where
  "fixed_part t = (tx_id t, tx_kind t, depends_on t,
     if is_transfer (tx_kind t) then None else Some (expiry_height t, txid t, spend_nullifiers t))"

definition transaction_inv :: "MigrationTransaction \<Rightarrow> bool" where
  "transaction_inv t \<longleftrightarrow>
     (is_mined (tx_state t) \<longrightarrow> unsatisfiable t = None \<and> broadcast_failure_at t = None) \<and>
     (tx_state t = AwaitingSignature \<or> tx_state t = Signed \<longrightarrow> broadcast_failure_at t = None \<or> is_transfer (tx_kind t)) \<and>
     broadcast_txid (tx_state t) \<in> {None, Some (txid t)}"

definition tx_kept :: "MigrationTransaction \<Rightarrow> MigrationTransaction \<Rightarrow> bool" where
  "tx_kept t t' \<longleftrightarrow> fixed_part t' = fixed_part t \<and> (transaction_inv t \<longrightarrow> transaction_inv t')"

definition quiet :: "MigrationTransaction \<Rightarrow> MigrationTransaction \<Rightarrow> bool" where
  "quiet t t' \<longleftrightarrow> tx_kept t t' \<and> (is_started (tx_state t') \<longrightarrow> is_started (tx_state t))"

lemma tx_kept_refl [simp]: "tx_kept t t" "quiet t t"
  by (simp_all add: tx_kept_def quiet_def)

lemma quiet_tx_kept: "list_all2 quiet ts ts' \<Longrightarrow> list_all2 tx_kept ts ts'"
  by (erule list_all2_mono) (simp add: quiet_def)

lemma transactions_kept:
  assumes "list_all2 tx_kept ts ts'"
  shows "map fixed_part ts' = map fixed_part ts" "list_all transaction_inv ts \<Longrightarrow> list_all transaction_inv ts'"
  using assms by (induction rule: list_all2_induct) (simp_all add: tx_kept_def)

lemma quiet_starts:
  "list_all2 quiet ts ts' \<Longrightarrow> list_ex (\<lambda>t. is_started (tx_state t)) ts' \<Longrightarrow> list_ex (\<lambda>t. is_started (tx_state t)) ts"
  by (induction rule: list_all2_induct) (auto simp: quiet_def)

lemma map_tx_id_fixed: "map tx_id ts = map fst (map fixed_part ts)"
  by (simp add: fixed_part_def comp_def)

definition status_inv :: "MigrationState \<Rightarrow> bool" where
  "status_inv s \<longleftrightarrow> (\<not> is_terminal s \<and> list_ex (\<lambda>t. is_started (tx_state t)) (transactions s) \<longrightarrow> status s = InProgress)"

definition migration_inv :: "MigrationState \<Rightarrow> bool" where
  "migration_inv s \<longleftrightarrow> ids_distinct s \<and> list_all transaction_inv (transactions s) \<and> status_inv s"

definition same_plan :: "MigrationState \<Rightarrow> MigrationState \<Rightarrow> bool" where
  "same_plan s s' \<longleftrightarrow> map fixed_part (transactions s') = map fixed_part (transactions s) \<and>
     denominations s' = denominations s \<and> preparation s' = preparation s \<and>
     committed_interval s' = committed_interval s \<and> replan_threshold s' = replan_threshold s"

lemma recompute_fields [simp]:
  "transactions (recompute_status s) = transactions s" "denominations (recompute_status s) = denominations s"
  "preparation (recompute_status s) = preparation s" "committed_interval (recompute_status s) = committed_interval s"
  "replan_threshold (recompute_status s) = replan_threshold s"
  by (simp_all add: recompute_status_def)

lemma recompute_status_inv: "status_inv (recompute_status s)"
  by (auto simp: status_inv_def recompute_status_def is_terminal_def)

lemma recompute_terminal: "is_terminal s \<Longrightarrow> recompute_status s = s"
  by (simp add: recompute_status_def)

lemma ids_distinct_fixed: "map fixed_part (transactions s') = map fixed_part (transactions s) \<Longrightarrow> ids_distinct s' \<longleftrightarrow> ids_distinct s"
  unfolding ids_distinct_def map_tx_id_fixed by simp

lemma step_keeps:
  assumes "list_all2 tx_kept (transactions s) (transactions s')" "status_inv s'"
    and "denominations s' = denominations s" "preparation s' = preparation s"
    and "committed_interval s' = committed_interval s" "replan_threshold s' = replan_threshold s"
  shows "same_plan s s' \<and> (migration_inv s \<longrightarrow> migration_inv s')"
  using transactions_kept [OF assms(1)] assms(2-) ids_distinct_fixed [of s' s] by (simp add: same_plan_def migration_inv_def)

lemma quiet_keeps:
  assumes "list_all2 quiet (transactions s) (transactions s')" "status s' = status s"
    and "denominations s' = denominations s" "preparation s' = preparation s"
    and "committed_interval s' = committed_interval s" "replan_threshold s' = replan_threshold s"
  shows "same_plan s s' \<and> (migration_inv s \<longrightarrow> migration_inv s')"
proof -
  have "status_inv s \<Longrightarrow> status_inv s'"
    using quiet_starts [OF assms(1)] assms(2) by (auto simp: status_inv_def is_terminal_def)
  then show ?thesis
    using transactions_kept [OF quiet_tx_kept [OF assms(1)]] assms(3-) ids_distinct_fixed [of s' s]
    by (auto simp: same_plan_def migration_inv_def)
qed

text \<open>One transaction changed: the change need only keep what it applies to.\<close>

lemma on_transaction_tx_kept:
  "(\<And>t. P t \<Longrightarrow> tx_kept t (f t)) \<Longrightarrow> list_all2 tx_kept (transactions s) (transactions (on_transaction P f s))"
  by (simp add: list_all2_update_first)

lemma on_transaction_quiet:
  "(\<And>t. P t \<Longrightarrow> quiet t (f t)) \<Longrightarrow> list_all2 quiet (transactions s) (transactions (on_transaction P f s))"
  by (simp add: list_all2_update_first)

lemmas tx_kept_defs = quiet_def tx_kept_def fixed_part_def transaction_inv_def

lemma shift_transaction_quiet: "shift_transaction interval delta t rng = Some (t', rng') \<Longrightarrow> quiet t t'"
  by (auto simp: shift_transaction_def tx_kept_defs Let_def apfst_def split: MigrationTxState.splits option.splits if_splits)

lemma shift_transactions_quiet:
  "shift_transactions interval delta ts rng = Some (ts', rng') \<Longrightarrow> list_all2 quiet ts ts'"
proof (induction ts arbitrary: rng ts')
  case (Cons t ts)
  then obtain u r us where "shift_transaction interval delta t rng = Some (u, r)"
    "shift_transactions interval delta ts r = Some (us, rng')" "ts' = u # us"
    by (auto simp: bind_eq_Some_conv)
  then show ?case using Cons.IH shift_transaction_quiet by simp
qed simp

lemma truncate_transaction_quiet: "quiet t (truncate_transaction height t)"
  by (auto simp: tx_kept_defs truncate_transaction_def split: MigrationTxState.split)

lemma mark_recorded_quiet: "mark_recorded targets dets s' t t' \<Longrightarrow> quiet t t'"
proof -
  assume r: "mark_recorded targets dets s' t t'"
  then have e: "t' = t\<lparr>unsatisfiable := unsatisfiable t'\<rparr>" by (simp add: mark_recorded_def)
  have "is_mined (tx_state t) \<Longrightarrow> unsatisfiable t' = unsatisfiable t" using r by (simp add: mark_recorded_def)
  then show ?thesis by (subst e, simp add: tx_kept_defs)
qed

lemma record_quiet:
  assumes "record_satisfiability targets dets s = Some s'" "ids_distinct s"
  shows "list_all2 quiet (transactions s) (transactions s')" "s' = s\<lparr>transactions := transactions s'\<rparr>"
proof -
  obtain s'' where "record_satisfiability targets dets s = Some s''" "s'' = s\<lparr>transactions := transactions s''\<rparr>"
    "list_all2 (mark_recorded targets dets s'') (transactions s) (transactions s'')"
    by (rule record_satisfiability_result [OF assms(2), of targets dets]) blast
  with assms(1) show "list_all2 quiet (transactions s) (transactions s')" "s' = s\<lparr>transactions := transactions s'\<rparr>"
    by (auto elim: list_all2_mono intro: mark_recorded_quiet)
qed

section \<open>What every state keeps\<close>

lemma status_inv_status: "transactions s' = transactions s \<Longrightarrow> is_terminal s' \<Longrightarrow> status_inv s'"
  by (simp add: status_inv_def)

lemma apply_signature_eq:
  "snd (apply_signature i signed_pczt s) =
     on_transaction (\<lambda>t. tx_id t = i \<and> tx_state t = AwaitingSignature) (\<lambda>t. t\<lparr>pczt := signed_pczt, tx_state := Signed\<rparr>) s"
proof (cases "List.find (\<lambda>t. tx_id t = i \<and> tx_state t = AwaitingSignature) (transactions s) = None")
  case True
  then have "update_first (\<lambda>t. tx_id t = i \<and> tx_state t = AwaitingSignature) (\<lambda>t. t\<lparr>pczt := signed_pczt, tx_state := Signed\<rparr>)
      (transactions s) = transactions s"
    by (intro update_first_id) (auto simp: find_None_iff)
  then show ?thesis using True by (simp add: apply_signature_def on_transaction_def)
next
  case False
  then show ?thesis by (simp add: apply_signature_def Let_def del: not_None_eq)
qed

text \<open>The first transaction with an id is the one that is found, and a change of it changes no other.\<close>

lemma update_found:
  "List.find P ts = Some t \<Longrightarrow> R t (f t) \<Longrightarrow> (\<And>u. R u u) \<Longrightarrow> list_all2 R ts (update_first P f ts)"
  by (induction ts) (auto split: if_splits simp: list_all2_same)

lemma replace_expired_quiet:
  assumes "find_transaction s i = Some t" "is_transfer (tx_kind t)" "is_expired t target_height"
    and "new_state = AwaitingSignature \<or> new_state = Signed"
  shows "list_all2 quiet (transactions s) (transactions (replace_expired i bytes new_height anchor new_id new_state nfs s))"
proof -
  have "is_transfer (tx_kind t) \<Longrightarrow> quiet t (t\<lparr>pczt := bytes, scheduled_height := new_height,
       expiry_height := Zip318.expiry_height new_height, anchor_boundary := Some anchor, txid := new_id,
       tx_state := new_state, spend_nullifiers := nfs\<rparr>)"
    using assms(4) by (auto simp: tx_kept_defs)
  then show ?thesis
    using assms(1,2) unfolding find_transaction_def by (simp add: replace_expired_def on_transaction_def update_found)
qed

lemma step_sound:
  assumes "migration_step s s'" "migration_inv s"
  shows "same_plan s s' \<and> migration_inv s'"
proof -
  have d: "ids_distinct s" and st: "status_inv s" using assms(2) by (simp_all add: migration_inv_def)
  have "same_plan s s' \<and> (migration_inv s \<longrightarrow> migration_inv s')"
    using assms(1)
  proof cases
    case superseded
    show ?thesis unfolding superseded
      by (rule step_keeps) (use st in \<open>auto simp: mark_superseded_def status_inv_def is_terminal_def list_all2_same\<close>)
  next
    case cancelled
    show ?thesis unfolding cancelled
      by (rule step_keeps) (use st in \<open>auto simp: mark_cancelled_def status_inv_def is_terminal_def list_all2_same\<close>)
  next
    case (signed i signed_pczt)
    have "list_all2 quiet (transactions s) (transactions (snd (apply_signature i signed_pczt s)))"
      unfolding apply_signature_eq by (rule on_transaction_quiet) (simp add: tx_kept_defs)
    then show ?thesis unfolding signed by (rule quiet_keeps) (simp_all add: apply_signature_eq)
  next
    case (proved i proven_pczt owner)
    have "list_all2 quiet (transactions s) (transactions (set_transaction_proved i proven_pczt owner s))"
      unfolding set_transaction_proved_def by (rule on_transaction_quiet) (simp add: tx_kept_defs)
    then show ?thesis unfolding proved by (rule quiet_keeps) (simp_all add: set_transaction_proved_def)
  next
    case (redrawn i boundary)
    have "list_all2 quiet (transactions s) (transactions (set_transfer_anchor_boundary i boundary s))"
      unfolding set_transfer_anchor_boundary_def by (rule on_transaction_quiet) (simp add: tx_kept_defs)
    then show ?thesis unfolding redrawn by (rule quiet_keeps) (simp_all add: set_transfer_anchor_boundary_def)
  next
    case (submitted i)
    have "list_all2 tx_kept (transactions s) (transactions (mark_broadcast i s))"
      unfolding mark_broadcast_def recompute_fields by (rule on_transaction_tx_kept) (simp add: tx_kept_defs)
    then show ?thesis unfolding submitted
      by (rule step_keeps) (simp_all add: mark_broadcast_def recompute_status_inv)
  next
    case (mined i height)
    have "list_all2 tx_kept (transactions s) (transactions (mark_mined i height s))"
      unfolding mark_mined_def recompute_fields by (rule on_transaction_tx_kept) (simp add: tx_kept_defs)
    then show ?thesis unfolding mined
      by (rule step_keeps) (simp_all add: mark_mined_def recompute_status_inv)
  next
    case (reported i tip)
    have "list_all2 quiet (transactions s) (transactions (report_broadcast_failure i tip s))"
      unfolding report_broadcast_failure_def by (rule on_transaction_quiet) (simp add: tx_kept_defs)
    then show ?thesis unfolding reported by (rule quiet_keeps) (simp_all add: report_broadcast_failure_def)
  next
    case (adjudicated i)
    have "list_all2 quiet (transactions s) (transactions (clear_broadcast_failure i s))"
      unfolding clear_broadcast_failure_def by (rule on_transaction_quiet) (simp add: tx_kept_defs)
    then show ?thesis unfolding adjudicated by (rule quiet_keeps) (simp_all add: clear_broadcast_failure_def)
  next
    case (recorded targets dets)
    note r = record_quiet [OF recorded d]
    show ?thesis by (rule quiet_keeps [OF r(1)]) (subst r(2), simp)+
  next
    case (rewound height)
    have q: "list_all2 quiet (transactions s) (transactions (truncate_to_height height s))"
      by (simp add: truncate_to_height_def Let_def list_all2_map2 list_all2_same truncate_transaction_quiet)
    then have "status_inv (truncate_to_height height s)"
      using st quiet_starts [OF q] by (auto simp: status_inv_def truncate_to_height_def Let_def is_terminal_def)
    with quiet_tx_kept [OF q] show ?thesis unfolding rewound
      by (intro step_keeps) (simp_all add: truncate_to_height_def Let_def)
  next
    case (shifted delta rng rng')
    then obtain ts where ts: "shift_transactions (committed_interval s) delta (transactions s) rng = Some (ts, rng')"
      "s' = s\<lparr>transactions := ts\<rparr>" by (auto simp: shift_schedule_def)
    show ?thesis unfolding ts(2) by (rule quiet_keeps) (simp_all add: shift_transactions_quiet [OF ts(1)])
  next
    case (rebuilt i t target_height new_height new_state bytes anchor new_id nfs)
    from replace_expired_quiet [OF rebuilt(2,3,6,8)] show ?thesis
      unfolding rebuilt(1) by (rule quiet_keeps) (simp_all add: replace_expired_def)
  qed
  with assms(2) show ?thesis by blast
qed

lemma same_plan_trans: "same_plan a b \<Longrightarrow> same_plan b c \<Longrightarrow> same_plan a c"
  by (simp add: same_plan_def)

lemma steps_sound: "migration_step\<^sup>*\<^sup>* s s' \<Longrightarrow> migration_inv s \<Longrightarrow> same_plan s s' \<and> migration_inv s'"
proof (induction rule: rtranclp_induct)
  case base
  then show ?case by (simp add: same_plan_def)
next
  case (step a b)
  then show ?case using step_sound same_plan_trans by blast
qed

lemma committed_inv: "committed_migration s \<Longrightarrow> migration_inv s"
  by (auto simp: committed_migration_def migration_inv_def status_inv_def list_all_iff list_ex_iff transaction_inv_def)

text \<open>
  C4. Whatever operations a committed migration goes through, in whatever order, be they those of the
  state machine, the proofs, or the rebuilding of expired transfers: its ids stay distinct and its plan
  stays as it was, and so do the expiry, the id on chain and the nullifiers of every preparation; a mined
  transaction carries neither a mark nor a report, and one not yet proved carries a report only if it is a
  transfer (one that was rebuilt after its broadcast was rejected); a transaction is on chain only under
  its own id; and once one has been sent, an open migration is in progress.
\<close>

theorem migration_invariant:
  assumes "committed_migration s0" "migration_step\<^sup>*\<^sup>* s0 s"
  shows "ids_distinct s \<and> same_plan s0 s \<and>
    (\<forall>t\<in>set (transactions s).
      (is_mined (tx_state t) \<longrightarrow> unsatisfiable t = None \<and> broadcast_failure_at t = None) \<and>
      (tx_state t \<in> {AwaitingSignature, Signed} \<and> broadcast_failure_at t \<noteq> None \<longrightarrow> is_transfer (tx_kind t)) \<and>
      (\<forall>i. broadcast_txid (tx_state t) = Some i \<longrightarrow> i = txid t)) \<and>
    (\<not> is_terminal s \<and> (\<exists>t\<in>set (transactions s). is_started (tx_state t)) \<longrightarrow> status s = InProgress)"
proof -
  from steps_sound [OF assms(2) committed_inv [OF assms(1)]]
  have i: "same_plan s0 s" "ids_distinct s" "list_all transaction_inv (transactions s)" "status_inv s"
    by (simp_all add: migration_inv_def)
  from i(3) have "\<forall>t\<in>set (transactions s). transaction_inv t" by (simp add: list_all_iff)
  with i show ?thesis by (auto simp: transaction_inv_def status_inv_def list_ex_iff)
qed

definition signed_migration :: MigrationState where
  "signed_migration = sample_migration Committed
     [sample_transaction 0 (Preparation 0 0) [] Signed, sample_transaction 1 (Transfer 0) [0] Signed]"

lemma steps2: "migration_step a b \<Longrightarrow> migration_step b c \<Longrightarrow> migration_step\<^sup>*\<^sup>* a c"
  by (meson r_into_rtranclp rtranclp_trans)

lemma steps4:
  "migration_step a b \<Longrightarrow> migration_step b c \<Longrightarrow> migration_step c d \<Longrightarrow> migration_step d e \<Longrightarrow> migration_step\<^sup>*\<^sup>* a e"
  by (meson r_into_rtranclp rtranclp_trans)

text \<open>The preparation is proved, sent, mined, and rolled back.\<close>

theorem migration_invariant_witness:
  "ids_distinct (truncate_to_height 850 (mark_mined 0 900 (mark_broadcast 0 (set_transaction_proved 0 [] None signed_migration)))) \<and>
   same_plan signed_migration
     (truncate_to_height 850 (mark_mined 0 900 (mark_broadcast 0 (set_transaction_proved 0 [] None signed_migration))))"
proof -
  have c: "committed_migration signed_migration"
    by (simp add: committed_migration_def signed_migration_def sample_defs ids_distinct_def is_terminal_def)
  have "migration_step\<^sup>*\<^sup>* signed_migration
     (truncate_to_height 850 (mark_mined 0 900 (mark_broadcast 0 (set_transaction_proved 0 [] None signed_migration))))"
    by (rule steps4 [OF migration_step.proved migration_step.submitted migration_step.mined migration_step.rewound])
  from migration_invariant [OF c this] show ?thesis by blast
qed

text \<open>The statuses that record a decision.\<close>

lemma truncate_status: "status (truncate_to_height h s) = status s \<or> status s = Complete \<and> status (truncate_to_height h s) = InProgress"
  by (simp add: truncate_to_height_def Let_def)

lemma step_terminal:
  assumes "migration_step s s'" "ids_distinct s" "is_terminal s"
  shows "status s' = status s \<or> status s = Complete \<and> status s' = InProgress"
  using assms(1)
proof cases
  case (recorded targets dets)
  then show ?thesis using record_quiet(2) [OF recorded assms(2)] by (metis MigrationState.select_convs(1) MigrationState.surjective MigrationState.update_convs(4))
next
  case (rewound height)
  then show ?thesis using truncate_status by simp
next
  case (shifted delta rng rng')
  then show ?thesis by (auto simp: shift_schedule_def)
qed (use assms(3) in \<open>simp_all add: mark_superseded_def mark_cancelled_def apply_signature_def Let_def
    set_transaction_proved_def set_transfer_anchor_boundary_def mark_broadcast_def mark_mined_def recompute_status_def
    is_terminal_def replace_expired_def report_broadcast_failure_def clear_broadcast_failure_def\<close>)

text \<open>
  C15. A migration that has failed, or was superseded or cancelled, stays so, whatever operations follow,
  and the kernel has nothing more for it to do.
\<close>

theorem policy_status_final:
  assumes "migration_inv s" "status s \<in> {Failed, Superseded, Cancelled}" "migration_step\<^sup>*\<^sup>* s s'"
  shows "status s' = status s \<and> next_step s' targets set_aside = StepComplete"
proof -
  from assms(3) have "status s' = status s"
  proof (induction rule: rtranclp_induct)
    case (step a b)
    have "ids_distinct a" using steps_sound [OF step(1) assms(1)] by (simp add: migration_inv_def)
    moreover have "is_terminal a" using step.IH assms(2) by (auto simp: is_terminal_def)
    ultimately show ?case using step_terminal [OF step(2)] step.IH assms(2) by auto
  qed simp
  then show ?thesis using assms(2) by (auto simp: next_step_def is_terminal_def)
qed

theorem policy_status_final_witness:
  "status (truncate_to_height 0 (mark_mined 0 900 (mark_cancelled signed_migration))) = Cancelled \<and>
   next_step (truncate_to_height 0 (mark_mined 0 900 (mark_cancelled signed_migration))) (dueness_at 900) [] = StepComplete"
proof -
  have "committed_migration signed_migration"
    by (simp add: committed_migration_def signed_migration_def sample_defs ids_distinct_def is_terminal_def)
  from step_sound [OF migration_step.cancelled committed_inv [OF this]]
  have i: "migration_inv (mark_cancelled signed_migration)" by blast
  have st: "status (mark_cancelled signed_migration) = Cancelled"
    by (simp add: mark_cancelled_def is_terminal_def signed_migration_def sample_defs)
  have "migration_step\<^sup>*\<^sup>* (mark_cancelled signed_migration)
      (truncate_to_height 0 (mark_mined 0 900 (mark_cancelled signed_migration)))"
    by (rule steps2 [OF migration_step.mined migration_step.rewound])
  from policy_status_final [OF i _ this] st show ?thesis by simp
qed

section \<open>The re-spread of the schedule\<close>

definition respread :: "AnchorBucketInterval \<Rightarrow> u32 \<Rightarrow> MigrationTransaction \<Rightarrow> MigrationTransaction \<Rightarrow> bool" where
  "respread interval delta t t' \<longleftrightarrow>
     (if is_started (tx_state t) then t' = t
      else t' = t\<lparr>scheduled_height := block_height_add (scheduled_height t) delta, anchor_boundary := anchor_boundary t'\<rparr> \<and>
        (anchor_boundary t' = anchor_boundary t \<or> tx_state t \<noteq> Proved \<and> is_transfer (tx_kind t) \<and>
          (\<exists>prior fresh. anchor_boundary t = Some prior \<and> anchor_boundary t' = Some fresh \<and> is_boundary interval fresh \<and>
             prior \<le> fresh \<and> fresh < boundary_at_or_below interval (scheduled_height t'))))"

lemma shift_transaction_respread:
  assumes "interval \<noteq> 0" "shift_transaction interval delta t rng = Some (t', rng')"
  shows "respread interval delta t t'"
proof -
  let ?t = "t\<lparr>scheduled_height := block_height_add (scheduled_height t) delta\<rparr>"
  have keep: "respread interval delta t ?t" if "\<not> is_started (tx_state t)" using that by (simp add: respread_def)
  have drawn: "respread interval delta t (?t\<lparr>anchor_boundary := Some b\<rparr>)"
    if "\<not> is_started (tx_state t)" "tx_state t \<noteq> Proved" "is_transfer (tx_kind t)" "anchor_boundary t = Some prior"
      "redraw_anchor_boundary interval prior (scheduled_height ?t) rng = Some (Some b, r)" for b prior r
    using that redraw_anchor_boundary_sound [OF assms(1) that(5)] by (simp add: respread_def)
  have unstarted: "t' = t \<and> is_started (tx_state t) \<or> \<not> is_started (tx_state t) \<and> (t' = ?t \<or>
      (\<exists>prior b r. tx_state t \<noteq> Proved \<and> is_transfer (tx_kind t) \<and> anchor_boundary t = Some prior \<and>
        redraw_anchor_boundary interval prior (scheduled_height ?t) rng = Some (Some b, r) \<and>
        t' = ?t\<lparr>anchor_boundary := Some b\<rparr>))"
    using assms(2)
    by (cases "tx_state t")
       (auto simp: shift_transaction_def Let_def apfst_def split: option.splits if_splits)
  then show ?thesis using keep drawn by (elim disjE conjE exE) (auto simp: respread_def)
qed

text \<open>
  C16. The shift moves the schedule of every transaction not yet sent by the same number of blocks, up to
  the last height, so that the gaps stay as drawn, and nothing else but the anchors of the transfers not
  yet proved: these move, if at all, to a boundary of the committed grid that is not below the one they
  replace and lies below the newest one before the new schedule.
\<close>

theorem shift_schedule_respread:
  assumes "shift_schedule delta s rng = Some (s', rng')" "committed_interval s \<noteq> 0"
  shows "s' = s\<lparr>transactions := transactions s'\<rparr> \<and>
    list_all2 (respread (committed_interval s) delta) (transactions s) (transactions s') \<and>
    (\<forall>j k t u. j < length (transactions s) \<and> k < length (transactions s) \<and>
       t = transactions s ! j \<and> u = transactions s ! k \<and>
       \<not> is_started (tx_state t) \<and> \<not> is_started (tx_state u) \<and>
       unat (scheduled_height t) + unat delta < 2 ^ 32 \<and> unat (scheduled_height u) + unat delta < 2 ^ 32 \<longrightarrow>
       unat (scheduled_height (transactions s' ! k)) + unat (scheduled_height t) =
         unat (scheduled_height (transactions s' ! j)) + unat (scheduled_height u))"
proof -
  obtain ts where ts: "shift_transactions (committed_interval s) delta (transactions s) rng = Some (ts, rng')"
    "s' = s\<lparr>transactions := ts\<rparr>" using assms(1) by (auto simp: shift_schedule_def)
  have "shift_transactions i delta us r = Some (us', r') \<Longrightarrow> i \<noteq> 0 \<Longrightarrow> list_all2 (respread i delta) us us'" for i us us' r r'
  proof (induction us arbitrary: r us')
    case (Cons t us)
    then obtain u q vs where "shift_transaction i delta t r = Some (u, q)"
      "shift_transactions i delta us q = Some (vs, r')" "us' = u # vs"
      by (auto simp: bind_eq_Some_conv)
    then show ?case using Cons.IH Cons.prems(2) shift_transaction_respread by simp
  qed simp
  from this [OF ts(1) assms(2)]
  have all: "list_all2 (respread (committed_interval s) delta) (transactions s) (transactions s')" by (simp add: ts(2))
  have moved: "unat (scheduled_height (transactions s' ! j)) = unat (scheduled_height (transactions s ! j)) + unat delta"
    if "j < length (transactions s)" "\<not> is_started (tx_state (transactions s ! j))"
      "unat (scheduled_height (transactions s ! j)) + unat delta < 2 ^ 32" for j
  proof -
    have "respread (committed_interval s) delta (transactions s ! j) (transactions s' ! j)"
      using list_all2_nthD [OF all that(1)] .
    then have "scheduled_height (transactions s' ! j) = block_height_add (scheduled_height (transactions s ! j)) delta"
      using that(2) unfolding respread_def by (metis (no_types, lifting) MigrationTransaction.select_convs(5)
        MigrationTransaction.surjective MigrationTransaction.update_convs(5,7))
    then show ?thesis using that(3) by (simp add: block_height_add_def unat_saturating_add)
  qed
  have "s' = s\<lparr>transactions := transactions s'\<rparr>" by (simp add: ts(2))
  with all show ?thesis using moved by (intro conjI allI impI) simp_all
qed

text \<open>The shift returns for every stream without a zero word and with odd words again and again.\<close>

definition lively :: "rng \<Rightarrow> bool" where
  "lively rng \<longleftrightarrow> (\<forall>n. rng !! n \<noteq> 0 \<and> (\<exists>k\<ge>n. bit (rng !! k) 0))"

lemma lively_stl: "lively rng \<Longrightarrow> lively (stl rng)"
  unfolding lively_def
proof
  fix n
  assume l: "\<forall>n. rng !! n \<noteq> 0 \<and> (\<exists>k\<ge>n. bit (rng !! k) 0)"
  from l obtain k where k: "Suc n \<le> k" "bit (rng !! k) 0" by blast
  then obtain j where "k = Suc j" by (cases k) auto
  with k have "n \<le> j" "bit (stl rng !! j) 0" by simp_all
  moreover have "rng !! Suc n \<noteq> 0" using l by blast
  ultimately show "stl rng !! n \<noteq> 0 \<and> (\<exists>k\<ge>n. bit (stl rng !! k) 0)" by auto
qed

lemma sample_boundary_lively:
  assumes i: "word_checked_sub recent i = Some hi" "lo \<le> hi"
  shows "bit (rng !! n) 0 \<Longrightarrow> lively rng \<Longrightarrow>
    \<exists>c rng'. sample_recency_weighted_boundary i lo hi recent rng = Some (c, rng') \<and> lively rng'"
proof (induction n arbitrary: rng)
  case 0
  have "unat i \<le> unat recent" using word_checked_sub_Some [OF i(1)] by (simp add: word_le_nat_alt)
  then have "word_checked_mul 1 i = Some i" using unsigned_less [of i, where ?'a = nat] by (simp add: word_checked_mul_def)
  then show ?case using draw_age_odd [of rng] 0 i lively_stl
    by (subst sample_recency_weighted_boundary.simps) (simp add: ANCHOR_AGE_CAP_def)
next
  case (Suc n)
  have "rng !! 0 \<noteq> 0" using Suc.prems(2) unfolding lively_def by blast
  then have "shd rng \<noteq> 0" by simp
  from draw_age_word [OF this, of "stl rng"] obtain k where
    k: "draw_anchor_age rng = Some (of_nat (Suc k), stl rng)" by (auto simp del: of_nat_Suc)
  have ih: "\<exists>c rng'. sample_recency_weighted_boundary i lo hi recent (stl rng) = Some (c, rng') \<and> lively rng'"
    by (rule Suc.IH) (use Suc.prems lively_stl in auto)
  show ?case using ih k lively_stl [OF Suc.prems(2)]
    by (subst sample_recency_weighted_boundary.simps) (auto split: option.splits)
qed

lemma redraw_lively:
  assumes "lively rng"
  shows "\<exists>r rng'. redraw_anchor_boundary i prior h rng = Some (r, rng') \<and> lively rng'"
proof (cases "word_checked_sub (boundary_at_or_below i h) i")
  case None
  then show ?thesis using assms by (simp add: redraw_anchor_boundary_def)
next
  case (Some hi)
  obtain n where "bit (rng !! n) 0" using assms unfolding lively_def by blast
  with sample_boundary_lively [OF Some _ this assms]
  show ?thesis using Some assms by (cases "hi < boundary_at_or_above i prior")
      (force simp: redraw_anchor_boundary_def Let_def apfst_def not_less)+
qed

lemma shift_transactions_lively:
  "lively rng \<Longrightarrow> \<exists>ts' rng'. shift_transactions i delta ts rng = Some (ts', rng') \<and> lively rng'"
proof (induction ts arbitrary: rng)
  case (Cons t ts)
  have "\<exists>t' r. shift_transaction i delta t rng = Some (t', r) \<and> lively r"
  proof (cases "anchor_boundary t")
    case None
    then show ?thesis using Cons.prems by (simp add: shift_transaction_def Let_def split: MigrationTxState.split)
  next
    case (Some prior)
    from redraw_lively [OF Cons.prems, of i prior "block_height_add (scheduled_height t) delta"]
    obtain b r where "redraw_anchor_boundary i prior (block_height_add (scheduled_height t) delta) rng = Some (b, r)" "lively r"
      by blast
    then show ?thesis using Cons.prems Some
      by (simp add: shift_transaction_def Let_def apfst_def split: MigrationTxState.split)
  qed
  then obtain t' r where t': "shift_transaction i delta t rng = Some (t', r)" "lively r" by blast
  from Cons.IH [OF t'(2)] t'(1) show ?case by (auto simp: apfst_def)
qed simp

lemma shift_schedule_lively:
  "lively rng \<Longrightarrow> \<exists>s' rng'. shift_schedule delta s rng = Some (s', rng') \<and> lively rng'"
  using shift_transactions_lively [of rng "committed_interval s" delta "transactions s"]
  by (auto simp: shift_schedule_def apfst_def)

lemma lively_odd: "odd w \<Longrightarrow> lively (sconst w)"
  by (auto simp: lively_def bit_0)

section \<open>What a rewind undoes\<close>

lemma inherit_loop_marks:
  assumes "ids_distinct s" "inherit_loop targets s = Some s'"
    and "\<forall>t\<in>set (transactions s). \<forall>h. unsatisfiable_at t = Some h \<longrightarrow> Q h"
    and "\<forall>t\<in>set (transactions s). is_expired t (scanned targets) \<longrightarrow> Q (expiry_height t)"
  shows "\<forall>t\<in>set (transactions s'). \<forall>h. unsatisfiable_at t = Some h \<longrightarrow> Q h"
proof -
  let ?P = "\<lambda>s. (\<forall>t\<in>set (transactions s). \<forall>h. unsatisfiable_at t = Some h \<longrightarrow> Q h) \<and>
    (\<forall>t\<in>set (transactions s). is_expired t (scanned targets) \<longrightarrow> Q (expiry_height t))"
  have "?P (inherit_pass targets u)" if u: "ids_distinct u" "?P u" for u
  proof (intro conjI ballI allI impI)
    fix t' h assume t': "t' \<in> set (transactions (inherit_pass targets u))" "unsatisfiable_at t' = Some h"
    then obtain t where t: "t \<in> set (transactions u)" "t' = inherit_mark u targets t" by auto
    show "Q h"
    proof (cases "t' = t")
      case True
      then show ?thesis using u(2) t(1) t'(2) by blast
    next
      case False
      then obtain h' where h': "inherited_stamp u targets t = Some h'" "unsatisfiable_at t' = Some h'"
        using t(2) by (auto simp: inherit_mark_def unsatisfiable_at_def split: if_splits option.splits)
      then obtain v where v: "v \<in> set (transactions u)" "dead_stamp targets v = Some h'"
        using inherited_stamp_Some [OF u(1) h'(1)] by blast
      have "h' = h" using h'(2) t'(2) by simp
      from dead_stamp_Some [OF v(2)] u(2) v(1) show ?thesis unfolding \<open>h' = h\<close> by blast
    qed
  next
    fix t' assume "t' \<in> set (transactions (inherit_pass targets u))" "is_expired t' (scanned targets)"
    then show "Q (expiry_height t')" using u(2) by (auto simp: is_expired_def)
  qed
  note pass = this
  have "?P s" using assms(3,4) by blast
  from inherit_loop_rule [of s ?P targets, OF assms(1) this pass]
  obtain s'' where "inherit_loop targets s = Some s''" "?P s''" by blast
  then show ?thesis using assms(2) by simp
qed

lemma truncate_transaction_min:
  "truncate_transaction low (truncate_transaction height t) = truncate_transaction (min low height) t"
proof -
  have a: "above (min low height) x \<longleftrightarrow> above low x \<or> above height x" for x :: "BlockHeight option"
    by (cases x) (auto simp: min_less_iff_disj)
  have u: "unsatisfiable_at (truncate_transaction height t) =
      (if above height (unsatisfiable_at t) then None else unsatisfiable_at t)"
    by (simp add: truncate_transaction_def unsatisfiable_at_def)
  show ?thesis
    by (cases "tx_state t"; simp add: truncate_transaction_def [of low] u a)
      (auto simp: truncate_transaction_def a min_less_iff_disj)
qed

lemma truncate_min: "truncate_to_height low (truncate_to_height height s) = truncate_to_height (min low height) s"
proof -
  have tr: "transactions (truncate_to_height h s) = map (truncate_transaction h) (transactions s)" for h s
    by (simp add: truncate_to_height_def Let_def)
  have st: "status (truncate_to_height h s) = (if status s = Complete \<and>
      list_ex (\<lambda>t. \<not> is_mined (tx_state t)) (map (truncate_transaction h) (transactions s)) then InProgress else status s)" for h s
    by (simp add: truncate_to_height_def Let_def)
  have rest: "truncate_to_height h s = s\<lparr>transactions := transactions (truncate_to_height h s),
      status := status (truncate_to_height h s)\<rparr>" for h s
    by (simp add: truncate_to_height_def Let_def)
  have "\<not> is_mined (tx_state (truncate_transaction height t)) \<Longrightarrow>
      \<not> is_mined (tx_state (truncate_transaction (min low height) t))" for t
    unfolding truncate_transaction_min [symmetric] by (cases "tx_state t") (auto simp: truncate_transaction_def split: if_splits)
  then have ex: "list_ex (\<lambda>t. \<not> is_mined (tx_state t)) (map (truncate_transaction height) (transactions s)) \<Longrightarrow>
      list_ex (\<lambda>t. \<not> is_mined (tx_state t)) (map (truncate_transaction (min low height)) (transactions s))"
    unfolding list_ex_iff by auto
  have t2: "transactions (truncate_to_height low (truncate_to_height height s)) =
      transactions (truncate_to_height (min low height) s)"
    unfolding tr by (simp add: truncate_transaction_min)
  have m: "map (truncate_transaction low) (map (truncate_transaction height) (transactions s)) =
      map (truncate_transaction (min low height)) (transactions s)" by (simp add: truncate_transaction_min)
  have s2: "status (truncate_to_height low (truncate_to_height height s)) = status (truncate_to_height (min low height) s)"
    unfolding st [of low] st [of "min low height"] tr m unfolding st [of height] using ex by (simp only: split: if_split) blast
  have "truncate_to_height low (truncate_to_height height s) =
      s\<lparr>transactions := transactions (truncate_to_height low (truncate_to_height height s)),
        status := status (truncate_to_height low (truncate_to_height height s))\<rparr>"
    by (subst rest, subst rest [of height]) simp
  then show ?thesis unfolding t2 s2 rest [symmetric] .
qed

lemma truncate_cleared:
  assumes "t' = t\<lparr>unsatisfiable := u\<rparr>" "\<forall>h. unsatisfiable_at t = Some h \<longrightarrow> height < h"
    and "\<forall>h. unsatisfiable_at t' = Some h \<longrightarrow> height < h"
  shows "truncate_transaction height t' = truncate_transaction height t"
proof -
  have c: "(if above height (unsatisfiable_at x) then None else unsatisfiable x) = None"
    if "\<forall>h. unsatisfiable_at x = Some h \<longrightarrow> height < h" for x
    using that by (cases "unsatisfiable x") (auto simp: unsatisfiable_at_def)
  show ?thesis unfolding truncate_transaction_def c [OF assms(2)] c [OF assms(3)]
    by (cases "tx_state t") (simp_all add: assms(1))
qed

lemma truncate_record:
  assumes "ids_distinct s" "record_satisfiability targets dets s = Some s'"
    and dets: "\<forall>(i, a)\<in>set dets. height < as_of_height a"
    and marks: "\<forall>t\<in>set (transactions s). (\<forall>h. unsatisfiable_at t = Some h \<longrightarrow> height < h) \<and>
      (is_expired t (scanned targets) \<longrightarrow> height < expiry_height t)"
  shows "truncate_to_height height s' = truncate_to_height height s"
proof -
  let ?s = "direct_marks dets s"
  have eq: "?s = s\<lparr>transactions := map (direct_mark dets) (transactions s)\<rparr>" by (rule direct_marks_map [OF assms(1)])
  have d: "ids_distinct ?s" unfolding eq using assms(1) by (simp add: ids_distinct_map)
  have det: "height < h" if "find_map (determined i) dets = Some (h, k)" for i h k
  proof -
    from find_map_Some [OF that] obtain j a where a: "(j, a) \<in> set dets" "answer_mark a = Some (h, k)"
      by (auto simp: determined_def split: if_splits)
    then have "as_of_height a = h" by (cases a) auto
    with dets a(1) show ?thesis by blast
  qed
  have m: "\<forall>t\<in>set (transactions ?s). \<forall>h. unsatisfiable_at t = Some h \<longrightarrow> height < h"
    using marks det by (auto simp: eq direct_mark_def unsatisfiable_at_def)
  have e: "\<forall>t\<in>set (transactions ?s). is_expired t (scanned targets) \<longrightarrow> height < expiry_height t"
    using marks by (auto simp: eq direct_mark_def is_expired_def)
  have marks': "\<forall>t\<in>set (transactions s'). \<forall>h. unsatisfiable_at t = Some h \<longrightarrow> height < h"
    using inherit_loop_marks [OF d _ m e] assms(2) by (simp add: record_satisfiability_def)
  obtain s'' where s'': "record_satisfiability targets dets s = Some s''" "s'' = s\<lparr>transactions := transactions s''\<rparr>"
    "list_all2 (mark_recorded targets dets s'') (transactions s) (transactions s'')"
    by (rule record_satisfiability_result [OF assms(1), of targets dets]) blast
  have r: "s'' = s'" using s''(1) assms(2) by simp
  have "list_all2 (\<lambda>t t'. truncate_transaction height t' = truncate_transaction height t) (transactions s) (transactions s')"
    using s''(3) unfolding r
  proof (rule list.rel_mono_strong)
    fix t t' assume t: "t \<in> set (transactions s)" "t' \<in> set (transactions s')" "mark_recorded targets dets s' t t'"
    show "truncate_transaction height t' = truncate_transaction height t"
      by (rule truncate_cleared [where u = "unsatisfiable t'"]) (use t marks marks' in \<open>auto simp: mark_recorded_def\<close>)
  qed
  then have ts: "map (truncate_transaction height) (transactions s') = map (truncate_transaction height) (transactions s)"
    by (simp add: list_all2_conv_all_nth list_eq_iff_nth_eq)
  from s''(2) have "s' = s\<lparr>transactions := transactions s'\<rparr>" unfolding r .
  then have "s'\<lparr>transactions := ts\<rparr> = s\<lparr>transactions := ts\<rparr>" for ts
    by (metis (no_types) MigrationState.surjective MigrationState.update_convs(4))
  then show ?thesis by (simp add: truncate_to_height_def ts)
qed

text \<open>What a rewind leaves of a transaction: whatever rests on the chain up to the height, and nothing above it.\<close>

definition cut_back :: "BlockHeight \<Rightarrow> MigrationTransaction \<Rightarrow> MigrationTransaction \<Rightarrow> bool" where
  "cut_back height t t' \<longleftrightarrow>
     (\<forall>m. unsatisfiable t' = Some m \<longleftrightarrow> unsatisfiable t = Some m \<and> fst m \<le> height) \<and>
     (\<forall>h. broadcast_failure_at t' = Some h \<longleftrightarrow> broadcast_failure_at t = Some h \<and> h \<le> height) \<and>
     (\<forall>x h. tx_state t = Mined x h \<and> height < h \<longrightarrow> tx_state t' = Broadcast x) \<and>
     ((\<forall>h. mined_height (tx_state t) = Some h \<longrightarrow> h \<le> height) \<longrightarrow> tx_state t' = tx_state t) \<and>
     t' = t\<lparr>unsatisfiable := unsatisfiable t', broadcast_failure_at := broadcast_failure_at t', tx_state := tx_state t'\<rparr>"

lemma truncate_transaction_cut_back: "cut_back height t (truncate_transaction height t)"
proof -
  have "(if above height (unsatisfiable_at t) then None else unsatisfiable t) = Some m \<longleftrightarrow>
      unsatisfiable t = Some m \<and> fst m \<le> height" for m
    by (cases "unsatisfiable t") (auto simp: unsatisfiable_at_def)
  moreover have "(if above height (broadcast_failure_at t) then None else broadcast_failure_at t) = Some h \<longleftrightarrow>
      broadcast_failure_at t = Some h \<and> h \<le> height" for h
    by (cases "broadcast_failure_at t") auto
  ultimately show ?thesis
    by (cases "tx_state t") (auto simp: cut_back_def truncate_transaction_def)
qed

lemma truncate_cut_back: "list_all2 (cut_back height) (transactions s) (transactions (truncate_to_height height s))"
  by (simp add: truncate_to_height_def Let_def list_all2_map2 list_all2_same truncate_transaction_cut_back)

text \<open>
  C11. A rewind is exact. Of every transaction it keeps what rests on the chain up to the height (the mark,
  the report, the mined state) and takes back what rests above it, a transaction mined above it being in
  flight again under the id it was mined under, and it changes nothing else; only a complete migration
  changes its status, which it does when a transaction is no longer mined. Rewinds compose to the lowest.
  And recording satisfiability is undone: if its answers rest above the height, and so do the marks there
  were and the expiries of the lapsed transactions, the rewind gives what it gives without the recording.
\<close>

theorem truncate_exact:
  assumes "ids_distinct s"
  shows "list_all2 (cut_back height) (transactions s) (transactions (truncate_to_height height s)) \<and>
    status (truncate_to_height height s) =
      (if status s = Complete \<and> (\<exists>t\<in>set (transactions (truncate_to_height height s)). \<not> is_mined (tx_state t)) then InProgress
       else status s) \<and>
    truncate_to_height low (truncate_to_height height s) = truncate_to_height (min low height) s \<and>
    (\<forall>targets dets s'. record_satisfiability targets dets s = Some s' \<and> (\<forall>(i, a)\<in>set dets. height < as_of_height a) \<and>
       (\<forall>t\<in>set (transactions s). (\<forall>h. unsatisfiable_at t = Some h \<longrightarrow> height < h) \<and>
          (is_expired t (scanned targets) \<longrightarrow> height < expiry_height t)) \<longrightarrow>
       truncate_to_height height s' = truncate_to_height height s)"
proof (intro conjI allI impI)
  show "status (truncate_to_height height s) =
      (if status s = Complete \<and> (\<exists>t\<in>set (transactions (truncate_to_height height s)). \<not> is_mined (tx_state t)) then InProgress
       else status s)"
    by (simp add: truncate_to_height_def Let_def list_ex_iff)
qed (use truncate_cut_back truncate_min truncate_record [OF assms] in blast)+

text \<open>An observation at height 900 is withdrawn by the rewind to 850.\<close>

theorem truncate_exact_witness:
  "truncate_to_height 850 (truncate_to_height 900 signed_migration) = truncate_to_height 850 signed_migration \<and>
   (\<exists>s'. record_satisfiability (dueness_at 950) [(0, Unsatisfiable (InputsSpent []) 900)] signed_migration = Some s' \<and>
     truncate_to_height 850 s' = truncate_to_height 850 signed_migration)"
proof -
  have d: "ids_distinct signed_migration" by (simp add: ids_distinct_def signed_migration_def sample_defs)
  obtain s' where s': "record_satisfiability (dueness_at 950) [(0, Unsatisfiable (InputsSpent []) 900)] signed_migration = Some s'"
    by (rule record_satisfiability_result [OF d]) blast
  have "\<forall>(i, a)\<in>set [(0 :: MigrationTransferId, Unsatisfiable (InputsSpent []) 900)]. 850 < as_of_height a" by simp
  moreover have "\<forall>t\<in>set (transactions signed_migration). (\<forall>h. unsatisfiable_at t = Some h \<longrightarrow> 850 < h) \<and>
      (is_expired t (scanned (dueness_at 950)) \<longrightarrow> 850 < expiry_height t)"
    by (simp add: signed_migration_def sample_defs unsatisfiable_at_def)
  ultimately have "truncate_to_height 850 s' = truncate_to_height 850 signed_migration"
    using truncate_exact [OF d, of 850] s' by blast
  then show ?thesis using truncate_exact [OF d, of 900 850] s' by auto
qed

text \<open>A lag of 100 blocks: the proved transfer keeps its anchor.\<close>

theorem shift_schedule_respread_witness:
  "\<exists>s' rng'. shift_schedule 100 (sample_migration InProgress sample_transactions) (sconst 1) = Some (s', rng') \<and>
     list_all2 (respread 144 100) sample_transactions (transactions s')"
proof -
  obtain s' rng' where s': "shift_schedule 100 (sample_migration InProgress sample_transactions) (sconst 1) = Some (s', rng')"
    using shift_schedule_lively [OF lively_odd [of 1], of 100 "sample_migration InProgress sample_transactions"] by auto
  from shift_schedule_respread [OF this] have "list_all2 (respread 144 100) sample_transactions (transactions s')"
    by (simp add: sample_migration_def)
  with s' show ?thesis by blast
qed

end
