(* ===== verification/MigrationDrive.thy ===== *)
theory MigrationDrive
  imports MigrationRuns
begin

text \<open>
  The drive API, \<open>advance_migration\<close> of \<open>zcash_pool_migration/src/satisfiability.rs\<close>: the in-flight
  sweep, the adjudication of rejected broadcasts, and the loop that plans, verifies and records. The
  store is the trait \<open>PoolMigrationWrite\<close>, a parameter: its answers for a transaction, its lookup of a
  mined transaction, and its write, each of which may fail; its answers do not change during a call.
\<close>

section \<open>The store\<close>

record 'e MigrationStore =
  check_step_satisfiability :: "MigrationTransaction \<Rightarrow> ReorgSettleDepth \<Rightarrow> 'e + StepSatisfiability"
  store_mined_height :: "TxId \<Rightarrow> 'e + BlockHeight option"
  replace_migration :: "MigrationState \<Rightarrow> 'e + unit"

definition bind_result :: "'e + 'a \<Rightarrow> ('a \<Rightarrow> 'e + 'b) \<Rightarrow> 'e + 'b" where
  "bind_result r f = (case r of Inl e \<Rightarrow> Inl e | Inr x \<Rightarrow> f x)"

lemma bind_result_simps [simp]: "bind_result (Inl e) f = Inl e" "bind_result (Inr x) f = f x"
  by (simp_all add: bind_result_def)

lemma bind_result_Inr: "bind_result r f = Inr y \<longleftrightarrow> (\<exists>x. r = Inr x \<and> f x = Inr y)"
  by (cases r) auto

fun records_a_determination :: "StepSatisfiability \<Rightarrow> bool" where
  "records_a_determination (Unsatisfiable c h) \<longleftrightarrow> cause_marks c"
| "records_a_determination _ \<longleftrightarrow> False"

type_synonym determinations = "(MigrationTransferId \<times> StepSatisfiability) list"
type_synonym minings = "(MigrationTransferId \<times> BlockHeight) list"

section \<open>The in-flight sweep\<close>

fun in_flight_death :: "StepSatisfiability \<Rightarrow> bool" where
  "in_flight_death (Unsatisfiable (InputsSpent nfs) h) \<longleftrightarrow> True"
| "in_flight_death (Unsatisfiable AnchorInvalidated h) \<longleftrightarrow> True"
| "in_flight_death _ \<longleftrightarrow> False"

definition sweep_transaction ::
    "'e MigrationStore \<Rightarrow> ReorgSettleDepth \<Rightarrow> MigrationTransaction \<Rightarrow> 'e + minings \<times> minings \<times> determinations" where
  "sweep_transaction store settle t =
     (case tx_state t of
        Broadcast i \<Rightarrow>
          bind_result (store_mined_height store i) (\<lambda>mined. case mined of
            Some h \<Rightarrow> Inr ([], [(tx_id t, h)], [])
          | None \<Rightarrow>
              if unsatisfiable_at t \<noteq> None then Inr ([], [], [])
              else bind_result (check_step_satisfiability store t settle) (\<lambda>answer.
                Inr ([], [], if in_flight_death answer then [(tx_id t, answer)] else [])))
      | Proved \<Rightarrow>
          bind_result (store_mined_height store (txid t)) (\<lambda>mined. case mined of
            Some h \<Rightarrow> Inr ([(tx_id t, h)], [], [])
          | None \<Rightarrow> Inr ([], [], []))
      | _ \<Rightarrow> Inr ([], [], []))"

primrec in_flight_sweep ::
    "'e MigrationStore \<Rightarrow> ReorgSettleDepth \<Rightarrow> MigrationTransaction list \<Rightarrow> 'e + minings \<times> minings \<times> determinations" where
  "in_flight_sweep store settle [] = Inr ([], [], [])"
| "in_flight_sweep store settle (t # ts) =
     bind_result (sweep_transaction store settle t) (\<lambda>(unrecorded, mined, findings).
     bind_result (in_flight_sweep store settle ts) (\<lambda>(unrecorded', mined', findings').
       Inr (unrecorded @ unrecorded', mined @ mined', findings @ findings')))"

definition promote :: "minings \<Rightarrow> minings \<Rightarrow> MigrationState \<Rightarrow> MigrationState" where
  "promote unrecorded mined s =
     fold (\<lambda>(i, h). mark_mined i h) mined (fold (\<lambda>(i, h) s. mark_mined i h (mark_broadcast i s)) unrecorded s)"

definition record_findings :: "DuenessTargets \<Rightarrow> determinations \<Rightarrow> MigrationState \<Rightarrow> MigrationState option" where
  "record_findings targets findings s =
     (if findings = [] then Some s else record_satisfiability targets findings s)"

section \<open>Adjudicating rejected broadcasts\<close>

definition needs_broadening :: "MigrationState \<Rightarrow> determinations \<Rightarrow> MigrationTransaction \<Rightarrow> bool" where
  "needs_broadening s batch t \<longleftrightarrow>
     \<not> list_ex (\<lambda>d. fst d = tx_id t) batch \<and> \<not> is_started (tx_state t) \<and>
     unsatisfiable_at t = None \<and> deps_mined s (depends_on t)"

primrec broaden ::
    "'e MigrationStore \<Rightarrow> MigrationState \<Rightarrow> ReorgSettleDepth \<Rightarrow> MigrationTransaction list \<Rightarrow> determinations \<Rightarrow> 'e + determinations" where
  "broaden store s settle [] batch = Inr batch"
| "broaden store s settle (t # ts) batch =
     (if needs_broadening s batch t then
        bind_result (check_step_satisfiability store t settle) (\<lambda>answer.
          broaden store s settle ts (if records_a_determination answer then batch @ [(tx_id t, answer)] else batch))
      else broaden store s settle ts batch)"

definition broaden_after_discovery ::
    "'e MigrationStore \<Rightarrow> MigrationState \<Rightarrow> determinations \<Rightarrow> ReorgSettleDepth \<Rightarrow> 'e + determinations" where
  "broaden_after_discovery store s batch settle = broaden store s settle (transactions s) batch"

text \<open>The reports that can be decided, the verdicts on them, and whether one cannot be decided yet.\<close>

primrec judge_reports ::
    "'e MigrationStore \<Rightarrow> ReorgSettleDepth \<Rightarrow> MigrationTransaction list
     \<Rightarrow> 'e + MigrationTransferId list \<times> determinations \<times> bool" where
  "judge_reports store settle [] = Inr ([], [], False)"
| "judge_reports store settle (t # ts) =
     (case broadcast_failure_at t of
        None \<Rightarrow> judge_reports store settle ts
      | Some reported_tip \<Rightarrow>
          bind_result (check_step_satisfiability store t settle) (\<lambda>answer.
          bind_result (judge_reports store settle ts) (\<lambda>(adjudicated, verdicts, pending).
            if as_of_height answer < reported_tip then Inr (adjudicated, verdicts, True)
            else Inr (tx_id t # adjudicated,
              (if records_a_determination answer then [(tx_id t, answer)] else []) @ verdicts, pending))))"

definition record_verdicts ::
    "'e MigrationStore \<Rightarrow> ReorgSettleDepth \<Rightarrow> DuenessTargets \<Rightarrow> determinations \<Rightarrow> MigrationState
     \<Rightarrow> ('e + MigrationState) option" where
  "record_verdicts store settle targets verdicts s =
     (if verdicts = [] then Some (Inr s)
      else case broaden_after_discovery store s verdicts settle of
        Inl e \<Rightarrow> Some (Inl e)
      | Inr batch \<Rightarrow> map_option Inr (record_satisfiability targets batch s))"

text \<open>The state, whether it was changed, and whether a reevaluation is pending.\<close>

definition adjudicate_reports ::
    "'e MigrationStore \<Rightarrow> ReorgSettleDepth \<Rightarrow> DuenessTargets \<Rightarrow> MigrationState
     \<Rightarrow> ('e + MigrationState \<times> bool \<times> bool) option" where
  "adjudicate_reports store settle targets s =
     (if is_terminal s then Some (Inr (s, False, False))
      else case judge_reports store settle (transactions s) of
        Inl e \<Rightarrow> Some (Inl e)
      | Inr (adjudicated, verdicts, pending) \<Rightarrow>
          Option.bind (record_verdicts store settle targets verdicts s) (\<lambda>r. case r of
            Inl e \<Rightarrow> Some (Inl e)
          | Inr s' \<Rightarrow> Some (Inr (fold clear_broadcast_failure adjudicated s', adjudicated \<noteq> [], pending))))"

section \<open>Plan, verify, record\<close>

record LoopState =
  loop_migration :: MigrationState
  loop_rng :: rng
  set_aside :: "MigrationTransferId list"
  dirty :: bool

datatype 'e iteration =
    Surfaced AdvanceStep LoopState
  | Again LoopState
  | Stopped 'e

fun step_candidates :: "AdvanceStep \<Rightarrow> MigrationTransferId list option" where
  "step_candidates (StepProve ts) = Some (map target_id ts)"
| "step_candidates (StepBroadcast i) = Some [i]"
| "step_candidates (StepRebuild i) = Some [i]"
| "step_candidates _ = None"

type_synonym schedule_entry = "MigrationTransferId \<times> u32 \<times> u32 option"

primrec schedule_data :: "MigrationState \<Rightarrow> MigrationTransferId list \<Rightarrow> schedule_entry list option" where
  "schedule_data s [] = Some []"
| "schedule_data s (i # is) =
     (case find_transaction s i of
        None \<Rightarrow> None
      | Some t \<Rightarrow> map_option (Cons (i, scheduled_height t, anchor_boundary t)) (schedule_data s is))"

fun overdue_from :: "AdvanceStep \<Rightarrow> schedule_entry \<Rightarrow> u32 \<times> u32" where
  "overdue_from (StepProve ts) (i, scheduled, Some boundary) =
     (max scheduled (boundary + PROVABLE_ANCHOR_DEPTH + 1), scheduled)"
| "overdue_from step (i, scheduled, boundary) = (scheduled, scheduled)"

text \<open>The lag to shift the schedule by.\<close>

definition overdue_shift :: "AdvanceStep \<Rightarrow> schedule_entry list \<Rightarrow> u32 \<Rightarrow> u32 \<Rightarrow> u32 option" where
  "overdue_shift step entries tolerance served =
     (case step of
        StepRebuild i \<Rightarrow> None
      | _ \<Rightarrow>
          if entries = [] then None
          else let (from, scheduled) = Min (set (map (overdue_from step) entries)) in
            if word_saturating_add from tolerance < served then Some (served - scheduled) else None)"

text \<open>
  The answers for the candidates: those kept, those deferred and the discoveries; \<open>None\<close> if a candidate
  is not a transaction of the state.
\<close>

primrec verify ::
    "'e MigrationStore \<Rightarrow> ReorgSettleDepth \<Rightarrow> MigrationState \<Rightarrow> MigrationTransferId list
     \<Rightarrow> 'e + (MigrationTransferId list \<times> MigrationTransferId list \<times> determinations) option" where
  "verify store settle s [] = Inr (Some ([], [], []))"
| "verify store settle s (i # is) =
     (case find_transaction s i of
        None \<Rightarrow> Inr None
      | Some t \<Rightarrow>
          bind_result (check_step_satisfiability store t settle) (\<lambda>answer.
          bind_result (verify store settle s is) (\<lambda>r. Inr (map_option (\<lambda>(kept, deferred, discoveries).
            case answer of
              Satisfiable h \<Rightarrow> (i # kept, deferred, discoveries)
            | NotYetSatisfiable h \<Rightarrow> (kept, i # deferred, discoveries)
            | Unsatisfiable c h \<Rightarrow>
                if records_a_determination answer then (kept, deferred, (i, answer) # discoveries)
                else (i # kept, deferred, discoveries)) r))))"

definition after_verification ::
    "'e MigrationStore \<Rightarrow> ReorgSettleDepth \<Rightarrow> DuenessTargets \<Rightarrow> LoopState \<Rightarrow> AdvanceStep
     \<Rightarrow> MigrationTransferId list \<Rightarrow> MigrationTransferId list \<Rightarrow> determinations \<Rightarrow> 'e iteration option" where
  "after_verification store settle targets ls step kept deferred discoveries =
     (let ls' = ls\<lparr>set_aside := set_aside ls @ deferred\<rparr> in
      if discoveries \<noteq> [] then
        (case broaden_after_discovery store (loop_migration ls) discoveries settle of
           Inl e \<Rightarrow> Some (Stopped e)
         | Inr batch \<Rightarrow>
             map_option (\<lambda>s. Again (ls'\<lparr>loop_migration := s, dirty := True\<rparr>))
               (record_satisfiability targets batch (loop_migration ls)))
      else if deferred = [] then Some (Surfaced step ls')
      else case step of
        StepProve ts \<Rightarrow>
          if kept \<noteq> [] then Some (Surfaced (StepProve (filter (\<lambda>x. target_id x \<in> set kept) ts)) ls')
          else Some (Again ls')
      | _ \<Rightarrow> Some (Again ls'))"

definition plan_iteration ::
    "'e MigrationStore \<Rightarrow> ReorgSettleDepth \<Rightarrow> DuenessTargets \<Rightarrow> u32 \<Rightarrow> LoopState \<Rightarrow> 'e iteration option" where
  "plan_iteration store settle targets tolerance ls =
     (let s = loop_migration ls; step = next_step s targets (set_aside ls) in
      case step_candidates step of
        None \<Rightarrow> Some (Surfaced step ls)
      | Some named \<Rightarrow>
          (case schedule_data s named of
             None \<Rightarrow> Some (Surfaced StepWaiting ls)
           | Some entries \<Rightarrow>
               (case overdue_shift step entries tolerance (effective targets) of
                  Some delta \<Rightarrow>
                    map_option (\<lambda>(s', rng'). Again (ls\<lparr>loop_migration := s', loop_rng := rng', dirty := True\<rparr>))
                      (shift_schedule delta s (loop_rng ls))
                | None \<Rightarrow>
                    (case verify store settle s (map fst entries) of
                       Inl e \<Rightarrow> Some (Stopped e)
                     | Inr None \<Rightarrow> Some (Surfaced StepWaiting ls)
                     | Inr (Some (kept, deferred, discoveries)) \<Rightarrow>
                         after_verification store settle targets ls step kept deferred discoveries))))"

partial_function (option) plan_loop ::
    "'e MigrationStore \<Rightarrow> ReorgSettleDepth \<Rightarrow> DuenessTargets \<Rightarrow> u32 \<Rightarrow> LoopState \<Rightarrow> ('e + AdvanceStep \<times> LoopState) option" where
  "plan_loop store settle targets tolerance ls =
     Option.bind (plan_iteration store settle targets tolerance ls) (\<lambda>it. case it of
       Surfaced step ls' \<Rightarrow> Some (Inr (step, ls'))
     | Again ls' \<Rightarrow> plan_loop store settle targets tolerance ls'
     | Stopped e \<Rightarrow> Some (Inl e))"

section \<open>The drive API\<close>

definition prove_all :: "ProveTarget list \<Rightarrow> MigrationState \<Rightarrow> MigrationState" where
  "prove_all ts s = s\<lparr>transactions :=
     map (\<lambda>t. if list_ex (\<lambda>x. target_id x = tx_id t) ts then t\<lparr>tx_state := Proved\<rparr> else t) (transactions s)\<rparr>"

fun upcoming_after ::
    "MigrationState \<Rightarrow> AdvanceStep \<Rightarrow> DuenessTargets \<Rightarrow> MigrationTransferId list \<Rightarrow> (BlockHeight \<times> StepKind) option" where
  "upcoming_after s StepWaiting targets aside = upcoming_step s targets aside"
| "upcoming_after s (StepProve ts) targets aside = upcoming_step (prove_all ts s) targets aside"
| "upcoming_after s (StepBroadcast i) targets aside = upcoming_step (mark_broadcast i s) targets aside"
| "upcoming_after s _ targets aside = None"

record Advance =
  advance_step :: AdvanceStep
  advance_next :: "(BlockHeight \<times> StepKind) option"

text \<open>What a call returns: the decision, the state, the random numbers left, and the state written, if any.\<close>

record Advanced =
  decision :: Advance
  migration :: MigrationState
  rng_left :: rng
  written :: "MigrationState option"

definition write_back ::
    "'e MigrationStore \<Rightarrow> bool \<Rightarrow> Advance \<Rightarrow> MigrationState \<Rightarrow> rng \<Rightarrow> 'e + Advanced" where
  "write_back store is_dirty a s rng =
     (if is_dirty then bind_result (replace_migration store s)
        (\<lambda>_. Inr \<lparr>decision = a, migration = s, rng_left = rng, written = Some s\<rparr>)
      else Inr \<lparr>decision = a, migration = s, rng_left = rng, written = None\<rparr>)"

definition advance_migration ::
    "'e MigrationStore \<Rightarrow> MigrationState \<Rightarrow> DuenessTargets \<Rightarrow> ReorgSettleDepth \<Rightarrow> rng \<Rightarrow> ('e + Advanced) option" where
  "advance_migration store s targets settle rng =
     (case in_flight_sweep store settle (transactions s) of
        Inl e \<Rightarrow> Some (Inl e)
      | Inr (unrecorded, mined, findings) \<Rightarrow>
          Option.bind (record_findings targets findings (promote unrecorded mined s)) (\<lambda>s1.
          Option.bind (adjudicate_reports store settle targets s1) (\<lambda>r. case r of
            Inl e \<Rightarrow> Some (Inl e)
          | Inr (s2, adjudicated, pending) \<Rightarrow>
              let changed = (unrecorded \<noteq> [] \<or> mined \<noteq> [] \<or> findings \<noteq> [] \<or> adjudicated) in
              if pending then
                Some (write_back store changed \<lparr>advance_step = StepReevaluate, advance_next = None\<rparr> s2 rng)
              else
                let tolerance = overdue_shift_tolerance
                      (transfer_delay (new_with_default_distributions (committed_interval s2)))
                in Option.bind (plan_loop store settle targets tolerance
                     \<lparr>loop_migration = s2, loop_rng = rng, set_aside = [], dirty = changed\<rparr>) (\<lambda>r. case r of
                       Inl e \<Rightarrow> Some (Inl e)
                     | Inr (st, ls) \<Rightarrow>
                         Some (write_back store (dirty ls)
                           \<lparr>advance_step = st, advance_next = upcoming_after (loop_migration ls) st targets (set_aside ls)\<rparr>
                           (loop_migration ls) (loop_rng ls))))))"

end
