(* ===== verification/MigrationAdvance.thy ===== *)
theory MigrationAdvance
  imports MigrationDrive
begin

text \<open>
  The drive API is sound and returns: what it does to the migration is a run of the kernel's
  operations, what it surfaces the store has vouched for, and its loop ends.
\<close>

section \<open>A call is a run of the kernel's operations\<close>

lemma step_then: "migration_step a b \<Longrightarrow> migration_step\<^sup>*\<^sup>* b c \<Longrightarrow> migration_step\<^sup>*\<^sup>* a c"
  by (rule converse_rtranclp_into_rtranclp)

lemma promote_steps: "migration_step\<^sup>*\<^sup>* s (promote unrecorded mined s)"
proof -
  have m: "migration_step\<^sup>*\<^sup>* s (fold (\<lambda>(i, h). mark_mined i h) ms s)" for ms s
    by (induction ms arbitrary: s) (auto intro: step_then [OF migration_step.mined])
  have u: "migration_step\<^sup>*\<^sup>* s (fold (\<lambda>(i, h) s. mark_mined i h (mark_broadcast i s)) us s)" for us s
    by (induction us arbitrary: s)
      (auto intro: step_then [OF migration_step.submitted step_then [OF migration_step.mined]])
  show ?thesis unfolding promote_def using rtranclp_trans [OF u m] .
qed

lemma clear_steps: "migration_step\<^sup>*\<^sup>* s (fold clear_broadcast_failure is s)"
  by (induction "is" arbitrary: s) (auto intro: step_then [OF migration_step.adjudicated])

lemma record_findings_steps: "record_findings targets findings s = Some s' \<Longrightarrow> migration_step\<^sup>*\<^sup>* s s'"
  by (auto simp: record_findings_def split: if_splits intro: migration_step.recorded)

lemma record_verdicts_steps:
  "record_verdicts store settle targets verdicts s = Some (Inr s') \<Longrightarrow> migration_step\<^sup>*\<^sup>* s s'"
  by (auto simp: record_verdicts_def split: if_splits sum.splits intro: migration_step.recorded)

lemma adjudicate_cases:
  assumes "adjudicate_reports store settle targets s = Some (Inr (s', changed, pending))"
  obtains (terminal) "is_terminal s" "s' = s" "\<not> changed" "\<not> pending"
  | (judged) adjudicated verdicts s1 where "\<not> is_terminal s"
      "judge_reports store settle (transactions s) = Inr (adjudicated, verdicts, pending)"
      "record_verdicts store settle targets verdicts s = Some (Inr s1)"
      "s' = fold clear_broadcast_failure adjudicated s1" "changed \<longleftrightarrow> adjudicated \<noteq> []"
proof (cases "is_terminal s")
  case True
  with assms show ?thesis by (intro terminal) (simp_all add: adjudicate_reports_def)
next
  case False
  then obtain a v p where j: "judge_reports store settle (transactions s) = Inr (a, v, p)"
    using assms by (auto simp: adjudicate_reports_def split: sum.split_asm)
  then obtain r where r: "record_verdicts store settle targets v s = Some r"
    and rest: "(case r of Inl e \<Rightarrow> Some (Inl e) | Inr s1 \<Rightarrow> Some (Inr (fold clear_broadcast_failure a s1, a \<noteq> [], p))) =
      Some (Inr (s', changed, pending))"
    using assms False by (auto simp: adjudicate_reports_def bind_eq_Some_conv)
  from rest obtain s1 where "r = Inr s1" by (cases r) auto
  with False j r rest show ?thesis by (intro judged [of a v s1]) auto
qed

lemma adjudicate_steps:
  assumes "adjudicate_reports store settle targets s = Some (Inr (s', changed, pending))"
  shows "migration_step\<^sup>*\<^sup>* s s'"
  using assms
  by (cases rule: adjudicate_cases) (auto intro: rtranclp_trans [OF record_verdicts_steps clear_steps])

lemma judge_none: "judge_reports store settle ts = Inr ([], verdicts, pending) \<Longrightarrow> verdicts = []"
  by (induction ts arbitrary: verdicts pending)
    (auto simp: bind_result_Inr split: option.split_asm if_splits prod.split_asm)

lemma adjudicate_unchanged:
  assumes "adjudicate_reports store settle targets s = Some (Inr (s', False, pending))"
  shows "s' = s"
  using assms
proof (cases rule: adjudicate_cases)
  case (judged adjudicated verdicts s1)
  then have "adjudicated = []" "verdicts = []" using judge_none by auto
  with judged(3,4) show ?thesis by (simp add: record_verdicts_def)
qed

section \<open>An iteration\<close>

definition vouched :: "'e MigrationStore \<Rightarrow> ReorgSettleDepth \<Rightarrow> MigrationTransaction \<Rightarrow> bool" where
  "vouched store settle t \<longleftrightarrow>
     (\<exists>h. check_step_satisfiability store t settle = Inr (Satisfiable h) \<or>
       check_step_satisfiability store t settle = Inr (Unsatisfiable Expired h))"

lemma records_iff: "records_a_determination a \<longleftrightarrow> answer_mark a \<noteq> None"
  by (cases a rule: records_a_determination.cases) (auto simp: cause_marks_def)

lemma cause_marks_iff: "cause_marks c \<longleftrightarrow> c \<noteq> Expired"
  by (cases c) (auto simp: cause_marks_def)

lemma verify_result:
  assumes "verify store settle s is = Inr (Some (ks, ds, xs))"
  shows "(\<forall>i\<in>set ks. \<exists>t. find_transaction s i = Some t \<and> vouched store settle t) \<and> set ks \<subseteq> set is \<and>
    set ds \<subseteq> set is \<and> (\<forall>(i, a)\<in>set xs. i \<in> set is \<and> records_a_determination a) \<and>
    (xs = [] \<longrightarrow> set is \<subseteq> set ks \<union> set ds)"
  using assms
proof (induction "is" arbitrary: ks ds xs)
  case (Cons i is')
  then obtain t a ks' ds' xs' where t: "find_transaction s i = Some t"
      "check_step_satisfiability store t settle = Inr a" "verify store settle s is' = Inr (Some (ks', ds', xs'))"
    and r: "(case a of
        Satisfiable h \<Rightarrow> (i # ks', ds', xs')
      | NotYetSatisfiable h \<Rightarrow> (ks', i # ds', xs')
      | Unsatisfiable c h \<Rightarrow>
          if records_a_determination a then (ks', ds', (i, a) # xs') else (i # ks', ds', xs')) = (ks, ds, xs)"
    by (auto simp: bind_result_Inr split: option.splits)
  note ih = Cons.IH [OF t(3)]
  show ?case
  proof (cases a)
    case (Satisfiable h)
    then have "vouched store settle t" using t(2) by (auto simp: vouched_def)
    with Satisfiable ih r t(1) show ?thesis by auto
  next
    case (NotYetSatisfiable h)
    with ih r show ?thesis by auto
  next
    case (Unsatisfiable c h)
    then have "\<not> records_a_determination a \<Longrightarrow> vouched store settle t"
      using t(2) by (auto simp: vouched_def cause_marks_iff)
    with Unsatisfiable ih r t(1) show ?thesis by (cases "records_a_determination a") auto
  qed
qed simp

lemma broaden_extends: "broaden store s settle ts batch = Inr batch' \<Longrightarrow> \<exists>more. batch' = batch @ more"
proof (induction ts arbitrary: batch)
  case (Cons t ts)
  show ?case
  proof (cases "needs_broadening s batch t")
    case True
    with Cons.prems obtain a where
      "broaden store s settle ts (if records_a_determination a then batch @ [(tx_id t, a)] else batch) = Inr batch'"
      by (auto simp: bind_result_Inr)
    from Cons.IH [OF this] show ?thesis by (auto split: if_splits)
  qed (use Cons in simp)
qed simp

lemma after_verification_cases:
  assumes "after_verification store settle targets ls st ks ds xs = Some it"
  obtains (error) e where "it = Stopped e"
  | (recorded) batch s' where "xs \<noteq> []" "broaden_after_discovery store (loop_migration ls) xs settle = Inr batch"
      "record_satisfiability targets batch (loop_migration ls) = Some s'"
      "it = Again (ls\<lparr>set_aside := set_aside ls @ ds, loop_migration := s', dirty := True\<rparr>)"
  | (stands) "xs = []" "ds = []" "it = Surfaced st ls"
  | (reduced) ts where "xs = []" "ds \<noteq> []" "st = StepProve ts" "ks \<noteq> []"
      "it = Surfaced (StepProve (filter (\<lambda>x. target_id x \<in> set ks) ts)) (ls\<lparr>set_aside := set_aside ls @ ds\<rparr>)"
  | (deferred) "xs = []" "ds \<noteq> []" "it = Again (ls\<lparr>set_aside := set_aside ls @ ds\<rparr>)"
proof (cases "xs = []")
  case False
  with assms show ?thesis
    by (auto simp: after_verification_def Let_def split: sum.split_asm intro: error recorded)
next
  case xs: True
  show ?thesis
  proof (cases "ds = []")
    case True
    with xs assms show ?thesis by (intro stands) (simp_all add: after_verification_def Let_def)
  next
    case ds: False
    show ?thesis
    proof (cases "\<exists>ts. st = StepProve ts \<and> ks \<noteq> []")
      case True
      with xs ds assms show ?thesis by (auto simp: after_verification_def Let_def intro: reduced)
    next
      case False
      with xs ds assms have "it = Again (ls\<lparr>set_aside := set_aside ls @ ds\<rparr>)"
        by (cases st) (auto simp: after_verification_def Let_def)
      with xs ds show ?thesis by (rule deferred)
    qed
  qed
qed

lemma schedule_data_ids: "schedule_data s named = Some entries \<Longrightarrow> map fst entries = named"
  by (induction named arbitrary: entries) (auto split: option.split_asm)

lemma schedule_data_None: "schedule_data s named = None \<Longrightarrow> \<exists>i\<in>set named. find_transaction s i = None"
  by (induction named) (auto split: option.split_asm)

lemma schedule_data_entry:
  "schedule_data s named = Some entries \<Longrightarrow> (i, h, b) \<in> set entries \<Longrightarrow>
   i \<in> set named \<and> (\<exists>t. find_transaction s i = Some t \<and> h = scheduled_height t \<and> b = anchor_boundary t)"
  by (induction named arbitrary: entries) (auto split: option.split_asm)

lemma verify_None: "verify store settle s named = Inr None \<Longrightarrow> \<exists>i\<in>set named. find_transaction s i = None"
  by (induction named) (auto simp: bind_result_Inr split: option.split_asm)

lemma plan_iteration_cases:
  fixes ls targets
  defines "st \<equiv> next_step (loop_migration ls) targets (set_aside ls)"
  assumes "plan_iteration store settle targets tolerance ls = Some it"
  obtains (nameless) "step_candidates st = None" "it = Surfaced st ls"
  | (corrupt) named i where "step_candidates st = Some named" "i \<in> set named"
      "find_transaction (loop_migration ls) i = None" "it = Surfaced StepWaiting ls"
  | (shifted) named entries delta s' rng' where "step_candidates st = Some named"
      "schedule_data (loop_migration ls) named = Some entries"
      "overdue_shift st entries tolerance (effective targets) = Some delta"
      "shift_schedule delta (loop_migration ls) (loop_rng ls) = Some (s', rng')"
      "it = Again (ls\<lparr>loop_migration := s', loop_rng := rng', dirty := True\<rparr>)"
  | (error) e where "it = Stopped e"
  | (verified) named entries ks ds xs where "step_candidates st = Some named"
      "schedule_data (loop_migration ls) named = Some entries"
      "overdue_shift st entries tolerance (effective targets) = None"
      "verify store settle (loop_migration ls) named = Inr (Some (ks, ds, xs))"
      "after_verification store settle targets ls st ks ds xs = Some it"
proof -
  let ?s = "loop_migration ls"
  have it: "(case step_candidates st of
        None \<Rightarrow> Some (Surfaced st ls)
      | Some named \<Rightarrow>
          (case schedule_data ?s named of
             None \<Rightarrow> Some (Surfaced StepWaiting ls)
           | Some entries \<Rightarrow>
               (case overdue_shift st entries tolerance (effective targets) of
                  Some delta \<Rightarrow>
                    map_option (\<lambda>(s', rng'). Again (ls\<lparr>loop_migration := s', loop_rng := rng', dirty := True\<rparr>))
                      (shift_schedule delta ?s (loop_rng ls))
                | None \<Rightarrow>
                    (case verify store settle ?s (map fst entries) of
                       Inl e \<Rightarrow> Some (Stopped e)
                     | Inr None \<Rightarrow> Some (Surfaced StepWaiting ls)
                     | Inr (Some (ks, ds, xs)) \<Rightarrow> after_verification store settle targets ls st ks ds xs)))) = Some it"
    using assms(2) by (simp only: plan_iteration_def st_def Let_def)
  show ?thesis
  proof (cases "step_candidates st")
    case None
    with it show ?thesis by (intro nameless) simp_all
  next
    case named: (Some named)
    show ?thesis
    proof (cases "schedule_data ?s named")
      case None
      then obtain i where "i \<in> set named" "find_transaction ?s i = None" using schedule_data_None by blast
      with named None it show ?thesis by (intro corrupt [of named i]) simp_all
    next
      case entries: (Some entries)
      have ids: "map fst entries = named" by (rule schedule_data_ids [OF entries])
      show ?thesis
      proof (cases "overdue_shift st entries tolerance (effective targets)")
        case (Some delta)
        with it named entries obtain s' rng' where "shift_schedule delta ?s (loop_rng ls) = Some (s', rng')"
          "it = Again (ls\<lparr>loop_migration := s', loop_rng := rng', dirty := True\<rparr>)" by auto
        with named entries Some show ?thesis by (intro shifted)
      next
        case none: None
        show ?thesis
        proof (cases "verify store settle ?s named")
          case (Inl e)
          with it named entries none ids show ?thesis by (intro error [of e]) simp
        next
          case (Inr r)
          show ?thesis
          proof (cases r)
            case None
            then obtain i where "i \<in> set named" "find_transaction ?s i = None" using verify_None Inr by blast
            then show ?thesis using it named entries none ids Inr None by (intro corrupt [of named i]) simp_all
          next
            case (Some res)
            obtain ks ds xs where "res = (ks, ds, xs)" by (metis prod_cases3)
            with it named entries none ids Inr Some show ?thesis by (intro verified) simp_all
          qed
        qed
      qed
    qed
  qed
qed

text \<open>An invariant of the iterations holds where the loop surfaces a step.\<close>

lemma plan_loop_induct:
  assumes "plan_loop store settle targets tolerance ls = Some r"
  shows "I ls \<longrightarrow> r = Inr (st, ls') \<longrightarrow>
    (\<forall>ls ls'. I ls \<and> plan_iteration store settle targets tolerance ls = Some (Again ls') \<longrightarrow> I ls') \<longrightarrow>
    (\<exists>ls0. I ls0 \<and> plan_iteration store settle targets tolerance ls0 = Some (Surfaced st ls'))"
proof (rule plan_loop.raw_induct [OF _ assms], intro impI)
  fix rec store settle targets tolerance ls r
  assume ih: "\<And>store settle targets tolerance ls r. rec store settle targets tolerance ls = Some r \<Longrightarrow>
      I ls \<longrightarrow> r = Inr (st, ls') \<longrightarrow>
      (\<forall>ls ls'. I ls \<and> plan_iteration store settle targets tolerance ls = Some (Again ls') \<longrightarrow> I ls') \<longrightarrow>
      (\<exists>ls0. I ls0 \<and> plan_iteration store settle targets tolerance ls0 = Some (Surfaced st ls'))"
    and body: "Option.bind (plan_iteration store settle targets tolerance ls) (\<lambda>it. case it of
        Surfaced st' ls' \<Rightarrow> Some (Inr (st', ls'))
      | Again ls' \<Rightarrow> rec store settle targets tolerance ls'
      | Stopped e \<Rightarrow> Some (Inl e)) = Some r"
    and i: "I ls" and r: "r = Inr (st, ls')"
    and closed: "\<forall>ls ls'. I ls \<and> plan_iteration store settle targets tolerance ls = Some (Again ls') \<longrightarrow> I ls'"
  from body obtain it where it: "plan_iteration store settle targets tolerance ls = Some it"
    and c: "(case it of Surfaced st' ls' \<Rightarrow> Some (Inr (st', ls'))
      | Again ls' \<Rightarrow> rec store settle targets tolerance ls'
      | Stopped e \<Rightarrow> Some (Inl e)) = Some r"
    by (auto simp: bind_eq_Some_conv)
  show "\<exists>ls0. I ls0 \<and> plan_iteration store settle targets tolerance ls0 = Some (Surfaced st ls')"
  proof (cases it)
    case (Surfaced st' ls'')
    with c it i r show ?thesis by auto
  next
    case (Again ls'')
    then have rc: "rec store settle targets tolerance ls'' = Some r" using c by simp
    have "I ls''" using closed i it Again by blast
    with ih [OF rc] r closed show ?thesis by blast
  next
    case (Stopped e)
    then show ?thesis using c r by simp
  qed
qed

lemma plan_loop_rule:
  assumes "plan_loop store settle targets tolerance ls = Some (Inr (st, ls'))" "I ls"
    and "\<And>ls ls'. I ls \<Longrightarrow> plan_iteration store settle targets tolerance ls = Some (Again ls') \<Longrightarrow> I ls'"
  obtains ls0 where "I ls0" "plan_iteration store settle targets tolerance ls0 = Some (Surfaced st ls')"
  using plan_loop_induct [OF assms(1), of I st ls'] assms(2,3) by blast

text \<open>What the kernel names is a transaction of the state, unmined, unmarked and not set aside.\<close>

lemma named_transaction:
  assumes "ids_distinct s" "step_candidates (next_step s targets aside) = Some named" "i \<in> set named"
  obtains t where "t \<in> set (transactions s)" "tx_id t = i" "find_transaction s i = Some t" "i \<notin> set aside"
    "\<not> is_mined (tx_state t)" "unsatisfiable t = None"
    "next_step s targets aside = StepRebuild i \<or> \<not> is_started (tx_state t)"
proof -
  have "\<exists>t\<in>set (transactions s). tx_id t = i \<and> i \<notin> set aside \<and> \<not> is_mined (tx_state t) \<and> unsatisfiable t = None \<and>
      (next_step s targets aside = StepRebuild i \<or> \<not> is_started (tx_state t))"
  proof (cases rule: next_step_cases [of s targets aside])
    case (broadcast t)
    then have "tx_state t = Proved" "tx_id t \<notin> dead_set s targets" "tx_id t \<notin> set aside"
      by (simp_all add: broadcastable_def)
    moreover have "i = tx_id t" using assms(2,3) broadcast(5) by auto
    ultimately show ?thesis using dead_iff [OF assms(1) broadcast(2), of targets] broadcast(2)
      by (intro bexI [of _ t]) auto
  next
    case prove
    then obtain x where x: "x \<in> set (provable_targets s targets (dead_set s targets) aside)" "i = target_id x"
      using assms(2,3) by auto
    then obtain t where t: "t \<in> set (transactions s)" "x = prove_target t" "provable s targets (dead_set s targets) aside t"
      unfolding set_provable_targets by blast
    then have "tx_state t = Signed" "tx_id t \<notin> dead_set s targets" "tx_id t \<notin> set aside" by (simp_all add: provable_def)
    moreover have "i = tx_id t" using x(2) t(2) by (simp add: prove_target_def)
    ultimately show ?thesis using dead_iff [OF assms(1) t(1), of targets] t(1)
      by (intro bexI [of _ t]) auto
  next
    case (rebuild t)
    then have "is_expired t (scanned targets)" "unsatisfiable t = None" "tx_id t \<notin> set aside"
      by (simp_all add: rebuildable_def)
    moreover have "i = tx_id t" using assms(2,3) rebuild(8) by auto
    ultimately show ?thesis using rebuild(5,8) by (intro bexI [of _ t]) (auto simp: is_expired_def)
  qed (use assms(2) in \<open>auto split: if_splits\<close>)
  then show ?thesis using find_transaction_eq [OF assms(1)] that by blast
qed

lemma candidates_step: "step_candidates st = Some named \<Longrightarrow> overdue_shift st entries tolerance served = Some delta \<Longrightarrow> st \<noteq> StepRebuild i"
  by (auto simp: overdue_shift_def)

section \<open>What the loop keeps\<close>

definition reached_from :: "LoopState \<Rightarrow> LoopState \<Rightarrow> bool" where
  "reached_from ls ls' \<longleftrightarrow> migration_step\<^sup>*\<^sup>* (loop_migration ls) (loop_migration ls') \<and>
     (\<not> dirty ls' \<longrightarrow> \<not> dirty ls \<and> loop_migration ls' = loop_migration ls)"

lemma reached_refl: "reached_from ls ls"
  by (simp add: reached_from_def)

lemma iteration_reached:
  assumes "reached_from ls ls1" "plan_iteration store settle targets tolerance ls1 = Some (Again ls2)"
  shows "reached_from ls ls2"
proof -
  have "migration_step\<^sup>*\<^sup>* (loop_migration ls1) (loop_migration ls2) \<and>
      (\<not> dirty ls2 \<longrightarrow> \<not> dirty ls1 \<and> loop_migration ls2 = loop_migration ls1)"
    using assms(2)
  proof (cases rule: plan_iteration_cases)
    case (shifted named entries delta s' rng')
    then show ?thesis using migration_step.shifted by auto
  next
    case (verified named entries ks ds xs)
    from verified(5) show ?thesis
      by (cases rule: after_verification_cases) (auto intro: migration_step.recorded)
  qed simp_all
  with assms(1) show ?thesis unfolding reached_from_def by (auto intro: rtranclp_trans)
qed

definition candidates_vouched ::
    "'e MigrationStore \<Rightarrow> ReorgSettleDepth \<Rightarrow> MigrationState \<Rightarrow> AdvanceStep \<Rightarrow> bool" where
  "candidates_vouched store settle s st \<longleftrightarrow>
     (\<forall>named. step_candidates st = Some named \<longrightarrow>
       (\<forall>i\<in>set named. \<exists>t. find_transaction s i = Some t \<and> vouched store settle t))"

lemma iteration_surfaced:
  assumes "plan_iteration store settle targets tolerance ls = Some (Surfaced st ls')" "ids_distinct (loop_migration ls)"
  shows "loop_migration ls' = loop_migration ls \<and> dirty ls' = dirty ls \<and>
    candidates_vouched store settle (loop_migration ls) st \<and>
    (next_step (loop_migration ls) targets (set_aside ls) = st \<or>
     (\<exists>all ts. next_step (loop_migration ls) targets (set_aside ls) = StepProve all \<and> st = StepProve ts \<and>
        ts \<noteq> [] \<and> set ts \<subseteq> set all))"
  using assms(1)
proof (cases rule: plan_iteration_cases)
  case nameless
  then show ?thesis by (simp add: candidates_vouched_def)
next
  case (corrupt named i)
  then show ?thesis using named_transaction [OF assms(2) corrupt(1,2)] by (metis option.distinct(1))
next
  case (verified named entries ks ds xs)
  note v = verify_result [OF verified(4)]
  from verified(5) show ?thesis
  proof (cases rule: after_verification_cases)
    case stands
    then have "set named \<subseteq> set ks" using v by auto
    then show ?thesis using stands v verified(1) by (auto simp: candidates_vouched_def)
  next
    case (reduced all)
    let ?ts = "filter (\<lambda>x. target_id x \<in> set ks) all"
    have st: "st = StepProve ?ts" "ls' = ls\<lparr>set_aside := set_aside ls @ ds\<rparr>" using reduced(5) by simp_all
    have named: "named = map target_id all" using verified(1) reduced(3) by simp
    obtain k where "k \<in> set ks" using reduced(4) by (cases ks) auto
    moreover from this have "k \<in> set named" using v by blast
    ultimately have "?ts \<noteq> []" unfolding named by (auto simp: filter_empty_conv)
    moreover have "candidates_vouched store settle (loop_migration ls) st"
      using v by (auto simp: st(1) candidates_vouched_def)
    ultimately show ?thesis using st reduced(3) by auto
  qed simp_all
qed simp_all

end
