(* ===== verification/MigrationReturns.thy ===== *)
theory MigrationReturns
  imports MigrationAdvance
begin

section \<open>The loop ends\<close>

definition lag :: "MigrationTransaction \<Rightarrow> nat" where
  "lag t = (if is_started (tx_state t) then 0 else 2 ^ 32 - unat (scheduled_height t))"

definition loop_measure :: "LoopState \<Rightarrow> nat" where
  "loop_measure ls = unmarked_count (loop_migration ls) +
     card (tx_id ` set (transactions (loop_migration ls)) - set (set_aside ls)) +
     sum_list (map lag (transactions (loop_migration ls)))"

lemma sum_list_all2_le:
  fixes f :: "'a \<Rightarrow> nat"
  shows "list_all2 (\<lambda>x y. f y \<le> f x) xs ys \<Longrightarrow> sum_list (map f ys) \<le> sum_list (map f xs)"
  by (induction rule: list_all2_induct) auto

lemma sum_list_all2_less:
  fixes f :: "'a \<Rightarrow> nat"
  shows "list_all2 (\<lambda>x y. f y \<le> f x \<and> (x = z \<longrightarrow> f y < f x)) xs ys \<Longrightarrow> z \<in> set xs \<Longrightarrow>
    sum_list (map f ys) < sum_list (map f xs)"
proof (induction rule: list_all2_induct)
  case (Cons x xs y ys)
  have "list_all2 (\<lambda>x y. f y \<le> f x) xs ys" using Cons.hyps(2) by (rule list_all2_mono) simp
  from sum_list_all2_le [OF this] show ?case using Cons by auto
qed simp

lemma length_filter_all2:
  "list_all2 (\<lambda>x y. P y \<longrightarrow> P x) xs ys \<Longrightarrow> length (filter P ys) \<le> length (filter P xs)"
  by (induction rule: list_all2_induct) auto

lemma length_filter_all2_less:
  "list_all2 (\<lambda>x y. (P y \<longrightarrow> P x) \<and> (x = z \<longrightarrow> \<not> P y)) xs ys \<Longrightarrow> z \<in> set xs \<Longrightarrow> P z \<Longrightarrow>
    length (filter P ys) < length (filter P xs)"
proof (induction rule: list_all2_induct)
  case (Cons x xs y ys)
  have "list_all2 (\<lambda>x y. P y \<longrightarrow> P x) xs ys" using Cons.hyps(2) by (rule list_all2_mono) simp
  from length_filter_all2 [OF this] show ?case using Cons by (auto simp: less_Suc_eq_le)
qed simp

lemma ids_all2: "list_all2 (\<lambda>t t'. tx_id t' = tx_id t) ts ts' \<Longrightarrow> map tx_id ts' = map tx_id ts"
  by (induction rule: list_all2_induct) auto

text \<open>A shift leaves ids and marks and brings every pending schedule nearer to the last height.\<close>

lemma shift_transaction_moves:
  "shift_transaction interval delta t rng = Some (t', rng') \<Longrightarrow>
   tx_id t' = tx_id t \<and> tx_state t' = tx_state t \<and> unsatisfiable t' = unsatisfiable t \<and>
   scheduled_height t' = (if is_started (tx_state t) then scheduled_height t else block_height_add (scheduled_height t) delta)"
  by (auto simp: shift_transaction_def Let_def apfst_def split: MigrationTxState.splits option.splits if_splits)

lemma shift_transactions_moves:
  "shift_transactions interval delta ts rng = Some (ts', rng') \<Longrightarrow>
   list_all2 (\<lambda>t t'. tx_id t' = tx_id t \<and> tx_state t' = tx_state t \<and> unsatisfiable t' = unsatisfiable t \<and>
     scheduled_height t' = (if is_started (tx_state t) then scheduled_height t else block_height_add (scheduled_height t) delta)) ts ts'"
proof (induction ts arbitrary: rng ts')
  case (Cons t ts)
  then obtain u r us where "shift_transaction interval delta t rng = Some (u, r)"
    "shift_transactions interval delta ts r = Some (us, rng')" "ts' = u # us"
    by (auto simp: bind_eq_Some_conv)
  then show ?case using Cons.IH shift_transaction_moves by simp
qed simp

lemma lag_moves:
  "lag (t\<lparr>scheduled_height := block_height_add (scheduled_height t) delta\<rparr>) \<le> lag t"
  "\<not> is_started (tx_state t) \<Longrightarrow> 0 < delta \<Longrightarrow> unat (scheduled_height t) + unat delta < 2 ^ 32 \<Longrightarrow>
   lag (t\<lparr>scheduled_height := block_height_add (scheduled_height t) delta\<rparr>) < lag t"
proof -
  have le: "unat (scheduled_height t) < 2 ^ 32" using unsigned_less [of "scheduled_height t", where ?'a = nat] by simp
  then show "lag (t\<lparr>scheduled_height := block_height_add (scheduled_height t) delta\<rparr>) \<le> lag t"
    by (simp add: lag_def block_height_add_def unat_saturating_add) linarith
  assume "\<not> is_started (tx_state t)" "0 < delta" "unat (scheduled_height t) + unat delta < 2 ^ 32"
  moreover from this have "0 < unat delta" by (simp add: unat_gt_0 word_neq_0_conv)
  ultimately show "lag (t\<lparr>scheduled_height := block_height_add (scheduled_height t) delta\<rparr>) < lag t"
    using le by (simp add: lag_def block_height_add_def unat_saturating_add)
qed

lemma shift_measure:
  assumes "ids_distinct s" "shift_schedule delta s rng = Some (s', rng')"
    and t: "t \<in> set (transactions s)" "\<not> is_started (tx_state t)"
      "unat (scheduled_height t) + unat delta < 2 ^ 32" "0 < delta"
  shows "unmarked_count s' \<le> unmarked_count s \<and> tx_id ` set (transactions s') = tx_id ` set (transactions s) \<and>
    sum_list (map lag (transactions s')) < sum_list (map lag (transactions s))"
proof -
  obtain ts where ts: "shift_transactions (committed_interval s) delta (transactions s) rng = Some (ts, rng')"
    "s' = s\<lparr>transactions := ts\<rparr>" using assms(2) by (auto simp: shift_schedule_def)
  note moves = shift_transactions_moves [OF ts(1)]
  have "list_all2 (\<lambda>t t'. unmarked t' \<longrightarrow> unmarked t) (transactions s) ts"
    using moves by (rule list_all2_mono) (simp add: unmarked_def)
  moreover have "map tx_id ts = map tx_id (transactions s)"
    by (rule ids_all2) (use moves in \<open>rule list_all2_mono, simp\<close>)
  moreover have "list_all2 (\<lambda>x y. lag y \<le> lag x \<and> (x = t \<longrightarrow> lag y < lag x)) (transactions s) ts"
    using moves
  proof (rule list_all2_mono, elim conjE)
    fix x y :: MigrationTransaction
    assume e: "tx_state y = tx_state x" "scheduled_height y =
      (if is_started (tx_state x) then scheduled_height x else block_height_add (scheduled_height x) delta)"
    then have l: "lag y = (if is_started (tx_state x) then lag x
        else lag (x\<lparr>scheduled_height := block_height_add (scheduled_height x) delta\<rparr>))" by (simp add: lag_def)
    show "lag y \<le> lag x \<and> (x = t \<longrightarrow> lag y < lag x)"
      using lag_moves(1) [of x delta] lag_moves(2) [of t delta] t(2-4) unfolding l by auto
  qed
  from sum_list_all2_less [OF this t(1)] have "sum_list (map lag ts) < sum_list (map lag (transactions s))" .
  ultimately show ?thesis using length_filter_all2 unfolding unmarked_count_def ts(2)
    by (auto simp: image_set simp del: set_map)
qed


lemma overdue_from_entry: "\<exists>base. overdue_from st (i, h, b) = (base, h) \<and> h \<le> base"
  by (cases "(st, (i, h, b))" rule: overdue_from.cases) auto

lemma overdue_shift_entry:
  assumes "overdue_shift st entries tolerance served = Some delta"
  obtains i h b where "(i, h, b) \<in> set entries" "h < served" "delta = served - h" "\<And>j. st \<noteq> StepRebuild j"
proof -
  obtain base h where m: "Min (set (map (overdue_from st) entries)) = (base, h)"
    by (cases "Min (set (map (overdue_from st) entries))")
  have e: "entries \<noteq> []" "word_saturating_add base tolerance < served" "delta = served - h" "\<And>j. st \<noteq> StepRebuild j"
    using assms m by (cases st; auto simp: overdue_shift_def split: if_splits)+
  have "(base, h) \<in> set (map (overdue_from st) entries)" using Min_in [of "set (map (overdue_from st) entries)"] e(1) unfolding m by simp
  then obtain i h' b where x: "(i, h', b) \<in> set entries" "overdue_from st (i, h', b) = (base, h)" by (force simp: image_iff)
  with overdue_from_entry [of st i h' b] have "h' = h" "h \<le> base" by auto
  moreover have "base \<le> word_saturating_add base tolerance"
    using unsigned_less [of base, where ?'a = nat] by (simp add: word_le_nat_alt unat_saturating_add)
  ultimately show ?thesis using x(1) e(2-4) by (intro that [of i h b]) auto
qed

lemma mark_recorded_lag: "mark_recorded targets dets s' x y \<Longrightarrow> lag y = lag x"
proof -
  assume "mark_recorded targets dets s' x y"
  then have "y = x\<lparr>unsatisfiable := unsatisfiable y\<rparr>" by (simp add: mark_recorded_def)
  then show "lag y = lag x" by (metis MigrationTransaction.select_convs(5,12) MigrationTransaction.surjective
        MigrationTransaction.update_convs(9) lag_def)
qed

lemma record_measure:
  assumes "ids_distinct s" "record_satisfiability targets batch s = Some s'"
    and t: "t \<in> set (transactions s)" "\<not> is_mined (tx_state t)" "unsatisfiable t = None"
    and a: "(tx_id t, a) \<in> set batch" "records_a_determination a"
  shows "unmarked_count s' < unmarked_count s \<and> tx_id ` set (transactions s') = tx_id ` set (transactions s) \<and>
    sum_list (map lag (transactions s')) = sum_list (map lag (transactions s))"
proof -
  obtain u where u: "record_satisfiability targets batch s = Some u"
    "list_all2 (mark_recorded targets batch u) (transactions s) (transactions u)"
    by (rule record_satisfiability_result [OF assms(1), of targets batch]) blast
  have r: "list_all2 (mark_recorded targets batch s') (transactions s) (transactions s')" using u assms(2) by simp
  have found: "find_map (determined (tx_id t)) batch \<noteq> None"
    using a unfolding find_map_None records_iff by (intro notI) (drule (1) bspec, simp add: determined_def)
  have "list_all2 (\<lambda>t t'. tx_id t' = tx_id t) (transactions s) (transactions s')"
    using r by (rule list_all2_mono) (drule mark_recorded_quiet, simp add: tx_kept_defs)
  then have "map tx_id (transactions s') = map tx_id (transactions s)" by (rule ids_all2)
  moreover have "list_all2 (\<lambda>x y. lag y = lag x) (transactions s) (transactions s')"
    using r by (rule list_all2_mono) (rule mark_recorded_lag)
  moreover have "list_all2 (\<lambda>x y. (unmarked y \<longrightarrow> unmarked x) \<and> (x = t \<longrightarrow> \<not> unmarked y)) (transactions s) (transactions s')"
    using r
  proof (rule list_all2_mono)
    fix x y assume m: "mark_recorded targets batch s' x y"
    show "(unmarked y \<longrightarrow> unmarked x) \<and> (x = t \<longrightarrow> \<not> unmarked y)"
      using m t(2,3) found by (auto simp: mark_recorded_def unmarked_def split: if_splits)
  qed
  from length_filter_all2_less [OF this t(1)] have "unmarked_count s' < unmarked_count s"
    using t(2,3) unfolding unmarked_count_def by (simp add: unmarked_def [of t])
  moreover have "list_all2 (\<lambda>x y. lag y = lag x) xs ys \<Longrightarrow> sum_list (map lag ys) = sum_list (map lag xs)" for xs ys
    by (induction rule: list_all2_induct) auto
  ultimately show ?thesis by (auto simp: image_set simp del: set_map)
qed


text \<open>Every further iteration shifts a schedule forward, records a mark or defers a candidate.\<close>

lemma again_measure:
  assumes "plan_iteration store settle targets tolerance ls = Some (Again ls')" "ids_distinct (loop_migration ls)"
  shows "loop_measure ls' < loop_measure ls"
  using assms(1)
proof (cases rule: plan_iteration_cases)
  case (shifted named entries delta s' rng')
  obtain i h b where e: "(i, h, b) \<in> set entries" "h < effective targets" "delta = effective targets - h"
      "\<And>j. next_step (loop_migration ls) targets (set_aside ls) \<noteq> StepRebuild j"
    using overdue_shift_entry [OF shifted(3)] by metis
  have n: "i \<in> set named" "\<And>t. find_transaction (loop_migration ls) i = Some t \<Longrightarrow> h = scheduled_height t"
    using schedule_data_entry [OF shifted(2) e(1)] by auto
  obtain t where t: "t \<in> set (transactions (loop_migration ls))" "find_transaction (loop_migration ls) i = Some t"
      "\<not> is_started (tx_state t)"
    using named_transaction [OF assms(2) shifted(1) n(1)] e(4) by metis
  have h: "h = scheduled_height t" using n(2) t(2) by blast
  have "unat (scheduled_height t) + unat delta = unat (effective targets)"
    using e(2) unfolding e(3) h [symmetric] by (simp add: unat_sub word_less_nat_alt word_le_nat_alt)
  then have "unat (scheduled_height t) + unat delta < 2 ^ 32"
    using unsigned_less [of "effective targets", where ?'a = nat] by simp
  moreover have "0 < delta" using e(2,3) by (simp add: word_less_nat_alt unat_sub word_le_nat_alt)
  ultimately show ?thesis using shift_measure [OF assms(2) shifted(4) t(1,3)] shifted(5) by (simp add: loop_measure_def)
next
  case (verified named entries ks ds xs)
  note v = verify_result [OF verified(4)]
  let ?ids = "tx_id ` set (transactions (loop_migration ls))"
  from verified(5) show ?thesis
  proof (cases rule: after_verification_cases)
    case (recorded batch s')
    obtain i a where x: "(i, a) \<in> set xs" using recorded(1) by (cases xs) auto
    then have a: "i \<in> set named" "records_a_determination a" using v by auto
    obtain more where "batch = xs @ more"
      using broaden_extends recorded(2) unfolding broaden_after_discovery_def by metis
    then have "(i, a) \<in> set batch" using x by simp
    moreover obtain t where "t \<in> set (transactions (loop_migration ls))" "tx_id t = i" "\<not> is_mined (tx_state t)"
        "unsatisfiable t = None" using named_transaction [OF assms(2) verified(1) a(1)] by metis
    ultimately have "unmarked_count s' < unmarked_count (loop_migration ls)" "tx_id ` set (transactions s') = ?ids"
      "sum_list (map lag (transactions s')) = sum_list (map lag (transactions (loop_migration ls)))"
      using record_measure [OF assms(2) recorded(3), of t a] a(2) by blast+
    moreover have "card (?ids - set (set_aside ls @ ds)) \<le> card (?ids - set (set_aside ls))"
      by (intro card_mono) auto
    ultimately show ?thesis using recorded(4) by (simp add: loop_measure_def)
  next
    case deferred
    then obtain i where i: "i \<in> set ds" by (cases ds) auto
    then have "i \<in> set named" using v by blast
    from named_transaction [OF assms(2) verified(1) this] have "i \<in> ?ids - set (set_aside ls)" by blast
    then have "?ids - set (set_aside ls @ ds) \<subset> ?ids - set (set_aside ls)" using i by auto
    then have "card (?ids - set (set_aside ls @ ds)) < card (?ids - set (set_aside ls))" by (intro psubset_card_mono) auto
    then show ?thesis using deferred(3) by (simp add: loop_measure_def)
  qed simp_all
qed simp_all

definition ready_loop :: "LoopState \<Rightarrow> bool" where
  "ready_loop ls \<longleftrightarrow> ids_distinct (loop_migration ls) \<and> lively (loop_rng ls)"

lemma after_verification_returns:
  assumes "ready_loop ls"
  shows "\<exists>it. after_verification store settle targets ls st ks ds xs = Some it"
proof (cases "xs \<noteq> []")
  case True
  have rec: "\<exists>s'. record_satisfiability targets batch (loop_migration ls) = Some s'" for batch
    by (rule record_satisfiability_result [of "loop_migration ls" targets batch])
      (use assms in \<open>auto simp: ready_loop_def\<close>)
  show ?thesis
  proof (cases "broaden_after_discovery store (loop_migration ls) xs settle")
    case (Inl e)
    then show ?thesis using True by (simp add: after_verification_def Let_def)
  next
    case (Inr batch)
    obtain s' where "record_satisfiability targets batch (loop_migration ls) = Some s'" using rec by blast
    then show ?thesis using True Inr by (simp add: after_verification_def Let_def)
  qed
next
  case False
  then show ?thesis by (cases st) (simp_all add: after_verification_def Let_def)
qed

lemma shift_distinct: "shift_schedule delta s rng = Some (s', rng') \<Longrightarrow> ids_distinct s \<Longrightarrow> ids_distinct s'"
proof -
  assume a: "shift_schedule delta s rng = Some (s', rng')" "ids_distinct s"
  then obtain ts where "shift_transactions (committed_interval s) delta (transactions s) rng = Some (ts, rng')"
    and s': "s' = s\<lparr>transactions := ts\<rparr>" by (auto simp: shift_schedule_def)
  then have "list_all2 (\<lambda>t t'. tx_id t' = tx_id t) (transactions s) ts"
    by (intro list_all2_mono [OF shift_transactions_moves]) auto
  from ids_all2 [OF this] s' show "ids_distinct s'" using a(2) unfolding ids_distinct_def by simp
qed

lemma iteration_ready:
  assumes "ready_loop ls" "plan_iteration store settle targets tolerance ls = Some (Again ls')"
  shows "ready_loop ls'"
  using assms(2)
proof (cases rule: plan_iteration_cases)
  case (shifted named entries delta s' rng')
  then have "ids_distinct s'" using shift_distinct assms(1) unfolding ready_loop_def by blast
  moreover have "lively rng'"
    using shift_schedule_lively [of "loop_rng ls" delta "loop_migration ls"] shifted(4) assms(1) by (simp add: ready_loop_def)
  ultimately show ?thesis using shifted(5) by (simp add: ready_loop_def)
next
  case (verified named entries ks ds xs)
  from verified(5) show ?thesis
  proof (cases rule: after_verification_cases)
    case (recorded batch s')
    have "ids_distinct s'"
      by (rule record_satisfiability_result [of "loop_migration ls" targets batch])
        (use assms(1) recorded(3) in \<open>auto simp: ready_loop_def\<close>)
    then show ?thesis using recorded(4) assms(1) by (simp add: ready_loop_def)
  qed (use assms(1) in \<open>simp_all add: ready_loop_def\<close>)
qed simp_all

lemma iteration_returns:
  assumes "ready_loop ls"
  shows "\<exists>it. plan_iteration store settle targets tolerance ls = Some it"
proof -
  let ?s = "loop_migration ls" let ?st = "next_step ?s targets (set_aside ls)"
  have shift: "\<exists>x. shift_schedule delta ?s (loop_rng ls) = Some x" for delta
    using shift_schedule_lively [of "loop_rng ls" delta ?s] assms by (auto simp: ready_loop_def)
  have after: "\<exists>it. after_verification store settle targets ls ?st ks ds xs = Some it" for ks ds xs
    by (rule after_verification_returns [OF assms])
  have verified: "\<exists>it. (case verify store settle ?s is of
        Inl e \<Rightarrow> Some (Stopped e)
      | Inr None \<Rightarrow> Some (Surfaced StepWaiting ls)
      | Inr (Some (ks, ds, xs)) \<Rightarrow> after_verification store settle targets ls ?st ks ds xs) = Some it" for "is"
  proof (cases "verify store settle ?s is")
    case (Inr r)
    then show ?thesis using after by (cases r) auto
  qed simp
  show ?thesis
  proof (cases "step_candidates ?st")
    case None
    then show ?thesis by (simp add: plan_iteration_def Let_def)
  next
    case named: (Some named)
    show ?thesis
    proof (cases "schedule_data ?s named")
      case None
      then show ?thesis using named by (simp add: plan_iteration_def Let_def)
    next
      case (Some entries)
      then show ?thesis using named verified shift
        by (cases "overdue_shift ?st entries tolerance (effective targets)") (auto simp: plan_iteration_def Let_def)
    qed
  qed
qed

lemma plan_loop_returns: "ready_loop ls \<Longrightarrow> \<exists>r. plan_loop store settle targets tolerance ls = Some r"
proof (induction "loop_measure ls" arbitrary: ls rule: less_induct)
  case less
  obtain it where it: "plan_iteration store settle targets tolerance ls = Some it"
    using iteration_returns [OF less.prems] by blast
  show ?case
  proof (cases it)
    case (Again ls')
    have "\<exists>r. plan_loop store settle targets tolerance ls' = Some r"
      using it less.prems unfolding Again
      by (intro less.hyps [OF again_measure iteration_ready]) (auto simp: ready_loop_def)
    then show ?thesis using it Again by (subst plan_loop.simps) simp
  qed (use it in \<open>subst plan_loop.simps, simp\<close>)+
qed


section \<open>A call\<close>

lemma write_back_Inr:
  "write_back store d dec s rng = Inr a \<Longrightarrow> decision a = dec \<and> migration a = s \<and> rng_left a = rng \<and>
     (if d then written a = Some s \<and> replace_migration store s = Inr () else written a = None)"
  by (auto simp: write_back_def bind_result_Inr split: if_splits)

lemma advance_cases:
  assumes "advance_migration store s targets settle rng = Some (Inr a)"
  obtains (pending) s2 changed where "migration_step\<^sup>*\<^sup>* s s2" "\<not> changed \<Longrightarrow> s2 = s"
      "write_back store changed \<lparr>advance_step = StepReevaluate, advance_next = None\<rparr> s2 rng = Inr a"
  | (planned) s2 changed tolerance st ls where "migration_step\<^sup>*\<^sup>* s s2" "\<not> changed \<Longrightarrow> s2 = s"
      "plan_loop store settle targets tolerance
         \<lparr>loop_migration = s2, loop_rng = rng, set_aside = [], dirty = changed\<rparr> = Some (Inr (st, ls))"
      "write_back store (dirty ls)
         \<lparr>advance_step = st, advance_next = upcoming_after (loop_migration ls) st targets (set_aside ls)\<rparr>
         (loop_migration ls) (loop_rng ls) = Inr a"
proof -
  obtain us ms fs where sweep: "in_flight_sweep store settle (transactions s) = Inr (us, ms, fs)"
    using assms by (auto simp: advance_migration_def split: sum.split_asm)
  then obtain s1 where s1: "record_findings targets fs (promote us ms s) = Some s1"
    using assms by (auto simp: advance_migration_def bind_eq_Some_conv)
  obtain r where r: "adjudicate_reports store settle targets s1 = Some r"
    using assms sweep s1 by (auto simp: advance_migration_def bind_eq_Some_conv)
  obtain s2 adj p where s2: "r = Inr (s2, adj, p)"
    using assms sweep s1 r by (cases r) (auto simp: advance_migration_def)
  let ?changed = "us \<noteq> [] \<or> ms \<noteq> [] \<or> fs \<noteq> [] \<or> adj"
  have steps: "migration_step\<^sup>*\<^sup>* s s2"
    using promote_steps record_findings_steps [OF s1] adjudicate_steps [OF r [unfolded s2]] by (meson rtranclp_trans)
  have same: "s2 = s" if "\<not> ?changed"
    using that s1 adjudicate_unchanged r s2 by (auto simp: record_findings_def promote_def)
  show ?thesis
  proof (cases p)
    case True
    then show ?thesis using assms sweep s1 r s2 by (intro pending [OF steps same]) (simp_all add: advance_migration_def Let_def)
  next
    case False
    then obtain q where q: "plan_loop store settle targets
        (overdue_shift_tolerance (transfer_delay (new_with_default_distributions (committed_interval s2))))
        \<lparr>loop_migration = s2, loop_rng = rng, set_aside = [], dirty = ?changed\<rparr> = Some q"
      using assms sweep s1 r s2 by (auto simp: advance_migration_def Let_def bind_eq_Some_conv)
    then obtain st ls where "q = Inr (st, ls)"
      using assms sweep s1 r s2 False by (cases q) (auto simp: advance_migration_def Let_def)
    then show ?thesis using assms sweep s1 r s2 False q
      by (intro planned [OF steps same]) (simp_all add: advance_migration_def Let_def)
  qed
qed

end
