(* ===== verification/MigrationCalls.thy ===== *)
theory MigrationCalls
  imports MigrationReturns
begin

text \<open>
  The properties of \<open>advance_migration\<close>: every call returns, is a run of the kernel's operations that is
  written exactly when it changed anything, and surfaces only what the store has vouched for.
\<close>

section \<open>A call returns\<close>

lemma record_returns: "ids_distinct s \<Longrightarrow> \<exists>s'. record_satisfiability targets dets s = Some s'"
  by (erule record_satisfiability_result [of s targets dets]) blast

lemma record_findings_returns: "ids_distinct s \<Longrightarrow> \<exists>s'. record_findings targets fs s = Some s'"
  by (simp add: record_findings_def record_returns)

lemma record_verdicts_returns:
  "ids_distinct s \<Longrightarrow> \<exists>r. record_verdicts store settle targets vs s = Some r"
  using record_returns [of s targets]
  by (cases "broaden_after_discovery store s vs settle") (auto simp: record_verdicts_def)

lemma adjudicate_returns:
  assumes "ids_distinct s"
  shows "\<exists>r. adjudicate_reports store settle targets s = Some r"
proof (cases "is_terminal s")
  case True
  then show ?thesis by (simp add: adjudicate_reports_def)
next
  case False
  show ?thesis
  proof (cases "judge_reports store settle (transactions s)")
    case (Inl e)
    then show ?thesis using False by (simp add: adjudicate_reports_def)
  next
    case (Inr j)
    obtain a v p where j: "j = (a, v, p)" by (metis prod_cases3)
    obtain r where "record_verdicts store settle targets v s = Some r"
      using record_verdicts_returns [OF assms] by blast
    then show ?thesis using False Inr j by (cases r) (simp_all add: adjudicate_reports_def)
  qed
qed

lemma steps_distinct: "migration_step\<^sup>*\<^sup>* s s' \<Longrightarrow> migration_inv s \<Longrightarrow> ids_distinct s'"
  using steps_sound by (simp add: migration_inv_def)

text \<open>
  C2. A call on a migration that was committed and has since been operated on in any way returns,
  whatever the store answers, if the random numbers are all positive and never stop being odd: the
  schedule is shifted, marks are recorded and candidates deferred only finitely often.
\<close>

theorem advance_migration_returns:
  assumes "committed_migration s0" "migration_step\<^sup>*\<^sup>* s0 s"
    and "\<forall>n. rng !! n \<noteq> 0 \<and> (\<exists>k\<ge>n. bit (rng !! k) 0)"
  shows "\<exists>r. advance_migration store s targets settle rng = Some r"
proof (cases "in_flight_sweep store settle (transactions s)")
  case (Inl e)
  then show ?thesis by (simp add: advance_migration_def)
next
  case (Inr sweep)
  obtain us ms fs where sw: "sweep = (us, ms, fs)" by (metis prod_cases3)
  have inv: "migration_inv s" using steps_sound [OF assms(2) committed_inv [OF assms(1)]] by blast
  from record_findings_returns [OF steps_distinct [OF promote_steps inv]]
  obtain s1 where s1: "record_findings targets fs (promote us ms s) = Some s1" by blast
  have steps: "migration_step\<^sup>*\<^sup>* s s1" using rtranclp_trans [OF promote_steps record_findings_steps [OF s1]] .
  from adjudicate_returns [OF steps_distinct [OF steps inv]]
  obtain r where r: "adjudicate_reports store settle targets s1 = Some r" by blast
  show ?thesis
  proof (cases r)
    case e: (Inl e)
    then show ?thesis using Inr sw s1 r by (simp add: advance_migration_def)
  next
    case a: (Inr x)
    obtain s2 adj p where x: "x = (s2, adj, p)" by (metis prod_cases3)
    have "ids_distinct s2"
      using steps_distinct [OF rtranclp_trans [OF steps adjudicate_steps] inv] r a x by blast
    then have ready: "ready_loop \<lparr>loop_migration = s2, loop_rng = rng, set_aside = [], dirty = d\<rparr>" for d
      using assms(3) by (simp add: ready_loop_def lively_def)
    obtain q where q: "plan_loop store settle targets
        (overdue_shift_tolerance (transfer_delay (new_with_default_distributions (committed_interval s2))))
        \<lparr>loop_migration = s2, loop_rng = rng, set_aside = [], dirty = us \<noteq> [] \<or> ms \<noteq> [] \<or> fs \<noteq> [] \<or> adj\<rparr> = Some q"
      using plan_loop_returns [OF ready] by blast
    then show ?thesis using Inr sw s1 r a x by (cases q) (auto simp: advance_migration_def Let_def)
  qed
qed

section \<open>A call is a run\<close>

lemma surfaced_same:
  assumes "plan_iteration store settle targets tolerance ls = Some (Surfaced st ls')"
  shows "loop_migration ls' = loop_migration ls \<and> dirty ls' = dirty ls"
  using assms
proof (cases rule: plan_iteration_cases)
  case (verified named entries ks ds xs)
  from verified(5) show ?thesis by (cases rule: after_verification_cases) auto
qed simp_all

text \<open>
  C9. What a call makes of the migration is a run of the kernel's own operations, and the store holds
  it: a call that wrote nothing changed nothing, and what it wrote is the state it returns.
\<close>

theorem advance_refines_steps:
  assumes "advance_migration store s targets settle rng = Some (Inr a)"
  shows "migration_step\<^sup>*\<^sup>* s (migration a) \<and>
    (written a = None \<and> migration a = s \<or>
     written a = Some (migration a) \<and> replace_migration store (migration a) = Inr ())"
  using assms
proof (cases rule: advance_cases)
  case (pending s2 changed)
  then show ?thesis using write_back_Inr [OF pending(3)] by (cases changed) auto
next
  case (planned s2 changed tolerance st ls)
  let ?ls = "\<lparr>loop_migration = s2, loop_rng = rng, set_aside = [], dirty = changed\<rparr>"
  obtain ls0 where ls0: "reached_from ?ls ls0" "plan_iteration store settle targets tolerance ls0 = Some (Surfaced st ls)"
    by (rule plan_loop_rule [OF planned(3), where I = "reached_from ?ls"]) (auto intro: reached_refl iteration_reached)
  have same: "loop_migration ls = loop_migration ls0" "dirty ls = dirty ls0"
    using surfaced_same [OF ls0(2)] by blast+
  have "migration_step\<^sup>*\<^sup>* s (loop_migration ls)"
    using ls0(1) planned(1) same by (auto simp: reached_from_def intro: rtranclp_trans)
  moreover have "\<not> dirty ls \<Longrightarrow> loop_migration ls = s" using ls0(1) planned(2) same by (auto simp: reached_from_def)
  ultimately show ?thesis using write_back_Inr [OF planned(4)] by (cases "dirty ls") auto
qed

section \<open>A call vouches\<close>

lemma kernel_broadcast:
  assumes "ids_distinct s" "next_step s targets aside = StepBroadcast i"
  obtains t where "find_transaction s i = Some t" "tx_state t = Proved" "i \<notin> dead_set s targets"
    "scheduled_height t \<le> effective targets" "broadcast_failure_at t = None" "\<not> is_expired t (effective targets)"
    "deps_mined s (depends_on t)"
proof -
  from assms(2) obtain t where t: "t \<in> set (transactions s)" "i = tx_id t" "broadcastable s targets (dead_set s targets) aside t"
    by (cases rule: next_step_cases [of s targets aside]) (auto split: if_splits)
  moreover have "find_transaction s i = Some t" using find_transaction_eq [OF assms(1)] t(1,2) by blast
  ultimately show ?thesis by (intro that [of t]) (auto simp: broadcastable_def)
qed

lemma kernel_prove:
  assumes "ids_distinct s" "next_step s targets aside = StepProve ts" "x \<in> set ts"
  obtains t where "find_transaction s (target_id x) = Some t" "x = prove_target t" "tx_state t = Signed"
    "target_id x \<notin> dead_set s targets" "\<not> is_expired t (effective targets)" "deps_mined s (depends_on t)"
proof -
  from assms(2) have "ts = provable_targets s targets (dead_set s targets) aside"
    by (cases rule: next_step_cases [of s targets aside]) (auto split: if_splits)
  with assms(3) have "x \<in> prove_target ` {t \<in> set (transactions s). provable s targets (dead_set s targets) aside t}"
    by (simp add: set_provable_targets)
  then obtain t where t: "t \<in> set (transactions s)" "x = prove_target t" "provable s targets (dead_set s targets) aside t"
    by blast
  moreover have "target_id x = tx_id t" by (simp add: t(2) prove_target_def)
  moreover from this have "find_transaction s (target_id x) = Some t" using find_transaction_eq [OF assms(1)] t(1) by simp
  moreover have "\<not> is_expired t (effective targets) \<and> deps_mined s (depends_on t)"
    using t(3) unfolding provable_def prove_ready_def by blast
  ultimately show ?thesis by (intro that [of t]) (auto simp: provable_def)
qed

lemma kernel_rebuild:
  assumes "ids_distinct s" "next_step s targets aside = StepRebuild i"
  obtains t where "find_transaction s i = Some t" "is_transfer (tx_kind t)" "is_expired t (scanned targets)"
    "unsatisfiable t = None" "set (depends_on t) \<inter> dead_set s targets = {}"
proof -
  from assms(2) obtain t where t: "t \<in> set (transactions s)" "i = tx_id t" "rebuildable s targets (dead_set s targets) aside t"
    by (cases rule: next_step_cases [of s targets aside]) (auto split: if_splits)
  moreover have "find_transaction s i = Some t" using find_transaction_eq [OF assms(1)] t(1,2) by blast
  ultimately show ?thesis by (intro that [of t]) (auto simp: rebuildable_def)
qed

lemma next_prove_nonempty: "next_step s targets aside = StepProve ts \<Longrightarrow> ts \<noteq> []"
  by (cases rule: next_step_cases [of s targets aside])
    (auto simp: provable_targets_empty simp del: not_None_eq split: if_splits)

lemma plan_loop_vouched:
  assumes "plan_loop store settle targets tolerance ls = Some (Inr (st, ls'))" "migration_inv (loop_migration ls)"
  obtains aside where "ids_distinct (loop_migration ls')" "candidates_vouched store settle (loop_migration ls') st"
    "next_step (loop_migration ls') targets aside = st \<or>
     (\<exists>all ts. next_step (loop_migration ls') targets aside = StepProve all \<and> st = StepProve ts \<and> ts \<noteq> [] \<and> set ts \<subseteq> set all)"
proof -
  obtain ls0 where ls0: "reached_from ls ls0" "plan_iteration store settle targets tolerance ls0 = Some (Surfaced st ls')"
    by (rule plan_loop_rule [OF assms(1), where I = "reached_from ls"]) (auto intro: reached_refl iteration_reached)
  then have d: "ids_distinct (loop_migration ls0)" using steps_distinct assms(2) by (auto simp: reached_from_def)
  from iteration_surfaced [OF ls0(2) d] d show ?thesis by (intro that [of "set_aside ls0"]) auto
qed

text \<open>
  C1. A transaction a call asks for is one the store has vouched for in the state returned: its inputs
  are satisfiable, or only its expiry is at fault. What is broadcast is proved, due, unexpired and not
  reported as rejected; what is proved is signed and unexpired; the dependencies of both are mined and
  neither is dead. What is rebuilt is an expired, unmarked transfer of live dependencies. Waiting and
  replanning are for a migration not finished, and a pending reevaluation comes with no outlook.
\<close>

theorem advance_vouched:
  assumes "committed_migration s0" "migration_step\<^sup>*\<^sup>* s0 s"
    and "advance_migration store s targets settle rng = Some (Inr a)"
  shows "case advance_step (decision a) of
      StepBroadcast i \<Rightarrow> i \<notin> dead_set (migration a) targets \<and> (\<exists>t. find_transaction (migration a) i = Some t \<and>
        vouched store settle t \<and> tx_state t = Proved \<and> scheduled_height t \<le> effective targets \<and>
        broadcast_failure_at t = None \<and> \<not> is_expired t (effective targets) \<and> deps_mined (migration a) (depends_on t))
    | StepProve ts \<Rightarrow> ts \<noteq> [] \<and> (\<forall>x\<in>set ts. target_id x \<notin> dead_set (migration a) targets \<and>
        (\<exists>t. find_transaction (migration a) (target_id x) = Some t \<and> x = prove_target t \<and> vouched store settle t \<and>
          tx_state t = Signed \<and> \<not> is_expired t (effective targets) \<and> deps_mined (migration a) (depends_on t)))
    | StepRebuild i \<Rightarrow> (\<exists>t. find_transaction (migration a) i = Some t \<and> vouched store settle t \<and>
        is_transfer (tx_kind t) \<and> is_expired t (scanned targets) \<and> unsatisfiable t = None \<and>
        set (depends_on t) \<inter> dead_set (migration a) targets = {})
    | StepReevaluate \<Rightarrow> advance_next (decision a) = None
    | StepComplete \<Rightarrow> is_terminal (migration a) \<or> all_mined (migration a)
    | StepReplan \<Rightarrow> \<not> is_terminal (migration a)
    | StepWaiting \<Rightarrow> \<not> is_terminal (migration a) \<and> \<not> all_mined (migration a)"
  using assms(3)
proof (cases rule: advance_cases)
  case (pending s2 changed)
  then show ?thesis using write_back_Inr [OF pending(3)] by simp
next
  case (planned s2 changed tolerance st ls)
  have out: "decision a = \<lparr>advance_step = st, advance_next = upcoming_after (loop_migration ls) st targets (set_aside ls)\<rparr>"
    "migration a = loop_migration ls" using write_back_Inr [OF planned(4)] by auto
  have "migration_inv s" using steps_sound [OF assms(2) committed_inv [OF assms(1)]] by blast
  then have "migration_inv s2" using steps_sound [OF planned(1)] by blast
  then have inv: "migration_inv (loop_migration \<lparr>loop_migration = s2, loop_rng = rng, set_aside = [], dirty = changed\<rparr>)" by simp
  obtain aside where v: "ids_distinct (migration a)" "candidates_vouched store settle (migration a) st"
    "next_step (migration a) targets aside = st \<or>
     (\<exists>all ts. next_step (migration a) targets aside = StepProve all \<and> st = StepProve ts \<and> ts \<noteq> [] \<and> set ts \<subseteq> set all)"
    unfolding out(2) by (rule plan_loop_vouched [OF planned(3) inv])
  have vouched: "\<exists>t. find_transaction (migration a) i = Some t \<and> vouched store settle t"
    if "step_candidates st = Some named" "i \<in> set named" for named i
    using v(2) that unfolding candidates_vouched_def by blast
  show ?thesis
  proof (cases st)
    case (StepBroadcast i)
    then have "next_step (migration a) targets aside = StepBroadcast i" using v(3) by auto
    from kernel_broadcast [OF v(1) this] obtain t where t: "find_transaction (migration a) i = Some t" "tx_state t = Proved"
      "i \<notin> dead_set (migration a) targets" "scheduled_height t \<le> effective targets" "broadcast_failure_at t = None"
      "\<not> is_expired t (effective targets)" "deps_mined (migration a) (depends_on t)" .
    moreover have "vouched store settle t" using vouched [of "[i]" i] StepBroadcast t(1) by simp
    ultimately show ?thesis using StepBroadcast out(1) by simp
  next
    case (StepProve ts)
    then obtain all where all: "next_step (migration a) targets aside = StepProve all" "set ts \<subseteq> set all" "ts \<noteq> []"
      using v(3) next_prove_nonempty by auto
    have "target_id x \<notin> dead_set (migration a) targets \<and>
        (\<exists>t. find_transaction (migration a) (target_id x) = Some t \<and> x = prove_target t \<and> vouched store settle t \<and>
          tx_state t = Signed \<and> \<not> is_expired t (effective targets) \<and> deps_mined (migration a) (depends_on t))"
      if x: "x \<in> set ts" for x
    proof -
      have "x \<in> set all" using all(2) x by blast
      from kernel_prove [OF v(1) all(1) this] obtain t where t: "find_transaction (migration a) (target_id x) = Some t"
        "x = prove_target t" "tx_state t = Signed" "target_id x \<notin> dead_set (migration a) targets"
        "\<not> is_expired t (effective targets)" "deps_mined (migration a) (depends_on t)" .
      moreover have "vouched store settle t" using vouched [of "map target_id ts" "target_id x"] StepProve t(1) x by simp
      ultimately show ?thesis by blast
    qed
    then show ?thesis unfolding out(1) StepProve using all(3) by (simp only: Advance.select_convs AdvanceStep.case) blast
  next
    case (StepRebuild i)
    then have "next_step (migration a) targets aside = StepRebuild i" using v(3) by auto
    from kernel_rebuild [OF v(1) this] obtain t where t: "find_transaction (migration a) i = Some t" "is_transfer (tx_kind t)"
      "is_expired t (scanned targets)" "unsatisfiable t = None" "set (depends_on t) \<inter> dead_set (migration a) targets = {}" .
    moreover have "vouched store settle t" using vouched [of "[i]" i] StepRebuild t(1) by simp
    ultimately show ?thesis using StepRebuild out(1) by simp
  next
    case StepReevaluate
    then show ?thesis using out(1) by simp
  next
    case StepComplete
    then have "next_step (migration a) targets aside = StepComplete" using v(3) by auto
    then show ?thesis using StepComplete out(1)
      by (cases rule: next_step_cases [of "migration a" targets aside]) (auto split: if_splits)
  next
    case StepReplan
    then have "next_step (migration a) targets aside = StepReplan" using v(3) by auto
    then show ?thesis using StepReplan out(1)
      by (cases rule: next_step_cases [of "migration a" targets aside]) (auto split: if_splits)
  next
    case StepWaiting
    then have "next_step (migration a) targets aside = StepWaiting" using v(3) by auto
    then show ?thesis using StepWaiting out(1)
      by (cases rule: next_step_cases [of "migration a" targets aside]) (auto split: if_splits)
  qed
qed

section \<open>Witnesses\<close>

text \<open>A store that vouches for everything and has seen transaction 0 mined at 950.\<close>

definition sample_store :: "string MigrationStore" where
  "sample_store = \<lparr>check_step_satisfiability = (\<lambda>t d. Inr (Satisfiable 999)),
     store_mined_height = (\<lambda>i. Inr (if i = [0] then Some 950 else None)), replace_migration = (\<lambda>s. Inr ())\<rparr>"

definition sent_migration :: MigrationState where
  "sent_migration = sample_migration InProgress
     [sample_transaction 0 (Preparation 0 0) [] (Broadcast [0]), sample_transaction 1 (Transfer 0) [0] Signed]"

definition confirmed_migration :: MigrationState where
  "confirmed_migration = sample_migration InProgress
     [sample_transaction 0 (Preparation 0 0) [] (Mined [0] 950), sample_transaction 1 (Transfer 0) [0] Signed]"

lemma not_overdue: "\<not> word_saturating_add (h :: u32) tolerance < h"
  using unsigned_less [of h, where ?'a = nat] by (auto simp: word_less_nat_alt unat_saturating_add)

lemma sent_sweep: "in_flight_sweep sample_store settle (transactions sent_migration) = Inr ([], [(0, 950)], [])"
  by (simp add: sent_migration_def sample_defs sweep_transaction_def sample_store_def)

lemma sent_promoted: "promote [] [(0, 950)] sent_migration = confirmed_migration"
  by (simp add: promote_def sent_migration_def confirmed_migration_def sample_defs mark_mined_def on_transaction_def
      recompute_status_def all_mined_def is_terminal_def)

lemma confirmed_adjudicated:
  "adjudicate_reports sample_store settle targets confirmed_migration = Some (Inr (confirmed_migration, False, False))"
  by (simp add: adjudicate_reports_def confirmed_migration_def sample_defs is_terminal_def record_verdicts_def)

abbreviation waiting_proof :: MigrationTransaction where
  "waiting_proof \<equiv> sample_transaction 1 (Transfer 0) [0] Signed"

lemma confirmed_next: "next_step confirmed_migration (dueness_at 1000) [] = StepProve [prove_target waiting_proof]"
  by (simp add: kernel_eval confirmed_migration_def sample_defs dueness_at_def)

lemma confirmed_find: "find_transaction confirmed_migration 1 = Some waiting_proof"
  by (simp add: confirmed_migration_def find_transaction_def sample_defs)

lemma confirmed_on_time: "overdue_shift (StepProve ts) [(1, 1000, Some 864)] tolerance 1000 = None"
  by (simp add: overdue_shift_def PROVABLE_ANCHOR_DEPTH_def not_overdue)

lemma confirmed_plan:
  "plan_loop sample_store settle (dueness_at 1000) tolerance
     \<lparr>loop_migration = confirmed_migration, loop_rng = rng, set_aside = [], dirty = d\<rparr> =
   Some (Inr (StepProve [prove_target waiting_proof],
     \<lparr>loop_migration = confirmed_migration, loop_rng = rng, set_aside = [], dirty = d\<rparr>))"
proof -
  have i: "target_id (prove_target waiting_proof) = 1" "scheduled_height waiting_proof = 1000"
    "anchor_boundary waiting_proof = Some 864" "effective (dueness_at 1000) = 1000"
    by (simp_all add: prove_target_def sample_defs dueness_at_def)
  have v: "check_step_satisfiability sample_store t settle = Inr (Satisfiable 999)" for t
    by (simp add: sample_store_def)
  show ?thesis
    by (subst plan_loop.simps)
      (simp add: plan_iteration_def Let_def confirmed_next confirmed_find confirmed_on_time i v after_verification_def)
qed

text \<open>The transaction sent is found mined, and the proof of the one that waits for it is asked for.\<close>

lemma sample_writes: "replace_migration sample_store s = Inr ()"
  by (simp add: sample_store_def)

lemma sent_advance:
  "\<exists>a. advance_migration sample_store sent_migration (dueness_at 1000) settle rng = Some (Inr a) \<and>
     migration a = confirmed_migration \<and> written a = Some confirmed_migration \<and>
     advance_step (decision a) = StepProve [prove_target (sample_transaction 1 (Transfer 0) [0] Signed)]"
  by (simp add: advance_migration_def sent_sweep record_findings_def sent_promoted confirmed_adjudicated Let_def
      confirmed_plan write_back_def sample_writes)

theorem advance_refines_steps_witness:
  "migration_step\<^sup>*\<^sup>* sent_migration confirmed_migration \<and> confirmed_migration \<noteq> sent_migration"
proof -
  obtain a where a: "advance_migration sample_store sent_migration (dueness_at 1000) 100 (sconst 1) = Some (Inr a)"
    "migration a = confirmed_migration" using sent_advance by blast
  from advance_refines_steps [OF a(1)] a(2) show ?thesis
    by (simp add: confirmed_migration_def sent_migration_def sample_defs)
qed

lemma signed_committed: "committed_migration signed_migration"
  by (simp add: committed_migration_def signed_migration_def sample_defs ids_distinct_def is_terminal_def)

lemma sent_reached: "migration_step\<^sup>*\<^sup>* signed_migration sent_migration"
proof -
  have "migration_step signed_migration (mark_broadcast 0 signed_migration)" by (rule migration_step.submitted)
  moreover have "mark_broadcast 0 signed_migration = sent_migration"
    by (simp add: mark_broadcast_def signed_migration_def sent_migration_def sample_defs on_transaction_def
        recompute_status_def all_mined_def is_terminal_def)
  ultimately show ?thesis by simp
qed

theorem advance_migration_returns_witness:
  "\<exists>r. advance_migration sample_store sent_migration (dueness_at 1000) 100 (sconst 1) = Some r"
  by (rule advance_migration_returns [OF signed_committed sent_reached]) (auto simp: bit_0)

theorem advance_vouched_witness:
  "\<exists>t. find_transaction confirmed_migration 1 = Some t \<and> vouched sample_store 100 t \<and> tx_state t = Signed \<and>
     deps_mined confirmed_migration (depends_on t)"
proof -
  obtain a where a: "advance_migration sample_store sent_migration (dueness_at 1000) 100 (sconst 1) = Some (Inr a)"
    "migration a = confirmed_migration" "advance_step (decision a) = StepProve [prove_target waiting_proof]"
    using sent_advance by blast
  have "target_id (prove_target waiting_proof) = 1" by (simp add: prove_target_def sample_defs)
  with advance_vouched [OF signed_committed sent_reached a(1)] a(2,3) show ?thesis by auto
qed

end
