(* ===== verification/MigrationServed.thy ===== *)
theory MigrationServed
  imports MigrationRuns
begin

text \<open>
  What the operations that serve one transaction do to a migration: a rebuild replaces an expired
  transfer, and nothing else, by one for the same note on a schedule and an anchor of its own; a proof is
  made at an anchor that has the funding note; and both are runs of \<open>migration_step\<close>.
\<close>

section \<open>Rebuilding\<close>

lemma block_height_add_ge: "h \<le> block_height_add h d"
  using unsigned_less [of h, where ?'a = nat] by (simp add: word_le_nat_alt block_height_add_def unat_saturating_add)

lemma foldl_max_ge: "(h :: 'a :: linorder) \<le> foldl max h hs \<and> (\<forall>x\<in>set hs. x \<le> foldl max h hs)"
proof (induction hs arbitrary: h)
  case (Cons x hs)
  have "max h x \<le> foldl max (max h x) hs" using Cons.IH by blast
  then show ?case using Cons.IH [of "max h x"] by simp
qed simp

lemma foldl_max_in: "foldl max (h :: 'a :: linorder) hs \<in> set (h # hs)"
proof (induction hs arbitrary: h)
  case (Cons x hs)
  then show ?case using Cons.IH [of "max h x"] by (auto simp: max_def split: if_splits)
qed simp

lemma max_height_Some: "max_height hs = Some m \<Longrightarrow> m \<in> set hs \<and> (\<forall>h\<in>set hs. h \<le> m)"
  using foldl_max_ge [of "hd hs" "tl hs"] foldl_max_in [of "hd hs" "tl hs"]
  by (cases hs) (auto simp: max_height_def)

lemma max_height_None: "max_height hs = None \<longleftrightarrow> hs = []"
  by (simp add: max_height_def)

lemma chain_base_ge:
  "target_height \<le> chain_base s target_height"
  "u \<in> set (transactions s) \<Longrightarrow> is_transfer (tx_kind u) \<Longrightarrow> \<not> is_mined (tx_state u) \<Longrightarrow> unsatisfiable u = None \<Longrightarrow>
    scheduled_height u \<le> chain_base s target_height"
  by (auto simp: chain_base_def max_height_None le_max_iff_disj filter_empty_conv split: option.split dest!: max_height_Some)

lemma dependency_mined_heights_iff:
  "h \<in> set (dependency_mined_heights s t) \<longleftrightarrow>
    (\<exists>d\<in>set (depends_on t). \<exists>u. find_transaction s d = Some u \<and> mined_height (tx_state u) = Some h)"
  by (auto simp: dependency_mined_heights_def set_map_filter bind_eq_Some_conv)

lemma rebuild_candidate_Inr:
  assumes "rebuild_candidate backend s i = Inr (t, cx, target_height)"
  shows "\<exists>tip. chain_tip_height backend = Inr tip \<and> target_height = block_height_add tip 1 \<and>
    committed_interval s = anchor_bucket_interval (scheduling_params backend) \<and> find_transaction s i = Some t \<and>
    is_transfer (tx_kind t) \<and> unsatisfiable t = None \<and> \<not> dead_dependency s t \<and> is_expired t target_height"
  using assms
  by (auto simp: rebuild_candidate_def Let_def is_transfer_def split: if_split_asm sum.split_asm option.split_asm)

lemma find_funding_note_Some:
  "find_funding_note crypto tools fvk nf v xs = Inr (Some fnote) \<Longrightarrow>
    \<exists>j. (j, v) \<in> set xs \<and> resolve_wallet_note crypto j = Inr fnote \<and> note_nullifier tools fnote fvk = nf"
  by (induction xs) (auto split: if_split_asm sum.split_asm)

lemma rebuild_inputs_Inr:
  assumes "rebuild_inputs backend crypto tools signing nf v = Inr (fvk, derivation, fnote)"
  shows "orchard_fvk crypto = Some fvk \<and> (\<forall>sk. signing = InProcess sk \<longrightarrow> viewing_key_of tools sk = fvk) \<and>
    (\<exists>j. resolve_wallet_note crypto j = Inr fnote) \<and> note_nullifier tools fnote fvk = nf"
  using assms
  by (auto simp: rebuild_inputs_def split: option.split_asm sum.split_asm if_split_asm Signing.split_asm dest!: find_funding_note_Some)

lemma finish_rebuild_Inr:
  assumes "finish_rebuild tools signing i p rng = (Inr (nfs, new_id, bytes, new_state, out), rng')"
  shows "new_state = (case signing of InProcess sk \<Rightarrow> Signed | External \<Rightarrow> AwaitingSignature)"
  using assms by (auto simp: finish_rebuild_def split: option.split_asm sum.split_asm prod.split_asm Signing.split_asm)

text \<open>The replacement a successful rebuild makes.\<close>

lemma rebuild_Inr:
  fixes crypto :: "('e, 'k, 'n, 'd) MigrationCrypto" and tools :: "('f, 'k, 'n, 'd, 's, 'p) PcztTools"
  assumes "rebuild_expired_transfer_inner delay_of params backend crypto tools signing s i rng = Some (Inr (s', out), rng')"
  obtains t cx target_height nu63 nf fvk fnote delay rng1 anchor rng2 bytes new_id nfs where
    "rebuild_candidate backend s i = (Inr (t, cx, target_height) :: ('e, 'f) RebuildError + _)" "activation_height params Nu6_3 = Some nu63"
    "spend_nullifiers t = [nf]" "orchard_fvk crypto = Some fvk" "\<forall>sk. signing = InProcess sk \<longrightarrow> viewing_key_of tools sk = fvk"
    "\<exists>j. resolve_wallet_note crypto j = Inr fnote" "note_nullifier tools fnote fvk = nf"
    "draw_anchor_boundary (anchor_bucket_interval (scheduling_params backend)) nu63
       (case max_height (dependency_mined_heights s t) of None \<Rightarrow> nu63 | Some h \<Rightarrow> h)
       (block_height_add (chain_base s target_height) delay) rng1 = Some (Some anchor, rng2)"
    "s' = replace_expired i bytes (block_height_add (chain_base s target_height) delay) anchor new_id
       (case signing of InProcess sk \<Rightarrow> Signed | External \<Rightarrow> AwaitingSignature) nfs s"
proof -
  obtain t cx target_height where c: "rebuild_candidate backend s i = (Inr (t, cx, target_height) :: ('e, 'f) RebuildError + _)"
    using assms by (auto simp: rebuild_expired_transfer_inner_def split: sum.split_asm)
  define fc where "fc nu63 = (case max_height (dependency_mined_heights s t) of None \<Rightarrow> nu63 | Some h \<Rightarrow> h)" for nu63
  have "\<exists>nu63 nf v cv ins. activation_height params Nu6_3 = Some nu63 \<and> spend_nullifiers t = [nf] \<and>
    rebuild_inputs backend crypto tools signing nf v = Inr ins \<and>
    rebuild_on_schedule delay_of (scheduling_params backend) tools signing s i target_height nu63 (fc nu63) cv ins rng =
      Some (Inr (s', out) :: ('e, 'f) RebuildError + _, rng')"
    using assms unfolding rebuild_expired_transfer_inner_def c Let_def fc_def
    by (auto split: option.split_asm sum.split_asm list.split_asm Option.bind_split_asm) blast+
  then obtain nu63 nf v cv ins where a: "activation_height params Nu6_3 = Some nu63" "spend_nullifiers t = [nf]"
    "rebuild_inputs backend crypto tools signing nf v = Inr ins"
    "rebuild_on_schedule delay_of (scheduling_params backend) tools signing s i target_height nu63 (fc nu63) cv ins rng =
      Some (Inr (s', out) :: ('e, 'f) RebuildError + _, rng')" by blast
  obtain fvk derivation fnote where ins: "ins = (fvk, derivation, fnote)" by (cases ins)
  have "\<exists>delay rng1 anchor rng2 p rng3 bytes new_id new_state nfs.
    draw_anchor_boundary (anchor_bucket_interval (scheduling_params backend)) nu63 (fc nu63)
       (block_height_add (chain_base s target_height) delay) rng1 = Some (Some anchor, rng2) \<and>
    finish_rebuild tools signing i p rng3 = (Inr (nfs, new_id, bytes, new_state, out) :: ('e, 'f) RebuildError + _, rng') \<and>
    s' = replace_expired i bytes (block_height_add (chain_base s target_height) delay) anchor new_id new_state nfs s"
    using a(4) unfolding rebuild_on_schedule_def ins Let_def
    by (auto split: option.split_asm sum.split_asm prod.split_asm Option.bind_split_asm) blast+
  then obtain delay rng1 anchor rng2 p rng3 bytes new_id new_state nfs where o:
    "draw_anchor_boundary (anchor_bucket_interval (scheduling_params backend)) nu63 (fc nu63)
       (block_height_add (chain_base s target_height) delay) rng1 = Some (Some anchor, rng2)"
    "finish_rebuild tools signing i p rng3 = (Inr (nfs, new_id, bytes, new_state, out) :: ('e, 'f) RebuildError + _, rng')"
    "s' = replace_expired i bytes (block_height_add (chain_base s target_height) delay) anchor new_id new_state nfs s"
    by blast
  from rebuild_inputs_Inr [OF a(3) [unfolded ins]] finish_rebuild_Inr [OF o(2)] o(1,3) a(1,2) c show thesis
    unfolding fc_def by (intro that) auto
qed




text \<open>A rebuild is a step.\<close>

lemma rebuild_step:
  fixes crypto :: "('e, 'k, 'n, 'd) MigrationCrypto" and tools :: "('f, 'k, 'n, 'd, 's, 'p) PcztTools"
  assumes "rebuild_expired_transfer_inner delay_of params backend crypto tools signing s i rng = Some (Inr (s', out), rng')"
  shows "migration_step s s'"
proof -
  obtain t cx target_height nu63 nf fvk fnote delay rng1 anchor rng2 bytes new_id nfs where
    r: "rebuild_candidate backend s i = (Inr (t, cx, target_height) :: ('e, 'f) RebuildError + _)" "activation_height params Nu6_3 = Some nu63"
    "spend_nullifiers t = [nf]" "orchard_fvk crypto = Some fvk" "\<forall>sk. signing = InProcess sk \<longrightarrow> viewing_key_of tools sk = fvk"
    "\<exists>j. resolve_wallet_note crypto j = Inr fnote" "note_nullifier tools fnote fvk = nf"
    "draw_anchor_boundary (anchor_bucket_interval (scheduling_params backend)) nu63
       (case max_height (dependency_mined_heights s t) of None \<Rightarrow> nu63 | Some h \<Rightarrow> h)
       (block_height_add (chain_base s target_height) delay) rng1 = Some (Some anchor, rng2)"
    "s' = replace_expired i bytes (block_height_add (chain_base s target_height) delay) anchor new_id
       (case signing of InProcess sk \<Rightarrow> Signed | External \<Rightarrow> AwaitingSignature) nfs s"
    by (rule rebuild_Inr [OF assms])
  from rebuild_candidate_Inr [OF r(1)] have
    c: "find_transaction s i = Some t" "is_transfer (tx_kind t)" "unsatisfiable t = None" "\<not> dead_dependency s t"
      "is_expired t target_height" by blast+
  have "target_height \<le> block_height_add (chain_base s target_height) delay"
    using chain_base_ge(1) block_height_add_ge by (rule order_trans)
  then show ?thesis unfolding r(9) by (rule migration_step.rebuilt [OF c]) (simp split: Signing.split)
qed

section \<open>Proving\<close>

lemma interpret_cases:
  assumes "interpret_input_not_available s i nf as_of = Some (s', out)"
  obtains (unready) "out = NotYetProvable" "s' = s"
  | (marked) t where "out = MarkedUnsatisfiable (replan_required s')" "find_transaction s i = Some t"
      "record_satisfiability (dueness_at (block_height_add as_of 1)) [(i, Unsatisfiable (InputsSpent [nf]) as_of)] s = Some s'"
      "\<forall>d\<in>set (depends_on t). \<exists>u h. find_transaction s d = Some u \<and> mined_height (tx_state u) = Some h \<and> h \<le> as_of"
proof (cases "find_transaction s i")
  case None
  then show ?thesis using assms unready by (simp add: interpret_input_not_available_def)
next
  case (Some t)
  show ?thesis
  proof (cases "list_all (\<lambda>dep. case Option.bind (find_transaction s dep) (\<lambda>d. mined_height (tx_state d)) of
                None \<Rightarrow> False | Some h \<Rightarrow> h \<le> as_of) (depends_on t)")
    case True
    then have "\<forall>d\<in>set (depends_on t). \<exists>u h. find_transaction s d = Some u \<and> mined_height (tx_state u) = Some h \<and> h \<le> as_of"
      by (auto simp: list_all_iff bind_eq_Some_conv split: option.split_asm Option.bind_split_asm)
    then show ?thesis using marked [of t] assms Some True by (auto simp: interpret_input_not_available_def)
  next
    case False
    then show ?thesis using assms unready Some by (simp add: interpret_input_not_available_def)
  qed
qed

lemma finish_proof_cases:
  assumes "finish_proof prover s t unproven answer = Some (s', out)"
  obtains (failed) e where "out = Inl e" "s' = s"
  | (unready) "out = Inr NotYetProvable" "s' = s"
  | (proved) p proven where "out = Inr (ProvedOutcome p)" "s' = s" "answer = Inr proven" "proved_id p = tx_id t"
      "lock_spent_notes prover unproven (expiry_height t) = Inr (proved_lock_owner p)"
      "serialize_proven prover proven = Inr (proved_pczt p)"
  | (marked) nf as_of u where "out = Inr (MarkedUnsatisfiable (replan_required s'))"
      "answer = Inl (InputNotAvailable nf as_of)" "find_transaction s (tx_id t) = Some u"
      "record_satisfiability (dueness_at (block_height_add as_of 1)) [(tx_id t, Unsatisfiable (InputsSpent [nf]) as_of)] s = Some s'"
      "\<forall>d\<in>set (depends_on u). \<exists>v h. find_transaction s d = Some v \<and> mined_height (tx_state v) = Some h \<and> h \<le> as_of"
proof (cases answer)
  case (Inr proven)
  show ?thesis
  proof (cases "lock_spent_notes prover unproven (expiry_height t)")
    case (Inl e)
    show ?thesis by (rule failed [of "Prover e"]) (use assms Inr Inl in \<open>simp_all add: finish_proof_def\<close>)
  next
    case owner: (Inr owner)
    show ?thesis
    proof (cases "serialize_proven prover proven")
      case (Inl e)
      show ?thesis by (rule failed [of "ProveSerialize e"]) (use assms Inr owner Inl in \<open>simp_all add: finish_proof_def\<close>)
    next
      case bytes: (Inr bytes)
      show ?thesis
        by (rule proved [of "\<lparr>proved_id = tx_id t, proved_pczt = bytes, proved_lock_owner = owner\<rparr>" proven])
          (use assms Inr owner bytes in \<open>simp_all add: finish_proof_def\<close>)
    qed
  qed
next
  case (Inl f)
  show ?thesis
  proof (cases f)
    case (OtherFailure e)
    show ?thesis by (rule failed [of "Prover e"]) (use assms Inl OtherFailure in \<open>simp_all add: finish_proof_def\<close>)
  next
    case (InputNotAvailable nf as_of)
    then obtain r where r: "interpret_input_not_available s (tx_id t) nf as_of = Some (s', r)" "out = Inr r"
      using assms Inl by (auto simp: finish_proof_def)
    from r(1) show ?thesis
      by (cases rule: interpret_cases) (use r(2) Inl InputNotAvailable unready marked in \<open>simp_all\<close>)
  qed
qed

lemma find_set_anchor:
  "find_transaction (set_transfer_anchor_boundary i b s) d =
     map_option (\<lambda>u. if tx_id u = i then u\<lparr>anchor_boundary := Some b\<rparr> else u) (find_transaction s d)"
proof -
  have "List.find (\<lambda>t. tx_id t = d) (update_first (\<lambda>t. tx_id t = i) (\<lambda>t. t\<lparr>anchor_boundary := Some b\<rparr>) ts) =
     map_option (\<lambda>u. if tx_id u = i then u\<lparr>anchor_boundary := Some b\<rparr> else u) (List.find (\<lambda>t. tx_id t = d) ts)" for ts
  proof (cases "d = i")
    case True
    then show ?thesis by (induction ts) auto
  next
    case False
    then have "List.find (\<lambda>t. tx_id t = d) (update_first (\<lambda>t. tx_id t = i) (\<lambda>t. t\<lparr>anchor_boundary := Some b\<rparr>) ts) =
      List.find (\<lambda>t. tx_id t = d) ts" by (induction ts) auto
    moreover have "tx_id u \<noteq> i" if "List.find (\<lambda>t. tx_id t = d) ts = Some u" for u
      using that False unfolding find_Some_iff by blast
    ultimately show ?thesis by (simp add: map_option_case split: option.split)
  qed
  then show ?thesis by (simp add: find_transaction_def set_transfer_anchor_boundary_def on_transaction_def)
qed

lemma redraw_cases:
  assumes "committed_interval s \<noteq> 0"
    and "redraw_if_stale params (committed_interval s) drawn (max_height (dependency_mined_heights s t)) tip rng = Some (Inr (Some fresh), rng')"
    and "d \<in> set (depends_on t)" "find_transaction s d = Some u" "mined_height (tx_state u) = Some h"
  shows "h \<le> (case fresh of None \<Rightarrow> drawn | Some b \<Rightarrow> b)"
proof -
  have h: "h \<in> set (dependency_mined_heights s t)" using assms(3-5) unfolding dependency_mined_heights_iff by blast
  then obtain m where m: "max_height (dependency_mined_heights s t) = Some m"
    by (cases "dependency_mined_heights s t") (auto simp: max_height_def)
  from max_height_Some [OF m] h have "h \<le> m" by blast
  moreover have "m \<le> (case fresh of None \<Rightarrow> drawn | Some b \<Rightarrow> b)"
    using assms(2) m drawn_anchor [OF assms(1)]
    by (fastforce simp: redraw_if_stale_def candidate_anchor_def split: if_split_asm option.split_asm)
  ultimately show ?thesis by (rule order_trans)
qed

lemma redraw_fresh:
  assumes "committed_interval s \<noteq> 0"
    and "redraw_if_stale params (committed_interval s) drawn created tip rng = Some (Inr (Some (Some b)), rng')"
  shows "\<exists>nu63 h. activation_height params Nu6_3 = Some nu63 \<and> created = Some h \<and> drawn < h \<and>
    candidate_anchor (committed_interval s) nu63 h tip b"
  using assms(2) drawn_anchor [OF assms(1)]
  by (fastforce simp: redraw_if_stale_def split: if_split_asm option.split_asm)


text \<open>A proof is attempted, or the call stops with the state as it was.\<close>

lemma prove_transfer_cases:
  fixes prover :: "('e, 'f, 'p) MigrationProver"
  assumes "prove_transfer params prover s i scanned_tip rng = Some ((s', out), rng')"
  obtains (stop) "s' = s" "\<exists>e. out = Inl e"
  | (unready) "s' = s" "out = Inr NotYetProvable"
  | (attempt) t drawn fresh rng1 unproven where "find_transaction s i = Some t" "is_transfer (tx_kind t)" "tx_state t = Signed"
      "anchor_boundary t = Some drawn"
      "redraw_if_stale params (committed_interval s) drawn (max_height (dependency_mined_heights s t)) scanned_tip rng =
         Some (Inr (Some fresh) :: ('e, 'f) ProveError + _, rng1)"
      "parse_pczt prover (pczt t) = Inr unproven"
      "finish_proof prover (case fresh of None \<Rightarrow> s | Some b \<Rightarrow> set_transfer_anchor_boundary i b s) t unproven
         (prover_transfer prover unproven (case fresh of None \<Rightarrow> drawn | Some b \<Rightarrow> b)) = Some (s', out)"
proof -
  have early: thesis if "s' = s \<and> ((\<exists>e. out = Inl e) \<or> out = Inr NotYetProvable)" using that stop unready by blast
  show ?thesis
  proof (cases "find_transaction s i")
    case None
    with assms show ?thesis by (intro early) (auto simp: prove_transfer_def)
  next
    case t: (Some t)
    show ?thesis
    proof (cases "is_transfer (tx_kind t) \<and> tx_state t = Signed \<and> committed_interval s = prover_interval prover \<and> anchor_boundary t \<noteq> None")
      case False
      with assms t show ?thesis by (intro early) (auto simp: prove_transfer_def Let_def split: if_split_asm option.split_asm)
    next
      case True
      then obtain drawn where ok: "is_transfer (tx_kind t)" "tx_state t = Signed" "committed_interval s = prover_interval prover"
        "anchor_boundary t = Some drawn" by blast
      let ?redraw = "redraw_if_stale params (committed_interval s) drawn (max_height (dependency_mined_heights s t)) scanned_tip rng
        :: ((('e, 'f) ProveError + BlockHeight option option) \<times> rng) option"
      from assms t ok obtain redraw rng1 where redraw: "?redraw = Some (redraw, rng1)"
        by (auto simp: prove_transfer_def bind_eq_Some_conv)
      show ?thesis
      proof (cases "(\<exists>fresh. redraw = Inr (Some fresh)) \<and> (\<exists>p. parse_pczt prover (pczt t) = Inr p)")
        case False
        with assms t ok redraw show ?thesis
          by (intro early) (auto simp: prove_transfer_def split: sum.split_asm option.split_asm)
      next
        case True
        then obtain fresh p where r: "redraw = Inr (Some fresh)" "parse_pczt prover (pczt t) = Inr p" by blast
        with assms t ok redraw show ?thesis
          by (intro attempt [OF t ok(1,2,4) redraw [unfolded r(1)] r(2)]) (simp add: prove_transfer_def Let_def)
      qed
    qed
  qed
qed

text \<open>
  C40. Proving a transfer takes steps of the migration, and the anchor it proves against is the one the
  migration it returns holds, at or above the height every mined dependency was mined at. That anchor is
  the one drawn for the transfer, unless a dependency was mined above it: then it is redrawn, among the
  boundaries a transfer scheduled at the scanned tip could have drawn. A proof is returned
  only for a signed transfer, and only once its notes are locked to its expiry. The migration is marked only when
  the prover found the funding note spent and every dependency is mined at or below the height that
  answer is as of; on every other outcome nothing but the anchor changes.
\<close>

theorem prove_transfer_sound:
  fixes prover :: "('e, 'f, 'p) MigrationProver"
  assumes i0: "committed_interval s \<noteq> 0"
    and run: "prove_transfer params prover s i scanned_tip rng = Some ((s', out), rng')"
  shows "migration_step\<^sup>*\<^sup>* s s' \<and> (\<exists>s1.
    (s1 = s \<or> (\<exists>t drawn nu63 h b. find_transaction s i = Some t \<and> anchor_boundary t = Some drawn \<and>
       h \<in> set (dependency_mined_heights s t) \<and> drawn < h \<and> activation_height params Nu6_3 = Some nu63 \<and>
       candidate_anchor (committed_interval s) nu63 h scanned_tip b \<and> s1 = set_transfer_anchor_boundary i b s)) \<and>
    (case out of
       Inr (ProvedOutcome p) \<Rightarrow> s' = s1 \<and> proved_id p = i \<and> (\<exists>t b unproven proven.
         find_transaction s' i = Some t \<and> is_transfer (tx_kind t) \<and> tx_state t = Signed \<and> anchor_boundary t = Some b \<and>
         parse_pczt prover (pczt t) = Inr unproven \<and> prover_transfer prover unproven b = Inr proven \<and>
         lock_spent_notes prover unproven (expiry_height t) = Inr (proved_lock_owner p) \<and>
         serialize_proven prover proven = Inr (proved_pczt p) \<and>
         (\<forall>d\<in>set (depends_on t). \<forall>u h. find_transaction s' d = Some u \<and> mined_height (tx_state u) = Some h \<longrightarrow> h \<le> b))
     | Inr (MarkedUnsatisfiable r) \<Rightarrow> r = replan_required s' \<and> (\<exists>t b unproven nf as_of.
         find_transaction s1 i = Some t \<and> is_transfer (tx_kind t) \<and> tx_state t = Signed \<and> anchor_boundary t = Some b \<and>
         parse_pczt prover (pczt t) = Inr unproven \<and>
         prover_transfer prover unproven b = Inl (InputNotAvailable nf as_of) \<and>
         (\<forall>d\<in>set (depends_on t). \<exists>u h. find_transaction s1 d = Some u \<and> mined_height (tx_state u) = Some h \<and> h \<le> as_of) \<and>
         record_satisfiability (dueness_at (block_height_add as_of 1))
           [(i, Unsatisfiable (InputsSpent [nf]) as_of)] s1 = Some s')
     | _ \<Rightarrow> s' = s1))"
  using run
proof (cases rule: prove_transfer_cases)
  case stop
  then show ?thesis by (intro conjI exI [of _ s]) (auto split: sum.split)
next
  case unready
  then show ?thesis by (intro conjI exI [of _ s]) auto
next
  case (attempt t drawn fresh rng1 unproven)
  define b where "b = (case fresh of None \<Rightarrow> drawn | Some b \<Rightarrow> b)"
  define s1 where "s1 = (case fresh of None \<Rightarrow> s | Some b \<Rightarrow> set_transfer_anchor_boundary i b s)"
  define u where "u = t\<lparr>anchor_boundary := Some b\<rparr>"
  have id: "tx_id t = i" using attempt(1) unfolding find_transaction_def find_Some_iff by blast
  have step: "migration_step\<^sup>*\<^sup>* s s1"
    unfolding s1_def by (cases fresh) (auto intro: migration_step.redrawn)
  have found: "find_transaction s1 i = Some u"
    using attempt(1,4) id by (cases fresh) (simp_all add: s1_def b_def u_def find_set_anchor)
  have mined: "h \<le> b" if "d \<in> set (depends_on u)" "find_transaction s1 d = Some v" "mined_height (tx_state v) = Some h" for d v h
  proof -
    have "\<exists>w. find_transaction s d = Some w \<and> tx_state w = tx_state v"
      using that(2) by (cases fresh) (auto simp: s1_def find_set_anchor split: if_split_asm)
    with that show ?thesis using redraw_cases [OF i0 attempt(5)] by (auto simp: b_def u_def)
  qed
  have drawn: "s1 = s \<or> (\<exists>t drawn nu63 h b. find_transaction s i = Some t \<and> anchor_boundary t = Some drawn \<and>
       h \<in> set (dependency_mined_heights s t) \<and> drawn < h \<and> activation_height params Nu6_3 = Some nu63 \<and>
       candidate_anchor (committed_interval s) nu63 h scanned_tip b \<and> s1 = set_transfer_anchor_boundary i b s)"
  proof (cases fresh)
    case (Some b)
    from redraw_fresh [OF i0 attempt(5) [unfolded Some]] obtain nu63 h where
      "activation_height params Nu6_3 = Some nu63" "max_height (dependency_mined_heights s t) = Some h" "drawn < h"
      "candidate_anchor (committed_interval s) nu63 h scanned_tip b" by blast
    note fresh = this
    have "h \<in> set (dependency_mined_heights s t)" using max_height_Some [OF fresh(2)] by blast
    moreover have "s1 = set_transfer_anchor_boundary i b s" by (simp add: s1_def Some)
    ultimately show ?thesis using attempt(1,4) fresh(1,3,4) by blast
  qed (simp add: s1_def)
  have u: "is_transfer (tx_kind u)" "tx_state u = Signed" "anchor_boundary u = Some b" "parse_pczt prover (pczt u) = Inr unproven"
    using attempt(2,3,6) by (simp_all add: u_def)
  from attempt(7) [folded b_def s1_def] show ?thesis
  proof (cases rule: finish_proof_cases)
    case (failed e)
    then show ?thesis using step drawn by (intro conjI exI [of _ s1]) simp_all
  next
    case unready
    then show ?thesis using step drawn by (intro conjI exI [of _ s1]) simp_all
  next
    case (proved p proven)
    have "lock_spent_notes prover unproven (expiry_height u) = Inr (proved_lock_owner p)" using proved(5) by (simp add: u_def)
    then show ?thesis using step drawn u found mined proved(2-4,6) id
      unfolding proved(1) by (intro conjI exI [of _ s1]) (simp, simp, force)
  next
    case (marked nf as_of w)
    have "w = u" using marked(3) found id by simp
    moreover have "migration_step\<^sup>*\<^sup>* s s'" using step migration_step.recorded [OF marked(4)] by (rule rtranclp.rtrancl_into_rtrancl)
    ultimately show ?thesis using drawn u found marked(2,4,5) id
      unfolding marked(1) by (intro conjI exI [of _ s1]) (simp, simp, force)
  qed
qed

text \<open>A preparation is proved at the anchor given, in a step or none.\<close>

lemma prove_preparation_step:
  assumes "prove_preparation prover s i anchor = Some (s', out)"
  shows "migration_step\<^sup>*\<^sup>* s s' \<and>
    (\<forall>p. out = Inr (ProvedOutcome p) \<longrightarrow> s' = s \<and> proved_id p = i \<and> (\<exists>t unproven proven. find_transaction s i = Some t \<and>
       \<not> is_transfer (tx_kind t) \<and> tx_state t = Signed \<and> parse_pczt prover (pczt t) = Inr unproven \<and>
       prover_preparation prover unproven anchor = Inr proven \<and> serialize_proven prover proven = Inr (proved_pczt p)))"
proof (cases "\<exists>t unproven. find_transaction s i = Some t \<and> \<not> is_transfer (tx_kind t) \<and> tx_state t = Signed \<and>
    parse_pczt prover (pczt t) = Inr unproven")
  case False
  with assms show ?thesis by (auto simp: prove_preparation_def split: option.split_asm sum.split_asm if_split_asm)
next
  case True
  then obtain t unproven where t: "find_transaction s i = Some t" "\<not> is_transfer (tx_kind t)" "tx_state t = Signed"
    "parse_pczt prover (pczt t) = Inr unproven" by blast
  have id: "tx_id t = i" using t(1) unfolding find_transaction_def find_Some_iff by blast
  from assms t have "finish_proof prover s t unproven (prover_preparation prover unproven anchor) = Some (s', out)"
    by (simp add: prove_preparation_def)
  then show ?thesis
    by (cases rule: finish_proof_cases) (use t id in \<open>auto intro: migration_step.recorded\<close>)
qed

section \<open>A sample migration\<close>

text \<open>The funding preparation is mined; the transfer it funds is signed, and reported once by the network.\<close>

definition served_migration :: "BlockHeight option \<Rightarrow> MigrationState" where
  "served_migration report = sample_migration InProgress
     [sample_transaction 0 (Preparation 0 0) [] (Mined [0] 900),
      (sample_transaction 1 (Transfer 0) [0] Signed)\<lparr>spend_nullifiers := [[7]], broadcast_failure_at := report\<rparr>]"

definition served_backend :: "unit MigrationBackend" where
  "served_backend = \<lparr>spendable_orchard_note_values = Inr [Zatoshis 5, Zatoshis 100010000], chain_tip_height = Inr 2500,
     scheduling_params = scheduling_zip_318\<rparr>"

definition served_crypto :: "(unit, nat, nat, unit) MigrationCrypto" where
  "served_crypto = \<lparr>orchard_fvk = Some 3, account_derivation = Inr None, resolve_wallet_note = Inr\<rparr>"

definition served_tools :: "(unit, nat, nat, unit, nat, nat) PcztTools" where
  "served_tools = \<lparr>build_transfer_pczt = (\<lambda>target expiry k n v d rng. (Inr n, rng)), real_spend_nullifiers = (\<lambda>p. Inr [[7]]),
     pczt_txid = (\<lambda>p. Inr [9]), sign_pczt = (\<lambda>sk p rng. (Inr p, rng)), serialize_pczt = (\<lambda>p. Inr [8]),
     viewing_key_of = (\<lambda>sk. sk), note_nullifier = (\<lambda>n k. if n = 1 then [7] else [])\<rparr>"

definition served_params :: parameters where
  "served_params = \<lparr>network_type = Consensus.Test, activation_height = (\<lambda>_. Some 100)\<rparr>"

definition served_prover :: "(unit, unit, nat) MigrationProver" where
  "served_prover = \<lparr>prover_transfer = (\<lambda>p b. Inr p), prover_preparation = (\<lambda>p b. Inr p), prover_interval = 144,
     lock_spent_notes = (\<lambda>p h. Inr None), parse_pczt = (\<lambda>b. Inr (length b)), serialize_proven = (\<lambda>p. Inr [7])\<rparr>"


lemmas served_defs = served_migration_def served_backend_def served_crypto_def served_tools_def served_params_def served_prover_def

lemma served_anchor: "draw_anchor_boundary 144 100 900 2506 (sconst 1) = Some (Some 2304, sconst 1)"
proof -
  have age: "draw_anchor_age (sconst 1) = Some (1, sconst 1)" using draw_age_odd [of "sconst 1"] by simp
  show ?thesis
    unfolding draw_anchor_boundary_def candidate_boundary_bounds_def
    by (simp add: boundary_at_or_below_def block_height_from_u32_def word_checked_sub_def lowest_candidate_boundary_def
      boundary_at_or_above_def word_saturating_add_def Let_def)
      (subst sample_recency_weighted_boundary.simps,
       simp add: age ANCHOR_AGE_CAP_def word_checked_mul_def word_checked_sub_def)
qed

lemma served_rebuild:
  "rebuild_expired_transfer_inner (\<lambda>m v. 5) served_params served_backend served_crypto served_tools (InProcess 3)
     (served_migration report) 1 (sconst 1) =
   Some (Inr (replace_expired 1 [8] 2506 2304 [9] Signed [[7]] (served_migration report), None), sconst 1)"
proof -
  let ?s = "served_migration report"
  define t where "t = transactions ?s ! 1"
  have cand: "rebuild_candidate served_backend ?s 1 = (Inr (t, 0, 2501) :: (unit, unit) RebuildError + _)"
    by (simp add: t_def rebuild_candidate_def served_defs sample_defs scheduling_zip_318_def anchor_interval_zip_318_def
      block_height_add_def word_saturating_add_def find_transaction_def dead_dependency_def is_expired_def)
  have ins: "rebuild_inputs served_backend served_crypto served_tools (InProcess 3) [7] (Zatoshis 100010000) =
      (Inr (3, None, 1) :: (unit, unit) RebuildError + _)"
    by (simp add: rebuild_inputs_def served_defs)
  have outs: "migration_outputs (denominations ?s) = Some [Zatoshis 100010000, Zatoshis 200010000]"
    by (simp add: migration_outputs_def served_defs sample_defs zatoshis_add_def u64_checked_add_def zatoshis_from_u64_def MAX_MONEY_def COIN_def result_ok_def)
  have created: "max_height (dependency_mined_heights ?s t) = Some 900"
    by (simp add: t_def max_height_def dependency_mined_heights_def served_defs sample_defs find_transaction_def List.map_filter_def)
  have base: "block_height_add (chain_base ?s 2501) 5 = 2506"
    by (simp add: chain_base_def max_height_def served_defs sample_defs block_height_add_def word_saturating_add_def)
  have tools: "build_transfer_pczt served_tools 2501 (Zip318.expiry_height 2506) 3 1 (Zatoshis 100000000) None (sconst 1) = (Inr 1, sconst 1)"
    "finish_rebuild served_tools (InProcess 3) 1 1 (sconst 1) =
       (Inr ([[7]], [9], [8], Signed, None) :: (unit, unit) RebuildError + _, sconst 1)"
    by (simp_all add: finish_rebuild_def served_tools_def)
  have delay: "delay_draw (\<lambda>m v. 5) (transfer_delay scheduling_zip_318) (sconst 1) = Some (5, sconst 1)"
    by (subst delay_draw.simps) (simp add: scheduling_zip_318_def)
  have made: "rebuild_on_schedule (\<lambda>m v. 5) (scheduling_params served_backend) served_tools (InProcess 3) ?s 1 2501 100 900
      (Zatoshis 100000000) (3, None, 1) (sconst 1) =
    Some (Inr (replace_expired 1 [8] 2506 2304 [9] Signed [[7]] ?s, None) :: (unit, unit) RebuildError + _, sconst 1)"
    using delay base served_anchor tools
    by (simp add: rebuild_on_schedule_def served_backend_def Let_def) (simp add: scheduling_zip_318_def anchor_interval_zip_318_def)
  have parts: "activation_height served_params Nu6_3 = Some 100" "list_get (crossing_values (denominations ?s)) 0 = Some (Zatoshis 100000000)"
    "spend_nullifiers t = [[7]]" "list_get [Zatoshis 100010000, Zatoshis 200010000] 0 = Some (Zatoshis 100010000)"
    by (simp_all add: t_def served_defs sample_defs list_get_def)
  show ?thesis
    by (simp add: rebuild_expired_transfer_inner_def cand parts created outs ins made del: One_nat_def)
qed


text \<open>The preparation was mined above the anchor drawn, 864, so the anchor is drawn anew.\<close>

theorem prove_transfer_sound_witness:
  "\<exists>p. prove_transfer served_params served_prover (served_migration None) 1 2506 (sconst 1) =
     Some ((set_transfer_anchor_boundary 1 2304 (served_migration None), Inr (ProvedOutcome p)), sconst 1) \<and>
   migration_step\<^sup>*\<^sup>* (served_migration None) (set_transfer_anchor_boundary 1 2304 (served_migration None)) \<and> proved_id p = 1"
proof -
  let ?s = "served_migration None"
  define t where "t = transactions ?s ! 1"
  have t: "find_transaction ?s 1 = Some t" "is_transfer (tx_kind t)" "tx_state t = Signed" "anchor_boundary t = Some 864" "tx_id t = 1"
    "pczt t = []" by (simp_all add: t_def served_migration_def sample_defs find_transaction_def)
  have i: "committed_interval ?s = 144" "prover_interval served_prover = 144" by (simp_all add: served_defs sample_defs)
  have created: "max_height (dependency_mined_heights ?s t) = Some 900"
    by (simp add: t_def max_height_def dependency_mined_heights_def served_defs sample_defs find_transaction_def List.map_filter_def)
  have redraw: "redraw_if_stale served_params 144 864 (Some 900) 2506 (sconst 1) =
      Some (Inr (Some (Some 2304)) :: (unit, unit) ProveError + _, sconst 1)"
    using served_anchor by (simp add: redraw_if_stale_def served_params_def)
  have run: "prove_transfer served_params served_prover ?s 1 2506 (sconst 1) = Some ((set_transfer_anchor_boundary 1 2304 ?s,
      Inr (ProvedOutcome \<lparr>proved_id = 1, proved_pczt = [7], proved_lock_owner = None\<rparr>)), sconst 1)"
    by (simp add: prove_transfer_def t i created redraw Let_def) (simp add: served_prover_def finish_proof_def t(5))
  have "committed_interval ?s \<noteq> 0" by (simp add: i)
  from prove_transfer_sound [OF this run] run show ?thesis by simp
qed

text \<open>A transfer rebuilt with a report: a step proves it while its row still waits for the reevaluation.\<close>

lemma rebuilt_keeps_report:
  "let s = replace_expired 1 [8] 2506 2304 [9] Signed [[7]] (served_migration (Some 1500)) in
   rebuild_expired_transfer (\<lambda>m v. 5) served_params served_backend served_crypto served_tools 3
     (served_migration (Some 1500)) 1 (sconst 1) = Some (Inr s, sconst 1) \<and>
   next_step s (dueness_at 2600) [] = StepProve [prove_target (transactions s ! 1)] \<and>
   awaits_reevaluation (transaction_status s (dueness_at 2600) (dead_set s (dueness_at 2600)) (transactions s ! 1))"
proof -
  let ?s = "replace_expired 1 [8] 2506 2304 [9] Signed [[7]] (served_migration (Some 1500))"
  have s: "?s = sample_migration InProgress [sample_transaction 0 (Preparation 0 0) [] (Mined [0] 900),
      (sample_transaction 1 (Transfer 0) [0] Signed)\<lparr>pczt := [8], scheduled_height := 2506,
         expiry_height := Zip318.expiry_height 2506, anchor_boundary := Some 2304, txid := [9], spend_nullifiers := [[7]],
         broadcast_failure_at := Some 1500\<rparr>]"
    by (simp add: replace_expired_def on_transaction_def served_migration_def sample_defs)
  have made: "rebuild_expired_transfer (\<lambda>m v. 5) served_params served_backend served_crypto served_tools 3
     (served_migration (Some 1500)) 1 (sconst 1) = Some (Inr ?s, sconst 1)"
    by (simp add: rebuild_expired_transfer_def served_rebuild)
  have "next_step ?s (dueness_at 2600) [] = StepProve [prove_target (transactions ?s ! 1)]"
    unfolding s by (simp add: kernel_eval sample_defs dueness_at_def Zip318.expiry_height_def EXPIRY_MODULUS_def EXPIRY_WINDOW_def
      block_height_add_def word_saturating_add_def block_height_from_u32_def provable_targets_def)
  moreover have "awaits_reevaluation (transaction_status ?s (dueness_at 2600) (dead_set ?s (dueness_at 2600)) (transactions ?s ! 1))"
    unfolding s by (simp add: awaits_reevaluation_def transaction_status_def disposition_def Let_def sample_defs kernel_eval
      dueness_at_def Zip318.expiry_height_def EXPIRY_MODULUS_def EXPIRY_WINDOW_def
      block_height_add_def word_saturating_add_def block_height_from_u32_def)
  ultimately show ?thesis using made by (simp add: Let_def)
qed

end
