(* ===== verification/SigningRounds.thy ===== *)
theory SigningRounds
  imports MigrationState
begin

text \<open>
  Model of \<open>zcash_pool_migration/src/signing_rounds.rs\<close>: the transactions of a run grouped into signing
  rounds of at most a budget of actions, exactly (\<open>MinRounds\<close>) or greedily (\<open>NextFit\<close>), and the two
  inverse queries. Counts are \<open>usize\<close>, hence naturals; actions and budgets are \<open>u32\<close>. In the table of
  the dynamic program \<open>None\<close> stands for the \<open>NEG\<close> of the code.
\<close>

section \<open>Transactions, rounds and budgets\<close>

definition PREPARATION_ACTIONS :: nat where
  "PREPARATION_ACTIONS = PREP_TX_ACTIONS"

definition TRANSFER_ACTIONS :: nat where
  "TRANSFER_ACTIONS = CROSSING_SOURCE_ACTIONS + CROSSING_DESTINATION_ACTIONS"

fun action_weight :: "MigrationTxKind \<Rightarrow> u32" where
  "action_weight (Preparation l i) = of_nat PREPARATION_ACTIONS"
| "action_weight (Transfer c) = of_nat TRANSFER_ACTIONS"

type_synonym SigningRoundBudget = u32

definition BUDGET_KEYSTONE :: SigningRoundBudget where
  "BUDGET_KEYSTONE = 96"

definition BUDGET_DEFAULT :: SigningRoundBudget where
  "BUDGET_DEFAULT = 512"

definition minimum_feasible :: SigningRoundBudget where
  "minimum_feasible = of_nat PREPARATION_ACTIONS"

record PlannedTx =
  pl_id :: MigrationTransferId
  pl_kind :: MigrationTxKind
  actions :: u32
  pl_depends_on :: "MigrationTransferId list"
  pl_scheduled_height :: "BlockHeight option"

definition planned_tx_new ::
    "MigrationTransferId \<Rightarrow> MigrationTxKind \<Rightarrow> MigrationTransferId list \<Rightarrow> BlockHeight option \<Rightarrow> PlannedTx" where
  "planned_tx_new i kind deps height =
     \<lparr>pl_id = i, pl_kind = kind, actions = action_weight kind, pl_depends_on = deps, pl_scheduled_height = height\<rparr>"

fun kind_is_preparation :: "MigrationTxKind \<Rightarrow> bool" where
  "kind_is_preparation (Preparation l i) \<longleftrightarrow> True"
| "kind_is_preparation (Transfer c) \<longleftrightarrow> False"

definition pl_is_preparation :: "PlannedTx \<Rightarrow> bool" where
  "pl_is_preparation t \<longleftrightarrow> kind_is_preparation (pl_kind t)"

definition pl_is_transfer :: "PlannedTx \<Rightarrow> bool" where
  "pl_is_transfer t \<longleftrightarrow> \<not> kind_is_preparation (pl_kind t)"

record PlannedSigningRound =
  round_txs :: "PlannedTx list"
  round_actions :: u32

definition planned_round_new :: "PlannedTx list \<Rightarrow> PlannedSigningRound" where
  "planned_round_new ts = \<lparr>round_txs = ts, round_actions = sum_list (map actions ts)\<rparr>"

section \<open>The order-preserving greedy\<close>

definition next_fit_step ::
    "u32 \<Rightarrow> PlannedSigningRound list \<times> PlannedTx list \<times> u32 \<Rightarrow> PlannedTx \<Rightarrow> PlannedSigningRound list \<times> PlannedTx list \<times> u32" where
  "next_fit_step limit = (\<lambda>(rounds, current, acts) t.
     if current \<noteq> [] \<and> limit < word_saturating_add acts (actions t)
     then (rounds @ [planned_round_new current], [t], word_saturating_add 0 (actions t))
     else (rounds, current @ [t], word_saturating_add acts (actions t)))"

definition next_fit_pack :: "PlannedTx list \<Rightarrow> SigningRoundBudget \<Rightarrow> PlannedSigningRound list" where
  "next_fit_pack ts limit =
     (let (rounds, current, acts) = foldl (next_fit_step limit) ([], [], 0) ts in
      if current \<noteq> [] then rounds @ [planned_round_new current] else rounds)"

definition next_fit_push :: "u32 \<Rightarrow> nat \<times> u32 \<times> bool \<Rightarrow> u32 \<Rightarrow> nat \<times> u32 \<times> bool" where
  "next_fit_push limit = (\<lambda>(rounds, acts, any) w.
     if any \<and> limit < word_saturating_add acts w then (rounds + 1, word_saturating_add 0 w, True)
     else (rounds, word_saturating_add acts w, True))"

definition next_fit_round_count :: "nat \<Rightarrow> nat \<Rightarrow> SigningRoundBudget \<Rightarrow> nat" where
  "next_fit_round_count n_prep n_transfer limit =
     (let start = foldl (next_fit_push limit) (0, 0, False) (replicate n_prep (of_nat PREPARATION_ACTIONS));
          (rounds, acts, any) = foldl (next_fit_push limit) start (replicate n_transfer (of_nat TRANSFER_ACTIONS))
      in if any then rounds + 1 else rounds)"

section \<open>The exact solution\<close>

text \<open>Saturating at \<open>u64\<close> and then at \<open>u32\<close>.\<close>

definition total_actions :: "nat \<Rightarrow> nat \<Rightarrow> u32" where
  "total_actions n_prep n_transfer =
     (let prep = min (n_prep * PREPARATION_ACTIONS) (2 ^ 64 - 1);
          xfer = min (n_transfer * TRANSFER_ACTIONS) (2 ^ 64 - 1);
          total = min (prep + xfer) (2 ^ 64 - 1)
      in if total < 2 ^ 32 then of_nat total else - 1)"

function transfer_rounds :: "nat \<Rightarrow> nat \<Rightarrow> (nat \<times> nat) list" where
  "transfer_rounds limit left =
     (if left = 0 then []
      else let quota = min left (max (limit div TRANSFER_ACTIONS) 1)
           in (0, quota) # transfer_rounds limit (left - quota))"
  by auto
termination by (relation "measure snd") (auto simp: min_def max_def)

declare transfer_rounds.simps [simp del]

definition dp_update ::
    "(nat \<Rightarrow> nat) \<Rightarrow> nat option list \<Rightarrow> nat \<Rightarrow> nat option list \<times> nat list \<Rightarrow> nat \<Rightarrow> nat option list \<times> nat list" where
  "dp_update lo_cap dp u = (\<lambda>(next, choice) k.
     case dp ! u of
       None \<Rightarrow> (next, choice)
     | Some best \<Rightarrow>
         let cand = best + lo_cap k in
         if (case next ! (u + k) of None \<Rightarrow> True | Some b \<Rightarrow> b < cand)
         then (next[u + k := Some cand], choice[u + k := k]) else (next, choice))"

definition dp_round :: "nat \<Rightarrow> nat \<Rightarrow> (nat \<Rightarrow> nat) \<Rightarrow> nat option list \<Rightarrow> nat option list \<times> nat list" where
  "dp_round n_prep mp lo_cap dp =
     foldl (\<lambda>acc u. if dp ! u = None then acc
         else foldl (dp_update lo_cap dp u) acc [0..<Suc (min mp (n_prep - u))])
       (replicate (n_prep + 1) None, replicate (n_prep + 1) 0) [0..<Suc n_prep]"

primrec dp_rounds :: "nat \<Rightarrow> nat \<Rightarrow> (nat \<Rightarrow> nat) \<Rightarrow> nat \<Rightarrow> nat option list \<times> nat list list" where
  "dp_rounds n_prep mp lo_cap 0 = ((replicate (n_prep + 1) None)[0 := Some 0], [])"
| "dp_rounds n_prep mp lo_cap (Suc r) =
     (let (dp, choice) = dp_rounds n_prep mp lo_cap r; (next, this_choice) = dp_round n_prep mp lo_cap dp
      in (next, choice @ [this_choice]))"

text \<open>The choices are walked from the last round to the first.\<close>

primrec reconstruct :: "nat list list \<Rightarrow> nat \<Rightarrow> nat list" where
  "reconstruct [] u = []"
| "reconstruct (c # cs) u = reconstruct cs (u - c ! u) @ [c ! u]"

definition best_prep_distribution :: "nat \<Rightarrow> nat \<Rightarrow> (nat \<Rightarrow> nat) \<Rightarrow> nat \<Rightarrow> nat \<Rightarrow> nat list option" where
  "best_prep_distribution n_prep mp lo_cap rounds need =
     (let (dp, choice) = dp_rounds n_prep mp lo_cap rounds in
      case dp ! n_prep of
        None \<Rightarrow> None
      | Some best \<Rightarrow> if best < need then None else Some (reconstruct (rev choice) n_prep))"

primrec fill_transfers :: "(nat \<Rightarrow> nat) \<Rightarrow> nat list \<Rightarrow> nat \<Rightarrow> (nat \<times> nat) list" where
  "fill_transfers lo_cap [] left = []"
| "fill_transfers lo_cap (k # ks) left =
     (let quota = min left (lo_cap k) in (k, quota) # fill_transfers lo_cap ks (left - quota))"

definition round_capacity :: "nat \<Rightarrow> nat \<Rightarrow> nat" where
  "round_capacity limit k = (limit - k * PREPARATION_ACTIONS) div TRANSFER_ACTIONS"

text \<open>\<open>None\<close> is the \<open>unreachable!\<close> after the loop.\<close>

definition solve_two_size :: "nat \<Rightarrow> nat \<Rightarrow> SigningRoundBudget \<Rightarrow> (nat \<times> nat) list option" where
  "solve_two_size n_prep n_transfer budget =
     (if n_prep = 0 \<and> n_transfer = 0 then Some []
      else let limit = unat budget in
        if limit < PREPARATION_ACTIONS then Some (replicate n_prep (1, 0) @ transfer_rounds limit n_transfer)
        else let mp = limit div PREPARATION_ACTIONS;
                 lo_cap = round_capacity limit;
                 volume_bound = nat_div_ceil (unat (total_actions n_prep n_transfer)) limit;
                 large_bound = nat_div_ceil n_prep mp;
                 lower = max (max large_bound volume_bound) 1;
                 upper = n_prep + nat_div_ceil n_transfer (max (lo_cap 0) 1) + 1
             in map_option (\<lambda>ks. filter (\<lambda>(p, t). 0 < p + t) (fill_transfers lo_cap ks n_transfer))
                  (find_map (\<lambda>rounds. best_prep_distribution n_prep mp lo_cap rounds n_transfer) [lower..<Suc upper]))"

primrec take_quotas :: "(nat \<times> nat) list \<Rightarrow> PlannedTx list \<Rightarrow> PlannedTx list \<Rightarrow> PlannedSigningRound list" where
  "take_quotas [] preps transfers = []"
| "take_quotas (q # qs) preps transfers =
     planned_round_new (take (fst q) preps @ take (snd q) transfers)
       # take_quotas qs (drop (fst q) preps) (drop (snd q) transfers)"

definition min_rounds_pack :: "PlannedTx list \<Rightarrow> SigningRoundBudget \<Rightarrow> PlannedSigningRound list option" where
  "min_rounds_pack ts budget =
     (let preps = filter pl_is_preparation ts; transfers = filter pl_is_transfer ts in
      map_option (\<lambda>qs. take_quotas qs preps transfers) (solve_two_size (length preps) (length transfers) budget))"

definition min_signing_rounds :: "nat \<Rightarrow> nat \<Rightarrow> SigningRoundBudget \<Rightarrow> nat option" where
  "min_signing_rounds n_prep n_transfer budget = map_option length (solve_two_size n_prep n_transfer budget)"

section \<open>The two inverse queries\<close>

lemma midpoint:
  fixes lo hi :: u32
  assumes "lo < hi"
  shows "unat (lo + (hi - lo) div 2) = unat lo + (unat hi - unat lo) div 2"
    "unat (lo + (hi - lo) div 2 + 1) = unat lo + (unat hi - unat lo) div 2 + 1"
proof -
  let ?d = "(unat hi - unat lo) div 2"
  have le: "unat lo < unat hi" "unat hi < 2 ^ 32"
    using assms unsigned_less [of hi, where ?'a = nat] by (simp_all add: word_less_nat_alt)
  have d: "unat ((hi - lo) div 2) = ?d"
    using le by (simp add: unat_div unat_sub word_le_nat_alt)
  have "?d < unat hi - unat lo" using le by simp
  then have m: "unat lo + ?d < 2 ^ 32 - 1" using le by simp
  then show mid: "unat (lo + (hi - lo) div 2) = unat lo + ?d"
    by (subst unat_add_lem [THEN iffD1]) (simp_all add: d)
  show "unat (lo + (hi - lo) div 2 + 1) = unat lo + ?d + 1"
    using m by (subst unat_add_lem [THEN iffD1]) (simp_all add: mid)
qed

function budget_search :: "nat \<Rightarrow> nat \<Rightarrow> nat \<Rightarrow> u32 \<Rightarrow> u32 \<Rightarrow> u32 option" where
  "budget_search n_prep n_transfer k lo hi =
     (if lo < hi then
        let mid = lo + (hi - lo) div 2 in
        Option.bind (min_signing_rounds n_prep n_transfer mid) (\<lambda>r.
          if r \<le> k then budget_search n_prep n_transfer k lo mid
          else budget_search n_prep n_transfer k (mid + 1) hi)
      else Some lo)"
  by auto

termination by (relation "measure (\<lambda>(n, m, k, lo, hi). unat hi - unat lo)")
    (auto simp: midpoint word_less_nat_alt)

declare budget_search.simps [simp del]

definition min_budget_for_rounds :: "nat \<Rightarrow> nat \<Rightarrow> nat \<Rightarrow> u32 option" where
  "min_budget_for_rounds n_prep n_transfer k =
     (let lo = minimum_feasible in
      budget_search n_prep n_transfer k lo (max (total_actions n_prep n_transfer) lo))"

record RunShape =
  preparation_transactions :: nat
  transfers :: nat

definition shape_signing_rounds :: "RunShape \<Rightarrow> SigningRoundBudget \<Rightarrow> nat option" where
  "shape_signing_rounds shape budget = min_signing_rounds (preparation_transactions shape) (transfers shape) budget"

definition shape_total_actions :: "RunShape \<Rightarrow> u32" where
  "shape_total_actions shape = total_actions (preparation_transactions shape) (transfers shape)"

record RunSigningCapacity =
  capacity_budget :: SigningRoundBudget
  max_rounds :: nat
  max_notes :: nat

definition capacity_single_round :: "SigningRoundBudget \<Rightarrow> RunSigningCapacity" where
  "capacity_single_round b = \<lparr>capacity_budget = b, max_rounds = 1, max_notes = MIGRATION_MAX_PREPARED_NOTES_PER_RUN\<rparr>"

definition CAPACITY_KEYSTONE :: RunSigningCapacity where
  "CAPACITY_KEYSTONE = capacity_single_round BUDGET_KEYSTONE"

text \<open>The closure that gives the shape of a run may panic.\<close>

definition run_fits :: "RunSigningCapacity \<Rightarrow> (nat \<Rightarrow> RunShape option option) \<Rightarrow> nat \<Rightarrow> bool option" where
  "run_fits capacity shape_at n =
     Option.bind (shape_at n) (\<lambda>s. case s of
        None \<Rightarrow> Some False
      | Some shape \<Rightarrow>
          map_option (\<lambda>r. r \<le> max_rounds capacity) (shape_signing_rounds shape (capacity_budget capacity)))"

text \<open>A cap of zero is the failed \<open>expect\<close> of the code.\<close>

function size_search :: "(nat \<Rightarrow> bool option) \<Rightarrow> nat \<Rightarrow> nat \<Rightarrow> nat \<Rightarrow> nat option" where
  "size_search accepts lo hi best =
     (if hi < lo then Some best
      else let mid = lo + (hi - lo) div 2 in
        if mid = 0 then None
        else Option.bind (accepts mid) (\<lambda>f.
          if f then size_search accepts (mid + 1) hi mid else size_search accepts lo (mid - 1) best))"
  by auto
termination by (relation "measure (\<lambda>(f, lo, hi, b). Suc hi - lo)") auto

declare size_search.simps [simp del]

definition largest_run_size_within :: "RunSigningCapacity \<Rightarrow> (nat \<Rightarrow> RunShape option option) \<Rightarrow> nat option" where
  "largest_run_size_within capacity shape_at =
     Option.bind (run_fits capacity shape_at (max_notes capacity)) (\<lambda>f.
       if f then Some (max_notes capacity)
       else size_search (run_fits capacity shape_at) 1 (max_notes capacity - 1) 1)"

end
