(* ===== verification/FirstFit.thy ===== *)
theory FirstFit
  imports Preparation
begin

text \<open>
  Model of \<open>zcash_pool_migration/src/preparation/first_fit_decreasing.rs\<close>: the strategy that packs the
  funding notes, largest first, into the transaction that is open, with the proof that every plan
  it makes passes the certificate. \<open>sort_unstable_by_key\<close> leaves the order of equal keys open, so
  the sorting of the indices is a parameter, known only to permute.
\<close>

section \<open>The strategy\<close>

definition CHANGE_SLOT :: nat where
  "CHANGE_SLOT = 1"

record OpenTransaction =
  open_inputs :: "nat list"
  input_total :: nat
  open_outputs :: "nat list"
  output_total :: nat

definition open_new :: OpenTransaction where
  "open_new = \<lparr>open_inputs = [], input_total = 0, open_outputs = [], output_total = 0\<rparr>"

definition open_slots :: "OpenTransaction \<Rightarrow> nat" where
  "open_slots ot = length (open_inputs ot) + length (open_outputs ot)"

definition has_room :: "OpenTransaction \<Rightarrow> bool" where
  "has_room ot \<longleftrightarrow> open_slots ot + 1 + CHANGE_SLOT \<le> PREP_TX_ACTIONS"

definition unassigned :: "nat \<Rightarrow> OpenTransaction \<Rightarrow> nat" where
  "unassigned fee ot = u64_saturating_sub (u64_saturating_sub (input_total ot) fee) (output_total ot)"

primrec wallet_notes :: "nat list \<Rightarrow> nat list \<Rightarrow> PrepInput list option" where
  "wallet_notes available [] = Some []"
| "wallet_notes available (index # rest) =
     Option.bind (list_get available index) (\<lambda>v.
     Option.bind (expect_zat v) (\<lambda>z. map_option (Cons (WalletNote index z)) (wallet_notes available rest)))"

definition open_close :: "nat list \<Rightarrow> nat \<Rightarrow> OpenTransaction \<Rightarrow> PrepTransaction option" where
  "open_close available fee ot =
     Option.bind (map_option (map Funding) (expect_zats (open_outputs ot))) (\<lambda>outs.
       let chg = u64_sub (u64_sub (input_total ot) fee) (output_total ot) in
       Option.bind (if 0 < chg then map_option (\<lambda>z. outs @ [Change z]) (expect_zat chg) else Some outs) (\<lambda>outs.
       map_option (\<lambda>ins. \<lparr>inputs = ins, outputs = outs\<rparr>) (wallet_notes available (open_inputs ot))))"

text \<open>The pass that uses wallet notes directly: the targets left, the flags, and the notes used.\<close>

primrec match_direct ::
    "nat list \<Rightarrow> nat list \<Rightarrow> bool list \<Rightarrow> (nat \<times> Zatoshis) list
     \<Rightarrow> (nat list \<times> bool list \<times> (nat \<times> Zatoshis) list) option" where
  "match_direct available [] used direct = Some ([], used, direct)"
| "match_direct available (target # rest) used direct =
     (case find (\<lambda>i. \<not> used ! i \<and> available ! i = target) [0..<length available] of
        Some i \<Rightarrow>
          Option.bind (expect_zat target) (\<lambda>z.
            match_direct available rest (used[i := True]) (direct @ [(i, z)]))
      | None \<Rightarrow> map_option (\<lambda>(kept, r). (target # kept, r)) (match_direct available rest used direct))"

text \<open>The inner loop, for one target.\<close>

function place_target ::
    "nat list \<Rightarrow> nat \<Rightarrow> nat \<Rightarrow> OpenTransaction \<Rightarrow> nat list \<Rightarrow> PrepTransaction list
     \<Rightarrow> (PrepError + OpenTransaction \<times> nat list \<times> PrepTransaction list) option" where
  "place_target available fee target ot spendable transactions =
     (if open_inputs ot \<noteq> [] \<and> has_room ot \<and> target \<le> unassigned fee ot
      then Some (Inr (ot\<lparr>output_total := u64_add (output_total ot) target, open_outputs := open_outputs ot @ [target]\<rparr>,
             spendable, transactions))
      else if has_room ot \<and> spendable \<noteq> []
      then let index = hd spendable in
        Option.bind (list_get available index) (\<lambda>v.
          place_target available fee target
            (ot\<lparr>input_total := u64_add (input_total ot) v, open_inputs := open_inputs ot @ [index]\<rparr>)
            (tl spendable) transactions)
      else if open_outputs ot = [] then Some (Inl InsufficientFunds)
      else Option.bind (open_close available fee ot) (\<lambda>tx.
        place_target available fee target open_new spendable (transactions @ [tx])))"
  by pat_completeness auto
termination
  by (relation "measure (\<lambda>(available, fee, target, ot, spendable, transactions).
      2 * length spendable + (if open_outputs ot = [] then 0 else 1))")
    (auto simp: open_new_def neq_Nil_conv)

declare place_target.simps [simp del]

primrec place_targets ::
    "nat list \<Rightarrow> nat \<Rightarrow> nat list \<Rightarrow> OpenTransaction \<Rightarrow> nat list \<Rightarrow> PrepTransaction list
     \<Rightarrow> (PrepError + OpenTransaction \<times> nat list \<times> PrepTransaction list) option" where
  "place_targets available fee [] ot spendable transactions = Some (Inr (ot, spendable, transactions))"
| "place_targets available fee (target # rest) ot spendable transactions =
     Option.bind (place_target available fee target ot spendable transactions) (\<lambda>r.
       case r of Inl e \<Rightarrow> Some (Inl e)
       | Inr (ot, spendable, transactions) \<Rightarrow> place_targets available fee rest ot spendable transactions)"

definition plan_first_fit ::
    "((nat \<Rightarrow> nat) \<Rightarrow> nat list \<Rightarrow> nat list) \<Rightarrow> Zatoshis list \<Rightarrow> Zatoshis list \<Rightarrow> Zatoshis \<Rightarrow> plan_result" where
  "plan_first_fit sort_indices available funding fee_per_tx =
     (case validate_instance available funding of
        Inl e \<Rightarrow> Some (Inl e)
      | Inr _ \<Rightarrow>
          let fee = zat fee_per_tx;
              available = map zat available;
              targets = rev (sort (filter (\<lambda>v. 0 < v) (map zat funding)))
          in Option.bind (match_direct available targets (replicate (length available) False) []) (\<lambda>(targets, used, direct).
            if targets = [] then Some (Inr \<lparr>layers = [], direct_funding = direct\<rparr>)
            else
              let spendable = sort_indices (\<lambda>i. available ! i) (filter (\<lambda>i. \<not> used ! i) [0..<length available])
              in Option.bind (place_targets available fee targets open_new spendable []) (\<lambda>r.
                case r of
                  Inl e \<Rightarrow> Some (Inl e)
                | Inr (ot, spendable, transactions) \<Rightarrow>
                    map_option (\<lambda>tx. Inr \<lparr>layers = [transactions @ [tx]], direct_funding = direct\<rparr>)
                      (open_close available fee ot))))"

definition first_fit_decreasing :: "((nat \<Rightarrow> nat) \<Rightarrow> nat list \<Rightarrow> nat list) \<Rightarrow> PreparationStrategy" where
  "first_fit_decreasing sort_indices =
     \<lparr>strategy_name = ''first-fit-decreasing'', strategy_plan = plan_first_fit sort_indices\<rparr>"

section \<open>Packing keeps transactions valid\<close>

lemma sum_distinct_le:
  "distinct is \<Longrightarrow> \<forall>i\<in>set is. i < length A \<Longrightarrow> (\<Sum>i\<leftarrow>is. A ! i) \<le> (sum_list A :: nat)"
proof -
  assume d: "distinct is" and r: "\<forall>i\<in>set is. i < length A"
  have "(\<Sum>i\<leftarrow>is. A ! i) = (\<Sum>i\<in>set is. A ! i)" using d by (rule sum_list_distinct_conv_sum_set)
  also have "\<dots> \<le> (\<Sum>i\<in>{..<length A}. A ! i)" using r by (intro sum_mono2) auto
  also have "\<dots> = sum_list A" by (simp add: sum_list_sum_nth atLeast0LessThan)
  finally show ?thesis .
qed

text \<open>The source notes spent by closed transactions, and the funding values these mint.\<close>

definition notes_of :: "PrepTransaction list \<Rightarrow> nat list" where
  "notes_of txs = concat (map wallet_ref (concat (map inputs txs)))"

definition funding_value :: "PrepOutput \<Rightarrow> nat list" where
  "funding_value out = (case out of Funding v \<Rightarrow> [zat v] | _ \<Rightarrow> [])"

definition minted_by :: "PrepTransaction list \<Rightarrow> nat list" where
  "minted_by txs = concat (map funding_value (concat (map outputs txs)))"

definition closed_ok :: "nat list \<Rightarrow> nat \<Rightarrow> PrepTransaction \<Rightarrow> bool" where
  "closed_ok A fee tx \<longleftrightarrow> transaction_ok fee tx \<and> transaction_values_valid tx \<and>
     (\<forall>i\<in>set (inputs tx). \<exists>k. i = WalletNote k (Zatoshis (A ! k)) \<and> k < length A)"

definition open_ok :: "nat list \<Rightarrow> nat \<Rightarrow> OpenTransaction \<Rightarrow> bool" where
  "open_ok A fee ot \<longleftrightarrow>
     input_total ot = (\<Sum>i\<leftarrow>open_inputs ot. A ! i) \<and> output_total ot = sum_list (open_outputs ot) \<and>
     open_slots ot + CHANGE_SLOT \<le> PREP_TX_ACTIONS \<and>
     (open_outputs ot \<noteq> [] \<longrightarrow> open_inputs ot \<noteq> [] \<and> fee + output_total ot \<le> input_total ot)"

definition packing :: "nat list \<Rightarrow> nat \<Rightarrow> OpenTransaction \<Rightarrow> nat list \<Rightarrow> PrepTransaction list \<Rightarrow> bool" where
  "packing A fee ot rest txs \<longleftrightarrow> open_ok A fee ot \<and> (\<forall>tx\<in>set txs. closed_ok A fee tx) \<and>
     distinct (notes_of txs @ open_inputs ot @ rest) \<and> (\<forall>i\<in>set (notes_of txs @ open_inputs ot @ rest). i < length A)"

lemma notes_of_append [simp]: "notes_of (xs @ ys) = notes_of xs @ notes_of ys"
  by (simp add: notes_of_def)

lemma minted_by_append [simp]: "minted_by (xs @ ys) = minted_by xs @ minted_by ys"
  by (simp add: minted_by_def)

lemma notes_of_Nil [simp]: "notes_of [] = []" by (simp add: notes_of_def)

lemma minted_by_Nil [simp]: "minted_by [] = []" by (simp add: minted_by_def)

lemma wallet_notes_ok:
  "\<forall>i\<in>set is. i < length A \<Longrightarrow> sum_list A \<le> MAX_MONEY \<Longrightarrow>
   wallet_notes A is = Some (map (\<lambda>i. WalletNote i (Zatoshis (A ! i))) is)"
proof (induction "is")
  case (Cons i "is")
  then have "A ! i \<le> MAX_MONEY" using member_le_sum_list [of "A ! i" A] by fastforce
  then show ?case using Cons by (simp add: list_get_def expect_zat_ok)
qed simp

lemma open_close_ok:
  assumes p: "packing A fee ot rest txs" and ne: "open_outputs ot \<noteq> []" and A: "sum_list A \<le> MAX_MONEY"
    and fee: "fee \<le> MAX_MONEY"
  shows "\<exists>tx. open_close A fee ot = Some tx \<and> closed_ok A fee tx \<and> notes_of [tx] = open_inputs ot \<and>
    minted_by [tx] = open_outputs ot"
proof -
  let ?chg = "input_total ot - fee - output_total ot"
  let ?ins = "map (\<lambda>i. WalletNote i (Zatoshis (A ! i))) (open_inputs ot)"
  let ?outs = "map (Funding \<circ> Zatoshis) (open_outputs ot) @ (if 0 < ?chg then [Change (Zatoshis ?chg)] else [])"
  let ?tx = "\<lparr>inputs = ?ins, outputs = ?outs\<rparr>"
  have o1: "input_total ot = (\<Sum>i\<leftarrow>open_inputs ot. A ! i)" "output_total ot = sum_list (open_outputs ot)"
      "open_slots ot + CHANGE_SLOT \<le> PREP_TX_ACTIONS" "open_inputs ot \<noteq> []" "fee + output_total ot \<le> input_total ot"
    using p ne by (auto simp: packing_def open_ok_def)
  have idx: "distinct (open_inputs ot)" "\<forall>i\<in>set (open_inputs ot). i < length A" using p by (auto simp: packing_def)
  have "input_total ot \<le> sum_list A" unfolding o1(1) by (rule sum_distinct_le [OF idx])
  then have m: "input_total ot \<le> MAX_MONEY" using A by simp
  have "u64_ok (input_total ot)" "u64_ok (input_total ot - fee)" using m by (simp_all add: u64_ok_def MAX_MONEY_eq)
  then have chg: "u64_sub (u64_sub (input_total ot) fee) (output_total ot) = ?chg" using o1(5) by simp
  have outs: "expect_zats (open_outputs ot) = Some (map Zatoshis (open_outputs ot))"
    by (rule expect_zats_ok) (use o1(2,5) m in simp)
  have ins: "wallet_notes A (open_inputs ot) = Some ?ins" by (rule wallet_notes_ok [OF idx(2) A])
  have "open_close A fee ot = Some ?tx"
    using m by (auto simp: open_close_def outs ins chg Let_def expect_zat_ok)
  moreover have "closed_ok A fee ?tx"
    unfolding closed_ok_def
  proof (intro conjI)
    have "(\<Sum>i\<leftarrow>?ins. zat (input_value i)) = input_total ot" by (simp add: o1(1) input_value_def comp_def)
    moreover have "(\<Sum>out\<leftarrow>?outs. zat (output_value out)) = output_total ot + ?chg"
      by (simp add: o1(2) output_value_def comp_def)
    ultimately show "transaction_ok fee ?tx"
      using o1(3-5) ne by (simp add: transaction_ok_def action_count_def open_slots_def CHANGE_SLOT_def)
    have "A ! i \<le> MAX_MONEY" if "i \<in> set (open_inputs ot)" for i
      using that idx(2) A member_le_sum_list [of "A ! i" A] by fastforce
    moreover have "v \<le> MAX_MONEY" if "v \<in> set (open_outputs ot)" for v
      using member_le_sum_list [OF that] o1(2,5) m by simp
    ultimately show "transaction_values_valid ?tx" using m
      by (auto simp: transaction_values_valid_def input_value_def output_value_def zatoshis_valid_def)
    show "\<forall>i\<in>set (inputs ?tx). \<exists>k. i = WalletNote k (Zatoshis (A ! k)) \<and> k < length A" using idx(2) by auto
  qed
  moreover have "notes_of [?tx] = open_inputs ot"
    by (simp add: notes_of_def comp_def concat_map_singleton)
  moreover have "minted_by [?tx] = open_outputs ot"
    by (simp add: minted_by_def funding_value_def comp_def concat_map_singleton)
  ultimately show ?thesis by blast
qed

lemma packing_new: "packing A fee ot rest txs \<Longrightarrow> closed_ok A fee tx \<Longrightarrow> notes_of [tx] = open_inputs ot \<Longrightarrow>
  packing A fee open_new rest (txs @ [tx])"
  by (auto simp: packing_def open_ok_def open_new_def open_slots_def PREP_TX_ACTIONS_def CHANGE_SLOT_def)

lemma place_target_packing:
  assumes A: "sum_list A \<le> MAX_MONEY" and fee: "fee \<le> MAX_MONEY" and t: "0 < target"
  shows "packing A fee ot rest txs \<Longrightarrow>
    \<exists>r. place_target A fee target ot rest txs = Some r \<and> r \<noteq> Inl BalanceInvalid \<and>
      (\<forall>ot' rest' txs'. r = Inr (ot', rest', txs') \<longrightarrow>
        packing A fee ot' rest' txs' \<and> open_outputs ot' \<noteq> [] \<and>
        mset (notes_of txs' @ open_inputs ot' @ rest') = mset (notes_of txs @ open_inputs ot @ rest) \<and>
        mset (minted_by txs' @ open_outputs ot') = add_mset target (mset (minted_by txs @ open_outputs ot)))"
  using A fee t
proof (induction A fee target ot rest txs rule: place_target.induct)
  case (1 A fee target ot rest txs)
  note p = 1(3) and A = 1(4) and fee = 1(5) and t = 1(6)
  have o1: "input_total ot = (\<Sum>i\<leftarrow>open_inputs ot. A ! i)" "output_total ot = sum_list (open_outputs ot)"
    using p by (auto simp: packing_def open_ok_def)
  have "distinct (open_inputs ot)" "\<forall>i\<in>set (open_inputs ot). i < length A" using p by (auto simp: packing_def)
  then have "input_total ot \<le> sum_list A" unfolding o1(1) by (rule sum_distinct_le)
  then have m: "input_total ot \<le> MAX_MONEY" using A by simp
  consider (fits) "open_inputs ot \<noteq> [] \<and> has_room ot \<and> target \<le> unassigned fee ot"
    | (spend) "\<not> (open_inputs ot \<noteq> [] \<and> has_room ot \<and> target \<le> unassigned fee ot)" "has_room ot \<and> rest \<noteq> []"
    | (stuck) "\<not> (open_inputs ot \<noteq> [] \<and> has_room ot \<and> target \<le> unassigned fee ot)" "\<not> (has_room ot \<and> rest \<noteq> [])"
        "open_outputs ot = []"
    | (close) "\<not> (open_inputs ot \<noteq> [] \<and> has_room ot \<and> target \<le> unassigned fee ot)" "\<not> (has_room ot \<and> rest \<noteq> [])"
        "open_outputs ot \<noteq> []"
    by blast
  then show ?case
  proof cases
    case fits
    then have "target \<le> input_total ot - fee - output_total ot"
      by (simp add: unassigned_def u64_saturating_sub_def)
    with t have le: "fee + output_total ot + target \<le> input_total ot" by linarith
    then have "u64_ok (output_total ot + target)" using m by (simp add: u64_ok_def MAX_MONEY_eq)
    then have add: "u64_add (output_total ot) target = output_total ot + target" by simp
    let ?ot = "ot\<lparr>output_total := u64_add (output_total ot) target, open_outputs := open_outputs ot @ [target]\<rparr>"
    have "place_target A fee target ot rest txs = Some (Inr (?ot, rest, txs))"
      using fits by (simp add: place_target.simps [of A fee target ot])
    moreover have "packing A fee ?ot rest txs"
      using p fits le add [unfolded o1(2)] by (simp add: packing_def open_ok_def has_room_def open_slots_def)
    ultimately show ?thesis by simp
  next
    case spend
    then obtain i rest' where r: "rest = i # rest'" by (cases rest) auto
    have i: "i < length A" using p r by (simp add: packing_def)
    let ?ot = "ot\<lparr>input_total := u64_add (input_total ot) (A ! i), open_inputs := open_inputs ot @ [i]\<rparr>"
    have d: "distinct (open_inputs ot @ [i])" "\<forall>k\<in>set (open_inputs ot @ [i]). k < length A"
      using p r by (auto simp: packing_def)
    have "input_total ot + A ! i \<le> sum_list A" using sum_distinct_le [OF d] o1(1) by simp
    then have "u64_ok (input_total ot + A ! i)" using A by (simp add: u64_ok_def MAX_MONEY_eq)
    then have add: "u64_add (input_total ot) (A ! i) = input_total ot + A ! i" by simp
    have pk: "packing A fee ?ot rest' txs"
      using p spend(2) r add [unfolded o1(1)] by (auto simp: packing_def open_ok_def has_room_def open_slots_def)
    have eq: "place_target A fee target ot rest txs = place_target A fee target ?ot rest' txs"
      using spend r i by (subst place_target.simps) (auto simp: list_get_def)
    from 1(1) [OF spend refl, of "A ! i"] pk A fee t r i obtain x where
      "place_target A fee target ?ot rest' txs = Some x" "x \<noteq> Inl BalanceInvalid"
      "\<forall>ot' rest'' txs'. x = Inr (ot', rest'', txs') \<longrightarrow>
        packing A fee ot' rest'' txs' \<and> open_outputs ot' \<noteq> [] \<and>
        mset (notes_of txs' @ open_inputs ot' @ rest'') = mset (notes_of txs @ open_inputs ?ot @ rest') \<and>
        mset (minted_by txs' @ open_outputs ot') = add_mset target (mset (minted_by txs @ open_outputs ?ot))"
      by (auto simp: list_get_def)
    then show ?thesis unfolding eq by (simp add: r)
  next
    case stuck
    then have "place_target A fee target ot rest txs = Some (Inl InsufficientFunds)"
      by (subst place_target.simps) auto
    then show ?thesis by simp
  next
    case close
    from open_close_ok [OF p close(3) A fee] obtain tx where
      tx: "open_close A fee ot = Some tx" "closed_ok A fee tx" "notes_of [tx] = open_inputs ot" "minted_by [tx] = open_outputs ot"
      by blast
    have eq: "place_target A fee target ot rest txs = place_target A fee target open_new rest (txs @ [tx])"
      using close tx(1) by (subst place_target.simps) auto
    from 1(2) [OF close, of tx] packing_new [OF p tx(2,3)] A fee t tx(1) obtain x where
      "place_target A fee target open_new rest (txs @ [tx]) = Some x" "x \<noteq> Inl BalanceInvalid"
      "\<forall>ot' rest'' txs'. x = Inr (ot', rest'', txs') \<longrightarrow>
        packing A fee ot' rest'' txs' \<and> open_outputs ot' \<noteq> [] \<and>
        mset (notes_of txs' @ open_inputs ot' @ rest'') = mset (notes_of (txs @ [tx]) @ open_inputs open_new @ rest) \<and>
        mset (minted_by txs' @ open_outputs ot') = add_mset target (mset (minted_by (txs @ [tx]) @ open_outputs open_new))"
      by auto
    then show ?thesis unfolding eq using tx(3,4) by (simp add: open_new_def add.assoc)
  qed
qed

lemma place_targets_packing:
  assumes A: "sum_list A \<le> MAX_MONEY" and fee: "fee \<le> MAX_MONEY"
  shows "\<forall>t\<in>set targets. 0 < t \<Longrightarrow> packing A fee ot rest txs \<Longrightarrow>
    \<exists>r. place_targets A fee targets ot rest txs = Some r \<and> r \<noteq> Inl BalanceInvalid \<and>
      (\<forall>ot' rest' txs'. r = Inr (ot', rest', txs') \<longrightarrow>
        packing A fee ot' rest' txs' \<and>
        mset (notes_of txs' @ open_inputs ot' @ rest') = mset (notes_of txs @ open_inputs ot @ rest) \<and>
        (targets \<noteq> [] \<or> open_outputs ot \<noteq> [] \<longrightarrow> open_outputs ot' \<noteq> []) \<and>
        mset (minted_by txs' @ open_outputs ot') = mset targets + mset (minted_by txs @ open_outputs ot))"
proof (induction targets arbitrary: ot rest txs)
  case (Cons t ts)
  then have t: "0 < t" by simp
  from place_target_packing [OF A fee t Cons.prems(2)] obtain x where
    x: "place_target A fee t ot rest txs = Some x" "x \<noteq> Inl BalanceInvalid"
      "\<forall>ot' rest' txs'. x = Inr (ot', rest', txs') \<longrightarrow> packing A fee ot' rest' txs' \<and> open_outputs ot' \<noteq> [] \<and>
        mset (notes_of txs' @ open_inputs ot' @ rest') = mset (notes_of txs @ open_inputs ot @ rest) \<and>
        mset (minted_by txs' @ open_outputs ot') = add_mset t (mset (minted_by txs @ open_outputs ot))" by blast
  show ?case
  proof (cases x)
    case (Inl e)
    with x show ?thesis by simp
  next
    case (Inr r)
    obtain ot' rest' txs' where r: "r = (ot', rest', txs')" by (cases r)
    with Inr x(3) have p: "packing A fee ot' rest' txs'" "open_outputs ot' \<noteq> []"
        "mset (notes_of txs' @ open_inputs ot' @ rest') = mset (notes_of txs @ open_inputs ot @ rest)"
        "mset (minted_by txs' @ open_outputs ot') = add_mset t (mset (minted_by txs @ open_outputs ot))" by blast+
    from Cons.IH [OF _ p(1)] Cons.prems(1) obtain y where
      y: "place_targets A fee ts ot' rest' txs' = Some y" "y \<noteq> Inl BalanceInvalid"
        "\<forall>ot'' rest'' txs''. y = Inr (ot'', rest'', txs'') \<longrightarrow> packing A fee ot'' rest'' txs'' \<and>
          mset (notes_of txs'' @ open_inputs ot'' @ rest'') = mset (notes_of txs' @ open_inputs ot' @ rest') \<and>
          (ts \<noteq> [] \<or> open_outputs ot' \<noteq> [] \<longrightarrow> open_outputs ot'' \<noteq> []) \<and>
          mset (minted_by txs'' @ open_outputs ot'') = mset ts + mset (minted_by txs' @ open_outputs ot')"
      by auto
    have "place_targets A fee (t # ts) ot rest txs = Some y" using x(1) Inr r y(1) by simp
    with y(2,3) p(2-4) show ?thesis by simp
  qed
qed simp

section \<open>Direct notes\<close>

definition direct_ok :: "nat list \<Rightarrow> bool list \<Rightarrow> (nat \<times> Zatoshis) list \<Rightarrow> bool" where
  "direct_ok A used direct \<longleftrightarrow> length used = length A \<and> distinct (map fst direct) \<and>
     (\<forall>d\<in>set direct. fst d < length A \<and> snd d = Zatoshis (A ! fst d)) \<and>
     (\<forall>i<length A. used ! i \<longleftrightarrow> i \<in> fst ` set direct)"

lemma match_direct_ok:
  assumes A: "sum_list A \<le> MAX_MONEY"
  shows "direct_ok A used direct \<Longrightarrow>
    \<exists>kept used' direct'. match_direct A ts used direct = Some (kept, used', direct') \<and> direct_ok A used' direct' \<and>
      set kept \<subseteq> set ts \<and> fst ` set direct \<subseteq> fst ` set direct' \<and> mset kept + mset (map (zat \<circ> snd) direct') = mset ts + mset (map (zat \<circ> snd) direct) \<and>
      (\<forall>t\<in>set kept. \<forall>i<length A. A ! i = t \<longrightarrow> i \<in> fst ` set direct')"
proof (induction ts arbitrary: used direct)
  case (Cons t ts)
  show ?case
  proof (cases "find (\<lambda>i. \<not> used ! i \<and> A ! i = t) [0..<length A]")
    case None
    from Cons.IH [OF Cons.prems] obtain kept used' direct' where
      r: "match_direct A ts used direct = Some (kept, used', direct')" "direct_ok A used' direct'" "set kept \<subseteq> set ts"
        "fst ` set direct \<subseteq> fst ` set direct'"
        "mset kept + mset (map (zat \<circ> snd) direct') = mset ts + mset (map (zat \<circ> snd) direct)"
        "\<forall>t\<in>set kept. \<forall>i<length A. A ! i = t \<longrightarrow> i \<in> fst ` set direct'" by blast
    have "i \<in> fst ` set direct" if "i < length A" "A ! i = t" for i
      using None that Cons.prems by (auto simp: find_None_iff direct_ok_def)
    with r(4) have "\<forall>i<length A. A ! i = t \<longrightarrow> i \<in> fst ` set direct'" by blast
    with r(3-6) show ?thesis by (simp add: r(1,2) None subset_insertI2 comp_def)
  next
    case (Some i)
    then have i: "i < length A" "\<not> used ! i" "A ! i = t" by (auto simp: find_Some_iff)
    then have "t \<in> set A" by auto
    then have "t \<le> MAX_MONEY" using member_le_sum_list [of t A] A by linarith
    then have z: "expect_zat t = Some (Zatoshis t)" by (rule expect_zat_ok)
    have "direct_ok A (used[i := True]) (direct @ [(i, Zatoshis t)])"
      using Cons.prems i by (auto simp: direct_ok_def nth_list_update)
    from Cons.IH [OF this] Some z show ?thesis by auto
  qed
qed simp

section \<open>The strategy is sound\<close>

lemma funding_notes_minted:
  "List.map_filter (\<lambda>out. case out of Funding v \<Rightarrow> Some v | _ \<Rightarrow> None) outs = map Zatoshis (concat (map funding_value outs))"
  by (induction outs) (auto simp: List.map_filter_def funding_value_def split: PrepOutput.splits)

lemma map_zat_inject: "mset (map zat xs) = mset (map zat ys) \<Longrightarrow> mset xs = mset ys"
proof -
  assume "mset (map zat xs) = mset (map zat ys)"
  then have "image_mset zat (mset xs) = image_mset zat (mset ys)" by simp
  then have "image_mset Zatoshis (image_mset zat (mset xs)) = image_mset Zatoshis (image_mset zat (mset ys))" by simp
  moreover have "Zatoshis \<circ> zat = id" by (simp add: fun_eq_iff)
  ultimately show ?thesis by (simp only: multiset.map_comp multiset.map_id)
qed

text \<open>A plan of one layer of closed transactions, with direct notes.\<close>

lemma one_layer_certified:
  assumes ok: "\<forall>tx\<in>set txs. closed_ok A (zat fee) tx" and A: "A = map zat available"
    and d: "distinct (notes_of txs @ map fst direct)" "\<forall>d\<in>set direct. fst d < length A \<and> snd d = Zatoshis (A ! fst d)"
    and m: "mset (minted_by txs) + mset (map (zat \<circ> snd) direct) = mset (filter (\<lambda>v. 0 < v) (map zat funding))"
    and l: "ls = [txs] \<or> ls = [] \<and> txs = []"
  shows "certified \<lparr>layers = ls, direct_funding = direct\<rparr> available funding fee"
proof -
  let ?p = "\<lparr>layers = ls, direct_funding = direct\<rparr>"
  have c: "concat ls = txs" using l by auto
  have "map zat (funding_notes ?p) = minted_by txs @ map (zat \<circ> snd) direct"
    by (simp add: funding_notes_def all_outputs_def c funding_notes_minted minted_by_def comp_def)
  moreover have "map zat (filter (\<lambda>v. v \<noteq> zatoshis_ZERO) funding) = filter (\<lambda>v. 0 < v) (map zat funding)"
    by (induction funding) (auto simp: zatoshis_ZERO_def Zatoshis.expand)
  ultimately have "mset (map zat (funding_notes ?p)) = mset (map zat (filter (\<lambda>v. v \<noteq> zatoshis_ZERO) funding))"
    using m by (metis mset_append)
  then have f: "mset (funding_notes ?p) = mset (filter (\<lambda>v. v \<noteq> zatoshis_ZERO) funding)" by (rule map_zat_inject)
  have av: "k < length A \<Longrightarrow> source_ok available (k, Zatoshis (A ! k))" for k by (simp add: source_ok_def A)
  have wn: "\<exists>k. i = WalletNote k (Zatoshis (A ! k)) \<and> k < length A" if "tx \<in> set txs" "i \<in> set (inputs tx)" for tx i
    using ok that by (auto simp: closed_ok_def)
  then have i: "input_ok ls available l i" if "tx \<in> set txs" "i \<in> set (inputs tx)" for l tx i
    using wn [OF that] av by auto
  have "concat (map prior_ref (concat (map inputs txs))) = []"
    using wn by (fastforce simp: concat_eq_Nil_conv)
  then have pr: "distinct (concat (map prior_ref (concat (map inputs txs))))" by (simp only: distinct.simps)
  have mem: "tx \<in> set txs" if "l < length ls" "tx \<in> set (ls ! l)" for l tx using that c by (metis UN_I nth_mem set_concat)
  have "\<forall>l<length ls. \<forall>tx\<in>set (ls ! l). transaction_ok (zat fee) tx \<and> (\<forall>i\<in>set (inputs tx). input_ok ls available l i)"
    using ok i mem unfolding closed_ok_def by blast
  moreover have "\<forall>d\<in>set direct. source_ok available d" using d(2) av by (metis prod.collapse)
  ultimately show ?thesis
    using f d(1) pr by (simp add: certified_def c notes_of_def)
qed

lemma one_layer_valid:
  assumes "certified p available funding fee" "\<forall>tx\<in>set (concat (layers p)). closed_ok A (zat fee) tx" "zatoshis_valid fee"
  shows "is_valid p available funding fee \<and> plan_values_valid p"
  using is_valid_certified [of p fee available funding] assms by (auto simp: closed_ok_def plan_values_valid_def)

text \<open>What \<open>sort_unstable_by_key\<close> promises of the indices here.\<close>

definition permuting :: "((nat \<Rightarrow> nat) \<Rightarrow> nat list \<Rightarrow> nat list) \<Rightarrow> bool" where
  "permuting f \<longleftrightarrow> (\<forall>key xs. mset (f key xs) = mset xs)"

lemma permuting_set: "permuting f \<Longrightarrow> set (f key xs) = set xs \<and> distinct (f key xs) = distinct xs"
  by (metis permuting_def mset_eq_setD mset_eq_imp_distinct_iff)

lemma packing_start:
  assumes "direct_ok A used direct" "permuting f"
  shows "packing A fee open_new (f key (filter (\<lambda>i. \<not> used ! i) [0..<length A])) []"
  using permuting_set [OF assms(2), of key "filter (\<lambda>i. \<not> used ! i) [0..<length A]"]
  by (auto simp: packing_def open_ok_def open_new_def open_slots_def PREP_TX_ACTIONS_def CHANGE_SLOT_def)

lemma valid_amounts_sum:
  assumes "amounts_valid available funding fee" "validate_instance available funding = Inr u"
  shows "sum_list (map zat available) \<le> MAX_MONEY" "zat fee \<le> MAX_MONEY"
proof -
  from assms(2) obtain c where c: "zatoshis_iter_sum available = Some c"
    by (auto simp: validate_instance_def split: if_splits)
  show "sum_list (map zat available) \<le> MAX_MONEY"
    using zatoshis_iter_sum_Some [of available c] assms(1) c by (simp add: amounts_valid_def)
  show "zat fee \<le> MAX_MONEY" using assms(1) by (simp add: amounts_valid_def zatoshis_valid_def)
qed

lemma plan_first_fit_sound:
  assumes v: "amounts_valid available funding fee" and f: "permuting f"
  shows "\<exists>r. plan_first_fit f available funding fee = Some r \<and>
    (r = Inl BalanceInvalid \<longleftrightarrow> zatoshis_iter_sum available = None \<or> zatoshis_iter_sum funding = None) \<and>
    (\<forall>p. r = Inr p \<longrightarrow> is_valid p available funding fee \<and> layer_count p \<le> 1 \<and> spent_prior p = [] \<and>
      plan_values_valid p)"
proof (cases "validate_instance available funding")
  case (Inl e)
  then show ?thesis by (auto simp: plan_first_fit_def validate_instance_def split: if_splits)
next
  case (Inr u)
  let ?A = "map zat available" and ?fee = "zat fee"
  let ?targets = "rev (sort (filter (\<lambda>v. 0 < v) (map zat funding)))"
  have ok: "\<not> (zatoshis_iter_sum available = None \<or> zatoshis_iter_sum funding = None)"
    using Inr by (auto simp: validate_instance_def split: if_splits)
  note A = valid_amounts_sum [OF v Inr]
  have fee: "zatoshis_valid fee" using v by (simp add: amounts_valid_def)
  have "direct_ok ?A (replicate (length available) False) []" by (simp add: direct_ok_def)
  from match_direct_ok [OF A(1) this, of ?targets] obtain kept used direct where
    m: "match_direct ?A ?targets (replicate (length available) False) [] = Some (kept, used, direct)"
    and d: "direct_ok ?A used direct" and k: "set kept \<subseteq> set ?targets"
    and ms: "mset kept + mset (map (zat \<circ> snd) direct) = mset (filter (\<lambda>v. 0 < v) (map zat funding))" by auto
  have dd: "distinct (map fst direct)" "\<forall>d\<in>set direct. fst d < length ?A \<and> snd d = Zatoshis (?A ! fst d)"
    using d by (simp_all add: direct_ok_def)
  let ?sp = "f (\<lambda>i. ?A ! i) (filter (\<lambda>i. \<not> used ! i) [0..<length ?A])"
  have disj: "set ?sp \<inter> fst ` set direct = {}"
    using permuting_set [OF f] d by (auto simp: direct_ok_def)
  have k0: "\<forall>t\<in>set kept. 0 < t" using k by auto
  show ?thesis
  proof (cases "kept = []")
    case True
    let ?p = "\<lparr>layers = [], direct_funding = direct\<rparr>"
    have "certified ?p available funding fee"
      by (rule one_layer_certified [where txs = "[]" and A = ?A]) (use dd ms True in simp_all)
    then have "is_valid ?p available funding fee \<and> plan_values_valid ?p" by (rule one_layer_valid [where A = ?A]) (simp_all add: fee)
    moreover have "plan_first_fit f available funding fee = Some (Inr ?p)"
      using Inr m True by (simp add: plan_first_fit_def)
    ultimately show ?thesis using ok by (simp add: layer_count_def spent_prior_def)
  next
    case False
    from place_targets_packing [OF A k0 packing_start [OF d f], of "\<lambda>i. ?A ! i"] obtain r where
      r: "place_targets ?A ?fee kept open_new ?sp [] = Some r" "r \<noteq> Inl BalanceInvalid"
        "\<forall>ot' rest' txs'. r = Inr (ot', rest', txs') \<longrightarrow> packing ?A ?fee ot' rest' txs' \<and>
          mset (notes_of txs' @ open_inputs ot' @ rest') = mset (notes_of [] @ open_inputs open_new @ ?sp) \<and>
          (kept \<noteq> [] \<or> open_outputs open_new \<noteq> [] \<longrightarrow> open_outputs ot' \<noteq> []) \<and>
          mset (minted_by txs' @ open_outputs ot') = mset kept + mset (minted_by [] @ open_outputs open_new)"
      by blast
    show ?thesis
    proof (cases r)
      case (Inl e)
      then have "plan_first_fit f available funding fee = Some (Inl e)"
        using Inr m False r(1) by (simp add: plan_first_fit_def)
      with Inl r(2) ok show ?thesis by simp
    next
      case inr: (Inr s)
      obtain ot rest txs where s: "s = (ot, rest, txs)" by (cases s)
      from r(3) [rule_format, of ot rest txs] inr s False have
        p: "packing ?A ?fee ot rest txs" "open_outputs ot \<noteq> []"
          "mset (notes_of txs @ open_inputs ot @ rest) = mset ?sp"
          "mset (minted_by txs @ open_outputs ot) = mset kept" by (simp_all add: open_new_def)
      from open_close_ok [OF p(1,2) A] obtain tx where
        tx: "open_close ?A ?fee ot = Some tx" "closed_ok ?A ?fee tx" "notes_of [tx] = open_inputs ot"
          "minted_by [tx] = open_outputs ot" by blast
      let ?p = "\<lparr>layers = [txs @ [tx]], direct_funding = direct\<rparr>"
      have ok': "\<forall>t\<in>set (txs @ [tx]). closed_ok ?A ?fee t" using p(1) tx(2) by (simp add: packing_def)
      have "set (notes_of (txs @ [tx])) \<subseteq> set ?sp" using mset_eq_setD [OF p(3)] tx(3) by auto
      then have dist: "distinct (notes_of (txs @ [tx]) @ map fst direct)"
        using p(1) tx(3) disj dd(1) by (auto simp: packing_def)
      have "certified ?p available funding fee"
        by (rule one_layer_certified [OF ok' _ dist dd(2)]) (use ms p(4) tx(4) in simp_all)
      then have "is_valid ?p available funding fee \<and> plan_values_valid ?p" by (rule one_layer_valid [where A = ?A]) (use ok' fee in simp_all)
      moreover have "spent_prior ?p = []"
        using ok' by (fastforce simp: spent_prior_def closed_ok_def concat_eq_Nil_conv)
      moreover have "plan_first_fit f available funding fee = Some (Inr ?p)"
        using Inr m False r(1) inr s tx(1) by (simp add: plan_first_fit_def)
      ultimately show ?thesis using ok by (simp add: layer_count_def)
    qed
  qed
qed

text \<open>The stable sort is one of the sorts allowed; with it the strategy meets the contract.\<close>

definition stable_sort_by_key :: "(nat \<Rightarrow> nat) \<Rightarrow> nat list \<Rightarrow> nat list" where
  "stable_sort_by_key key xs = rev (sort_key key (rev xs))"

lemma stable_sort_permutes: "permuting stable_sort_by_key"
  by (simp add: permuting_def stable_sort_by_key_def)

interpretation first_fit: sound_strategy "first_fit_decreasing stable_sort_by_key"
proof
  fix available funding fee p assume v: "amounts_valid available funding fee"
  note s = plan_first_fit_sound [OF v stable_sort_permutes]
  show "strategy_plan (first_fit_decreasing stable_sort_by_key) available funding fee \<noteq> None"
    using s by (auto simp: first_fit_decreasing_def)
  show "is_valid p available funding fee"
    if "strategy_plan (first_fit_decreasing stable_sort_by_key) available funding fee = Some (Inr p)"
    using s that by (auto simp: first_fit_decreasing_def)
qed

section \<open>The properties\<close>

text \<open>
  C26. The first-fit-decreasing strategy terminates and never panics, whatever order the unstable sort
  leaves: it reports invalid totals exactly if a total is invalid, and every plan it returns passes
  the certificate, has at most one layer and spends wallet notes only.
\<close>

theorem first_fit_valid:
  assumes "amounts_valid available funding fee" and "permuting sort_indices"
  shows "\<exists>r. plan_first_fit sort_indices available funding fee = Some r \<and>
    (r = Inl BalanceInvalid \<longleftrightarrow> zatoshis_iter_sum available = None \<or> zatoshis_iter_sum funding = None) \<and>
    (\<forall>p. r = Inr p \<longrightarrow> is_valid p available funding fee \<and> layer_count p \<le> 1 \<and> spent_prior p = [])"
  using plan_first_fit_sound [OF assms] by metis

lemma first_fit_sample:
  "plan_first_fit stable_sort_by_key [Zatoshis 20, Zatoshis 90, Zatoshis 60] [Zatoshis 100, Zatoshis 0, Zatoshis 20, Zatoshis 30]
     (Zatoshis 5) = Some (Inr \<lparr>layers = [[\<lparr>inputs = [WalletNote 1 (Zatoshis 90), WalletNote 2 (Zatoshis 60)],
       outputs = [Funding (Zatoshis 100), Funding (Zatoshis 30), Change (Zatoshis 15)]\<rparr>]], direct_funding = [(0, Zatoshis 20)]\<rparr>)"
  by (simp add: plan_first_fit_def validate_instance_def zatoshis_iter_sum_def zatoshis_add_def zatoshis_from_u64_def
      u64_checked_add_def MAX_MONEY_eq result_ok_def zatoshis_ZERO_def expect_zat_ok Let_def sort_key_def stable_sort_by_key_def
      place_target.simps has_room_def open_slots_def open_new_def PREP_TX_ACTIONS_def CHANGE_SLOT_def unassigned_def
      u64_saturating_sub_def list_get_def u64_add_def u64_sub_def open_close_def)

theorem first_fit_valid_witness:
  "is_valid \<lparr>layers = [[\<lparr>inputs = [WalletNote 1 (Zatoshis 90), WalletNote 2 (Zatoshis 60)],
       outputs = [Funding (Zatoshis 100), Funding (Zatoshis 30), Change (Zatoshis 15)]\<rparr>]], direct_funding = [(0, Zatoshis 20)]\<rparr>
     [Zatoshis 20, Zatoshis 90, Zatoshis 60] [Zatoshis 100, Zatoshis 0, Zatoshis 20, Zatoshis 30] (Zatoshis 5)"
proof -
  have "amounts_valid [Zatoshis 20, Zatoshis 90, Zatoshis 60] [Zatoshis 100, Zatoshis 0, Zatoshis 20, Zatoshis 30] (Zatoshis 5)"
    by (simp add: amounts_valid_def value_bounds)
  from first_fit_valid [OF this stable_sort_permutes] show ?thesis unfolding first_fit_sample by simp
qed

end
