(* ===== verification/LayeredGreedy.thy ===== *)
theory LayeredGreedy
  imports FirstFit
begin

text \<open>
  Model of \<open>zcash_pool_migration/src/preparation/layered_greedy.rs\<close>: the strategy that funds notes
  layer by layer, feeds what is left forward, and splits a lone large note through a balanced tree;
  with the proof that its plans pass the certificate and leave at most one residual note worth a fee.
\<close>

section \<open>Consolidation\<close>

function consolidation_batch_sizes :: "nat \<Rightarrow> nat list" where
  "consolidation_batch_sizes n =
     (if n = 0 then []
      else
        let most = CONSOLIDATION_INPUTS_PER_TX;
            taken = (if n \<le> most then n else if n - most = 1 then most - 1 else most)
        in taken # consolidation_batch_sizes (n - taken))"
  by pat_completeness auto
termination
  by (relation "measure id")
    (auto simp: CONSOLIDATION_INPUTS_PER_TX_def PREP_TX_ACTIONS_def split: if_splits)

declare consolidation_batch_sizes.simps [simp del]

text \<open>The loop over the batches: the notes too small to pay a fee, the transactions and the feeders.\<close>

fun consolidate_batches ::
    "nat list \<Rightarrow> PrepInput list \<Rightarrow> PrepInput list \<Rightarrow> nat \<Rightarrow> nat \<Rightarrow> PrepTransaction list \<Rightarrow> PrepInput list
     \<Rightarrow> (PrepInput list \<times> PrepTransaction list \<times> PrepInput list) option" where
  "consolidate_batches [] pool leftover layer fee txs next = Some (leftover, txs, next)"
| "consolidate_batches (n # sizes) pool leftover layer fee txs next =
     (let batch = take n pool;
          rest = drop n pool;
          total = u64_sum (map (zat \<circ> input_value) batch)
      in if total \<le> fee then consolidate_batches sizes rest (leftover @ batch) layer fee txs next
         else
           Option.bind (expect_zat (u64_sub total fee)) (\<lambda>feeder.
             consolidate_batches sizes rest leftover layer fee
               (txs @ [\<lparr>inputs = batch, outputs = [Intermediate feeder]\<rparr>])
               (next @ [PriorNote layer (length txs) 0 feeder])))"

definition consolidate ::
    "((PrepInput \<Rightarrow> nat) \<Rightarrow> PrepInput list \<Rightarrow> PrepInput list) \<Rightarrow> PrepInput list \<Rightarrow> nat \<Rightarrow> nat \<Rightarrow> PrepTransaction list
     \<Rightarrow> PrepInput list \<Rightarrow> (PrepInput list \<times> PrepTransaction list \<times> PrepInput list) option" where
  "consolidate sort_notes pool layer fee txs next =
     (if length pool < 2 then Some (pool, txs, next)
      else consolidate_batches (consolidation_batch_sizes (length pool))
        (sort_notes (\<lambda>n. zat (input_value n)) pool) [] layer fee txs next)"

definition spent_refs :: "PrepTransaction list list \<Rightarrow> (nat \<times> nat \<times> nat) list" where
  "spent_refs ls = concat (map (\<lambda>layer. concat (map (\<lambda>tx. concat (map prior_ref (inputs tx))) layer)) ls)"

definition unconsumed_feeders :: "PrepTransaction list list \<Rightarrow> PrepInput list" where
  "unconsumed_feeders ls =
     concat (map (\<lambda>(li, layer). concat (map (\<lambda>(ti, tx).
       List.map_filter (\<lambda>(oi, out). case out of
           Intermediate v \<Rightarrow> if (li, ti, oi) \<in> set (spent_refs ls) then None else Some (PriorNote li ti oi v)
         | _ \<Rightarrow> None) (enumerate 0 (outputs tx)))
       (enumerate 0 layer))) (enumerate 0 ls))"

section \<open>The balanced split\<close>

definition subtree_capacity :: "nat \<Rightarrow> nat" where
  "subtree_capacity depth = FUNDING_OUTPUTS_PER_TX ^ depth"

function split_depth_from :: "nat \<Rightarrow> nat \<Rightarrow> nat" where
  "split_depth_from depth n = (if subtree_capacity depth < n then split_depth_from (depth + 1) n else depth)"
  by pat_completeness auto
termination
  by (relation "measure (\<lambda>(depth, n). n - subtree_capacity depth)")
    (auto simp: subtree_capacity_def FUNDING_OUTPUTS_PER_TX_def PREP_TX_ACTIONS_def intro!: diff_less_mono2)

declare split_depth_from.simps [simp del]

definition split_depth :: "nat \<Rightarrow> nat" where
  "split_depth n = (if n = 0 then 0 else split_depth_from 1 n)"

definition even_group_sizes :: "nat \<Rightarrow> nat \<Rightarrow> nat list" where
  "even_group_sizes len g =
     (let base = len div g; extra = len mod g in map (\<lambda>i. base + (if i < extra then 1 else 0)) [0..<g])"

text \<open>The slices \<open>targets[start..start + size]\<close> of consecutive sizes.\<close>

primrec slices :: "nat list \<Rightarrow> 'a list \<Rightarrow> 'a list list" where
  "slices [] xs = []"
| "slices (n # sizes) xs = take n xs # slices sizes (drop n xs)"

definition child_groups :: "nat list \<Rightarrow> nat list list" where
  "child_groups targets =
     (let child_cap = subtree_capacity (split_depth (length targets) - 1);
          g = nat_div_ceil (length targets) child_cap
      in slices (even_group_sizes (length targets) g) targets)"

lemma split_depth_from_correct:
  "n \<le> subtree_capacity (split_depth_from d n) \<and> d \<le> split_depth_from d n \<and>
   (\<forall>k. d \<le> k \<and> k < split_depth_from d n \<longrightarrow> subtree_capacity k < n)"
proof (induction d n rule: split_depth_from.induct)
  case (1 d n)
  show ?case
  proof (cases "subtree_capacity d < n")
    case True
    then have eq: "split_depth_from d n = split_depth_from (d + 1) n" by (subst split_depth_from.simps) simp
    have "d \<le> k \<and> k < split_depth_from (d + 1) n \<longrightarrow> subtree_capacity k < n" for k
      using 1 [OF True] True by (cases "k = d") auto
    then show ?thesis using 1 [OF True] eq by simp
  next
    case False
    then show ?thesis by (simp add: split_depth_from.simps [of d n])
  qed
qed

lemma subtree_capacity_pos [simp]: "0 < subtree_capacity d"
  by (simp add: subtree_capacity_def FUNDING_OUTPUTS_PER_TX_def PREP_TX_ACTIONS_def)

lemma split_depth_correct:
  assumes "0 < n"
  shows "n \<le> subtree_capacity (split_depth n)" "0 < split_depth n"
    "1 < split_depth n \<Longrightarrow> subtree_capacity (split_depth n - 1) < n"
  using split_depth_from_correct [of n 1] assms by (auto simp: split_depth_def)

lemma slices_concat: "sum_list ns = length xs \<Longrightarrow> concat (slices ns xs) = xs"
  by (induction ns arbitrary: xs) auto

lemma slices_length: "sum_list ns \<le> length xs \<Longrightarrow> map length (slices ns xs) = ns"
  by (induction ns arbitrary: xs) auto

lemma even_group_sizes_sum: "0 < g \<Longrightarrow> sum_list (even_group_sizes len g) = len"
proof -
  assume g: "0 < g"
  have "(\<Sum>i\<leftarrow>[0..<g]. if i < len mod g then 1 else 0) = card {i \<in> {0..<g}. i < len mod g}"
    by (simp add: sum_list_distinct_conv_sum_set sum.If_cases Int_def)
  also have "{i \<in> {0..<g}. i < len mod g} = {0..<len mod g}"
    using g by (auto intro: less_trans [OF _ mod_less_divisor])
  finally have "(\<Sum>i\<leftarrow>[0..<g]. if i < len mod g then 1 else 0) = len mod g" by simp
  then have "sum_list (even_group_sizes len g) = g * (len div g) + len mod g"
    by (simp add: even_group_sizes_def sum_list_addf sum_list_triv)
  then show ?thesis by simp
qed

lemma split_depth_least: "0 < d \<Longrightarrow> n \<le> subtree_capacity d \<Longrightarrow> split_depth n \<le> d"
proof (rule ccontr)
  assume d: "0 < d" "n \<le> subtree_capacity d" and "\<not> split_depth n \<le> d"
  then have "d < split_depth_from 1 n" by (simp add: split_depth_def split: if_splits)
  with split_depth_from_correct [of n 1] d(1) have "subtree_capacity d < n" by simp
  with d(2) show False by simp
qed

lemma even_group_size_bounds:
  assumes "sz \<in> set (even_group_sizes len g)" "0 < g" "g \<le> len"
  shows "0 < sz \<and> sz \<le> nat_div_ceil len g"
proof -
  have "sz \<in> (\<lambda>i. len div g + (if i < len mod g then 1 else 0)) ` set [0..<g]"
    using assms(1) unfolding even_group_sizes_def Let_def set_map .
  then obtain i where i: "sz = len div g + (if i < len mod g then 1 else 0)" by blast
  obtain q r where qr: "len div g = q" "len mod g = r" by blast
  have "g div g \<le> len div g" using assms(3) by (rule div_le_mono)
  then have "0 < q" using assms(2) by (simp only: qr div_self)
  then show ?thesis unfolding i nat_div_ceil_def Let_def qr by (cases "i < r") simp_all
qed

lemma child_groups_correct:
  assumes d: "1 < split_depth (length targets)"
  shows "concat (child_groups targets) = targets"
    and "\<And>grp. grp \<in> set (child_groups targets) \<Longrightarrow> grp \<noteq> [] \<and> length grp < length targets \<and>
      split_depth (length grp) < split_depth (length targets)"
    and "2 \<le> length (child_groups targets)" "length (child_groups targets) \<le> FUNDING_OUTPUTS_PER_TX"
proof -
  let ?n = "length targets" and ?d = "split_depth (length targets)"
  let ?cap = "subtree_capacity (?d - 1)"
  let ?g = "nat_div_ceil ?n ?cap"
  have F: "FUNDING_OUTPUTS_PER_TX = 14" by (simp add: FUNDING_OUTPUTS_PER_TX_def PREP_TX_ACTIONS_def)
  have n0: "0 < ?n" using d by (auto simp: split_depth_def)
  have cap: "?cap < ?n" using split_depth_correct(3) [OF n0 d] .
  have "subtree_capacity ?d = 14 * ?cap" using d by (cases ?d) (simp_all add: subtree_capacity_def F)
  then have le: "?n \<le> 14 * ?cap" using split_depth_correct(1) [OF n0] by simp
  have c14: "14 \<le> ?cap" using d self_le_power [of 14 "?d - 1"] by (simp add: subtree_capacity_def F)
  have g14: "?g \<le> 14" using le by (simp add: nat_div_ceil_le_iff)
  have "\<not> ?g \<le> 1" using cap by (simp add: nat_div_ceil_le_iff)
  then have g2: "2 \<le> ?g" by simp
  have gn: "?g \<le> ?n" using g14 c14 cap by linarith
  have "?n \<le> ?g * ?cap" using nat_div_ceil_le_iff [of ?cap ?n ?g] by simp
  then have up: "nat_div_ceil ?n ?g \<le> ?cap" using g2 by (simp add: nat_div_ceil_le_iff mult.commute)
  have groups: "child_groups targets = slices (even_group_sizes ?n ?g) targets" by (simp add: child_groups_def Let_def)
  have total: "sum_list (even_group_sizes ?n ?g) = ?n" using g2 by (simp add: even_group_sizes_sum)
  then have len: "map length (child_groups targets) = even_group_sizes ?n ?g" by (simp add: groups slices_length)
  show "concat (child_groups targets) = targets" unfolding groups by (rule slices_concat [OF total])
  have "length (child_groups targets) = ?g" using arg_cong [OF len, of length] by (simp add: even_group_sizes_def Let_def)
  then show "2 \<le> length (child_groups targets)" "length (child_groups targets) \<le> FUNDING_OUTPUTS_PER_TX"
    using g2 g14 F by simp_all
  show "grp \<noteq> [] \<and> length grp < ?n \<and> split_depth (length grp) < ?d" if "grp \<in> set (child_groups targets)" for grp
  proof -
    have "length grp \<in> set (even_group_sizes ?n ?g)" using that len [symmetric] by auto
    with even_group_size_bounds [OF this] g2 gn up have s: "0 < length grp" "length grp \<le> ?cap" by auto
    then have "split_depth (length grp) \<le> ?d - 1" using d by (intro split_depth_least) auto
    with s cap d show ?thesis by auto
  qed
qed

text \<open>The transactions of a split and the value it takes, both in \<open>u64\<close>.\<close>

function subtree_cost :: "nat list \<Rightarrow> nat \<Rightarrow> nat \<times> nat" where
  "subtree_cost targets fee =
     (if split_depth (length targets) \<le> 1 then (1, u64_add (u64_sum targets) fee)
      else fold (\<lambda>grp (txs, v). let (t, w) = subtree_cost grp fee in (u64_add txs t, u64_add v w))
        (child_groups targets) (1, fee))"
  by pat_completeness auto
termination
  by (relation "measure (\<lambda>(targets, fee). length targets)") (auto simp: child_groups_correct(2) not_le)

declare subtree_cost.simps [simp del]

text \<open>\<open>while layers.len() <= layer\<close> pushes an empty layer.\<close>

definition pad_layers :: "nat \<Rightarrow> PrepTransaction list list \<Rightarrow> PrepTransaction list list" where
  "pad_layers n ls = ls @ replicate (n - length ls) []"

definition push_transaction :: "nat \<Rightarrow> PrepTransaction \<Rightarrow> PrepTransaction list list \<Rightarrow> PrepTransaction list list" where
  "push_transaction layer tx ls = ls[layer := ls ! layer @ [tx]]"

function build_split ::
    "PrepInput \<Rightarrow> nat \<Rightarrow> nat list \<Rightarrow> nat \<Rightarrow> nat \<Rightarrow> PrepTransaction list list \<Rightarrow> PrepTransaction list list option" where
  "build_split source source_value targets fee layer ls =
     (let ls = pad_layers (layer + 1) ls;
          tx_index = length (ls ! layer)
      in if split_depth (length targets) \<le> 1 then
           Option.bind (map_option (map Funding) (expect_zats targets)) (\<lambda>outs.
             let leftover = u64_sub (u64_sub source_value fee) (u64_sum targets) in
             map_option (\<lambda>outs. push_transaction layer \<lparr>inputs = [source], outputs = outs\<rparr> ls)
               (if 0 < leftover then map_option (\<lambda>z. outs @ [Intermediate z]) (expect_zat leftover) else Some outs))
         else
           let groups = child_groups targets;
               child_values = map (\<lambda>grp. snd (subtree_cost grp fee)) groups
           in Option.bind (map_option (map Intermediate) (expect_zats child_values)) (\<lambda>outs.
             let leftover = u64_sub (u64_sub source_value fee) (u64_sum child_values) in
             Option.bind
               (if 0 < leftover then map_option (\<lambda>z. outs @ [Intermediate z]) (expect_zat leftover) else Some outs)
               (\<lambda>outs.
                 try_fold (\<lambda>ls (k, grp).
                     Option.bind (expect_zat (child_values ! k)) (\<lambda>z.
                       build_split (PriorNote layer tx_index k z) (child_values ! k) grp fee (layer + 1) ls))
                   (push_transaction layer \<lparr>inputs = [source], outputs = outs\<rparr> ls) (enumerate 0 groups))))"
  by pat_completeness auto
termination
  by (relation "measure (\<lambda>(source, source_value, targets, fee, layer, ls). length targets)")
    (auto simp: in_set_enumerate_eq child_groups_correct(2) not_le)

declare build_split.simps [simp del]

section \<open>The layers\<close>

text \<open>The targets a note with a budget takes, the total they use, and the targets that remain.\<close>

primrec assign_targets :: "nat \<Rightarrow> nat list \<Rightarrow> nat \<Rightarrow> nat list \<Rightarrow> nat list \<times> nat \<times> nat list" where
  "assign_targets budget assigned used [] = (assigned, used, [])"
| "assign_targets budget assigned used (v # rest) =
     (if length assigned < FUNDING_OUTPUTS_PER_TX then
        if u64_add used v \<le> budget then assign_targets budget (assigned @ [v]) (u64_add used v) rest
        else
          let (assigned', used', rest') = assign_targets budget assigned used rest
          in (assigned', used', v # rest')
      else (assigned, used, v # rest))"

text \<open>The notes that fund targets, each with its targets and its leftover, and those to consolidate.\<close>

primrec pass_one ::
    "nat \<Rightarrow> PrepInput list \<Rightarrow> nat list \<Rightarrow> (PrepInput \<times> nat list \<times> nat) list \<times> PrepInput list \<times> nat list" where
  "pass_one fee [] remaining = ([], [], remaining)"
| "pass_one fee (input # rest) remaining =
     (if remaining = [] then pass_one fee rest remaining
      else
        let v = zat (input_value input); smallest = last remaining
        in if v \<le> fee \<or> u64_sub v fee < smallest then
             let (partial, consolidatable, remaining') = pass_one fee rest remaining
             in (partial, input # consolidatable, remaining')
           else
             let budget = u64_sub v fee;
                 (assigned, used, remaining') = assign_targets budget [] 0 remaining;
                 (partial, consolidatable, remaining'') = pass_one fee rest remaining'
             in ((input, assigned, u64_sub budget used) # partial, consolidatable, remaining''))"

fun pass_two ::
    "nat \<Rightarrow> (PrepInput \<times> nat list \<times> nat) list \<Rightarrow> PrepTransaction list \<Rightarrow> PrepInput list
     \<Rightarrow> (PrepTransaction list \<times> PrepInput list) option" where
  "pass_two layer [] txs next = Some (txs, next)"
| "pass_two layer ((input, assigned, leftover) # partial) txs next =
     Option.bind (map_option (map Funding) (expect_zats assigned)) (\<lambda>outs.
       if 0 < leftover then
         Option.bind (expect_zat leftover) (\<lambda>z.
           pass_two layer partial (txs @ [\<lparr>inputs = [input], outputs = outs @ [Intermediate z]\<rparr>])
             (next @ [PriorNote layer (length txs) (length outs) z]))
       else pass_two layer partial (txs @ [\<lparr>inputs = [input], outputs = outs\<rparr>]) next)"

partial_function (option) layer_loop ::
    "((PrepInput \<Rightarrow> nat) \<Rightarrow> PrepInput list \<Rightarrow> PrepInput list) \<Rightarrow> nat \<Rightarrow> nat list \<Rightarrow> PrepInput list
     \<Rightarrow> PrepTransaction list list \<Rightarrow> (PrepError + PrepTransaction list list) option" where
  "layer_loop sort_notes fee remaining current ls =
     (if remaining = [] then Some (Inr ls)
      else if current = [] then Some (Inl InsufficientFunds)
      else
        let (partial, consolidatable, remaining') =
              pass_one fee (sort_notes (\<lambda>n. zat (input_value n)) current) remaining
        in Option.bind (pass_two (length ls) partial [] []) (\<lambda>(txs, next).
           Option.bind (consolidate sort_notes consolidatable (length ls) fee txs next) (\<lambda>(leftover, txs, next).
             if txs = [] then Some (Inl InsufficientFunds)
             else layer_loop sort_notes fee remaining' next (ls @ [txs]))))"

partial_function (option) residual_loop ::
    "((PrepInput \<Rightarrow> nat) \<Rightarrow> PrepInput list \<Rightarrow> PrepInput list) \<Rightarrow> nat
     \<Rightarrow> PrepTransaction list list \<Rightarrow> PrepTransaction list list option" where
  "residual_loop sort_notes fee ls =
     (let pool = unconsumed_feeders ls
      in if length pool \<le> 1 then Some ls
         else Option.bind (consolidate sort_notes pool (length ls) fee [] []) (\<lambda>(leftover, txs, next).
           if txs = [] then Some ls else residual_loop sort_notes fee (ls @ [txs])))"

definition relabel :: "PrepTransaction list list \<Rightarrow> PrepTransaction list list" where
  "relabel ls =
     map (\<lambda>(li, layer). map (\<lambda>(ti, tx). tx\<lparr>outputs := map (\<lambda>(oi, out). case out of
           Intermediate v \<Rightarrow> if (li, ti, oi) \<in> set (spent_refs ls) then out else Change v
         | _ \<Rightarrow> out) (enumerate 0 (outputs tx))\<rparr>)
       (enumerate 0 layer)) (enumerate 0 ls)"

section \<open>The strategy\<close>

text \<open>\<open>Iterator::max_by_key\<close> takes the last of the greatest.\<close>

fun max_by_value :: "(nat \<times> nat) list \<Rightarrow> (nat \<times> nat) option" where
  "max_by_value [] = None"
| "max_by_value [x] = Some x"
| "max_by_value (x # y # xs) = max_by_value ((if snd x \<le> snd y then y else x) # xs)"

text \<open>The fast path: the targets and the layers after it.\<close>

definition fan_out ::
    "nat list \<Rightarrow> bool list \<Rightarrow> nat \<Rightarrow> nat list \<Rightarrow> (nat list \<times> PrepTransaction list list) option" where
  "fan_out available used fee remaining =
     (case max_by_value (map (\<lambda>i. (i, available ! i)) (filter (\<lambda>i. \<not> used ! i) [0..<length available])) of
        Some (idx, big) \<Rightarrow>
          if snd (subtree_cost remaining fee) \<le> big then
            Option.bind (expect_zat big) (\<lambda>z.
              map_option (Pair []) (build_split (WalletNote idx z) big remaining fee 0 []))
          else Some (remaining, [])
      | None \<Rightarrow> Some (remaining, []))"

definition plan_layered ::
    "((PrepInput \<Rightarrow> nat) \<Rightarrow> PrepInput list \<Rightarrow> PrepInput list) \<Rightarrow> Zatoshis list \<Rightarrow> Zatoshis list \<Rightarrow> Zatoshis
     \<Rightarrow> plan_result" where
  "plan_layered sort_notes available funding fee_per_tx =
     (case validate_instance available funding of
        Inl e \<Rightarrow> Some (Inl e)
      | Inr _ \<Rightarrow>
          let available = map zat available;
              fee = zat fee_per_tx;
              remaining = rev (sort (filter (\<lambda>v. 0 < v) (map zat funding)))
          in Option.bind (match_direct available remaining (replicate (length available) False) []) (\<lambda>(remaining, used, direct).
             if remaining = [] then Some (Inr \<lparr>layers = [], direct_funding = direct\<rparr>)
             else
               Option.bind (fan_out available used fee remaining) (\<lambda>(remaining, ls).
               Option.bind (wallet_notes available (filter (\<lambda>i. \<not> used ! i) [0..<length available])) (\<lambda>current.
               Option.bind (layer_loop sort_notes fee remaining current ls) (\<lambda>r.
                 case r of
                   Inl e \<Rightarrow> Some (Inl e)
                 | Inr ls \<Rightarrow>
                     map_option (\<lambda>ls. Inr \<lparr>layers = relabel ls, direct_funding = direct\<rparr>)
                       (residual_loop sort_notes fee ls))))))"

definition layered_greedy :: "((PrepInput \<Rightarrow> nat) \<Rightarrow> PrepInput list \<Rightarrow> PrepInput list) \<Rightarrow> PreparationStrategy" where
  "layered_greedy sort_notes =
     \<lparr>strategy_name = ''layered-greedy'', strategy_plan = plan_layered sort_notes\<rparr>"

section \<open>The planner of the crate\<close>

definition default_portfolio ::
    "((nat \<Rightarrow> nat) \<Rightarrow> nat list \<Rightarrow> nat list) \<Rightarrow> ((PrepInput \<Rightarrow> nat) \<Rightarrow> PrepInput list \<Rightarrow> PrepInput list)
     \<Rightarrow> PreparationStrategy list" where
  "default_portfolio sort_indices sort_notes = [first_fit_decreasing sort_indices, layered_greedy sort_notes]"

definition plan_preparation ::
    "((nat \<Rightarrow> nat) \<Rightarrow> nat list \<Rightarrow> nat list) \<Rightarrow> ((PrepInput \<Rightarrow> nat) \<Rightarrow> PrepInput list \<Rightarrow> PrepInput list)
     \<Rightarrow> Zatoshis list \<Rightarrow> Zatoshis list \<Rightarrow> Zatoshis \<Rightarrow> plan_result" where
  "plan_preparation sort_indices sort_notes = plan_preparation_with (default_portfolio sort_indices sort_notes)"

end
