(* ===== verification/FeeRule.thy ===== *)
theory FeeRule
  imports Value
begin

text \<open>
  Model of \<open>zcash_primitives/src/transaction/fees/zip317.rs\<close>, with \<open>InputSize\<close> of
  \<open>fees/transparent.rs\<close> and the fixed rule of \<open>fees/fixed.rs\<close>. A \<open>usize\<close> is a \<open>nat\<close> with the
  additions of a 64-bit target, which wrap in release builds. The consensus parameters and the
  target height, which both rules ignore, are left out.
\<close>

section \<open>The fee rules\<close>

definition MARGINAL_FEE :: Zatoshis where
  "MARGINAL_FEE = Zatoshis 5000"

definition GRACE_ACTIONS :: nat where
  "GRACE_ACTIONS = 2"

definition P2PKH_STANDARD_INPUT_SIZE :: nat where
  "P2PKH_STANDARD_INPUT_SIZE = 150"

definition P2PKH_STANDARD_OUTPUT_SIZE :: nat where
  "P2PKH_STANDARD_OUTPUT_SIZE = 34"

definition MINIMUM_FEE :: Zatoshis where
  "MINIMUM_FEE = Zatoshis 10000"

record OutPoint =
  outpoint_hash :: bytes
  outpoint_n :: u32

datatype InputSize = Known nat | UnknownInput OutPoint

record FeeRule =
  marginal_fee :: Zatoshis
  grace_actions :: nat
  p2pkh_standard_input_size :: nat
  p2pkh_standard_output_size :: nat

definition fee_rule_standard :: FeeRule where
  "fee_rule_standard = \<lparr>marginal_fee = MARGINAL_FEE, grace_actions = GRACE_ACTIONS,
     p2pkh_standard_input_size = P2PKH_STANDARD_INPUT_SIZE,
     p2pkh_standard_output_size = P2PKH_STANDARD_OUTPUT_SIZE\<rparr>"

definition fee_rule_non_standard :: "Zatoshis \<Rightarrow> nat \<Rightarrow> nat \<Rightarrow> nat \<Rightarrow> FeeRule option" where
  "fee_rule_non_standard fee grace input_size output_size =
     (if input_size = 0 \<or> output_size = 0 then None
      else Some \<lparr>marginal_fee = fee, grace_actions = grace,
        p2pkh_standard_input_size = input_size, p2pkh_standard_output_size = output_size\<rparr>)"

datatype FeeError = Balance BalanceError | UnknownP2shInputs "OutPoint list"

text \<open>The loop over the transparent inputs: the running size and the unknown outpoints.\<close>

primrec input_sizes_loop :: "nat \<Rightarrow> OutPoint list \<Rightarrow> InputSize list \<Rightarrow> nat \<times> OutPoint list" where
  "input_sizes_loop t_in_total_size unknown [] = (t_in_total_size, unknown)"
| "input_sizes_loop t_in_total_size unknown (sz # rest) =
     (case sz of
        Known s \<Rightarrow> input_sizes_loop (u64_add t_in_total_size s) unknown rest
      | UnknownInput outpoint \<Rightarrow> input_sizes_loop t_in_total_size (unknown @ [outpoint]) rest)"

definition fee_required ::
    "FeeRule \<Rightarrow> InputSize list \<Rightarrow> nat list \<Rightarrow> nat \<Rightarrow> nat \<Rightarrow> nat \<Rightarrow> nat \<Rightarrow> FeeError + Zatoshis" where
  "fee_required self transparent_input_sizes transparent_output_sizes sapling_input_count
      sapling_output_count orchard_action_count ironwood_action_count =
     (let (t_in_total_size, unknown_p2sh_outpoints) = input_sizes_loop 0 [] transparent_input_sizes in
      if unknown_p2sh_outpoints \<noteq> [] then Inl (UnknownP2shInputs unknown_p2sh_outpoints)
      else
        let t_out_total_size = foldl u64_add 0 transparent_output_sizes;
            logical_actions =
              u64_add (u64_add (u64_add
                (max (nat_div_ceil t_in_total_size (p2pkh_standard_input_size self))
                     (nat_div_ceil t_out_total_size (p2pkh_standard_output_size self)))
                (max sapling_input_count sapling_output_count))
                orchard_action_count)
                ironwood_action_count
        in case zatoshis_mul (marginal_fee self) (max (grace_actions self) logical_actions) of
             None \<Rightarrow> Inl (Balance Overflow)
           | Some fee \<Rightarrow> Inr fee)"

record FixedFeeRule =
  fixed_fee :: Zatoshis

definition fixed_fee_required ::
    "FixedFeeRule \<Rightarrow> InputSize list \<Rightarrow> nat list \<Rightarrow> nat \<Rightarrow> nat \<Rightarrow> nat \<Rightarrow> nat \<Rightarrow> 'e + Zatoshis" where
  "fixed_fee_required self transparent_input_sizes transparent_output_sizes sapling_input_count
      sapling_output_count orchard_action_count ironwood_action_count = Inr (fixed_fee self)"

section \<open>The ZIP 317 formula\<close>

text \<open>The shape of a transaction, and the formula over unbounded integers.\<close>

definition known_sizes :: "InputSize list \<Rightarrow> nat list" where
  "known_sizes xs = concat (map (\<lambda>x. case x of Known s \<Rightarrow> [s] | UnknownInput _ \<Rightarrow> []) xs)"

definition unknown_outpoints :: "InputSize list \<Rightarrow> OutPoint list" where
  "unknown_outpoints xs = concat (map (\<lambda>x. case x of Known _ \<Rightarrow> [] | UnknownInput p \<Rightarrow> [p]) xs)"

definition logical_actions :: "FeeRule \<Rightarrow> nat \<Rightarrow> nat \<Rightarrow> nat \<Rightarrow> nat \<Rightarrow> nat \<Rightarrow> nat \<Rightarrow> nat" where
  "logical_actions r t_in t_out s_in s_out orchard ironwood =
     max (nat_div_ceil t_in (p2pkh_standard_input_size r)) (nat_div_ceil t_out (p2pkh_standard_output_size r)) +
     max s_in s_out + orchard + ironwood"

definition fee_rule_ok :: "FeeRule \<Rightarrow> bool" where
  "fee_rule_ok r \<longleftrightarrow> zatoshis_valid (marginal_fee r) \<and> u64_ok (grace_actions r) \<and>
     0 < p2pkh_standard_input_size r \<and> 0 < p2pkh_standard_output_size r"

text \<open>The counters of a transaction whose sums a \<open>usize\<close> holds.\<close>

definition fee_inputs_ok :: "FeeRule \<Rightarrow> InputSize list \<Rightarrow> nat list \<Rightarrow> nat \<Rightarrow> nat \<Rightarrow> nat \<Rightarrow> nat \<Rightarrow> bool" where
  "fee_inputs_ok r ins outs s_in s_out orchard ironwood \<longleftrightarrow>
     u64_ok (sum_list (known_sizes ins)) \<and> u64_ok (sum_list outs) \<and>
     u64_ok (logical_actions r (sum_list (known_sizes ins)) (sum_list outs) s_in s_out orchard ironwood)"

lemma u64_ok_mono: "u64_ok n \<Longrightarrow> m \<le> n \<Longrightarrow> u64_ok m"
  by (simp add: u64_ok_def)

lemma input_sizes_loop_eq:
  "u64_ok (acc + sum_list (known_sizes xs)) \<Longrightarrow>
   input_sizes_loop acc unknown xs = (acc + sum_list (known_sizes xs), unknown @ unknown_outpoints xs)"
proof (induction xs arbitrary: acc unknown)
  case (Cons x xs)
  show ?case
  proof (cases x)
    case (Known s)
    with Cons.prems have "u64_ok (acc + s)" "u64_ok (acc + s + sum_list (known_sizes xs))"
      by (auto simp: known_sizes_def u64_ok_def)
    with Known Cons.IH show ?thesis by (simp add: known_sizes_def unknown_outpoints_def)
  next
    case (UnknownInput p)
    with Cons show ?thesis by (simp add: known_sizes_def unknown_outpoints_def)
  qed
qed (simp add: known_sizes_def unknown_outpoints_def)

lemma foldl_u64_add: "u64_ok (acc + sum_list xs) \<Longrightarrow> foldl u64_add acc xs = acc + sum_list xs"
proof (induction xs arbitrary: acc)
  case (Cons x xs)
  then have "u64_ok (acc + x)" "u64_ok (acc + x + sum_list xs)" by (auto simp: u64_ok_def)
  with Cons.IH show ?case by simp
qed simp

lemma fee_required_eq:
  assumes "fee_rule_ok r" "fee_inputs_ok r ins outs s_in s_out orchard ironwood"
  shows "fee_required r ins outs s_in s_out orchard ironwood =
    (if unknown_outpoints ins \<noteq> [] then Inl (UnknownP2shInputs (unknown_outpoints ins))
     else let n = zat (marginal_fee r) * max (grace_actions r)
              (logical_actions r (sum_list (known_sizes ins)) (sum_list outs) s_in s_out orchard ironwood)
       in if n \<le> MAX_MONEY then Inr (Zatoshis n) else Inl (Balance Overflow))"
proof -
  let ?in = "sum_list (known_sizes ins)" and ?out = "sum_list outs"
  from assms(2) have ok: "u64_ok ?in" "u64_ok ?out"
      "u64_ok (logical_actions r ?in ?out s_in s_out orchard ironwood)"
    by (simp_all add: fee_inputs_ok_def)
  have loop: "input_sizes_loop 0 [] ins = (?in, unknown_outpoints ins)"
    "foldl u64_add 0 outs = ?out"
    using ok by (simp_all add: input_sizes_loop_eq foldl_u64_add)
  let ?m = "max (nat_div_ceil ?in (p2pkh_standard_input_size r)) (nat_div_ceil ?out (p2pkh_standard_output_size r))"
  have "u64_ok (?m + max s_in s_out + orchard + ironwood)" using ok(3) by (simp add: logical_actions_def)
  then have "u64_ok (?m + max s_in s_out)" "u64_ok (?m + max s_in s_out + orchard)"
      "u64_ok (?m + max s_in s_out + orchard + ironwood)"
    by (auto elim: u64_ok_mono)
  then have sum: "u64_add (u64_add (u64_add ?m (max s_in s_out)) orchard) ironwood =
      logical_actions r ?in ?out s_in s_out orchard ironwood"
    by (simp add: logical_actions_def)
  show ?thesis
    unfolding fee_required_def loop prod.case Let_def sum
    by (auto simp: zatoshis_mul_def u64_checked_mul_def zatoshis_from_u64_def result_ok_def MAX_MONEY_eq
        split: option.splits sum.splits)
qed

lemma logical_actions_mono:
  assumes "fee_rule_ok r" "t_in \<le> t_in'" "t_out \<le> t_out'" "s_in \<le> s_in'" "s_out \<le> s_out'"
    "orchard \<le> orchard'" "ironwood \<le> ironwood'"
  shows "logical_actions r t_in t_out s_in s_out orchard ironwood \<le>
    logical_actions r t_in' t_out' s_in' s_out' orchard' ironwood'"
proof -
  have "nat_div_ceil t_in (p2pkh_standard_input_size r) \<le> nat_div_ceil t_in' (p2pkh_standard_input_size r)"
    "nat_div_ceil t_out (p2pkh_standard_output_size r) \<le> nat_div_ceil t_out' (p2pkh_standard_output_size r)"
    using assms by (auto intro!: nat_div_ceil_mono simp: fee_rule_ok_def)
  with assms show ?thesis unfolding logical_actions_def by (intro add_mono max.mono) auto
qed

section \<open>The properties of the rules\<close>

text \<open>
  C32. The ZIP 317 fee is exact. For a rule the constructors admit and a transaction whose sizes and
  counts fit a \<open>usize\<close>, unknown P2SH inputs are reported, all of them and in order, before anything
  else; otherwise the fee is the marginal fee times the larger of the grace actions and the logical
  actions, an overflow being reported exactly when that product exceeds the money supply. The
  logical actions charge the transparent part the least number of actions covering its inputs and
  outputs.
\<close>

theorem fee_required_exact:
  assumes "fee_rule_ok r" "fee_inputs_ok r ins outs s_in s_out orchard ironwood"
  defines "t \<equiv> max (nat_div_ceil (sum_list (known_sizes ins)) (p2pkh_standard_input_size r))
    (nat_div_ceil (sum_list outs) (p2pkh_standard_output_size r))"
  defines "n \<equiv> zat (marginal_fee r) * max (grace_actions r) (t + max s_in s_out + orchard + ironwood)"
  shows "fee_required r ins outs s_in s_out orchard ironwood =
      (if unknown_outpoints ins \<noteq> [] then Inl (UnknownP2shInputs (unknown_outpoints ins))
       else if n \<le> MAX_MONEY then Inr (Zatoshis n) else Inl (Balance Overflow)) \<and>
    (\<forall>k. t \<le> k \<longleftrightarrow> sum_list (known_sizes ins) \<le> k * p2pkh_standard_input_size r \<and>
      sum_list outs \<le> k * p2pkh_standard_output_size r)"
  using assms(1) unfolding fee_required_eq [OF assms(1,2)] Let_def
  by (simp add: n_def t_def logical_actions_def nat_div_ceil_le_iff fee_rule_ok_def)

lemma fee_rule_standard_ok: "fee_rule_ok fee_rule_standard"
  by (simp add: fee_rule_ok_def fee_rule_standard_def MARGINAL_FEE_def GRACE_ACTIONS_def
      P2PKH_STANDARD_INPUT_SIZE_def P2PKH_STANDARD_OUTPUT_SIZE_def zatoshis_valid_def MAX_MONEY_eq u64_ok_def)

lemmas fee_concrete = fee_inputs_ok_def known_sizes_def unknown_outpoints_def logical_actions_def
  nat_div_ceil_def fee_rule_standard_def MARGINAL_FEE_def GRACE_ACTIONS_def
  P2PKH_STANDARD_INPUT_SIZE_def P2PKH_STANDARD_OUTPUT_SIZE_def u64_ok_def MAX_MONEY_eq

theorem fee_required_exact_witness:
  "fee_required fee_rule_standard [Known 150, Known 160] [34] 1 2 0 3 = Inr (Zatoshis 40000)"
proof -
  have "fee_inputs_ok fee_rule_standard [Known 150, Known 160] [34] 1 2 0 3" by (simp add: fee_concrete)
  from fee_required_exact [OF fee_rule_standard_ok this] show ?thesis by (simp add: fee_concrete)
qed

text \<open>
  The fee is monotone: adding transparent bytes, shielded spends, outputs or actions never makes
  a transaction cheaper, and what fits in the larger transaction fits in the smaller one. Under the
  standard rule no fee is below \<open>MINIMUM_FEE\<close>.
\<close>

theorem fee_required_monotone:
  assumes "fee_rule_ok r" "fee_inputs_ok r ins outs s_in s_out orchard ironwood"
    "fee_inputs_ok r ins' outs' s_in' s_out' orchard' ironwood'"
    "unknown_outpoints ins = []" "sum_list (known_sizes ins) \<le> sum_list (known_sizes ins')"
    "sum_list outs \<le> sum_list outs'" "s_in \<le> s_in'" "s_out \<le> s_out'" "orchard \<le> orchard'"
    "ironwood \<le> ironwood'"
    "fee_required r ins' outs' s_in' s_out' orchard' ironwood' = Inr fee'"
  shows "\<exists>fee. fee_required r ins outs s_in s_out orchard ironwood = Inr fee \<and> fee \<le> fee' \<and>
    zatoshis_valid fee \<and> (r = fee_rule_standard \<longrightarrow> MINIMUM_FEE \<le> fee)"
proof -
  let ?n = "zat (marginal_fee r) * max (grace_actions r)
    (logical_actions r (sum_list (known_sizes ins)) (sum_list outs) s_in s_out orchard ironwood)"
  let ?n' = "zat (marginal_fee r) * max (grace_actions r)
    (logical_actions r (sum_list (known_sizes ins')) (sum_list outs') s_in' s_out' orchard' ironwood')"
  have le: "?n \<le> ?n'"
    using logical_actions_mono [OF assms(1,5-10)] by (intro mult_le_mono2 max.mono) auto
  from assms(11) have n': "?n' \<le> MAX_MONEY" "fee' = Zatoshis ?n'"
    unfolding fee_required_eq [OF assms(1,3)] Let_def by (simp_all split: if_splits)
  have bound: "?n \<le> MAX_MONEY" using le n'(1) by (rule order_trans)
  have "fee_required r ins outs s_in s_out orchard ironwood = Inr (Zatoshis ?n)"
    unfolding fee_required_eq [OF assms(1,2)] Let_def using assms(4) bound by simp
  moreover have "MINIMUM_FEE \<le> Zatoshis ?n" if "r = fee_rule_standard"
    using that by (simp add: less_eq_Zatoshis_def MINIMUM_FEE_def fee_rule_standard_def MARGINAL_FEE_def
        GRACE_ACTIONS_def)
  ultimately show ?thesis using le n'(2) bound by (simp only: less_eq_Zatoshis_def zatoshis_valid_def) simp
qed

theorem fee_required_monotone_witness:
  "\<exists>fee. fee_required fee_rule_standard [Known 150] [34] 0 0 0 0 = Inr fee \<and> fee \<le> Zatoshis 40000 \<and>
     MINIMUM_FEE \<le> fee"
proof -
  have ok: "fee_inputs_ok fee_rule_standard [Known 150] [34] 0 0 0 0"
    "fee_inputs_ok fee_rule_standard [Known 150, Known 160] [34] 1 2 0 3" by (simp_all add: fee_concrete)
  have "fee_required fee_rule_standard [Known 150, Known 160] [34] 1 2 0 3 = Inr (Zatoshis 40000)"
    unfolding fee_required_eq [OF fee_rule_standard_ok ok(2)] by (simp add: fee_concrete)
  from fee_required_monotone [OF fee_rule_standard_ok ok _ _ _ _ _ _ _ this] show ?thesis
    by (auto simp: known_sizes_def unknown_outpoints_def)
qed

end
