(* ===== verification/MigrationPlanning.thy ===== *)
theory MigrationPlanning
  imports SigningRounds LayeredGreedy FeeRule
begin

text \<open>
  Model of the planning part of \<open>zcash_pool_migration/src/engine.rs\<close>: a plan and the run it
  describes (which transaction spends which note, and what each waits on), the planner that composes
  the denominations, the preparation, the signing capacity and the schedules, and the estimate of all
  the runs of a wallet. The backend is the record of the answers of its trait. The planner of the
  preparation counts as refusing where a strategy of the portfolio panics; those of the crate do not.
\<close>

section \<open>Plans\<close>

definition EST_PREP_LAYER_MINING_BLOCKS :: u32 where
  "EST_PREP_LAYER_MINING_BLOCKS = 10"

record MigrationPlan =
  plan_denominations_of :: DenominationPlan
  plan_preparation_of :: PreparationPlan
  prep_schedule :: "BlockHeight list list"
  transfer_schedule :: "Schedule list"

record PlannedNote =
  note_value :: Zatoshis
  note_producer :: "MigrationTransferId option"
  claimed :: bool

type_synonym MintedOrdinal = nat

type_synonym MintedAt = "nat \<times> nat \<times> nat"

definition claim_note :: "PlannedNote list \<Rightarrow> MintedOrdinal \<Rightarrow> PlannedNote list" where
  "claim_note minted i = minted[i := (minted ! i)\<lparr>claimed := True\<rparr>]"

definition claim_planned_note_at ::
    "(MintedAt \<rightharpoonup> MintedOrdinal) \<Rightarrow> PlannedNote list \<Rightarrow> MintedAt \<Rightarrow> PlannedNote list \<times> MintedOrdinal option" where
  "claim_planned_note_at minted_at minted coordinate =
     (case minted_at coordinate of
        None \<Rightarrow> (minted, None)
      | Some i \<Rightarrow>
          (case list_get minted i of
             None \<Rightarrow> (minted, None)
           | Some note \<Rightarrow> if claimed note then (minted, None) else (claim_note minted i, Some i)))"

definition claim_planned_note :: "PlannedNote list \<Rightarrow> Zatoshis \<Rightarrow> PlannedNote list \<times> MintedOrdinal option" where
  "claim_planned_note minted v =
     (case find (\<lambda>i. \<not> claimed (minted ! i) \<and> note_value (minted ! i) = v) [0..<length minted] of
        None \<Rightarrow> (minted, None)
      | Some i \<Rightarrow> (claim_note minted i, Some i))"

record PlannedRun =
  rows :: "PlannedTx list"
  prep_feeders :: "MintedOrdinal option list list"
  transfer_funding :: "MintedOrdinal option list"

record BuildableRun =
  built_rows :: "PlannedTx list"
  built_feeders :: "MintedOrdinal list list"
  built_funding :: "MintedOrdinal list"

text \<open>The two messages of \<open>CommitError::InconsistentPlan\<close> that a planned run can give.\<close>

datatype InconsistentPlan = SpendsUnminted nat | NoFundingNote nat

primrec resolve_feeders :: "nat \<Rightarrow> MintedOrdinal option list \<Rightarrow> InconsistentPlan + MintedOrdinal list" where
  "resolve_feeders ix [] = Inr []"
| "resolve_feeders ix (claim # claims) =
     (case claim of
        None \<Rightarrow> Inl (SpendsUnminted ix)
      | Some i \<Rightarrow> map_sum id ((#) i) (resolve_feeders ix claims))"

primrec resolve_all_feeders ::
    "nat \<Rightarrow> MintedOrdinal option list list \<Rightarrow> InconsistentPlan + MintedOrdinal list list" where
  "resolve_all_feeders ix [] = Inr []"
| "resolve_all_feeders ix (feeders # rest) =
     (case resolve_feeders ix feeders of
        Inl e \<Rightarrow> Inl e
      | Inr is \<Rightarrow> map_sum id ((#) is) (resolve_all_feeders (ix + 1) rest))"

primrec resolve_funding :: "nat \<Rightarrow> MintedOrdinal option list \<Rightarrow> InconsistentPlan + MintedOrdinal list" where
  "resolve_funding cx [] = Inr []"
| "resolve_funding cx (claim # claims) =
     (case claim of
        None \<Rightarrow> Inl (NoFundingNote cx)
      | Some i \<Rightarrow> map_sum id ((#) i) (resolve_funding (cx + 1) claims))"

definition into_buildable :: "PlannedRun \<Rightarrow> InconsistentPlan + BuildableRun" where
  "into_buildable run =
     (case resolve_all_feeders 0 (prep_feeders run) of
        Inl e \<Rightarrow> Inl e
      | Inr feeders \<Rightarrow>
          map_sum id (\<lambda>funding. \<lparr>built_rows = rows run, built_feeders = feeders, built_funding = funding\<rparr>)
            (resolve_funding 0 (transfer_funding run)))"

section \<open>The run a plan describes\<close>

definition plan_funding_notes :: "MigrationPlan \<Rightarrow> Zatoshis list option" where
  "plan_funding_notes p = migration_outputs (plan_denominations_of p)"

definition plan_crossing_values :: "MigrationPlan \<Rightarrow> Zatoshis list" where
  "plan_crossing_values p = crossing_values (plan_denominations_of p)"

definition preparation_tx_count :: "MigrationPlan \<Rightarrow> nat" where
  "preparation_tx_count p = transaction_count (plan_preparation_of p)"

definition transfer_tx_count :: "MigrationPlan \<Rightarrow> nat option" where
  "transfer_tx_count p = map_option length (plan_funding_notes p)"

definition total_transactions :: "MigrationPlan \<Rightarrow> nat option" where
  "total_transactions p = map_option (\<lambda>n. preparation_tx_count p + n) (transfer_tx_count p)"

definition preparation_layer_count :: "MigrationPlan \<Rightarrow> nat" where
  "preparation_layer_count p = layer_count (plan_preparation_of p)"

definition prep_broadcast_height :: "MigrationPlan \<Rightarrow> nat \<Rightarrow> nat \<Rightarrow> BlockHeight option" where
  "prep_broadcast_height p ly ix =
     Option.bind (list_get (prep_schedule p) ly) (\<lambda>heights. list_get heights ix)"

text \<open>The state of the walk: the run so far, the notes minted, where they come from, and the next id.\<close>

record RunWalk =
  walk_rows :: "PlannedTx list"
  minted_notes :: "PlannedNote list"
  minted_at :: "MintedAt \<rightharpoonup> MintedOrdinal"
  walk_feeders :: "MintedOrdinal option list list"
  next_id :: MigrationTransferId

primrec claim_feeders ::
    "(MintedAt \<rightharpoonup> MintedOrdinal) \<Rightarrow> PlannedNote list \<Rightarrow> PrepInput list \<Rightarrow> PlannedNote list \<times> MintedOrdinal option list" where
  "claim_feeders at_map minted [] = (minted, [])"
| "claim_feeders at_map minted (i # ins) =
     (case i of
        WalletNote _ _ \<Rightarrow> claim_feeders at_map minted ins
      | PriorNote l t k v \<Rightarrow>
          let (minted', claim) = claim_planned_note_at at_map minted (l, t, k)
          in apsnd ((#) claim) (claim_feeders at_map minted' ins))"

definition mint_note ::
    "nat \<Rightarrow> nat \<Rightarrow> MigrationTransferId \<Rightarrow> RunWalk \<Rightarrow> nat \<times> Zatoshis \<Rightarrow> RunWalk" where
  "mint_note ly ix i w = (\<lambda>(output_index, v).
     w\<lparr>minted_at := (minted_at w)((ly, ix, output_index) \<mapsto> length (minted_notes w)),
       minted_notes := minted_notes w @ [\<lparr>note_value = v, note_producer = Some i, claimed = False\<rparr>]\<rparr>)"

fun mint_output ::
    "nat \<Rightarrow> nat \<Rightarrow> MigrationTransferId \<Rightarrow> RunWalk \<Rightarrow> nat \<times> PrepOutput \<Rightarrow> RunWalk" where
  "mint_output ly ix i w (k, Funding v) = mint_note ly ix i w (k, v)"
| "mint_output ly ix i w (k, Intermediate v) = mint_note ly ix i w (k, v)"
| "mint_output ly ix i w (k, Change v) = w"

definition plan_prep_transaction ::
    "MigrationPlan \<Rightarrow> nat \<Rightarrow> MigrationTransferId list \<Rightarrow> RunWalk \<times> MigrationTransferId list \<Rightarrow>
     nat \<times> PrepTransaction \<Rightarrow> RunWalk \<times> MigrationTransferId list" where
  "plan_prep_transaction p ly previous_layer = (\<lambda>(w, this_layer) (ix, prep_tx).
     let i = next_id w;
         (minted, feeders) = claim_feeders (minted_at w) (minted_notes w) (inputs prep_tx);
         w1 = w\<lparr>next_id := i + 1, minted_notes := minted, walk_feeders := walk_feeders w @ [feeders]\<rparr>;
         w2 = foldl (mint_output ly ix i) w1 (enumerate 0 (outputs prep_tx));
         row = planned_tx_new i (MigrationState.Preparation ly ix) (if ly = 0 then [] else previous_layer)
           (prep_broadcast_height p ly ix)
     in (w2\<lparr>walk_rows := walk_rows w2 @ [row]\<rparr>, this_layer @ [i]))"

definition plan_layer ::
    "MigrationPlan \<Rightarrow> RunWalk \<times> MigrationTransferId list \<Rightarrow> nat \<times> PrepTransaction list \<Rightarrow> RunWalk \<times> MigrationTransferId list" where
  "plan_layer p = (\<lambda>(w, previous_layer) (ly, layer_txs).
     foldl (plan_prep_transaction p ly previous_layer) (w, []) (enumerate 0 layer_txs))"

definition walk_start :: RunWalk where
  "walk_start = \<lparr>walk_rows = [], minted_notes = [], minted_at = Map.empty, walk_feeders = [], next_id = 0\<rparr>"

definition walk_preparation :: "MigrationPlan \<Rightarrow> RunWalk" where
  "walk_preparation p = fst (foldl (plan_layer p) (walk_start, []) (enumerate 0 (layers (plan_preparation_of p))))"

definition direct_notes :: "PreparationPlan \<Rightarrow> PlannedNote list" where
  "direct_notes prep =
     map (\<lambda>(i, v). \<lparr>note_value = v, note_producer = None, claimed = False\<rparr>) (direct_funding prep)"

primrec plan_crossings ::
    "MigrationPlan \<Rightarrow> nat \<Rightarrow> Zatoshis list \<Rightarrow> PlannedNote list \<Rightarrow> MigrationTransferId \<Rightarrow>
     PlannedTx list \<times> MintedOrdinal option list" where
  "plan_crossings p cx [] minted next = ([], [])"
| "plan_crossings p cx (v # values) minted next =
     (let (minted', claim) = claim_planned_note minted v;
          producer = Option.bind claim (\<lambda>i. note_producer (minted' ! i));
          row = planned_tx_new next (Transfer cx) (case producer of None \<Rightarrow> [] | Some i \<Rightarrow> [i])
            (map_option broadcast_height (list_get (transfer_schedule p) cx));
          (rs, claims) = plan_crossings p (cx + 1) values minted' (next + 1)
      in (row # rs, claim # claims))"

definition planned_run :: "MigrationPlan \<Rightarrow> PlannedRun option" where
  "planned_run p =
     (let w = walk_preparation p in
      map_option (\<lambda>values.
        let (rs, claims) = plan_crossings p 0 values (minted_notes w @ direct_notes (plan_preparation_of p)) (next_id w)
        in \<lparr>rows = walk_rows w @ rs, prep_feeders = walk_feeders w, transfer_funding = claims\<rparr>)
      (plan_funding_notes p))"

definition planned_transactions :: "MigrationPlan \<Rightarrow> PlannedTx list option" where
  "planned_transactions p = map_option rows (planned_run p)"

definition plan_shape :: "MigrationPlan \<Rightarrow> RunShape option" where
  "plan_shape p = map_option (\<lambda>n. \<lparr>preparation_transactions = preparation_tx_count p, transfers = n\<rparr>) (transfer_tx_count p)"

definition plan_total_actions :: "MigrationPlan \<Rightarrow> u32 option" where
  "plan_total_actions p = map_option shape_total_actions (plan_shape p)"

definition value_migrated :: "MigrationPlan \<Rightarrow> Zatoshis" where
  "value_migrated p = total_migratable (plan_denominations_of p)"

definition plan_residual :: "MigrationPlan \<Rightarrow> Zatoshis" where
  "plan_residual p = (case change (plan_denominations_of p) of None \<Rightarrow> zatoshis_ZERO | Some c \<Rightarrow> c)"

definition signing_rounds_with ::
    "(PlannedTx list \<Rightarrow> SigningRoundBudget \<Rightarrow> PlannedSigningRound list option) \<Rightarrow> MigrationPlan \<Rightarrow> SigningRoundBudget \<Rightarrow>
     PlannedSigningRound list option" where
  "signing_rounds_with pack p budget = Option.bind (planned_transactions p) (\<lambda>txs. pack txs budget)"

definition signing_rounds :: "MigrationPlan \<Rightarrow> SigningRoundBudget \<Rightarrow> PlannedSigningRound list option" where
  "signing_rounds p budget = signing_rounds_with min_rounds_pack p budget"

definition signing_round_count :: "MigrationPlan \<Rightarrow> SigningRoundBudget \<Rightarrow> nat option" where
  "signing_round_count p budget = Option.bind (plan_shape p) (\<lambda>s. shape_signing_rounds s budget)"

definition min_budget_for_single_round :: "MigrationPlan \<Rightarrow> u32 option" where
  "min_budget_for_single_round p =
     Option.bind (transfer_tx_count p) (\<lambda>n. min_budget_for_rounds (preparation_tx_count p) n 1)"

section \<open>The planner\<close>

datatype 'e MigrationError =
    BackendFailed 'e | PreparationFailed PrepError | NothingToMigrate | UnfundableSplit
  | InvalidBalance BalanceError | FeeFailed FeeError | Nu63NotActive

definition canonical_fees :: "FeeError + Zatoshis \<times> Zatoshis" where
  "canonical_fees =
     (case fee_required fee_rule_standard [] [] 0 0 PREP_TX_ACTIONS 0 of
        Inl e \<Rightarrow> Inl e
      | Inr prep_tx_fee \<Rightarrow>
          map_sum id (\<lambda>transfer_fee_buffer. (prep_tx_fee, transfer_fee_buffer))
            (fee_required fee_rule_standard [] [] 0 0 CROSSING_SOURCE_ACTIONS CROSSING_DESTINATION_ACTIONS))"

datatype RunSizing = Notes nat | Signer RunSigningCapacity

definition run_sizing_default :: RunSizing where
  "run_sizing_default = Notes MIGRATION_MAX_PREPARED_NOTES_PER_RUN"

definition prep_tx_count_of :: "plan_result \<Rightarrow> nat option" where
  "prep_tx_count_of r = (case r of Some (Inr prep) \<Rightarrow> Some (transaction_count prep) | _ \<Rightarrow> None)"

definition plan_run_denominations ::
    "PreparationStrategy list \<Rightarrow> Zatoshis list \<Rightarrow> Zatoshis \<Rightarrow> nat \<Rightarrow> Zatoshis \<Rightarrow> Zatoshis \<Rightarrow> DenominationPlan option" where
  "plan_run_denominations portfolio notes balance n transfer_fee_buffer prep_tx_fee =
     plan_denominations balance (length notes) n transfer_fee_buffer prep_tx_fee
       (\<lambda>funding. prep_tx_count_of (plan_preparation_with portfolio notes funding prep_tx_fee))"

definition run_shape_at ::
    "PreparationStrategy list \<Rightarrow> Zatoshis list \<Rightarrow> Zatoshis \<Rightarrow> Zatoshis \<Rightarrow> Zatoshis \<Rightarrow> nat \<Rightarrow> RunShape option option" where
  "run_shape_at portfolio notes balance transfer_fee_buffer prep_tx_fee n =
     Option.bind (plan_run_denominations portfolio notes balance n transfer_fee_buffer prep_tx_fee) (\<lambda>d.
     Option.bind (migration_outputs d) (\<lambda>funding.
       if funding = [] then Some (Some \<lparr>preparation_transactions = 0, transfers = 0\<rparr>)
       else map_option (\<lambda>r. case r of
           Inl _ \<Rightarrow> None
         | Inr prep \<Rightarrow> Some \<lparr>preparation_transactions = transaction_count prep, transfers = length funding\<rparr>)
         (plan_preparation_with portfolio notes funding prep_tx_fee)))"

definition resolve_max_notes ::
    "RunSizing \<Rightarrow> PreparationStrategy list \<Rightarrow> Zatoshis list \<Rightarrow> Zatoshis \<Rightarrow> Zatoshis \<Rightarrow> Zatoshis \<Rightarrow> nat option" where
  "resolve_max_notes sizing portfolio notes balance transfer_fee_buffer prep_tx_fee =
     (case sizing of
        Notes n \<Rightarrow> Some n
      | Signer capacity \<Rightarrow>
          largest_run_size_within capacity (run_shape_at portfolio notes balance transfer_fee_buffer prep_tx_fee))"

text \<open>The layers of the preparation are scheduled one after another.\<close>

primrec draw_prep_schedule ::
    "(u32 \<Rightarrow> u64 \<Rightarrow> u32) \<Rightarrow> SchedulingParams \<Rightarrow> BlockHeight \<Rightarrow> PrepTransaction list list \<Rightarrow> rng \<Rightarrow>
     ((BlockHeight list list \<times> BlockHeight) \<times> rng) option" where
  "draw_prep_schedule delay_of params layer_base [] rng = Some (([], layer_base), rng)"
| "draw_prep_schedule delay_of params layer_base (txs # rest) rng =
     Option.bind (schedule_prep_broadcast_heights delay_of params layer_base (length txs) rng) (\<lambda>(heights, rng').
       let base = block_height_add (if heights = [] then layer_base else last heights) EST_PREP_LAYER_MINING_BLOCKS
       in map_option (apfst (apfst ((#) heights))) (draw_prep_schedule delay_of params base rest rng'))"

definition assign_slots :: "Schedule list \<Rightarrow> nat list \<Rightarrow> Schedule list" where
  "assign_slots slots order = foldl (\<lambda>s (slot, cx). s[cx := slots ! slot]) slots (enumerate 0 order)"

definition schedule_plan ::
    "(u32 \<Rightarrow> u64 \<Rightarrow> u32) \<Rightarrow> SchedulingParams \<Rightarrow> parameters \<Rightarrow> BlockHeight \<Rightarrow> DenominationPlan \<Rightarrow> nat \<Rightarrow> PreparationPlan \<Rightarrow>
     rng \<Rightarrow> (('e MigrationError + MigrationPlan) \<times> rng) option" where
  "schedule_plan delay_of sched_params params commit_height d n prep rng =
     Option.bind (draw_prep_schedule delay_of sched_params commit_height (layers prep) rng)
       (\<lambda>((heights, est_last_prep_height), rng1).
       case activation_height params Nu6_3 of
         None \<Rightarrow> Some (Inl Nu63NotActive, rng1)
       | Some nu63_activation \<Rightarrow>
           let schedule_base = max commit_height
                 (earliest_broadcast_height (anchor_bucket_interval sched_params) nu63_activation est_last_prep_height)
           in Option.bind (schedule delay_of sched_params schedule_base n rng1) (\<lambda>(slots, rng2).
              map_option (\<lambda>(order, rng3).
                (Inr \<lparr>plan_denominations_of = d, plan_preparation_of = prep, prep_schedule = heights,
                   transfer_schedule = assign_slots slots order\<rparr>, rng3)) (shuffle_indices n rng2)))"

definition plan_run ::
    "(u32 \<Rightarrow> u64 \<Rightarrow> u32) \<Rightarrow> PreparationStrategy list \<Rightarrow> RunSizing \<Rightarrow> parameters \<Rightarrow> SchedulingParams \<Rightarrow> Zatoshis list \<Rightarrow>
     Zatoshis \<Rightarrow> BlockHeight \<Rightarrow> Zatoshis \<Rightarrow> Zatoshis \<Rightarrow> rng \<Rightarrow> (('e MigrationError + MigrationPlan) \<times> rng) option" where
  "plan_run delay_of portfolio sizing params sched_params notes balance commit_height prep_tx_fee transfer_fee_buffer rng =
     Option.bind (resolve_max_notes sizing portfolio notes balance transfer_fee_buffer prep_tx_fee) (\<lambda>n.
     Option.bind (plan_run_denominations portfolio notes balance n transfer_fee_buffer prep_tx_fee) (\<lambda>d.
     Option.bind (migration_outputs d) (\<lambda>funding.
       if funding = [] then
         map_option (\<lambda>split. (Inl (if split then UnfundableSplit else NothingToMigrate), rng))
           (balance_has_canonical_split balance (length notes) n transfer_fee_buffer prep_tx_fee)
       else
         Option.bind (plan_preparation_with portfolio notes funding prep_tx_fee) (\<lambda>r.
           case r of
             Inl e \<Rightarrow> Some (Inl (PreparationFailed e), rng)
           | Inr prep \<Rightarrow> schedule_plan delay_of sched_params params commit_height d (length funding) prep rng))))"

definition plan_migration_sized_with ::
    "(u32 \<Rightarrow> u64 \<Rightarrow> u32) \<Rightarrow> PreparationStrategy list \<Rightarrow> RunSizing \<Rightarrow> parameters \<Rightarrow> 'e MigrationBackend \<Rightarrow> rng \<Rightarrow>
     (('e MigrationError + MigrationPlan) \<times> rng) option" where
  "plan_migration_sized_with delay_of portfolio sizing params backend rng =
     (case spendable_orchard_note_values backend of
        Inl e \<Rightarrow> Some (Inl (BackendFailed e), rng)
      | Inr notes \<Rightarrow>
          (case zatoshis_iter_sum notes of
             None \<Rightarrow> Some (Inl (InvalidBalance Overflow), rng)
           | Some balance \<Rightarrow>
               if balance = zatoshis_ZERO then Some (Inl NothingToMigrate, rng)
               else case chain_tip_height backend of
                   Inl e \<Rightarrow> Some (Inl (BackendFailed e), rng)
                 | Inr commit_height \<Rightarrow>
                     (case canonical_fees of
                        Inl e \<Rightarrow> Some (Inl (FeeFailed e), rng)
                      | Inr (prep_tx_fee, transfer_fee_buffer) \<Rightarrow>
                          plan_run delay_of portfolio sizing params (scheduling_params backend) notes balance
                            commit_height prep_tx_fee transfer_fee_buffer rng)))"

definition plan_migration_with ::
    "(u32 \<Rightarrow> u64 \<Rightarrow> u32) \<Rightarrow> PreparationStrategy list \<Rightarrow> nat \<Rightarrow> parameters \<Rightarrow> 'e MigrationBackend \<Rightarrow> rng \<Rightarrow>
     (('e MigrationError + MigrationPlan) \<times> rng) option" where
  "plan_migration_with delay_of portfolio n params backend rng =
     plan_migration_sized_with delay_of portfolio (Notes n) params backend rng"

definition plan_migration_for_signer_with ::
    "(u32 \<Rightarrow> u64 \<Rightarrow> u32) \<Rightarrow> PreparationStrategy list \<Rightarrow> RunSigningCapacity \<Rightarrow> parameters \<Rightarrow> 'e MigrationBackend \<Rightarrow> rng \<Rightarrow>
     (('e MigrationError + MigrationPlan) \<times> rng) option" where
  "plan_migration_for_signer_with delay_of portfolio capacity params backend rng =
     plan_migration_sized_with delay_of portfolio (Signer capacity) params backend rng"

text \<open>The crate's own portfolio, with the sorts of its two strategies.\<close>

definition plan_migration ::
    "(u32 \<Rightarrow> u64 \<Rightarrow> u32) \<Rightarrow> ((nat \<Rightarrow> nat) \<Rightarrow> nat list \<Rightarrow> nat list) \<Rightarrow> ((PrepInput \<Rightarrow> nat) \<Rightarrow> PrepInput list \<Rightarrow> PrepInput list)
     \<Rightarrow> parameters \<Rightarrow> 'e MigrationBackend \<Rightarrow> rng \<Rightarrow> (('e MigrationError + MigrationPlan) \<times> rng) option" where
  "plan_migration delay_of sort_indices sort_notes params backend rng =
     plan_migration_with delay_of (default_portfolio sort_indices sort_notes) MIGRATION_MAX_PREPARED_NOTES_PER_RUN
       params backend rng"

definition plan_migration_for_signer ::
    "(u32 \<Rightarrow> u64 \<Rightarrow> u32) \<Rightarrow> ((nat \<Rightarrow> nat) \<Rightarrow> nat list \<Rightarrow> nat list) \<Rightarrow> ((PrepInput \<Rightarrow> nat) \<Rightarrow> PrepInput list \<Rightarrow> PrepInput list)
     \<Rightarrow> RunSigningCapacity \<Rightarrow> parameters \<Rightarrow> 'e MigrationBackend \<Rightarrow> rng \<Rightarrow>
     (('e MigrationError + MigrationPlan) \<times> rng) option" where
  "plan_migration_for_signer delay_of sort_indices sort_notes capacity params backend rng =
     plan_migration_for_signer_with delay_of (default_portfolio sort_indices sort_notes) capacity params backend rng"

section \<open>The estimate of all runs\<close>

record RunEstimate =
  migratable :: Zatoshis
  crossings :: nat
  prep_layers :: nat
  prep_transactions :: nat

definition estimate_transactions :: "RunEstimate \<Rightarrow> nat" where
  "estimate_transactions e = prep_transactions e + crossings e"

definition estimate_shape :: "RunEstimate \<Rightarrow> RunShape" where
  "estimate_shape e = \<lparr>preparation_transactions = prep_transactions e, transfers = crossings e\<rparr>"

definition estimate_actions :: "RunEstimate \<Rightarrow> u32" where
  "estimate_actions e = shape_total_actions (estimate_shape e)"

definition estimate_signing_rounds :: "RunEstimate \<Rightarrow> SigningRoundBudget \<Rightarrow> nat option" where
  "estimate_signing_rounds e budget = shape_signing_rounds (estimate_shape e) budget"

record MigrationRunEstimate =
  estimated_runs :: "RunEstimate list"
  final_residual :: Zatoshis

definition total_migratable_runs :: "MigrationRunEstimate \<Rightarrow> Zatoshis option" where
  "total_migratable_runs e = zatoshis_iter_sum (map migratable (estimated_runs e))"

definition total_crossings :: "MigrationRunEstimate \<Rightarrow> nat" where
  "total_crossings e = sum_list (map crossings (estimated_runs e))"

definition total_prep_transactions :: "MigrationRunEstimate \<Rightarrow> nat" where
  "total_prep_transactions e = sum_list (map prep_transactions (estimated_runs e))"

definition total_run_transactions :: "MigrationRunEstimate \<Rightarrow> nat" where
  "total_run_transactions e = sum_list (map estimate_transactions (estimated_runs e))"

definition total_prep_layers :: "MigrationRunEstimate \<Rightarrow> nat" where
  "total_prep_layers e = sum_list (map prep_layers (estimated_runs e))"

definition total_run_actions :: "MigrationRunEstimate \<Rightarrow> u32" where
  "total_run_actions e = foldl word_saturating_add 0 (map estimate_actions (estimated_runs e))"

primrec sum_options :: "nat option list \<Rightarrow> nat option" where
  "sum_options [] = Some 0"
| "sum_options (x # xs) = Option.bind x (\<lambda>a. map_option ((+) a) (sum_options xs))"

definition total_signing_rounds :: "MigrationRunEstimate \<Rightarrow> SigningRoundBudget \<Rightarrow> nat option" where
  "total_signing_rounds e budget = sum_options (map (\<lambda>run. estimate_signing_rounds run budget) (estimated_runs e))"

definition flag_spent :: "bool list \<Rightarrow> nat \<Rightarrow> bool list" where
  "flag_spent flags i = (if i < length flags then flags[i := True] else flags)"

definition flag_input :: "bool list \<Rightarrow> PrepInput \<Rightarrow> bool list" where
  "flag_input flags inp = (case inp of WalletNote i v \<Rightarrow> flag_spent flags i | PriorNote _ _ _ _ \<Rightarrow> flags)"

definition source_pool_notes_after_run :: "Zatoshis list \<Rightarrow> PreparationPlan \<Rightarrow> Zatoshis list" where
  "source_pool_notes_after_run wallet prep =
     (let spent_inputs = foldl flag_input (replicate (length wallet) False)
            (concat (map inputs (concat (layers prep))));
          flags = foldl flag_spent spent_inputs (map fst (direct_funding prep))
      in map fst (filter (\<lambda>(v, is_spent). \<not> is_spent) (zip wallet flags)) @ residual_notes prep)"

text \<open>One run of the estimate: the end, or its row and the notes it leaves.\<close>

definition estimate_run ::
    "PreparationStrategy list \<Rightarrow> RunSizing \<Rightarrow> Zatoshis \<Rightarrow> Zatoshis \<Rightarrow> Zatoshis list \<Rightarrow>
     ('e MigrationError + Zatoshis + RunEstimate \<times> Zatoshis list) option" where
  "estimate_run portfolio sizing transfer_fee_buffer prep_tx_fee notes =
     (case zatoshis_iter_sum notes of
        None \<Rightarrow> Some (Inl (InvalidBalance Overflow))
      | Some balance \<Rightarrow>
          Option.bind (resolve_max_notes sizing portfolio notes balance transfer_fee_buffer prep_tx_fee) (\<lambda>n.
          Option.bind (plan_run_denominations portfolio notes balance n transfer_fee_buffer prep_tx_fee) (\<lambda>d.
          Option.bind (migration_outputs d) (\<lambda>funding.
            if funding = [] then Some (Inr (Inl balance))
            else map_option (\<lambda>r. case r of
                Inl e \<Rightarrow> Inl (PreparationFailed e)
              | Inr prep \<Rightarrow> Inr (Inr (\<lparr>migratable = total_migratable d, crossings = length funding,
                  prep_layers = layer_count prep, prep_transactions = transaction_count prep\<rparr>,
                  source_pool_notes_after_run notes prep)))
              (plan_preparation_with portfolio notes funding prep_tx_fee)))))"

partial_function (option) estimate_loop ::
    "PreparationStrategy list \<Rightarrow> RunSizing \<Rightarrow> Zatoshis \<Rightarrow> Zatoshis \<Rightarrow> Zatoshis list \<Rightarrow> RunEstimate list \<Rightarrow>
     ('e MigrationError + MigrationRunEstimate) option" where
  "estimate_loop portfolio sizing transfer_fee_buffer prep_tx_fee notes runs =
     (case estimate_run portfolio sizing transfer_fee_buffer prep_tx_fee notes of
        None \<Rightarrow> None
      | Some (Inl e) \<Rightarrow> Some (Inl e)
      | Some (Inr (Inl balance)) \<Rightarrow> Some (Inr \<lparr>estimated_runs = runs, final_residual = balance\<rparr>)
      | Some (Inr (Inr (run, notes'))) \<Rightarrow>
          estimate_loop portfolio sizing transfer_fee_buffer prep_tx_fee notes' (runs @ [run]))"

definition estimate_migration_runs_sized_with ::
    "PreparationStrategy list \<Rightarrow> RunSizing \<Rightarrow> 'e MigrationBackend \<Rightarrow> ('e MigrationError + MigrationRunEstimate) option" where
  "estimate_migration_runs_sized_with portfolio sizing backend =
     (case chain_tip_height backend of
        Inl e \<Rightarrow> Some (Inl (BackendFailed e))
      | Inr height \<Rightarrow>
          (case canonical_fees of
             Inl e \<Rightarrow> Some (Inl (FeeFailed e))
           | Inr (prep_tx_fee, transfer_fee_buffer) \<Rightarrow>
               (case spendable_orchard_note_values backend of
                  Inl e \<Rightarrow> Some (Inl (BackendFailed e))
                | Inr notes \<Rightarrow> estimate_loop portfolio sizing transfer_fee_buffer prep_tx_fee notes [])))"

definition estimate_migration_runs_with ::
    "PreparationStrategy list \<Rightarrow> nat \<Rightarrow> 'e MigrationBackend \<Rightarrow> ('e MigrationError + MigrationRunEstimate) option" where
  "estimate_migration_runs_with portfolio n backend = estimate_migration_runs_sized_with portfolio (Notes n) backend"

definition estimate_migration_runs ::
    "((nat \<Rightarrow> nat) \<Rightarrow> nat list \<Rightarrow> nat list) \<Rightarrow> ((PrepInput \<Rightarrow> nat) \<Rightarrow> PrepInput list \<Rightarrow> PrepInput list)
     \<Rightarrow> 'e MigrationBackend \<Rightarrow> ('e MigrationError + MigrationRunEstimate) option" where
  "estimate_migration_runs sort_indices sort_notes backend =
     estimate_migration_runs_with (default_portfolio sort_indices sort_notes) MIGRATION_MAX_PREPARED_NOTES_PER_RUN backend"

definition estimate_migration_runs_for_signer_with ::
    "PreparationStrategy list \<Rightarrow> RunSigningCapacity \<Rightarrow> 'e MigrationBackend \<Rightarrow>
     ('e MigrationError + MigrationRunEstimate) option" where
  "estimate_migration_runs_for_signer_with portfolio capacity backend =
     estimate_migration_runs_sized_with portfolio (Signer capacity) backend"

definition estimate_migration_runs_for_signer ::
    "((nat \<Rightarrow> nat) \<Rightarrow> nat list \<Rightarrow> nat list) \<Rightarrow> ((PrepInput \<Rightarrow> nat) \<Rightarrow> PrepInput list \<Rightarrow> PrepInput list)
     \<Rightarrow> RunSigningCapacity \<Rightarrow> 'e MigrationBackend \<Rightarrow> ('e MigrationError + MigrationRunEstimate) option" where
  "estimate_migration_runs_for_signer sort_indices sort_notes capacity backend =
     estimate_migration_runs_for_signer_with (default_portfolio sort_indices sort_notes) capacity backend"

end
