(* ===== verification/LayeredSound.thy ===== *)
theory LayeredSound
  imports LayeredGreedy
begin

text \<open>
  The layered greedy strategy is sound: an invariant of the layers under construction and the notes
  still to spend, kept by every step that adds a transaction, and what it gives of the final plan.
\<close>

section \<open>Layers under construction\<close>

definition note_ref :: "PrepInput \<Rightarrow> nat + nat \<times> nat \<times> nat" where
  "note_ref n = (case n of WalletNote i v \<Rightarrow> Inl i | PriorNote l t k v \<Rightarrow> Inr (l, t, k))"

lemma note_ref_simps [simp]: "note_ref (WalletNote i v) = Inl i" "note_ref (PriorNote l t k v) = Inr (l, t, k)"
  by (simp_all add: note_ref_def)

text \<open>A note that exists: a wallet note, or an intermediate output.\<close>

fun note_ok :: "nat list \<Rightarrow> PrepTransaction list list \<Rightarrow> PrepInput \<Rightarrow> bool" where
  "note_ok A ls (WalletNote i v) \<longleftrightarrow> i < length A \<and> v = Zatoshis (A ! i)"
| "note_ok A ls (PriorNote l t k v) \<longleftrightarrow>
     l < length ls \<and> t < length (ls ! l) \<and> k < length (outputs (ls ! l ! t)) \<and> outputs (ls ! l ! t) ! k = Intermediate v"

text \<open>A note that may be spent in a layer.\<close>

definition before_layer :: "nat \<Rightarrow> PrepInput \<Rightarrow> bool" where
  "before_layer l n \<longleftrightarrow> (\<forall>(l', t, k)\<in>set (prior_ref n). l' < l)"

lemma before_layer_simps [simp]: "before_layer l (WalletNote i v)" "before_layer l (PriorNote l' t k v) \<longleftrightarrow> l' < l"
  by (simp_all add: before_layer_def)

definition spent_in :: "PrepTransaction list list \<Rightarrow> PrepInput list" where
  "spent_in ls = concat (map inputs (concat ls))"

definition tx_ok :: "nat \<Rightarrow> PrepTransaction \<Rightarrow> bool" where
  "tx_ok fee tx \<longleftrightarrow> transaction_ok fee tx \<and> transaction_values_valid tx \<and> (\<forall>v. Change v \<notin> set (outputs tx))"

definition plan_inv :: "nat list \<Rightarrow> nat \<Rightarrow> PrepTransaction list list \<Rightarrow> PrepInput list \<Rightarrow> bool" where
  "plan_inv A fee ls pool \<longleftrightarrow> (\<forall>tx\<in>set (concat ls). tx_ok fee tx) \<and>
     (\<forall>l<length ls. \<forall>tx\<in>set (ls ! l). \<forall>n\<in>set (inputs tx). before_layer l n) \<and>
     (\<forall>n\<in>set (spent_in ls @ pool). note_ok A ls n) \<and> distinct (map note_ref (spent_in ls @ pool))"

lemma distinct_map_mset: "mset xs = mset ys \<Longrightarrow> distinct (map f xs) \<longleftrightarrow> distinct (map f ys)"
  by (rule mset_eq_imp_distinct_iff) simp

lemma plan_inv_mset: "mset pool = mset pool' \<Longrightarrow> plan_inv A fee ls pool \<Longrightarrow> plan_inv A fee ls pool'"
  unfolding plan_inv_def
  using distinct_map_mset [of "spent_in ls @ pool" "spent_in ls @ pool'" note_ref] mset_eq_setD [of pool pool'] by simp

lemma plan_inv_drop: "plan_inv A fee ls (pool @ rest) \<Longrightarrow> plan_inv A fee ls rest"
  by (auto simp: plan_inv_def)

text \<open>A transaction added at the end of a layer.\<close>

lemma concat_push:
  "l < length ls \<Longrightarrow> mset (concat (push_transaction l tx ls)) = add_mset tx (mset (concat ls))"
  unfolding push_transaction_def
proof (induction ls arbitrary: l)
  case (Cons layer ls)
  then show ?case by (cases l) simp_all
qed simp

lemma concat_pad [simp]: "concat (pad_layers n ls) = concat ls"
  by (simp add: pad_layers_def)

lemma length_pad [simp]: "length (pad_layers n ls) = max n (length ls)"
  by (simp add: pad_layers_def)

lemma nth_pad: "l < max n (length ls) \<Longrightarrow> pad_layers n ls ! l = (if l < length ls then ls ! l else [])"
  by (auto simp: pad_layers_def nth_append)

lemma mset_spent_in: "mset (concat ls) = mset (concat ls') \<Longrightarrow> mset (spent_in ls) = mset (spent_in ls')"
  by (simp add: spent_in_def mset_concat comp_def flip: sum_mset_sum_list)

lemma plan_inv_pad: "plan_inv A fee ls pool \<Longrightarrow> plan_inv A fee (pad_layers n ls) pool"
proof -
  assume p: "plan_inv A fee ls pool"
  have s: "spent_in (pad_layers n ls) = spent_in ls" by (simp add: spent_in_def)
  have "note_ok A (pad_layers n ls) i" if "note_ok A ls i" for i
    using that by (cases i) (auto simp: nth_pad)
  with p show ?thesis unfolding plan_inv_def s by (auto simp: nth_pad)
qed

text \<open>The notes a new transaction makes.\<close>

definition made_by :: "nat \<Rightarrow> nat \<Rightarrow> PrepTransaction \<Rightarrow> PrepInput list \<Rightarrow> bool" where
  "made_by l t tx new \<longleftrightarrow> distinct (map note_ref new) \<and>
     (\<forall>n\<in>set new. \<exists>k v. n = PriorNote l t k v \<and> k < length (outputs tx) \<and> outputs tx ! k = Intermediate v)"

lemma plan_inv_push:
  assumes p: "plan_inv A fee ls (inputs tx @ rest)" and l: "l < length ls" and ok: "tx_ok fee tx"
    and b: "\<forall>n\<in>set (inputs tx). before_layer l n" and new: "made_by l (length (ls ! l)) tx new"
  shows "plan_inv A fee (push_transaction l tx ls) (new @ rest)"
proof -
  let ?ls = "push_transaction l tx ls"
  have n: "length ?ls = length ls" "\<And>k. k < length ls \<Longrightarrow> ?ls ! k = (if k = l then ls ! l @ [tx] else ls ! k)"
    by (auto simp: push_transaction_def nth_list_update)
  have "mset (spent_in ?ls) = mset (inputs tx @ spent_in ls)"
    using concat_push [OF l, of tx] by (simp add: spent_in_def mset_concat comp_def flip: sum_mset_sum_list)
  then have sp: "mset (spent_in ?ls @ new @ rest) = mset (new @ spent_in ls @ inputs tx @ rest)" by simp
  have txs: "set (concat ?ls) = insert tx (set (concat ls))"
    using mset_eq_setD [of "concat ?ls" "tx # concat ls"] concat_push [OF l, of tx] by simp
  have mono: "note_ok A ?ls i" if "note_ok A ls i" for i
    using that n by (cases i) (auto simp: nth_append)
  have made: "note_ok A ?ls i \<and> note_ref i \<notin> note_ref ` {i. note_ok A ls i}" if i: "i \<in> set new" for i
  proof -
    from new i obtain k v where k: "i = PriorNote l (length (ls ! l)) k v" "k < length (outputs tx)" "outputs tx ! k = Intermediate v"
      unfolding made_by_def by blast
    have "note_ref j \<noteq> note_ref i" if "note_ok A ls j" for j using that k(1) by (cases j) auto
    then have "note_ref i \<notin> note_ref ` {i. note_ok A ls i}" by (metis imageE mem_Collect_eq)
    moreover have "note_ok A ?ls i" using k l n by (simp add: nth_append)
    ultimately show ?thesis by blast
  qed
  have old: "\<forall>i\<in>set (spent_in ls @ inputs tx @ rest). note_ok A ls i" "distinct (map note_ref (spent_in ls @ inputs tx @ rest))"
    using p by (auto simp: plan_inv_def)
  have "distinct (map note_ref (new @ spent_in ls @ inputs tx @ rest))"
    using old made new unfolding made_by_def map_append distinct_append [of "map note_ref new"] by fastforce
  then have "distinct (map note_ref (spent_in ?ls @ new @ rest))" by (simp only: distinct_map_mset [OF sp])
  moreover have "\<forall>i\<in>set (spent_in ?ls @ new @ rest). note_ok A ?ls i"
    using mset_eq_setD [OF sp] old(1) made mono by (metis Un_iff set_append)
  moreover have "\<forall>k<length ?ls. \<forall>t\<in>set (?ls ! k). \<forall>i\<in>set (inputs t). before_layer k i"
    using p b n by (auto simp: plan_inv_def)
  ultimately show ?thesis using p ok txs by (auto simp: plan_inv_def)
qed

text \<open>The notes still to spend are worth no more than the wallet.\<close>

lemma prior_refs_outputs:
  "\<forall>n\<in>set ns. note_ok A ls n \<Longrightarrow> set (concat (map prior_ref ns)) \<subseteq> output_refs ls"
proof
  fix r assume ok: "\<forall>n\<in>set ns. note_ok A ls n" and "r \<in> set (concat (map prior_ref ns))"
  then obtain n where "n \<in> set ns" "r \<in> set (prior_ref n)" by auto
  with ok show "r \<in> output_refs ls" by (cases n) (auto simp: output_refs_def)
qed

lemma distinct_note_refs:
  "distinct (map note_ref ns) \<Longrightarrow> distinct (concat (map wallet_ref ns)) \<and> distinct (concat (map prior_ref ns))"
proof (induction ns)
  case (Cons n ns)
  have "i \<in> set (concat (map wallet_ref ns)) \<Longrightarrow> Inl i \<in> note_ref ` set ns" for i
  proof -
    assume "i \<in> set (concat (map wallet_ref ns))"
    then obtain m where m: "m \<in> set ns" "i \<in> set (wallet_ref m)" by auto
    from m(2) have "note_ref m = Inl i" by (cases m) auto
    with m(1) show ?thesis by force
  qed
  moreover have "r \<in> set (concat (map prior_ref ns)) \<Longrightarrow> Inr r \<in> note_ref ` set ns" for r
  proof -
    assume "r \<in> set (concat (map prior_ref ns))"
    then obtain m where m: "m \<in> set ns" "r \<in> set (prior_ref m)" by auto
    from m(2) have "note_ref m = Inr r" by (cases m) auto
    with m(1) show ?thesis by force
  qed
  ultimately have "Inl i \<notin> note_ref ` set ns \<Longrightarrow> i \<notin> set (concat (map wallet_ref ns))"
    "Inr r \<notin> note_ref ` set ns \<Longrightarrow> r \<notin> set (concat (map prior_ref ns))" for i r by blast+
  with Cons show ?case by (cases n) (simp_all del: set_concat)
qed simp

lemma notes_value_split:
  "\<forall>n\<in>set ns. note_ok A ls n \<Longrightarrow> (\<Sum>n\<leftarrow>ns. zat (input_value n)) =
     (\<Sum>i\<leftarrow>concat (map wallet_ref ns). A ! i) + (\<Sum>r\<leftarrow>concat (map prior_ref ns). ref_value ls r)"
proof (induction ns)
  case (Cons n ns)
  then show ?case by (cases n) (auto simp: input_value_def ref_value_def output_value_def)
qed simp

lemma plan_inv_value:
  assumes p: "plan_inv A fee ls pool"
  shows "(\<Sum>n\<leftarrow>pool. zat (input_value n)) \<le> sum_list A"
proof -
  let ?ns = "spent_in ls @ pool" and ?v = "\<lambda>ns. \<Sum>n\<leftarrow>ns. zat (input_value n)"
  have ok: "\<forall>n\<in>set ?ns. note_ok A ls n" and d: "distinct (map note_ref ?ns)" using p by (auto simp: plan_inv_def)
  have "(\<Sum>i\<leftarrow>concat (map wallet_ref ?ns). A ! i) \<le> sum_list A"
  proof (rule sum_distinct_le)
    show "distinct (concat (map wallet_ref ?ns))" using distinct_note_refs [OF d] by simp
    show "\<forall>i\<in>set (concat (map wallet_ref ?ns)). i < length A"
    proof
      fix i assume "i \<in> set (concat (map wallet_ref ?ns))"
      then obtain n where n: "n \<in> set ?ns" "i \<in> set (wallet_ref n)" by auto
      have "note_ok A ls n" using ok n(1) by blast
      with n(2) show "i < length A" by (cases n) auto
    qed
  qed
  moreover have "(\<Sum>r\<leftarrow>concat (map prior_ref ?ns). ref_value ls r) \<le> (\<Sum>r\<in>output_refs ls. ref_value ls r)"
    using distinct_note_refs [OF d] prior_refs_outputs [OF ok]
    by (simp only: sum_list_distinct_conv_sum_set) (rule sum_mono2 [OF finite_output_refs], auto)
  moreover have "?v (spent_in ls) = (\<Sum>tx\<leftarrow>concat ls. \<Sum>n\<leftarrow>inputs tx. zat (input_value n))"
    by (simp add: spent_in_def map_concat sum_list_concat comp_def)
  moreover have "\<dots> = (\<Sum>tx\<leftarrow>concat ls. (\<Sum>out\<leftarrow>outputs tx. zat (output_value out)) + fee)"
    using p by (intro arg_cong [where f = sum_list] map_cong refl) (auto simp: plan_inv_def tx_ok_def transaction_ok_def)
  ultimately have "?v ?ns \<le> sum_list A + ?v (spent_in ls)"
    using notes_value_split [OF ok] sum_output_refs [of ls] by (simp add: sum_list_addf)
  then show ?thesis by simp
qed

lemma plan_inv_note:
  assumes "plan_inv A fee ls pool" "sum_list A \<le> MAX_MONEY" "n \<in> set pool"
  shows "zat (input_value n) \<le> MAX_MONEY"
  using plan_inv_value [OF assms(1)] assms(2) member_le_sum_list [of "zat (input_value n)" "map (\<lambda>n. zat (input_value n)) pool"]
    assms(3) by fastforce

section \<open>The two passes\<close>

lemma assign_targets_ok:
  "used + sum_list rest \<le> MAX_MONEY \<Longrightarrow> assign_targets budget assigned used rest = (assigned', used', rest') \<Longrightarrow>
   \<exists>new. assigned' = assigned @ new \<and> used' = used + sum_list new \<and> mset rest = mset new + mset rest' \<and>
     (used \<le> budget \<longrightarrow> used' \<le> budget) \<and>
     (length assigned \<le> FUNDING_OUTPUTS_PER_TX \<longrightarrow> length assigned' \<le> FUNDING_OUTPUTS_PER_TX) \<and>
     (length assigned < FUNDING_OUTPUTS_PER_TX \<and> rest \<noteq> [] \<and> used + last rest \<le> budget \<longrightarrow> new \<noteq> [])"
proof (induction rest arbitrary: assigned used assigned' used' rest')
  case (Cons v rest)
  have "u64_ok (used + v)" using Cons.prems(1) by (simp add: u64_ok_def MAX_MONEY_eq)
  then have add: "u64_add used v = used + v" by simp
  consider (full) "\<not> length assigned < FUNDING_OUTPUTS_PER_TX"
    | (take) "length assigned < FUNDING_OUTPUTS_PER_TX" "used + v \<le> budget"
    | (skip) "length assigned < FUNDING_OUTPUTS_PER_TX" "\<not> used + v \<le> budget" by blast
  then show ?case
  proof cases
    case full
    then show ?thesis using Cons.prems(2) by auto
  next
    case take
    then have "assign_targets budget (assigned @ [v]) (used + v) rest = (assigned', used', rest')"
      using Cons.prems(2) add by simp
    from Cons.IH [OF _ this] Cons.prems(1) take show ?thesis by auto
  next
    case skip
    then obtain r where "assign_targets budget assigned used rest = (assigned', used', r)" "rest' = v # r"
      using Cons.prems(2) add by (auto split: prod.splits)
    with Cons.IH [OF _ this(1)] Cons.prems(1) skip show ?thesis by auto
  qed
qed simp

definition part_ok :: "nat \<Rightarrow> PrepInput \<times> nat list \<times> nat \<Rightarrow> bool" where
  "part_ok fee = (\<lambda>(input, assigned, leftover). assigned \<noteq> [] \<and> length assigned \<le> FUNDING_OUTPUTS_PER_TX \<and>
     zat (input_value input) = sum_list assigned + leftover + fee)"

lemma pass_one_ok:
  assumes "sum_list remaining \<le> MAX_MONEY" "\<forall>n\<in>set current. zat (input_value n) \<le> MAX_MONEY"
    "pass_one fee current remaining = (partial, consolidatable, remaining')"
  shows "(\<forall>x\<in>set partial. part_ok fee x) \<and> mset (concat (map (fst \<circ> snd) partial)) + mset remaining' = mset remaining \<and>
    (\<exists>skipped. mset current = mset (map fst partial) + mset consolidatable + mset skipped) \<and>
    (remaining' \<noteq> [] \<longrightarrow> length current = length partial + length consolidatable)"
  using assms
proof (induction current arbitrary: remaining partial consolidatable remaining')
  case (Cons input rest)
  let ?v = "zat (input_value input)"
  have v: "?v \<le> MAX_MONEY" "\<forall>n\<in>set rest. zat (input_value n) \<le> MAX_MONEY" using Cons.prems(2) by simp_all
  then have "u64_ok ?v" by (simp add: u64_ok_def MAX_MONEY_eq)
  then have sub: "fee \<le> ?v \<Longrightarrow> u64_sub ?v fee = ?v - fee" by simp
  consider (empty) "remaining = []"
    | (small) "remaining \<noteq> []" "?v \<le> fee \<or> u64_sub ?v fee < last remaining"
    | (fund) "remaining \<noteq> []" "\<not> (?v \<le> fee \<or> u64_sub ?v fee < last remaining)" by blast
  then show ?case
  proof cases
    case empty
    then have "pass_one fee rest remaining = (partial, consolidatable, remaining')" using Cons.prems(3) by simp
    from Cons.IH [OF Cons.prems(1) v(2) this] empty show ?thesis by (auto intro: exI [of _ "input # s" for s])
  next
    case small
    then obtain c where "pass_one fee rest remaining = (partial, c, remaining')" "consolidatable = input # c"
      using Cons.prems(3) by (auto split: prod.splits)
    with Cons.IH [OF Cons.prems(1) v(2) this(1)] show ?thesis by auto
  next
    case fund
    then have le: "fee < ?v" by simp
    let ?b = "?v - fee"
    have b: "u64_sub ?v fee = ?b" using le by (intro sub) simp
    obtain as u r where a: "assign_targets ?b [] 0 remaining = (as, u, r)" by (metis prod_cases3)
    obtain p where p: "pass_one fee rest r = (p, consolidatable, remaining')"
        "partial = (input, as, u64_sub ?b u) # p"
      using Cons.prems(3) fund a b by (auto simp: Let_def split: prod.splits)
    from assign_targets_ok [of 0 remaining ?b "[]" as u r] a Cons.prems(1) fund b have
      as: "u = sum_list as" "mset remaining = mset as + mset r" "u \<le> ?b" "length as \<le> FUNDING_OUTPUTS_PER_TX" "as \<noteq> []"
      by (auto simp: FUNDING_OUTPUTS_PER_TX_def PREP_TX_ACTIONS_def)
    have "u64_ok ?b" using v(1) by (simp add: u64_ok_def MAX_MONEY_eq)
    then have "u64_sub ?b u = ?b - u" using as(3) by simp
    then have ok: "part_ok fee (input, as, u64_sub ?b u)" using as le by (simp add: part_ok_def)
    have "sum_list remaining = sum_list as + sum_list r"
      using as(2) by (metis mset_append sum_list_append sum_mset_sum_list)
    then have r: "sum_list r \<le> MAX_MONEY" using Cons.prems(1) by simp
    from Cons.IH [OF r v(2) p(1)] ok as(2) show ?thesis unfolding p(2) by (auto simp: add.assoc)
  qed
qed simp

lemma pass_one_Nil: "pass_one fee current remaining = ([], c, remaining') \<Longrightarrow> remaining' = remaining"
  by (induction current arbitrary: c remaining) (auto simp: Let_def split: if_splits prod.splits)

text \<open>The layer under construction is the last one.\<close>

lemma plan_inv_last:
  assumes "plan_inv A fee (ls @ [txs]) (ins @ rest)" "tx_ok fee tx" "inputs tx = ins"
    "\<forall>n\<in>set ins. before_layer (length ls) n" "made_by (length ls) (length txs) tx new"
  shows "plan_inv A fee (ls @ [txs @ [tx]]) (new @ rest)"
  using plan_inv_push [of A fee "ls @ [txs]" tx rest "length ls" new] assms by (simp add: push_transaction_def)

text \<open>A transaction that splits one note, with its leftover as an intermediate note.\<close>

definition split_outputs :: "PrepOutput list \<Rightarrow> nat \<Rightarrow> PrepOutput list" where
  "split_outputs outs leftover = (if 0 < leftover then outs @ [Intermediate (Zatoshis leftover)] else outs)"

lemma split_tx_ok:
  assumes v: "zat (input_value n) = (\<Sum>out\<leftarrow>outs. zat (output_value out)) + leftover + fee" "zat (input_value n) \<le> MAX_MONEY"
    and outs: "outs \<noteq> []" "length outs \<le> FUNDING_OUTPUTS_PER_TX" "\<forall>v. Change v \<notin> set outs"
  shows "tx_ok fee \<lparr>inputs = [n], outputs = split_outputs outs leftover\<rparr>"
proof -
  let ?outs = "split_outputs outs leftover"
  have total: "(\<Sum>out\<leftarrow>?outs. zat (output_value out)) = (\<Sum>out\<leftarrow>outs. zat (output_value out)) + leftover"
    by (simp add: split_outputs_def output_value_def)
  have "zat (output_value out) \<le> MAX_MONEY" if "out \<in> set ?outs" for out
    using member_le_sum_list [of "zat (output_value out)" "map (\<lambda>out. zat (output_value out)) ?outs"] that v total by fastforce
  then have "transaction_values_valid \<lparr>inputs = [n], outputs = ?outs\<rparr>"
    using v(2) by (simp add: transaction_values_valid_def zatoshis_valid_def)
  moreover have "transaction_ok fee \<lparr>inputs = [n], outputs = ?outs\<rparr>"
    using v(1) total outs(1,2)
    by (auto simp: transaction_ok_def action_count_def split_outputs_def FUNDING_OUTPUTS_PER_TX_def PREP_TX_ACTIONS_def)
  ultimately show ?thesis using outs(3) by (auto simp: tx_ok_def split_outputs_def)
qed

definition split_leftover :: "nat \<Rightarrow> nat \<Rightarrow> PrepOutput list \<Rightarrow> nat \<Rightarrow> PrepInput list" where
  "split_leftover l t outs leftover = (if 0 < leftover then [PriorNote l t (length outs) (Zatoshis leftover)] else [])"

lemma made_by_leftover: "made_by l t \<lparr>inputs = ins, outputs = split_outputs outs leftover\<rparr> (split_leftover l t outs leftover)"
  by (simp add: made_by_def split_outputs_def split_leftover_def)

lemma part_outputs_value: "sum_list (map ((\<lambda>out. zat (output_value out)) \<circ> (Funding \<circ> Zatoshis)) as) = sum_list as"
  by (simp add: output_value_def comp_def)

lemma funding_values_map: "concat (map funding_value (map (Funding \<circ> Zatoshis) as)) = as"
  by (induction as) (simp_all add: funding_value_def)

lemma minted_by_split:
  "minted_by [\<lparr>inputs = ins, outputs = split_outputs outs leftover\<rparr>] = concat (map funding_value outs)"
  by (simp add: minted_by_def split_outputs_def funding_value_def)

lemma pass_two_ok:
  assumes A: "sum_list A \<le> MAX_MONEY"
  shows "plan_inv A fee (ls @ [txs]) (map fst partial @ next @ rest) \<Longrightarrow>
    \<forall>x\<in>set partial. part_ok fee x \<and> before_layer (length ls) (fst x) \<Longrightarrow>
    \<exists>new next'. pass_two (length ls) partial txs next = Some (txs @ new, next') \<and> length new = length partial \<and>
      plan_inv A fee (ls @ [txs @ new]) (next' @ rest) \<and>
      mset (minted_by new) = mset (concat (map (fst \<circ> snd) partial))"
proof (induction partial arbitrary: txs "next")
  case (Cons x partial)
  obtain n as leftover where x: "x = (n, as, leftover)" by (cases x)
  then have part: "as \<noteq> []" "length as \<le> FUNDING_OUTPUTS_PER_TX" "zat (input_value n) = sum_list as + leftover + fee"
      and b: "before_layer (length ls) n" using Cons.prems(2) by (auto simp: part_ok_def)
  have m: "zat (input_value n) \<le> MAX_MONEY" by (rule plan_inv_note [OF Cons.prems(1) A]) (simp add: x)
  let ?outs = "map (Funding \<circ> Zatoshis) as"
  let ?tx = "\<lparr>inputs = [n], outputs = split_outputs ?outs leftover\<rparr>"
  let ?new = "split_leftover (length ls) (length txs) ?outs leftover"
  have "tx_ok fee ?tx" using part m by (intro split_tx_ok) (auto simp: part_outputs_value)
  then have "plan_inv A fee (ls @ [txs @ [?tx]]) (?new @ map fst partial @ next @ rest)"
    using Cons.prems(1) b made_by_leftover by (intro plan_inv_last) (auto simp: x)
  then have p: "plan_inv A fee (ls @ [txs @ [?tx]]) (map fst partial @ (next @ ?new) @ rest)"
    by (rule plan_inv_mset [rotated]) simp
  have "expect_zats as = Some (map Zatoshis as)" "0 < leftover \<Longrightarrow> expect_zat leftover = Some (Zatoshis leftover)"
    using part(3) m by (auto intro!: expect_zats_ok expect_zat_ok)
  then have eq: "pass_two (length ls) (x # partial) txs next = pass_two (length ls) partial (txs @ [?tx]) (next @ ?new)"
    by (simp add: x split_outputs_def split_leftover_def)
  from Cons.IH [OF p] Cons.prems(2) obtain new next' where
    ih: "pass_two (length ls) partial (txs @ [?tx]) (next @ ?new) = Some ((txs @ [?tx]) @ new, next')"
      "length new = length partial" "plan_inv A fee (ls @ [(txs @ [?tx]) @ new]) (next' @ rest)"
      "mset (minted_by new) = mset (concat (map (fst \<circ> snd) partial))" by (auto simp: comp_def)
  have "minted_by ([?tx] @ new) = as @ minted_by new"
    unfolding minted_by_append minted_by_split funding_values_map ..
  with ih show ?case unfolding eq by (intro exI [of _ "?tx # new"] exI [of _ next']) (simp add: x comp_def)
qed simp

section \<open>Consolidation\<close>

lemma batch_sizes_ok:
  "sum_list (consolidation_batch_sizes n) = n \<and>
   (n \<noteq> 1 \<longrightarrow> (\<forall>b\<in>set (consolidation_batch_sizes n). 2 \<le> b \<and> b \<le> CONSOLIDATION_INPUTS_PER_TX))"
proof (induction n rule: less_induct)
  case (less n)
  have C: "CONSOLIDATION_INPUTS_PER_TX = 15" by (simp add: CONSOLIDATION_INPUTS_PER_TX_def PREP_TX_ACTIONS_def)
  show ?case
  proof (cases "n = 0")
    case True
    then show ?thesis by (simp add: consolidation_batch_sizes.simps)
  next
    case False
    define k where "k = (if n \<le> 15 then n else if n - 15 = 1 then 14 else 15 :: nat)"
    have eq: "consolidation_batch_sizes n = k # consolidation_batch_sizes (n - k)"
      using False by (subst consolidation_batch_sizes.simps) (simp add: C k_def)
    have k: "0 < k" "k \<le> n" "n - k \<noteq> 1" "n \<noteq> 1 \<longrightarrow> 2 \<le> k \<and> k \<le> 15"
      using False unfolding k_def by presburger+
    then have "n - k < n" by linarith
    from less.IH [OF this] k show ?thesis unfolding eq C by auto
  qed
qed

lemma mset_take_drop: "mset xs = mset (take n xs) + mset (drop n xs)"
  by (metis append_take_drop_id mset_append)

lemma consolidation_tx_ok:
  assumes "2 \<le> length batch" "length batch \<le> CONSOLIDATION_INPUTS_PER_TX"
    "(\<Sum>n\<leftarrow>batch. zat (input_value n)) \<le> MAX_MONEY" "fee < (\<Sum>n\<leftarrow>batch. zat (input_value n))"
  shows "tx_ok fee \<lparr>inputs = batch, outputs = [Intermediate (Zatoshis ((\<Sum>n\<leftarrow>batch. zat (input_value n)) - fee))]\<rparr>"
proof -
  have "zat (input_value n) \<le> MAX_MONEY" if "n \<in> set batch" for n
    using member_le_sum_list [of "zat (input_value n)" "map (\<lambda>n. zat (input_value n)) batch"] that assms(3) by fastforce
  with assms show ?thesis
    by (auto simp: tx_ok_def transaction_ok_def transaction_values_valid_def action_count_def output_value_def
        zatoshis_valid_def CONSOLIDATION_INPUTS_PER_TX_def PREP_TX_ACTIONS_def)
qed

lemma consolidate_batches_ok:
  assumes A: "sum_list A \<le> MAX_MONEY"
  shows "plan_inv A fee (ls @ [txs]) (pool @ leftover @ next @ rest) \<Longrightarrow> sum_list sizes = length pool \<Longrightarrow>
    \<forall>b\<in>set sizes. 2 \<le> b \<and> b \<le> CONSOLIDATION_INPUTS_PER_TX \<Longrightarrow> \<forall>n\<in>set pool. before_layer (length ls) n \<Longrightarrow>
    \<exists>leftover' new next'. consolidate_batches sizes pool leftover (length ls) fee txs next =
        Some (leftover', txs @ new, next @ next') \<and> length next' = length new \<and>
      length leftover' + 2 * length new \<le> length pool + length leftover \<and>
      plan_inv A fee (ls @ [txs @ new]) (leftover' @ (next @ next') @ rest) \<and> minted_by new = [] \<and>
      mset (concat (map inputs new)) + mset leftover' = mset pool + mset leftover \<and>
      (\<forall>tx\<in>set new. length (outputs tx) = 1) \<and>
      (new = [] \<longrightarrow> (\<forall>n\<in>set pool. zat (input_value n) \<le> fee))"
proof (induction sizes arbitrary: pool leftover txs "next")
  case Nil
  then show ?case by auto
next
  case (Cons b sizes)
  let ?batch = "take b pool" and ?rest = "drop b pool"
  let ?total = "\<Sum>n\<leftarrow>?batch. zat (input_value n)"
  have b: "2 \<le> b" "b \<le> CONSOLIDATION_INPUTS_PER_TX" "length ?batch = b" "sum_list sizes = length ?rest"
    using Cons.prems(2,3) by auto
  have parts: "mset pool = mset ?batch + mset ?rest" by (rule mset_take_drop)
  have p: "plan_inv A fee (ls @ [txs]) (?batch @ ?rest @ leftover @ next @ rest)"
    by (rule plan_inv_mset [OF _ Cons.prems(1)]) (simp add: parts add.assoc)
  have "?total \<le> (\<Sum>n\<leftarrow>?batch @ ?rest @ leftover @ next @ rest. zat (input_value n))" by simp
  also have "\<dots> \<le> MAX_MONEY" using plan_inv_value [OF p] A by simp
  finally have m: "?total \<le> MAX_MONEY" .
  then have total: "u64_sum (map (zat \<circ> input_value) ?batch) = ?total"
    by (simp add: u64_sum_mod comp_def MAX_MONEY_eq)
  have before: "\<forall>n\<in>set ?batch. before_layer (length ls) n" "\<forall>n\<in>set ?rest. before_layer (length ls) n"
    using Cons.prems(4) in_set_takeD in_set_dropD by fast+
  show ?case
  proof (cases "?total \<le> fee")
    case True
    have p': "plan_inv A fee (ls @ [txs]) (?rest @ (leftover @ ?batch) @ next @ rest)"
      by (rule plan_inv_mset [OF _ p]) simp
    have small: "zat (input_value n) \<le> fee" if "n \<in> set ?batch" for n
      using member_le_sum_list [of "zat (input_value n)" "map (\<lambda>n. zat (input_value n)) ?batch"] that True by fastforce
    have eq: "consolidate_batches (b # sizes) pool leftover (length ls) fee txs next =
        consolidate_batches sizes ?rest (leftover @ ?batch) (length ls) fee txs next"
      using True total by (simp add: Let_def)
    have "set pool = set ?batch \<union> set ?rest" by (metis append_take_drop_id set_append)
    with Cons.IH [OF p' b(4) _ before(2)] Cons.prems(3) small show ?thesis
      unfolding eq using parts b(3) by (fastforce simp: add.assoc)
  next
    case False
    let ?z = "Zatoshis (?total - fee)"
    let ?tx = "\<lparr>inputs = ?batch, outputs = [Intermediate ?z]\<rparr>" and ?note = "PriorNote (length ls) (length txs) 0 (Zatoshis (?total - fee))"
    have tx: "tx_ok fee ?tx" using False b m by (intro consolidation_tx_ok) auto
    have "plan_inv A fee (ls @ [txs @ [?tx]]) ([?note] @ ?rest @ leftover @ next @ rest)"
      by (rule plan_inv_last [OF p tx _ before(1)]) (simp_all add: made_by_def)
    then have p': "plan_inv A fee (ls @ [txs @ [?tx]]) (?rest @ leftover @ (next @ [?note]) @ rest)"
      by (rule plan_inv_mset [rotated]) simp
    have "u64_sub ?total fee = ?total - fee" using False m by (simp add: u64_ok_def MAX_MONEY_eq)
    then have eq: "consolidate_batches (b # sizes) pool leftover (length ls) fee txs next =
        consolidate_batches sizes ?rest leftover (length ls) fee (txs @ [?tx]) (next @ [?note])"
      using False total m by (simp add: Let_def expect_zat_ok)
    from Cons.IH [OF p' b(4) _ before(2)] Cons.prems(3) obtain leftover' new next' where
      ih: "consolidate_batches sizes ?rest leftover (length ls) fee (txs @ [?tx]) (next @ [?note]) =
          Some (leftover', (txs @ [?tx]) @ new, (next @ [?note]) @ next')" "length next' = length new"
        "length leftover' + 2 * length new \<le> length ?rest + length leftover"
        "plan_inv A fee (ls @ [(txs @ [?tx]) @ new]) (leftover' @ ((next @ [?note]) @ next') @ rest)" "minted_by new = []"
        "mset (concat (map inputs new)) + mset leftover' = mset ?rest + mset leftover"
        "\<forall>tx\<in>set new. length (outputs tx) = 1" by auto
    have "minted_by (?tx # new) = []" using ih(5) by (simp add: minted_by_def funding_value_def)
    moreover have "length leftover' + 2 * length (?tx # new) \<le> length pool + length leftover" using ih(3) b(1,3) by simp
    ultimately show ?thesis unfolding eq using ih parts
      by (intro exI [of _ leftover'] exI [of _ "?tx # new"] exI [of _ "?note # next'"]) simp
  qed
qed

definition sorts_notes :: "((PrepInput \<Rightarrow> nat) \<Rightarrow> PrepInput list \<Rightarrow> PrepInput list) \<Rightarrow> bool" where
  "sorts_notes f \<longleftrightarrow> (\<forall>key ns. mset (f key ns) = mset ns)"

lemma consolidate_ok:
  assumes A: "sum_list A \<le> MAX_MONEY" and f: "sorts_notes f"
    and p: "plan_inv A fee (ls @ [txs]) (pool @ next @ rest)" and b: "\<forall>n\<in>set pool. before_layer (length ls) n"
  shows "\<exists>leftover' new next'. consolidate f pool (length ls) fee txs next = Some (leftover', txs @ new, next @ next') \<and>
      length next' = length new \<and> length leftover' + 2 * length new \<le> length pool \<and>
      plan_inv A fee (ls @ [txs @ new]) (leftover' @ (next @ next') @ rest) \<and> minted_by new = [] \<and>
      mset (concat (map inputs new)) + mset leftover' = mset pool \<and>
      (\<forall>tx\<in>set new. length (outputs tx) = 1) \<and>
      (new = [] \<and> 2 \<le> length pool \<longrightarrow> (\<forall>n\<in>set pool. zat (input_value n) \<le> fee))"
proof (cases "length pool < 2")
  case True
  with p show ?thesis by (intro exI [of _ pool] exI [of _ "[]"]) (simp add: consolidate_def)
next
  case False
  let ?pool = "f (\<lambda>n. zat (input_value n)) pool"
  have m: "mset ?pool = mset pool" using f by (simp add: sorts_notes_def)
  have l: "length ?pool = length pool" using m by (rule mset_eq_length)
  have s: "set ?pool = set pool" using m by (rule mset_eq_setD)
  have p': "plan_inv A fee (ls @ [txs]) (?pool @ [] @ next @ rest)" by (rule plan_inv_mset [OF _ p]) (simp add: m)
  have b': "\<forall>n\<in>set ?pool. before_layer (length ls) n" using b s by simp
  from consolidate_batches_ok [OF A p' _ _ b', of "consolidation_batch_sizes (length pool)"] batch_sizes_ok [of "length pool"] l False
  obtain leftover' new next' where
    "consolidate_batches (consolidation_batch_sizes (length pool)) ?pool [] (length ls) fee txs next =
        Some (leftover', txs @ new, next @ next')" "length next' = length new"
      "length leftover' + 2 * length new \<le> length ?pool + length ([] :: PrepInput list)"
      "plan_inv A fee (ls @ [txs @ new]) (leftover' @ (next @ next') @ rest)" "minted_by new = []"
      "mset (concat (map inputs new)) + mset leftover' = mset ?pool + mset []" "\<forall>tx\<in>set new. length (outputs tx) = 1"
      "new = [] \<longrightarrow> (\<forall>n\<in>set ?pool. zat (input_value n) \<le> fee)" by auto
  with False m l s show ?thesis
    by (intro exI [of _ leftover'] exI [of _ new] exI [of _ next']) (simp add: consolidate_def)
qed

section \<open>The loop over the layers\<close>

lemma plan_inv_open: "plan_inv A fee (ls @ [[]]) pool \<longleftrightarrow> plan_inv A fee ls pool"
proof -
  have "note_ok A (ls @ [[]]) n \<longleftrightarrow> note_ok A ls n" for n by (cases n) (auto simp: nth_append)
  then show ?thesis by (auto simp: plan_inv_def spent_in_def nth_append less_Suc_eq)
qed

lemma plan_inv_before: "plan_inv A fee ls pool \<Longrightarrow> n \<in> set pool \<Longrightarrow> before_layer (length ls) n"
proof -
  assume "plan_inv A fee ls pool" "n \<in> set pool"
  then have "note_ok A ls n" unfolding plan_inv_def by simp
  then show ?thesis by (cases n) auto
qed

definition minted_in :: "PrepTransaction list list \<Rightarrow> nat list" where
  "minted_in ls = minted_by (concat ls)"

lemma minted_in_snoc [simp]: "minted_in (ls @ [txs]) = minted_in ls @ minted_by txs"
  by (simp add: minted_in_def)

lemma layer_step:
  assumes A: "sum_list A \<le> MAX_MONEY" and f: "sorts_notes f" and p: "plan_inv A fee ls (current @ rest)"
    and m: "sum_list remaining \<le> MAX_MONEY" and ne: "remaining \<noteq> []"
    and one: "pass_one fee (f (\<lambda>n. zat (input_value n)) current) remaining = (partial, consolidatable, remaining')"
  shows "\<exists>txs next leftover txs' next'. pass_two (length ls) partial [] [] = Some (txs, next) \<and>
    consolidate f consolidatable (length ls) fee txs next = Some (leftover, txs', next') \<and>
    plan_inv A fee (ls @ [txs']) (next' @ rest) \<and>
    mset (minted_by txs') + mset remaining' = mset remaining \<and>
    (txs' \<noteq> [] \<longrightarrow> length remaining' < length remaining \<or> remaining' = remaining \<and> length next' < length current)"
proof -
  let ?current = "f (\<lambda>n. zat (input_value n)) current"
  have c: "mset ?current = mset current" using f by (simp add: sorts_notes_def)
  have v: "\<forall>n\<in>set ?current. zat (input_value n) \<le> MAX_MONEY"
    using plan_inv_note [OF p A] mset_eq_setD [OF c] by simp
  from pass_one_ok [OF m v one] obtain skipped where
    one': "\<forall>x\<in>set partial. part_ok fee x" "mset (concat (map (fst \<circ> snd) partial)) + mset remaining' = mset remaining"
      "mset ?current = mset (map fst partial) + mset consolidatable + mset skipped" by blast
  have "plan_inv A fee ls (skipped @ map fst partial @ [] @ consolidatable @ rest)"
    by (rule plan_inv_mset [OF _ p]) (use c one'(3) in \<open>simp add: ac_simps\<close>)
  then have p1: "plan_inv A fee ls (map fst partial @ [] @ consolidatable @ rest)" by (rule plan_inv_drop)
  have b: "\<forall>x\<in>set partial. part_ok fee x \<and> before_layer (length ls) (fst x)" "\<forall>n\<in>set consolidatable. before_layer (length ls) n"
    using one'(1) plan_inv_before [OF p1] by auto
  from p1 have "plan_inv A fee (ls @ [[]]) (map fst partial @ [] @ consolidatable @ rest)" by (simp only: plan_inv_open)
  from pass_two_ok [OF A this b(1)] obtain txs "next" where
    two: "pass_two (length ls) partial [] [] = Some (txs, next)" "length txs = length partial"
      "plan_inv A fee (ls @ [txs]) (next @ consolidatable @ rest)" "mset (minted_by txs) = mset (concat (map (fst \<circ> snd) partial))"
    by auto
  have p2: "plan_inv A fee (ls @ [txs]) (consolidatable @ next @ rest)" by (rule plan_inv_mset [OF _ two(3)]) simp
  from consolidate_ok [OF A f p2 b(2)] obtain leftover new next' where
    three: "consolidate f consolidatable (length ls) fee txs next = Some (leftover, txs @ new, next @ next')"
      "length next' = length new" "length leftover + 2 * length new \<le> length consolidatable"
      "plan_inv A fee (ls @ [txs @ new]) (leftover @ (next @ next') @ rest)" "minted_by new = []" by blast
  have "length remaining' < length remaining \<or> remaining' = remaining \<and> length (next @ next') < length current"
    if "txs @ new \<noteq> []"
  proof (cases partial)
    case Nil
    then have "txs = []" "next = []" using two(1) by simp_all
    moreover have "remaining' = remaining" using Nil one pass_one_Nil by blast
    moreover have "length consolidatable \<le> length current"
      using arg_cong [OF c, of size] arg_cong [OF one'(3), of size] by simp
    ultimately show ?thesis using that three(2,3) by (cases new) auto
  next
    case (Cons x xs)
    then have "fst (snd x) \<noteq> []" using one'(1) by (auto simp: part_ok_def)
    then have "0 < length (concat (map (fst \<circ> snd) partial))" using Cons by simp
    with arg_cong [OF one'(2), of size] show ?thesis by (auto simp del: length_greater_0_conv)
  qed
  with two three one'(2) plan_inv_drop [OF three(4)] show ?thesis
    by (intro exI [of _ txs] exI [of _ "next"] exI [of _ leftover] exI [of _ "txs @ new"] exI [of _ "next @ next'"]) simp
qed

lemma layer_loop_ok:
  assumes A: "sum_list A \<le> MAX_MONEY" and f: "sorts_notes f"
  shows "plan_inv A fee ls (current @ rest) \<Longrightarrow> sum_list remaining \<le> MAX_MONEY \<Longrightarrow>
    \<exists>r. layer_loop f fee remaining current ls = Some r \<and> r \<noteq> Inl BalanceInvalid \<and>
      (\<forall>ls'. r = Inr ls' \<longrightarrow> plan_inv A fee ls' rest \<and> mset (minted_in ls') = mset (minted_in ls) + mset remaining)"
proof (induction "(remaining, current)" arbitrary: remaining current ls rule: wf_induct_rule [OF wf_mlex
      [OF wf_measure, of "length \<circ> fst" "length \<circ> snd"]])
  case (1 remaining current ls)
  show ?case
  proof (cases "remaining = [] \<or> current = []")
    case True
    then show ?thesis using plan_inv_drop [OF 1(2)] by (subst layer_loop.simps) auto
  next
    case False
    obtain partial consolidatable remaining' where
      one: "pass_one fee (f (\<lambda>n. zat (input_value n)) current) remaining = (partial, consolidatable, remaining')"
      by (metis prod_cases3)
    from layer_step [OF A f 1(2,3) _ one] False obtain txs "next" leftover txs' next' where
      s: "pass_two (length ls) partial [] [] = Some (txs, next)"
        "consolidate f consolidatable (length ls) fee txs next = Some (leftover, txs', next')"
        "plan_inv A fee (ls @ [txs']) (next' @ rest)" "mset (minted_by txs') + mset remaining' = mset remaining"
        "txs' \<noteq> [] \<longrightarrow> length remaining' < length remaining \<or> remaining' = remaining \<and> length next' < length current"
      by blast
    have eq: "layer_loop f fee remaining current ls =
        (if txs' = [] then Some (Inl InsufficientFunds) else layer_loop f fee remaining' next' (ls @ [txs']))"
      using False s(1,2) one by (subst layer_loop.simps) simp
    show ?thesis
    proof (cases "txs' = []")
      case True
      then show ?thesis unfolding eq by simp
    next
      case ne: False
      then have lt: "((remaining', next'), (remaining, current)) \<in> (length \<circ> fst) <*mlex*> measure (length \<circ> snd)"
        using s(5) by (auto simp: mlex_iff)
      have "sum_list remaining' \<le> sum_list remaining"
        using arg_cong [OF s(4), of sum_mset] by (simp add: sum_mset_sum_list)
      with 1(3) have "sum_list remaining' \<le> MAX_MONEY" by simp
      from 1(1) [OF lt s(3) this] s(4) ne show ?thesis unfolding eq by (auto simp flip: s(4))
    qed
  qed
qed

section \<open>The feeders left over\<close>

lemma distinct_enumerate_concat:
  assumes "\<And>i x. distinct (map g (f i x))" "\<And>i x y. y \<in> set (f i x) \<Longrightarrow> tag (g y) = i"
  shows "distinct (map g (concat (map (\<lambda>(i, x). f i x) (enumerate n xs))))"
proof (induction xs arbitrary: n)
  case (Cons x xs)
  have "n \<notin> tag ` g ` set (concat (map (\<lambda>(i, x). f i x) (enumerate (Suc n) xs)))"
    using assms(2) by (fastforce simp: in_set_enumerate_eq)
  moreover have "tag ` g ` set (f n x) \<subseteq> {n}" using assms(2) by blast
  ultimately have "g ` set (f n x) \<inter> g ` set (concat (map (\<lambda>(i, x). f i x) (enumerate (Suc n) xs))) = {}" by blast
  then show ?case using Cons.IH [of "Suc n"] assms(1) by (simp del: set_concat)
qed simp

lemma spent_refs_eq: "spent_refs ls = concat (map prior_ref (spent_in ls))"
proof -
  have a: "concat (map (\<lambda>tx. concat (map prior_ref (inputs tx))) layer) = concat (map prior_ref (concat (map inputs layer)))" for layer
    by (induction layer) simp_all
  show ?thesis unfolding spent_refs_def spent_in_def a by (induction ls) simp_all
qed

lemma set_enumerate_image: "set (enumerate 0 xs) = (\<lambda>i. (i, xs ! i)) ` {..<length xs}"
  by (auto simp: in_set_enumerate_eq)

definition feeder_at :: "(nat \<times> nat \<times> nat) set \<Rightarrow> nat \<Rightarrow> nat \<Rightarrow> nat \<times> PrepOutput \<Rightarrow> PrepInput option" where
  "feeder_at S li ti = (\<lambda>(oi, out). case out of
     Intermediate v \<Rightarrow> if (li, ti, oi) \<in> S then None else Some (PriorNote li ti oi v) | _ \<Rightarrow> None)"

lemma feeder_at_Some: "feeder_at S li ti p = Some n \<longleftrightarrow>
    (\<exists>v. snd p = Intermediate v \<and> (li, ti, fst p) \<notin> S \<and> n = PriorNote li ti (fst p) v)"
  by (cases p) (auto simp: feeder_at_def split: PrepOutput.splits)

lemma unconsumed_feeders_at:
  "unconsumed_feeders ls = concat (map (\<lambda>(li, layer). concat (map (\<lambda>(ti, tx).
     List.map_filter (feeder_at (set (spent_refs ls)) li ti) (enumerate 0 (outputs tx))) (enumerate 0 layer))) (enumerate 0 ls))"
  by (simp add: unconsumed_feeders_def feeder_at_def)

lemma set_unconsumed:
  "n \<in> set (unconsumed_feeders ls) \<longleftrightarrow>
   (\<exists>l t k v. n = PriorNote l t k v \<and> note_ok [] ls n \<and> (l, t, k) \<notin> set (spent_refs ls))"
  by (simp add: unconsumed_feeders_at set_map_filter set_enumerate_image feeder_at_Some) (cases n, auto)

lemma distinct_feeders: "distinct (map note_ref (List.map_filter (feeder_at S li ti) (enumerate n outs)))"
proof (induction outs arbitrary: n)
  case (Cons out outs)
  have "Inr (li, ti, n) \<notin> note_ref ` set (List.map_filter (feeder_at S li ti) (enumerate (Suc n) outs))"
    by (auto simp: set_map_filter in_set_enumerate_eq feeder_at_Some)
  moreover have "note_ref y = Inr (li, ti, n)" if "feeder_at S li ti (n, out) = Some y" for y
    using that by (auto simp: feeder_at_Some)
  ultimately show ?case using Cons.IH [of "Suc n"]
    by (cases "feeder_at S li ti (n, out)") (simp_all add: List.map_filter_simps)
qed (simp add: List.map_filter_simps)

lemma distinct_unconsumed: "distinct (map note_ref (unconsumed_feeders ls))"
  unfolding unconsumed_feeders_at
proof (rule distinct_enumerate_concat [where tag = "\<lambda>r. fst (projr r)"], goal_cases)
  case (1 li layer)
  show ?case
    by (rule distinct_enumerate_concat [where tag = "\<lambda>r. fst (snd (projr r))"])
      (auto simp: distinct_feeders set_map_filter feeder_at_Some)
next
  case (2 li layer y)
  then show ?case by (auto simp: set_map_filter feeder_at_Some)
qed

text \<open>The notes the layers leave over may all be spent, beside any wallet notes kept aside.\<close>

definition wallet_only :: "PrepInput list \<Rightarrow> bool" where
  "wallet_only ns \<longleftrightarrow> (\<forall>n\<in>set ns. \<exists>i v. n = WalletNote i v)"

lemma note_ref_spent: "Inr r \<in> note_ref ` set ns \<longleftrightarrow> r \<in> set (concat (map prior_ref ns))"
proof
  assume "Inr r \<in> note_ref ` set ns"
  then obtain n where n: "n \<in> set ns" "Inr r = note_ref n" by auto
  from n(2) have "r \<in> set (prior_ref n)" by (cases n) auto
  with n(1) show "r \<in> set (concat (map prior_ref ns))" by auto
next
  assume "r \<in> set (concat (map prior_ref ns))"
  then obtain n where n: "n \<in> set ns" "r \<in> set (prior_ref n)" by auto
  from n(2) have "note_ref n = Inr r" by (cases n) auto
  with n(1) show "Inr r \<in> note_ref ` set ns" by force
qed

lemma plan_inv_feeders:
  assumes p: "plan_inv A fee ls rest" and w: "wallet_only rest"
  shows "plan_inv A fee ls (unconsumed_feeders ls @ rest)"
proof -
  have ok: "note_ok A ls n" and ref: "\<exists>r. note_ref n = Inr r \<and> r \<notin> set (concat (map prior_ref (spent_in ls)))"
    if "n \<in> set (unconsumed_feeders ls)" for n
    using that unfolding set_unconsumed spent_refs_eq by auto
  have "note_ref ` set (unconsumed_feeders ls) \<inter> note_ref ` set (spent_in ls) = {}"
    using ref note_ref_spent by fastforce
  moreover have "note_ref ` set (unconsumed_feeders ls) \<inter> note_ref ` set rest = {}"
    using ref w unfolding wallet_only_def by fastforce
  ultimately show ?thesis using p ok distinct_unconsumed [of ls] by (auto simp: plan_inv_def)
qed

text \<open>A round of consolidation leaves fewer feeders.\<close>

lemma feeders_shrink:
  assumes p: "plan_inv A fee (ls @ [txs]) rest" and m: "mset (concat (map inputs txs)) + mset leftover = mset (unconsumed_feeders ls)"
    and l: "length leftover + 2 * length txs \<le> length (unconsumed_feeders ls)" "txs \<noteq> []"
    and one: "\<forall>tx\<in>set txs. length (outputs tx) = 1"
  shows "length (unconsumed_feeders (ls @ [txs])) < length (unconsumed_feeders ls)"
proof -
  let ?F = "unconsumed_feeders ls" and ?F' = "unconsumed_feeders (ls @ [txs])"
  let ?new = "(\<lambda>t. Inr (length ls, t, 0)) ` {..<length txs} :: (nat + nat \<times> nat \<times> nat) set"
  have sp: "spent_in (ls @ [txs]) = spent_in ls @ concat (map inputs txs)" by (simp add: spent_in_def)
  have "note_ref ` set ?F' \<subseteq> note_ref ` set leftover \<union> ?new"
  proof
    fix r assume "r \<in> note_ref ` set ?F'"
    then obtain l t k v where r: "r = Inr (l, t, k)" and n: "note_ok [] (ls @ [txs]) (PriorNote l t k v)"
      and s: "(l, t, k) \<notin> set (concat (map prior_ref (spent_in ls)))" "(l, t, k) \<notin> set (concat (map prior_ref (concat (map inputs txs))))"
      by (auto simp: set_unconsumed spent_refs_eq sp)
    show "r \<in> note_ref ` set leftover \<union> ?new"
    proof (cases "l < length ls")
      case True
      then have "PriorNote l t k v \<in> set ?F" using n s(1) by (simp add: set_unconsumed spent_refs_eq nth_append)
      then have "PriorNote l t k v \<in> set (concat (map inputs txs)) \<union> set leftover"
        using m by (metis set_mset_mset set_mset_union)
      moreover have "PriorNote l t k v \<notin> set (concat (map inputs txs))"
        using s(2) note_ref_spent [of "(l, t, k)" "concat (map inputs txs)"] by force
      ultimately have "PriorNote l t k v \<in> set leftover" by blast
      then show ?thesis unfolding r by force
    next
      case False
      then have "l = length ls" "t < length txs" "k < length (outputs (txs ! t))" using n by (auto simp: nth_append)
      then show ?thesis using one unfolding r by auto
    qed
  qed
  then have "card (note_ref ` set ?F') \<le> card (note_ref ` set leftover \<union> ?new)" by (rule card_mono [rotated]) simp
  also have "\<dots> \<le> card (note_ref ` set leftover) + card ?new" by (rule card_Un_le)
  also have "\<dots> \<le> length leftover + length txs"
    by (intro add_mono order_trans [OF card_image_le card_length] order_trans [OF card_image_le]) simp_all
  also have "\<dots> < length ?F" using l by (cases txs) auto
  finally show ?thesis using distinct_card [OF distinct_unconsumed, of "ls @ [txs]"] by simp
qed

lemma residual_loop_ok:
  assumes A: "sum_list A \<le> MAX_MONEY" and f: "sorts_notes f" and w: "wallet_only rest"
  shows "plan_inv A fee ls rest \<Longrightarrow> \<exists>ls'. residual_loop f fee ls = Some ls' \<and> plan_inv A fee ls' rest \<and>
    minted_in ls' = minted_in ls \<and>
    (length (unconsumed_feeders ls') \<le> 1 \<or> (\<forall>n\<in>set (unconsumed_feeders ls'). zat (input_value n) \<le> fee))"
proof (induction "length (unconsumed_feeders ls)" arbitrary: ls rule: less_induct)
  case less
  let ?pool = "unconsumed_feeders ls"
  show ?case
  proof (cases "length ?pool \<le> 1")
    case True
    with less.prems show ?thesis by (intro exI [of _ ls]) (simp add: residual_loop.simps [of f fee ls])
  next
    case False
    note p = plan_inv_feeders [OF less.prems w]
    from p have "plan_inv A fee (ls @ [[]]) (?pool @ [] @ rest)" by (simp add: plan_inv_open)
    from consolidate_ok [OF A f this] plan_inv_before [OF p] obtain leftover txs "next" where
      c: "consolidate f ?pool (length ls) fee [] [] = Some (leftover, txs, next)"
        "length leftover + 2 * length txs \<le> length ?pool" "plan_inv A fee (ls @ [txs]) (leftover @ next @ rest)"
        "minted_by txs = []" "mset (concat (map inputs txs)) + mset leftover = mset ?pool"
        "\<forall>tx\<in>set txs. length (outputs tx) = 1" "txs = [] \<longrightarrow> (\<forall>n\<in>set ?pool. zat (input_value n) \<le> fee)"
      using False by auto
    have eq: "residual_loop f fee ls = (if txs = [] then Some ls else residual_loop f fee (ls @ [txs]))"
      using False c(1) by (subst residual_loop.simps) simp
    show ?thesis
    proof (cases "txs = []")
      case True
      with less.prems c(7) show ?thesis unfolding eq by (intro exI [of _ ls]) simp
    next
      case ne: False
      have p': "plan_inv A fee (ls @ [txs]) rest" using plan_inv_drop [of A fee _ "leftover @ next"] c(3) by simp
      from less.hyps [OF feeders_shrink [OF p' c(5,2) ne c(6)] p'] ne c(4) show ?thesis unfolding eq by simp
    qed
  qed
qed

section \<open>Relabelling\<close>

definition relabel_at :: "(nat \<times> nat \<times> nat) set \<Rightarrow> nat \<Rightarrow> nat \<Rightarrow> nat \<times> PrepOutput \<Rightarrow> PrepOutput" where
  "relabel_at S li ti = (\<lambda>(oi, out). case out of
     Intermediate v \<Rightarrow> if (li, ti, oi) \<in> S then out else Change v | _ \<Rightarrow> out)"

lemma relabel_eq: "relabel ls = map (\<lambda>(li, layer). map (\<lambda>(ti, tx).
    tx\<lparr>outputs := map (relabel_at (set (spent_refs ls)) li ti) (enumerate 0 (outputs tx))\<rparr>) (enumerate 0 layer)) (enumerate 0 ls)"
  by (simp add: relabel_def relabel_at_def)

lemma relabel_at_values [simp]:
  "output_value (relabel_at S li ti p) = output_value (snd p)" "funding_value (relabel_at S li ti p) = funding_value (snd p)"
  by (cases p; cases "snd p"; simp add: relabel_at_def output_value_def funding_value_def)+

lemma relabel_nth [simp]:
  "length (relabel ls) = length ls"
  "l < length ls \<Longrightarrow> length (relabel ls ! l) = length (ls ! l)"
  "l < length ls \<Longrightarrow> t < length (ls ! l) \<Longrightarrow> relabel ls ! l ! t =
     (ls ! l ! t)\<lparr>outputs := map (relabel_at (set (spent_refs ls)) l t) (enumerate 0 (outputs (ls ! l ! t)))\<rparr>"
  by (simp_all add: relabel_eq nth_enumerate_eq)

lemma map_enumerate_snd: "map (\<lambda>(i, x). f x) (enumerate n xs) = map f xs"
  by (induction xs arbitrary: n) simp_all

lemma concat_relabel:
  assumes "\<And>l t tx. h (tx\<lparr>outputs := map (relabel_at S l t) (enumerate 0 (outputs tx))\<rparr>) = h tx" "S = set (spent_refs ls)"
  shows "map h (concat (relabel ls)) = map h (concat ls)"
proof -
  have "map h (map (\<lambda>(ti, tx). tx\<lparr>outputs := map (relabel_at S li ti) (enumerate 0 (outputs tx))\<rparr>) (enumerate n layer)) = map h layer"
    for li n layer by (induction layer arbitrary: n) (simp_all add: assms(1))
  then have "map (map h) (relabel ls) = map (map h) ls"
    unfolding relabel_eq assms(2) [symmetric] by (simp add: map_enumerate_snd prod.case_distrib comp_def case_prod_unfold flip: map_enumerate_snd [of "map h" 0])
  then show ?thesis by (simp add: map_concat)
qed

lemma relabelled_ok:
  "tx_ok fee tx \<Longrightarrow> transaction_ok fee (tx\<lparr>outputs := map (relabel_at S l t) (enumerate 0 (outputs tx))\<rparr>) \<and>
     transaction_values_valid (tx\<lparr>outputs := map (relabel_at S l t) (enumerate 0 (outputs tx))\<rparr>)"
proof -
  assume ok: "tx_ok fee tx"
  have "(\<Sum>p\<leftarrow>enumerate n outs. zat (output_value (snd p))) = (\<Sum>out\<leftarrow>outs. zat (output_value out))" for n outs
    by (induction outs arbitrary: n) simp_all
  moreover have "enumerate 0 (outputs tx) = [] \<longleftrightarrow> outputs tx = []" by (cases "outputs tx") simp_all
  ultimately show ?thesis using ok
    by (auto simp: tx_ok_def transaction_ok_def transaction_values_valid_def action_count_def comp_def in_set_enumerate_eq)
qed

lemma output_value_intermediate: "output_value (Intermediate v) = v"
  by (simp add: output_value_def)

lemma relabel_certified:
  assumes p: "plan_inv (map zat available) (zat fee) ls (map (\<lambda>(i, v). WalletNote i v) direct)"
    and m: "mset (minted_in ls) + mset (map (zat \<circ> snd) direct) = mset (filter (\<lambda>v. 0 < v) (map zat funding))"
    and fee: "zatoshis_valid fee"
  shows "is_valid \<lparr>layers = relabel ls, direct_funding = direct\<rparr> available funding fee \<and>
    plan_values_valid \<lparr>layers = relabel ls, direct_funding = direct\<rparr>"
proof -
  let ?A = "map zat available" and ?p = "\<lparr>layers = relabel ls, direct_funding = direct\<rparr>"
  let ?d = "map (\<lambda>(i, v). WalletNote i v) direct"
  have txs: "tx_ok (zat fee) (ls ! l ! t)" if "l < length ls" "t < length (ls ! l)" for l t
    using p nth_mem [OF that(1)] nth_mem [OF that(2)] unfolding plan_inv_def by auto
  have ins: "map inputs (concat (relabel ls)) = map inputs (concat ls)" by (rule concat_relabel) simp_all
  have sp: "concat (map inputs (concat (relabel ls))) = spent_in ls" unfolding ins spent_in_def ..
  have "concat (map funding_value (map (relabel_at S l t) (enumerate n outs))) = concat (map funding_value outs)" for S l t n outs
    by (induction outs arbitrary: n) simp_all
  then have f1: "map (concat \<circ> map funding_value \<circ> outputs) (concat (relabel ls)) = map (concat \<circ> map funding_value \<circ> outputs) (concat ls)"
    by (intro concat_relabel) simp_all
  have f2: "concat (map funding_value (concat (map outputs txs))) = concat (map (concat \<circ> map funding_value \<circ> outputs) txs)" for txs
    by (induction txs) simp_all
  have mint: "concat (map funding_value (concat (map outputs (concat (relabel ls))))) = minted_in ls"
    unfolding minted_in_def minted_by_def f2 f1 ..
  have "map zat (funding_notes ?p) = minted_in ls @ map (zat \<circ> snd) direct"
    by (simp add: funding_notes_def all_outputs_def funding_notes_minted comp_def mint)
  moreover have "map zat (filter (\<lambda>v. v \<noteq> zatoshis_ZERO) funding) = filter (\<lambda>v. 0 < v) (map zat funding)"
    by (induction funding) (auto simp: zatoshis_ZERO_def Zatoshis.expand)
  ultimately have f: "mset (funding_notes ?p) = mset (filter (\<lambda>v. v \<noteq> zatoshis_ZERO) funding)"
    using m by (intro map_zat_inject) (metis mset_append)
  have avail: "input_ok (relabel ls) available l n" if "note_ok ?A ls n" "before_layer l n" "l < length ls" for l n
    using that by (cases n) (auto simp: source_ok_def nth_enumerate_eq output_value_intermediate)
  have spent: "note_ok ?A ls n \<and> before_layer l n" if "l < length ls" "t < length (ls ! l)" "n \<in> set (inputs (ls ! l ! t))" for l t n
  proof -
    have "n \<in> set (spent_in ls)" using that unfolding spent_in_def by (auto intro!: bexI [of _ "ls ! l ! t"] bexI [of _ "ls ! l"])
    then have "note_ok ?A ls n" using p unfolding plan_inv_def by simp
    moreover have "before_layer l n" using p that nth_mem [OF that(2)] unfolding plan_inv_def by blast
    ultimately show ?thesis by blast
  qed
  have all: "transaction_ok (zat fee) tx \<and> transaction_values_valid tx \<and> (\<forall>n\<in>set (inputs tx). input_ok (relabel ls) available l n)"
    if "l < length ls" "tx \<in> set (relabel ls ! l)" for l tx
  proof -
    from that obtain t where t: "t < length (ls ! l)" "tx = relabel ls ! l ! t" by (auto simp: in_set_conv_nth)
    then have tx: "tx = (ls ! l ! t)\<lparr>outputs := map (relabel_at (set (spent_refs ls)) l t) (enumerate 0 (outputs (ls ! l ! t)))\<rparr>"
      using that(1) by simp
    then have "inputs tx = inputs (ls ! l ! t)" by simp
    with relabelled_ok [OF txs [OF that(1) t(1)], of "set (spent_refs ls)" l t] spent [OF that(1) t(1)] avail that(1) show ?thesis
      unfolding tx by auto
  qed
  have direct: "\<forall>d\<in>set direct. source_ok available d"
  proof
    fix d assume "d \<in> set direct"
    then have "WalletNote (fst d) (snd d) \<in> set ?d" by (auto intro: rev_image_eqI)
    moreover have "\<forall>n\<in>set (spent_in ls @ ?d). note_ok ?A ls n" using p unfolding plan_inv_def by blast
    ultimately have "note_ok ?A ls (WalletNote (fst d) (snd d))" unfolding set_append by blast
    then show "source_ok available d" by (simp add: source_ok_def)
  qed
  have "map fst direct = concat (map wallet_ref ?d)" "concat (map prior_ref ?d) = []"
    by (induction direct) auto
  moreover have "distinct (map note_ref (spent_in ls @ ?d))" using p by (simp add: plan_inv_def)
  ultimately have "distinct (concat (map wallet_ref (spent_in ls)) @ map fst direct)" "distinct (concat (map prior_ref (spent_in ls)))"
    using distinct_note_refs [of "spent_in ls @ ?d"] by simp_all
  with f all direct have c: "certified ?p available funding fee"
    by (simp only: certified_def sp PreparationPlan.select_convs relabel_nth) blast
  have "transaction_values_valid tx" if "tx \<in> set (concat (layers ?p))" for tx
  proof -
    from that obtain layer where layer: "layer \<in> set (relabel ls)" "tx \<in> set layer" by auto
    then obtain l where "l < length ls" "layer = relabel ls ! l" by (metis in_set_conv_nth relabel_nth(1))
    with all layer(2) show ?thesis by blast
  qed
  with c fee show ?thesis using is_valid_certified [of ?p fee available funding] unfolding plan_values_valid_def by blast
qed

text \<open>The earlier notes a plan spends are intermediate ones, never funding or change notes.\<close>

definition spends_intermediates :: "PreparationPlan \<Rightarrow> bool" where
  "spends_intermediates p \<longleftrightarrow>
     (\<forall>(l, t, k)\<in>set (spent_prior p). \<exists>v. outputs (layers p ! l ! t) ! k = Intermediate v)"

lemma relabel_spends:
  assumes "plan_inv A fee ls pool"
  shows "spends_intermediates \<lparr>layers = relabel ls, direct_funding = direct\<rparr>"
proof -
  have ins: "map inputs (concat (relabel ls)) = map inputs (concat ls)" by (rule concat_relabel) simp_all
  have sp: "spent_prior \<lparr>layers = relabel ls, direct_funding = direct\<rparr> = concat (map prior_ref (spent_in ls))"
    by (simp add: spent_prior_def ins spent_in_def)
  have "\<exists>v. outputs (relabel ls ! l ! t) ! k = Intermediate v" if r: "(l, t, k) \<in> set (concat (map prior_ref (spent_in ls)))" for l t k
  proof -
    from r obtain n where n: "n \<in> set (spent_in ls)" "(l, t, k) \<in> set (prior_ref n)" by auto
    from n(2) obtain v where v: "n = PriorNote l t k v" by (cases n) auto
    have "note_ok A ls n" using assms n(1) by (simp add: plan_inv_def)
    then have o: "l < length ls" "t < length (ls ! l)" "k < length (outputs (ls ! l ! t))" "outputs (ls ! l ! t) ! k = Intermediate v"
      by (simp_all add: v)
    have "(l, t, k) \<in> set (spent_refs ls)" using r by (simp only: spent_refs_eq)
    with o show ?thesis by (simp add: nth_enumerate_eq relabel_at_def)
  qed
  then show ?thesis unfolding spends_intermediates_def sp PreparationPlan.select_convs
    by (intro ballI, simp only: split_paired_all prod.case)
qed

text \<open>The change notes of the plan are the feeders no layer spends.\<close>

definition change_value :: "PrepOutput \<Rightarrow> Zatoshis option" where
  "change_value out = (case out of Change v \<Rightarrow> Some v | _ \<Rightarrow> None)"

lemma map_filter_append: "List.map_filter f (xs @ ys) = List.map_filter f xs @ List.map_filter f ys"
  by (simp add: List.map_filter_def)

lemma change_relabel:
  "\<forall>v. Change v \<notin> set outs \<Longrightarrow> List.map_filter change_value (map (relabel_at S li ti) (enumerate n outs)) =
     map input_value (List.map_filter (feeder_at S li ti) (enumerate n outs))"
proof (induction outs arbitrary: n)
  case (Cons out outs)
  then have "\<forall>v. out \<noteq> Change v" by auto
  with Cons show ?case
    by (cases out) (auto simp: List.map_filter_simps change_value_def relabel_at_def feeder_at_def input_value_def)
qed (simp add: List.map_filter_simps)

lemma residual_relabel:
  assumes "\<forall>tx\<in>set (concat ls). \<forall>v. Change v \<notin> set (outputs tx)"
  shows "residual_notes \<lparr>layers = relabel ls, direct_funding = direct\<rparr> = map input_value (unconsumed_feeders ls)"
proof -
  let ?S = "set (spent_refs ls)" and ?c = "List.map_filter change_value"
  have layer: "?c (concat (map outputs (map (\<lambda>(ti, tx). tx\<lparr>outputs := map (relabel_at ?S li ti) (enumerate 0 (outputs tx))\<rparr>) (enumerate n layer)))) =
      map input_value (concat (map (\<lambda>(ti, tx). List.map_filter (feeder_at ?S li ti) (enumerate 0 (outputs tx))) (enumerate n layer)))"
    if "\<forall>tx\<in>set layer. \<forall>v. Change v \<notin> set (outputs tx)" for li n layer
    using that by (induction layer arbitrary: n) (simp_all add: map_filter_append change_relabel List.map_filter_simps)
  have "?c (concat (map outputs (concat (map (\<lambda>(li, layer). map (\<lambda>(ti, tx).
        tx\<lparr>outputs := map (relabel_at ?S li ti) (enumerate 0 (outputs tx))\<rparr>) (enumerate 0 layer)) (enumerate n ls'))))) =
      map input_value (concat (map (\<lambda>(li, layer). concat (map (\<lambda>(ti, tx).
        List.map_filter (feeder_at ?S li ti) (enumerate 0 (outputs tx))) (enumerate 0 layer))) (enumerate n ls')))"
    if "\<forall>tx\<in>set (concat ls'). \<forall>v. Change v \<notin> set (outputs tx)" for n ls'
    using that
  proof (induction ls' arbitrary: n)
    case (Cons layer ls')
    then show ?case using layer [of layer n 0] by (simp add: map_filter_append)
  qed (simp add: List.map_filter_simps)
  from this [OF assms, of 0] show ?thesis
    unfolding residual_notes_def all_outputs_def unconsumed_feeders_at change_value_def relabel_eq by simp
qed

section \<open>The balanced split\<close>

lemma subtree_cost_exact:
  assumes "targets \<noteq> []" "fee + 2 * length targets * fee + sum_list targets < 18446744073709551616"
    "2 * length targets < 18446744073709551616"
  shows "\<exists>t. subtree_cost targets fee = (t, sum_list targets + t * fee) \<and> 1 \<le> t \<and> t < 2 * length targets"
  using assms
proof (induction "length targets" arbitrary: targets rule: less_induct)
  case less
  show ?case
  proof (cases "split_depth (length targets) \<le> 1")
    case True
    have "subtree_cost targets fee = (1, sum_list targets + fee)"
      using less.prems(2) True by (simp add: subtree_cost.simps [of targets] u64_sum_mod u64_add_def)
    with less.prems(1) show ?thesis by (intro exI [of _ 1]) (cases targets, simp_all)
  next
    case False
    note g = child_groups_correct [OF False [unfolded not_le]]
    let ?f = "\<lambda>grp (txs, v). let (t, w) = subtree_cost grp fee in (u64_add txs t, u64_add v w)"
    have fold: "\<exists>t. fold ?f gs (t0, v0) = (t0 + t, v0 + sum_list (concat gs) + t * fee) \<and> length gs \<le> t \<and> t + length gs \<le> 2 * length (concat gs)"
      if gs: "set gs \<subseteq> set (child_groups targets)" "fee \<le> v0"
        "t0 + 2 * length (concat gs) < 18446744073709551616"
        "v0 + sum_list (concat gs) + 2 * length (concat gs) * fee < 18446744073709551616" for gs t0 v0
      using gs
    proof (induction gs arbitrary: t0 v0)
      case (Cons grp gs)
      have grp: "length grp < length targets" "grp \<noteq> []" using g(2) [of grp] Cons.prems(1) by auto
      have b: "fee + 2 * length grp * fee + sum_list grp < 18446744073709551616" "2 * length grp < 18446744073709551616"
        using Cons.prems(2-4) by (simp_all add: add_mult_distrib add_mult_distrib2)
      from less.hyps [OF grp(1,2) b] obtain t where
        t: "subtree_cost grp fee = (t, sum_list grp + t * fee)" "1 \<le> t" "t < 2 * length grp" by blast
      have tf: "t * fee \<le> 2 * length grp * fee" using t(3) by (intro mult_le_mono1) simp
      have e: "v0 + sum_list grp + sum_list (concat gs) + (2 * length grp * fee + 2 * length (concat gs) * fee) < 18446744073709551616"
        using Cons.prems(4) by (simp add: add_mult_distrib add_mult_distrib2)
      from e tf have e': "v0 + (sum_list grp + t * fee) + sum_list (concat gs) + 2 * length (concat gs) * fee < 18446744073709551616"
        by linarith
      then have "v0 + (sum_list grp + t * fee) < 18446744073709551616" by linarith
      then have "u64_add t0 t = t0 + t" "u64_add v0 (sum_list grp + t * fee) = v0 + (sum_list grp + t * fee)"
        using Cons.prems(3) t(3) by (simp_all add: u64_add_def)
      then have eq: "fold ?f (grp # gs) (t0, v0) = fold ?f gs (t0 + t, v0 + (sum_list grp + t * fee))" by (simp add: t(1))
      have "\<exists>t'. fold ?f gs (t0 + t, v0 + (sum_list grp + t * fee)) =
          (t0 + t + t', v0 + (sum_list grp + t * fee) + sum_list (concat gs) + t' * fee) \<and> length gs \<le> t' \<and>
          t' + length gs \<le> 2 * length (concat gs)"
        by (rule Cons.IH [OF _ _ _ e']) (use Cons.prems(1-3) t(3) in simp_all)
      then obtain t' where t': "fold ?f gs (t0 + t, v0 + (sum_list grp + t * fee)) =
          (t0 + t + t', v0 + (sum_list grp + t * fee) + sum_list (concat gs) + t' * fee)" "length gs \<le> t'"
          "t' + length gs \<le> 2 * length (concat gs)" by blast
      show ?case unfolding eq t'(1) using t t'(2,3)
        by (intro exI [of _ "t + t'"]) (simp add: add_mult_distrib)
    qed simp
    have "\<exists>t. fold ?f (child_groups targets) (1, fee) = (1 + t, fee + sum_list (concat (child_groups targets)) + t * fee) \<and>
        length (child_groups targets) \<le> t \<and> t + length (child_groups targets) \<le> 2 * length (concat (child_groups targets))"
      by (rule fold) (use less.prems(2,3) in \<open>simp_all only: g(1) order_refl\<close>, presburger+)
    then obtain t where "fold ?f (child_groups targets) (1, fee) = (1 + t, fee + sum_list targets + t * fee)" "t + 2 \<le> 2 * length targets"
      unfolding g(1) using g(3) by force
    then show ?thesis using False
      by (subst subtree_cost.simps) (simp add: add_mult_distrib)
  qed
qed

lemma cost_children:
  assumes d: "1 < split_depth (length targets)"
    and b: "fee + 2 * length targets * fee + sum_list targets < 18446744073709551616" "2 * length targets < 18446744073709551616"
  shows "snd (subtree_cost targets fee) = fee + (\<Sum>grp\<leftarrow>child_groups targets. snd (subtree_cost grp fee))"
proof -
  note g = child_groups_correct [OF d]
  let ?f = "\<lambda>grp (txs, v). let (t, w) = subtree_cost grp fee in (u64_add txs t, u64_add v w)"
  have mod: "snd (fold ?f gs (t0, v0)) = (v0 + (\<Sum>grp\<leftarrow>gs. snd (subtree_cost grp fee))) mod 18446744073709551616"
    if "v0 < 18446744073709551616" for gs t0 v0
    using that
  proof (induction gs arbitrary: t0 v0)
    case (Cons grp gs)
    obtain t w where t: "subtree_cost grp fee = (t, w)" by (cases "subtree_cost grp fee")
    have "u64_add v0 w < 18446744073709551616" by (simp add: u64_add_def)
    from Cons.IH [OF this, of "u64_add t0 t"] show ?case by (simp add: t u64_add_def mod_add_left_eq add.assoc)
  qed simp
  have le: "(\<Sum>grp\<leftarrow>gs. snd (subtree_cost grp fee)) \<le> sum_list (concat gs) + 2 * length (concat gs) * fee"
    if "set gs \<subseteq> set (child_groups targets)" "sum_list (concat gs) \<le> sum_list targets" for gs
    using that
  proof (induction gs)
    case (Cons grp gs)
    have grp: "length grp < length targets" "grp \<noteq> []" using g(2) [of grp] Cons.prems(1) by auto
    have "2 * length grp * fee \<le> 2 * length targets * fee" using grp(1) by (intro mult_le_mono1) simp
    moreover have "sum_list grp \<le> sum_list targets" using Cons.prems(2) by simp
    ultimately have "fee + 2 * length grp * fee + sum_list grp < 18446744073709551616" using b(1) by linarith
    from subtree_cost_exact [OF grp(2) this] grp(1) b(2) obtain t where
      t: "subtree_cost grp fee = (t, sum_list grp + t * fee)" "t < 2 * length grp" by auto
    then have "snd (subtree_cost grp fee) \<le> sum_list grp + 2 * length grp * fee" by simp
    with Cons show ?case by (simp add: add_mult_distrib add_mult_distrib2)
  qed simp
  have "snd (subtree_cost targets fee) = snd (fold ?f (child_groups targets) (1, fee))"
    using d by (subst subtree_cost.simps) simp
  with mod [of fee "child_groups targets" 1] le [of "child_groups targets"] b(1) g(1) show ?thesis by simp
qed

lemma minted_push: "l < length ls \<Longrightarrow> mset (minted_in (push_transaction l tx ls)) = mset (minted_in ls) + mset (minted_by [tx])"
  using concat_push [of l ls tx] by (simp add: minted_in_def minted_by_def mset_concat comp_def flip: sum_mset_sum_list)

lemma minted_pad [simp]: "minted_in (pad_layers n ls) = minted_in ls"
  by (simp add: minted_in_def)

text \<open>The notes a fan-out makes, one for each group.\<close>

definition child_notes :: "nat \<Rightarrow> nat \<Rightarrow> nat list \<Rightarrow> nat list \<Rightarrow> PrepInput list" where
  "child_notes l t vs ks = map (\<lambda>k. PriorNote l t k (Zatoshis (vs ! k))) ks"

lemma made_by_children:
  "made_by l t \<lparr>inputs = ins, outputs = split_outputs (map (Intermediate \<circ> Zatoshis) vs) leftover\<rparr>
     (child_notes l t vs [0..<length vs] @ split_leftover l t (map (Intermediate \<circ> Zatoshis) vs) leftover)"
  by (auto simp: made_by_def split_outputs_def split_leftover_def child_notes_def distinct_map inj_on_def nth_append)

lemma split_step:
  assumes p: "plan_inv A fee ls (source # rest)" and b: "before_layer l source"
    and ok: "tx_ok fee \<lparr>inputs = [source], outputs = outs\<rparr>"
    and new: "made_by l (length (pad_layers (l + 1) ls ! l)) \<lparr>inputs = [source], outputs = outs\<rparr> new"
  shows "plan_inv A fee (push_transaction l \<lparr>inputs = [source], outputs = outs\<rparr> (pad_layers (l + 1) ls)) (new @ rest)"
proof -
  have "plan_inv A fee (pad_layers (l + 1) ls) (source # rest)" using p by (rule plan_inv_pad)
  then show ?thesis using b ok new by (intro plan_inv_push) auto
qed

lemma build_split_ok:
  assumes A: "sum_list A \<le> MAX_MONEY"
    and "plan_inv A fee ls (source # rest)" "before_layer l source" "targets \<noteq> []"
    and "fee + 2 * length targets * fee + sum_list targets < 18446744073709551616" "2 * length targets < 18446744073709551616"
    and "zat (input_value source) = v" "snd (subtree_cost targets fee) \<le> v"
  shows "\<exists>ls'. build_split source v targets fee l ls = Some ls' \<and> plan_inv A fee ls' rest \<and>
    mset (minted_in ls') = mset (minted_in ls) + mset targets"
  using assms(2-)
proof (induction "length targets" arbitrary: source v targets l ls rest rule: less_induct)
  case less
  let ?ls = "pad_layers (l + 1) ls"
  let ?t = "length (?ls ! l)"
  have F: "FUNDING_OUTPUTS_PER_TX = 14" by (simp add: FUNDING_OUTPUTS_PER_TX_def PREP_TX_ACTIONS_def)
  have m: "v \<le> MAX_MONEY" using plan_inv_note [OF less.prems(1) A, of source] less.prems(6) by simp
  have u: "u64_ok v" "u64_ok (v - fee)" using m by (simp_all add: u64_ok_def MAX_MONEY_eq)
  show ?case
  proof (cases "split_depth (length targets) \<le> 1")
    case True
    have "length targets \<le> subtree_capacity (split_depth (length targets))"
      using split_depth_correct(1) less.prems(3) by simp
    also have "\<dots> \<le> 14" using True power_increasing [of "split_depth (length targets)" 1 "14 :: nat"]
      by (simp add: subtree_capacity_def F)
    finally have len: "length targets \<le> FUNDING_OUTPUTS_PER_TX" by (simp add: F)
    have "snd (subtree_cost targets fee) = sum_list targets + fee"
      using less.prems(4) True by (simp add: subtree_cost.simps [of targets] u64_sum_mod u64_add_def)
    then have c: "sum_list targets + fee \<le> v" using less.prems(7) by simp
    let ?lo = "v - fee - sum_list targets" and ?outs = "map (Funding \<circ> Zatoshis) targets"
    have "u64_sum targets = sum_list targets" using c m by (simp add: u64_sum_mod MAX_MONEY_eq)
    then have lo: "u64_sub (u64_sub v fee) (u64_sum targets) = ?lo" using u c by simp
    let ?tx = "\<lparr>inputs = [source], outputs = split_outputs ?outs ?lo\<rparr>"
    have ok: "tx_ok fee ?tx"
      using less.prems(3,6) len c m by (intro split_tx_ok) (auto simp: part_outputs_value)
    have p: "plan_inv A fee (push_transaction l ?tx ?ls) (split_leftover l ?t ?outs ?lo @ rest)"
      by (rule split_step [OF less.prems(1,2) ok made_by_leftover])
    have "expect_zats targets = Some (map Zatoshis targets)" "expect_zat ?lo = Some (Zatoshis ?lo)"
      using c m by (auto intro!: expect_zats_ok expect_zat_ok)
    then have "build_split source v targets fee l ls = Some (push_transaction l ?tx ?ls)"
      using True by (subst build_split.simps) (simp add: Let_def lo split_outputs_def)
    moreover have "mset (minted_in (push_transaction l ?tx ?ls)) = mset (minted_in ls) + mset targets"
      using minted_push [of l ?ls ?tx] by (simp add: minted_by_split funding_values_map del: map_map)
    ultimately show ?thesis using plan_inv_drop [OF p] by blast
  next
    case False
    note g = child_groups_correct [OF False [unfolded not_le]]
    let ?gs = "child_groups targets"
    let ?vs = "map (\<lambda>grp. snd (subtree_cost grp fee)) ?gs"
    let ?S = "sum_list ?vs" and ?outs = "map (Intermediate \<circ> Zatoshis) ?vs"
    have "snd (subtree_cost targets fee) = fee + ?S" using cost_children less.prems(4,5) False by (simp add: not_le)
    then have c: "fee + ?S \<le> v" using less.prems(7) by simp
    let ?lo = "v - fee - ?S"
    have "u64_sum ?vs = ?S" using c m by (simp add: u64_sum_mod MAX_MONEY_eq)
    then have lo: "u64_sub (u64_sub v fee) (u64_sum ?vs) = ?lo" using u c by simp
    let ?tx = "\<lparr>inputs = [source], outputs = split_outputs ?outs ?lo\<rparr>"
    let ?L = "push_transaction l ?tx ?ls"
    have sum: "(\<Sum>out\<leftarrow>?outs. zat (output_value out)) = ?S" by (simp add: output_value_def comp_def)
    have ok: "tx_ok fee ?tx"
    proof (rule split_tx_ok)
      show "zat (input_value source) = (\<Sum>out\<leftarrow>?outs. zat (output_value out)) + ?lo + fee"
        unfolding sum using less.prems(6) c by simp
      show "zat (input_value source) \<le> MAX_MONEY" using less.prems(6) m by simp
      show "?outs \<noteq> []" using g(3) by auto
      show "length ?outs \<le> FUNDING_OUTPUTS_PER_TX" using g(4) by simp
      show "\<forall>v. Change v \<notin> set ?outs" by auto
    qed
    have "plan_inv A fee ?L ((child_notes l ?t ?vs [0..<length ?vs] @ split_leftover l ?t ?outs ?lo) @ rest)"
      by (rule split_step [OF less.prems(1,2) ok made_by_children])
    then have "plan_inv A fee ?L (split_leftover l ?t ?outs ?lo @ child_notes l ?t ?vs [0..<length ?vs] @ rest)"
      by (rule plan_inv_mset [rotated]) simp
    then have p: "plan_inv A fee ?L (child_notes l ?t ?vs [0..<length ?gs] @ rest)" using plan_inv_drop by fastforce
    let ?F = "\<lambda>ls (k, grp). Option.bind (expect_zat (?vs ! k)) (\<lambda>z. build_split (PriorNote l ?t k z) (?vs ! k) grp fee (l + 1) ls)"
    have loop: "\<exists>ls'. try_fold ?F L (map (\<lambda>k. (k, ?gs ! k)) ks) = Some ls' \<and> plan_inv A fee ls' rest \<and>
        mset (minted_in ls') = mset (minted_in L) + mset (concat (map ((!) ?gs) ks))"
      if "set ks \<subseteq> {..<length ?gs}" "plan_inv A fee L (child_notes l ?t ?vs ks @ rest)" for ks L
      using that
    proof (induction ks arbitrary: L)
      case (Cons k ks)
      let ?grp = "?gs ! k"
      have k: "k < length ?gs" "?grp \<in> set ?gs" using Cons.prems(1) by auto
      have grp: "length ?grp < length targets" "?grp \<noteq> []" using g(2) [OF k(2)] by auto
      have "sum_list ?grp \<le> sum_list (map sum_list ?gs)" by (rule member_le_sum_list) (use k(2) in auto)
      then have "sum_list ?grp \<le> sum_list targets" by (simp add: g(1) flip: sum_list_concat)
      moreover have "2 * length ?grp * fee \<le> 2 * length targets * fee" using grp(1) by (intro mult_le_mono1) simp
      ultimately have b: "fee + 2 * length ?grp * fee + sum_list ?grp < 18446744073709551616" "2 * length ?grp < 18446744073709551616"
        using less.prems(4,5) grp(1) by linarith+
      have vk: "?vs ! k = snd (subtree_cost ?grp fee)" using k(1) by simp
      have "?vs ! k \<le> ?S" by (rule member_le_sum_list) (use k(1) in simp_all)
      then have z: "expect_zat (?vs ! k) = Some (Zatoshis (?vs ! k))" using c m by (intro expect_zat_ok) linarith
      have "plan_inv A fee L (PriorNote l ?t k (Zatoshis (?vs ! k)) # child_notes l ?t ?vs ks @ rest)"
        using Cons.prems(2) by (simp add: child_notes_def)
      from less.hyps [OF grp(1) this _ grp(2) b, of "l + 1" "?vs ! k"] vk obtain ls' where
        ls': "build_split (PriorNote l ?t k (Zatoshis (?vs ! k))) (?vs ! k) ?grp fee (l + 1) L = Some ls'"
          "plan_inv A fee ls' (child_notes l ?t ?vs ks @ rest)" "mset (minted_in ls') = mset (minted_in L) + mset ?grp"
        by (auto simp: input_value_def)
      from Cons.IH [OF _ ls'(2)] Cons.prems(1) ls'(1,3) z show ?case by auto
    qed (simp add: child_notes_def)
    have en: "enumerate 0 ?gs = map (\<lambda>k. (k, ?gs ! k)) [0..<length ?gs]"
      by (rule nth_equalityI) (simp_all add: nth_enumerate_eq)
    have "set [0..<length ?gs] \<subseteq> {..<length ?gs}" by auto
    from loop [OF this p] obtain ls' where
      ls': "try_fold ?F ?L (enumerate 0 ?gs) = Some ls'" "plan_inv A fee ls' rest"
        "mset (minted_in ls') = mset (minted_in ?L) + mset (concat (map ((!) ?gs) [0..<length ?gs]))" unfolding en by blast
    have "minted_by [?tx] = []" unfolding minted_by_split by (simp add: funding_value_def)
    then have "mset (minted_in ?L) = mset (minted_in ls)" using minted_push [of l ?ls ?tx] by simp
    moreover have "concat (map ((!) ?gs) [0..<length ?gs]) = targets" by (simp add: map_nth g(1))
    moreover have "build_split source v targets fee l ls = try_fold ?F ?L (enumerate 0 ?gs)"
    proof -
      have "expect_zats ?vs = Some (map Zatoshis ?vs)" by (rule expect_zats_ok) (use c m in linarith)
      then have e1: "map_option (map Intermediate) (expect_zats ?vs) = Some ?outs" by simp
      have "expect_zat ?lo = Some (Zatoshis ?lo)" by (rule expect_zat_ok) (use m in linarith)
      then have e2: "(if 0 < ?lo then map_option (\<lambda>z. ?outs @ [Intermediate z]) (expect_zat ?lo) else Some ?outs) =
          Some (split_outputs ?outs ?lo)" by (simp add: split_outputs_def)
      show ?thesis
        unfolding build_split.simps [of source v targets fee l ls] Let_def if_not_P [OF False] lo e1 Option.bind.simps(2) e2 ..
    qed
    ultimately show ?thesis using ls' by auto
  qed
qed

section \<open>The strategy\<close>

lemma max_by_value_in: "max_by_value xs = Some x \<Longrightarrow> x \<in> set xs"
  by (induction xs rule: max_by_value.induct) (auto split: if_splits)

definition wallet_notes_of :: "nat list \<Rightarrow> nat list \<Rightarrow> PrepInput list" where
  "wallet_notes_of A is = map (\<lambda>i. WalletNote i (Zatoshis (A ! i))) is"

lemma plan_inv_wallet:
  assumes "distinct is" "\<forall>i\<in>set is. i < length A"
  shows "plan_inv A fee [] (wallet_notes_of A is)"
  using assms by (auto simp: plan_inv_def spent_in_def wallet_notes_of_def distinct_map inj_on_def)

lemma layered_bound:
  assumes "sum_list targets \<le> MAX_MONEY" "(2 * length targets + 1) * fee + MAX_MONEY < 18446744073709551616"
    "2 * length targets < 18446744073709551616"
  shows "fee + 2 * length targets * fee + sum_list targets < 18446744073709551616"
  using assms by (simp add: add_mult_distrib)

lemma fan_out_ok:
  assumes A: "sum_list A \<le> MAX_MONEY" and "is": "is = filter (\<lambda>i. \<not> used ! i) [0..<length A]"
    and p: "plan_inv A fee [] (wallet_notes_of A is @ rest)" and ne: "remaining \<noteq> []"
    and b: "sum_list remaining \<le> MAX_MONEY" "(2 * length remaining + 1) * fee + MAX_MONEY < 18446744073709551616"
      "2 * length remaining < 18446744073709551616"
  shows "\<exists>remaining' ls. fan_out A used fee remaining = Some (remaining', ls) \<and>
    (remaining' = remaining \<and> ls = [] \<or>
     remaining' = [] \<and> plan_inv A fee ls rest \<and> mset (minted_in ls) = mset remaining)"
proof (cases "max_by_value (map (\<lambda>i. (i, A ! i)) is)")
  case None
  then show ?thesis by (simp add: fan_out_def "is")
next
  case (Some c)
  obtain i big where c: "c = (i, big)" by (cases c)
  with max_by_value_in [OF Some] have i: "i \<in> set is" "big = A ! i" by auto
  show ?thesis
  proof (cases "snd (subtree_cost remaining fee) \<le> big")
    case False
    with Some c show ?thesis by (simp add: fan_out_def "is")
  next
    case True
    obtain pre post where s: "is = pre @ i # post" using split_list [OF i(1)] by blast
    let ?n = "WalletNote i (Zatoshis big)"
    have "plan_inv A fee [] ((wallet_notes_of A pre @ wallet_notes_of A post) @ ?n # rest)"
      by (rule plan_inv_mset [OF _ p]) (simp add: s i(2) wallet_notes_of_def)
    from plan_inv_drop [OF this] have p': "plan_inv A fee [] (?n # rest)" .
    have "big \<le> MAX_MONEY" using plan_inv_note [OF p' A, of ?n] by (simp add: input_value_def)
    then have z: "expect_zat big = Some (Zatoshis big)" by (rule expect_zat_ok)
    from build_split_ok [OF A p' _ ne layered_bound [OF b] b(3) _ True, of 0] obtain ls where
      ls: "build_split ?n big remaining fee 0 [] = Some ls" "plan_inv A fee ls rest" "mset (minted_in ls) = mset (minted_in []) + mset remaining"
      by (auto simp: input_value_def)
    have "fan_out A used fee remaining = Some ([], ls)"
      using Some True c z ls(1) by (simp add: fan_out_def "is")
    with ls show ?thesis by (simp add: minted_in_def)
  qed
qed

definition split_bounded :: "Zatoshis list \<Rightarrow> Zatoshis \<Rightarrow> bool" where
  "split_bounded funding fee \<longleftrightarrow> (2 * length funding + 1) * zat fee + MAX_MONEY < 18446744073709551616 \<and>
     2 * length funding < 18446744073709551616"

lemma plan_layered_sound:
  assumes v: "amounts_valid available funding fee" and f: "sorts_notes f" and bd: "split_bounded funding fee"
  shows "\<exists>r. plan_layered f available funding fee = Some r \<and>
    (r = Inl BalanceInvalid \<longleftrightarrow> zatoshis_iter_sum available = None \<or> zatoshis_iter_sum funding = None) \<and>
    (\<forall>p. r = Inr p \<longrightarrow> is_valid p available funding fee \<and> spends_intermediates p \<and> plan_values_valid p \<and>
      (residual_count p \<le> 1 \<or> (\<forall>v\<in>set (residual_notes p). v \<le> fee)))"
proof (cases "validate_instance available funding")
  case (Inl e)
  then show ?thesis by (auto simp: plan_layered_def validate_instance_def split: if_splits)
next
  case (Inr u)
  let ?A = "map zat available" and ?fee = "zat fee"
  let ?targets = "rev (sort (filter (\<lambda>v. 0 < v) (map zat funding)))"
  have ok: "\<not> (zatoshis_iter_sum available = None \<or> zatoshis_iter_sum funding = None)"
    using Inr by (auto simp: validate_instance_def split: if_splits)
  note A = valid_amounts_sum [OF v Inr]
  have fee: "zatoshis_valid fee" using v by (simp add: amounts_valid_def)
  have "direct_ok ?A (replicate (length available) False) []" by (simp add: direct_ok_def)
  from match_direct_ok [OF A(1) this, of ?targets] obtain kept used direct where
    m: "match_direct ?A ?targets (replicate (length available) False) [] = Some (kept, used, direct)"
    and d: "direct_ok ?A used direct"
    and ms: "mset kept + mset (map (zat \<circ> snd) direct) = mset (filter (\<lambda>v. 0 < v) (map zat funding))" by auto
  let ?is = "filter (\<lambda>i. \<not> used ! i) [0..<length ?A]"
  let ?d = "map (\<lambda>(i, v). WalletNote i v) direct"
  have d_eq: "?d = wallet_notes_of ?A (map fst direct)" using d by (auto simp: wallet_notes_of_def direct_ok_def)
  have w: "wallet_only ?d" by (auto simp: wallet_only_def)
  have "plan_inv ?A ?fee [] (wallet_notes_of ?A (?is @ map fst direct))"
    using d by (intro plan_inv_wallet) (auto simp: direct_ok_def)
  then have p0: "plan_inv ?A ?fee [] (wallet_notes_of ?A ?is @ ?d)" by (simp add: d_eq wallet_notes_of_def)
  have current: "wallet_notes ?A ?is = Some (wallet_notes_of ?A ?is)"
    unfolding wallet_notes_of_def by (rule wallet_notes_ok [OF _ A(1)]) simp
  have "plan_layered f available funding fee = Some (Inr \<lparr>layers = [], direct_funding = direct\<rparr>)" if "kept = []"
    using Inr m that by (simp add: plan_layered_def)
  moreover have "is_valid \<lparr>layers = [], direct_funding = direct\<rparr> available funding fee \<and>
      plan_values_valid \<lparr>layers = [], direct_funding = direct\<rparr>" if "kept = []"
    using relabel_certified [OF plan_inv_drop [OF p0], of funding] ms that fee by (simp add: minted_in_def relabel_def)
  moreover have "spends_intermediates \<lparr>layers = [], direct_funding = direct\<rparr>"
    by (simp add: spends_intermediates_def spent_prior_def)
  moreover have "\<exists>r. plan_layered f available funding fee = Some r \<and> r \<noteq> Inl BalanceInvalid \<and>
      (\<forall>p. r = Inr p \<longrightarrow> is_valid p available funding fee \<and> spends_intermediates p \<and> plan_values_valid p \<and>
        (residual_count p \<le> 1 \<or> (\<forall>v\<in>set (residual_notes p). v \<le> fee)))"
    if ne: "kept \<noteq> []"
  proof -
    obtain c where c: "zatoshis_iter_sum funding = Some c" using ok by auto
    have "sum_list (map zat funding) \<le> MAX_MONEY"
      using zatoshis_iter_sum_Some [of funding c] v c by (simp add: amounts_valid_def)
    moreover have pos: "sum_list (filter (\<lambda>v. 0 < v) vs) = sum_list vs" for vs :: "nat list" by (induction vs) simp_all
    moreover have "sum_list kept + sum_list (map (zat \<circ> snd) direct) = sum_list (filter (\<lambda>v. 0 < v) (map zat funding))"
      using ms by (metis mset_append sum_list_append sum_mset_sum_list)
    ultimately have b1: "sum_list kept \<le> MAX_MONEY" by simp
    have "length kept + length direct = length (filter (\<lambda>v. 0 < v) (map zat funding))"
      using arg_cong [OF ms, of size] unfolding size_union size_mset length_map .
    then have "length kept \<le> length (filter (\<lambda>v. 0 < v) (map zat funding))" by linarith
    also have "\<dots> \<le> length funding" using length_filter_le [of "\<lambda>v. 0 < v" "map zat funding"] by simp
    finally have len: "length kept \<le> length funding" .
    then have "(2 * length kept + 1) * ?fee \<le> (2 * length funding + 1) * ?fee" by (intro mult_le_mono1) simp
    then have b2: "(2 * length kept + 1) * ?fee + MAX_MONEY < 18446744073709551616" "2 * length kept < 18446744073709551616"
      using bd len unfolding split_bounded_def by linarith+
    from fan_out_ok [OF A(1) refl p0 ne b1 b2] obtain remaining ls where
      fo: "fan_out ?A used ?fee kept = Some (remaining, ls)"
      and cases: "remaining = kept \<and> ls = [] \<or> remaining = [] \<and> plan_inv ?A ?fee ls ?d \<and> mset (minted_in ls) = mset kept" by blast
    have "\<exists>r. layer_loop f ?fee remaining (wallet_notes_of ?A ?is) ls = Some r \<and> r \<noteq> Inl BalanceInvalid \<and>
        (\<forall>ls'. r = Inr ls' \<longrightarrow> plan_inv ?A ?fee ls' ?d \<and> mset (minted_in ls') = mset kept)"
      using cases
    proof
      assume "remaining = kept \<and> ls = []"
      then show ?thesis using layer_loop_ok [OF A(1) f p0 b1] by (simp add: minted_in_def)
    next
      assume "remaining = [] \<and> plan_inv ?A ?fee ls ?d \<and> mset (minted_in ls) = mset kept"
      then show ?thesis by (simp add: layer_loop.simps [of f ?fee "[]"])
    qed
    then obtain r where r: "layer_loop f ?fee remaining (wallet_notes_of ?A ?is) ls = Some r" "r \<noteq> Inl BalanceInvalid"
        "\<forall>ls'. r = Inr ls' \<longrightarrow> plan_inv ?A ?fee ls' ?d \<and> mset (minted_in ls') = mset kept" by blast
    show ?thesis
    proof (cases r)
      case (Inl e)
      then have "plan_layered f available funding fee = Some (Inl e)"
        using Inr m ne fo current r(1) by (simp add: plan_layered_def)
      with Inl r(2) show ?thesis by simp
    next
      case inr: (Inr ls1)
      with r(3) residual_loop_ok [OF A(1) f w, of ?fee ls1] obtain ls2 where
        ls2: "residual_loop f ?fee ls1 = Some ls2" "plan_inv ?A ?fee ls2 ?d" "minted_in ls2 = minted_in ls1"
          "length (unconsumed_feeders ls2) \<le> 1 \<or> (\<forall>n\<in>set (unconsumed_feeders ls2). zat (input_value n) \<le> ?fee)"
          "mset (minted_in ls1) = mset kept" by blast
      let ?p = "\<lparr>layers = relabel ls2, direct_funding = direct\<rparr>"
      have "plan_layered f available funding fee = Some (Inr ?p)"
        using Inr m ne fo current r(1) inr ls2(1) by (simp add: plan_layered_def)
      moreover have "is_valid ?p available funding fee \<and> plan_values_valid ?p"
        by (rule relabel_certified [OF ls2(2) _ fee]) (unfold ls2(3,5), rule ms)
      moreover have "spends_intermediates ?p" by (rule relabel_spends [OF ls2(2)])
      moreover have "residual_notes ?p = map input_value (unconsumed_feeders ls2)"
        by (rule residual_relabel) (use ls2(2) in \<open>auto simp: plan_inv_def tx_ok_def\<close>)
      ultimately show ?thesis using ls2(4) by (auto simp: residual_count_def less_eq_Zatoshis_def)
    qed
  qed
  ultimately show ?thesis using ok by (cases "kept = []") (auto simp: residual_count_def residual_notes_def all_outputs_def List.map_filter_simps)
qed

definition stable_sort_notes :: "(PrepInput \<Rightarrow> nat) \<Rightarrow> PrepInput list \<Rightarrow> PrepInput list" where
  "stable_sort_notes key ns = rev (sort_key key (rev ns))"

lemma stable_sort_notes_sorts: "sorts_notes stable_sort_notes"
  by (simp add: sorts_notes_def stable_sort_notes_def)

section \<open>The properties\<close>

text \<open>
  C25. The layered greedy strategy returns whatever order the unstable sorts leave, as long as the fees of
  a split into the requested notes fit \<open>u64\<close>: it reports invalid totals exactly if a total is invalid,
  every plan it returns passes the certificate and spends no funding or change note it mints, and a
  plan leaves at most one residual note, unless
  each of them is worth no more than a fee.
\<close>

theorem layered_greedy_valid:
  assumes "amounts_valid available funding fee" and "sorts_notes sort_notes" and "split_bounded funding fee"
  shows "\<exists>r. plan_layered sort_notes available funding fee = Some r \<and>
    (r = Inl BalanceInvalid \<longleftrightarrow> zatoshis_iter_sum available = None \<or> zatoshis_iter_sum funding = None) \<and>
    (\<forall>p. r = Inr p \<longrightarrow> is_valid p available funding fee \<and> spends_intermediates p \<and>
      (residual_count p \<le> 1 \<or> (\<forall>v\<in>set (residual_notes p). v \<le> fee)))"
  using plan_layered_sound [OF assms] by metis

text \<open>Two notes of which neither funds both requests: a layer funds them, a second merges what is left.\<close>

definition two_note_plan :: PreparationPlan where
  "two_note_plan = \<lparr>layers =
     [[\<lparr>inputs = [WalletNote 1 (Zatoshis 30)], outputs = [Funding (Zatoshis 21), Intermediate (Zatoshis 4)]\<rparr>,
       \<lparr>inputs = [WalletNote 0 (Zatoshis 28)], outputs = [Funding (Zatoshis 20), Intermediate (Zatoshis 3)]\<rparr>],
      [\<lparr>inputs = [PriorNote 0 0 1 (Zatoshis 4), PriorNote 0 1 1 (Zatoshis 3)], outputs = [Change (Zatoshis 2)]\<rparr>]],
     direct_funding = []\<rparr>"

lemmas layered_eval = zatoshis_iter_sum_def zatoshis_add_def zatoshis_from_u64_def u64_checked_add_def MAX_MONEY_eq
  result_ok_def zatoshis_ZERO_def expect_zat_def Let_def sort_key_def stable_sort_notes_def input_value_def
  u64_sum_mod u64_add_def u64_sub_def list_get_def FUNDING_OUTPUTS_PER_TX_def PREP_TX_ACTIONS_def
  CONSOLIDATION_INPUTS_PER_TX_def validate_instance_def List.map_filter_simps

lemma two_note_eval:
  "plan_layered stable_sort_notes [Zatoshis 28, Zatoshis 30] [Zatoshis 20, Zatoshis 21] (Zatoshis 5) = Some (Inr two_note_plan)"
  by (simp add: plan_layered_def layered_eval fan_out_def subtree_cost.simps split_depth_def split_depth_from.simps
      subtree_capacity_def layer_loop.simps residual_loop.simps consolidate_def consolidation_batch_sizes.simps
      unconsumed_feeders_def spent_refs_def relabel_def two_note_plan_def)

theorem layered_greedy_valid_witness:
  "is_valid two_note_plan [Zatoshis 28, Zatoshis 30] [Zatoshis 20, Zatoshis 21] (Zatoshis 5) \<and> residual_count two_note_plan = 1"
proof -
  have "amounts_valid [Zatoshis 28, Zatoshis 30] [Zatoshis 20, Zatoshis 21] (Zatoshis 5)"
    "split_bounded [Zatoshis 20, Zatoshis 21] (Zatoshis 5)"
    by (simp_all add: amounts_valid_def value_bounds split_bounded_def)
  from layered_greedy_valid [OF this(1) stable_sort_notes_sorts this(2)] show ?thesis
    unfolding two_note_eval by (simp add: residual_count_def residual_notes_def all_outputs_def two_note_plan_def List.map_filter_simps)
qed

lemma plan_preparation_valid_aux:
  assumes v: "amounts_valid available funding fee" and f: "permuting sort_indices" and g: "sorts_notes sort_notes"
    and b: "split_bounded funding fee"
  shows "\<exists>r. plan_preparation sort_indices sort_notes available funding fee = Some r \<and>
    (r = Inl BalanceInvalid \<longleftrightarrow> zatoshis_iter_sum available = None \<or> zatoshis_iter_sum funding = None) \<and>
    (\<forall>p. r = Inr p \<longrightarrow> is_valid p available funding fee \<and> spends_intermediates p \<and> plan_values_valid p) \<and>
    (\<forall>q. plan_first_fit sort_indices available funding fee = Some (Inr q) \<or>
         plan_layered sort_notes available funding fee = Some (Inr q) \<longrightarrow>
       (\<exists>p. r = Inr p \<and> quality_of p \<le> quality_of q))"
proof -
  from plan_first_fit_sound [OF v f] obtain r1 where
    r1: "plan_first_fit sort_indices available funding fee = Some r1"
      "r1 = Inl BalanceInvalid \<longleftrightarrow> zatoshis_iter_sum available = None \<or> zatoshis_iter_sum funding = None"
      "\<forall>p. r1 = Inr p \<longrightarrow> is_valid p available funding fee \<and> layer_count p \<le> 1 \<and> spent_prior p = [] \<and> plan_values_valid p"
    by metis
  then have s1: "\<forall>p. r1 = Inr p \<longrightarrow> is_valid p available funding fee \<and> spends_intermediates p \<and> plan_values_valid p"
    by (simp add: spends_intermediates_def)
  from plan_layered_sound [OF v g b] obtain r2 where
    r2: "plan_layered sort_notes available funding fee = Some r2"
      "r2 = Inl BalanceInvalid \<longleftrightarrow> zatoshis_iter_sum available = None \<or> zatoshis_iter_sum funding = None"
      "\<forall>p. r2 = Inr p \<longrightarrow> is_valid p available funding fee \<and> spends_intermediates p \<and> plan_values_valid p" by metis
  have best: "best_plan (default_portfolio sort_indices sort_notes) available funding fee =
      Some (join_ranked
        (case r1 of Inr p \<Rightarrow> Some (''first-fit-decreasing'', p) | _ \<Rightarrow> None)
        (case r2 of Inr p \<Rightarrow> Some (''layered-greedy'', p) | _ \<Rightarrow> None))"
    using r1(1) s1 r2(1,3)
    by (cases r1; cases r2) (simp_all add: default_portfolio_def evaluate_def first_fit_decreasing_def layered_greedy_def)
  show ?thesis
  proof (cases "validate_instance available funding")
    case (Inl e)
    then have i: "e = BalanceInvalid" "zatoshis_iter_sum available = None \<or> zatoshis_iter_sum funding = None"
      by (auto simp: validate_instance_def split: if_splits)
    with r1 r2 have "r1 = Inl BalanceInvalid" "r2 = Inl BalanceInvalid" by blast+
    with Inl i r1(1) r2(1) show ?thesis by (simp add: plan_preparation_def plan_preparation_with_def)
  next
    case (Inr u)
    then have i: "\<not> (zatoshis_iter_sum available = None \<or> zatoshis_iter_sum funding = None)"
      by (auto simp: validate_instance_def split: if_splits)
    show ?thesis using r1(1,2) s1 r2 i Inr
      by (cases r1; cases r2) (auto simp: plan_preparation_def plan_preparation_with_def best)
  qed
qed

text \<open>
  The planner of the crate: on valid amounts it returns, it reports invalid totals exactly if a total
  is invalid, a plan it returns passes the certificate and is no worse than the plan of either
  strategy, and it lacks funds only if both strategies do.
\<close>

theorem plan_preparation_valid:
  assumes v: "amounts_valid available funding fee" and f: "permuting sort_indices" and g: "sorts_notes sort_notes"
    and b: "split_bounded funding fee"
  shows "\<exists>r. plan_preparation sort_indices sort_notes available funding fee = Some r \<and>
    (r = Inl BalanceInvalid \<longleftrightarrow> zatoshis_iter_sum available = None \<or> zatoshis_iter_sum funding = None) \<and>
    (\<forall>p. r = Inr p \<longrightarrow> is_valid p available funding fee \<and> spends_intermediates p \<and> plan_values_valid p) \<and>
    (\<forall>q. plan_first_fit sort_indices available funding fee = Some (Inr q) \<or>
         plan_layered sort_notes available funding fee = Some (Inr q) \<longrightarrow>
       (\<exists>p. r = Inr p \<and> quality_of p \<le> quality_of q))"
  using plan_preparation_valid_aux [OF assms] .

theorem plan_preparation_valid_witness:
  "\<exists>p. plan_preparation stable_sort_by_key stable_sort_notes [Zatoshis 28, Zatoshis 30] [Zatoshis 20, Zatoshis 21] (Zatoshis 5) =
     Some (Inr p) \<and> is_valid p [Zatoshis 28, Zatoshis 30] [Zatoshis 20, Zatoshis 21] (Zatoshis 5) \<and>
     quality_of p \<le> quality_of two_note_plan"
proof -
  have "amounts_valid [Zatoshis 28, Zatoshis 30] [Zatoshis 20, Zatoshis 21] (Zatoshis 5)"
    "split_bounded [Zatoshis 20, Zatoshis 21] (Zatoshis 5)"
    by (simp_all add: amounts_valid_def value_bounds split_bounded_def)
  from plan_preparation_valid [OF this(1) stable_sort_permutes stable_sort_notes_sorts this(2)] obtain r where
    r: "plan_preparation stable_sort_by_key stable_sort_notes [Zatoshis 28, Zatoshis 30] [Zatoshis 20, Zatoshis 21] (Zatoshis 5) = Some r"
      "\<forall>p. r = Inr p \<longrightarrow> is_valid p [Zatoshis 28, Zatoshis 30] [Zatoshis 20, Zatoshis 21] (Zatoshis 5)"
      "\<forall>q. plan_layered stable_sort_notes [Zatoshis 28, Zatoshis 30] [Zatoshis 20, Zatoshis 21] (Zatoshis 5) = Some (Inr q) \<longrightarrow>
        (\<exists>p. r = Inr p \<and> quality_of p \<le> quality_of q)" by metis
  from r(3) two_note_eval obtain p where "r = Inr p" "quality_of p \<le> quality_of two_note_plan" by (elim allE impE) auto
  with r(1,2) show ?thesis by auto
qed

end
