(* ===== verification/SigningSound.thy ===== *)
theory SigningSound
  imports SigningRounds
begin

text \<open>
  The signing rounds: the dynamic program finds the preparations that leave the most room, \<open>MinRounds\<close>
  makes the fewest rounds there are, and the inverse queries invert it.
\<close>

section \<open>The dynamic program\<close>

text \<open>Invariant of the pass over the table: \<open>P\<close> are the cells and choices already looked at.\<close>

definition dp_pass :: "nat \<Rightarrow> nat \<Rightarrow> (nat \<Rightarrow> nat) \<Rightarrow> nat option list \<Rightarrow> (nat \<times> nat) set \<Rightarrow> nat option list \<times> nat list \<Rightarrow> bool" where
  "dp_pass n mp room dp P acc \<longleftrightarrow> length (fst acc) = n + 1 \<and> length (snd acc) = n + 1 \<and>
     (\<forall>v\<le>n. (\<forall>b. fst acc ! v = Some b \<longrightarrow>
          snd acc ! v \<le> v \<and> snd acc ! v \<le> mp \<and> (\<exists>b'. dp ! (v - snd acc ! v) = Some b' \<and> b = b' + room (snd acc ! v))) \<and>
        (\<forall>u k b'. (u, k) \<in> P \<and> u + k = v \<and> dp ! u = Some b' \<longrightarrow> (\<exists>b. fst acc ! v = Some b \<and> b' + room k \<le> b)))"

lemma dp_pass_seen:
  "dp_pass n mp room dp P acc \<Longrightarrow> (u, k) \<in> P \<Longrightarrow> u + k \<le> n \<Longrightarrow> dp ! u = Some b' \<Longrightarrow>
   \<exists>b. fst acc ! (u + k) = Some b \<and> b' + room k \<le> b"
  unfolding dp_pass_def by blast

lemma dp_pass_update:
  assumes "dp_pass n mp room dp P acc" "dp ! u = Some b'" "u + k \<le> n" "k \<le> mp"
  shows "dp_pass n mp room dp (insert (u, k) P) (dp_update room dp u acc k)"
proof -
  obtain nx ch where acc: "acc = (nx, ch)" by (cases acc)
  have len: "length nx = n + 1" "length ch = n + 1" using assms(1) by (simp_all add: dp_pass_def acc)
  show ?thesis
  proof (cases "case nx ! (u + k) of None \<Rightarrow> True | Some b \<Rightarrow> b < b' + room k")
    case True
    then have e: "dp_update room dp u acc k = (nx[u + k := Some (b' + room k)], ch[u + k := k])"
      by (simp add: dp_update_def acc assms(2) Let_def)
    have old: "b \<le> b' + room k" if "nx ! (u + k) = Some b" for b using True that by simp
    show ?thesis
      unfolding e dp_pass_def fst_conv snd_conv
    proof (intro conjI allI impI, goal_cases)
      case (4 v b)
      then show ?case using assms(1,4) len by (cases "v = u + k") (auto simp: dp_pass_def acc)
    next
      case (3 v b)
      then show ?case using assms(1,3,4) len by (cases "v = u + k") (auto simp: dp_pass_def acc)
    next
      case (5 v b)
      then show ?case using assms(1,2) len by (cases "v = u + k") (auto simp: dp_pass_def acc)
    next
      case (6 v x y c)
      show ?case
      proof (cases "v = u + k")
        case v: True
        have "c + room y \<le> b' + room k"
        proof (cases "(x, y) = (u, k)")
          case True
          then show ?thesis using 6 assms(2) by auto
        next
          case False
          then have "(x, y) \<in> P" "x + y \<le> n" "dp ! x = Some c" "x + y = v" using 6 by auto
          from dp_pass_seen [OF assms(1) this(1-3)] this(4) obtain b where "nx ! v = Some b" "c + room y \<le> b"
            by (auto simp: acc)
          then show ?thesis using old v by fastforce
        qed
        then show ?thesis using v 6(1) len by simp
      next
        case False
        then have "(x, y) \<in> P" "x + y \<le> n" "dp ! x = Some c" "x + y = v" using 6 by auto
        from dp_pass_seen [OF assms(1) this(1-3)] this(4) False show ?thesis by (auto simp: acc)
      qed
    qed (use len in simp_all)
  next
    case False
    then obtain b where b: "nx ! (u + k) = Some b" "b' + room k \<le> b" by (auto split: option.splits)
    then have e: "dp_update room dp u acc k = acc" by (simp add: dp_update_def acc assms(2) Let_def)
    show ?thesis using assms(1,2) b unfolding e dp_pass_def by (auto simp: acc)
  qed
qed

lemma dp_pass_inner:
  assumes "dp_pass n mp room dp P acc" "dp ! u = Some b'" "\<forall>k\<in>set ks. u + k \<le> n \<and> k \<le> mp"
  shows "dp_pass n mp room dp (Pair u ` set ks \<union> P) (foldl (dp_update room dp u) acc ks)"
  using assms(1,3)
proof (induction ks arbitrary: P acc)
  case (Cons k ks)
  have "dp_pass n mp room dp (insert (u, k) P) (dp_update room dp u acc k)"
    by (rule dp_pass_update [OF Cons.prems(1) assms(2)]) (use Cons.prems(2) in simp_all)
  from Cons.IH [OF this] Cons.prems(2) show ?case by (simp add: Un_insert_right)
qed simp

definition dp_cells :: "nat \<Rightarrow> nat \<Rightarrow> nat \<Rightarrow> (nat \<times> nat) set" where
  "dp_cells n mp m = {(u, k). u < m \<and> u + k \<le> n \<and> k \<le> mp}"

lemma dp_pass_none: "dp_pass n mp room dp P acc \<Longrightarrow> dp ! u = None \<Longrightarrow> dp_pass n mp room dp (Pair u ` K \<union> P) acc"
  unfolding dp_pass_def by (auto simp del: not_None_eq)

lemma dp_cells_Suc: "m \<le> n \<Longrightarrow> dp_cells n mp (Suc m) = Pair m ` set [0..<Suc (min mp (n - m))] \<union> dp_cells n mp m"
  by (auto simp: dp_cells_def less_Suc_eq image_iff)

lemma dp_round_pass:
  "dp_pass n mp room dp (dp_cells n mp (Suc n)) (dp_round n mp room dp)"
proof -
  let ?f = "\<lambda>acc u. if dp ! u = None then acc else foldl (dp_update room dp u) acc [0..<Suc (min mp (n - u))]"
  have "m \<le> Suc n \<Longrightarrow> dp_pass n mp room dp (dp_cells n mp m)
      (foldl ?f (replicate (n + 1) None, replicate (n + 1) 0) [0..<m])" for m
  proof (induction m)
    case 0
    then show ?case by (simp add: dp_pass_def dp_cells_def del: replicate_Suc)
  next
    case (Suc m)
    then have ih: "dp_pass n mp room dp (dp_cells n mp m)
      (foldl ?f (replicate (n + 1) None, replicate (n + 1) 0) [0..<m])" by simp
    have u: "[0..<Suc m] = [0..<m] @ [m]" by simp
    note c = dp_cells_Suc [of m n mp]
    show ?case
    proof (cases "dp ! m")
      case None
      have "m \<le> n" using Suc.prems by simp
      from dp_pass_none [OF ih None, of "set [0..<Suc (min mp (n - m))]"] None show ?thesis
        unfolding u foldl_append c [OF \<open>m \<le> n\<close>] by (simp only: foldl.simps if_True simp_thms)
    next
      case (Some b)
      have k: "\<forall>k\<in>set [0..<Suc (min mp (n - m))]. m + k \<le> n \<and> k \<le> mp" using Suc.prems by auto
      have "m \<le> n" using Suc.prems by simp
      from dp_pass_inner [OF ih Some k] Some show ?thesis
        unfolding u foldl_append c [OF \<open>m \<le> n\<close>] by (simp only: foldl.simps if_False option.distinct simp_thms)
    qed
  qed
  from this [of "Suc n"] show ?thesis by (simp add: dp_round_def)
qed

text \<open>A distribution of \<open>v\<close> preparations over \<open>r\<close> rounds, and the room it leaves.\<close>

definition spread :: "nat \<Rightarrow> nat \<Rightarrow> nat \<Rightarrow> nat list \<Rightarrow> bool" where
  "spread mp r v ks \<longleftrightarrow> length ks = r \<and> (\<forall>k\<in>set ks. k \<le> mp) \<and> sum_list ks = v"

lemma spread_snoc: "spread mp (Suc r) v ks \<longleftrightarrow> (\<exists>ks' k. ks = ks' @ [k] \<and> k \<le> mp \<and> k \<le> v \<and> spread mp r (v - k) ks')"
proof
  assume a: "spread mp (Suc r) v ks"
  then obtain ks' k where "ks = ks' @ [k]" by (cases ks rule: rev_cases) (auto simp: spread_def)
  with a show "\<exists>ks' k. ks = ks' @ [k] \<and> k \<le> mp \<and> k \<le> v \<and> spread mp r (v - k) ks'" by (auto simp: spread_def)
qed (auto simp: spread_def)

definition dp_exact :: "nat \<Rightarrow> nat \<Rightarrow> (nat \<Rightarrow> nat) \<Rightarrow> nat \<Rightarrow> nat option list \<times> nat list list \<Rightarrow> bool" where
  "dp_exact n mp room r t \<longleftrightarrow> length (snd t) = r \<and> (\<forall>v\<le>n.
     (\<forall>b. fst t ! v = Some b \<longrightarrow>
        spread mp r v (reconstruct (rev (snd t)) v) \<and> b = sum_list (map room (reconstruct (rev (snd t)) v))) \<and>
     (\<forall>ks. spread mp r v ks \<longrightarrow> (\<exists>b. fst t ! v = Some b \<and> sum_list (map room ks) \<le> b)))"

lemma dp_rounds_exact: "dp_exact n mp room r (dp_rounds n mp room r)"
proof (induction r)
  case 0
  show ?case by (auto simp: dp_exact_def spread_def nth_list_update nth_Cons split: nat.splits)
next
  case (Suc r)
  obtain dp ch where t: "dp_rounds n mp room r = (dp, ch)" by (cases "dp_rounds n mp room r")
  obtain nx c where p: "dp_round n mp room dp = (nx, c)" by (cases "dp_round n mp room dp")
  have t': "dp_rounds n mp room (Suc r) = (nx, ch @ [c])" by (simp add: t p)
  have e: "dp_exact n mp room r (dp, ch)" using Suc.IH by (simp add: t)
  have q: "dp_pass n mp room dp (dp_cells n mp (Suc n)) (nx, c)" using dp_round_pass [of n mp room dp] by (simp add: p)
  show ?case
    unfolding t' dp_exact_def
  proof (intro conjI allI impI, goal_cases)
    case 1
    then show ?case using e by (simp add: dp_exact_def)
  next
    case (2 v b)
    then have c: "c ! v \<le> v" "c ! v \<le> mp" and "\<exists>b'. dp ! (v - c ! v) = Some b' \<and> b = b' + room (c ! v)"
      using q by (auto simp: dp_pass_def)
    then obtain b' where b': "dp ! (v - c ! v) = Some b'" "b = b' + room (c ! v)" by blast
    then have "spread mp r (v - c ! v) (reconstruct (rev ch) (v - c ! v))" using e 2(1) by (auto simp: dp_exact_def)
    then show ?case unfolding spread_snoc using c by auto
  next
    case (3 v b)
    then have c: "c ! v \<le> v" and "\<exists>b'. dp ! (v - c ! v) = Some b' \<and> b = b' + room (c ! v)"
      using q by (auto simp: dp_pass_def)
    then obtain b' where b': "dp ! (v - c ! v) = Some b'" "b = b' + room (c ! v)" by blast
    then have "b' = sum_list (map room (reconstruct (rev ch) (v - c ! v)))" using e 3(1) by (auto simp: dp_exact_def)
    then show ?case using b'(2) by simp
  next
    case (4 v ks)
    then obtain ks' k where k: "ks = ks' @ [k]" "k \<le> mp" "k \<le> v" "spread mp r (v - k) ks'" unfolding spread_snoc by blast
    then obtain b' where b': "dp ! (v - k) = Some b'" "sum_list (map room ks') \<le> b'"
      using e 4(1) unfolding dp_exact_def by (metis diff_le_self fst_conv le_trans)
    have "(v - k, k) \<in> dp_cells n mp (Suc n)" using k 4(1) by (simp add: dp_cells_def)
    from dp_pass_seen [OF q this _ b'(1)] k 4(1) obtain b where "nx ! v = Some b" "b' + room k \<le> b" by auto
    then show ?case using b'(2) k(1) by auto
  qed
qed

lemma best_prep_Some:
  "best_prep_distribution n mp room r need = Some ks \<Longrightarrow> spread mp r n ks \<and> need \<le> sum_list (map room ks)"
  using dp_rounds_exact [of n mp room r]
  by (auto simp: best_prep_distribution_def dp_exact_def split: prod.splits option.splits if_splits)

lemma best_prep_None:
  "best_prep_distribution n mp room r need = None \<Longrightarrow> spread mp r n ks \<Longrightarrow> sum_list (map room ks) < need"
  using dp_rounds_exact [of n mp room r]
  by (fastforce simp: best_prep_distribution_def dp_exact_def split: prod.splits option.splits if_splits)

section \<open>The fewest rounds\<close>

text \<open>A grouping of \<open>n\<close> preparations and \<open>m\<close> transfers: no round is empty or above the limit, unless it is a single transaction.\<close>

definition round_ok :: "nat \<Rightarrow> nat \<times> nat \<Rightarrow> bool" where
  "round_ok limit q \<longleftrightarrow> 0 < fst q + snd q \<and>
     (fst q * PREPARATION_ACTIONS + snd q * TRANSFER_ACTIONS \<le> limit \<or> fst q + snd q = 1)"

definition packing :: "nat \<Rightarrow> nat \<Rightarrow> nat \<Rightarrow> (nat \<times> nat) list \<Rightarrow> bool" where
  "packing limit n m rs \<longleftrightarrow> (\<forall>q\<in>set rs. round_ok limit q) \<and>
     sum_list (map fst rs) = n \<and> sum_list (map snd rs) = m"

lemmas action_defs = PREPARATION_ACTIONS_def TRANSFER_ACTIONS_def PREP_TX_ACTIONS_def CROSSING_SOURCE_ACTIONS_def
  CROSSING_DESTINATION_ACTIONS_def

lemma actions_eq [simp]: "PREPARATION_ACTIONS = 16" "TRANSFER_ACTIONS = 3"
  by (simp_all add: action_defs)

lemma map_fst_fill: "map fst (fill_transfers room ks left) = ks"
  by (induction ks arbitrary: left) (simp_all add: Let_def)

lemma length_fill: "length (fill_transfers room ks left) = length ks"
  by (induction ks arbitrary: left) (simp_all add: Let_def)

lemma fill_room: "q \<in> set (fill_transfers room ks left) \<Longrightarrow> fst q \<in> set ks \<and> snd q \<le> room (fst q)"
  by (induction ks arbitrary: left) (auto simp: Let_def)

lemma sum_fill: "sum_list (map snd (fill_transfers room ks left)) = min left (sum_list (map room ks))"
  by (induction ks arbitrary: left) (auto simp: Let_def min_def)

lemma sum_filter_nonempty:
  "sum_list (map fst (filter (\<lambda>(p, t). 0 < p + t) rs)) = sum_list (map fst rs)"
  "sum_list (map snd (filter (\<lambda>(p, t). 0 < p + t) rs)) = sum_list (map snd (rs :: (nat \<times> nat) list))"
  by (induction rs) auto

lemma spread_packing:
  assumes "16 \<le> limit" "spread (limit div 16) r n ks" "m \<le> sum_list (map (round_capacity limit) ks)"
  shows "packing limit n m (filter (\<lambda>(p, t). 0 < p + t) (fill_transfers (round_capacity limit) ks m))"
proof -
  let ?rs = "fill_transfers (round_capacity limit) ks m"
  have "round_ok limit q" if q: "q \<in> set ?rs" "0 < fst q + snd q" for q
  proof -
    have "fst q \<le> limit div 16" "snd q \<le> (limit - fst q * 16) div 3"
      using fill_room [OF q(1)] assms(2) by (auto simp: spread_def round_capacity_def)
    then have "fst q * 16 \<le> limit" "snd q * 3 \<le> limit - fst q * 16" by linarith+
    then have "fst q * 16 + snd q * 3 \<le> limit" by linarith
    then show ?thesis using q(2) unfolding round_ok_def actions_eq by blast
  qed
  moreover have "sum_list (map fst ?rs) = n" unfolding map_fst_fill using assms(2) by (simp add: spread_def)
  moreover have "sum_list (map snd ?rs) = m" unfolding sum_fill using assms(3) by simp
  ultimately show ?thesis unfolding packing_def sum_filter_nonempty by auto
qed

lemma packing_spread:
  assumes "16 \<le> limit" "packing limit n m rs"
  shows "spread (limit div 16) (length rs) n (map fst rs)" "m \<le> sum_list (map (round_capacity limit) (map fst rs))"
    "n * 16 + m * 3 \<le> limit * length rs"
proof -
  have each: "fst q * 16 + snd q * 3 \<le> limit" if "q \<in> set rs" for q
    using assms that unfolding packing_def round_ok_def by (cases "fst q") fastforce+
  then have p: "\<forall>q\<in>set rs. fst q \<le> limit div 16 \<and> snd q \<le> round_capacity limit (fst q)"
    by (fastforce simp: round_capacity_def less_eq_div_iff_mult_less_eq)
  then show "spread (limit div 16) (length rs) n (map fst rs)"
    using assms(2) by (auto simp: spread_def packing_def)
  have "sum_list (map snd rs) \<le> sum_list (map (round_capacity limit) (map fst rs))"
    unfolding map_map using p by (intro sum_list_mono) simp
  then show "m \<le> sum_list (map (round_capacity limit) (map fst rs))" using assms(2) by (simp add: packing_def)
  have "(\<forall>q\<in>set rs. fst q * 16 + snd q * 3 \<le> limit) \<Longrightarrow>
      sum_list (map fst rs) * 16 + sum_list (map snd rs) * 3 \<le> limit * length rs"
    by (induction rs) (auto simp: algebra_simps)
  then show "n * 16 + m * 3 \<le> limit * length rs" using each assms(2) by (simp add: packing_def)
qed

lemma total_actions_unat: "unat (total_actions n m) = min (2 ^ 32 - 1) (n * 16 + m * 3)"
proof -
  define x where "x = min (min (n * 16) (2 ^ 64 - 1) + min (m * 3) (2 ^ 64 - 1)) (2 ^ 64 - 1)"
  have t: "total_actions n m = (if x < 2 ^ 32 then of_nat x else - 1)"
    unfolding total_actions_def actions_eq Let_def x_def by (rule refl)
  show ?thesis
  proof (cases "x < 2 ^ 32")
    case True
    then have "x = n * 16 + m * 3" by (simp add: x_def min_def split: if_splits)
    moreover have "unat (of_nat x :: u32) = x" using True by (simp add: unat_of_nat)
    ultimately show ?thesis using True by (simp add: t)
  next
    case False
    then have "2 ^ 32 \<le> n * 16 + m * 3" by (simp add: x_def min_def split: if_splits)
    moreover have "unat (- 1 :: u32) = 2 ^ 32 - 1" by (simp add: unat_minus_one)
    ultimately show ?thesis using False by (simp add: t)
  qed
qed

lemma total_actions_le: "unat (total_actions n m) \<le> n * 16 + m * 3"
  by (simp add: total_actions_unat)

lemma packing_lower:
  assumes "16 \<le> limit" "packing limit n m rs" "0 < n \<or> 0 < m"
  shows "max (max (nat_div_ceil n (limit div 16)) (nat_div_ceil (unat (total_actions n m)) limit)) 1 \<le> length rs"
proof -
  note s = packing_spread [OF assms(1,2)]
  have "sum_list (map fst rs) \<le> (limit div 16) * length rs"
    using s(1) sum_list_mono [of rs fst "\<lambda>_. limit div 16"] by (auto simp: spread_def sum_list_triv mult.commute)
  then have "n \<le> (limit div 16) * length rs" using s(1) by (simp add: spread_def)
  then have "nat_div_ceil n (limit div 16) \<le> length rs"
    using assms(1) by (subst nat_div_ceil_le_iff) (auto simp: mult.commute div_greater_zero_iff)
  moreover have "nat_div_ceil (unat (total_actions n m)) limit \<le> length rs"
    using s(3) total_actions_le [of n m] assms(1) by (subst nat_div_ceil_le_iff) (auto simp: mult.commute)
  moreover have "1 \<le> length rs" using assms(2,3) by (cases rs) (auto simp: packing_def)
  ultimately show ?thesis by simp
qed

lemma packing_upper:
  assumes "16 \<le> limit"
  shows "\<exists>ks. spread (limit div 16) (n + nat_div_ceil m (max (round_capacity limit 0) 1) + 1) n ks \<and>
    m \<le> sum_list (map (round_capacity limit) ks)"
proof -
  let ?c = "round_capacity limit 0" let ?b = "nat_div_ceil m (max ?c 1)"
  let ?ks = "replicate n (1 :: nat) @ replicate (?b + 1) 0"
  have c: "0 < ?c" using assms by (simp add: round_capacity_def)
  then have "max ?c 1 = ?c" by simp
  then have "m \<le> ?b * ?c" using nat_div_ceil_le_iff [OF c, of m ?b] by simp
  then have "m \<le> sum_list (map (round_capacity limit) ?ks)" by (simp add: sum_list_replicate)
  moreover have "spread (limit div 16) (n + ?b + 1) n ?ks"
    using assms by (auto simp: spread_def sum_list_replicate)
  ultimately show ?thesis by blast
qed

lemma find_map_first:
  "find_map f xs = Some y \<Longrightarrow> \<exists>i<length xs. f (xs ! i) = Some y \<and> (\<forall>j<i. f (xs ! j) = None)"
proof (induction xs)
  case (Cons x xs)
  show ?case
  proof (cases "f x")
    case None
    with Cons obtain i where "i < length xs" "f (xs ! i) = Some y" "\<forall>j<i. f (xs ! j) = None" by auto
    with None show ?thesis by (intro exI [of _ "Suc i"]) (auto simp: less_Suc_eq_0_disj)
  qed (use Cons.prems in \<open>auto intro!: exI [of _ 0]\<close>)
qed simp

lemma div_ceil_step:
  assumes "0 < c" "0 < n"
  shows "nat_div_ceil n c = Suc (nat_div_ceil (n - min n c) c)"
proof (rule antisym)
  have "n - min n c \<le> nat_div_ceil (n - min n c) c * c" using nat_div_ceil_le_iff [OF assms(1)] by blast
  then show "nat_div_ceil n c \<le> Suc (nat_div_ceil (n - min n c) c)"
    by (subst nat_div_ceil_le_iff [OF assms(1)]) (simp add: min_def split: if_splits)
next
  have n: "n \<le> nat_div_ceil n c * c" using nat_div_ceil_le_iff [OF assms(1)] by blast
  then obtain k where k: "nat_div_ceil n c = Suc k" using assms(2) by (cases "nat_div_ceil n c") auto
  have "nat_div_ceil (n - min n c) c \<le> k"
    using n by (subst nat_div_ceil_le_iff [OF assms(1)]) (auto simp: k min_def le_diff_conv split: if_splits)
  then show "Suc (nat_div_ceil (n - min n c) c) \<le> nat_div_ceil n c" by (simp add: k)
qed

lemma transfer_rounds_ok:
  "(\<forall>q\<in>set (transfer_rounds limit m). fst q = 0 \<and> 0 < snd q \<and> snd q \<le> max (limit div 3) 1) \<and>
   sum_list (map fst (transfer_rounds limit m)) = 0 \<and> sum_list (map snd (transfer_rounds limit m)) = m \<and>
   length (transfer_rounds limit m) = nat_div_ceil m (max (limit div 3) 1)"
proof (induction limit m rule: transfer_rounds.induct)
  case (1 limit left)
  define c where "c = max (limit div 3) 1"
  have c: "0 < c" by (simp add: c_def)
  show ?case
  proof (cases "left = 0")
    case True
    then show ?thesis by (simp add: transfer_rounds.simps nat_div_ceil_def)
  next
    case False
    have l: "nat_div_ceil left c = Suc (nat_div_ceil (left - min left c) c)"
      by (rule div_ceil_step) (use False c in simp_all)
    have r: "transfer_rounds limit left = (0, min left c) # transfer_rounds limit (left - min left c)"
      using False by (subst transfer_rounds.simps) (simp only: Let_def if_False actions_eq c_def)
    have ih: "\<forall>q\<in>set (transfer_rounds limit (left - min left c)). fst q = 0 \<and> 0 < snd q \<and> snd q \<le> c"
      "sum_list (map fst (transfer_rounds limit (left - min left c))) = 0"
      "sum_list (map snd (transfer_rounds limit (left - min left c))) = left - min left c"
      "length (transfer_rounds limit (left - min left c)) = nat_div_ceil (left - min left c) c"
      using 1 [OF False refl] unfolding actions_eq c_def [symmetric] by blast+
    have "0 < min left c \<and> min left c \<le> c \<and> min left c + (left - min left c) = left" using False c by simp
    then show ?thesis unfolding c_def [symmetric] l r using ih by simp
  qed
qed

lemma solve_small:
  assumes "0 < limit" "limit < 16"
  shows "packing limit n m (replicate n (1, 0) @ transfer_rounds limit m)"
    "packing limit n m rs \<Longrightarrow> length (replicate n (1, 0) @ transfer_rounds limit m) \<le> length rs"
proof -
  let ?c = "max (limit div 3) 1"
  have c: "0 < ?c" by (simp add: max_def)
  have room: "t \<le> ?c \<longleftrightarrow> t * 3 \<le> limit \<or> t \<le> 1" for t
    by (simp add: less_eq_div_iff_mult_less_eq le_max_iff_disj)
  have "round_ok limit q" if "q \<in> set (transfer_rounds limit m)" for q
  proof -
    have "fst q = 0" "0 < snd q" "snd q \<le> ?c" using transfer_rounds_ok [of limit m] that by blast+
    then have "fst q = 0" "0 < snd q" "snd q * 3 \<le> limit \<or> snd q \<le> 1" using room by blast+
    then show ?thesis unfolding round_ok_def by (simp add: le_less less_Suc_eq)
  qed
  moreover have "round_ok limit (1, 0)" by (simp add: round_ok_def)
  ultimately show "packing limit n m (replicate n (1, 0) @ transfer_rounds limit m)"
    using transfer_rounds_ok [of limit m] by (auto simp: packing_def sum_list_replicate)
  assume p: "packing limit n m rs"
  have "(\<forall>q\<in>set rs. round_ok limit q) \<Longrightarrow> sum_list (map snd rs) \<le> (length rs - sum_list (map fst rs)) * ?c \<and>
      sum_list (map fst rs) \<le> length rs"
  proof (induction rs)
    case (Cons q rs)
    then have ih: "sum_list (map snd rs) \<le> (length rs - sum_list (map fst rs)) * ?c" "sum_list (map fst rs) \<le> length rs"
      and q: "round_ok limit q" by simp_all
    show ?case
    proof (cases "fst q")
      case 0
      then have "snd q \<le> ?c" using q room [of "snd q"] by (auto simp: round_ok_def)
      then show ?thesis using 0 ih by (simp add: Suc_diff_le)
    next
      case (Suc k)
      then have "fst q = 1" "snd q = 0" using q assms(2) by (auto simp: round_ok_def)
      then show ?thesis using ih by simp
    qed
  qed simp
  then have "m \<le> (length rs - n) * ?c" "n \<le> length rs" using p by (auto simp: packing_def)
  then have "nat_div_ceil m ?c \<le> length rs - n" "n \<le> length rs" using nat_div_ceil_le_iff [OF c] by auto
  then show "length (replicate n (1, 0) @ transfer_rounds limit m) \<le> length rs"
    using transfer_rounds_ok [of limit m] by simp
qed

lemma solve_large:
  assumes "16 \<le> unat budget" "0 < n \<or> 0 < m"
  obtains rs where "solve_two_size n m budget = Some rs" "packing (unat budget) n m rs"
    "\<And>rs'. packing (unat budget) n m rs' \<Longrightarrow> length rs \<le> length rs'"
proof -
  let ?l = "unat budget" let ?room = "round_capacity (unat budget)" let ?mp = "unat budget div 16"
  define lower where "lower = max (max (nat_div_ceil n ?mp) (nat_div_ceil (unat (total_actions n m)) ?l)) 1"
  define upper where "upper = n + nat_div_ceil m (max (?room 0) 1) + 1"
  let ?best = "\<lambda>r. best_prep_distribution n ?mp ?room r m"
  have solve: "solve_two_size n m budget = map_option (\<lambda>ks. filter (\<lambda>(p, t). 0 < p + t) (fill_transfers ?room ks m))
      (find_map ?best [lower..<Suc upper])"
  proof -
    have "(n = 0 \<and> m = 0) = False" "(?l < 16) = False" using assms by auto
    then show ?thesis unfolding solve_two_size_def Let_def actions_eq lower_def upper_def by (simp only: if_False)
  qed
  have low: "lower \<le> length rs'" if "packing ?l n m rs'" for rs'
    unfolding lower_def by (rule packing_lower [OF assms(1) that assms(2)])
  have some: "\<exists>ks. ?best (length rs') = Some ks" if "packing ?l n m rs'" for rs'
    using packing_spread [OF assms(1) that] best_prep_None [of n ?mp ?room "length rs'" m "map fst rs'"]
    by (cases "?best (length rs')") auto
  obtain us where us: "spread ?mp upper n us" "m \<le> sum_list (map ?room us)"
    using packing_upper [OF assms(1), of n m] unfolding upper_def by blast
  then have "?best upper \<noteq> None" using best_prep_None [of n ?mp ?room upper m us] by auto
  moreover have "lower \<le> upper"
  proof -
    have "length (fill_transfers ?room us m) = upper" using us(1) by (simp add: spread_def length_fill)
    then show ?thesis using le_trans [OF low [OF spread_packing [OF assms(1) us]] length_filter_le] by simp
  qed
  ultimately obtain ks where ks: "find_map ?best [lower..<Suc upper] = Some ks"
    using find_map_None [of ?best "[lower..<Suc upper]"] by (cases "find_map ?best [lower..<Suc upper]") auto
  from find_map_first [OF this] obtain i where i: "i < length [lower..<Suc upper]" "?best ([lower..<Suc upper] ! i) = Some ks"
    "\<forall>j<i. ?best ([lower..<Suc upper] ! j) = None" by blast
  then have at: "[lower..<Suc upper] ! j = lower + j" if "j \<le> i" for j using that by (simp del: upt_Suc)
  then have b: "?best (lower + i) = Some ks" using i(2) by (metis order_refl)
  note bs = best_prep_Some [OF b]
  let ?rs = "filter (\<lambda>(p, t). 0 < p + t) (fill_transfers ?room ks m)"
  have len: "length ?rs \<le> lower + i"
    by (rule order_trans [OF length_filter_le]) (use bs in \<open>simp add: spread_def length_fill\<close>)
  have "length ?rs \<le> length rs'" if p: "packing ?l n m rs'" for rs'
  proof (rule ccontr)
    assume "\<not> ?thesis"
    then have "length rs' < lower + i" using len by simp
    then obtain j where j: "length rs' = lower + j" "j < i" using low [OF p] by (auto simp: le_iff_add)
    then have "?best (length rs') = None" using i(3) at [of j] by auto
    then show False using some [OF p] by simp
  qed
  moreover have "packing ?l n m ?rs" using spread_packing [OF assms(1)] bs by blast
  ultimately show ?thesis using solve ks by (intro that [of ?rs]) simp_all
qed

lemma solve_exact:
  assumes "budget \<noteq> 0"
  obtains rs where "solve_two_size n m budget = Some rs" "packing (unat budget) n m rs"
    "\<And>rs'. packing (unat budget) n m rs' \<Longrightarrow> length rs \<le> length rs'"
proof -
  have "0 < unat budget" using assms by (simp add: unat_gt_0)
  consider "n = 0" "m = 0" | "0 < n \<or> 0 < m" "unat budget < 16" | "0 < n \<or> 0 < m" "16 \<le> unat budget" by linarith
  then show ?thesis
  proof cases
    case 1
    then show ?thesis by (intro that [of "[]"]) (simp_all add: solve_two_size_def packing_def)
  next
    case 2
    then have "solve_two_size n m budget = Some (replicate n (1, 0) @ transfer_rounds (unat budget) m)"
      by (auto simp: solve_two_size_def Let_def)
    then show ?thesis using solve_small [OF \<open>0 < unat budget\<close> 2(2), of n m] that by blast
  next
    case 3
    from solve_large [OF 3(2,1)] that show ?thesis by metis
  qed
qed

section \<open>The inverse queries\<close>

lemma min_signing_rounds_exact:
  assumes "budget \<noteq> 0"
  obtains r rs where "min_signing_rounds n m budget = Some r" "packing (unat budget) n m rs" "length rs = r"
    "\<And>rs'. packing (unat budget) n m rs' \<Longrightarrow> r \<le> length rs'"
  by (rule solve_exact [OF assms, of n m]) (rule that, auto simp: min_signing_rounds_def)

lemma packing_mono: "packing l n m rs \<Longrightarrow> l \<le> l' \<Longrightarrow> packing l' n m rs"
  unfolding packing_def round_ok_def by (meson le_trans)

lemma signing_rounds_mono:
  assumes "b \<noteq> 0" "b \<le> b'" "min_signing_rounds n m b = Some r" "min_signing_rounds n m b' = Some r'"
  shows "r' \<le> r"
proof -
  have "0 < unat b" using assms(1) by (simp add: unat_gt_0)
  then have "b' \<noteq> 0" using assms(2) by (auto simp: word_le_nat_alt)
  obtain x rs where rs: "min_signing_rounds n m b = Some x" "packing (unat b) n m rs" "length rs = x"
    by (rule min_signing_rounds_exact [OF assms(1), of n m]) metis
  obtain y where "min_signing_rounds n m b' = Some y" "\<And>rs'. packing (unat b') n m rs' \<Longrightarrow> y \<le> length rs'"
    by (rule min_signing_rounds_exact [OF \<open>b' \<noteq> 0\<close>, of n m]) metis
  moreover have "packing (unat b') n m rs" using packing_mono [OF rs(2)] assms(2) by (simp add: word_le_nat_alt)
  ultimately have "y \<le> length rs" "min_signing_rounds n m b' = Some y" by blast+
  then show ?thesis using rs(1,3) assms(3,4) by simp
qed

lemma budget_search_ok:
  assumes "lo \<noteq> 0" "lo \<le> hi" "\<exists>r. min_signing_rounds n m hi = Some r \<and> r \<le> k"
    and "\<forall>b r. lo' \<le> b \<and> b < lo \<and> min_signing_rounds n m b = Some r \<longrightarrow> \<not> r \<le> k"
  shows "\<exists>b. budget_search n m k lo hi = Some b \<and> lo \<le> b \<and> b \<le> hi \<and> (\<exists>r. min_signing_rounds n m b = Some r \<and> r \<le> k) \<and>
    (\<forall>b' r. lo' \<le> b' \<and> b' < b \<and> min_signing_rounds n m b' = Some r \<longrightarrow> \<not> r \<le> k)"
  using assms
proof (induction n m k lo hi rule: budget_search.induct)
  case (1 n m k lo hi)
  show ?case
  proof (cases "lo < hi")
    case False
    then have "lo = hi" using 1(4) by simp
    then show ?thesis using 1(5,6) by (subst budget_search.simps) simp
  next
    case True
    define mid where "mid = lo + (hi - lo) div 2"
    have mid: "lo \<le> mid" "mid < hi" "lo < mid + 1" "mid + 1 \<le> hi" "unat (mid + 1) = unat mid + 1"
      using midpoint [OF True] True unfolding mid_def word_le_nat_alt word_less_nat_alt by auto
    then have "mid \<noteq> 0" using 1(3) by auto
    then obtain r where r: "min_signing_rounds n m mid = Some r"
      by (rule min_signing_rounds_exact [of mid n m]) metis
    have step: "budget_search n m k lo hi = (if r \<le> k then budget_search n m k lo mid else budget_search n m k (mid + 1) hi)"
      using True r by (subst budget_search.simps) (simp add: mid_def [symmetric] Let_def)
    show ?thesis
    proof (cases "r \<le> k")
      case le: True
      have "\<exists>b. budget_search n m k lo mid = Some b \<and> lo \<le> b \<and> b \<le> mid \<and> (\<exists>r. min_signing_rounds n m b = Some r \<and> r \<le> k) \<and>
          (\<forall>b' r. lo' \<le> b' \<and> b' < b \<and> min_signing_rounds n m b' = Some r \<longrightarrow> \<not> r \<le> k)"
        by (rule 1(1) [OF True mid_def r le]) (use 1(3,6) mid(1) r le in auto)
      then show ?thesis using le step mid(2) by (auto dest: le_less_trans)
    next
      case gt: False
      have below: "\<not> r' \<le> k" if "b < mid + 1" "lo' \<le> b" "min_signing_rounds n m b = Some r'" for b r'
      proof (cases "b < lo")
        case True
        then show ?thesis using 1(6) that by blast
      next
        case False
        have "0 < unat lo" using 1(3) by (simp add: unat_gt_0)
        then have "b \<noteq> 0" "b \<le> mid" using False that(1) mid(5) by (auto simp: word_less_nat_alt word_le_nat_alt)
        from signing_rounds_mono [OF this that(3) r] gt show ?thesis by simp
      qed
      have "\<exists>b. budget_search n m k (mid + 1) hi = Some b \<and> mid + 1 \<le> b \<and> b \<le> hi \<and> (\<exists>r. min_signing_rounds n m b = Some r \<and> r \<le> k) \<and>
          (\<forall>b' r. lo' \<le> b' \<and> b' < b \<and> min_signing_rounds n m b' = Some r \<longrightarrow> \<not> r \<le> k)"
        by (rule 1(2) [OF True mid_def r gt]) (use 1(5) mid below in auto)
      then show ?thesis using gt step mid(3) by (auto dest: less_le_trans)
    qed
  qed
qed

text \<open>
  C22. The budget found for \<open>k\<close> rounds is the least one no smaller than a preparation with which the
  transactions are signed in \<open>k\<close> rounds, as long as their actions fit in 32 bits.
\<close>

theorem min_budget_least:
  assumes "0 < k" "n * PREPARATION_ACTIONS + m * TRANSFER_ACTIONS < 2 ^ 32"
  shows "\<exists>b. min_budget_for_rounds n m k = Some b \<and> minimum_feasible \<le> b \<and>
    (\<exists>r. min_signing_rounds n m b = Some r \<and> r \<le> k) \<and>
    (\<forall>b' r. minimum_feasible \<le> b' \<and> b' < b \<and> min_signing_rounds n m b' = Some r \<longrightarrow> k < r)"
proof -
  let ?hi = "max (total_actions n m) minimum_feasible"
  have f: "minimum_feasible = 16" by (simp add: minimum_feasible_def)
  have "0 < unat ?hi" unfolding f by (simp add: max_def word_le_nat_alt)
  then have hi: "?hi \<noteq> 0" by (simp add: unat_gt_0)
  obtain r where r: "min_signing_rounds n m ?hi = Some r" "\<And>rs. packing (unat ?hi) n m rs \<Longrightarrow> r \<le> length rs"
    by (rule min_signing_rounds_exact [OF hi, of n m]) metis
  have "n * 16 + m * 3 \<le> unat ?hi"
    using assms(2) total_actions_unat [of n m] by (simp add: max_def word_le_nat_alt)
  then have "packing (unat ?hi) n m (if 0 < n + m then [(n, m)] else [])" by (simp add: packing_def round_ok_def)
  from r(2) [OF this] have "r \<le> k" using assms(1) by (simp split: if_splits)
  with r(1) have "\<exists>b. budget_search n m k minimum_feasible ?hi = Some b \<and> minimum_feasible \<le> b \<and> b \<le> ?hi \<and>
    (\<exists>r. min_signing_rounds n m b = Some r \<and> r \<le> k) \<and>
    (\<forall>b' r. minimum_feasible \<le> b' \<and> b' < b \<and> min_signing_rounds n m b' = Some r \<longrightarrow> \<not> r \<le> k)"
    by (intro budget_search_ok) (auto simp: f dest: leD)
  then show ?thesis by (auto simp: min_budget_for_rounds_def Let_def not_le)
qed

lemma size_search_ok:
  assumes "\<forall>n. \<exists>f. accepts n = Some f" "1 \<le> lo" "lo \<le> best + 1" "best = 1 \<or> 1 \<le> best \<and> accepts best = Some True"
  shows "\<exists>c. size_search accepts lo hi best = Some c \<and> (c = 1 \<or> 1 \<le> c \<and> accepts c = Some True) \<and> c \<le> max best hi \<and>
    ((\<forall>a b. 1 \<le> a \<and> a \<le> b \<and> b \<le> hi \<and> accepts b = Some True \<longrightarrow> accepts a = Some True) \<longrightarrow>
     (\<forall>n. n \<le> hi \<and> accepts n = Some True \<longrightarrow> n \<le> c))"
  using assms
proof (induction accepts lo hi best rule: size_search.induct)
  case (1 accepts lo hi best)
  show ?case
  proof (cases "hi < lo")
    case True
    then show ?thesis using 1(5,6) by (subst size_search.simps) auto
  next
    case False
    define mid where "mid = lo + (hi - lo) div 2"
    have mid: "lo \<le> mid" "mid \<le> hi" "mid \<noteq> 0" using False 1(4) by (auto simp: mid_def)
    obtain f where f: "accepts mid = Some f" using 1(3) by blast
    have step: "size_search accepts lo hi best =
        (if f then size_search accepts (mid + 1) hi mid else size_search accepts lo (mid - 1) best)"
      using False f mid(3) by (subst size_search.simps) (simp add: mid_def [symmetric] Let_def)
    show ?thesis
    proof (cases f)
      case True
      note ih = 1(1) [OF False mid_def mid(3) f True 1(3)]
      obtain c where c: "size_search accepts (mid + 1) hi mid = Some c" "c = 1 \<or> 1 \<le> c \<and> accepts c = Some True" "c \<le> max mid hi"
        "(\<forall>a b. 1 \<le> a \<and> a \<le> b \<and> b \<le> hi \<and> accepts b = Some True \<longrightarrow> accepts a = Some True) \<longrightarrow>
           (\<forall>n. n \<le> hi \<and> accepts n = Some True \<longrightarrow> n \<le> c)"
        using ih mid f True by auto
      have "c \<le> max best hi" using c(3) mid(2) by simp
      with c show ?thesis unfolding step using True by simp
    next
      case no: False
      note ih = 1(2) [OF False mid_def mid(3) f no 1(3-6)]
      obtain c where c: "size_search accepts lo (mid - 1) best = Some c" "c = 1 \<or> 1 \<le> c \<and> accepts c = Some True" "c \<le> max best (mid - 1)"
        "(\<forall>a b. 1 \<le> a \<and> a \<le> b \<and> b \<le> mid - 1 \<and> accepts b = Some True \<longrightarrow> accepts a = Some True) \<longrightarrow>
           (\<forall>n. n \<le> mid - 1 \<and> accepts n = Some True \<longrightarrow> n \<le> c)"
        using ih by blast
      have "c \<le> max best hi" using c(3) mid(2) by simp
      moreover have "\<forall>n. n \<le> hi \<and> accepts n = Some True \<longrightarrow> n \<le> c"
        if mono: "\<forall>a b. 1 \<le> a \<and> a \<le> b \<and> b \<le> hi \<and> accepts b = Some True \<longrightarrow> accepts a = Some True"
      proof (intro allI impI)
        fix n assume n: "n \<le> hi \<and> accepts n = Some True"
        have "n < mid"
        proof (rule ccontr)
          assume "\<not> n < mid"
          then have "accepts mid = Some True" using mono [rule_format, of mid n] n mid by auto
          then show False using f no by simp
        qed
        moreover have "\<forall>a b. 1 \<le> a \<and> a \<le> b \<and> b \<le> mid - 1 \<and> accepts b = Some True \<longrightarrow> accepts a = Some True"
          using mono mid(2) by (meson diff_le_self le_trans)
        ultimately show "n \<le> c" using c(4) n by auto
      qed
      ultimately show ?thesis unfolding step using no c(1,2) by simp
    qed
  qed
qed

definition run_signable :: "RunSigningCapacity \<Rightarrow> (nat \<Rightarrow> RunShape option) \<Rightarrow> nat \<Rightarrow> bool" where
  "run_signable capacity shape_at n \<longleftrightarrow>
     (\<exists>shape r. shape_at n = Some shape \<and> shape_signing_rounds shape (capacity_budget capacity) = Some r \<and>
       r \<le> max_rounds capacity)"

lemma run_fits_eq:
  assumes "capacity_budget capacity \<noteq> 0"
  shows "run_fits capacity (\<lambda>n. Some (shape_at n)) n = Some (run_signable capacity shape_at n)"
proof (cases "shape_at n")
  case (Some shape)
  obtain r where "shape_signing_rounds shape (capacity_budget capacity) = Some r"
    unfolding shape_signing_rounds_def by (rule min_signing_rounds_exact [OF assms]) blast
  then show ?thesis using Some by (simp add: run_fits_def run_signable_def)
qed (simp add: run_fits_def run_signable_def)

lemma largest_run_aux:
  assumes "capacity_budget capacity \<noteq> 0" "1 \<le> max_notes capacity"
  shows "\<exists>c. largest_run_size_within capacity (\<lambda>n. Some (shape_at n)) = Some c \<and> 1 \<le> c \<and> c \<le> max_notes capacity \<and>
    (c = 1 \<or> run_signable capacity shape_at c) \<and>
    ((\<forall>a b. 1 \<le> a \<and> a \<le> b \<and> b \<le> max_notes capacity \<and> run_signable capacity shape_at b \<longrightarrow>
        run_signable capacity shape_at a) \<longrightarrow>
     (\<forall>n. n \<le> max_notes capacity \<and> run_signable capacity shape_at n \<longrightarrow> n \<le> c))"
proof (cases "run_signable capacity shape_at (max_notes capacity)")
  case True
  then show ?thesis using assms(2)
    by (intro exI [of _ "max_notes capacity"]) (simp add: largest_run_size_within_def run_fits_eq [OF assms(1)])
next
  case False
  let ?f = "run_fits capacity (\<lambda>n. Some (shape_at n))" let ?n = "max_notes capacity"
  have f: "?f n = Some True \<longleftrightarrow> run_signable capacity shape_at n" for n by (simp add: run_fits_eq [OF assms(1)])
  have all: "\<forall>n. \<exists>b. ?f n = Some b" using run_fits_eq [OF assms(1)] by blast
  from size_search_ok [OF all, of 1 1 "?n - 1"] obtain c where c: "size_search ?f 1 (?n - 1) 1 = Some c"
    "c = 1 \<or> 1 \<le> c \<and> run_signable capacity shape_at c" "c \<le> max 1 (?n - 1)"
    "(\<forall>a b. 1 \<le> a \<and> a \<le> b \<and> b \<le> ?n - 1 \<and> run_signable capacity shape_at b \<longrightarrow> run_signable capacity shape_at a) \<longrightarrow>
       (\<forall>n. n \<le> ?n - 1 \<and> run_signable capacity shape_at n \<longrightarrow> n \<le> c)"
    unfolding f by auto
  have "largest_run_size_within capacity (\<lambda>n. Some (shape_at n)) = Some c"
    using c(1) False by (simp add: largest_run_size_within_def run_fits_eq [OF assms(1)])
  moreover have "n \<le> ?n - 1" if "n \<le> ?n" "run_signable capacity shape_at n" for n
    using that False by (cases "n = ?n") auto
  moreover have "\<forall>n. n \<le> ?n \<and> run_signable capacity shape_at n \<longrightarrow> n \<le> c"
    if "\<forall>a b. 1 \<le> a \<and> a \<le> b \<and> b \<le> ?n \<and> run_signable capacity shape_at b \<longrightarrow> run_signable capacity shape_at a"
  proof -
    have "\<forall>a b. 1 \<le> a \<and> a \<le> b \<and> b \<le> ?n - 1 \<and> run_signable capacity shape_at b \<longrightarrow> run_signable capacity shape_at a"
      using that by (meson diff_le_self le_trans)
    with c(4) calculation(2) show ?thesis by blast
  qed
  moreover have "1 \<le> c" "c \<le> ?n" "c = 1 \<or> run_signable capacity shape_at c" using c(2,3) assms(2) by auto
  ultimately show ?thesis by (intro exI [of _ c]) blast
qed

text \<open>
  C21. The cap found is one whose run the signer can sign, or one; and it is the largest such cap up to
  the ceiling, if a smaller cap never needs more.
\<close>

theorem largest_run_largest:
  assumes "capacity_budget capacity \<noteq> 0" "1 \<le> max_notes capacity"
  shows "\<exists>c. largest_run_size_within capacity (\<lambda>n. Some (shape_at n)) = Some c \<and> 1 \<le> c \<and> c \<le> max_notes capacity \<and>
    (c = 1 \<or> run_signable capacity shape_at c) \<and>
    ((\<forall>a b. 1 \<le> a \<and> a \<le> b \<and> b \<le> max_notes capacity \<and> run_signable capacity shape_at b \<longrightarrow>
        run_signable capacity shape_at a) \<longrightarrow>
     (\<forall>n. n \<le> max_notes capacity \<and> run_signable capacity shape_at n \<longrightarrow> n \<le> c))"
  by (rule largest_run_aux [OF assms])

section \<open>Rounds of transactions\<close>

definition within_budget :: "SigningRoundBudget \<Rightarrow> PlannedTx list \<Rightarrow> bool" where
  "within_budget budget ts \<longleftrightarrow> ts \<noteq> [] \<and> (length ts = 1 \<or> (\<Sum>t\<leftarrow>ts. unat (actions t)) \<le> unat budget)"

definition canonical :: "PlannedTx list \<Rightarrow> bool" where
  "canonical ts \<longleftrightarrow> (\<forall>t\<in>set ts. actions t = action_weight (pl_kind t))"

lemma unat_weight: "unat (action_weight k) = (if kind_is_preparation k then 16 else 3)"
  by (cases k) simp_all

definition counts :: "PlannedTx list \<Rightarrow> nat \<times> nat" where
  "counts ts = (length (filter pl_is_preparation ts), length (filter pl_is_transfer ts))"

lemma counts_total:
  "canonical ts \<Longrightarrow> (\<Sum>t\<leftarrow>ts. unat (actions t)) = fst (counts ts) * 16 + snd (counts ts) * 3 \<and>
   length ts = fst (counts ts) + snd (counts ts)"
  by (induction ts) (auto simp: canonical_def counts_def pl_is_preparation_def pl_is_transfer_def unat_weight)

lemma counts_within: "canonical ts \<Longrightarrow> within_budget budget ts \<longleftrightarrow> round_ok (unat budget) (counts ts)"
  using counts_total [of ts] unfolding within_budget_def round_ok_def length_greater_0_conv [symmetric] by auto

lemma counts_concat: "sum_list (map (fst \<circ> counts) bs) = length (filter pl_is_preparation (concat bs))"
  "sum_list (map (snd \<circ> counts) bs) = length (filter pl_is_transfer (concat bs))"
  by (induction bs) (simp_all add: counts_def)

lemma length_filter_mset: "mset xs = mset ys \<Longrightarrow> length (filter P xs) = length (filter P ys)"
  by (metis mset_filter size_mset)

lemma groups_packing:
  assumes "canonical ts" "mset (concat bs) = mset ts" "\<forall>b\<in>set bs. within_budget budget b"
  shows "packing (unat budget) (fst (counts ts)) (snd (counts ts)) (map counts bs)"
proof -
  have "set (concat bs) = set ts" using assms(2) by (metis set_mset_mset)
  then have "\<forall>b\<in>set bs. canonical b" using assms(1) by (auto simp: canonical_def)
  then have "\<forall>b\<in>set bs. round_ok (unat budget) (counts b)" using assms(3) counts_within by blast
  moreover have "sum_list (map (fst \<circ> counts) bs) = fst (counts ts)" "sum_list (map (snd \<circ> counts) bs) = snd (counts ts)"
    using length_filter_mset [OF assms(2)] unfolding counts_concat by (simp_all add: counts_def)
  ultimately show ?thesis by (simp add: packing_def)
qed

lemma take_quotas_ok:
  assumes "sum_list (map fst qs) = length P" "sum_list (map snd qs) = length X"
    "\<forall>t\<in>set P. pl_is_preparation t" "\<forall>t\<in>set X. pl_is_transfer t"
  shows "mset (concat (map round_txs (take_quotas qs P X))) = mset P + mset X \<and>
    map (\<lambda>r. counts (round_txs r)) (take_quotas qs P X) = qs \<and>
    (\<forall>r\<in>set (take_quotas qs P X). r = planned_round_new (round_txs r))"
  using assms
proof (induction qs arbitrary: P X)
  case (Cons q qs)
  let ?P = "take (fst q) P" and ?X = "take (snd q) X"
  have ih: "mset (concat (map round_txs (take_quotas qs (drop (fst q) P) (drop (snd q) X)))) =
        mset (drop (fst q) P) + mset (drop (snd q) X) \<and>
      map (\<lambda>r. counts (round_txs r)) (take_quotas qs (drop (fst q) P) (drop (snd q) X)) = qs \<and>
      (\<forall>r\<in>set (take_quotas qs (drop (fst q) P) (drop (snd q) X)). r = planned_round_new (round_txs r))"
    by (rule Cons.IH) (use Cons.prems in \<open>auto dest: in_set_dropD\<close>)
  have p: "\<forall>t\<in>set ?P. pl_is_preparation t" "\<forall>t\<in>set ?X. pl_is_transfer t"
    using Cons.prems(3,4) by (auto dest: in_set_takeD)
  have n: "\<forall>t\<in>set ?P. \<not> pl_is_transfer t" "\<forall>t\<in>set ?X. \<not> pl_is_preparation t"
    using p by (auto simp: pl_is_preparation_def pl_is_transfer_def)
  have l: "length ?P = fst q" "length ?X = snd q" using Cons.prems(1,2) by auto
  have "counts (?P @ ?X) = q"
    using p n l by (simp add: counts_def filter_empty_conv [THEN iffD2] filter_id_conv [THEN iffD2] prod_eq_iff)
  moreover have "mset P = mset ?P + mset (drop (fst q) P)" "mset X = mset ?X + mset (drop (snd q) X)"
    by (metis append_take_drop_id mset_append)+
  ultimately show ?case using ih by (simp add: planned_round_new_def)
qed (use assms in simp)

lemma unat_sum_list: "(\<Sum>w\<leftarrow>ws. unat w) < 2 ^ 32 \<Longrightarrow> unat (sum_list (ws :: u32 list)) = (\<Sum>w\<leftarrow>ws. unat w)"
  by (induction ws) (simp_all add: unat_word_ariths)

lemma round_actions_exact:
  assumes "within_budget budget (round_txs r)" "r = planned_round_new (round_txs r)"
  shows "unat (round_actions r) = (\<Sum>t\<leftarrow>round_txs r. unat (actions t))"
proof -
  have "(\<Sum>t\<leftarrow>round_txs r. unat (actions t)) < 2 ^ 32"
  proof (cases "length (round_txs r) = 1")
    case True
    then obtain t where "round_txs r = [t]" by (auto simp: length_Suc_conv)
    then show ?thesis using unsigned_less [of "actions t", where ?'a = nat] by simp
  next
    case False
    then show ?thesis using assms(1) unsigned_less [of budget, where ?'a = nat] by (simp add: within_budget_def)
  qed
  then have "unat (sum_list (map actions (round_txs r))) = (\<Sum>t\<leftarrow>round_txs r. unat (actions t))"
    using unat_sum_list [of "map actions (round_txs r)"] by (simp add: comp_def)
  then show ?thesis by (subst assms(2)) (simp add: planned_round_new_def)
qed

lemma min_rounds_optimal_aux:
  assumes "budget \<noteq> 0" "\<forall>t\<in>set ts. actions t = action_weight (pl_kind t)"
  shows "\<exists>rounds. min_rounds_pack ts budget = Some rounds \<and>
    mset (concat (map round_txs rounds)) = mset ts \<and>
    (\<forall>r\<in>set rounds. within_budget budget (round_txs r) \<and>
       unat (round_actions r) = (\<Sum>t\<leftarrow>round_txs r. unat (actions t))) \<and>
    min_signing_rounds (length (filter pl_is_preparation ts)) (length (filter pl_is_transfer ts)) budget =
      Some (length rounds) \<and>
    (\<forall>bs. mset (concat bs) = mset ts \<and> (\<forall>b\<in>set bs. within_budget budget b) \<longrightarrow> length rounds \<le> length bs)"
proof -
  let ?P = "filter pl_is_preparation ts" and ?X = "filter pl_is_transfer ts"
  have c: "canonical ts" using assms(2) by (simp add: canonical_def)
  obtain qs where qs: "solve_two_size (length ?P) (length ?X) budget = Some qs"
    "packing (unat budget) (length ?P) (length ?X) qs"
    "\<And>rs. packing (unat budget) (length ?P) (length ?X) rs \<Longrightarrow> length qs \<le> length rs"
    by (rule solve_exact [OF assms(1), of "length ?P" "length ?X"]) metis
  define rounds where "rounds = take_quotas qs ?P ?X"
  have "sum_list (map fst qs) = length ?P" "sum_list (map snd qs) = length ?X" using qs(2) by (simp_all add: packing_def)
  from take_quotas_ok [OF this] have q: "mset (concat (map round_txs rounds)) = mset ?P + mset ?X"
    "map (\<lambda>r. counts (round_txs r)) rounds = qs" "\<forall>r\<in>set rounds. r = planned_round_new (round_txs r)"
    unfolding rounds_def by simp_all
  have all: "mset (concat (map round_txs rounds)) = mset ts"
    unfolding q(1) by (induction ts) (simp_all add: pl_is_preparation_def pl_is_transfer_def)
  have "set (concat (map round_txs rounds)) = set ts" using all by (metis set_mset_mset)
  then have "\<forall>r\<in>set rounds. canonical (round_txs r)" using c by (auto simp: canonical_def)
  moreover have "\<forall>r\<in>set rounds. round_ok (unat budget) (counts (round_txs r))"
    using qs(2) unfolding packing_def q(2) [symmetric] by auto
  ultimately have w: "\<forall>r\<in>set rounds. within_budget budget (round_txs r)" using counts_within by blast
  have "length rounds \<le> length bs" if "mset (concat bs) = mset ts" "\<forall>b\<in>set bs. within_budget budget b" for bs
    using qs(3) [of "map counts bs"] groups_packing [OF c that] arg_cong [OF q(2), of length] by (simp add: counts_def)
  moreover have "min_rounds_pack ts budget = Some rounds"
    using qs(1) by (simp add: min_rounds_pack_def Let_def rounds_def)
  moreover have "min_signing_rounds (length ?P) (length ?X) budget = Some (length rounds)"
    using qs(1) arg_cong [OF q(2), of length] by (simp add: min_signing_rounds_def)
  ultimately show ?thesis using all w q(3) round_actions_exact by (intro exI [of _ rounds]) blast
qed

text \<open>
  C20. \<open>MinRounds\<close> returns a grouping of exactly the given transactions, whatever their order: no round is
  empty or above the budget, unless it is a single transaction; no such grouping has fewer rounds; and
  the round count computed without the transactions is its length.
\<close>

theorem min_rounds_optimal:
  assumes "budget \<noteq> 0" "\<forall>t\<in>set ts. actions t = action_weight (pl_kind t)"
  shows "\<exists>rounds. min_rounds_pack ts budget = Some rounds \<and>
    mset (concat (map round_txs rounds)) = mset ts \<and>
    (\<forall>r\<in>set rounds. within_budget budget (round_txs r) \<and>
       unat (round_actions r) = (\<Sum>t\<leftarrow>round_txs r. unat (actions t))) \<and>
    min_signing_rounds (length (filter pl_is_preparation ts)) (length (filter pl_is_transfer ts)) budget =
      Some (length rounds) \<and>
    (\<forall>bs. mset (concat bs) = mset ts \<and> (\<forall>b\<in>set bs. within_budget budget b) \<longrightarrow> length rounds \<le> length bs)"
  using min_rounds_optimal_aux [OF assms] .

section \<open>The greedy\<close>

definition next_fit_inv :: "u32 \<Rightarrow> PlannedTx list \<Rightarrow> PlannedSigningRound list \<times> PlannedTx list \<times> u32 \<Rightarrow> bool" where
  "next_fit_inv limit ts = (\<lambda>(rounds, current, acts).
     concat (map round_txs rounds) @ current = ts \<and>
     (\<forall>r\<in>set rounds. within_budget limit (round_txs r) \<and> r = planned_round_new (round_txs r)) \<and>
     (if current = [] then acts = 0 \<and> ts = []
      else within_budget limit current \<and> unat acts = (\<Sum>t\<leftarrow>current. unat (actions t))))"

lemma next_fit_inv_step:
  assumes "next_fit_inv limit ts (rounds, current, acts)" "limit \<noteq> - 1"
  shows "next_fit_inv limit (ts @ [t]) (next_fit_step limit (rounds, current, acts) t)"
proof -
  have first: "unat (word_saturating_add 0 (actions t)) = unat (actions t)"
    using unsigned_less [of "actions t", where ?'a = nat] by (simp add: unat_saturating_add)
  consider "current = []" | "current \<noteq> []" "limit < word_saturating_add acts (actions t)"
    | "current \<noteq> []" "word_saturating_add acts (actions t) \<le> limit" by fastforce
  then show ?thesis
  proof cases
    case 1
    then show ?thesis using assms first by (auto simp: next_fit_inv_def next_fit_step_def within_budget_def)
  next
    case 2
    then show ?thesis using assms first
      by (auto simp: next_fit_inv_def next_fit_step_def planned_round_new_def within_budget_def)
  next
    case 3
    have "unat limit \<noteq> unat (- 1 :: u32)" using assms(2) by (simp only: word_unat_eq_iff [symmetric] simp_thms)
    then have "unat limit < 2 ^ 32 - 1" using unsigned_less [of limit, where ?'a = nat] by (simp add: unat_minus_one)
    moreover have "min (unat acts + unat (actions t)) (2 ^ 32 - 1) \<le> unat limit"
      using 3(2) by (simp add: word_le_nat_alt unat_saturating_add)
    ultimately have "unat acts + unat (actions t) \<le> unat limit"
      "unat (word_saturating_add acts (actions t)) = unat acts + unat (actions t)"
      by (simp_all add: unat_saturating_add)
    then show ?thesis using assms 3 by (auto simp: next_fit_inv_def next_fit_step_def within_budget_def)
  qed
qed

lemma next_fit_inv_all:
  "limit \<noteq> - 1 \<Longrightarrow> next_fit_inv limit ts (foldl (next_fit_step limit) ([], [], 0) ts)"
proof (induction ts rule: rev_induct)
  case (snoc t ts)
  obtain rounds current acts where "foldl (next_fit_step limit) ([], [], 0) ts = (rounds, current, acts)" by (metis prod_cases3)
  with snoc next_fit_inv_step show ?case by simp
qed (simp add: next_fit_inv_def)

text \<open>The count without the transactions follows the same accumulator.\<close>

lemma next_fit_push_step:
  "case (foldl (next_fit_step limit) ([], [], 0) ts) of (rounds, current, acts) \<Rightarrow>
     foldl (next_fit_push limit) (0, 0, False) (map actions ts) = (length rounds, acts, current \<noteq> [])"
proof (induction ts rule: rev_induct)
  case (snoc t ts)
  obtain rounds current acts where "foldl (next_fit_step limit) ([], [], 0) ts = (rounds, current, acts)" by (metis prod_cases3)
  with snoc show ?case by (auto simp: next_fit_step_def next_fit_push_def)
qed simp

text \<open>
  \<open>NextFit\<close> cuts the transactions, in the order given, into rounds that are not empty and keep the
  budget unless they are a single transaction, for every budget but the largest \<open>u32\<close>, where the sum it
  saturates may not be seen to exceed it; and for the canonical order it counts its rounds correctly.
\<close>

theorem next_fit_valid:
  assumes "budget \<noteq> - 1"
  shows "concat (map round_txs (next_fit_pack ts budget)) = ts \<and>
    (\<forall>r\<in>set (next_fit_pack ts budget). within_budget budget (round_txs r) \<and>
       unat (round_actions r) = (\<Sum>t\<leftarrow>round_txs r. unat (actions t))) \<and>
    (map actions ts = replicate n (of_nat PREPARATION_ACTIONS) @ replicate m (of_nat TRANSFER_ACTIONS) \<longrightarrow>
       next_fit_round_count n m budget = length (next_fit_pack ts budget))"
proof -
  obtain rounds current acts where f: "foldl (next_fit_step budget) ([], [], 0) ts = (rounds, current, acts)" by (metis prod_cases3)
  have pack: "next_fit_pack ts budget = (if current \<noteq> [] then rounds @ [planned_round_new current] else rounds)"
    by (simp add: next_fit_pack_def f)
  have i: "next_fit_inv budget ts (rounds, current, acts)" using next_fit_inv_all [OF assms, of ts] by (simp only: f)
  then have "concat (map round_txs (next_fit_pack ts budget)) = ts"
    "\<forall>r\<in>set (next_fit_pack ts budget). within_budget budget (round_txs r) \<and> r = planned_round_new (round_txs r)"
    unfolding pack by (auto simp: next_fit_inv_def planned_round_new_def split: if_splits)
  moreover have "next_fit_round_count n m budget = length (next_fit_pack ts budget)"
    if "map actions ts = replicate n (of_nat PREPARATION_ACTIONS) @ replicate m (of_nat TRANSFER_ACTIONS)"
    using next_fit_push_step [of budget ts] unfolding f that foldl_append
    by (simp add: next_fit_round_count_def pack Let_def)
  ultimately show ?thesis using round_actions_exact by blast
qed

section \<open>Witnesses\<close>

definition sample_run :: "PlannedTx list" where
  "sample_run = map (\<lambda>i. planned_tx_new (of_nat i) (if i < 7 then Preparation 0 i else Transfer (i - 7)) [] (Some 1000)) [0..<9]"

lemma sample_run_canonical: "\<forall>t\<in>set sample_run. actions t = action_weight (pl_kind t)"
  by (auto simp: sample_run_def planned_tx_new_def)

theorem min_rounds_optimal_witness:
  "\<exists>rounds. min_rounds_pack sample_run BUDGET_KEYSTONE = Some rounds \<and> mset (concat (map round_txs rounds)) = mset sample_run \<and>
     min_signing_rounds (length (filter pl_is_preparation sample_run)) (length (filter pl_is_transfer sample_run)) BUDGET_KEYSTONE =
       Some (length rounds)"
proof -
  have "BUDGET_KEYSTONE \<noteq> 0" by (simp add: BUDGET_KEYSTONE_def)
  from min_rounds_optimal [OF this sample_run_canonical] show ?thesis by blast
qed

theorem next_fit_valid_witness:
  "concat (map round_txs (next_fit_pack sample_run BUDGET_KEYSTONE)) = sample_run \<and>
   next_fit_round_count 7 2 BUDGET_KEYSTONE = length (next_fit_pack sample_run BUDGET_KEYSTONE)"
proof -
  have "BUDGET_KEYSTONE \<noteq> - 1" by (simp add: BUDGET_KEYSTONE_def)
  moreover have "map actions sample_run = replicate 7 (of_nat PREPARATION_ACTIONS) @ replicate 2 (of_nat TRANSFER_ACTIONS)"
    by (simp add: sample_run_def planned_tx_new_def upt_rec numeral_eq_Suc)
  ultimately show ?thesis using next_fit_valid [of BUDGET_KEYSTONE sample_run 7 2] by blast
qed

theorem min_budget_least_witness:
  "\<exists>b r. min_budget_for_rounds 7 40 2 = Some b \<and> minimum_feasible \<le> b \<and> min_signing_rounds 7 40 b = Some r \<and> r \<le> 2"
  using min_budget_least [of 2 7 40] by auto

text \<open>A wallet whose runs of \<open>n\<close> notes take a preparation for every fourteen notes.\<close>

theorem largest_run_largest_witness:
  "\<exists>c. largest_run_size_within CAPACITY_KEYSTONE
      (\<lambda>n. Some (Some \<lparr>preparation_transactions = nat_div_ceil n 14, transfers = n\<rparr>)) = Some c \<and>
     1 \<le> c \<and> c \<le> 50"
proof -
  have c: "capacity_budget CAPACITY_KEYSTONE \<noteq> 0" "max_notes CAPACITY_KEYSTONE = 50"
    by (simp_all add: CAPACITY_KEYSTONE_def capacity_single_round_def BUDGET_KEYSTONE_def MIGRATION_MAX_PREPARED_NOTES_PER_RUN_def)
  then have "1 \<le> max_notes CAPACITY_KEYSTONE" by simp
  from largest_run_largest [OF c(1) this, of "\<lambda>n. Some \<lparr>preparation_transactions = nat_div_ceil n 14, transfers = n\<rparr>"] c(2)
  show ?thesis by auto
qed

end
