(* ===== verification/PlannedRuns.thy ===== *)
theory PlannedRuns
  imports MigrationPlanning LayeredSound SigningSound
begin

text \<open>
  The run a plan describes: the notes its preparation mints, in the order the commit makes them, which
  of them each transaction spends, and what each transaction waits on.
\<close>

section \<open>The notes a preparation mints\<close>

type_synonym note_at = "MintedAt \<times> Zatoshis"

fun mints :: "PrepOutput \<Rightarrow> Zatoshis option" where
  "mints (Funding v) = Some v"
| "mints (Intermediate v) = Some v"
| "mints (Change v) = None"

definition minted_outputs :: "nat \<Rightarrow> nat \<Rightarrow> nat \<Rightarrow> PrepOutput list \<Rightarrow> note_at list" where
  "minted_outputs l t n outs = List.map_filter (\<lambda>(k, out). map_option (\<lambda>v. ((l, t, k), v)) (mints out)) (enumerate n outs)"

text \<open>The transactions in the order of their identifiers, with their layer and place.\<close>

type_synonym placed = "nat \<times> nat \<times> PrepTransaction"

definition placed_txs :: "PrepTransaction list list \<Rightarrow> placed list" where
  "placed_txs ls = concat (map (\<lambda>(l, txs). map (\<lambda>(t, tx). (l, t, tx)) (enumerate 0 txs)) (enumerate 0 ls))"

definition minted_of :: "placed \<Rightarrow> note_at list" where
  "minted_of = (\<lambda>(l, t, tx). minted_outputs l t 0 (outputs tx))"

definition minted_list :: "placed list \<Rightarrow> note_at list" where
  "minted_list T = concat (map minted_of T)"

definition priors_of :: "placed \<Rightarrow> MintedAt list" where
  "priors_of = (\<lambda>(l, t, tx). concat (map prior_ref (inputs tx)))"

text \<open>A run in which every transaction spends notes minted before it, and each only once.\<close>

definition runnable :: "placed list \<Rightarrow> bool" where
  "runnable T \<longleftrightarrow> distinct (map fst (minted_list T)) \<and> distinct (concat (map priors_of T)) \<and>
     (\<forall>pre x post. T = pre @ x # post \<longrightarrow> set (priors_of x) \<subseteq> fst ` set (minted_list pre))"

lemma minted_list_append [simp]: "minted_list (S @ T) = minted_list S @ minted_list T"
  by (simp add: minted_list_def)

lemma minted_list_simps [simp]: "minted_list [] = []" "minted_list (x # T) = minted_of x @ minted_list T"
  by (simp_all add: minted_list_def)

section \<open>The index of the minted notes\<close>

definition indexes :: "(MintedAt \<rightharpoonup> MintedOrdinal) \<Rightarrow> note_at list \<Rightarrow> bool" where
  "indexes at_map L \<longleftrightarrow> (\<forall>r j. at_map r = Some j \<longleftrightarrow> j < length L \<and> fst (L ! j) = r)"

lemma indexesD: "indexes at_map L \<Longrightarrow> at_map r = Some j \<longleftrightarrow> j < length L \<and> fst (L ! j) = r"
  unfolding indexes_def by blast

lemma indexes_snoc:
  assumes "indexes at_map L" "r \<notin> fst ` set L"
  shows "indexes (at_map(r \<mapsto> length L)) (L @ [(r, v)])"
  unfolding indexes_def
proof (intro allI)
  fix s j
  have "fst (L ! j) \<noteq> r" if "j < length L" using assms(2) that by (metis image_eqI nth_mem)
  then show "(at_map(r \<mapsto> length L)) s = Some j \<longleftrightarrow> j < length (L @ [(r, v)]) \<and> fst ((L @ [(r, v)]) ! j) = s"
    using indexesD [OF assms(1), of s j] by (cases "j < length L") (auto simp: nth_append less_Suc_eq)
qed

lemma mint_outputs:
  assumes "indexes (minted_at w) L" "length (minted_notes w) = length L"
    "distinct (map fst (L @ minted_outputs l t n outs))"
  shows "\<exists>at_map. foldl (mint_output l t i) w (enumerate n outs) = w\<lparr>minted_at := at_map, minted_notes := minted_notes w @
      map (\<lambda>(r, v). \<lparr>note_value = v, note_producer = Some i, claimed = False\<rparr>) (minted_outputs l t n outs)\<rparr> \<and>
    indexes at_map (L @ minted_outputs l t n outs)"
  using assms
proof (induction outs arbitrary: n w L)
  case Nil
  then show ?case by (intro exI [of _ "minted_at w"]) (simp add: minted_outputs_def List.map_filter_simps)
next
  case (Cons out outs)
  show ?case
  proof (cases "mints out")
    case None
    then have "minted_outputs l t n (out # outs) = minted_outputs l t (Suc n) outs" "mint_output l t i w (n, out) = w"
      by (cases out; simp add: minted_outputs_def List.map_filter_simps)+
    with Cons show ?thesis by simp
  next
    case (Some v)
    let ?w = "mint_note l t i w (n, v)"
    have m: "minted_outputs l t n (out # outs) = ((l, t, n), v) # minted_outputs l t (Suc n) outs" "mint_output l t i w (n, out) = ?w"
      using Some by (cases out; simp add: minted_outputs_def List.map_filter_simps)+
    have "indexes (minted_at ?w) (L @ [((l, t, n), v)])"
      using indexes_snoc [OF Cons.prems(1), of "(l, t, n)" v] Cons.prems(2,3) by (simp add: mint_note_def m)
    from Cons.IH [OF this, of "Suc n"] Cons.prems(2,3) show ?thesis
      by (auto simp: m mint_note_def)
  qed
qed

section \<open>Claims of the notes an input names\<close>

lemma claim_note_simps [simp]:
  "length (claim_note minted i) = length minted"
  "j < length minted \<Longrightarrow> claim_note minted i ! j = (if j = i then (minted ! i)\<lparr>claimed := True\<rparr> else minted ! j)"
  by (simp_all add: claim_note_def nth_list_update)

lemma claim_feeders_ok:
  assumes "indexes at_map L" "length minted = length L" "distinct (concat (map prior_ref ins))"
    "\<forall>r\<in>set (concat (map prior_ref ins)). \<exists>j. at_map r = Some j \<and> \<not> claimed (minted ! j)"
  shows "\<exists>is minted'. claim_feeders at_map minted ins = (minted', map Some is) \<and> set is \<subseteq> {..<length L} \<and>
    map (\<lambda>j. fst (L ! j)) is = concat (map prior_ref ins) \<and> length minted' = length L \<and>
    (\<forall>j<length L. minted' ! j = (minted ! j)\<lparr>claimed := claimed (minted ! j) \<or> fst (L ! j) \<in> set (concat (map prior_ref ins))\<rparr>)"
  using assms(2-)
proof (induction ins arbitrary: minted)
  case Nil
  then show ?case by simp
next
  case (Cons inp ins)
  show ?case
  proof (cases inp)
    case (WalletNote i v)
    then show ?thesis using Cons by simp
  next
    case (PriorNote l t k v)
    let ?r = "(l, t, k)"
    from Cons.prems(3) PriorNote obtain j where j: "at_map ?r = Some j" "\<not> claimed (minted ! j)" by auto
    then have jl: "j < length L" "fst (L ! j) = ?r" using indexesD [OF assms(1)] by blast+
    have c: "claim_planned_note_at at_map minted ?r = (claim_note minted j, Some j)"
      using j jl Cons.prems(1) by (simp add: claim_planned_note_at_def list_get_def)
    have "\<exists>i. at_map r = Some i \<and> \<not> claimed (claim_note minted j ! i)" if r: "r \<in> set (concat (map prior_ref ins))" for r
    proof -
      have "r \<noteq> ?r" using Cons.prems(2) PriorNote r by auto
      moreover obtain i where i: "at_map r = Some i" "\<not> claimed (minted ! i)" using Cons.prems(3) r by auto
      moreover have "i < length L" "fst (L ! i) = r" using indexesD [OF assms(1)] i(1) by blast+
      ultimately show ?thesis using jl Cons.prems(1) by auto
    qed
    with Cons.IH [of "claim_note minted j"] Cons.prems(1,2) PriorNote obtain "is" minted' where
      r: "claim_feeders at_map (claim_note minted j) ins = (minted', map Some is)" "set is \<subseteq> {..<length L}"
        "map (\<lambda>j. fst (L ! j)) is = concat (map prior_ref ins)" "length minted' = length L"
        "\<forall>i<length L. minted' ! i = (claim_note minted j ! i)\<lparr>claimed := claimed (claim_note minted j ! i) \<or>
           fst (L ! i) \<in> set (concat (map prior_ref ins))\<rparr>" by auto
    have same: "fst (L ! i) = ?r \<longleftrightarrow> i = j" if "i < length L" for i
      using indexesD [OF assms(1)] that jl j(1) by (metis option.inject)
    have "minted' ! i = (minted ! i)\<lparr>claimed := claimed (minted ! i) \<or> fst (L ! i) \<in> set (concat (map prior_ref (inp # ins)))\<rparr>"
      if "i < length L" for i
      using r(5) that Cons.prems(1) PriorNote same [OF that] by auto
    then show ?thesis using r(1-4) c PriorNote jl
      by (intro exI [of _ "j # is"] exI [of _ minted']) simp
  qed
qed

section \<open>The walk over the preparation\<close>

definition producers :: "placed list \<Rightarrow> MigrationTransferId option list" where
  "producers T = concat (map (\<lambda>(i, x). replicate (length (minted_of x)) (Some (of_nat i))) (enumerate 0 T))"

definition feeds :: "note_at list \<Rightarrow> placed \<Rightarrow> MintedOrdinal option list \<Rightarrow> bool" where
  "feeds L x fs \<longleftrightarrow> (\<exists>is. fs = map Some is \<and> set is \<subseteq> {..<length L} \<and> map (\<lambda>j. fst (L ! j)) is = priors_of x)"

definition ids_in :: "placed list \<Rightarrow> nat \<Rightarrow> MigrationTransferId list" where
  "ids_in T l = map of_nat (filter (\<lambda>j. fst (T ! j) = l) [0..<length T])"

definition row_of :: "MigrationPlan \<Rightarrow> placed list \<Rightarrow> nat \<Rightarrow> PlannedTx" where
  "row_of p T i = (case T ! i of (l, t, tx) \<Rightarrow> planned_tx_new (of_nat i) (MigrationState.Preparation l t)
     (if l = 0 then [] else ids_in T (l - 1)) (prep_broadcast_height p l t))"

definition walk_ok :: "MigrationPlan \<Rightarrow> placed list \<Rightarrow> RunWalk \<Rightarrow> bool" where
  "walk_ok p T w \<longleftrightarrow> indexes (minted_at w) (minted_list T) \<and> length (minted_notes w) = length (minted_list T) \<and>
     (\<forall>j<length (minted_list T). note_value (minted_notes w ! j) = snd (minted_list T ! j) \<and>
       claimed (minted_notes w ! j) = (fst (minted_list T ! j) \<in> set (concat (map priors_of T)))) \<and>
     map note_producer (minted_notes w) = producers T \<and> next_id w = of_nat (length T) \<and>
     list_all2 (feeds (minted_list T)) T (walk_feeders w) \<and> walk_rows w = map (row_of p T) [0..<length T]"

lemma runnable_prefix: "runnable (S @ T) \<Longrightarrow> runnable S"
  unfolding runnable_def by (metis append.assoc append_Cons distinct_append map_append concat_append minted_list_append)

lemma feeds_append: "feeds L x fs \<Longrightarrow> feeds (L @ M) x fs"
  unfolding feeds_def
proof (elim exE conjE, intro exI conjI)
  fix "is" assume "is": "fs = map Some is" "set is \<subseteq> {..<length L}" "map (\<lambda>j. fst (L ! j)) is = priors_of x"
  have "map (\<lambda>j. fst ((L @ M) ! j)) is = map (\<lambda>j. fst (L ! j)) is"
    using "is"(2) by (intro map_cong) (auto simp: nth_append)
  then show "map (\<lambda>j. fst ((L @ M) ! j)) is = priors_of x" using "is"(3) by simp
  show "fs = map Some is" "set is \<subseteq> {..<length (L @ M)}" using "is"(1,2) by auto
qed

lemma producers_snoc: "producers (T @ [x]) = producers T @ replicate (length (minted_of x)) (Some (of_nat (length T)))"
  by (simp add: producers_def enumerate_append_eq)

lemma ids_in_snoc: "ids_in (T @ [x]) l = ids_in T l @ (if fst x = l then [of_nat (length T)] else [])"
proof -
  have "filter (\<lambda>j. fst ((T @ [x]) ! j) = l) [0..<length T] = filter (\<lambda>j. fst (T ! j) = l) [0..<length T]"
    by (intro filter_cong) (auto simp: nth_append)
  then show ?thesis by (simp add: ids_in_def)
qed

lemma row_of_snoc:
  assumes "i < length T" "\<forall>y\<in>set T. fst y \<le> fst x"
  shows "row_of p (T @ [x]) i = row_of p T i"
proof -
  obtain l t tx where y: "T ! i = (l, t, tx)" by (cases "T ! i")
  have "l \<le> fst x" using assms nth_mem [OF assms(1)] y by force
  then have "l = 0 \<or> fst x \<noteq> l - 1" by linarith
  then show ?thesis using assms(1) y by (auto simp: row_of_def nth_append ids_in_snoc)
qed

lemma walk_step:
  assumes w: "walk_ok p T w" and run: "runnable (T @ [(l, t, tx)])" and le: "\<forall>y\<in>set T. fst y \<le> l"
    and prev: "l \<noteq> 0 \<Longrightarrow> prev = ids_in T (l - 1)" and ids: "ids = ids_in T l"
  shows "case plan_prep_transaction p l prev (w, ids) (t, tx) of (w', this') \<Rightarrow>
    walk_ok p (T @ [(l, t, tx)]) w' \<and> this' = ids_in (T @ [(l, t, tx)]) l"
proof -
  let ?x = "(l, t, tx)" and ?L = "minted_list T" and ?i = "of_nat (length T) :: MigrationTransferId"
  let ?N = "minted_outputs l t 0 (outputs tx)"
  have N: "minted_of ?x = ?N" "priors_of ?x = concat (map prior_ref (inputs tx))" by (simp_all add: minted_of_def priors_of_def)
  have idx: "indexes (minted_at w) ?L" "length (minted_notes w) = length ?L" and nx: "next_id w = ?i"
    and val: "\<And>j. j < length ?L \<Longrightarrow> note_value (minted_notes w ! j) = snd (?L ! j)"
    and cl: "\<And>j. j < length ?L \<Longrightarrow> claimed (minted_notes w ! j) = (fst (?L ! j) \<in> set (concat (map priors_of T)))"
    and prod: "map note_producer (minted_notes w) = producers T"
    and fd: "list_all2 (feeds ?L) T (walk_feeders w)" and rw: "walk_rows w = map (row_of p T) [0..<length T]"
    using w by (simp_all add: walk_ok_def)
  have rn0: "set (priors_of ?x) \<subseteq> fst ` set ?L" using run unfolding runnable_def by blast
  have rn: "distinct (priors_of ?x)" "set (concat (map priors_of T)) \<inter> set (priors_of ?x) = {}"
      "distinct (map fst (?L @ ?N))"
    using run N(1) unfolding runnable_def by simp_all
  note rn = rn0 rn
  have ex: "\<exists>j. minted_at w r = Some j \<and> \<not> claimed (minted_notes w ! j)" if r: "r \<in> set (priors_of ?x)" for r
  proof -
    from rn(1) r have "r \<in> fst ` set ?L" by blast
    then obtain e where e: "r = fst e" "e \<in> set ?L" by (rule imageE)
    from e(2) obtain j where "j < length ?L" "?L ! j = e" unfolding in_set_conv_nth by blast
    with e(1) have j: "j < length ?L" "fst (?L ! j) = r" by simp_all
    then have "minted_at w r = Some j" using indexesD [OF idx(1)] by blast
    moreover have "\<not> claimed (minted_notes w ! j)" using cl [OF j(1)] j(2) r rn(3) by (metis disjoint_iff)
    ultimately show ?thesis by blast
  qed
  from claim_feeders_ok [OF idx rn(2) [unfolded N(2)]] ex N(2) obtain "is" minted' where
    c: "claim_feeders (minted_at w) (minted_notes w) (inputs tx) = (minted', map Some is)" "set is \<subseteq> {..<length ?L}"
      "map (\<lambda>j. fst (?L ! j)) is = priors_of ?x" "length minted' = length ?L"
      "\<forall>j<length ?L. minted' ! j = (minted_notes w ! j)\<lparr>claimed := claimed (minted_notes w ! j) \<or> fst (?L ! j) \<in> set (priors_of ?x)\<rparr>"
    unfolding N(2) [symmetric] by blast
  let ?w1 = "w\<lparr>next_id := ?i + 1, minted_notes := minted', walk_feeders := walk_feeders w @ [map Some is]\<rparr>"
  from mint_outputs [of ?w1 ?L l t 0 "outputs tx" ?i] idx(1) c(4) rn(4) obtain at_map where
    m: "foldl (mint_output l t ?i) ?w1 (enumerate 0 (outputs tx)) = ?w1\<lparr>minted_at := at_map, minted_notes := minted' @
        map (\<lambda>(r, v). \<lparr>note_value = v, note_producer = Some ?i, claimed = False\<rparr>) ?N\<rparr>" "indexes at_map (?L @ ?N)"
    by auto
  let ?row = "planned_tx_new ?i (MigrationState.Preparation l t) (if l = 0 then [] else prev) (prep_broadcast_height p l t)"
  have step: "plan_prep_transaction p l prev (w, ids) (t, tx) =
      (?w1\<lparr>minted_at := at_map, minted_notes := minted' @
        map (\<lambda>(r, v). \<lparr>note_value = v, note_producer = Some ?i, claimed = False\<rparr>) ?N, walk_rows := walk_rows w @ [?row]\<rparr>, ids @ [?i])"
    using m(1) by (simp add: plan_prep_transaction_def nx c(1) Let_def)
  have row: "?row = row_of p (T @ [?x]) (length T)"
    using prev by (simp add: row_of_def ids_in_snoc)
  have "map note_producer minted' = map note_producer (minted_notes w)"
    using c(4,5) idx(2) by (intro nth_equalityI) auto
  then have pr: "map note_producer (minted' @ map (\<lambda>(r, v). \<lparr>note_value = v, note_producer = Some ?i, claimed = False\<rparr>) ?N) = producers (T @ [?x])"
    by (simp add: producers_snoc prod N(1) comp_def case_prod_unfold map_replicate_const)
  have "map (row_of p (T @ [?x])) [0..<length T] = walk_rows w"
    using row_of_snoc [of _ T ?x p] le rw by simp
  then have rows: "walk_rows w @ [?row] = map (row_of p (T @ [?x])) [0..<length (T @ [?x])]" by (simp add: row)
  have "feeds (?L @ ?N) ?x (map Some is)" using c(2,3) feeds_append [of ?L ?x "map Some is" ?N] by (auto simp: feeds_def)
  then have "list_all2 (feeds (?L @ ?N)) (T @ [?x]) (walk_feeders w @ [map Some is])"
    using fd by (intro list_all2_appendI) (auto elim: list_all2_mono intro: feeds_append)
  moreover have "note_value ((minted' @ map (\<lambda>(r, v). \<lparr>note_value = v, note_producer = Some ?i, claimed = False\<rparr>) ?N) ! j) = snd ((?L @ ?N) ! j) \<and>
      claimed ((minted' @ map (\<lambda>(r, v). \<lparr>note_value = v, note_producer = Some ?i, claimed = False\<rparr>) ?N) ! j) =
        (fst ((?L @ ?N) ! j) \<in> set (concat (map priors_of (T @ [?x]))))" if "j < length (?L @ ?N)" for j
  proof (cases "j < length ?L")
    case True
    then show ?thesis using c(4,5) val cl by (auto simp: nth_append)
  next
    case False
    then obtain k where "j = length ?L + k" by (metis le_Suc_ex not_less)
    with that have k: "j = length ?L + k" "k < length ?N" by simp_all
    have "fst (?N ! k) \<notin> fst ` set ?L" using rn(4) nth_mem [OF k(2)] by (simp only: map_append distinct_append list.set_map) blast
    moreover have "set (concat (map priors_of (T @ [?x]))) \<subseteq> fst ` set ?L"
    proof -
      have "set (priors_of y) \<subseteq> fst ` set ?L" if "y \<in> set (T @ [?x])" for y
      proof -
        from that obtain pre post where sp: "T @ [?x] = pre @ y # post" by (metis split_list)
        then have "set (minted_list pre) \<subseteq> set ?L"
          by (cases post rule: rev_cases) auto
        moreover have "set (priors_of y) \<subseteq> fst ` set (minted_list pre)" using run sp unfolding runnable_def by blast
        ultimately show ?thesis by blast
      qed
      then show ?thesis by (simp only: set_concat set_map) blast
    qed
    ultimately show ?thesis using k c(4) by (auto simp: nth_append case_prod_unfold)
  qed
  ultimately show ?thesis unfolding step
    using m(2) c(4) pr rows by (simp add: walk_ok_def N(1) ids ids_in_snoc)
qed

lemma walk_layer:
  assumes "walk_ok p T w" "runnable (T @ map (\<lambda>(t, tx). (l, t, tx)) (enumerate n txs))" "\<forall>y\<in>set T. fst y \<le> l"
    "l \<noteq> 0 \<Longrightarrow> prev = ids_in T (l - 1)" "ids = ids_in T l"
  shows "case foldl (plan_prep_transaction p l prev) (w, ids) (enumerate n txs) of (w', ids') \<Rightarrow>
    walk_ok p (T @ map (\<lambda>(t, tx). (l, t, tx)) (enumerate n txs)) w' \<and> ids' = ids_in (T @ map (\<lambda>(t, tx). (l, t, tx)) (enumerate n txs)) l"
  using assms
proof (induction txs arbitrary: T w ids n)
  case (Cons tx txs)
  let ?x = "(l, n, tx)"
  have run: "runnable ((T @ [?x]) @ map (\<lambda>(t, tx). (l, t, tx)) (enumerate (Suc n) txs))" using Cons.prems(2) by simp
  obtain w' ids' where s: "plan_prep_transaction p l prev (w, ids) (n, tx) = (w', ids')" by (metis surj_pair)
  from walk_step [OF Cons.prems(1) runnable_prefix [OF run] Cons.prems(3,4,5)] s have
    w': "walk_ok p (T @ [?x]) w'" "ids' = ids_in (T @ [?x]) l" by simp_all
  have "prev = ids_in (T @ [?x]) (l - 1)" if "l \<noteq> 0" using Cons.prems(4) that by (simp add: ids_in_snoc)
  from Cons.IH [OF w'(1) run _ this w'(2)] Cons.prems(3) s show ?case by simp
qed simp

lemma ids_in_append: "\<forall>y\<in>set S. fst y \<noteq> l \<Longrightarrow> ids_in (T @ S) l = ids_in T l"
proof (induction S rule: rev_induct)
  case (snoc x S)
  then show ?case using ids_in_snoc [of "T @ S" x l] by simp
qed simp

lemma ids_in_none: "\<forall>y\<in>set T. fst y \<noteq> l \<Longrightarrow> ids_in T l = []"
  using ids_in_append [of T l "[]"] by (simp only: append_Nil) (simp add: ids_in_def)

definition placed_from :: "nat \<Rightarrow> PrepTransaction list list \<Rightarrow> placed list" where
  "placed_from n ls = concat (map (\<lambda>(l, txs). map (\<lambda>(t, tx). (l, t, tx)) (enumerate 0 txs)) (enumerate n ls))"

lemma placed_from_simps [simp]:
  "placed_from n [] = []"
  "placed_from n (txs # ls) = map (\<lambda>(t, tx). (n, t, tx)) (enumerate 0 txs) @ placed_from (Suc n) ls"
  by (simp_all add: placed_from_def)

lemma placed_txs_from: "placed_txs ls = placed_from 0 ls"
  by (simp add: placed_txs_def placed_from_def)

lemma walk_layers:
  assumes "walk_ok p T w" "runnable (T @ placed_from n ls)" "\<forall>y\<in>set T. fst y < n" "n \<noteq> 0 \<Longrightarrow> prev = ids_in T (n - 1)"
  shows "walk_ok p (T @ placed_from n ls) (fst (foldl (plan_layer p) (w, prev) (enumerate n ls)))"
  using assms
proof (induction ls arbitrary: T w prev n)
  case (Cons txs ls)
  let ?S = "map (\<lambda>(t, tx). (n, t, tx)) (enumerate 0 txs)"
  have run: "runnable ((T @ ?S) @ placed_from (Suc n) ls)" using Cons.prems(2) by simp
  have le: "\<forall>y\<in>set T. fst y \<le> n" using Cons.prems(3) less_imp_le by blast
  have none: "[] = ids_in T n" by (rule ids_in_none [symmetric]) (use Cons.prems(3) in blast)
  obtain w' ids' where s: "foldl (plan_prep_transaction p n prev) (w, []) (enumerate 0 txs) = (w', ids')" by (metis surj_pair)
  from walk_layer [OF Cons.prems(1) runnable_prefix [OF run] le Cons.prems(4) none] s have
    w': "walk_ok p (T @ ?S) w'" "ids' = ids_in (T @ ?S) n" by simp_all
  have "\<forall>y\<in>set ?S. fst y < Suc n" by auto
  then have lt: "\<forall>y\<in>set (T @ ?S). fst y < Suc n" using le unfolding set_append by (blast intro: le_imp_less_Suc)
  have "walk_ok p ((T @ ?S) @ placed_from (Suc n) ls) (fst (foldl (plan_layer p) (w', ids') (enumerate (Suc n) ls)))"
    by (rule Cons.IH [OF w'(1) run lt]) (simp add: w'(2))
  then show ?case using s by (simp add: plan_layer_def)
qed simp

lemma walk_preparation_ok:
  assumes "runnable (placed_txs (layers (plan_preparation_of p)))"
  shows "walk_ok p (placed_txs (layers (plan_preparation_of p))) (walk_preparation p)"
proof -
  have "walk_ok p [] walk_start"
    by (simp add: walk_ok_def walk_start_def indexes_def producers_def)
  from walk_layers [OF this, of 0 "layers (plan_preparation_of p)" "[]"] assms show ?thesis
    by (simp add: walk_preparation_def placed_txs_from)
qed

section \<open>Runs of certified preparations\<close>

lemma set_placed_from:
  "(l, t, tx) \<in> set (placed_from n ls) \<longleftrightarrow> n \<le> l \<and> l - n < length ls \<and> t < length (ls ! (l - n)) \<and> tx = ls ! (l - n) ! t"
proof (induction ls arbitrary: n)
  case (Cons txs ls)
  show ?case
  proof (cases "l = n")
    case True
    then show ?thesis using Cons.IH [of "Suc n"] by (auto simp: in_set_enumerate_eq)
  next
    case no: False
    show ?thesis
    proof (cases "n < l")
      case True
      then obtain m where "l = Suc (n + m)" using less_imp_Suc_add by blast
      then show ?thesis using Cons.IH [of "Suc n"] by auto
    next
      case False
      then show ?thesis using Cons.IH [of "Suc n"] no by auto
    qed
  qed
qed simp

lemma set_minted_of: "(r, v) \<in> set (minted_of (l, t, tx)) \<longleftrightarrow> (\<exists>k<length (outputs tx). r = (l, t, k) \<and> mints (outputs tx ! k) = Some v)"
  by (force simp: minted_of_def minted_outputs_def List.map_filter_def in_set_enumerate_eq image_iff)

lemma distinct_minted_outputs: "distinct (map fst (minted_outputs l t n outs))"
proof -
  have "distinct (map fst (minted_outputs l t n outs)) \<and> (\<forall>(l', t', k)\<in>fst ` set (minted_outputs l t n outs). l' = l \<and> t' = t \<and> n \<le> k)"
  proof (induction outs arbitrary: n)
    case (Cons out outs)
    show ?case using Cons.IH [of "Suc n"]
      by (cases "mints out") (force simp: minted_outputs_def List.map_filter_simps)+
  qed (simp add: minted_outputs_def List.map_filter_simps)
  then show ?thesis by simp
qed

lemma distinct_placed_from: "distinct (map (\<lambda>(l, t, tx). (l, t)) (placed_from n ls))"
proof (induction ls arbitrary: n)
  case (Cons txs ls)
  have "distinct (map (\<lambda>(l, t, tx). (l, t)) (map (\<lambda>(t, tx). (n, t, tx)) (enumerate k txs))) \<and>
      (\<forall>(l, t)\<in>set (map (\<lambda>(l, t, tx). (l, t)) (map (\<lambda>(t, tx). (n, t, tx)) (enumerate k txs))). k \<le> t)" for k
    by (induction txs arbitrary: k) force+
  then show ?case using Cons.IH [of "Suc n"] by (auto simp: set_placed_from)
qed simp

lemma distinct_minted_list:
  assumes "distinct (map (\<lambda>(l, t, tx). (l, t)) T)"
  shows "distinct (map fst (minted_list T))"
  using assms
proof (induction T)
  case (Cons x T)
  obtain l t tx where x: "x = (l, t, tx)" by (cases x)
  have "fst ` set (minted_of x) \<inter> fst ` set (minted_list T) = {}"
  proof (intro equals0I)
    fix r assume "r \<in> fst ` set (minted_of x) \<inter> fst ` set (minted_list T)"
    then obtain v y u where "(r, v) \<in> set (minted_of x)" "y \<in> set T" "(r, u) \<in> set (minted_of y)"
      by (auto simp: minted_list_def)
    then show False using Cons.prems x by (cases y) (force simp: set_minted_of)
  qed
  moreover have "distinct (map fst (minted_of x))" by (simp add: x minted_of_def distinct_minted_outputs)
  ultimately show ?case using Cons by simp
qed simp

lemma concat_priors_of: "concat (map priors_of (placed_from n ls)) = concat (map prior_ref (concat (map inputs (concat ls))))"
proof (induction ls arbitrary: n)
  case (Cons txs ls)
  have "concat (map priors_of (map (\<lambda>(t, tx). (l, t, tx)) (enumerate k txs))) = concat (map prior_ref (concat (map inputs txs)))" for l k
    by (induction txs arbitrary: k) (simp_all add: priors_of_def)
  then show ?case using Cons by simp
qed simp

lemma placed_sorted: "placed_from n ls = pre @ x # post \<Longrightarrow> y \<in> set post \<Longrightarrow> fst x \<le> fst y"
proof -
  have "sorted (map fst (placed_from n ls))"
  proof (induction ls arbitrary: n)
    case (Cons txs ls)
    have "sorted (map fst (map (\<lambda>(t, tx). (n, t, tx)) (enumerate k txs)))" for k
      by (induction txs arbitrary: k) auto
    then show ?case using Cons.IH [of "Suc n"] by (auto simp: sorted_append set_placed_from)
  qed simp
  then show "placed_from n ls = pre @ x # post \<Longrightarrow> y \<in> set post \<Longrightarrow> fst x \<le> fst y" by (simp add: sorted_append)
qed

lemma certified_runnable:
  assumes c: "certified prep available funding fee" and s: "spends_intermediates prep"
  shows "runnable (placed_txs (layers prep))"
  unfolding runnable_def placed_txs_from
proof (intro conjI allI impI)
  show "distinct (map fst (minted_list (placed_from 0 (layers prep))))" by (intro distinct_minted_list distinct_placed_from)
  show "distinct (concat (map priors_of (placed_from 0 (layers prep))))" using c by (simp add: concat_priors_of certified_def)
  fix pre x post assume T: "placed_from 0 (layers prep) = pre @ x # post"
  show "set (priors_of x) \<subseteq> fst ` set (minted_list pre)"
  proof
    fix r assume r: "r \<in> set (priors_of x)"
    obtain l t tx where x: "x = (l, t, tx)" by (cases x)
    have xi: "l < length (layers prep)" "t < length (layers prep ! l)" "tx = layers prep ! l ! t"
      using set_placed_from [of l t tx 0 "layers prep"] T x by auto
    from r x obtain i where i: "i \<in> set (inputs tx)" "r \<in> set (prior_ref i)" by (auto simp: priors_of_def)
    from i(2) obtain l' t' k v where n: "i = PriorNote l' t' k v" "r = (l', t', k)" by (cases i) auto
    have "tx \<in> set (layers prep ! l)" using xi by simp
    then have io: "input_ok (layers prep) available l i" using c xi(1) i(1) unfolding certified_def by blast
    have "r \<in> set (spent_prior prep)"
      using i xi unfolding spent_prior_def by (auto intro!: bexI [of _ i] bexI [of _ tx] bexI [of _ "layers prep ! l"])
    then obtain u where u: "outputs (layers prep ! l' ! t') ! k = Intermediate u" using s n unfolding spends_intermediates_def by auto
    let ?y = "(l', t', layers prep ! l' ! t')"
    have "?y \<in> set (placed_from 0 (layers prep))" using io n by (simp add: set_placed_from)
    moreover have "?y \<noteq> x" "?y \<notin> set post" using placed_sorted [OF T, of ?y] io n x by auto
    ultimately have "?y \<in> set pre" using T by auto
    moreover have "(r, u) \<in> set (minted_of ?y)" using io n u by (simp add: set_minted_of)
    ultimately show "r \<in> fst ` set (minted_list pre)" by (force simp: minted_list_def)
  qed
qed

section \<open>The notes of the crossings\<close>

text \<open>The notes no transaction has claimed, by their values.\<close>

definition unclaimed :: "PlannedNote list \<Rightarrow> Zatoshis multiset" where
  "unclaimed minted = mset (map note_value (filter (\<lambda>n. \<not> claimed n) minted))"

lemma unclaimed_append: "unclaimed (xs @ ys) = unclaimed xs + unclaimed ys"
  by (simp add: unclaimed_def)

lemma unclaimed_claim:
  assumes "i < length minted" "\<not> claimed (minted ! i)"
  shows "unclaimed minted = add_mset (note_value (minted ! i)) (unclaimed (claim_note minted i))"
proof -
  have m: "minted = take i minted @ minted ! i # drop (Suc i) minted" by (rule id_take_nth_drop [OF assms(1)])
  have c: "claim_note minted i = take i minted @ (minted ! i)\<lparr>claimed := True\<rparr> # drop (Suc i) minted"
    unfolding claim_note_def by (rule upd_conv_take_nth_drop [OF assms(1)])
  have "unclaimed minted = unclaimed (take i minted) + add_mset (note_value (minted ! i)) (unclaimed (drop (Suc i) minted))"
    by (subst m) (simp add: unclaimed_def assms(2))
  also have "\<dots> = add_mset (note_value (minted ! i)) (unclaimed (claim_note minted i))"
    unfolding c by (simp add: unclaimed_def)
  finally show ?thesis .
qed

lemma claim_planned_note_ok:
  assumes "v \<in># unclaimed minted"
  shows "\<exists>i. claim_planned_note minted v = (claim_note minted i, Some i) \<and> i < length minted \<and>
    \<not> claimed (minted ! i) \<and> note_value (minted ! i) = v"
proof -
  let ?P = "\<lambda>i. \<not> claimed (minted ! i) \<and> note_value (minted ! i) = v"
  from assms obtain n where "n \<in> set minted" "\<not> claimed n" "note_value n = v" by (auto simp: unclaimed_def)
  then obtain j where "j < length minted" "?P j" by (metis in_set_conv_nth)
  then have "find ?P [0..<length minted] \<noteq> None" by (auto simp: find_None_iff)
  then obtain i where i: "find ?P [0..<length minted] = Some i" by blast
  then have "i < length minted" "?P i" by (auto simp: find_Some_iff)
  with i show ?thesis by (auto simp: claim_planned_note_def)
qed

text \<open>The row of a crossing that spends a note.\<close>

definition crossing_row :: "MigrationPlan \<Rightarrow> PlannedNote list \<Rightarrow> MigrationTransferId \<Rightarrow> nat \<Rightarrow> MintedOrdinal \<Rightarrow> PlannedTx" where
  "crossing_row p minted i cx j = planned_tx_new i (Transfer cx)
     (case note_producer (minted ! j) of None \<Rightarrow> [] | Some producer \<Rightarrow> [producer])
     (map_option broadcast_height (list_get (transfer_schedule p) cx))"

lemma plan_crossings_ok:
  assumes "mset values \<subseteq># unclaimed minted"
  shows "\<exists>is. plan_crossings p cx values minted next =
      (map (\<lambda>k. crossing_row p minted (next + of_nat k) (cx + k) (is ! k)) [0..<length values], map Some is) \<and>
    length is = length values \<and> distinct is \<and>
    (\<forall>i\<in>set is. i < length minted \<and> \<not> claimed (minted ! i)) \<and> map (\<lambda>i. note_value (minted ! i)) is = values"
  using assms
proof (induction "values" arbitrary: minted cx "next")
  case (Cons v vs)
  then have "v \<in># unclaimed minted" by (simp add: insert_subset_eq_iff)
  from claim_planned_note_ok [OF this] obtain i where
    i: "claim_planned_note minted v = (claim_note minted i, Some i)" "i < length minted" "\<not> claimed (minted ! i)"
      "note_value (minted ! i) = v" by blast
  have "mset vs \<subseteq># unclaimed (claim_note minted i)"
    using Cons.prems unclaimed_claim [OF i(2,3)] i(4) by simp
  from Cons.IH [OF this, of "cx + 1" "next + 1"] obtain "is" where
    r: "plan_crossings p (cx + 1) vs (claim_note minted i) (next + 1) =
        (map (\<lambda>k. crossing_row p (claim_note minted i) (next + 1 + of_nat k) (cx + 1 + k) (is ! k)) [0..<length vs], map Some is)"
      "length is = length vs" "distinct is" "\<forall>j\<in>set is. j < length (claim_note minted i) \<and> \<not> claimed (claim_note minted i ! j)"
      "map (\<lambda>j. note_value (claim_note minted i ! j)) is = vs" by blast
  have other: "j < length minted \<and> j \<noteq> i \<and> \<not> claimed (minted ! j) \<and> note_value (claim_note minted i ! j) = note_value (minted ! j)"
    if "j \<in> set is" for j using r(4) that by (fastforce split: if_splits)
  have "crossing_row p (claim_note minted i) (next + 1 + of_nat k) (cx + 1 + k) (is ! k) =
      crossing_row p minted (next + of_nat (Suc k)) (cx + Suc k) ((i # is) ! Suc k)" if "k < length vs" for k
    using other [of "is ! k"] r(2) that by (simp add: crossing_row_def ac_simps)
  then have "map (\<lambda>k. crossing_row p (claim_note minted i) (next + 1 + of_nat k) (cx + 1 + k) (is ! k)) [0..<length vs] =
      map (\<lambda>k. crossing_row p minted (next + of_nat k) (cx + k) ((i # is) ! k)) (map Suc [0..<length vs])"
    unfolding map_map by (intro map_cong) simp_all
  moreover have "[0..<length (v # vs)] = 0 # map Suc [0..<length vs]" using upt_conv_Cons [of 0 "Suc (length vs)"] by (simp add: map_Suc_upt del: upt_Suc)
  moreover have "map (\<lambda>j. note_value (minted ! j)) is = vs"
    using r(5) other by (metis (no_types, lifting) map_cong)
  moreover have "crossing_row p minted next cx i = planned_tx_new next (Transfer cx)
      (case Option.bind (Some i) (\<lambda>i. note_producer (claim_note minted i ! i)) of None \<Rightarrow> [] | Some i \<Rightarrow> [i])
      (map_option broadcast_height (list_get (transfer_schedule p) cx))" using i(2) by (simp add: crossing_row_def)
  ultimately show ?case using i r(1-3) other
    by (intro exI [of _ "i # is"]) (auto simp: Let_def)
qed simp

section \<open>The whole run\<close>

lemma unclaimed_walk:
  assumes "walk_ok p T w"
  shows "unclaimed (minted_notes w) =
    mset (map snd (filter (\<lambda>(r, v). r \<notin> set (concat (map priors_of T))) (minted_list T)))"
proof -
  let ?C = "set (concat (map priors_of T))"
  have "map (\<lambda>n. (note_value n, claimed n)) (minted_notes w) = map (\<lambda>(r, v). (v, r \<in> ?C)) (minted_list T)"
    using assms by (intro nth_equalityI) (auto simp: walk_ok_def case_prod_unfold)
  then have "map fst (filter (\<lambda>(v, c). \<not> c) (map (\<lambda>n. (note_value n, claimed n)) (minted_notes w))) =
      map fst (filter (\<lambda>(v, c). \<not> c) (map (\<lambda>(r, v). (v, r \<in> ?C)) (minted_list T)))" by simp
  then have "map note_value (filter (\<lambda>n. \<not> claimed n) (minted_notes w)) = map snd (filter (\<lambda>(r, v). r \<notin> ?C) (minted_list T))"
    by (simp add: filter_map comp_def case_prod_unfold)
  then show ?thesis by (simp add: unclaimed_def)
qed

definition funding_value_of :: "PrepOutput \<Rightarrow> Zatoshis option" where
  "funding_value_of out = (case out of Funding v \<Rightarrow> Some v | _ \<Rightarrow> None)"

lemma funding_outputs_unclaimed:
  assumes "\<forall>k<length outs. \<forall>v. outs ! k = Funding v \<longrightarrow> (l, t, n + k) \<notin> C"
  shows "mset (List.map_filter funding_value_of outs) \<subseteq># mset (map snd (filter (\<lambda>(r, v). r \<notin> C) (minted_outputs l t n outs)))"
  using assms
proof (induction outs arbitrary: n)
  case (Cons out outs)
  have "\<forall>k<length outs. \<forall>v. outs ! k = Funding v \<longrightarrow> (l, t, Suc n + k) \<notin> C"
    using Cons.prems by (metis Suc_less_eq add_Suc_shift length_Cons nth_Cons_Suc)
  note ih = Cons.IH [OF this]
  show ?case
  proof (cases out)
    case (Funding v)
    then have "(l, t, n) \<notin> C" using Cons.prems by (metis add_0_right length_Cons nth_Cons_0 zero_less_Suc)
    then show ?thesis using ih Funding by (simp add: funding_value_of_def minted_outputs_def List.map_filter_simps)
  next
    case (Intermediate v)
    then show ?thesis using ih
      by (auto simp: funding_value_of_def minted_outputs_def List.map_filter_simps intro: subset_mset.order_trans)
  next
    case (Change v)
    then show ?thesis using ih by (simp add: funding_value_of_def minted_outputs_def List.map_filter_simps)
  qed
qed simp

lemma funding_placed_unclaimed:
  assumes "\<forall>(l, t, tx)\<in>set T. \<forall>k<length (outputs tx). \<forall>v. outputs tx ! k = Funding v \<longrightarrow> (l, t, k) \<notin> C"
  shows "mset (List.map_filter funding_value_of (concat (map (\<lambda>(l, t, tx). outputs tx) T))) \<subseteq>#
    mset (map snd (filter (\<lambda>(r, v). r \<notin> C) (minted_list T)))"
  using assms
proof (induction T)
  case (Cons x T)
  obtain l t tx where x: "x = (l, t, tx)" by (cases x)
  have "mset (List.map_filter funding_value_of (outputs tx)) \<subseteq># mset (map snd (filter (\<lambda>(r, v). r \<notin> C) (minted_of x)))"
    unfolding x minted_of_def prod.case by (rule funding_outputs_unclaimed) (use Cons.prems x in auto)
  then show ?case using Cons x by (simp add: map_filter_append subset_mset.add_mono)
qed (simp add: List.map_filter_simps)

lemma placed_outputs: "concat (map (\<lambda>(l, t, tx). outputs tx) (placed_from n ls)) = concat (map outputs (concat ls))"
proof (induction ls arbitrary: n)
  case (Cons txs ls)
  have "concat (map (\<lambda>(l, t, tx). outputs tx) (map (\<lambda>(t, tx). (l, t, tx)) (enumerate k txs))) = concat (map outputs txs)" for l k
    by (induction txs arbitrary: k) simp_all
  then show ?case using Cons by simp
qed simp

text \<open>All notes a run may spend, in the order of their ordinals: those the preparation mints, then the direct ones.\<close>

definition run_notes :: "PreparationPlan \<Rightarrow> Zatoshis list" where
  "run_notes prep = map snd (minted_list (placed_txs (layers prep))) @ map snd (direct_funding prep)"

definition minted_places :: "PreparationPlan \<Rightarrow> MintedAt list" where
  "minted_places prep = map fst (minted_list (placed_txs (layers prep)))"

lemma run_pool:
  assumes w: "walk_ok p (placed_txs (layers prep)) w" and c: "certified prep available funding fee" and s: "spends_intermediates prep"
  shows "mset (funding_notes prep) \<subseteq># unclaimed (minted_notes w @ direct_notes prep)"
proof -
  let ?T = "placed_txs (layers prep)"
  have sp: "set (concat (map priors_of ?T)) = set (spent_prior prep)"
    by (simp only: placed_txs_from concat_priors_of spent_prior_def)
  have "(l, t, k) \<notin> set (concat (map priors_of ?T))" if "(l, t, tx) \<in> set ?T" "outputs tx ! k = Funding v" for l t tx k v
  proof
    assume "(l, t, k) \<in> set (concat (map priors_of ?T))"
    then obtain u where "outputs (layers prep ! l ! t) ! k = Intermediate u" using s unfolding sp spends_intermediates_def by auto
    then show False using that by (simp add: placed_txs_from set_placed_from)
  qed
  then have "mset (List.map_filter funding_value_of (concat (map (\<lambda>(l, t, tx). outputs tx) ?T))) \<subseteq># unclaimed (minted_notes w)"
    unfolding unclaimed_walk [OF w] by (intro funding_placed_unclaimed) blast
  moreover have "unclaimed (direct_notes prep) = mset (map snd (direct_funding prep))"
    by (simp add: unclaimed_def direct_notes_def filter_map comp_def case_prod_unfold)
  moreover have "funding_notes prep = List.map_filter funding_value_of (concat (map (\<lambda>(l, t, tx). outputs tx) ?T)) @ map snd (direct_funding prep)"
    by (simp add: funding_notes_def all_outputs_def placed_txs_from placed_outputs funding_value_of_def [abs_def])
  ultimately show ?thesis by (simp add: unclaimed_append subset_mset.add_mono)
qed

lemma resolve_feeders_Some: "resolve_feeders n (map Some is) = Inr is"
  by (induction "is") simp_all

lemma resolve_all_feeders_Some: "resolve_all_feeders n (map (map Some) iss) = Inr iss"
  by (induction iss arbitrary: n) (simp_all add: resolve_feeders_Some)

lemma resolve_funding_Some: "resolve_funding n (map Some is) = Inr is"
  by (induction "is" arbitrary: n) simp_all

lemma feeds_all:
  "list_all2 (feeds L) T fss \<Longrightarrow> \<exists>iss. fss = map (map Some) iss \<and> (\<forall>is\<in>set iss. set is \<subseteq> {..<length L}) \<and>
     map (map (\<lambda>j. fst (L ! j))) iss = map priors_of T"
proof (induction rule: list_all2_induct)
  case (Cons x T fs fss)
  then obtain "is" iss where "fs = map Some is" "set is \<subseteq> {..<length L}" "map (\<lambda>j. fst (L ! j)) is = priors_of x"
    "fss = map (map Some) iss" "\<forall>is\<in>set iss. set is \<subseteq> {..<length L}" "map (map (\<lambda>j. fst (L ! j))) iss = map priors_of T"
    unfolding feeds_def by blast
  then show ?case by (intro exI [of _ "is # iss"]) auto
qed simp

lemma producers_nth:
  "j < length (minted_list T) \<Longrightarrow> length (producers T) = length (minted_list T) \<and>
     (\<exists>i<length T. producers T ! j = Some (of_nat i) \<and> minted_list T ! j \<in> set (minted_of (T ! i)))"
proof (induction T rule: rev_induct)
  case (snoc x T)
  have len: "length (producers T) = length (minted_list T)"
    by (induction T rule: rev_induct) (simp_all add: producers_snoc, simp add: producers_def)
  show ?case
  proof (cases "j < length (minted_list T)")
    case True
    with snoc.IH obtain i where "i < length T" "producers T ! j = Some (of_nat i)" "minted_list T ! j \<in> set (minted_of (T ! i))" by blast
    then show ?thesis using True len by (auto simp: producers_snoc nth_append intro!: exI [of _ i])
  next
    case False
    then show ?thesis using snoc.prems len
      by (auto simp: producers_snoc nth_append intro!: exI [of _ "length T"])
  qed
qed simp

lemma placed_priors: "map priors_of (placed_from n ls) = map (\<lambda>tx. concat (map prior_ref (inputs tx))) (concat ls)"
proof (induction ls arbitrary: n)
  case (Cons txs ls)
  have "map priors_of (map (\<lambda>(t, tx). (l, t, tx)) (enumerate k txs)) = map (\<lambda>tx. concat (map prior_ref (inputs tx))) txs" for l k
    by (induction txs arbitrary: k) (simp_all add: priors_of_def)
  then show ?case using Cons by simp
qed simp

lemma length_placed: "length (placed_from n ls) = sum_list (map length ls)"
  by (induction ls arbitrary: n) simp_all

text \<open>The assignment of notes a planned run makes.\<close>

definition assigns :: "MigrationPlan \<Rightarrow> Zatoshis list \<Rightarrow> PlannedRun \<Rightarrow> MintedOrdinal list list \<Rightarrow> MintedOrdinal list \<Rightarrow> bool" where
  "assigns p funding run iss cs \<longleftrightarrow> (let prep = plan_preparation_of p; T = placed_txs (layers prep) in
     prep_feeders run = map (map Some) iss \<and> transfer_funding run = map Some cs \<and>
     map (map (\<lambda>j. minted_places prep ! j)) iss = map (\<lambda>tx. concat (map prior_ref (inputs tx))) (concat (layers prep)) \<and>
     (\<forall>is\<in>set iss. set is \<subseteq> {..<length (minted_places prep)}) \<and>
     map (\<lambda>j. run_notes prep ! j) cs = funding \<and> set cs \<subseteq> {..<length (run_notes prep)} \<and> distinct (concat iss @ cs) \<and>
     (\<exists>deps. rows run = map (row_of p T) [0..<length T] @
         map (\<lambda>k. planned_tx_new (of_nat (length T + k)) (Transfer k) (deps (cs ! k))
           (map_option broadcast_height (list_get (transfer_schedule p) k))) [0..<length funding] \<and>
       (\<forall>j<length (run_notes prep). if j < length (minted_places prep)
         then \<exists>i<length T. deps j = [of_nat i] \<and> minted_places prep ! j \<in> fst ` set (minted_of (T ! i)) else deps j = [])))"

lemma planned_run_ok:
  assumes c: "certified (plan_preparation_of p) available funding fee" and s: "spends_intermediates (plan_preparation_of p)"
    and f: "plan_funding_notes p = Some funding" "zatoshis_ZERO \<notin> set funding"
  shows "\<exists>run iss cs. planned_run p = Some run \<and> assigns p funding run iss cs"
proof -
  let ?prep = "plan_preparation_of p" and ?w = "walk_preparation p"
  let ?T = "placed_txs (layers ?prep)" and ?pool = "minted_notes ?w @ direct_notes ?prep"
  let ?L = "minted_list ?T" and ?C = "set (concat (map priors_of ?T))"
  have run: "runnable ?T" by (rule certified_runnable [OF c s])
  have w: "walk_ok p ?T ?w" by (rule walk_preparation_ok [OF run])
  then have n: "next_id ?w = of_nat (length ?T)" "walk_rows ?w = map (row_of p ?T) [0..<length ?T]" "length (minted_notes ?w) = length ?L"
      "map note_producer (minted_notes ?w) = producers ?T"
    and v: "\<And>j. j < length ?L \<Longrightarrow> note_value (minted_notes ?w ! j) = snd (?L ! j) \<and> (claimed (minted_notes ?w ! j) \<longleftrightarrow> fst (?L ! j) \<in> ?C)"
    by (simp_all add: walk_ok_def)
  from w feeds_all [of ?L ?T "walk_feeders ?w"] obtain iss where
    iss: "walk_feeders ?w = map (map Some) iss" "\<forall>is\<in>set iss. set is \<subseteq> {..<length ?L}"
      "map (map (\<lambda>j. fst (?L ! j))) iss = map priors_of ?T" by (auto simp: walk_ok_def)
  have "filter (\<lambda>v. v \<noteq> zatoshis_ZERO) funding = funding" using f(2) by (auto simp: filter_id_conv)
  then have "mset (funding_notes ?prep) = mset funding" using c by (simp add: certified_def)
  with run_pool [OF w c s] have "mset funding \<subseteq># unclaimed ?pool" by simp
  from plan_crossings_ok [OF this, of p 0 "next_id ?w"] obtain cs where
    cs: "plan_crossings p 0 funding ?pool (next_id ?w) =
        (map (\<lambda>k. crossing_row p ?pool (next_id ?w + of_nat k) (0 + k) (cs ! k)) [0..<length funding], map Some cs)"
      "length cs = length funding" "distinct cs" "\<forall>i\<in>set cs. i < length ?pool \<and> \<not> claimed (?pool ! i)"
      "map (\<lambda>i. note_value (?pool ! i)) cs = funding" by blast
  define deps where "deps j = (case note_producer (?pool ! j) of None \<Rightarrow> [] | Some i \<Rightarrow> [i])" for j
  let ?run = "\<lparr>rows = walk_rows ?w @ map (\<lambda>k. crossing_row p ?pool (next_id ?w + of_nat k) (0 + k) (cs ! k)) [0..<length funding],
    prep_feeders = map (map Some) iss, transfer_funding = map Some cs\<rparr>"
  have "planned_run p = Some ?run" using f(1) cs(1) iss(1) by (simp add: planned_run_def Let_def)
  moreover have "assigns p funding ?run iss cs"
    unfolding assigns_def Let_def
  proof (intro conjI exI [of _ deps])
    have len: "length (minted_places ?prep) = length ?L" "length (run_notes ?prep) = length ?pool"
      by (simp_all add: minted_places_def run_notes_def direct_notes_def n(3))
    have nv: "note_value (?pool ! j) = run_notes ?prep ! j" if "j < length ?pool" for j
      using v [of j] that n(3) by (auto simp: run_notes_def nth_append direct_notes_def case_prod_unfold)
    show "prep_feeders ?run = map (map Some) iss" "transfer_funding ?run = map Some cs" by simp_all
    have "minted_places ?prep ! j = fst (?L ! j)" if "is \<in> set iss" "j \<in> set is" for "is" j
    proof -
      have "j < length ?L" using iss(2) that by blast
      then show ?thesis by (simp add: minted_places_def)
    qed
    then have "map (map (\<lambda>j. minted_places ?prep ! j)) iss = map (map (\<lambda>j. fst (?L ! j))) iss"
      by (intro map_cong refl)
    then show "map (map (\<lambda>j. minted_places ?prep ! j)) iss = map (\<lambda>tx. concat (map prior_ref (inputs tx))) (concat (layers ?prep))"
      by (simp only: iss(3)) (simp only: placed_txs_from placed_priors)
    show "\<forall>is\<in>set iss. set is \<subseteq> {..<length (minted_places ?prep)}" using iss(2) len by simp
    show "map (\<lambda>j. run_notes ?prep ! j) cs = funding"
      unfolding cs(5) [symmetric] using nv cs(4) by (intro map_cong) auto
    show "set cs \<subseteq> {..<length (run_notes ?prep)}" using cs(4) len by auto
    have cc: "map (\<lambda>j. fst (?L ! j)) (concat iss) = concat (map priors_of ?T)"
      using arg_cong [OF iss(3), of concat] by (simp add: map_concat comp_def)
    have "distinct (concat (map priors_of ?T))" using run by (simp add: runnable_def)
    then have "distinct (map (\<lambda>j. fst (?L ! j)) (concat iss))" by (simp only: cc)
    then have "distinct (concat iss)" unfolding distinct_map by blast
    moreover have "set (concat iss) \<inter> set cs = {}"
    proof (intro equals0I)
      fix j assume j: "j \<in> set (concat iss) \<inter> set cs"
      then have "j < length ?L" using iss(2) by auto
      moreover have "fst (?L ! j) \<in> ?C" unfolding cc [symmetric] using j by simp
      ultimately have "claimed (?pool ! j)" using v [of j] n(3) by (simp add: nth_append)
      then show False using cs(4) j by blast
    qed
    ultimately show "distinct (concat iss @ cs)" using cs(3) by simp
    show "rows ?run = map (row_of p ?T) [0..<length ?T] @
         map (\<lambda>k. planned_tx_new (of_nat (length ?T + k)) (Transfer k) (deps (cs ! k))
           (map_option broadcast_height (list_get (transfer_schedule p) k))) [0..<length funding]"
      by (simp add: n(1,2) crossing_row_def deps_def)
    show "\<forall>j<length (run_notes ?prep). if j < length (minted_places ?prep)
        then \<exists>i<length ?T. deps j = [of_nat i] \<and> minted_places ?prep ! j \<in> fst ` set (minted_of (?T ! i)) else deps j = []"
    proof (intro allI impI)
      fix j assume j: "j < length (run_notes ?prep)"
      show "if j < length (minted_places ?prep)
        then \<exists>i<length ?T. deps j = [of_nat i] \<and> minted_places ?prep ! j \<in> fst ` set (minted_of (?T ! i)) else deps j = []"
      proof (cases "j < length ?L")
        case True
        with producers_nth obtain i where i: "i < length ?T" "producers ?T ! j = Some (of_nat i)" "?L ! j \<in> set (minted_of (?T ! i))" by blast
        have "note_producer (?pool ! j) = producers ?T ! j"
          unfolding n(4) [symmetric] using True n(3) by (simp add: nth_append)
        then have "deps j = [of_nat i]" using i(2) by (simp add: deps_def)
        moreover have "minted_places ?prep ! j \<in> fst ` set (minted_of (?T ! i))" using i(3) True by (simp add: minted_places_def)
        ultimately show ?thesis using i(1) True len by auto
      next
        case False
        then have "note_producer (?pool ! j) = None" using j len n(3) by (auto simp: nth_append direct_notes_def case_prod_unfold)
        then show ?thesis using False len by (simp add: deps_def)
      qed
    qed
  qed
  ultimately show ?thesis by blast
qed

section \<open>What waits on what\<close>

definition waits :: "PlannedTx list \<Rightarrow> (nat \<times> nat) set" where
  "waits rs = {(unat d, i) | d i. i < length rs \<and> d \<in> set (pl_depends_on (rs ! i))}"

lemma sorted_placed: "sorted (map fst (placed_from n ls))"
proof (induction ls arbitrary: n)
  case (Cons txs ls)
  have "sorted (map fst (map (\<lambda>(t, tx). (n, t, tx)) (enumerate k txs)))" for k
    by (induction txs arbitrary: k) auto
  then show ?case using Cons.IH [of "Suc n"] by (auto simp: sorted_append set_placed_from)
qed simp

lemma layer_less:
  assumes "j < length (placed_from n ls)" "fst (placed_from n ls ! i) < fst (placed_from n ls ! j)"
  shows "\<not> j \<le> i \<or> length (placed_from n ls) \<le> i"
proof (intro disjCI notI)
  assume "\<not> length (placed_from n ls) \<le> i" "j \<le> i"
  then have "fst (placed_from n ls ! j) \<le> fst (placed_from n ls ! i)"
    using sorted_nth_mono [OF sorted_placed, of j i n ls] by simp
  then show False using assms(2) by simp
qed

lemma unat_small: "n < 2 ^ 32 \<Longrightarrow> unat (of_nat n :: u32) = n"
  by (simp add: unat_of_nat take_bit_nat_eq_self)

text \<open>The rows of the preparation wait on the layer before theirs, as a whole.\<close>

lemma row_of_depends:
  assumes "i < length (placed_txs ls)" "length (placed_txs ls) \<le> 2 ^ 32"
  shows "unat ` set (pl_depends_on (row_of p (placed_txs ls) i)) =
      {j. j < length (placed_txs ls) \<and> Suc (fst (placed_txs ls ! j)) = fst (placed_txs ls ! i)} \<and>
    pl_kind (row_of p (placed_txs ls) i) =
      MigrationState.Preparation (fst (placed_txs ls ! i)) (fst (snd (placed_txs ls ! i))) \<and>
    pl_id (row_of p (placed_txs ls) i) = of_nat i"
proof -
  let ?T = "placed_txs ls"
  obtain l t tx where x: "?T ! i = (l, t, tx)" by (cases "?T ! i")
  have "unat ` set (ids_in ?T m) = {j. j < length ?T \<and> fst (?T ! j) = m}" for m
  proof -
    have "unat (of_nat j :: u32) = j" if "j < length ?T" for j by (rule unat_small) (use that assms(2) in linarith)
    then have "(\<lambda>j. unat (of_nat j :: u32)) ` {j. j < length ?T \<and> fst (?T ! j) = m} = (\<lambda>j. j) ` {j. j < length ?T \<and> fst (?T ! j) = m}"
      by (intro image_cong) auto
    then have "unat ` (of_nat :: nat \<Rightarrow> u32) ` {j. j < length ?T \<and> fst (?T ! j) = m} = {j. j < length ?T \<and> fst (?T ! j) = m}"
      by (simp only: image_image image_ident)
    moreover have "set (ids_in ?T m) = of_nat ` {j. j < length ?T \<and> fst (?T ! j) = m}" by (auto simp: ids_in_def)
    ultimately show ?thesis by simp
  qed
  then show ?thesis using x by (auto simp: row_of_def planned_tx_new_def)
qed

lemma layers_chain:
  assumes "length (placed_txs ls) \<le> 2 ^ 32" "[] \<notin> set ls"
    and rs: "\<And>i. i < length (placed_txs ls) \<Longrightarrow> i < length rs \<and> rs ! i = row_of p (placed_txs ls) i"
  shows "i < length (placed_txs ls) \<Longrightarrow> m < length (placed_txs ls) \<Longrightarrow> fst (placed_txs ls ! m) < fst (placed_txs ls ! i) \<Longrightarrow>
    (m, i) \<in> (waits rs)\<^sup>+"
proof (induction "fst (placed_txs ls ! i)" arbitrary: i)
  case (Suc l)
  let ?T = "placed_txs ls"
  have w: "(q, i) \<in> waits rs" if "q < length ?T" "fst (?T ! q) = l" for q
  proof -
    have "q \<in> unat ` set (pl_depends_on (row_of p ?T i))"
      using row_of_depends [OF Suc.prems(1) assms(1), of p] that Suc.hyps(2) by auto
    then show ?thesis using rs [OF Suc.prems(1)] by (auto simp: waits_def)
  qed
  show ?case
  proof (cases "fst (?T ! m) = l")
    case True
    then show ?thesis using w Suc.prems(2) by blast
  next
    case False
    obtain t tx where x: "?T ! i = (Suc l, t, tx)" using Suc.hyps(2) by (cases "?T ! i") auto
    then have "Suc l < length ls" using set_placed_from [of "Suc l" t tx 0 ls] Suc.prems(1) nth_mem [of i ?T]
      by (simp add: placed_txs_from)
    then have "(l, 0, ls ! l ! 0) \<in> set ?T" using assms(2) by (auto simp: placed_txs_from set_placed_from) (metis Suc_lessD nth_mem)
    then obtain q where q: "q < length ?T" "?T ! q = (l, 0, ls ! l ! 0)" by (metis in_set_conv_nth)
    have "(m, q) \<in> (waits rs)\<^sup>+" using Suc.hyps(1) [of q] q Suc.prems False Suc.hyps(2) by simp
    moreover have "(q, i) \<in> waits rs" using w q by simp
    ultimately show ?thesis by (rule trancl_into_trancl)
  qed
qed simp

lemma prior_placed:
  assumes c: "certified prep available funding fee" and x: "(l, t, tx) \<in> set (placed_txs (layers prep))"
    and r: "(l', t', k) \<in> set (priors_of (l, t, tx))"
  shows "l' < l \<and> (l', t', layers prep ! l' ! t') \<in> set (placed_txs (layers prep))"
proof -
  have xi: "l < length (layers prep)" "t < length (layers prep ! l)" "tx = layers prep ! l ! t"
    using x by (simp_all add: placed_txs_from set_placed_from)
  from r obtain i where i: "i \<in> set (inputs tx)" "(l', t', k) \<in> set (prior_ref i)" by (auto simp: priors_of_def)
  from i(2) obtain v where n: "i = PriorNote l' t' k v" by (cases i) auto
  have "tx \<in> set (layers prep ! l)" using xi by simp
  then have "input_ok (layers prep) available l i" using c xi(1) i(1) unfolding certified_def by blast
  then show ?thesis using n by (simp add: placed_txs_from set_placed_from)
qed

lemma into_buildable_ok:
  "assigns p funding run iss cs \<Longrightarrow> into_buildable run = Inr \<lparr>built_rows = rows run, built_feeders = iss, built_funding = cs\<rparr>"
  by (simp add: assigns_def Let_def into_buildable_def resolve_all_feeders_Some resolve_funding_Some)

text \<open>The row that makes the note an output mints.\<close>

definition makes :: "PlannedTx \<Rightarrow> MintedAt \<Rightarrow> bool" where
  "makes row r \<longleftrightarrow> pl_kind row = MigrationState.Preparation (fst r) (fst (snd r))"

definition ordered_run :: "MigrationPlan \<Rightarrow> Zatoshis list \<Rightarrow> BuildableRun \<Rightarrow> bool" where
  "ordered_run p funding built \<longleftrightarrow> (let rs = built_rows built; n = preparation_tx_count p; places = minted_places (plan_preparation_of p) in
     map (\<lambda>r. unat (pl_id r)) rs = [0..<n + length funding] \<and>
     (\<forall>d i. (d, i) \<in> waits rs \<longrightarrow> d < i \<and> pl_is_preparation (rs ! d)) \<and>
     (\<forall>i<n. \<forall>j\<in>set (built_feeders built ! i). \<exists>m. makes (rs ! m) (places ! j) \<and> (m, i) \<in> (waits rs)\<^sup>+) \<and>
     (\<forall>k<length funding. built_funding built ! k < length places \<longrightarrow>
       (\<exists>m. makes (rs ! m) (places ! (built_funding built ! k)) \<and> (m, n + k) \<in> waits rs)))"

lemma assigns_ordered:
  assumes a: "assigns p funding run iss cs" and c: "certified (plan_preparation_of p) available funding fee"
    and small: "preparation_tx_count p + length funding < 2 ^ 32" and ne: "[] \<notin> set (layers (plan_preparation_of p))"
  shows "ordered_run p funding \<lparr>built_rows = rows run, built_feeders = iss, built_funding = cs\<rparr>"
proof -
  let ?prep = "plan_preparation_of p" and ?rs = "rows run" and ?n = "preparation_tx_count p"
  let ?T = "placed_txs (layers ?prep)" and ?places = "minted_places (plan_preparation_of p)"
  have n: "length ?T = ?n" by (simp add: preparation_tx_count_def transaction_count_def placed_txs_from length_placed)
  obtain deps where
    rows: "?rs = map (row_of p ?T) [0..<?n] @ map (\<lambda>k. planned_tx_new (of_nat (?n + k)) (Transfer k) (deps (cs ! k))
        (map_option broadcast_height (list_get (transfer_schedule p) k))) [0..<length funding]"
    and deps: "\<forall>j<length (run_notes ?prep). if j < length ?places
        then \<exists>i<?n. deps j = [of_nat i] \<and> ?places ! j \<in> fst ` set (minted_of (?T ! i)) else deps j = []"
    using a unfolding assigns_def Let_def n by blast
  have iss: "map (map (\<lambda>j. ?places ! j)) iss = map priors_of ?T" "\<forall>is\<in>set iss. set is \<subseteq> {..<length ?places}"
    and cs: "length cs = length funding" "set cs \<subseteq> {..<length (run_notes ?prep)}"
    using a unfolding assigns_def Let_def by (auto simp: placed_txs_from placed_priors)
  have csn: "cs ! k < length (run_notes ?prep)" if "k < length funding" for k
  proof -
    have "cs ! k \<in> set cs" using that cs(1) by simp
    then show ?thesis using cs(2) by blast
  qed
  have r1: "i < length ?rs \<and> ?rs ! i = row_of p ?T i" if "i < ?n" for i using that by (simp add: rows nth_append)
  have r2: "?rs ! (?n + k) = planned_tx_new (of_nat (?n + k)) (Transfer k) (deps (cs ! k))
      (map_option broadcast_height (list_get (transfer_schedule p) k))" if "k < length funding" for k
    using that by (simp add: rows nth_append)
  have le: "length ?T \<le> 2 ^ 32" using small n by simp
  have prep: "unat ` set (pl_depends_on (?rs ! i)) = {j. j < ?n \<and> Suc (fst (?T ! j)) = fst (?T ! i)} \<and>
      pl_kind (?rs ! i) = MigrationState.Preparation (fst (?T ! i)) (fst (snd (?T ! i))) \<and> pl_id (?rs ! i) = of_nat i" if "i < ?n" for i
    using row_of_depends [of i "layers ?prep" p] le r1 [OF that] that n by simp
  have "unat (pl_id (?rs ! i)) = i" if "i < ?n + length funding" for i
  proof (cases "i < ?n")
    case True
    then show ?thesis using prep [OF True] small by (simp add: unat_small)
  next
    case False
    then show ?thesis using r2 [of "i - ?n"] that small by (simp add: planned_tx_new_def unat_small)
  qed
  then have ids: "map (\<lambda>r. unat (pl_id r)) ?rs = [0..<?n + length funding]"
    using arg_cong [OF rows, of length] by (intro nth_equalityI) simp_all
  have dep: "d < ?n" if "(d, i) \<in> waits ?rs" for d i
  proof (cases "i < ?n")
    case True
    then show ?thesis using prep [OF True] that by (auto simp: waits_def)
  next
    case False
    then obtain k where k0: "i = ?n + k" using le_Suc_ex not_less by blast
    have "i < length ?rs" using that unfolding waits_def by blast
    with k0 have k: "i = ?n + k" "k < length funding" using arg_cong [OF rows, of length] by simp_all
    show ?thesis using csn [OF k(2)] deps r2 [OF k(2)] that k small
      by (auto simp: waits_def planned_tx_new_def unat_small split: if_splits)
  qed
  have order: "d < i \<and> pl_is_preparation (?rs ! d)" if w: "(d, i) \<in> waits ?rs" for d i
  proof -
    have "d < i" if "i < ?n"
    proof -
      have "Suc (fst (?T ! d)) = fst (?T ! i)" using prep [OF that] w by (auto simp: waits_def)
      then show ?thesis using layer_less [of i 0 "layers ?prep" d] dep [OF w] that n by (simp add: placed_txs_from)
    qed
    with dep [OF w] prep [OF dep [OF w]] show ?thesis by (cases "i < ?n") (simp_all add: pl_is_preparation_def)
  qed
  have made: "\<exists>m<?n. ?T ! m = (l, t, tx) \<and> makes (?rs ! m) (l, t, k)" if y: "(l, t, tx) \<in> set ?T" for l t k tx
  proof -
    obtain m where m: "m < length ?T" "?T ! m = (l, t, tx)" using y by (metis in_set_conv_nth)
    then show ?thesis using prep [of m] n by (auto simp: makes_def)
  qed
  have feeders: "\<exists>m. makes (?rs ! m) (?places ! j) \<and> (m, i) \<in> (waits ?rs)\<^sup>+" if i: "i < ?n" and j: "j \<in> set (iss ! i)" for i j
  proof -
    have "length iss = ?n" using arg_cong [OF iss(1), of length] n by simp
    then have pi: "map (\<lambda>j. ?places ! j) (iss ! i) = priors_of (?T ! i)" using arg_cong [OF iss(1), of "\<lambda>xs. xs ! i"] i n by simp
    obtain l t tx l' t' k where x: "?T ! i = (l, t, tx)" and r: "?places ! j = (l', t', k)" by (metis surj_pair)
    have "(l', t', k) \<in> set (priors_of (l, t, tx))" unfolding x [symmetric] pi [symmetric] using j r by force
    moreover have "(l, t, tx) \<in> set ?T" unfolding x [symmetric] using i n by simp
    ultimately have "l' < l" "(l', t', layers ?prep ! l' ! t') \<in> set ?T" using prior_placed [OF c] by blast+
    moreover from made [OF this(2)] obtain m where m: "m < ?n" "fst (?T ! m) = l'" "makes (?rs ! m) (l', t', k)" by fastforce
    ultimately have "(m, i) \<in> (waits ?rs)\<^sup>+"
      using layers_chain [OF le ne, of ?rs p i m] r1 i x n by simp
    then show ?thesis using m(3) r by auto
  qed
  have funding: "\<exists>m. makes (?rs ! m) (?places ! (cs ! k)) \<and> (m, ?n + k) \<in> waits ?rs"
    if k: "k < length funding" and j: "cs ! k < length ?places" for k
  proof -
    have "\<exists>m<?n. deps (cs ! k) = [of_nat m] \<and> ?places ! (cs ! k) \<in> fst ` set (minted_of (?T ! m))"
      using deps [rule_format, OF csn [OF k]] j by (simp only: if_True)
    then obtain m where m: "m < ?n" "deps (cs ! k) = [of_nat m]" "?places ! (cs ! k) \<in> fst ` set (minted_of (?T ! m))" by blast
    obtain l t tx where x: "?T ! m = (l, t, tx)" by (metis surj_pair)
    from m(3) obtain v where "(?places ! (cs ! k), v) \<in> set (minted_of (l, t, tx))" unfolding x by force
    then have "makes (?rs ! m) (?places ! (cs ! k))" using prep [OF m(1)] x by (auto simp: makes_def set_minted_of)
    moreover have "(m, ?n + k) \<in> waits ?rs"
    proof -
      have "unat (of_nat m :: u32) = m" by (rule unat_small) (use m(1) small in linarith)
      then have "m = unat (of_nat m :: u32)" by simp
      moreover have "of_nat m \<in> set (pl_depends_on (?rs ! (?n + k)))" using r2 [OF k] m(2) by (simp add: planned_tx_new_def)
      moreover have "?n + k < length ?rs" using k by (simp add: rows)
      ultimately show ?thesis unfolding waits_def by blast
    qed
    ultimately show ?thesis by blast
  qed
  show ?thesis unfolding ordered_run_def Let_def using ids order feeders funding by simp
qed

section \<open>The properties\<close>

text \<open>
  C17. The run of a plan whose preparation passes the certificate and spends no funding note can be built:
  every note a preparation transaction spends is claimed, and is the one the output it names mints;
  every crossing claims a note of exactly the value it needs; and no note is claimed twice.
\<close>

theorem planned_run_buildable:
  assumes "is_valid (plan_preparation_of p) available funding fee" "spends_intermediates (plan_preparation_of p)"
    and "\<forall>tx\<in>set (concat (layers (plan_preparation_of p))). transaction_values_valid tx" "zatoshis_valid fee"
    and "plan_funding_notes p = Some funding" "zatoshis_ZERO \<notin> set funding"
  shows "\<exists>run built. planned_run p = Some run \<and> into_buildable run = Inr built \<and> built_rows built = rows run \<and>
    map (map (\<lambda>j. minted_places (plan_preparation_of p) ! j)) (built_feeders built) =
      map (\<lambda>tx. concat (map prior_ref (inputs tx))) (concat (layers (plan_preparation_of p))) \<and>
    map (\<lambda>j. run_notes (plan_preparation_of p) ! j) (built_funding built) = funding \<and>
    distinct (concat (built_feeders built) @ built_funding built)"
proof -
  have "certified (plan_preparation_of p) available funding fee" using is_valid_certified [OF assms(3,4)] assms(1) by blast
  from planned_run_ok [OF this assms(2,5,6)] obtain run iss cs where a: "planned_run p = Some run" "assigns p funding run iss cs" by blast
  then have "map (map (\<lambda>j. minted_places (plan_preparation_of p) ! j)) iss =
        map (\<lambda>tx. concat (map prior_ref (inputs tx))) (concat (layers (plan_preparation_of p)))"
    "map (\<lambda>j. run_notes (plan_preparation_of p) ! j) cs = funding" "distinct (concat iss @ cs)"
    unfolding assigns_def Let_def by blast+
  with a(1) into_buildable_ok [OF a(2)] show ?thesis
    by (intro exI [of _ run] exI [of _ "\<lparr>built_rows = rows run, built_feeders = iss, built_funding = cs\<rparr>"]) simp
qed

text \<open>
  C18. In that run the ids count up from zero, a transaction waits only on preparations before it, and,
  if no layer is empty, whoever makes a note a transaction spends is among those it waits on: for a
  crossing at once, for a preparation through the layers between them.
\<close>

theorem planned_run_ordered:
  assumes "is_valid (plan_preparation_of p) available funding fee" "spends_intermediates (plan_preparation_of p)"
    and "\<forall>tx\<in>set (concat (layers (plan_preparation_of p))). transaction_values_valid tx" "zatoshis_valid fee"
    and "plan_funding_notes p = Some funding" "zatoshis_ZERO \<notin> set funding"
    and "preparation_tx_count p + length funding < 2 ^ 32" "[] \<notin> set (layers (plan_preparation_of p))"
  shows "\<exists>run built. planned_run p = Some run \<and> into_buildable run = Inr built \<and>
    map (\<lambda>r. unat (pl_id r)) (rows run) = [0..<preparation_tx_count p + length funding] \<and>
    (\<forall>d i. (d, i) \<in> waits (rows run) \<longrightarrow> d < i \<and> pl_is_preparation (rows run ! d)) \<and>
    (\<forall>i<preparation_tx_count p. \<forall>j\<in>set (built_feeders built ! i).
       \<exists>m. makes (rows run ! m) (minted_places (plan_preparation_of p) ! j) \<and> (m, i) \<in> (waits (rows run))\<^sup>+) \<and>
    (\<forall>k<length funding. built_funding built ! k < length (minted_places (plan_preparation_of p)) \<longrightarrow>
       (\<exists>m. makes (rows run ! m) (minted_places (plan_preparation_of p) ! (built_funding built ! k)) \<and>
          (m, preparation_tx_count p + k) \<in> waits (rows run)))"
proof -
  have c: "certified (plan_preparation_of p) available funding fee" using is_valid_certified [OF assms(3,4)] assms(1) by blast
  from planned_run_ok [OF this assms(2,5,6)] obtain run iss cs where a: "planned_run p = Some run" "assigns p funding run iss cs" by blast
  let ?b = "\<lparr>built_rows = rows run, built_feeders = iss, built_funding = cs\<rparr>"
  have "ordered_run p funding ?b" by (rule assigns_ordered [OF a(2) c assms(7,8)])
  with a(1) into_buildable_ok [OF a(2)] show ?thesis
    unfolding ordered_run_def Let_def BuildableRun.select_convs by (intro exI [of _ run] exI [of _ ?b]) simp
qed

lemma assigns_counts:
  assumes "assigns p funding run iss cs"
  shows "length (filter pl_is_preparation (rows run)) = preparation_tx_count p"
    "length (filter pl_is_transfer (rows run)) = length funding"
    "\<forall>t\<in>set (rows run). actions t = action_weight (pl_kind t)"
proof -
  let ?T = "placed_txs (layers (plan_preparation_of p))"
  have n: "length ?T = preparation_tx_count p"
    by (simp add: preparation_tx_count_def transaction_count_def placed_txs_from length_placed)
  have p: "pl_is_preparation (row_of p ?T i)" "\<not> pl_is_transfer (row_of p ?T i)" "actions (row_of p ?T i) = action_weight (pl_kind (row_of p ?T i))" for i
    by (simp_all add: row_of_def planned_tx_new_def pl_is_preparation_def pl_is_transfer_def split: prod.split)
  have x: "\<not> pl_is_preparation (planned_tx_new i (Transfer k) ds h)" "pl_is_transfer (planned_tx_new i (Transfer k) ds h)"
      "actions (planned_tx_new i (Transfer k) ds h) = action_weight (pl_kind (planned_tx_new i (Transfer k) ds h))" for i k ds h
    by (simp_all add: planned_tx_new_def pl_is_preparation_def pl_is_transfer_def)
  from assms obtain deps where rows: "rows run = map (row_of p ?T) [0..<length ?T] @
      map (\<lambda>k. planned_tx_new (of_nat (length ?T + k)) (Transfer k) (deps (cs ! k))
        (map_option broadcast_height (list_get (transfer_schedule p) k))) [0..<length funding]"
    unfolding assigns_def Let_def by blast
  show "length (filter pl_is_preparation (rows run)) = preparation_tx_count p"
    "length (filter pl_is_transfer (rows run)) = length funding"
    unfolding rows by (simp_all add: filter_map comp_def p x n)
  show "\<forall>t\<in>set (rows run). actions t = action_weight (pl_kind t)" unfolding rows by (auto simp: p x)
qed

text \<open>
  C19. The signing rounds of such a plan group exactly the transactions of its run, each round within the
  budget unless it is a single transaction; there are as many as the count that is computed from the
  plan's shape alone; and no grouping of the run has fewer.
\<close>

theorem plan_signing_rounds_optimal:
  assumes "is_valid (plan_preparation_of p) available funding fee" "spends_intermediates (plan_preparation_of p)"
    and "\<forall>tx\<in>set (concat (layers (plan_preparation_of p))). transaction_values_valid tx" "zatoshis_valid fee"
    and "plan_funding_notes p = Some funding" "zatoshis_ZERO \<notin> set funding" and "budget \<noteq> 0"
  shows "\<exists>txs rounds. planned_transactions p = Some txs \<and> signing_rounds p budget = Some rounds \<and>
    mset (concat (map round_txs rounds)) = mset txs \<and> (\<forall>r\<in>set rounds. within_budget budget (round_txs r)) \<and>
    signing_round_count p budget = Some (length rounds) \<and>
    (\<forall>bs. mset (concat bs) = mset txs \<and> (\<forall>b\<in>set bs. within_budget budget b) \<longrightarrow> length rounds \<le> length bs)"
proof -
  have "certified (plan_preparation_of p) available funding fee" using is_valid_certified [OF assms(3,4)] assms(1) by blast
  from planned_run_ok [OF this assms(2,5,6)] obtain run iss cs where a: "planned_run p = Some run" "assigns p funding run iss cs" by blast
  note n = assigns_counts [OF a(2)]
  from min_rounds_optimal_aux [OF assms(7) n(3)] obtain rounds where r: "min_rounds_pack (rows run) budget = Some rounds"
    "mset (concat (map round_txs rounds)) = mset (rows run)" "\<forall>r\<in>set rounds. within_budget budget (round_txs r)"
    "min_signing_rounds (preparation_tx_count p) (length funding) budget = Some (length rounds)"
    "\<forall>bs. mset (concat bs) = mset (rows run) \<and> (\<forall>b\<in>set bs. within_budget budget b) \<longrightarrow> length rounds \<le> length bs"
    unfolding n(1,2) by blast
  have "signing_rounds p budget = Some rounds" "planned_transactions p = Some (rows run)"
    using a(1) r(1) by (simp_all add: signing_rounds_def signing_rounds_with_def planned_transactions_def)
  moreover have "signing_round_count p budget = Some (length rounds)"
    using r(4) assms(5) by (simp add: signing_round_count_def plan_shape_def transfer_tx_count_def shape_signing_rounds_def)
  ultimately show ?thesis using r(2,3,5) by blast
qed

section \<open>Witnesses\<close>

definition sample_migration_plan :: MigrationPlan where
  "sample_migration_plan = \<lparr>plan_denominations_of = \<lparr>crossing_values = [Zatoshis 15, Zatoshis 16], note_fee_buffer = Zatoshis 5,
       change = Some (Zatoshis 2), prep_fees = Zatoshis 15, total_input = Zatoshis 58, total_migratable = Zatoshis 31\<rparr>,
     plan_preparation_of = two_note_plan, prep_schedule = [[100, 110], [130]],
     transfer_schedule = [\<lparr>broadcast_height = 300, schedule_expiry_height = 400\<rparr>, \<lparr>broadcast_height = 290, schedule_expiry_height = 400\<rparr>]\<rparr>"

lemma sample_migration_plan_facts:
  "is_valid (plan_preparation_of sample_migration_plan) [Zatoshis 28, Zatoshis 30] [Zatoshis 20, Zatoshis 21] (Zatoshis 5)"
  "spends_intermediates (plan_preparation_of sample_migration_plan)"
  "\<forall>tx\<in>set (concat (layers (plan_preparation_of sample_migration_plan))). transaction_values_valid tx"
  "zatoshis_valid (Zatoshis 5)" "plan_funding_notes sample_migration_plan = Some [Zatoshis 20, Zatoshis 21]"
  "zatoshis_ZERO \<notin> set [Zatoshis 20, Zatoshis 21]" "preparation_tx_count sample_migration_plan + length [Zatoshis 20, Zatoshis 21] < 2 ^ 32"
  "[] \<notin> set (layers (plan_preparation_of sample_migration_plan))"
proof -
  have "amounts_valid [Zatoshis 28, Zatoshis 30] [Zatoshis 20, Zatoshis 21] (Zatoshis 5)"
    "split_bounded [Zatoshis 20, Zatoshis 21] (Zatoshis 5)"
    by (simp_all add: amounts_valid_def value_bounds split_bounded_def)
  from plan_layered_sound [OF this(1) stable_sort_notes_sorts this(2)]
  show "is_valid (plan_preparation_of sample_migration_plan) [Zatoshis 28, Zatoshis 30] [Zatoshis 20, Zatoshis 21] (Zatoshis 5)"
    "spends_intermediates (plan_preparation_of sample_migration_plan)"
    unfolding two_note_eval by (simp_all add: sample_migration_plan_def)
qed (simp_all add: sample_migration_plan_def two_note_plan_def transaction_values_valid_def value_bounds input_value_def output_value_def
    plan_funding_notes_def migration_outputs_def zatoshis_add_def zatoshis_from_u64_def u64_checked_add_def MAX_MONEY_eq result_ok_def
    zatoshis_ZERO_def preparation_tx_count_def transaction_count_def)

theorem planned_run_buildable_witness:
  "\<exists>run built. planned_run sample_migration_plan = Some run \<and> into_buildable run = Inr built \<and>
     map (\<lambda>j. run_notes two_note_plan ! j) (built_funding built) = [Zatoshis 20, Zatoshis 21]"
  using planned_run_buildable [OF sample_migration_plan_facts(1-6)] by (auto simp: sample_migration_plan_def)

theorem planned_run_ordered_witness:
  "\<exists>run. planned_run sample_migration_plan = Some run \<and> map (\<lambda>r. unat (pl_id r)) (rows run) = [0..<5]"
  using planned_run_ordered [OF sample_migration_plan_facts]
  by (auto simp: sample_migration_plan_def preparation_tx_count_def transaction_count_def two_note_plan_def numeral_eq_Suc)

theorem plan_signing_rounds_optimal_witness:
  "\<exists>rounds. signing_rounds sample_migration_plan BUDGET_KEYSTONE = Some rounds \<and>
     signing_round_count sample_migration_plan BUDGET_KEYSTONE = Some (length rounds)"
proof -
  have "BUDGET_KEYSTONE \<noteq> 0" by (simp add: BUDGET_KEYSTONE_def)
  from plan_signing_rounds_optimal [OF sample_migration_plan_facts(1-6) this] show ?thesis by blast
qed

text \<open>
  A layer without transactions passes the certificate and breaks the order: the transaction after it
  spends a note of the first layer and waits on nothing.
\<close>

definition gap_plan :: MigrationPlan where
  "gap_plan = \<lparr>plan_denominations_of = \<lparr>crossing_values = [Zatoshis 15], note_fee_buffer = Zatoshis 5,
       change = None, prep_fees = Zatoshis 10, total_input = Zatoshis 30, total_migratable = Zatoshis 15\<rparr>,
     plan_preparation_of = \<lparr>layers = [[\<lparr>inputs = [WalletNote 0 (Zatoshis 30)], outputs = [Intermediate (Zatoshis 25)]\<rparr>], [],
        [\<lparr>inputs = [PriorNote 0 0 0 (Zatoshis 25)], outputs = [Funding (Zatoshis 20)]\<rparr>]], direct_funding = []\<rparr>,
     prep_schedule = [[100], [], [120]], transfer_schedule = []\<rparr>"

lemma empty_layer_breaks_order:
  "is_valid (plan_preparation_of gap_plan) [Zatoshis 30] [Zatoshis 20] (Zatoshis 5) \<and>
   (\<exists>run. planned_run gap_plan = Some run \<and> prep_feeders run = [[], [Some 0]] \<and> pl_depends_on (rows run ! 1) = [])"
  by (simp add: gap_plan_def plan_eval claim_planned_note_def upt_rec funding_notes_def all_outputs_def List.map_filter_simps planned_run_def walk_preparation_def
      walk_start_def plan_layer_def plan_prep_transaction_def mint_note_def claim_planned_note_at_def claim_note_def
      plan_funding_notes_def migration_outputs_def zatoshis_add_def zatoshis_from_u64_def u64_checked_add_def MAX_MONEY_eq result_ok_def
      direct_notes_def planned_tx_new_def input_value_def output_value_def zatoshis_ZERO_def)

end
