(* ===== verification/Spec2Isabelle.thy ===== *)
theory Spec2Isabelle
  imports HistoryChain SpanningTree ViewingKeys Memo MigrationCalls MigrationServed PlannedRuns
begin

text \<open>
  A verification development of librustzcash: the parts of the Zcash libraries that decide about value,
  heights, encodings and the state of a wallet's scan and of the chain history, translated from the
  Rust sources under \<open>src/\<close> into executable definitions, with the theorems that make them correct.

  Conventions. A panic, a failed assertion and a computation that does not end are \<open>None\<close>; a
  \<open>Result\<close> is a sum with the error on the left; \<open>usize\<close> is \<open>nat\<close> (the targets are 64-bit, and sums of
  \<open>usize\<close> that the code adds are bounded in the theorems); a \<open>u64\<close> amount is a \<open>nat\<close> with the
  wrap-around of the operations written out, other machine integers are words; readers and writers
  are functions on byte lists. Code that is not under \<open>src/\<close> (BLAKE2b, the 256-bit addition, hex and
  Bech32m) is an argument of the definitions that use it; the theorems that need more of it name
  its documented behaviour as a hypothesis: \<open>blake2b_lengths\<close>, \<open>adds_u256\<close>, \<open>bech32_inverse\<close>.

  The theories, in the order they build on each other:

  \<^item> \<open>Zc_Prelude\<close>: machine integers, results, little-endian bytes, readers and writers.
  \<^item> \<open>Encoding\<close>: \<open>components/zcash_encoding\<close>. The contract of a reader and a writer is the locale
    \<open>codec\<close>, extended by \<open>canonical_codec\<close> (what is read is the one encoding of it); \<open>CompactSize\<close>,
    arrays, vectors and optional values are shown to be canonical.
  \<^item> \<open>Value\<close>: \<open>components/zcash_protocol/src/value.rs\<close>. Amounts never leave their range, and
    arithmetic is exact or fails.
  \<^item> \<open>Consensus\<close>: heights, upgrades, branches and epochs of \<open>consensus.rs\<close>, for any activation heights.
  \<^item> \<open>Memo\<close>: \<open>memo.rs\<close>, with the UTF-8 validation of the standard library written out.
  \<^item> \<open>Zip318\<close>: \<open>zip318.rs\<close>, the canonical denominations, the expiry window, the anchor grid and the
    classification of transactions.
  \<^item> \<open>Denomination\<close>: \<open>zcash_pool_migration/src/denomination.rs\<close>, the quantisation of a balance and the
    plan reconciled with the preparation planner.
  \<^item> \<open>FeeRule\<close>: the ZIP 317 fee of \<open>zcash_primitives/src/transaction/fees\<close>.
  \<^item> \<open>Scanning\<close> and \<open>SpanningTree\<close>: the scan queue of \<open>zcash_client_backend/src/data_api/scanning\<close>. A
    tree assigns a priority to every block of its span; inserting a range changes that assignment by
    the dominance rule, and flattening the tree gives the queue of that assignment.
  \<^item> \<open>HistoryNode\<close>, \<open>HistoryTree\<close>, \<open>HistoryMMR\<close> and \<open>HistoryChain\<close>: \<open>zcash_history\<close>. The interface of a
    node version is the locale \<open>history_version\<close>, interpreted for all three versions. \<open>HistoryMMR\<close>
    has the abstract specification, a list of perfect trees of decreasing heights with its post-order
    array, and proves in the locale \<open>history_mmr\<close> that appending a leaf carries out the increment of
    a binary counter and that truncating undoes it; \<open>HistoryChain\<close> states this for the current version.
  \<^item> \<open>F4Jumble\<close>, \<open>Unified\<close> and \<open>UnifiedAddress\<close>: the Feistel permutation of \<open>components/f4jumble\<close>, the
    unified containers of \<open>components/zcash_address/src/kind/unified.rs\<close>, written once for any
    implementation of the sealed traits (the locale \<open>container_kind\<close>), and unified addresses.
  \<^item> \<open>ViewingKeys\<close>: the full and incoming viewing keys of \<open>kind/unified/fvk.rs\<close> and \<open>ivk.rs\<close>, the two
    other interpretations of the container interface, and the validation of a wallet policy, whose
    scan of the template is shown to find exactly the policies that name every key once.
  \<^item> \<open>RandomDraws\<close> and \<open>Wakeups\<close>: \<open>zcash_pool_migration/src/scheduling.rs\<close>. The random source is a
    stream of 64-bit words; the draws are unbiased, the shuffle reaches every order once, the anchor
    drawn is a candidate, and the sync wake-ups are the fewest that prove every transfer in time.
  \<^item> \<open>Preparation\<close>, \<open>FirstFit\<close>, \<open>LayeredGreedy\<close> and \<open>LayeredSound\<close>:
    \<open>zcash_pool_migration/src/preparation.rs\<close> and its two strategies. The certificate \<open>is_valid\<close> is shown to say what it should (the locale \<open>spending\<close> carries
    the state of spent notes through the nested loops), the portfolio picks the best plan, and
    every plan either strategy makes passes the certificate, with at most one residual note worth a fee.
  \<^item> \<open>MigrationState\<close>: the persisted migration of \<open>zcash_pool_migration/src/engine.rs\<close> and the vocabulary of
    \<open>satisfiability.rs\<close>: transactions with their states and marks, statuses, thresholds, the answers of a
    store, and their stored names.
  \<^item> \<open>MigrationKernel\<close>: \<open>state.rs\<close>, every decision and every operation of the state machine.
    \<open>MigrationQueues\<close> has the lemmas of the queues (the dead set is the inductive \<open>doomed\<close>), and
    \<open>MigrationDecisions\<close> shows the dead set to be the least one, the next step to be safe, the status view
    to agree with it and the outlook to be honoured. \<open>MigrationMarks\<close> shows what recording
    satisfiability answers makes of each transaction. \<open>MigrationRuns\<close> has the step relation
    \<open>migration_step\<close>, one rule for each operation, the rebuild of an expired transfer among them, the
    invariant of every state reachable from a committed migration, and what a rewind and a shift of
    the schedule do.
  \<^item> \<open>MigrationProving\<close>: the operations of \<open>engine.rs\<close> that serve one transaction, proving it and rebuilding
    an expired transfer. The prover is the record \<open>MigrationProver\<close>, the wallet's keys and notes are
    \<open>MigrationCrypto\<close>, and the building, signing and reading of PCZTs is \<open>PcztTools\<close>, of types that
    stay arbitrary and functions nothing is assumed of. \<open>MigrationServed\<close> shows what a rebuild changes, at which anchor a proof
    is made, when a missing input marks the migration, and that both are runs of \<open>migration_step\<close>.
  \<^item> \<open>MigrationDrive\<close>: \<open>advance_migration\<close> of \<open>satisfiability.rs\<close>; the store is the record
    \<open>MigrationStore\<close> of the functions of the trait, a parameter. \<open>MigrationAdvance\<close> shows what an
    iteration of its loop keeps, \<open>MigrationReturns\<close> that the loop ends (each further iteration marks a
    transaction, sets one aside or moves the schedule towards the last height), and \<open>MigrationCalls\<close>
    that a call returns, is a run of \<open>migration_step\<close> that is written when it changed anything, and asks
    only for what the store has vouched for.
  \<^item> \<open>SigningRounds\<close>: \<open>signing_rounds.rs\<close>, the transactions of a run grouped into the interactions of a
    signer of bounded capacity, by the exact strategy and the greedy one, and the two inverse queries.
    \<open>SigningSound\<close> shows the groupings valid, the exact one to have the fewest rounds, and the inverse
    queries to give the least budget and the largest run.
  \<^item> \<open>MigrationPlanning\<close>: the planning half of \<open>engine.rs\<close>: the plan, the walk that says which note each
    transaction of the run mints and spends and what it waits on, the planner and the estimate of all
    runs. \<open>PlannedRuns\<close> shows that a certified plan can be built, that its transactions come after
    what they spend, and that its signing rounds are the fewest.

  How they interact: the unified containers use \<open>CompactSize\<close> of \<open>Encoding\<close> for every typecode and
  length and \<open>F4Jumble\<close> over the whole; the history nodes write their counters with \<open>Encoding\<close>; the
  denominations use the amounts of \<open>Value\<close> and the series of \<open>Zip318\<close>; the fee rule uses \<open>Value\<close>;
  the schedule draws anchors on the grid of \<open>Zip318\<close>; the preparation plans the notes the denominations
  ask for; the planner composes the denominations, the preparation, the fee rule, the signing rounds and the
  schedules into a plan; a migration carries the denominations and the preparation it was committed with, its shifts
  redraw anchors with \<open>RandomDraws\<close>, and its wake-ups are those of \<open>Wakeups\<close>.

  Loops and recursion. Structural recursion and measures are used wherever the code's loops end for
  every input. The loops of \<open>zip318.rs\<close> that divide by the radix, and the recursion of the history
  tree over links (which a malformed view can make cyclic), are partial functions whose result
  \<open>None\<close> is not returning; the theorems about them prove that a result exists. So are the closure of the
  marks and the loop of \<open>advance_migration\<close>, which end when the ids are distinct and the random words
  are positive and never stop being odd.

  Not modelled: the SQLite wallet (its operations are SQL), network and Tor clients, protobuf and
  other generated types, the proving circuits, key derivation (third-party curve arithmetic), and
  formatting; of the pool migration, committing a run, which builds and signs its transactions with
  third-party crates. Nor are the proposals and change strategies,
  equihash, and the serialisation of transparent bundles, which remain to be done.
\<close>

end
